(* ===== verification/Prelude.thy ===== *)
theory Prelude
  imports Main "HOL-Library.Word" "HOL-Library.Monad_Syntax"
begin

text \<open>
  Shared vocabulary of the development.

  \<^item> C objects of type \<open>char[]\<close> are lists of bytes; a pointer into such an object is the
    list of the bytes from the pointer to the end of the object. Reading or writing past the
    end of that list is undefined behaviour in C and a fault in the model, never a default
    value. \<open>cstr\<close> is the C string a pointer denotes, \<open>terminated\<close> says it has its NUL.
  \<^item> Code that can fault, wait for the keyboard or switch the machine off returns an
    \<open>outcome\<close>: \<open>Ret\<close> with a value and the new state, or \<open>Stop\<close> with the reason and the
    state reached. \<open>bnd\<close> sequences two such computations as the semicolon of C does.
\<close>

unbundle bit_operations_syntax

section \<open>Collections of rewrite rules\<close>

named_theorems cstr_simps \<open>closed forms of the string routines on well-formed arguments\<close>
named_theorems frame_simps \<open>parts of the machine state an operation leaves alone\<close>
named_theorems len_simps \<open>array lengths kept by every operation\<close>

section \<open>Bytes and C strings\<close>

abbreviation NUL :: char where "NUL \<equiv> CHR 0x00"

text \<open>The bytes from a pointer to the end of the object it points into.\<close>

type_synonym cptr = "char list"

definition terminated :: "cptr \<Rightarrow> bool" where
  "terminated p \<longleftrightarrow> NUL \<in> set p"

definition cstr :: "cptr \<Rightarrow> string" where
  "cstr p = takeWhile (\<lambda>c. c \<noteq> NUL) p"

text \<open>A string literal of the source is its characters followed by NUL.\<close>

definition lit :: "string \<Rightarrow> cptr" where
  "lit s = s @ [NUL]"

lemma of_char_eq_0_iff [simp]: "of_char c = (0 :: int) \<longleftrightarrow> c = NUL"
  using of_char_eq_iff [of c NUL, where 'a = int] by simp

lemma terminated_Nil [simp]: "\<not> terminated []"
  by (simp add: terminated_def)

lemma terminated_Cons [simp]: "terminated (c # p) \<longleftrightarrow> c = NUL \<or> terminated p"
  by (auto simp: terminated_def)

lemma terminated_append [simp]: "terminated (p @ q) \<longleftrightarrow> terminated p \<or> terminated q"
  by (simp add: terminated_def)

lemma terminated_replicate [simp]: "terminated (replicate n NUL) \<longleftrightarrow> 0 < n"
  by (auto simp: terminated_def)

lemma terminated_lit [simp]: "terminated (lit s)"
  by (simp add: lit_def)

lemma cstr_Nil [simp]: "cstr [] = []"
  by (simp add: cstr_def)

lemma cstr_Cons [simp]: "cstr (c # p) = (if c = NUL then [] else c # cstr p)"
  by (simp add: cstr_def)

lemma cstr_replicate [simp]: "cstr (replicate n NUL) = []"
  by (cases n) auto

lemma NUL_notin_cstr [simp]: "NUL \<notin> set (cstr p)"
  by (auto simp: cstr_def dest: set_takeWhileD)

lemma length_cstr_le: "length (cstr p) \<le> length p"
  by (simp add: cstr_def length_takeWhile_le)

lemma length_cstr_less [simp]: "terminated p \<Longrightarrow> length (cstr p) < length p"
  by (induction p) auto

lemma cstr_eq_self: "NUL \<notin> set s \<Longrightarrow> cstr s = s"
  by (induction s) auto

lemma cstr_append_terminated: "terminated p \<Longrightarrow> cstr (p @ q) = cstr p"
  by (induction p) auto

lemma cstr_append_unterminated: "NUL \<notin> set p \<Longrightarrow> cstr (p @ q) = p @ cstr q"
  by (induction p) auto

lemma cstr_NUL_prefix [simp]: "NUL \<notin> set s \<Longrightarrow> cstr (s @ NUL # q) = s"
  by (simp add: cstr_append_unterminated)

lemma cstr_lit [simp]: "NUL \<notin> set s \<Longrightarrow> cstr (lit s) = s"
  by (simp add: lit_def)

lemma cstr_decomp: "terminated p \<Longrightarrow> p = cstr p @ NUL # drop (Suc (length (cstr p))) p"
  by (induction p) auto

lemma terminated_take:
  "terminated p \<Longrightarrow> length (cstr p) < n \<Longrightarrow> terminated (take n p)"
  by (induction p arbitrary: n) (auto simp: take_Cons split: nat.splits if_splits)

lemma cstr_take:
  "length (cstr p) \<le> n \<Longrightarrow> cstr (take n p) = cstr p"
  by (induction p arbitrary: n) (auto simp: take_Cons split: nat.splits if_splits)

lemma nth_cstr: "i < length (cstr p) \<Longrightarrow> cstr p ! i = p ! i"
  by (simp add: cstr_def takeWhile_nth)

lemma nth_length_cstr: "terminated p \<Longrightarrow> p ! length (cstr p) = NUL"
  by (subst cstr_decomp) (auto simp: nth_append)

section \<open>Outcomes of kernel code\<close>

text \<open>
  \<open>Fault\<close>: an access outside an object. \<open>Blocked\<close>: the CPU stays in \<open>hlt\<close> because no
  further key event arrives. \<open>PowerOff\<close>: the shutdown sequence ended in its halt loop.
  \<open>Halted\<close>: an exception handler ended in its \<open>cli; hlt\<close> loop.
\<close>

datatype stop = Fault | Blocked | PowerOff | Halted

datatype ('a, 's) outcome = Ret 'a 's | Stop stop 's

fun bnd :: "('a, 's) outcome \<Rightarrow> ('a \<Rightarrow> 's \<Rightarrow> ('b, 's) outcome) \<Rightarrow> ('b, 's) outcome" where
  "bnd (Ret a s) f = f a s"
| "bnd (Stop e s) f = Stop e s"

text \<open>A checked read: \<open>None\<close> is an out-of-bounds access.\<close>

fun chk :: "'a option \<Rightarrow> 's \<Rightarrow> ('a, 's) outcome" where
  "chk None s = Stop Fault s"
| "chk (Some a) s = Ret a s"

lemma bnd_Ret_iff:
  "bnd m f = Ret b t \<longleftrightarrow> (\<exists>a s. m = Ret a s \<and> f a s = Ret b t)"
  by (cases m) auto

lemma bnd_assoc: "bnd (bnd m f) g = bnd m (\<lambda>a s. bnd (f a s) g)"
  by (cases m) auto

text \<open>
  What a computation guarantees: \<open>Q\<close> of its value and final state if it returns, \<open>B\<close> of the
  reason and the state if it stops. With \<open>B\<close> false at \<open>Fault\<close> this includes memory safety.
\<close>

fun runs :: "('a, 's) outcome \<Rightarrow> ('a \<Rightarrow> 's \<Rightarrow> bool) \<Rightarrow> (stop \<Rightarrow> 's \<Rightarrow> bool) \<Rightarrow> bool" where
  "runs (Ret a s) Q B \<longleftrightarrow> Q a s"
| "runs (Stop e s) Q B \<longleftrightarrow> B e s"

lemma runs_bnd: "runs m R B \<Longrightarrow> (\<And>a s. R a s \<Longrightarrow> runs (f a s) Q B) \<Longrightarrow> runs (bnd m f) Q B"
  by (cases m) auto

lemma runs_bnd_iff: "runs (bnd m f) Q B \<longleftrightarrow> runs m (\<lambda>a s. runs (f a s) Q B) B"
  by (cases m) auto

lemma runs_mono:
  "runs m Q B \<Longrightarrow> (\<And>a s. Q a s \<Longrightarrow> Q' a s) \<Longrightarrow> (\<And>e s. B e s \<Longrightarrow> B' e s) \<Longrightarrow> runs m Q' B'"
  by (cases m) auto

lemma runs_Ret: "runs m Q B \<Longrightarrow> m = Ret a s \<Longrightarrow> Q a s"
  by simp

text \<open>
  Programs are often shown to keep a relation \<open>R\<close> between the state at their start and every later state: a
  frame, or an amount of input that never grows. \<open>E\<close> is what holds when they stop early. The rules for
  sequencing need no more than a preorder.
\<close>

locale framing =
  fixes R :: "'s \<Rightarrow> 's \<Rightarrow> bool"
    and E :: "'s \<Rightarrow> stop \<Rightarrow> 's \<Rightarrow> bool"
  assumes refl: "R s s"
    and trans: "R s t \<Longrightarrow> R t u \<Longrightarrow> R s u"
    and stop_trans: "R s t \<Longrightarrow> E t e u \<Longrightarrow> E s e u"
begin

lemma runs_from: "R s t \<Longrightarrow> runs m (\<lambda>_. R t) (E t) \<Longrightarrow> runs m (\<lambda>_. R s) (E s)"
  by (cases m) (auto intro: trans stop_trans)

lemma runs_seq:
  "runs m (\<lambda>_. R s) (E s) \<Longrightarrow> (\<And>a t. R s t \<Longrightarrow> runs (f a t) (\<lambda>_. R t) (E t)) \<Longrightarrow>
   runs (bnd m f) (\<lambda>_. R s) (E s)"
  by (cases m) (auto intro: runs_from)

lemma runs_done: "runs (Ret a s) (\<lambda>_. R s) (E s)"
  by (simp add: refl)

lemma runs_check: "E s Fault s \<Longrightarrow> runs (chk x s) (\<lambda>_. R s) (E s)"
  by (cases x) (simp_all add: refl)

end

lemma bnd_cong [fundef_cong]:
  "m = m' \<Longrightarrow> (\<And>a s. m' = Ret a s \<Longrightarrow> f a s = g a s) \<Longrightarrow> bnd m f = bnd m' g"
  by (cases m') auto

section \<open>Lists\<close>

lemma nth_list_update_cases:
  "i < length xs \<Longrightarrow> xs[j := v] ! i = (if i = j then v else xs ! i)"
  by (auto simp: nth_list_update)

lemma ex_nth_update:
  assumes "idx < n" and "length xs = n"
  shows "(\<exists>i < n. P (xs[idx := x] ! i)) \<longleftrightarrow> P x \<or> (\<exists>i < n. i \<noteq> idx \<and> P (xs ! i))"
proof
  assume "\<exists>i < n. P (xs[idx := x] ! i)"
  then obtain i where "i < n" "P (xs[idx := x] ! i)" by blast
  then show "P x \<or> (\<exists>i < n. i \<noteq> idx \<and> P (xs ! i))"
    using assms by (cases "i = idx") auto
next
  assume "P x \<or> (\<exists>i < n. i \<noteq> idx \<and> P (xs ! i))"
  then show "\<exists>i < n. P (xs[idx := x] ! i)"
    using assms by (metis nth_list_update_eq nth_list_update_neq)
qed

lemma takeWhile_first:
  "(\<exists>i < length xs. length (takeWhile (\<lambda>x. \<not> P x) xs) = i \<and> P (xs ! i)) \<or>
   length (takeWhile (\<lambda>x. \<not> P x) xs) = length xs \<and> (\<forall>i < length xs. \<not> P (xs ! i))"
proof (cases "length (takeWhile (\<lambda>x. \<not> P x) xs) < length xs")
  case True
  then show ?thesis using nth_length_takeWhile [of "\<lambda>x. \<not> P x" xs] by auto
next
  case False
  then have len: "length (takeWhile (\<lambda>x. \<not> P x) xs) = length xs"
    using length_takeWhile_le [of "\<lambda>x. \<not> P x" xs] by simp
  then have "takeWhile (\<lambda>x. \<not> P x) xs = xs"
    by (metis takeWhile_eq_take take_all_iff order_refl)
  then have "\<forall>x \<in> set xs. \<not> P x" by (metis takeWhile_eq_all_conv)
  with len show ?thesis by simp
qed

section \<open>Masks as truncations\<close>

named_theorems word_masks \<open>bit masks of the source as truncations\<close>

lemma and_mask_take_bit [word_masks]:
  "x AND 0xF = take_bit 4 x" "x AND 0xFF = take_bit 8 x" "x AND 0xFFFF = take_bit 16 x"
  for x :: "'a::len word"
  by (simp_all add: take_bit_eq_mask mask_eq_exp_minus_1)

end
