(* ===== verification/Kstring.thy ===== *)
theory Kstring
  imports Prelude
begin

text \<open>
  \<open>src/src/string.c\<close> and the inline helpers of \<open>src/src/string.h\<close>: each routine is the
  recursion its loop performs, byte by byte, and returns \<open>None\<close> where the C code would
  read or write outside the object the pointer belongs to. The closed forms that follow say
  what the loops compute on well-formed arguments.
\<close>

section \<open>The routines\<close>

fun kstrlen :: "cptr \<Rightarrow> nat option" where
  "kstrlen [] = None"
| "kstrlen (c # s) = (if c \<noteq> NUL then map_option Suc (kstrlen s) else Some 0)"

fun kstrcmp :: "cptr \<Rightarrow> cptr \<Rightarrow> int option" where
  "kstrcmp (x # a) (y # b) =
     (if x \<noteq> NUL \<and> x = y then kstrcmp a b else Some (of_char x - of_char y))"
| "kstrcmp _ _ = None"

fun kstrncmp :: "cptr \<Rightarrow> cptr \<Rightarrow> nat \<Rightarrow> int option" where
  "kstrncmp _ _ 0 = Some 0"
| "kstrncmp (x # a) (y # b) (Suc n) =
     (if x \<noteq> NUL \<and> x = y then kstrncmp a b n else Some (of_char x - of_char y))"
| "kstrncmp _ _ (Suc n) = None"

fun kstrcpy :: "cptr \<Rightarrow> cptr \<Rightarrow> cptr option" where
  "kstrcpy (d # dst) (c # src) =
     (if c \<noteq> NUL then map_option (Cons c) (kstrcpy dst src) else Some (NUL # dst))"
| "kstrcpy _ _ = None"

text \<open>The second loop of \<open>kstrncpy\<close>, the zero padding.\<close>

fun kstrncpy_pad :: "cptr \<Rightarrow> nat \<Rightarrow> cptr option" where
  "kstrncpy_pad p 0 = Some p"
| "kstrncpy_pad (d # p) (Suc n) = map_option (Cons NUL) (kstrncpy_pad p n)"
| "kstrncpy_pad [] (Suc n) = None"

fun kstrncpy :: "cptr \<Rightarrow> cptr \<Rightarrow> nat \<Rightarrow> cptr option" where
  "kstrncpy dst _ 0 = Some dst"
| "kstrncpy (d # dst) (c # src) (Suc n) =
     (if c \<noteq> NUL then map_option (Cons c) (kstrncpy dst src n)
      else kstrncpy_pad (NUL # dst) (Suc n))"
| "kstrncpy _ _ (Suc n) = None"

fun kstrcat :: "cptr \<Rightarrow> cptr \<Rightarrow> cptr option" where
  "kstrcat (d # dst) src =
     (if d \<noteq> NUL then map_option (Cons d) (kstrcat dst src) else kstrcpy (d # dst) src)"
| "kstrcat [] src = None"

text \<open>
  \<open>kstrchr\<close> returns the offset of the match; \<open>Some None\<close> is the null pointer. The
  parameter is an \<open>int\<close>, compared once as \<open>(char)c\<close> and once as \<open>int\<close>.
\<close>

fun kstrchr :: "cptr \<Rightarrow> int \<Rightarrow> nat option option" where
  "kstrchr [] c = None"
| "kstrchr (x # s) c =
     (if x \<noteq> NUL
      then (if x = char_of c then Some (Some 0) else map_option (map_option Suc) (kstrchr s c))
      else Some (if c = 0 then Some 0 else None))"

fun kmemset :: "cptr \<Rightarrow> int \<Rightarrow> nat \<Rightarrow> cptr option" where
  "kmemset p c 0 = Some p"
| "kmemset (d # p) c (Suc n) = map_option (Cons (char_of c)) (kmemset p c n)"
| "kmemset [] c (Suc n) = None"

fun kmemcpy :: "cptr \<Rightarrow> cptr \<Rightarrow> nat \<Rightarrow> cptr option" where
  "kmemcpy d s 0 = Some d"
| "kmemcpy (x # d) (y # s) (Suc n) = map_option (Cons y) (kmemcpy d s n)"
| "kmemcpy _ _ (Suc n) = None"

definition kto_lower :: "int \<Rightarrow> int" where
  "kto_lower c =
     (if c \<ge> of_char CHR ''A'' \<and> c \<le> of_char CHR ''Z''
      then c + (of_char CHR ''a'' - of_char CHR ''A'') else c)"

definition kis_print :: "int \<Rightarrow> bool" where
  "kis_print c \<longleftrightarrow> c \<ge> 0x20 \<and> c \<le> 0x7E"

section \<open>Closed forms\<close>

lemma kstrlen_eq [cstr_simps]:
  "kstrlen s = (if terminated s then Some (length (cstr s)) else None)"
  by (induction s) auto

lemma kstrcmp_defined: "terminated a \<Longrightarrow> terminated b \<Longrightarrow> \<exists>r. kstrcmp a b = Some r"
  by (induction a b rule: kstrcmp.induct) auto

lemma kstrcmp_zero_iff:
  "kstrcmp a b = Some r \<Longrightarrow> r = 0 \<longleftrightarrow> cstr a = cstr b"
  by (induction a b rule: kstrcmp.induct) (auto split: if_splits)

lemma kstrcmp_eq0 [cstr_simps]:
  "terminated a \<Longrightarrow> terminated b \<Longrightarrow> kstrcmp a b = Some 0 \<longleftrightarrow> cstr a = cstr b"
  using kstrcmp_defined kstrcmp_zero_iff by fastforce

lemma kstrncmp_zero_iff:
  "kstrncmp a b n = Some r \<Longrightarrow> r = 0 \<longleftrightarrow> take n (cstr a) = take n (cstr b)"
  by (induction a b n rule: kstrncmp.induct) (auto split: if_splits)

lemma kstrncmp_defined: "terminated a \<Longrightarrow> terminated b \<Longrightarrow> \<exists>r. kstrncmp a b n = Some r"
  by (induction a b n rule: kstrncmp.induct) auto

lemma kstrncpy_pad_eq:
  "kstrncpy_pad p n = (if n \<le> length p then Some (replicate n NUL @ drop n p) else None)"
  by (induction p n rule: kstrncpy_pad.induct) auto

lemma kstrncpy_eq [cstr_simps]:
  "n \<le> length dst \<Longrightarrow> terminated src \<or> n \<le> length src \<Longrightarrow>
   kstrncpy dst src n = Some (take n (cstr src @ replicate n NUL) @ drop n dst)"
proof (induction dst src n rule: kstrncpy.induct)
  case (2 d dst c src n)
  then show ?case
    by (auto simp: kstrncpy_pad_eq take_Cons' simp flip: replicate_Suc)
qed auto

lemma kstrcpy_eq [cstr_simps]:
  "terminated src \<Longrightarrow> length (cstr src) < length dst \<Longrightarrow>
   kstrcpy dst src = Some (cstr src @ NUL # drop (Suc (length (cstr src))) dst)"
  by (induction dst src rule: kstrcpy.induct) auto

lemma kstrcpy_overflow: "length dst \<le> length (cstr src) \<Longrightarrow> kstrcpy dst src = None"
  by (induction dst src rule: kstrcpy.induct) (auto split: if_splits)

lemma kstrcat_eq [cstr_simps]:
  "terminated dst \<Longrightarrow> terminated src \<Longrightarrow> length (cstr dst) + length (cstr src) < length dst \<Longrightarrow>
   kstrcat dst src =
     Some (cstr dst @ cstr src @ NUL # drop (Suc (length (cstr dst) + length (cstr src))) dst)"
  by (induction dst src rule: kstrcat.induct) (auto simp: kstrcpy_eq)

lemma kmemset_eq [cstr_simps]:
  "n \<le> length p \<Longrightarrow> kmemset p c n = Some (replicate n (char_of c) @ drop n p)"
  by (induction p c n rule: kmemset.induct) auto

lemma kmemcpy_eq [cstr_simps]:
  "n \<le> length d \<Longrightarrow> n \<le> length s \<Longrightarrow> kmemcpy d s n = Some (take n s @ drop n d)"
  by (induction d s n rule: kmemcpy.induct) auto

lemma kmemcpy_fault: "length d < n \<or> length s < n \<Longrightarrow> kmemcpy d s n = None"
  by (induction d s n rule: kmemcpy.induct) auto

end
