(* ===== verification/Vga.thy ===== *)
theory Vga
  imports Kstring
begin

text \<open>
  \<open>src/src/vga.c\<close>: the text-mode driver. The state is the driver's three static variables and
  the memory behind \<open>VGA_MEM\<close>, a function from cell index to 16-bit cell, so that a write
  outside the 80 by 25 window would be visible as a change of a cell from 2000 on. Loops over
  rows and columns are folds over the same index ranges.
\<close>

section \<open>State and colours\<close>

definition VGA_WIDTH :: nat where "VGA_WIDTH = 80"

definition VGA_HEIGHT :: nat where "VGA_HEIGHT = 25"

datatype vga_color =
    VGA_BLACK | VGA_BLUE | VGA_GREEN | VGA_CYAN | VGA_RED | VGA_MAGENTA | VGA_BROWN
  | VGA_LIGHT_GREY | VGA_DARK_GREY | VGA_LIGHT_BLUE | VGA_LIGHT_GREEN | VGA_LIGHT_CYAN
  | VGA_LIGHT_RED | VGA_LIGHT_MAGENTA | VGA_YELLOW | VGA_WHITE

fun vga_code :: "vga_color \<Rightarrow> 8 word" where
  "vga_code VGA_BLACK = 0"
| "vga_code VGA_BLUE = 1"
| "vga_code VGA_GREEN = 2"
| "vga_code VGA_CYAN = 3"
| "vga_code VGA_RED = 4"
| "vga_code VGA_MAGENTA = 5"
| "vga_code VGA_BROWN = 6"
| "vga_code VGA_LIGHT_GREY = 7"
| "vga_code VGA_DARK_GREY = 8"
| "vga_code VGA_LIGHT_BLUE = 9"
| "vga_code VGA_LIGHT_GREEN = 10"
| "vga_code VGA_LIGHT_CYAN = 11"
| "vga_code VGA_LIGHT_RED = 12"
| "vga_code VGA_LIGHT_MAGENTA = 13"
| "vga_code VGA_YELLOW = 14"
| "vga_code VGA_WHITE = 15"

record vga =
  row :: nat
  col :: nat
  color :: "8 word"
  VGA_MEM :: "nat \<Rightarrow> 16 word"

section \<open>Operations\<close>

definition make_entry :: "char \<Rightarrow> 8 word \<Rightarrow> 16 word" where
  "make_entry c attr = of_char c OR push_bit 8 (ucast attr)"

definition vga_set_color :: "8 word \<Rightarrow> 8 word \<Rightarrow> vga \<Rightarrow> vga" where
  "vga_set_color fg bg v = v\<lparr>color := fg OR push_bit 4 bg\<rparr>"

definition vga_clear :: "vga \<Rightarrow> vga" where
  "vga_clear v =
     v\<lparr>VGA_MEM :=
          fold (\<lambda>y. fold (\<lambda>x m. m(y * VGA_WIDTH + x := make_entry CHR '' '' (color v)))
                         [0..<VGA_WIDTH])
               [0..<VGA_HEIGHT] (VGA_MEM v),
       row := 0, col := 0\<rparr>"

definition vga_init :: "vga \<Rightarrow> vga" where
  "vga_init v = vga_clear (vga_set_color (vga_code VGA_LIGHT_GREY) (vga_code VGA_BLACK) v)"

definition scroll_if_needed :: "vga \<Rightarrow> vga" where
  "scroll_if_needed v =
     (if row v < VGA_HEIGHT then v
      else
        (let shifted =
               fold (\<lambda>y. fold (\<lambda>x m. m((y - 1) * VGA_WIDTH + x := m (y * VGA_WIDTH + x)))
                              [0..<VGA_WIDTH])
                    [1..<VGA_HEIGHT] (VGA_MEM v);
             cleared =
               fold (\<lambda>x m. m((VGA_HEIGHT - 1) * VGA_WIDTH + x := make_entry CHR '' '' (color v)))
                    [0..<VGA_WIDTH] shifted
         in v\<lparr>VGA_MEM := cleared, row := VGA_HEIGHT - 1\<rparr>))"

definition vga_store :: "nat \<Rightarrow> 16 word \<Rightarrow> vga \<Rightarrow> vga" where
  "vga_store i e v = v\<lparr>VGA_MEM := (VGA_MEM v)(i := e)\<rparr>"

definition vga_putchar :: "char \<Rightarrow> vga \<Rightarrow> vga" where
  "vga_putchar c v =
     (if c = CHR 0x0A then scroll_if_needed (v\<lparr>col := 0, row := row v + 1\<rparr>)
      else if c = CHR 0x08 then
        (let w = (if col v > 0 then v\<lparr>col := col v - 1\<rparr>
                  else if row v > 0 then v\<lparr>row := row v - 1, col := VGA_WIDTH - 1\<rparr>
                  else v)
         in vga_store (row w * VGA_WIDTH + col w) (make_entry CHR '' '' (color w)) w)
      else
        (let w = vga_store (row v * VGA_WIDTH + col v) (make_entry c (color v)) v;
             w = w\<lparr>col := col w + 1\<rparr>
         in if col w \<ge> VGA_WIDTH
            then scroll_if_needed (w\<lparr>col := 0, row := row w + 1\<rparr>)
            else w))"

fun vga_write :: "cptr \<Rightarrow> vga \<Rightarrow> vga option" where
  "vga_write [] v = None"
| "vga_write (c # s) v = (if c \<noteq> NUL then vga_write s (vga_putchar c v) else Some v)"

definition vga_writeln :: "cptr \<Rightarrow> vga \<Rightarrow> vga option" where
  "vga_writeln s v = do { w \<leftarrow> vga_write s v; Some (vga_putchar CHR 0x0A w) }"

text \<open>
  The digit loop of \<open>vga_write_dec\<close>: \<open>buf[0..i)\<close> is the list of characters stored so far,
  and a store at index 11 would be out of bounds.
\<close>

function dec_loop :: "32 word \<Rightarrow> string \<Rightarrow> string option" where
  "dec_loop n buf =
     (if n > 0 then
        (if length buf < 11
         then dec_loop (n div 10) (buf @ [char_of (48 + unat (n mod 10))])
         else None)
      else Some buf)"
  by pat_completeness auto
termination
proof (relation "measure (\<lambda>(n, buf). unat n)")
  fix n :: "32 word" and buf :: string
  assume "n > 0"
  then have "unat n > 0" by (simp add: unat_gt_0)
  then show "((n div 10, buf @ [char_of (48 + unat (n mod 10))]), n, buf) \<in> measure (\<lambda>(n, buf). unat n)"
    by (simp add: unat_div)
qed simp

declare dec_loop.simps [simp del]

definition vga_write_dec :: "32 word \<Rightarrow> vga \<Rightarrow> vga option" where
  "vga_write_dec n v =
     (if n = 0 then Some (vga_putchar CHR ''0'' v)
      else do { buf \<leftarrow> dec_loop n []; Some (fold vga_putchar (rev buf) v) })"

definition hex_table :: string where
  "hex_table = ''0123456789ABCDEF''"

fun hex_loop :: "32 word \<Rightarrow> nat list \<Rightarrow> bool \<Rightarrow> vga \<Rightarrow> vga" where
  "hex_loop n [] started v = v"
| "hex_loop n (shift # shifts) started v =
     (let c = hex_table ! unat (drop_bit shift n AND 0xF)
      in if c \<noteq> CHR ''0'' \<or> started \<or> shift = 0
         then hex_loop n shifts True (vga_putchar c v)
         else hex_loop n shifts started v)"

definition vga_write_hex :: "32 word \<Rightarrow> vga \<Rightarrow> vga" where
  "vga_write_hex n v = hex_loop n [28, 24, 20, 16, 12, 8, 4, 0] False v"

section \<open>Closed forms of the loops\<close>

lemma fold_fill:
  "fold (\<lambda>x m. m(b + x := e)) [0..<n] m = (\<lambda>i. if b \<le> i \<and> i < b + n then e else m i)"
  for m :: "nat \<Rightarrow> 'a"
  by (induction n) (auto simp: fun_eq_iff)

lemma fold_fill_rows:
  "fold (\<lambda>y. fold (\<lambda>x m. m(y * w + x := e)) [0..<w]) [0..<h] m
     = (\<lambda>i. if i < h * w then e else m i)"
  for m :: "nat \<Rightarrow> 'a"
proof (induction h)
  case 0
  then show ?case by simp
next
  case (Suc h)
  have "fold (\<lambda>y. fold (\<lambda>x m. m(y * w + x := e)) [0..<w]) [0..<Suc h] m
      = fold (\<lambda>x m. m(h * w + x := e)) [0..<w] (\<lambda>i. if i < h * w then e else m i)"
    unfolding upt_Suc_append [OF le0] fold_append o_apply Suc by simp
  also have "\<dots> = (\<lambda>i. if i < Suc h * w then e else m i)"
    unfolding fold_fill by (rule ext) auto
  finally show ?case .
qed

lemma fold_copy_row:
  "n \<le> w \<Longrightarrow>
   fold (\<lambda>x m. m(b + x := m (b + w + x))) [0..<n] m
     = (\<lambda>i. if b \<le> i \<and> i < b + n then m (i + w) else m i)"
  for m :: "nat \<Rightarrow> 'a"
  by (induction n) (auto simp: fun_eq_iff add.commute add.left_commute less_Suc_eq)

lemma fold_shift_rows:
  "fold (\<lambda>y. fold (\<lambda>x m. m((y - 1) * w + x := m (y * w + x))) [0..<w]) [1..<Suc h] m
     = (\<lambda>i. if i < h * w then m (i + w) else m i)"
  for m :: "nat \<Rightarrow> 'a"
proof (induction h)
  case 0
  then show ?case by simp
next
  case (Suc h)
  have row: "fold (\<lambda>x m. m(h * w + x := m (w + h * w + x))) [0..<w] m'
      = (\<lambda>i. if h * w \<le> i \<and> i < h * w + w then m' (i + w) else m' i)" for m' :: "nat \<Rightarrow> 'a"
    using fold_copy_row [of w w "h * w" m'] by (simp add: add.commute)
  have "fold (\<lambda>y. fold (\<lambda>x m. m((y - 1) * w + x := m (y * w + x))) [0..<w]) [1..<Suc (Suc h)] m
      = fold (\<lambda>x m. m(h * w + x := m (w + h * w + x))) [0..<w]
          (\<lambda>i. if i < h * w then m (i + w) else m i)"
    using Suc upt_Suc_append [of 1 "Suc h"] by (simp only: fold_append o_apply) simp
  also have "\<dots> = (\<lambda>i. if i < Suc h * w then m (i + w) else m i)"
    unfolding row by (rule ext) auto
  finally show ?case .
qed

lemma vga_clear_mem:
  "VGA_MEM (vga_clear v) =
     (\<lambda>i. if i < VGA_HEIGHT * VGA_WIDTH then make_entry CHR '' '' (color v) else VGA_MEM v i)"
  by (simp add: vga_clear_def fold_fill_rows)

lemma scroll_mem:
  "VGA_HEIGHT \<le> row v \<Longrightarrow>
   scroll_if_needed v =
     v\<lparr>VGA_MEM := (\<lambda>i. if i < (VGA_HEIGHT - 1) * VGA_WIDTH then VGA_MEM v (i + VGA_WIDTH)
                      else if i < VGA_HEIGHT * VGA_WIDTH then make_entry CHR '' '' (color v)
                      else VGA_MEM v i),
       row := VGA_HEIGHT - 1\<rparr>"
  using fold_shift_rows [of VGA_WIDTH "VGA_HEIGHT - 1" "VGA_MEM v"]
  by (auto simp: scroll_if_needed_def Let_def fold_fill fun_eq_iff VGA_HEIGHT_def VGA_WIDTH_def)

lemma vga_write_eq [cstr_simps]:
  "vga_write s v = (if terminated s then Some (fold vga_putchar (cstr s) v) else None)"
  by (induction s arbitrary: v) auto

lemma vga_writeln_eq [cstr_simps]:
  "vga_writeln s v =
     (if terminated s then Some (fold vga_putchar (cstr s @ [CHR 0x0A]) v) else None)"
  by (simp add: vga_writeln_def vga_write_eq)

section \<open>Cursor and memory safety\<close>

text \<open>
  A device that consumes characters one by one: what holds for one character holds for every
  string sent to it. The driver is one such device, with \<open>same\<close> the part of the state that
  printing never touches.
\<close>

locale char_sink =
  fixes put :: "char \<Rightarrow> 's \<Rightarrow> 's"
    and ok :: "'s \<Rightarrow> bool"
    and same :: "'s \<Rightarrow> 's \<Rightarrow> bool"
  assumes ok_put: "ok s \<Longrightarrow> ok (put c s)"
    and same_put: "ok s \<Longrightarrow> same s (put c s)"
    and same_refl: "same s s"
    and same_trans: "same s t \<Longrightarrow> same t u \<Longrightarrow> same s u"
begin

lemma puts_ok: "ok s \<Longrightarrow> ok (fold put cs s)"
  by (induction cs arbitrary: s) (auto intro: ok_put)

lemma puts_same: "ok s \<Longrightarrow> same s (fold put cs s)"
proof (induction cs arbitrary: s)
  case Nil
  then show ?case by (simp add: same_refl)
next
  case (Cons c cs)
  then show ?case by (auto intro: same_trans same_put ok_put)
qed

end

definition vga_wf :: "vga \<Rightarrow> bool" where
  "vga_wf v \<longleftrightarrow> row v < VGA_HEIGHT \<and> col v < VGA_WIDTH"

definition vga_kept :: "vga \<Rightarrow> vga \<Rightarrow> bool" where
  "vga_kept v w \<longleftrightarrow>
     color w = color v \<and> (\<forall>i \<ge> VGA_HEIGHT * VGA_WIDTH. VGA_MEM w i = VGA_MEM v i)"

lemma scroll_sel [simp]:
  "row (scroll_if_needed v) = min (row v) (VGA_HEIGHT - 1)"
  "col (scroll_if_needed v) = col v" "color (scroll_if_needed v) = color v"
  by (auto simp: scroll_if_needed_def Let_def VGA_HEIGHT_def)

lemma scroll_kept: "vga_kept v (scroll_if_needed v)"
proof (cases "row v < VGA_HEIGHT")
  case True
  then show ?thesis by (simp add: scroll_if_needed_def vga_kept_def)
next
  case False
  then show ?thesis by (simp add: scroll_mem vga_kept_def VGA_HEIGHT_def VGA_WIDTH_def)
qed

lemma cell_in_window: "vga_wf v \<Longrightarrow> row v * VGA_WIDTH + col v < VGA_HEIGHT * VGA_WIDTH"
proof -
  assume "vga_wf v"
  then have "row v \<le> 24" and "col v < 80"
    by (auto simp: vga_wf_def VGA_HEIGHT_def VGA_WIDTH_def)
  then have "row v * 80 + col v < 24 * 80 + 80" by linarith
  then show ?thesis by (simp add: VGA_HEIGHT_def VGA_WIDTH_def)
qed

lemma vga_kept_trans: "vga_kept u v \<Longrightarrow> vga_kept v w \<Longrightarrow> vga_kept u w"
  by (auto simp: vga_kept_def)

lemma vga_kept_store:
  "i < VGA_HEIGHT * VGA_WIDTH \<Longrightarrow> vga_kept v (vga_store i e v)"
  by (auto simp: vga_kept_def vga_store_def)

lemma vga_kept_cursor [simp]:
  "vga_kept v (w\<lparr>col := c\<rparr>) = vga_kept v w" "vga_kept v (w\<lparr>row := r\<rparr>) = vga_kept v w"
  "vga_kept (w\<lparr>col := c\<rparr>) v = vga_kept w v" "vga_kept (w\<lparr>row := r\<rparr>) v = vga_kept w v"
  by (auto simp: vga_kept_def)

lemma vga_store_sel [simp]:
  "row (vga_store i e v) = row v" "col (vga_store i e v) = col v"
  "color (vga_store i e v) = color v" "VGA_MEM (vga_store i e v) = (VGA_MEM v)(i := e)"
  by (simp_all add: vga_store_def)

lemma vga_putchar_wf: "vga_wf v \<Longrightarrow> vga_wf (vga_putchar c v)"
  unfolding vga_putchar_def Let_def
  by (auto simp: vga_wf_def VGA_HEIGHT_def VGA_WIDTH_def)

lemma vga_putchar_kept:
  assumes "vga_wf v"
  shows "vga_kept v (vga_putchar c v)"
proof -
  have nl: "vga_kept v (scroll_if_needed (v\<lparr>col := 0, row := row v + 1\<rparr>))"
    using scroll_kept [of "v\<lparr>col := 0, row := row v + 1\<rparr>"] by simp
  define w where "w = vga_store (row v * VGA_WIDTH + col v) (make_entry c (color v)) v"
  have w: "vga_kept v w"
    unfolding w_def using cell_in_window [OF assms] by (rule vga_kept_store)
  have wrap: "vga_kept v (scroll_if_needed (w\<lparr>col := 0, row := row w + 1\<rparr>))"
    using vga_kept_trans [OF _ scroll_kept] w by simp
  define b where "b = (if col v > 0 then v\<lparr>col := col v - 1\<rparr>
      else if row v > 0 then v\<lparr>row := row v - 1, col := VGA_WIDTH - 1\<rparr> else v)"
  have b: "vga_wf b" and vb: "vga_kept v b"
    using assms by (auto simp: b_def vga_wf_def vga_kept_def VGA_WIDTH_def)
  have bs: "vga_kept v (vga_store (row b * VGA_WIDTH + col b) (make_entry CHR '' '' (color b)) b)"
    using vga_kept_trans [OF vb vga_kept_store [OF cell_in_window [OF b]]] .
  show ?thesis
    using nl wrap w bs unfolding vga_putchar_def Let_def b_def [symmetric] w_def [symmetric]
    by (simp add: w_def)
qed

interpretation vga_out: char_sink vga_putchar vga_wf vga_kept
proof
  show "vga_wf v \<Longrightarrow> vga_wf (vga_putchar c v)" for v c by (rule vga_putchar_wf)
  show "vga_wf v \<Longrightarrow> vga_kept v (vga_putchar c v)" for v c by (rule vga_putchar_kept)
  show "vga_kept v v" for v by (simp add: vga_kept_def)
  show "vga_kept u v \<Longrightarrow> vga_kept v w \<Longrightarrow> vga_kept u w" for u v w by (rule vga_kept_trans)
qed

lemma vga_clear_wf [simp]: "vga_wf (vga_clear v)"
  by (simp add: vga_clear_def vga_wf_def VGA_HEIGHT_def VGA_WIDTH_def)

lemma vga_init_wf [simp]: "vga_wf (vga_init v)"
  by (simp add: vga_init_def)

lemma vga_set_color_wf [simp]: "vga_wf (vga_set_color f b v) = vga_wf v"
  by (simp add: vga_set_color_def vga_wf_def)

lemma vga_clear_kept: "vga_kept v (vga_clear v)"
  by (auto simp: vga_kept_def vga_clear_mem) (simp add: vga_clear_def)

section \<open>Number output\<close>

text \<open>Reading a numeral back: the specification of the two number printers.\<close>

definition dec_val :: "string \<Rightarrow> nat" where
  "dec_val ds = foldl (\<lambda>a c. 10 * a + (of_char c - 48)) 0 ds"

definition is_decimal :: "string \<Rightarrow> nat \<Rightarrow> bool" where
  "is_decimal ds n \<longleftrightarrow>
     ds \<noteq> [] \<and> set ds \<subseteq> set ''0123456789'' \<and> dec_val ds = n \<and> (hd ds = CHR ''0'' \<longleftrightarrow> n = 0)"

definition hex_digit :: "char \<Rightarrow> nat" where
  "hex_digit c = (if of_char c < (58 :: nat) then of_char c - 48 else of_char c - 55)"

definition hex_val :: "string \<Rightarrow> nat" where
  "hex_val ds = foldl (\<lambda>a c. 16 * a + hex_digit c) 0 ds"

definition is_hex :: "string \<Rightarrow> nat \<Rightarrow> bool" where
  "is_hex ds n \<longleftrightarrow>
     ds \<noteq> [] \<and> set ds \<subseteq> set hex_table \<and> hex_val ds = n \<and> (hd ds = CHR ''0'' \<longleftrightarrow> n = 0)"

text \<open>The digits of a number, least significant first, as the loop stores them.\<close>

fun dec_rev :: "nat \<Rightarrow> string" where
  "dec_rev n = (if n = 0 then [] else char_of (48 + n mod 10) # dec_rev (n div 10))"

declare dec_rev.simps [simp del]

lemma dec_rev_0 [simp]: "dec_rev 0 = []"
  by (simp add: dec_rev.simps)

lemma length_dec_rev: "n < 10 ^ k \<Longrightarrow> length (dec_rev n) \<le> k"
proof (induction k arbitrary: n)
  case 0
  then show ?case by simp
next
  case (Suc k)
  then have "n div 10 < 10 ^ k" by (simp add: less_mult_imp_div_less mult.commute)
  with Suc.IH show ?case by (subst dec_rev.simps) auto
qed

lemma dec_loop_eq:
  "length buf + length (dec_rev (unat n)) \<le> 11 \<Longrightarrow>
   dec_loop n buf = Some (buf @ dec_rev (unat n))"
proof (induction n buf rule: dec_loop.induct)
  case (1 n buf)
  show ?case
  proof (cases "n > 0")
    case True
    then have pos: "unat n \<noteq> 0" by (simp add: unat_eq_0)
    then have step: "dec_rev (unat n) = char_of (48 + unat (n mod 10)) # dec_rev (unat (n div 10))"
      by (subst dec_rev.simps) (simp add: unat_div unat_mod)
    with "1.prems" True "1.IH" show ?thesis
      by (subst dec_loop.simps) (simp add: step)
  next
    case False
    then have "n = 0" by (simp add: word_gt_0)
    then show ?thesis by (simp add: dec_loop.simps)
  qed
qed

lemma digit_char: "d < 10 \<Longrightarrow> char_of (48 + d) \<in> set ''0123456789''" for d :: nat
proof -
  assume "d < 10"
  then have "d \<in> {0, 1, 2, 3, 4, 5, 6, 7, 8, 9}" by auto
  then show ?thesis by (elim insertE) (simp_all add: char_of_def bit_0)
qed

lemma of_char_digit [simp]: "d < 10 \<Longrightarrow> of_char (char_of (48 + d)) = 48 + d" for d :: nat
  by (simp add: of_char_of)

lemma dec_val_snoc [simp]: "dec_val (ds @ [c]) = 10 * dec_val ds + (of_char c - 48)"
  by (simp add: dec_val_def)

lemma dec_val_rev_dec_rev: "dec_val (rev (dec_rev n)) = n"
proof (induction n rule: dec_rev.induct)
  case (1 n)
  then show ?case by (subst dec_rev.simps) (simp add: dec_val_def [of "[]"])
qed

lemma set_dec_rev: "set (dec_rev n) \<subseteq> set ''0123456789''"
proof (induction n rule: dec_rev.induct)
  case (1 n)
  then show ?case
    using digit_char [of "n mod 10"] by (subst dec_rev.simps) simp
qed

lemma last_dec_rev: "n \<noteq> 0 \<Longrightarrow> last (dec_rev n) \<noteq> CHR ''0''"
proof (induction n rule: dec_rev.induct)
  case (1 n)
  show ?case
  proof (cases "n div 10 = 0")
    case True
    then have small: "n < 10" by simp
    have "of_char (char_of (48 + n mod 10)) = 48 + n mod 10" by simp
    moreover have "of_char CHR ''0'' = (48 :: nat)" by simp
    ultimately have "char_of (48 + n mod 10) \<noteq> CHR ''0''"
      using small "1.prems" by (metis add_cancel_left_right mod_less)
    with True "1.prems" show ?thesis by (subst dec_rev.simps) simp
  next
    case False
    with "1" show ?thesis
      by (subst dec_rev.simps) (auto simp: dec_rev.simps [of "n div 10"])
  qed
qed

lemma vga_write_dec_text: "\<exists>ds. \<forall>v. vga_write_dec n v = Some (fold vga_putchar ds v)"
proof (cases "n = 0")
  case True
  then show ?thesis by (intro exI [of _ "''0''"]) (simp add: vga_write_dec_def)
next
  case False
  have "unat n < 10 ^ 10" using unsigned_less [of n, where 'a = nat] by simp
  then have "dec_loop n [] = Some (dec_rev (unat n))"
    using dec_loop_eq [of "[]" n] length_dec_rev [of "unat n" 10] by simp
  with False show ?thesis by (auto simp: vga_write_dec_def)
qed

text \<open>\<open>vga_write_dec\<close> never leaves its eleven-byte buffer and prints exactly the decimal
  numeral of its argument: digits only, no leading zero, and reading the numeral back gives the
  number.\<close>

theorem vga_write_dec_correct:
  "\<exists>ds. vga_write_dec n v = Some (fold vga_putchar ds v) \<and> is_decimal ds (unat n)"
proof (cases "n = 0")
  case True
  then show ?thesis
    by (intro exI [of _ "''0''"]) (simp add: vga_write_dec_def is_decimal_def dec_val_def)
next
  case False
  then have pos: "unat n \<noteq> 0" by (simp add: unat_eq_0)
  have "unat n < 10 ^ 10" using unsigned_less [of n, where 'a = nat] by simp
  then have "length (dec_rev (unat n)) \<le> 10" by (rule length_dec_rev)
  then have "dec_loop n [] = Some (dec_rev (unat n))"
    using dec_loop_eq [of "[]" n] by simp
  moreover have "is_decimal (rev (dec_rev (unat n))) (unat n)"
    using pos set_dec_rev [of "unat n"] last_dec_rev [OF pos] dec_val_rev_dec_rev [of "unat n"]
    by (simp add: is_decimal_def hd_rev) (subst dec_rev.simps, simp)
  ultimately show ?thesis
    using False by (auto simp: vga_write_dec_def)
qed

text \<open>The characters \<open>vga_write_hex\<close> sends, as a string.\<close>

fun hex_chars :: "32 word \<Rightarrow> nat list \<Rightarrow> bool \<Rightarrow> string" where
  "hex_chars n [] started = []"
| "hex_chars n (s # ss) started =
     (let c = hex_table ! unat (drop_bit s n AND 0xF)
      in if c \<noteq> CHR ''0'' \<or> started \<or> s = 0 then c # hex_chars n ss True
         else hex_chars n ss started)"

lemma hex_loop_eq: "hex_loop n ss st v = fold vga_putchar (hex_chars n ss st) v"
  by (induction ss arbitrary: st v) (auto simp: Let_def)

lemma vga_write_hex_text: "\<exists>ds. \<forall>v. vga_write_hex n v = fold vga_putchar ds v"
  by (auto simp: vga_write_hex_def hex_loop_eq simp del: hex_loop.simps)

lemma nibble: "unat (drop_bit s n AND 0xF) = unat n div 2 ^ s mod 16" for n :: "32 word"
proof -
  have "drop_bit s n AND 0xF = take_bit 4 (drop_bit s n)"
    by (simp add: take_bit_eq_mask mask_eq_exp_minus_1)
  then have "unat (drop_bit s n AND 0xF) = take_bit 4 (drop_bit s (unat n))"
    using unsigned_less [of n, where 'a = nat]
    by (simp only: unsigned_take_bit_eq unsigned_drop_bit_eq) (simp add: take_bit_nat_eq_self)
  then show ?thesis by (simp add: take_bit_eq_mod drop_bit_eq_div)
qed

lemma hex_table_nth:
  assumes "d < 16"
  shows "hex_table ! d \<in> set hex_table" and "hex_digit (hex_table ! d) = d"
    and "hex_table ! d = CHR ''0'' \<longleftrightarrow> d = 0"
proof -
  have "d \<in> {0, 1, 2, 3, 4, 5, 6, 7, 8, 9, 10, 11, 12, 13, 14, 15}" using assms by (simp; arith)
  then show "hex_table ! d \<in> set hex_table" and "hex_digit (hex_table ! d) = d"
    and "hex_table ! d = CHR ''0'' \<longleftrightarrow> d = 0"
    by (elim insertE; simp add: hex_table_def hex_digit_def)+
qed

lemma hex_val_append:
  "hex_val (ds @ es) = foldl (\<lambda>a c. 16 * a + hex_digit c) (hex_val ds) es"
  by (simp add: hex_val_def)

lemma set_hex_chars: "set (hex_chars n ss st) \<subseteq> set hex_table"
  by (induction ss arbitrary: st) (auto simp: Let_def nibble hex_table_nth(1))

text \<open>
  The value printed so far is the part of the number above the current nibble; leading zeros
  are skipped exactly while that part is 0.
\<close>

lemma hex_chars_val:
  assumes "st \<longleftrightarrow> unat n div 2 ^ (4 * k) \<noteq> 0"
  shows "foldl (\<lambda>a c. 16 * a + hex_digit c) (unat n div 2 ^ (4 * k))
           (hex_chars n (map (\<lambda>i. 4 * i) (rev [0..<k])) st) = unat n"
  using assms
proof (induction k arbitrary: st)
  case 0
  then show ?case by simp
next
  case (Suc k)
  define d where "d = unat n div 2 ^ (4 * k) mod 16"
  have d: "d < 16" by (simp add: d_def)
  have split: "16 * (unat n div 2 ^ (4 * Suc k)) + d = unat n div 2 ^ (4 * k)"
  proof -
    have "(2 :: nat) ^ (4 * Suc k) = 2 ^ (4 * k) * 16" by (simp add: power_add)
    then show ?thesis unfolding d_def by (simp only: div_mult2_eq mult_div_mod_eq)
  qed
  have zero: "unat n div 2 ^ (4 * k) = 0 \<longleftrightarrow> \<not> st \<and> d = 0"
    using Suc.prems split by auto
  show ?case
  proof (cases "hex_table ! d \<noteq> CHR ''0'' \<or> st \<or> 4 * k = 0")
    case True
    show ?thesis
    proof (cases "unat n div 2 ^ (4 * k) = 0")
      case False
      with True Suc.IH [of True] split d show ?thesis
        by (simp add: Let_def nibble d_def [symmetric] hex_table_nth(2))
    next
      case z: True
      with True zero d have "k = 0" by (auto simp: hex_table_nth(3))
      with z True split d show ?thesis
        using nibble [of 0 n] by (simp add: Let_def d_def hex_table_nth(2))
    qed
  next
    case False
    with zero d have z: "unat n div 2 ^ (4 * k) = 0" and "\<not> st" by (auto simp: hex_table_nth(3))
    moreover from z split have "unat n div 2 ^ (4 * Suc k) = 0" by simp
    ultimately show ?thesis
      using False Suc.IH [of False] hex_table_nth(3) [of 0] by (simp add: Let_def nibble)
  qed
qed

lemma hex_chars_hd:
  "hex_chars n (map (\<lambda>i. 4 * i) (rev [0..<Suc k])) False \<noteq> [] \<and>
   (hd (hex_chars n (map (\<lambda>i. 4 * i) (rev [0..<Suc k])) False) = CHR ''0'' \<longleftrightarrow>
    (\<forall>i \<le> k. unat n div 2 ^ (4 * i) mod 16 = 0))"
proof (induction k)
  case 0
  then show ?case using nibble [of 0 n] by (simp add: Let_def hex_table_nth(3))
next
  case (Suc k)
  then show ?case
    by (auto simp: Let_def nibble hex_table_nth(3) le_Suc_eq)
qed

lemma nibbles_zero:
  "(\<forall>i \<le> k. m div 2 ^ (4 * i) mod 16 = 0) \<longleftrightarrow> m mod 2 ^ (4 * Suc k) = (0 :: nat)"
proof (induction k)
  case 0
  then show ?case by simp
next
  case (Suc k)
  have "m mod 2 ^ (4 * Suc (Suc k)) =
      2 ^ (4 * Suc k) * (m div 2 ^ (4 * Suc k) mod 16) + m mod 2 ^ (4 * Suc k)"
    using mod_mult2_eq [of m "2 ^ (4 * Suc k)" 16] by (simp add: power_add)
  then show ?case using Suc by (auto simp: le_Suc_eq)
qed

text \<open>\<open>vga_write_hex\<close> prints exactly the hexadecimal numeral of its argument, with no
  leading zero, and reading the numeral back gives the number.\<close>

theorem vga_write_hex_correct:
  "\<exists>ds. vga_write_hex n v = fold vga_putchar ds v \<and> is_hex ds (unat n)"
proof -
  define shifts where "shifts = map (\<lambda>i. 4 * i) (rev [0..<Suc 7])"
  have shifts: "[28, 24, 20, 16, 12, 8, 4, 0] = shifts"
    by (simp add: shifts_def upt_rec numeral_eq_Suc)
  have small: "unat n < 2 ^ 32" using unsigned_less [of n, where 'a = nat] by simp
  have "hex_val (hex_chars n shifts False) = unat n"
    using hex_chars_val [of False n "Suc 7"] small by (simp add: hex_val_def shifts_def)
  moreover have "hex_chars n shifts False \<noteq> []"
    and "hd (hex_chars n shifts False) = CHR ''0'' \<longleftrightarrow> unat n = 0"
    using hex_chars_hd [of n 7] nibbles_zero [of 7 "unat n"] small
    by (simp_all only: shifts_def) simp_all
  moreover have "vga_write_hex n v = fold vga_putchar (hex_chars n shifts False) v"
    by (simp only: vga_write_hex_def hex_loop_eq shifts)
  ultimately show ?thesis
    using set_hex_chars [of n shifts False] by (auto simp: is_hex_def)
qed

section \<open>What a screen shows\<close>

definition cell :: "vga \<Rightarrow> nat \<Rightarrow> nat \<Rightarrow> 16 word" where
  "cell v r c = VGA_MEM v (r * VGA_WIDTH + c)"

definition plain :: "char \<Rightarrow> bool" where
  "plain c \<longleftrightarrow> c \<noteq> CHR 0x0A \<and> c \<noteq> CHR 0x08"

lemma vga_putchar_plain:
  "plain c \<Longrightarrow> Suc (col v) < VGA_WIDTH \<Longrightarrow>
   vga_putchar c v =
     v\<lparr>VGA_MEM := (VGA_MEM v)(row v * VGA_WIDTH + col v := make_entry c (color v)),
       col := Suc (col v)\<rparr>"
  by (simp add: vga_putchar_def plain_def Let_def vga_store_def)

lemma vga_putchars_plain:
  assumes "list_all plain s" and "vga_wf v" and "col v + length s < VGA_WIDTH"
  shows "row (fold vga_putchar s v) = row v \<and> col (fold vga_putchar s v) = col v + length s \<and>
     color (fold vga_putchar s v) = color v \<and>
     VGA_MEM (fold vga_putchar s v) =
       (\<lambda>i. let p = row v * VGA_WIDTH + col v
            in if p \<le> i \<and> i < p + length s then make_entry (s ! (i - p)) (color v) else VGA_MEM v i)"
  using assms
proof (induction s arbitrary: v)
  case Nil
  then show ?case by (auto simp: Let_def fun_eq_iff)
next
  case (Cons c s)
  define w where "w = vga_putchar c v"
  have w: "w = v\<lparr>VGA_MEM := (VGA_MEM v)(row v * VGA_WIDTH + col v := make_entry c (color v)),
       col := Suc (col v)\<rparr>"
    unfolding w_def using Cons.prems by (intro vga_putchar_plain) auto
  have "vga_wf w" and "col w + length s < VGA_WIDTH"
    using Cons.prems by (auto simp: w vga_wf_def)
  with Cons show ?case
    by (auto simp: w_def [symmetric] Let_def fun_eq_iff nth_Cons' w)
qed

text \<open>A string of ordinary characters that fits on the current line appears on it, left to
  right from the cursor, in the current colour; the cursor ends behind it, and no other cell of
  the screen changes.\<close>

theorem vga_write_shows_text:
  assumes "vga_wf v" and "list_all plain s" and "NUL \<notin> set s"
    and "col v + length s < VGA_WIDTH"
  shows "\<exists>w. vga_write (lit s) v = Some w \<and> row w = row v \<and> col w = col v + length s \<and>
     (\<forall>j < length s. cell w (row v) (col v + j) = make_entry (s ! j) (color v)) \<and>
     (\<forall>r c. c < VGA_WIDTH \<longrightarrow> (r \<noteq> row v \<or> c < col v \<or> col v + length s \<le> c) \<longrightarrow>
        cell w r c = cell v r c)"
proof -
  define w where "w = fold vga_putchar s v"
  have "vga_write (lit s) v = Some w"
    using assms(3) by (simp add: vga_write_eq w_def)
  moreover have mem: "row w = row v" "col w = col v + length s"
    "VGA_MEM w = (\<lambda>i. let p = row v * VGA_WIDTH + col v
       in if p \<le> i \<and> i < p + length s then make_entry (s ! (i - p)) (color v) else VGA_MEM v i)"
    using vga_putchars_plain [OF assms(2,1,4)] by (simp_all add: w_def)
  moreover have "cell w r c = cell v r c"
    if "c < VGA_WIDTH" and "r \<noteq> row v \<or> c < col v \<or> col v + length s \<le> c" for r c
  proof -
    have "\<not> (row v * VGA_WIDTH + col v \<le> r * VGA_WIDTH + c \<and>
        r * VGA_WIDTH + c < row v * VGA_WIDTH + col v + length s)"
    proof
      assume i: "row v * VGA_WIDTH + col v \<le> r * VGA_WIDTH + c \<and>
        r * VGA_WIDTH + c < row v * VGA_WIDTH + col v + length s"
      with that(1) assms(4) have "r * VGA_WIDTH < Suc (row v) * VGA_WIDTH"
        and "row v * VGA_WIDTH < Suc r * VGA_WIDTH"
        by (auto simp: VGA_WIDTH_def)
      then have "r = row v" by (simp only: mult_less_cancel2) simp
      with i that show False by auto
    qed
    then show ?thesis by (auto simp: cell_def mem Let_def)
  qed
  moreover have "cell w (row v) (col v + j) = make_entry (s ! j) (color v)" if "j < length s" for j
    using that by (simp add: cell_def mem Let_def)
  ultimately show ?thesis by blast
qed

theorem vga_write_shows_text_witness:
  "\<exists>w. vga_write (lit ''dug'') \<lparr>row = 3, col = 7, color = 15, VGA_MEM = \<lambda>_. 0\<rparr> = Some w \<and>
     col w = 10 \<and> cell w 3 8 = make_entry CHR ''u'' 15 \<and> cell w 4 0 = 0"
proof -
  have "list_all plain ''dug''" by (simp add: plain_def)
  then obtain w where w: "vga_write (lit ''dug'') \<lparr>row = 3, col = 7, color = 15, VGA_MEM = \<lambda>_. 0\<rparr> = Some w"
    and "col w = 7 + length ''dug''"
    and new: "\<forall>j < length ''dug''. cell w 3 (7 + j) = make_entry (''dug'' ! j) 15"
    and old: "\<forall>r c. c < VGA_WIDTH \<longrightarrow> (r \<noteq> 3 \<or> c < 7 \<or> 7 + length ''dug'' \<le> c) \<longrightarrow>
       cell w r c = cell \<lparr>row = 3, col = 7, color = 15, VGA_MEM = \<lambda>_. 0\<rparr> r c"
    using vga_write_shows_text [of "\<lparr>row = 3, col = 7, color = 15, VGA_MEM = \<lambda>_. 0\<rparr>" "''dug''"]
    by (auto simp: vga_wf_def VGA_HEIGHT_def VGA_WIDTH_def)
  then show ?thesis
    using new [rule_format, of 1] old [rule_format, of 0 4] w
    by (auto simp: cell_def VGA_WIDTH_def)
qed

text \<open>A newline on the last line moves every line up by one and blanks the last line in the
  current colour, and anywhere else it changes no cell; the cursor goes to the start of the next
  line, or of the last line after a scroll.\<close>

theorem vga_newline_scrolls:
  assumes "vga_wf v" and "c < VGA_WIDTH" and "r < VGA_HEIGHT"
  shows "cell (vga_putchar CHR 0x0A v) r c =
       (if Suc (row v) < VGA_HEIGHT then cell v r c
        else if Suc r < VGA_HEIGHT then cell v (Suc r) c
        else make_entry CHR '' '' (color v)) \<and>
     col (vga_putchar CHR 0x0A v) = 0 \<and>
     row (vga_putchar CHR 0x0A v) = min (Suc (row v)) (VGA_HEIGHT - 1)"
proof (cases "Suc (row v) < VGA_HEIGHT")
  case True
  then show ?thesis by (simp add: vga_putchar_def scroll_if_needed_def cell_def)
next
  case False
  then have last: "VGA_HEIGHT \<le> row (v\<lparr>col := 0, row := Suc (row v)\<rparr>)" by simp
  have r: "r \<le> 24" using assms(3) by (simp add: VGA_HEIGHT_def)
  have "r * 80 + c < 1920 \<longleftrightarrow> Suc r < 25" and "r * 80 + c < 2000"
    using assms(2) r by (auto simp: VGA_WIDTH_def)
  with False last show ?thesis
    by (auto simp: vga_putchar_def scroll_mem cell_def VGA_HEIGHT_def VGA_WIDTH_def
        add.commute add.left_commute)
qed

theorem vga_newline_scrolls_witness:
  "cell (vga_putchar CHR 0x0A \<lparr>row = 24, col = 5, color = 7, VGA_MEM = \<lambda>i. of_nat i\<rparr>) 2 3 = 243 \<and>
   cell (vga_putchar CHR 0x0A \<lparr>row = 24, col = 5, color = 7, VGA_MEM = \<lambda>i. of_nat i\<rparr>) 24 3
     = make_entry CHR '' '' 7"
  using vga_newline_scrolls [of "\<lparr>row = 24, col = 5, color = 7, VGA_MEM = \<lambda>i. of_nat i\<rparr>" 3 2]
    vga_newline_scrolls [of "\<lparr>row = 24, col = 5, color = 7, VGA_MEM = \<lambda>i. of_nat i\<rparr>" 3 24]
  by (simp add: vga_wf_def VGA_HEIGHT_def VGA_WIDTH_def cell_def)

text \<open>A backspace takes back the ordinary character printed just before it: the cursor is
  where it was and the one cell that was written is blank, also across the end of a line. The
  single exception is the last cell of the screen, where printing has scrolled.\<close>

theorem vga_backspace_undoes:
  assumes "vga_wf v" and "plain c"
    and "row v < VGA_HEIGHT - 1 \<or> col v < VGA_WIDTH - 1"
  shows "vga_putchar CHR 0x08 (vga_putchar c v) =
     v\<lparr>VGA_MEM := (VGA_MEM v)(row v * VGA_WIDTH + col v := make_entry CHR '' '' (color v))\<rparr>"
proof (cases "Suc (col v) < VGA_WIDTH")
  case True
  then show ?thesis
    using assms by (simp add: vga_putchar_plain) (simp add: vga_putchar_def Let_def vga_store_def)
next
  case False
  with assms have "col v = VGA_WIDTH - 1" and "Suc (row v) < VGA_HEIGHT"
    by (auto simp: vga_wf_def)
  with assms show ?thesis
    by (simp add: vga_putchar_def plain_def Let_def vga_store_def scroll_if_needed_def VGA_WIDTH_def)
qed

theorem vga_backspace_undoes_witness:
  "vga_putchar CHR 0x08 (vga_putchar CHR ''x'' \<lparr>row = 2, col = 79, color = 7, VGA_MEM = \<lambda>_. 1\<rparr>) =
   \<lparr>row = 2, col = 79, color = 7, VGA_MEM = (\<lambda>_. 1)(239 := make_entry CHR '' '' 7)\<rparr>"
  using vga_backspace_undoes [of "\<lparr>row = 2, col = 79, color = 7, VGA_MEM = \<lambda>_. 1\<rparr>" "CHR ''x''"]
  by (simp add: vga_wf_def plain_def VGA_HEIGHT_def VGA_WIDTH_def)

section \<open>Sequences of driver calls\<close>

text \<open>
  Kernel code prints by runs of calls to this driver. A run is a list of calls, executed in
  order; it faults at the first call that is given a string without its NUL.
\<close>

datatype vcall =
    Col vga_color vga_color   \<comment> \<open>\<open>vga_set_color\<close>\<close>
  | Wr cptr                   \<comment> \<open>\<open>vga_write\<close>\<close>
  | Ln cptr                   \<comment> \<open>\<open>vga_writeln\<close>\<close>
  | Dec "32 word"             \<comment> \<open>\<open>vga_write_dec\<close>\<close>
  | Hex "32 word"             \<comment> \<open>\<open>vga_write_hex\<close>\<close>
  | Ch char                   \<comment> \<open>\<open>vga_putchar\<close>\<close>
  | Clr                       \<comment> \<open>\<open>vga_clear\<close>\<close>

fun run_vcall :: "vcall \<Rightarrow> vga \<Rightarrow> vga option" where
  "run_vcall (Col fg bg) v = Some (vga_set_color (vga_code fg) (vga_code bg) v)"
| "run_vcall (Wr p) v = vga_write p v"
| "run_vcall (Ln p) v = vga_writeln p v"
| "run_vcall (Dec n) v = vga_write_dec n v"
| "run_vcall (Hex n) v = Some (vga_write_hex n v)"
| "run_vcall (Ch c) v = Some (vga_putchar c v)"
| "run_vcall Clr v = Some (vga_clear v)"

fun vcalls :: "vcall list \<Rightarrow> vga \<Rightarrow> vga option" where
  "vcalls [] v = Some v"
| "vcalls (x # xs) v = do { v \<leftarrow> run_vcall x v; vcalls xs v }"

fun vcall_ok :: "vcall \<Rightarrow> bool" where
  "vcall_ok (Wr p) = terminated p"
| "vcall_ok (Ln p) = terminated p"
| "vcall_ok _ = True"

lemma vcall_Some_iff: "(\<exists>w. run_vcall x v = Some w) \<longleftrightarrow> vcall_ok x"
proof (cases x)
  case (Dec n)
  then show ?thesis using vga_write_dec_text [of n] by auto
qed (auto simp: vga_write_eq vga_writeln_eq)

lemma vcalls_Some: "list_all vcall_ok xs \<Longrightarrow> \<exists>w. vcalls xs v = Some w"
proof (induction xs arbitrary: v)
  case (Cons x xs)
  then obtain w where "run_vcall x v = Some w" using vcall_Some_iff [of x v] by auto
  with Cons show ?case by simp
qed simp

lemma vcalls_fault: "\<not> list_all vcall_ok xs \<Longrightarrow> vcalls xs v = None"
proof (induction xs arbitrary: v)
  case (Cons x xs)
  then show ?case
    using vcall_Some_iff [of x v] by (cases "run_vcall x v") auto
qed simp

lemma vcalls_append: "vcalls (xs @ ys) v = do { v \<leftarrow> vcalls xs v; vcalls ys v }"
  by (induction xs arbitrary: v) (auto split: bind_splits)

definition screen_kept :: "vga \<Rightarrow> vga \<Rightarrow> bool" where
  "screen_kept v w \<longleftrightarrow> (\<forall>i \<ge> VGA_HEIGHT * VGA_WIDTH. VGA_MEM w i = VGA_MEM v i)"

lemma vcall_safe:
  assumes "vga_wf v" and "run_vcall x v = Some w"
  shows "vga_wf w \<and> screen_kept v w"
proof -
  have puts: "vga_wf (fold vga_putchar cs v) \<and> screen_kept v (fold vga_putchar cs v)" for cs
    using vga_out.puts_ok [OF assms(1)] vga_out.puts_same [OF assms(1)]
    by (auto simp: vga_kept_def screen_kept_def)
  show ?thesis
  proof (cases x)
    case (Dec n)
    then obtain ds where "w = fold vga_putchar ds v"
      using vga_write_dec_text [of n] assms(2) by auto
    with puts show ?thesis by simp
  next
    case (Hex n)
    then obtain ds where "w = fold vga_putchar ds v"
      using vga_write_hex_text [of n] assms(2) by auto
    with puts show ?thesis by simp
  next
    case Clr
    with assms show ?thesis using vga_clear_kept [of v] by (auto simp: vga_kept_def screen_kept_def)
  next
    case (Col f b)
    with assms show ?thesis by (auto simp: screen_kept_def vga_set_color_def vga_wf_def)
  next
    case (Wr p)
    with assms show ?thesis using puts [of "cstr p"] by (auto simp: vga_write_eq split: if_splits)
  next
    case (Ln p)
    with assms show ?thesis
      using puts [of "cstr p @ [CHR 0x0A]"] by (auto simp: vga_writeln_eq split: if_splits)
  next
    case (Ch c)
    with assms show ?thesis using puts [of "[c]"] by auto
  qed
qed

lemma vcalls_safe:
  "vga_wf v \<Longrightarrow> vcalls xs v = Some w \<Longrightarrow> vga_wf w \<and> screen_kept v w"
proof (induction xs arbitrary: v)
  case Nil
  then show ?case by (simp add: screen_kept_def)
next
  case (Cons x xs)
  then obtain u where u: "run_vcall x v = Some u" and rest: "vcalls xs u = Some w"
    by (auto split: bind_splits)
  have "vga_wf u \<and> screen_kept v u" using Cons.prems(1) u by (rule vcall_safe)
  with Cons.IH [OF _ rest] show ?case by (auto simp: screen_kept_def)
qed

text \<open>C17: no run of driver calls, whatever strings and numbers it prints and however long it is,
  moves the cursor off the 80 by 25 screen or writes a cell outside it; and a run only faults if
  it is given a string without its NUL.\<close>

theorem vga_calls_stay_on_screen:
  assumes "vga_wf v" and "list_all vcall_ok calls"
  shows "\<exists>w. vcalls calls v = Some w \<and> row w < VGA_HEIGHT \<and> col w < VGA_WIDTH \<and>
     (\<forall>i \<ge> VGA_HEIGHT * VGA_WIDTH. VGA_MEM w i = VGA_MEM v i)"
proof -
  obtain w where w: "vcalls calls v = Some w" using vcalls_Some [OF assms(2)] by blast
  with vcalls_safe [OF assms(1) w] show ?thesis by (auto simp: vga_wf_def screen_kept_def)
qed

theorem vga_calls_stay_on_screen_witness:
  "\<exists>w. vcalls [Col VGA_WHITE VGA_BLACK, Ln (lit ''dug''), Dec 42]
        \<lparr>row = 24, col = 0, color = 7, VGA_MEM = \<lambda>_. 0\<rparr> = Some w \<and> row w < VGA_HEIGHT"
  using vga_calls_stay_on_screen [of "\<lparr>row = 24, col = 0, color = 7, VGA_MEM = \<lambda>_. 0\<rparr>"
      "[Col VGA_WHITE VGA_BLACK, Ln (lit ''dug''), Dec 42]"]
  by (auto simp: vga_wf_def VGA_HEIGHT_def VGA_WIDTH_def)

end
