(* ===== verification/Pic.thy ===== *)
theory Pic
  imports Vga
begin

text \<open>
  \<open>src/src/port.h\<close> and \<open>src/src/pic.c\<close>. Port output is recorded in a log, oldest write first.
  What a port returns to \<open>inb\<close> is decided by the hardware: the field \<open>iodev\<close> is an arbitrary
  function of the writes so far and the port, so no property depends on a particular device
  except through a stated hypothesis. \<open>pic8259\<close> is the specification side: the registers of an
  8259A as the header comment of \<open>pic.c\<close> documents them, driven by the logged writes.
\<close>

section \<open>Port input and output\<close>

type_synonym iowrite = "16 word \<times> 8 word"

record io =
  iolog :: "iowrite list"
  iodev :: "iowrite list \<Rightarrow> 16 word \<Rightarrow> 8 word"

definition outb :: "16 word \<Rightarrow> 8 word \<Rightarrow> io \<Rightarrow> io" where
  "outb port val s = s\<lparr>iolog := iolog s @ [(port, val)]\<rparr>"

definition inb :: "16 word \<Rightarrow> io \<Rightarrow> 8 word" where
  "inb port s = iodev s (iolog s) port"

definition io_wait :: "io \<Rightarrow> io" where
  "io_wait s = outb 0x80 0 s"

section \<open>The interrupt controller\<close>

definition PIC1_CMD :: "16 word" where "PIC1_CMD = 0x20"
definition PIC1_DATA :: "16 word" where "PIC1_DATA = 0x21"
definition PIC2_CMD :: "16 word" where "PIC2_CMD = 0xA0"
definition PIC2_DATA :: "16 word" where "PIC2_DATA = 0xA1"
definition ICW1_INIT :: "8 word" where "ICW1_INIT = 0x11"
definition ICW4_8086 :: "8 word" where "ICW4_8086 = 0x01"
definition PIC_EOI :: "8 word" where "PIC_EOI = 0x20"
definition PIC1_OFFSET :: "8 word" where "PIC1_OFFSET = 0x20"
definition PIC2_OFFSET :: "8 word" where "PIC2_OFFSET = 0x28"
definition BIOS_PIC1_OFFSET :: "8 word" where "BIOS_PIC1_OFFSET = 0x08"
definition BIOS_PIC2_OFFSET :: "8 word" where "BIOS_PIC2_OFFSET = 0x70"

text \<open>One \<open>outb\<close> followed by the I/O delay, as the initialisation sequences write it.\<close>

definition outb_wait :: "16 word \<Rightarrow> 8 word \<Rightarrow> io \<Rightarrow> io" where
  "outb_wait port val s = io_wait (outb port val s)"

definition pic_init :: "io \<Rightarrow> vga \<Rightarrow> (io \<times> vga) option" where
  "pic_init s v = do {
     let mask1 = inb PIC1_DATA s;
     let mask2 = inb PIC2_DATA s;
     let s = outb_wait PIC1_CMD ICW1_INIT s;
     let s = outb_wait PIC2_CMD ICW1_INIT s;
     let s = outb_wait PIC1_DATA PIC1_OFFSET s;
     let s = outb_wait PIC2_DATA PIC2_OFFSET s;
     let s = outb_wait PIC1_DATA 0x04 s;
     let s = outb_wait PIC2_DATA 0x02 s;
     let s = outb_wait PIC1_DATA ICW4_8086 s;
     let s = outb_wait PIC2_DATA ICW4_8086 s;
     let s = outb PIC1_DATA mask1 s;
     let s = outb PIC2_DATA mask2 s;
     let v = vga_set_color (vga_code VGA_LIGHT_GREEN) (vga_code VGA_BLACK) v;
     v \<leftarrow> vga_writeln (lit ''  >> PIC remapped (IRQ 0-7 -> 0x20, IRQ 8-15 -> 0x28)'') v;
     Some (s, v)
   }"

definition pic_restore :: "io \<Rightarrow> io" where
  "pic_restore s =
     (let s = outb_wait PIC1_CMD ICW1_INIT s;
          s = outb_wait PIC2_CMD ICW1_INIT s;
          s = outb_wait PIC1_DATA BIOS_PIC1_OFFSET s;
          s = outb_wait PIC2_DATA BIOS_PIC2_OFFSET s;
          s = outb_wait PIC1_DATA 0x04 s;
          s = outb_wait PIC2_DATA 0x02 s;
          s = outb_wait PIC1_DATA ICW4_8086 s;
          s = outb_wait PIC2_DATA ICW4_8086 s;
          s = outb PIC1_DATA 0xFF s
      in outb PIC2_DATA 0xFF s)"

definition pic_eoi :: "8 word \<Rightarrow> io \<Rightarrow> io" where
  "pic_eoi irq s = outb PIC1_CMD PIC_EOI (if irq \<ge> 8 then outb PIC2_CMD PIC_EOI s else s)"

text \<open>
  \<open>1u << irq\<close> is a 32-bit shift, undefined in C for a count of 32 or more; the result is then
  truncated to a byte.
\<close>

definition pic_mask :: "8 word \<Rightarrow> io \<Rightarrow> io option" where
  "pic_mask irq s =
     (let (port, irq) = (if irq < 8 then (PIC1_DATA, irq) else (PIC2_DATA, irq - 8))
      in if unat irq < 32
         then Some (outb port (inb port s OR ucast (push_bit (unat irq) (1 :: 32 word))) s)
         else None)"

definition pic_unmask :: "8 word \<Rightarrow> io \<Rightarrow> io option" where
  "pic_unmask irq s =
     (let (port, irq) = (if irq < 8 then (PIC1_DATA, irq) else (PIC2_DATA, irq - 8))
      in if unat irq < 32
         then Some (outb port (inb port s AND ucast (NOT (push_bit (unat irq) (1 :: 32 word)))) s)
         else None)"

lemmas pic_ports = PIC1_CMD_def PIC1_DATA_def PIC2_CMD_def PIC2_DATA_def
lemmas pic_words = ICW1_INIT_def ICW4_8086_def PIC_EOI_def PIC1_OFFSET_def PIC2_OFFSET_def
  BIOS_PIC1_OFFSET_def BIOS_PIC2_OFFSET_def

section \<open>The 8259A as documented\<close>

text \<open>
  A command write with bit 4 set (ICW1) starts the initialisation and clears the mask register;
  the next three data writes are ICW2 (vector base), ICW3 (cascade wiring) and ICW4; after that
  a data write sets the mask register. A command write of \<open>0x20\<close> is an end of interrupt.
\<close>

datatype icw = Ready | ICW2 | ICW3 | ICW4

record pic8259 =
  phase :: icw
  vbase :: "8 word"
  cascade :: "8 word"
  mode :: "8 word"
  imr :: "8 word"
  eois :: nat

fun pic_cmd :: "8 word \<Rightarrow> pic8259 \<Rightarrow> pic8259" where
  "pic_cmd v p =
     (if bit v 4 then p\<lparr>phase := ICW2, imr := 0\<rparr>
      else if v = 0x20 then p\<lparr>eois := Suc (eois p)\<rparr> else p)"

fun pic_data :: "8 word \<Rightarrow> pic8259 \<Rightarrow> pic8259" where
  "pic_data v p =
     (case phase p of
        ICW2 \<Rightarrow> p\<lparr>phase := ICW3, vbase := v\<rparr>
      | ICW3 \<Rightarrow> p\<lparr>phase := ICW4, cascade := v\<rparr>
      | ICW4 \<Rightarrow> p\<lparr>phase := Ready, mode := v\<rparr>
      | Ready \<Rightarrow> p\<lparr>imr := v\<rparr>)"

definition pic_step :: "16 word \<Rightarrow> 16 word \<Rightarrow> iowrite \<Rightarrow> pic8259 \<Rightarrow> pic8259" where
  "pic_step cmd data w p =
     (if fst w = cmd then pic_cmd (snd w) p else if fst w = data then pic_data (snd w) p else p)"

definition master :: "pic8259 \<Rightarrow> iowrite list \<Rightarrow> pic8259" where
  "master p log = fold (pic_step PIC1_CMD PIC1_DATA) log p"

definition slave :: "pic8259 \<Rightarrow> iowrite list \<Rightarrow> pic8259" where
  "slave p log = fold (pic_step PIC2_CMD PIC2_DATA) log p"

lemma pic_init_ok:
  "\<exists>s' v'. pic_init s v = Some (s', v') \<and>
     (\<exists>log. iolog s' = iolog s @ log \<and>
       master p log = p\<lparr>phase := Ready, vbase := 32, cascade := 4, mode := 1, imr := inb PIC1_DATA s\<rparr> \<and>
       slave q log = q\<lparr>phase := Ready, vbase := 40, cascade := 2, mode := 1, imr := inb PIC2_DATA s\<rparr>)"
  by (simp add: pic_init_def Let_def vga_writeln_eq outb_wait_def outb_def io_wait_def
      master_def slave_def pic_step_def pic_ports pic_words)

text \<open>\<open>pic_init\<close> drives both controllers through their whole initialisation: vectors start at
  32 and 40, the cascade is wired on line 2, both are in 8086 mode and ready, and each mask
  register holds again the value it had on entry, so a line is masked afterwards exactly if it
  was masked before.\<close>

theorem pic_init_remaps:
  "\<exists>s' v'. pic_init s v = Some (s', v') \<and>
     (\<exists>log. iolog s' = iolog s @ log \<and>
       master p log = p\<lparr>phase := Ready, vbase := 32, cascade := 4, mode := 1, imr := inb PIC1_DATA s\<rparr> \<and>
       slave q log = q\<lparr>phase := Ready, vbase := 40, cascade := 2, mode := 1, imr := inb PIC2_DATA s\<rparr>)"
  by (rule pic_init_ok)

text \<open>\<open>pic_restore\<close> puts both controllers back to the vectors of the BIOS, 8 and 112, and
  masks all sixteen lines.\<close>

theorem pic_restore_masks_all:
  "\<exists>log. iolog (pic_restore s) = iolog s @ log \<and>
     master p log = p\<lparr>phase := Ready, vbase := 8, cascade := 4, mode := 1, imr := 0xFF\<rparr> \<and>
     slave q log = q\<lparr>phase := Ready, vbase := 112, cascade := 2, mode := 1, imr := 0xFF\<rparr>"
  by (simp add: pic_restore_def Let_def outb_wait_def outb_def io_wait_def
      master_def slave_def pic_step_def pic_ports pic_words)

section \<open>Masking single lines\<close>

definition line_masked :: "pic8259 \<Rightarrow> pic8259 \<Rightarrow> nat \<Rightarrow> bool" where
  "line_masked m sl irq \<longleftrightarrow> (if irq < 8 then bit (imr m) irq else bit (imr sl) (irq - 8))"

lemma pic_restored:
  fixes s :: io
  defines "log \<equiv> iolog (outb 0xB004 0 (outb 0x604 0 (pic_restore s)))"
  shows "phase (master p log) = Ready" and "phase (slave q log) = Ready" and "vbase (master p log) = 8"
    and "vbase (slave q log) = 112" and "irq < 16 \<Longrightarrow> line_masked (master p log) (slave q log) irq"
proof -
  show "phase (master p log) = Ready" "phase (slave q log) = Ready" "vbase (master p log) = 8" "vbase (slave q log) = 112"
    by (simp_all add: log_def pic_restore_def Let_def outb_wait_def outb_def io_wait_def master_def slave_def pic_step_def pic_ports pic_words)
  have "imr (master p log) = 0xFF" "imr (slave q log) = 0xFF"
    by (simp_all add: log_def pic_restore_def Let_def outb_wait_def outb_def io_wait_def master_def slave_def pic_step_def pic_ports pic_words)
  moreover have "bit (0xFF :: 8 word) n" if "n < 8" for n
  proof -
    have "(0xFF :: 8 word) = - 1" by simp
    with that show ?thesis by (simp only: bit_minus_1_iff possible_bit_word) simp
  qed
  ultimately show "irq < 16 \<Longrightarrow> line_masked (master p log) (slave q log) irq"
    by (auto simp: line_masked_def)
qed

text \<open>
  The documented behaviour of the two mask registers that \<open>pic_mask\<close> and \<open>pic_unmask\<close> rely on:
  outside an initialisation sequence, reading a data port returns the mask register.
\<close>

definition imr_readback :: "pic8259 \<Rightarrow> pic8259 \<Rightarrow> io \<Rightarrow> bool" where
  "imr_readback p q s \<longleftrightarrow>
     phase (master p (iolog s)) = Ready \<and> phase (slave q (iolog s)) = Ready \<and>
     inb PIC1_DATA s = imr (master p (iolog s)) \<and> inb PIC2_DATA s = imr (slave q (iolog s))"

lemma master_snoc: "master p (log @ [w]) = pic_step PIC1_CMD PIC1_DATA w (master p log)"
  by (simp add: master_def)

lemma slave_snoc: "slave p (log @ [w]) = pic_step PIC2_CMD PIC2_DATA w (slave p log)"
  by (simp add: slave_def)

lemma imr_write:
  assumes "imr_readback p q s"
  shows "imr (master p (iolog (outb PIC1_DATA v s))) = v"
    and "imr (slave q (iolog (outb PIC1_DATA v s))) = imr (slave q (iolog s))"
    and "imr (slave q (iolog (outb PIC2_DATA v s))) = v"
    and "imr (master p (iolog (outb PIC2_DATA v s))) = imr (master p (iolog s))"
  using assms
  by (simp_all add: outb_def master_snoc slave_snoc pic_step_def imr_readback_def pic_ports)

lemma bit_set_line: "j < 8 \<Longrightarrow> bit (m OR ucast ((2 :: 32 word) ^ k)) j \<longleftrightarrow> bit m j \<or> j = k"
  for m :: "8 word"
  by (auto simp: bit_or_iff bit_ucast_iff bit_exp_iff)

lemma bit_clear_line:
  "j < 8 \<Longrightarrow> bit (m AND ucast (NOT ((2 :: 32 word) ^ k))) j \<longleftrightarrow> bit m j \<and> j \<noteq> k"
  for m :: "8 word"
  by (auto simp: bit_and_iff bit_ucast_iff bit_not_iff bit_exp_iff)

lemma irq_split:
  fixes irq :: "8 word"
  assumes "unat irq < 16"
  shows "irq < 8 \<longleftrightarrow> unat irq < 8" and "\<not> irq < 8 \<Longrightarrow> unat (irq - 8) = unat irq - 8"
  by (simp_all add: word_less_nat_alt unat_sub_if')

lemma pic_unmask_ok:
  assumes "unat irq < 16" and "imr_readback p q s" and "j < 16"
  shows "\<exists>s'. pic_unmask irq s = Some s' \<and>
     line_masked (master p (iolog s')) (slave q (iolog s')) j =
       (j \<noteq> unat irq \<and> line_masked (master p (iolog s)) (slave q (iolog s)) j)"
proof -
  have rb: "inb PIC1_DATA s = imr (master p (iolog s))" "inb PIC2_DATA s = imr (slave q (iolog s))"
    using assms(2) by (simp_all add: imr_readback_def)
  show ?thesis
  proof (cases "irq < 8")
    case True
    then show ?thesis
      using assms irq_split(1) [OF assms(1)]
      by (auto simp: pic_unmask_def line_masked_def imr_write [OF assms(2)] rb bit_clear_line)
  next
    case False
    then show ?thesis
      using assms irq_split [OF assms(1)]
      by (auto simp: pic_unmask_def line_masked_def imr_write [OF assms(2)] rb bit_clear_line)
  qed
qed

text \<open>With mask registers that read back what was written, \<open>pic_unmask\<close> enables exactly the
  requested line of the sixteen and leaves the other fifteen as they were.\<close>

theorem pic_unmask_one_line:
  assumes "unat irq < 16" and "imr_readback p q s" and "j < 16"
  shows "\<exists>s'. pic_unmask irq s = Some s' \<and>
     line_masked (master p (iolog s')) (slave q (iolog s')) j =
       (j \<noteq> unat irq \<and> line_masked (master p (iolog s)) (slave q (iolog s)) j)"
  using assms by (rule pic_unmask_ok)

text \<open>With the same hypothesis, \<open>pic_mask\<close> disables exactly the requested line.\<close>

theorem pic_mask_one_line:
  assumes "unat irq < 16" and "imr_readback p q s" and "j < 16"
  shows "\<exists>s'. pic_mask irq s = Some s' \<and>
     line_masked (master p (iolog s')) (slave q (iolog s')) j =
       (j = unat irq \<or> line_masked (master p (iolog s)) (slave q (iolog s)) j)"
proof -
  have rb: "inb PIC1_DATA s = imr (master p (iolog s))" "inb PIC2_DATA s = imr (slave q (iolog s))"
    using assms(2) by (simp_all add: imr_readback_def)
  show ?thesis
  proof (cases "irq < 8")
    case True
    then show ?thesis
      using assms irq_split(1) [OF assms(1)]
      by (auto simp: pic_mask_def line_masked_def imr_write [OF assms(2)] rb bit_set_line)
  next
    case False
    then show ?thesis
      using assms irq_split [OF assms(1)]
      by (auto simp: pic_mask_def line_masked_def imr_write [OF assms(2)] rb bit_set_line)
  qed
qed

text \<open>A device whose data ports read back the mask registers of two ready, fully masked PICs.\<close>

definition pic0 :: pic8259 where
  "pic0 = \<lparr>phase = Ready, vbase = 8, cascade = 4, mode = 1, imr = 0xFF, eois = 0\<rparr>"

definition pic_dev :: "iowrite list \<Rightarrow> 16 word \<Rightarrow> 8 word" where
  "pic_dev log port =
     (if port = PIC1_DATA then imr (master pic0 log)
      else if port = PIC2_DATA then imr (slave pic0 log) else 0)"

lemma pic_dev_readback:
  "phase (master pic0 log) = Ready \<Longrightarrow> phase (slave pic0 log) = Ready \<Longrightarrow>
   imr_readback pic0 pic0 \<lparr>iolog = log, iodev = pic_dev\<rparr>"
  by (simp add: imr_readback_def inb_def pic_dev_def pic_ports)

theorem pic_unmask_one_line_witness:
  "\<exists>s'. pic_unmask 1 \<lparr>iolog = [], iodev = pic_dev\<rparr> = Some s' \<and>
     \<not> line_masked (master pic0 (iolog s')) (slave pic0 (iolog s')) 1"
  using pic_unmask_one_line [of 1 pic0 pic0 "\<lparr>iolog = [], iodev = pic_dev\<rparr>" 1]
    pic_dev_readback [of "[]"]
  by (auto simp: master_def slave_def pic0_def)

theorem pic_mask_one_line_witness:
  "\<exists>s'. pic_mask 9 \<lparr>iolog = [], iodev = pic_dev\<rparr> = Some s' \<and>
     line_masked (master pic0 (iolog s')) (slave pic0 (iolog s')) 9"
  using pic_mask_one_line [of 9 pic0 pic0 "\<lparr>iolog = [], iodev = pic_dev\<rparr>" 9]
    pic_dev_readback [of "[]"]
  by (auto simp: master_def slave_def pic0_def)

end
