(* ===== verification/Gdt.thy ===== *)
theory Gdt
  imports Prelude
begin

text \<open>
  \<open>src/src/gdt.c\<close> and the \<open>gdt_flush\<close> helper of \<open>src/src/isr_stubs.s\<close>: the five segment
  descriptors and the registers that \<open>lgdt\<close> and the segment reloads change. The linear address
  of the table is chosen by the linker and is an argument of \<open>gdt_init\<close>.
\<close>

section \<open>Descriptors and CPU registers\<close>

record gdt_entry =
  limit_low :: "16 word"
  base_low :: "16 word"
  base_mid :: "8 word"
  access :: "8 word"
  g_flags :: "8 word"
  base_high :: "8 word"

record table_ptr =
  tp_limit :: "16 word"
  tp_base :: "32 word"

record cpu =
  gdtr :: table_ptr
  idtr :: table_ptr
  reg_cs :: "16 word"
  reg_ds :: "16 word"
  reg_es :: "16 word"
  reg_fs :: "16 word"
  reg_gs :: "16 word"
  reg_ss :: "16 word"
  iflag :: bool

definition GDT_ENTRIES :: nat where "GDT_ENTRIES = 5"

section \<open>Operations\<close>

definition gdt_set ::
  "nat \<Rightarrow> 32 word \<Rightarrow> 32 word \<Rightarrow> 8 word \<Rightarrow> 8 word \<Rightarrow> gdt_entry list \<Rightarrow> gdt_entry list option" where
  "gdt_set idx base limit acc flags gdt =
     (if idx < length gdt
      then Some (gdt[idx := (gdt ! idx)\<lparr>
        base_low := ucast (base AND 0xFFFF),
        base_mid := ucast (drop_bit 16 base AND 0xFF),
        base_high := ucast (drop_bit 24 base AND 0xFF),
        limit_low := ucast (limit AND 0xFFFF),
        g_flags := ucast (drop_bit 16 limit AND 0x0F) OR (flags AND 0xF0),
        access := acc\<rparr>])
      else None)"

definition gdt_flush :: "table_ptr \<Rightarrow> cpu \<Rightarrow> cpu" where
  "gdt_flush d c =
     c\<lparr>gdtr := d, reg_ds := 0x10, reg_es := 0x10, reg_fs := 0x10, reg_gs := 0x10, reg_ss := 0x10,
       reg_cs := 0x08\<rparr>"

text \<open>\<open>sizeof(gdt)\<close> is eight bytes per packed entry.\<close>

definition gdt_init :: "32 word \<Rightarrow> gdt_entry list \<Rightarrow> cpu \<Rightarrow> (gdt_entry list \<times> cpu) option" where
  "gdt_init addr gdt c = do {
     let d = \<lparr>tp_limit = of_nat (8 * length gdt - 1), tp_base = addr\<rparr>;
     gdt \<leftarrow> gdt_set 0 0 0 0 0 gdt;
     gdt \<leftarrow> gdt_set 1 0 0xFFFFFFFF 0x9A 0xCF gdt;
     gdt \<leftarrow> gdt_set 2 0 0xFFFFFFFF 0x92 0xCF gdt;
     gdt \<leftarrow> gdt_set 3 0 0xFFFFFFFF 0xFA 0xCF gdt;
     gdt \<leftarrow> gdt_set 4 0 0xFFFFFFFF 0xF2 0xCF gdt;
     Some (gdt, gdt_flush d c)
   }"

section \<open>How the CPU reads a descriptor\<close>

definition seg_base :: "gdt_entry \<Rightarrow> 32 word" where
  "seg_base e =
     ucast (base_low e) OR push_bit 16 (ucast (base_mid e)) OR push_bit 24 (ucast (base_high e))"

definition seg_limit20 :: "gdt_entry \<Rightarrow> 32 word" where
  "seg_limit20 e = ucast (limit_low e) OR push_bit 16 (ucast (g_flags e AND 0x0F))"

text \<open>With the granularity bit the limit counts 4 KiB pages.\<close>

definition seg_limit :: "gdt_entry \<Rightarrow> 32 word" where
  "seg_limit e =
     (if bit (g_flags e) 7 then push_bit 12 (seg_limit20 e) OR 0xFFF else seg_limit20 e)"

definition seg_present :: "gdt_entry \<Rightarrow> bool" where
  "seg_present e \<longleftrightarrow> bit (access e) 7"

definition seg_dpl :: "gdt_entry \<Rightarrow> nat" where
  "seg_dpl e = unat (drop_bit 5 (access e) AND 3)"

definition seg_code :: "gdt_entry \<Rightarrow> bool" where
  "seg_code e \<longleftrightarrow> bit (access e) 4 \<and> bit (access e) 3"

definition seg_data_writable :: "gdt_entry \<Rightarrow> bool" where
  "seg_data_writable e \<longleftrightarrow> bit (access e) 4 \<and> \<not> bit (access e) 3 \<and> bit (access e) 1"

text \<open>The descriptor a selector names: bits 3 and up are the index.\<close>

definition selected :: "gdt_entry list \<Rightarrow> 16 word \<Rightarrow> gdt_entry option" where
  "selected gdt sel =
     (let i = unat (drop_bit 3 sel) in if 0 < i \<and> i < length gdt then Some (gdt ! i) else None)"

lemma gdt_set_length: "gdt_set i b l a f gdt = Some gdt' \<Longrightarrow> length gdt' = length gdt"
  by (auto simp: gdt_set_def split: if_splits)

lemma seg_base_split:
  "ucast (ucast (b AND 0xFFFF) :: 16 word)
     OR push_bit 16 (ucast (ucast (drop_bit 16 b AND 0xFF) :: 8 word))
     OR push_bit 24 (ucast (ucast (drop_bit 24 b AND 0xFF) :: 8 word)) = b" for b :: "32 word"
  unfolding word_masks
proof (rule bit_word_eqI)
  fix n
  assume n: "n < LENGTH(32)"
  consider "n < 16" | "16 \<le> n" "n < 24" | "24 \<le> n" by linarith
  then show "bit ((ucast (ucast (take_bit 16 b) :: 16 word) :: 32 word)
     OR push_bit 16 (ucast (ucast (take_bit 8 (drop_bit 16 b)) :: 8 word))
     OR push_bit 24 (ucast (ucast (take_bit 8 (drop_bit 24 b)) :: 8 word))) n = bit b n"
    using n
    by cases
       (auto simp: bit_or_iff bit_ucast_iff bit_push_bit_iff bit_drop_bit_eq bit_take_bit_iff)
qed

lemma seg_limit_split:
  "ucast (ucast (l AND 0xFFFF) :: 16 word)
     OR push_bit 16 (ucast (((ucast (drop_bit 16 l AND 0x0F) :: 8 word) OR (f AND 0xF0)) AND 0x0F))
   = take_bit 20 l" for l :: "32 word" and f :: "8 word"
proof -
  have "(a OR (f AND 0xF0)) AND 0x0F = take_bit 4 a" for a :: "8 word"
    by (simp add: bit.conj_disj_distrib2 and.assoc word_masks)
  then show ?thesis
    unfolding word_masks
    by (intro bit_word_eqI)
       (auto simp: bit_or_iff bit_ucast_iff bit_push_bit_iff bit_drop_bit_eq bit_take_bit_iff)
qed

text \<open>The CPU reads back from a descriptor what \<open>gdt_set\<close> was asked to store: the whole
  32-bit base, the low 20 bits of the limit and the access byte, whatever the entry held
  before; the other entries are untouched.\<close>

theorem gdt_set_roundtrip:
  assumes "idx < length gdt"
  shows "\<exists>gdt'. gdt_set idx base limit acc flags gdt = Some gdt' \<and>
     seg_base (gdt' ! idx) = base \<and> seg_limit20 (gdt' ! idx) = take_bit 20 limit \<and>
     access (gdt' ! idx) = acc \<and> g_flags (gdt' ! idx) AND 0xF0 = flags AND 0xF0 \<and>
     (\<forall>j. j \<noteq> idx \<longrightarrow> gdt' ! j = gdt ! j)"
proof -
  have "((ucast (drop_bit 16 limit AND 0x0F) :: 8 word) OR (flags AND 0xF0)) AND 0xF0
      = flags AND 0xF0"
  proof -
    have "(ucast (take_bit 4 x) :: 8 word) AND 0xF0 = 0" for x :: "32 word"
      by (rule bit_word_eqI)
         (auto simp: bit_and_iff bit_ucast_iff bit_take_bit_iff less_Suc_eq numeral_eq_Suc)
    then show ?thesis by (simp add: bit.conj_disj_distrib2 and.assoc word_masks)
  qed
  then show ?thesis
    using assms seg_base_split [of base] seg_limit_split [of limit flags]
    by (simp add: gdt_set_def seg_base_def seg_limit20_def)
qed

theorem gdt_set_roundtrip_witness:
  "\<exists>gdt'. gdt_set 0 0x12345678 0xABCDE 0x9A 0xCF
       [\<lparr>limit_low = 0, base_low = 0, base_mid = 0, access = 0, g_flags = 0, base_high = 0\<rparr>] = Some gdt' \<and>
     seg_base (gdt' ! 0) = 0x12345678"
  using gdt_set_roundtrip [of 0
      "[\<lparr>limit_low = 0, base_low = 0, base_mid = 0, access = 0, g_flags = 0, base_high = 0\<rparr>]"
      "0x12345678" "0xABCDE" "0x9A" "0xCF"]
  by auto

definition null_entry :: gdt_entry where
  "null_entry =
     \<lparr>limit_low = 0, base_low = 0, base_mid = 0, access = 0, g_flags = 0, base_high = 0\<rparr>"

definition flat_segment :: "gdt_entry \<Rightarrow> nat \<Rightarrow> bool" where
  "flat_segment e dpl \<longleftrightarrow>
     seg_present e \<and> seg_base e = 0 \<and> seg_limit e = 0xFFFFFFFF \<and> seg_dpl e = dpl"

lemmas seg_defs = flat_segment_def seg_present_def seg_base_def seg_limit_def seg_limit20_def
  seg_dpl_def seg_code_def seg_data_writable_def

lemma list5: "length xs = 5 \<Longrightarrow> \<exists>a b c d e. xs = [a, b, c, d, e]"
  by (auto simp: length_Suc_conv numeral_eq_Suc)

lemma gdt_init_ok:
  assumes "length gdt = GDT_ENTRIES"
  shows "\<exists>gdt' c'. gdt_init addr gdt c = Some (gdt', c') \<and>
     gdtr c' = \<lparr>tp_limit = 39, tp_base = addr\<rparr> \<and> gdt' ! 0 = null_entry \<and>
     flat_segment (gdt' ! 1) 0 \<and> seg_code (gdt' ! 1) \<and>
     flat_segment (gdt' ! 2) 0 \<and> seg_data_writable (gdt' ! 2) \<and>
     flat_segment (gdt' ! 3) 3 \<and> seg_code (gdt' ! 3) \<and>
     flat_segment (gdt' ! 4) 3 \<and> seg_data_writable (gdt' ! 4) \<and>
     selected gdt' (reg_cs c') = Some (gdt' ! 1) \<and>
     list_all (\<lambda>sel. selected gdt' sel = Some (gdt' ! 2))
       [reg_ds c', reg_es c', reg_fs c', reg_gs c', reg_ss c']"
proof -
  from assms obtain a0 a1 a2 a3 a4 where gdt: "gdt = [a0, a1, a2, a3, a4]"
    using list5 [of gdt] by (auto simp: GDT_ENTRIES_def)
  show ?thesis
    by (cases a0; simp add: gdt gdt_init_def gdt_set_def gdt_flush_def selected_def null_entry_def
        seg_defs)
qed

text \<open>\<open>gdt_init\<close> fills the table with the null descriptor and four segments that each cover
  the whole 4 GiB from address 0, code and writable data for ring 0 and for ring 3, loads a
  descriptor of exactly 40 bytes, and leaves every segment register on a present ring-0
  segment: code in CS, writable data in the others.\<close>

theorem gdt_init_flat:
  assumes "length gdt = GDT_ENTRIES"
  shows "\<exists>gdt' c'. gdt_init addr gdt c = Some (gdt', c') \<and>
     gdtr c' = \<lparr>tp_limit = 39, tp_base = addr\<rparr> \<and> gdt' ! 0 = null_entry \<and>
     flat_segment (gdt' ! 1) 0 \<and> seg_code (gdt' ! 1) \<and>
     flat_segment (gdt' ! 2) 0 \<and> seg_data_writable (gdt' ! 2) \<and>
     flat_segment (gdt' ! 3) 3 \<and> seg_code (gdt' ! 3) \<and>
     flat_segment (gdt' ! 4) 3 \<and> seg_data_writable (gdt' ! 4) \<and>
     selected gdt' (reg_cs c') = Some (gdt' ! 1) \<and>
     list_all (\<lambda>sel. selected gdt' sel = Some (gdt' ! 2))
       [reg_ds c', reg_es c', reg_fs c', reg_gs c', reg_ss c']"
  using assms by (rule gdt_init_ok)

definition cpu0 :: cpu where
  "cpu0 = \<lparr>gdtr = \<lparr>tp_limit = 0, tp_base = 0\<rparr>, idtr = \<lparr>tp_limit = 0, tp_base = 0\<rparr>, reg_cs = 0,
     reg_ds = 0, reg_es = 0, reg_fs = 0, reg_gs = 0, reg_ss = 0, iflag = False\<rparr>"

theorem gdt_init_flat_witness:
  "\<exists>gdt' c'. gdt_init 0x100000 (replicate 5 null_entry) cpu0 = Some (gdt', c') \<and>
     flat_segment (gdt' ! 3) 3"
  using gdt_init_flat [of "replicate 5 null_entry" "0x100000" cpu0] by (auto simp: GDT_ENTRIES_def)

end
