(* ===== verification/Idt.thy ===== *)
theory Idt
  imports Gdt
begin

text \<open>
  \<open>src/src/idt.c\<close> and the exception frame built by \<open>isr_common\<close> in \<open>src/src/isr_stubs.s\<close>. The
  addresses of the table and of the assembly stubs \<open>isr0\<close> to \<open>isr31\<close> and \<open>irq0\<close> to \<open>irq15\<close> are
  fixed by the linker; they are arguments of \<open>idt_init\<close>.
\<close>

section \<open>Gates\<close>

record idt_entry =
  handler_low :: "16 word"
  selector :: "16 word"
  always0 :: "8 word"
  i_flags :: "8 word"
  handler_high :: "16 word"

definition IDT_ENTRIES :: nat where "IDT_ENTRIES = 256"

definition zero_gate :: idt_entry where
  "zero_gate = \<lparr>handler_low = 0, selector = 0, always0 = 0, i_flags = 0, handler_high = 0\<rparr>"

definition idt_set ::
  "nat \<Rightarrow> 32 word \<Rightarrow> 16 word \<Rightarrow> 8 word \<Rightarrow> idt_entry list \<Rightarrow> idt_entry list option" where
  "idt_set n handler sel flags idt =
     (if n < length idt
      then Some (idt[n := \<lparr>handler_low = ucast (handler AND 0xFFFF), selector = sel, always0 = 0,
                          i_flags = flags, handler_high = ucast (drop_bit 16 handler AND 0xFFFF)\<rparr>])
      else None)"

text \<open>The calls \<open>idt_set(base + k, stub_k, 0x08, 0x8E)\<close> for the stubs of one family, in order.\<close>

fun idt_set_all :: "nat \<Rightarrow> (nat \<Rightarrow> 32 word) \<Rightarrow> nat list \<Rightarrow> idt_entry list \<Rightarrow> idt_entry list option" where
  "idt_set_all base stub [] idt = Some idt"
| "idt_set_all base stub (k # ks) idt = do {
     idt \<leftarrow> idt_set (base + k) (stub k) 0x08 0x8E idt;
     idt_set_all base stub ks idt
   }"

definition idt_flush :: "table_ptr \<Rightarrow> cpu \<Rightarrow> cpu" where
  "idt_flush d c = c\<lparr>idtr := d\<rparr>"

text \<open>
  \<open>sizeof(idt)\<close> is eight bytes per packed gate. Zeroing the table byte by byte leaves every gate
  with all fields zero.
\<close>

definition idt_init ::
  "32 word \<Rightarrow> (nat \<Rightarrow> 32 word) \<Rightarrow> (nat \<Rightarrow> 32 word) \<Rightarrow> idt_entry list \<Rightarrow> cpu
     \<Rightarrow> (idt_entry list \<times> cpu) option" where
  "idt_init addr isr irq idt c = do {
     let d = \<lparr>tp_limit = of_nat (8 * length idt - 1), tp_base = addr\<rparr>;
     let idt = map (\<lambda>_. zero_gate) idt;
     idt \<leftarrow> idt_set_all 0 isr [0..<32] idt;
     idt \<leftarrow> idt_set_all 32 irq [0..<16] idt;
     Some (idt, idt_flush d c)
   }"

section \<open>How the CPU reads a gate\<close>

definition gate_handler :: "idt_entry \<Rightarrow> 32 word" where
  "gate_handler g = ucast (handler_low g) OR push_bit 16 (ucast (handler_high g))"

definition gate_present :: "idt_entry \<Rightarrow> bool" where
  "gate_present g \<longleftrightarrow> bit (i_flags g) 7"

text \<open>A 32-bit interrupt gate of ring 0: type 14, no storage segment, DPL 0, reserved byte 0.\<close>

definition kernel_interrupt_gate :: "idt_entry \<Rightarrow> bool" where
  "kernel_interrupt_gate g \<longleftrightarrow>
     gate_present g \<and> i_flags g AND 0x0F = 0xE \<and> \<not> bit (i_flags g) 4 \<and>
     drop_bit 5 (i_flags g) AND 3 = 0 \<and> always0 g = 0"

lemma gate_handler_split:
  "ucast (ucast (h AND 0xFFFF) :: 16 word)
     OR push_bit 16 (ucast (ucast (drop_bit 16 h AND 0xFFFF) :: 16 word)) = h" for h :: "32 word"
  unfolding word_masks
  by (rule bit_word_eqI)
     (auto simp: bit_or_iff bit_ucast_iff bit_push_bit_iff bit_drop_bit_eq bit_take_bit_iff)

lemma idt_set_all_eq:
  "(\<forall>k \<in> set ks. base + k < length idt) \<Longrightarrow> distinct ks \<Longrightarrow>
   \<exists>idt'. idt_set_all base stub ks idt = Some idt' \<and> length idt' = length idt \<and>
     (\<forall>n < length idt. idt' ! n =
        (if base \<le> n \<and> n - base \<in> set ks
         then \<lparr>handler_low = ucast (stub (n - base) AND 0xFFFF), selector = 0x08, always0 = 0,
               i_flags = 0x8E, handler_high = ucast (drop_bit 16 (stub (n - base)) AND 0xFFFF)\<rparr>
         else idt ! n))"
proof (induction ks arbitrary: idt)
  case Nil
  then show ?case by simp
next
  case (Cons k ks)
  define g where "g = \<lparr>handler_low = ucast (stub k AND 0xFFFF), selector = 0x08, always0 = 0,
    i_flags = 0x8E, handler_high = ucast (drop_bit 16 (stub k) AND 0xFFFF)\<rparr>"
  have "idt_set (base + k) (stub k) 0x08 0x8E idt = Some (idt[base + k := g])"
    using Cons.prems by (simp add: idt_set_def g_def)
  moreover obtain idt' where "idt_set_all base stub ks (idt[base + k := g]) = Some idt'"
    and "length idt' = length idt"
    and "\<forall>n < length idt. idt' ! n =
        (if base \<le> n \<and> n - base \<in> set ks
         then \<lparr>handler_low = ucast (stub (n - base) AND 0xFFFF), selector = 0x08, always0 = 0,
               i_flags = 0x8E, handler_high = ucast (drop_bit 16 (stub (n - base)) AND 0xFFFF)\<rparr>
         else idt[base + k := g] ! n)"
    using Cons.IH [of "idt[base + k := g]"] Cons.prems by auto
  ultimately show ?case
    using Cons.prems by (auto simp: nth_list_update g_def)
qed

definition stub_gate :: "32 word \<Rightarrow> idt_entry" where
  "stub_gate h = \<lparr>handler_low = ucast (h AND 0xFFFF), selector = 0x08, always0 = 0, i_flags = 0x8E,
     handler_high = ucast (drop_bit 16 h AND 0xFFFF)\<rparr>"

lemma stub_gate [simp]:
  "gate_handler (stub_gate h) = h" "kernel_interrupt_gate (stub_gate h)"
  "selector (stub_gate h) = 0x08"
  using gate_handler_split [of h]
  by (simp_all add: stub_gate_def gate_handler_def kernel_interrupt_gate_def gate_present_def)

lemma idt_init_entries:
  assumes "length idt = IDT_ENTRIES"
  shows "\<exists>idt' c'. idt_init addr isr irq idt c = Some (idt', c') \<and> length idt' = IDT_ENTRIES \<and>
     c' = c\<lparr>idtr := \<lparr>tp_limit = 2047, tp_base = addr\<rparr>\<rparr> \<and>
     (\<forall>n < IDT_ENTRIES. idt' ! n =
        (if n < 32 then stub_gate (isr n) else if n < 48 then stub_gate (irq (n - 32)) else zero_gate))"
proof -
  have len: "length (map (\<lambda>_. zero_gate) idt) = 256" using assms by (simp add: IDT_ENTRIES_def)
  obtain idt1 where i1: "idt_set_all 0 isr [0..<32] (map (\<lambda>_. zero_gate) idt) = Some idt1"
    and l1: "length idt1 = 256"
    and e1: "\<forall>n < 256. idt1 ! n = (if n < 32 then stub_gate (isr n) else map (\<lambda>_. zero_gate) idt ! n)"
    using idt_set_all_eq [of "[0..<32]" 0 "map (\<lambda>_. zero_gate) idt" isr] len
    by (auto simp: stub_gate_def)
  obtain idt2 where i2: "idt_set_all 32 irq [0..<16] idt1 = Some idt2"
    and l2: "length idt2 = 256"
    and e2: "\<forall>n < 256. idt2 ! n =
      (if 32 \<le> n \<and> n - 32 < 16 then stub_gate (irq (n - 32)) else idt1 ! n)"
    using idt_set_all_eq [of "[0..<16]" 32 idt1 irq] l1 by (auto simp: stub_gate_def)
  have "\<forall>n < 256. idt2 ! n =
      (if n < 32 then stub_gate (isr n) else if n < 48 then stub_gate (irq (n - 32)) else zero_gate)"
    using e1 e2 len by (auto simp: not_less)
  then show ?thesis
    using i1 i2 l2 assms by (simp add: idt_init_def idt_flush_def IDT_ENTRIES_def)
qed

lemma idt_init_ok:
  assumes "length idt = IDT_ENTRIES"
  shows "\<exists>idt' c'. idt_init addr isr irq idt c = Some (idt', c') \<and>
     idtr c' = \<lparr>tp_limit = 2047, tp_base = addr\<rparr> \<and>
     (\<forall>n < 32. gate_handler (idt' ! n) = isr n \<and> kernel_interrupt_gate (idt' ! n)
        \<and> selector (idt' ! n) = 0x08) \<and>
     (\<forall>k < 16. gate_handler (idt' ! (32 + k)) = irq k \<and> kernel_interrupt_gate (idt' ! (32 + k))
        \<and> selector (idt' ! (32 + k)) = 0x08) \<and>
     (\<forall>n. 48 \<le> n \<and> n < 256 \<longrightarrow> \<not> gate_present (idt' ! n))"
  using idt_init_entries [OF assms, of addr isr irq c]
  by (auto simp: IDT_ENTRIES_def gate_present_def zero_gate_def)

text \<open>\<open>idt_init\<close> makes the CPU dispatch exception vector \<open>n\<close> to stub \<open>isr n\<close> and vector
  \<open>32 + k\<close> to stub \<open>irq k\<close>, each through a present ring-0 interrupt gate on the kernel code
  selector, and leaves every vector from 48 on without a present gate.\<close>

theorem idt_init_dispatch:
  assumes "length idt = IDT_ENTRIES"
  shows "\<exists>idt' c'. idt_init addr isr irq idt c = Some (idt', c') \<and>
     idtr c' = \<lparr>tp_limit = 2047, tp_base = addr\<rparr> \<and>
     (\<forall>n < 32. gate_handler (idt' ! n) = isr n \<and> kernel_interrupt_gate (idt' ! n)
        \<and> selector (idt' ! n) = 0x08) \<and>
     (\<forall>k < 16. gate_handler (idt' ! (32 + k)) = irq k \<and> kernel_interrupt_gate (idt' ! (32 + k))
        \<and> selector (idt' ! (32 + k)) = 0x08) \<and>
     (\<forall>n. 48 \<le> n \<and> n < 256 \<longrightarrow> \<not> gate_present (idt' ! n))"
  using assms by (rule idt_init_ok)

theorem idt_init_dispatch_witness:
  "\<exists>idt' c'. idt_init 0x200000 (\<lambda>n. of_nat (4096 + n)) (\<lambda>k. of_nat (8192 + k))
       (replicate 256 zero_gate) cpu0 = Some (idt', c') \<and> gate_handler (idt' ! 33) = 8193"
proof -
  obtain idt' c' where "idt_init 0x200000 (\<lambda>n. of_nat (4096 + n)) (\<lambda>k. of_nat (8192 + k))
       (replicate 256 zero_gate) cpu0 = Some (idt', c')"
    and "\<forall>k < 16. gate_handler (idt' ! (32 + k)) = of_nat (8192 + k)"
    using idt_init_dispatch [of "replicate 256 zero_gate" "0x200000" "\<lambda>n. of_nat (4096 + n)"
        "\<lambda>k. of_nat (8192 + k)" cpu0] by (auto simp: IDT_ENTRIES_def)
  then show ?thesis by (auto dest: spec [of _ 1])
qed

end
