(* ===== verification/Isr.thy ===== *)
theory Isr
  imports Idt Pic
begin

text \<open>
  \<open>src/src/isr.c\<close>, \<open>src/src/isr.h\<close> and the exception path of \<open>src/src/isr_stubs.s\<close>: the register
  frame the stubs push and the structure the C handler reads it through, the handler itself,
  and the table of interrupt handlers. A C function pointer is a value of \<open>handler\<close>, one
  constructor per function the kernel registers.
\<close>

section \<open>The exception frame\<close>

record regs =
  r_gs :: "32 word"
  r_fs :: "32 word"
  r_es :: "32 word"
  r_ds :: "32 word"
  r_edi :: "32 word"
  r_esi :: "32 word"
  r_ebp :: "32 word"
  r_esp :: "32 word"
  r_ebx :: "32 word"
  r_edx :: "32 word"
  r_ecx :: "32 word"
  r_eax :: "32 word"
  vector :: "32 word"
  err_code :: "32 word"
  r_eip :: "32 word"
  r_cs :: "32 word"
  r_eflags :: "32 word"
  r_useresp :: "32 word"
  r_ss :: "32 word"

text \<open>
  A stack is the list of its 32-bit words, lowest address first. Reading the frame through
  \<open>struct regs\<close> takes the words in field order.
\<close>

fun read_regs :: "32 word list \<Rightarrow> regs option" where
  "read_regs (a0 # a1 # a2 # a3 # a4 # a5 # a6 # a7 # a8 # a9 # a10 # a11 # a12 # a13 # a14 # a15
      # a16 # a17 # a18 # rest) =
     Some \<lparr>r_gs = a0, r_fs = a1, r_es = a2, r_ds = a3, r_edi = a4, r_esi = a5, r_ebp = a6,
       r_esp = a7, r_ebx = a8, r_edx = a9, r_ecx = a10, r_eax = a11, vector = a12, err_code = a13,
       r_eip = a14, r_cs = a15, r_eflags = a16, r_useresp = a17, r_ss = a18\<rparr>"
| "read_regs _ = None"

text \<open>The vectors instantiated with \<open>ISR_ERR\<close>; all other vectors below 32 use \<open>ISR_NOERR\<close>.\<close>

definition isr_err_vectors :: "nat list" where
  "isr_err_vectors = [8, 10, 11, 12, 13, 14, 17, 30]"

definition isr_stub :: "nat \<Rightarrow> 32 word list \<Rightarrow> 32 word list" where
  "isr_stub n stack =
     (if n \<in> set isr_err_vectors then of_nat n # stack else of_nat n # 0 # stack)"

text \<open>The general registers when \<open>isr_common\<close> starts, in the order \<open>pusha\<close> pushes them.\<close>

record gprs =
  eax :: "32 word"
  ecx :: "32 word"
  edx :: "32 word"
  ebx :: "32 word"
  esp :: "32 word"
  ebp :: "32 word"
  esi :: "32 word"
  edi :: "32 word"

definition pusha :: "gprs \<Rightarrow> 32 word list \<Rightarrow> 32 word list" where
  "pusha g stack = fold (#) [eax g, ecx g, edx g, ebx g, esp g, ebp g, esi g, edi g] stack"

definition isr_common_push :: "gprs \<Rightarrow> cpu \<Rightarrow> 32 word list \<Rightarrow> 32 word list" where
  "isr_common_push g c stack =
     fold (#) [ucast (reg_ds c), ucast (reg_es c), ucast (reg_fs c), ucast (reg_gs c)] (pusha g stack)"

section \<open>The exception handler\<close>

definition exception_name :: "32 word \<Rightarrow> string" where
  "exception_name vec =
     (if vec = 0 then ''Divide by zero''
      else if vec = 1 then ''Debug''
      else if vec = 2 then ''Non-maskable interrupt''
      else if vec = 3 then ''Breakpoint''
      else if vec = 4 then ''Overflow''
      else if vec = 5 then ''Bound range exceeded''
      else if vec = 6 then ''Invalid opcode''
      else if vec = 7 then ''Device not available''
      else if vec = 8 then ''Double fault''
      else if vec = 9 then ''Coprocessor segment overrun''
      else if vec = 10 then ''Invalid TSS''
      else if vec = 11 then ''Segment not present''
      else if vec = 12 then ''Stack-segment fault''
      else if vec = 13 then ''General protection fault''
      else if vec = 14 then ''Page fault''
      else if vec = 16 then ''x87 FPU exception''
      else if vec = 17 then ''Alignment check''
      else if vec = 18 then ''Machine check''
      else if vec = 19 then ''SIMD FP exception''
      else ''Reserved/unknown'')"

definition isr_report :: "regs \<Rightarrow> vcall list" where
  "isr_report r =
     [Col VGA_LIGHT_RED VGA_BLACK,
      Ln (lit ''''),
      Wr (lit ''  !! EXCEPTION ''), Dec (vector r),
      Wr (lit '' (''), Wr (lit (exception_name (vector r))),
      Wr (lit '')  err=0x''), Hex (err_code r), Ln (lit ''''),
      Wr (lit ''  Faulting EIP=0x''), Hex (r_eip r), Ln (lit ''''),
      Ln (lit ''  CPU halted. Restart QEMU to continue.'')]"

text \<open>After the report the handler never returns: it disables interrupts and halts for ever.\<close>

definition isr_common_handler :: "regs \<Rightarrow> vga \<times> cpu \<Rightarrow> (unit, vga \<times> cpu) outcome" where
  "isr_common_handler r s =
     (case s of (v, c) \<Rightarrow>
        bnd (chk (vcalls (isr_report r) v) s) (\<lambda>v' _. Stop Halted (v', c\<lparr>iflag := False\<rparr>)))"

section \<open>Interrupt handlers\<close>

datatype handler = Kbd_isr

definition NR_IRQ :: nat where "NR_IRQ = 16"

text \<open>\<open>NULL\<close> is \<open>None\<close>.\<close>

definition irq_register :: "8 word \<Rightarrow> handler option \<Rightarrow> handler option list \<Rightarrow> handler option list" where
  "irq_register irq h tab = (if unat irq < NR_IRQ then tab[unat irq := h] else tab)"

section \<open>Properties\<close>

text \<open>What the CPU itself pushes: an error code for the documented vectors only.\<close>

definition cpu_frame :: "nat \<Rightarrow> 32 word \<Rightarrow> 32 word \<Rightarrow> 32 word \<Rightarrow> 32 word \<Rightarrow> 32 word list \<Rightarrow> 32 word list" where
  "cpu_frame n err ip cs fl stack =
     (if n = 8 \<or> 10 \<le> n \<and> n \<le> 14 \<or> n = 17 \<or> n = 30 then err # ip # cs # fl # stack
      else ip # cs # fl # stack)"

text \<open>Whichever of the 32 exceptions fires, the frame that the stub and \<open>isr_common\<close> leave on
  the stack reads back through \<open>struct regs\<close> with the right vector number, the CPU's error code
  (or 0 where the CPU pushes none), the interrupted instruction and every saved register.\<close>

theorem isr_frame_matches_regs:
  assumes "n < 32"
  shows "\<exists>r. read_regs (isr_common_push g c (isr_stub n (cpu_frame n err ip cs fl (u # w # rest))))
       = Some r \<and>
     vector r = of_nat n \<and> r_eip r = ip \<and> r_cs r = cs \<and> r_eflags r = fl \<and>
     err_code r = (if n \<in> set isr_err_vectors then err else 0) \<and>
     r_eax r = eax g \<and> r_ebx r = ebx g \<and> r_ecx r = ecx g \<and> r_edx r = edx g \<and>
     r_esi r = esi g \<and> r_edi r = edi g \<and> r_ebp r = ebp g \<and> r_esp r = esp g \<and>
     r_ds r = ucast (reg_ds c) \<and> r_es r = ucast (reg_es c) \<and>
     r_fs r = ucast (reg_fs c) \<and> r_gs r = ucast (reg_gs c)"
proof -
  have "n \<in> set isr_err_vectors \<longleftrightarrow> n = 8 \<or> 10 \<le> n \<and> n \<le> 14 \<or> n = 17 \<or> n = 30"
    by (auto simp: isr_err_vectors_def)
  then show ?thesis
    by (simp add: isr_common_push_def pusha_def isr_stub_def cpu_frame_def)
qed

theorem isr_frame_matches_regs_witness:
  "\<exists>r. read_regs (isr_common_push \<lparr>eax = 1, ecx = 2, edx = 3, ebx = 4, esp = 5, ebp = 6, esi = 7, edi = 8\<rparr>
        cpu0 (isr_stub 14 (cpu_frame 14 7 0x100020 8 0x202 [0, 0]))) = Some r \<and>
     vector r = 14 \<and> err_code r = 7"
  using isr_frame_matches_regs [of 14
      "\<lparr>eax = 1, ecx = 2, edx = 3, ebx = 4, esp = 5, ebp = 6, esi = 7, edi = 8\<rparr>" cpu0 7 "0x100020" 8
      "0x202" 0 0 "[]"]
  by (auto simp: isr_err_vectors_def)

lemma NUL_notin_exception_name [simp]: "NUL \<notin> set (exception_name vec)"
  by (simp add: exception_name_def)

text \<open>An exception never returns to the interrupted code: the handler always gets through its
  report without a fault, leaves the cursor on the screen and memory outside the screen
  untouched, and stops the CPU with interrupts disabled.\<close>

theorem isr_common_handler_halts:
  assumes "vga_wf v"
  shows "\<exists>v'. isr_common_handler r (v, c) = Stop Halted (v', c\<lparr>iflag := False\<rparr>) \<and> vga_wf v' \<and>
     (\<forall>i \<ge> VGA_HEIGHT * VGA_WIDTH. VGA_MEM v' i = VGA_MEM v i)"
proof -
  have "list_all vcall_ok (isr_report r)" by (simp add: isr_report_def)
  then obtain v' where v': "vcalls (isr_report r) v = Some v'" using vcalls_Some by blast
  from vcalls_safe [OF assms v'] show ?thesis
    by (simp add: isr_common_handler_def v' screen_kept_def)
qed

theorem isr_common_handler_halts_witness:
  "\<exists>v'. isr_common_handler
       \<lparr>r_gs = 16, r_fs = 16, r_es = 16, r_ds = 16, r_edi = 0, r_esi = 0, r_ebp = 0, r_esp = 0,
        r_ebx = 0, r_edx = 0, r_ecx = 0, r_eax = 0, vector = 14, err_code = 2, r_eip = 0x100020,
        r_cs = 8, r_eflags = 0x202, r_useresp = 0, r_ss = 0\<rparr>
       (\<lparr>row = 0, col = 0, color = 7, VGA_MEM = \<lambda>_. 0\<rparr>, cpu0) = Stop Halted (v', cpu0\<lparr>iflag := False\<rparr>)"
  using isr_common_handler_halts [of "\<lparr>row = 0, col = 0, color = 7, VGA_MEM = \<lambda>_. 0\<rparr>"
      "\<lparr>r_gs = 16, r_fs = 16, r_es = 16, r_ds = 16, r_edi = 0, r_esi = 0, r_ebp = 0, r_esp = 0,
        r_ebx = 0, r_edx = 0, r_ecx = 0, r_eax = 0, vector = 14, err_code = 2, r_eip = 0x100020,
        r_cs = 8, r_eflags = 0x202, r_useresp = 0, r_ss = 0\<rparr>" cpu0]
  by (auto simp: vga_wf_def VGA_HEIGHT_def VGA_WIDTH_def)
end
