(* ===== verification/Keyboard.thy ===== *)
theory Keyboard
  imports Kstring
begin

text \<open>
  \<open>src/src/keyboard.c\<close>: the scan code tables, the ring buffer and the interrupt handler. The
  driver's registration and its blocking read involve the interrupt machinery and are in theory
  \<open>Machine\<close>. The ring buffer is shown to be a bounded queue of 255 characters, and every
  interleaving of the interrupt handler with the single reader keeps the characters in order.
\<close>

section \<open>State and tables\<close>

definition KBD_BUF_SIZE :: nat where "KBD_BUF_SIZE = 256"

record kbd =
  kbd_buf :: "char list"
  kbd_head :: "32 word"
  kbd_tail :: "32 word"
  shift_held :: "8 word"
  caps_lock_on :: "8 word"

text \<open>The tables, one line per line of the source; 0 is \<open>NUL\<close>.\<close>

definition scancode_normal :: "char list" where
  "scancode_normal =
     [NUL, CHR 0x1B] @ ''12345678''
   @ ''90-='' @ [CHR 0x08, CHR 0x09]
   @ ''qwertyuiop''
   @ ''[]'' @ [CHR 0x0A, NUL]
   @ ''asdfghjkl;''
   @ [CHR 0x27, CHR 0x60, NUL]
   @ [CHR 0x5C] @ ''zxcvbnm,./''
   @ [NUL, CHR ''*'', NUL, CHR '' '']
   @ replicate 10 NUL
   @ replicate 1 NUL
   @ replicate 2 NUL
   @ replicate 10 NUL
   @ replicate 3 NUL
   @ replicate 12 NUL @ replicate 12 NUL @ replicate 12 NUL @ replicate 8 NUL"

definition scancode_shift :: "char list" where
  "scancode_shift =
     [NUL, CHR 0x1B] @ ''!@#$%^&*''
   @ ''()_+'' @ [CHR 0x08, CHR 0x09]
   @ ''QWERTYUIOP''
   @ ''{}'' @ [CHR 0x0A, NUL]
   @ ''ASDFGHJKL:''
   @ [CHR 0x22, CHR ''~'', NUL]
   @ [CHR ''|''] @ ''ZXCVBNM<>?''
   @ [NUL, CHR ''*'', NUL, CHR '' '']
   @ replicate 10 NUL
   @ replicate 1 NUL
   @ replicate 2 NUL
   @ replicate 10 NUL
   @ replicate 3 NUL
   @ replicate 12 NUL @ replicate 12 NUL @ replicate 12 NUL @ replicate 8 NUL"

section \<open>Operations\<close>

definition kbd_put :: "char \<Rightarrow> kbd \<Rightarrow> kbd option" where
  "kbd_put c k =
     (let next_head = (kbd_head k + 1) mod of_nat KBD_BUF_SIZE
      in if next_head \<noteq> kbd_tail k
         then (if unat (kbd_head k) < length (kbd_buf k)
               then Some (k\<lparr>kbd_buf := (kbd_buf k)[unat (kbd_head k) := c], kbd_head := next_head\<rparr>)
               else None)
         else Some k)"

definition is_lower :: "char \<Rightarrow> bool" where
  "is_lower c \<longleftrightarrow> of_char CHR ''a'' \<le> (of_char c :: nat) \<and> of_char c \<le> (of_char CHR ''z'' :: nat)"

definition is_upper :: "char \<Rightarrow> bool" where
  "is_upper c \<longleftrightarrow> of_char CHR ''A'' \<le> (of_char c :: nat) \<and> of_char c \<le> (of_char CHR ''Z'' :: nat)"

text \<open>The default branch of the switch in \<open>kbd_isr\<close> up to \<open>kbd_put\<close>: the character, 0 for none.\<close>

definition kbd_translate :: "8 word \<Rightarrow> 8 word \<Rightarrow> 8 word \<Rightarrow> char" where
  "kbd_translate sh caps sc =
     (let c = (if sh \<noteq> 0 then scancode_shift ! unat sc else scancode_normal ! unat sc)
      in if c = NUL then NUL
         else if is_lower c then (if caps XOR sh \<noteq> 0 then char_of (of_char c - 32 :: nat) else c)
         else if is_upper c then (if caps XOR sh \<noteq> 0 then char_of (of_char c + 32 :: nat) else c)
         else c)"

definition kbd_isr :: "8 word \<Rightarrow> kbd \<Rightarrow> kbd option" where
  "kbd_isr sc k =
     (if sc AND 0x80 \<noteq> 0 then
        (let make = sc AND 0x7F
         in if make = 0x2A \<or> make = 0x36 then Some (k\<lparr>shift_held := 0\<rparr>) else Some k)
      else if sc = 0x2A \<or> sc = 0x36 then Some (k\<lparr>shift_held := 1\<rparr>)
      else if sc = 0x3A then Some (k\<lparr>caps_lock_on := caps_lock_on k XOR 1\<rparr>)
      else
        (let c = kbd_translate (shift_held k) (caps_lock_on k) sc
         in if c = NUL then Some k else kbd_put c k))"

definition kbd_has_char :: "kbd \<Rightarrow> bool" where
  "kbd_has_char k \<longleftrightarrow> kbd_head k \<noteq> kbd_tail k"

text \<open>The two statements of \<open>kbd_getchar\<close> after its wait loop.\<close>

definition kbd_load :: "kbd \<Rightarrow> char option" where
  "kbd_load k = (if unat (kbd_tail k) < length (kbd_buf k) then Some (kbd_buf k ! unat (kbd_tail k)) else None)"

definition kbd_advance :: "kbd \<Rightarrow> kbd" where
  "kbd_advance k = k\<lparr>kbd_tail := (kbd_tail k + 1) mod of_nat KBD_BUF_SIZE\<rparr>"

definition kbd_take :: "kbd \<Rightarrow> (char \<times> kbd) option" where
  "kbd_take k = do { c \<leftarrow> kbd_load k; Some (c, kbd_advance k) }"

section \<open>The tables\<close>

lemma length_scancode [simp]: "length scancode_normal = 128" "length scancode_shift = 128"
  by (simp_all add: scancode_normal_def scancode_shift_def)

section \<open>The ring as a bounded queue\<close>

definition kbd_wf :: "kbd \<Rightarrow> bool" where
  "kbd_wf k \<longleftrightarrow>
     length (kbd_buf k) = KBD_BUF_SIZE \<and> unat (kbd_head k) < KBD_BUF_SIZE \<and>
     unat (kbd_tail k) < KBD_BUF_SIZE"

definition ring_count :: "kbd \<Rightarrow> nat" where
  "ring_count k = (unat (kbd_head k) + KBD_BUF_SIZE - unat (kbd_tail k)) mod KBD_BUF_SIZE"

definition kbd_chars :: "kbd \<Rightarrow> string" where
  "kbd_chars k =
     map (\<lambda>i. kbd_buf k ! ((unat (kbd_tail k) + i) mod KBD_BUF_SIZE)) [0..<ring_count k]"

lemma KBD_BUF_SIZE_pos [simp]: "0 < KBD_BUF_SIZE"
  by (simp add: KBD_BUF_SIZE_def)

lemma unat_succ_mod:
  "unat w < KBD_BUF_SIZE \<Longrightarrow> unat ((w + 1) mod of_nat KBD_BUF_SIZE) = Suc (unat w) mod KBD_BUF_SIZE"
  for w :: "32 word"
  by (simp add: KBD_BUF_SIZE_def unat_mod unat_word_ariths)

lemma word_eq_unat: "w = v \<longleftrightarrow> unat w = unat v" for w v :: "32 word"
  by (simp add: word_unat_eq_iff)

lemma ring_sub:
  "h < KBD_BUF_SIZE \<Longrightarrow> t < KBD_BUF_SIZE \<Longrightarrow>
   (h + KBD_BUF_SIZE - t) mod KBD_BUF_SIZE = (if t \<le> h then h - t else h + KBD_BUF_SIZE - t)"
  by (auto simp: KBD_BUF_SIZE_def mod_if)

lemma ring_succ:
  "h < KBD_BUF_SIZE \<Longrightarrow>
   Suc h mod KBD_BUF_SIZE = (if h = KBD_BUF_SIZE - 1 then 0 else Suc h)"
  by (auto simp: KBD_BUF_SIZE_def)

lemma ring_full_iff:
  "kbd_wf k \<Longrightarrow>
   (kbd_head k + 1) mod of_nat KBD_BUF_SIZE = kbd_tail k \<longleftrightarrow> ring_count k = KBD_BUF_SIZE - 1"
  unfolding word_eq_unat kbd_wf_def
  by (simp add: unat_succ_mod ring_count_def ring_sub ring_succ) (auto simp: KBD_BUF_SIZE_def)

lemma ring_empty_iff: "kbd_wf k \<Longrightarrow> kbd_has_char k \<longleftrightarrow> kbd_chars k \<noteq> []"
  unfolding kbd_has_char_def word_eq_unat kbd_wf_def
  by (simp add: kbd_chars_def ring_count_def ring_sub) (auto simp: KBD_BUF_SIZE_def)

lemma length_kbd_chars [simp]: "length (kbd_chars k) = ring_count k"
  by (simp add: kbd_chars_def)

lemma nth_kbd_chars:
  "i < ring_count k \<Longrightarrow> kbd_chars k ! i = kbd_buf k ! ((unat (kbd_tail k) + i) mod KBD_BUF_SIZE)"
  by (simp add: kbd_chars_def)

lemma ring_count_le: "ring_count k \<le> KBD_BUF_SIZE - Suc 0"
  by (simp add: ring_count_def KBD_BUF_SIZE_def less_Suc_eq_le [symmetric])

text \<open>A bounded first-in first-out queue whose \<open>put\<close> drops what does not fit.\<close>

locale bounded_queue =
  fixes put :: "'a \<Rightarrow> 'q \<Rightarrow> 'q option"
    and get :: "'q \<Rightarrow> ('a \<times> 'q) option"
    and elems :: "'q \<Rightarrow> 'a list"
    and invar :: "'q \<Rightarrow> bool"
    and cap :: nat
  assumes put_law: "invar q \<Longrightarrow> \<exists>q'. put x q = Some q' \<and> invar q' \<and>
      elems q' = (if length (elems q) < cap then elems q @ [x] else elems q)"
    and get_law: "invar q \<Longrightarrow> elems q \<noteq> [] \<Longrightarrow>
      \<exists>q'. get q = Some (hd (elems q), q') \<and> invar q' \<and> elems q' = tl (elems q)"
    and cap_law: "invar q \<Longrightarrow> length (elems q) \<le> cap"
begin

lemma put_all:
  "invar q \<Longrightarrow>
   \<exists>q'. fold (\<lambda>x r. Option.bind r (put x)) xs (Some q) = Some q' \<and> invar q' \<and>
     elems q' = elems q @ take (cap - length (elems q)) xs"
proof (induction xs arbitrary: q)
  case Nil
  then show ?case by simp
next
  case (Cons x xs)
  obtain q1 where q1: "put x q = Some q1" "invar q1"
    "elems q1 = (if length (elems q) < cap then elems q @ [x] else elems q)"
    using put_law [OF Cons.prems] by blast
  obtain q2 where "fold (\<lambda>x r. Option.bind r (put x)) xs (Some q1) = Some q2" "invar q2"
    "elems q2 = elems q1 @ take (cap - length (elems q1)) xs"
    using Cons.IH [OF q1(2)] by blast
  with q1 cap_law [OF Cons.prems] show ?case
    by (auto simp: take_Cons' split: if_splits)
qed

lemma put_then_get:
  assumes "invar q" and "elems q = []" and "0 < cap"
  shows "\<exists>q1 q2. put x q = Some q1 \<and> get q1 = Some (x, q2) \<and> invar q2 \<and> elems q2 = []"
proof -
  obtain q1 where "put x q = Some q1" "invar q1" "elems q1 = [x]"
    using put_law [OF assms(1), of x] assms(2,3) by auto
  with get_law [of q1] show ?thesis by force
qed

end

lemma kbd_chars_put:
  assumes "kbd_wf k"
  shows "\<exists>k'. kbd_put c k = Some k' \<and> kbd_wf k' \<and>
     kbd_chars k' = (if ring_count k < KBD_BUF_SIZE - 1 then kbd_chars k @ [c] else kbd_chars k)"
proof (cases "ring_count k = KBD_BUF_SIZE - 1")
  case True
  then show ?thesis
    using assms ring_full_iff [OF assms] by (simp add: kbd_put_def)
next
  case False
  define k' where "k' = k\<lparr>kbd_buf := (kbd_buf k)[unat (kbd_head k) := c],
    kbd_head := (kbd_head k + 1) mod of_nat KBD_BUF_SIZE\<rparr>"
  have put: "kbd_put c k = Some k'"
    using False assms ring_full_iff [OF assms] by (simp add: kbd_put_def k'_def kbd_wf_def Let_def)
  have wf: "kbd_wf k'"
    using assms by (simp add: k'_def kbd_wf_def unat_succ_mod)
  have lt: "ring_count k < KBD_BUF_SIZE - 1" using False ring_count_le [of k] by linarith
  have cnt: "ring_count k' = Suc (ring_count k)"
    using assms lt
    by (simp add: ring_count_def k'_def kbd_wf_def unat_succ_mod ring_sub ring_succ)
       (auto simp: KBD_BUF_SIZE_def mod_if split: if_splits)
  have pos: "(unat (kbd_tail k) + i) mod KBD_BUF_SIZE = unat (kbd_head k) \<longleftrightarrow> i = ring_count k"
    if "i \<le> ring_count k" for i
    using that assms lt unfolding kbd_wf_def ring_count_def
    by (simp add: ring_sub) (auto simp: KBD_BUF_SIZE_def mod_if split: if_splits)
  have same: "kbd_tail k' = kbd_tail k" "kbd_buf k' = (kbd_buf k)[unat (kbd_head k) := c]"
    by (simp_all add: k'_def)
  have "kbd_chars k' = kbd_chars k @ [c]"
  proof (rule nth_equalityI)
    show "length (kbd_chars k') = length (kbd_chars k @ [c])" by (simp add: cnt)
    fix i assume "i < length (kbd_chars k')"
    then have "i \<le> ring_count k" by (simp add: cnt)
    then show "kbd_chars k' ! i = (kbd_chars k @ [c]) ! i"
      using assms pos [of i] same
      by (cases "i = ring_count k")
        (simp_all add: nth_kbd_chars cnt nth_append kbd_wf_def nth_list_update)
  qed
  with put wf lt show ?thesis by simp
qed

lemma kbd_chars_take:
  assumes "kbd_wf k" and "kbd_chars k \<noteq> []"
  shows "kbd_load k = Some (hd (kbd_chars k))" and "kbd_wf (kbd_advance k)"
    and "kbd_chars (kbd_advance k) = tl (kbd_chars k)"
proof -
  have pos: "0 < ring_count k" using assms(2) by (metis length_greater_0_conv length_kbd_chars)
  have t: "unat (kbd_tail k) < KBD_BUF_SIZE" and h: "unat (kbd_head k) < KBD_BUF_SIZE"
    and l: "length (kbd_buf k) = KBD_BUF_SIZE"
    using assms(1) by (auto simp: kbd_wf_def)
  have "hd (kbd_chars k) = kbd_chars k ! 0" using assms(2) by (simp add: hd_conv_nth)
  then show "kbd_load k = Some (hd (kbd_chars k))"
    using pos t l by (simp add: kbd_load_def kbd_chars_def)
  show "kbd_wf (kbd_advance k)"
    using t h l by (simp add: kbd_wf_def kbd_advance_def unat_succ_mod)
  have cnt: "ring_count (kbd_advance k) = ring_count k - 1"
    using t h pos
    by (simp add: ring_count_def kbd_advance_def unat_succ_mod ring_sub ring_succ)
       (auto simp: KBD_BUF_SIZE_def mod_if)
  show "kbd_chars (kbd_advance k) = tl (kbd_chars k)"
  proof (rule nth_equalityI)
    show "length (kbd_chars (kbd_advance k)) = length (tl (kbd_chars k))" by (simp add: cnt)
    fix i assume i: "i < length (kbd_chars (kbd_advance k))"
    then have "Suc i < ring_count k" using cnt by simp
    moreover have "(Suc (unat (kbd_tail k)) mod KBD_BUF_SIZE + i) mod KBD_BUF_SIZE
        = (unat (kbd_tail k) + Suc i) mod KBD_BUF_SIZE"
      by (simp add: mod_simps)
    ultimately show "kbd_chars (kbd_advance k) ! i = tl (kbd_chars k) ! i"
      using i cnt t by (simp add: nth_tl kbd_chars_def kbd_advance_def unat_succ_mod)
  qed
qed

interpretation ring: bounded_queue kbd_put kbd_take kbd_chars kbd_wf "KBD_BUF_SIZE - 1"
proof
  fix k :: kbd and x :: char
  assume wf: "kbd_wf k"
  show "\<exists>k'. kbd_put x k = Some k' \<and> kbd_wf k' \<and>
      kbd_chars k' = (if length (kbd_chars k) < KBD_BUF_SIZE - 1 then kbd_chars k @ [x] else kbd_chars k)"
    using kbd_chars_put [OF wf, of x] by simp
  show "kbd_chars k \<noteq> [] \<Longrightarrow> \<exists>k'. kbd_take k = Some (hd (kbd_chars k), k') \<and> kbd_wf k' \<and>
      kbd_chars k' = tl (kbd_chars k)"
    using kbd_chars_take [OF wf] by (auto simp: kbd_take_def)
  show "length (kbd_chars k) \<le> KBD_BUF_SIZE - 1" by (simp add: ring_count_le)
qed

text \<open>The keyboard ring is a queue of at most 255 characters: from any well-formed state,
  handing it a burst of characters with no reader in between keeps what was waiting, appends
  the characters that still fit, in order, and drops the rest, and never writes outside the
  buffer.\<close>

theorem kbd_ring_keeps_order:
  assumes "kbd_wf k"
  shows "\<exists>k'. fold (\<lambda>c r. Option.bind r (kbd_put c)) cs (Some k) = Some k' \<and> kbd_wf k' \<and>
     kbd_chars k' = kbd_chars k @ take (255 - length (kbd_chars k)) cs"
  using ring.put_all [OF assms, of cs] by (simp add: KBD_BUF_SIZE_def)

definition kbd0 :: kbd where
  "kbd0 = \<lparr>kbd_buf = replicate 256 NUL, kbd_head = 0, kbd_tail = 0, shift_held = 0, caps_lock_on = 0\<rparr>"

lemma kbd0_wf [simp]: "kbd_wf kbd0" and kbd0_chars [simp]: "kbd_chars kbd0 = []"
  by (simp_all add: kbd_wf_def kbd0_def kbd_chars_def ring_count_def KBD_BUF_SIZE_def)

theorem kbd_ring_keeps_order_witness:
  "\<exists>k'. fold (\<lambda>c r. Option.bind r (kbd_put c)) ''ls'' (Some kbd0) = Some k' \<and> kbd_chars k' = ''ls''"
  using kbd_ring_keeps_order [of kbd0 "''ls''"] by auto

section \<open>The interrupt handler\<close>

lemma kbd_wf_modifiers [simp]:
  "kbd_wf (k\<lparr>shift_held := a\<rparr>) = kbd_wf k" "kbd_wf (k\<lparr>caps_lock_on := b\<rparr>) = kbd_wf k"
  "kbd_chars (k\<lparr>shift_held := a\<rparr>) = kbd_chars k" "kbd_chars (k\<lparr>caps_lock_on := b\<rparr>) = kbd_chars k"
  by (simp_all add: kbd_wf_def kbd_chars_def ring_count_def)

lemma kbd_isr_wf:
  assumes "kbd_wf k"
  shows "\<exists>k'. kbd_isr sc k = Some k' \<and> kbd_wf k'"
  using assms kbd_chars_put [OF assms]
  by (auto simp: kbd_isr_def Let_def)

text \<open>A letter key: its scan code yields the letter and its capital in the two tables.\<close>

definition letter_key :: "8 word \<Rightarrow> char \<Rightarrow> char \<Rightarrow> bool" where
  "letter_key sc lo up \<longleftrightarrow>
     scancode_normal ! unat sc = lo \<and> scancode_shift ! unat sc = up \<and>
     is_lower lo \<and> is_upper up \<and> of_char lo = (of_char up + 32 :: nat)"

lemma letter_key_translate:
  assumes "letter_key sc lo up"
  shows "kbd_translate 0 0 sc = lo" and "kbd_translate 0 1 sc = up"
    and "kbd_translate 1 0 sc = lo" and "kbd_translate 1 1 sc = up"
proof -
  have c: "char_of (of_char up + 32 :: nat) = lo" "char_of (of_char lo - 32 :: nat) = up"
    using assms by (simp_all add: letter_key_def) (metis char_of_char)
  have "lo \<noteq> NUL" "up \<noteq> NUL" "\<not> is_lower up"
    using assms by (auto simp: letter_key_def is_lower_def is_upper_def)
  with assms c show "kbd_translate 0 0 sc = lo" and "kbd_translate 0 1 sc = up"
    and "kbd_translate 1 0 sc = lo" and "kbd_translate 1 1 sc = up"
    by (simp_all add: kbd_translate_def letter_key_def)
qed

text \<open>C18: on a letter key the two modifiers do not act as on a standard keyboard: Caps Lock
  alone and Caps Lock with Shift give the capital, but Shift alone gives the small letter,
  because the handler flips the case of a character it has already taken from the shifted
  table.\<close>

theorem shift_alone_types_small_letters:
  assumes "letter_key sc lo up"
  shows "kbd_translate 0 0 sc = lo \<and> kbd_translate 1 0 sc = lo \<and>
     kbd_translate 0 1 sc = up \<and> kbd_translate 1 1 sc = up"
  using letter_key_translate [OF assms] by simp

theorem shift_alone_types_small_letters_witness:
  "kbd_translate 1 0 0x1E = CHR ''a'' \<and> kbd_translate 0 1 0x1E = CHR ''A''"
proof -
  have "letter_key 0x1E CHR ''a'' CHR ''A''"
    by (simp add: letter_key_def scancode_normal_def scancode_shift_def is_lower_def is_upper_def)
  from shift_alone_types_small_letters [OF this] show ?thesis by simp
qed

section \<open>The handler and the reader interleaved\<close>

text \<open>
  \<open>kbd_getchar\<close> runs with interrupts enabled, so \<open>kbd_isr\<close> may run between any two of its
  statements. The reader's program counter: before the test of the loop, between a test that
  found nothing and the \<open>hlt\<close>, asleep in \<open>hlt\<close>, before the load of the character, and
  between the load and the store of the new tail. \<open>arrived\<close> records the characters the
  handler put into the ring, \<open>got\<close> those \<open>kbd_getchar\<close> returned.
\<close>

datatype reader = Test | Before_hlt | Asleep | Load | Advance char

record session =
  ring_of :: kbd
  reader_pc :: reader
  got :: string
  arrived :: string

text \<open>What the handler puts into the ring for a scan code.\<close>

definition isr_puts :: "8 word \<Rightarrow> kbd \<Rightarrow> string" where
  "isr_puts sc k =
     (let c = kbd_translate (shift_held k) (caps_lock_on k) sc
      in if sc AND 0x80 \<noteq> 0 \<or> sc \<in> {0x2A, 0x36, 0x3A} \<or> c = NUL \<or> \<not> length (kbd_chars k) < 255
         then [] else [c])"

definition wake :: "reader \<Rightarrow> reader" where
  "wake p = (if p = Asleep then Test else p)"

inductive kbd_step :: "session \<Rightarrow> session \<Rightarrow> bool" where
  interrupt: "kbd_isr sc (ring_of s) = Some k \<Longrightarrow>
     kbd_step s (s\<lparr>ring_of := k, reader_pc := wake (reader_pc s),
                  arrived := arrived s @ isr_puts sc (ring_of s)\<rparr>)"
| test_empty: "reader_pc s = Test \<Longrightarrow> \<not> kbd_has_char (ring_of s) \<Longrightarrow>
     kbd_step s (s\<lparr>reader_pc := Before_hlt\<rparr>)"
| test_ready: "reader_pc s = Test \<Longrightarrow> kbd_has_char (ring_of s) \<Longrightarrow>
     kbd_step s (s\<lparr>reader_pc := Load\<rparr>)"
| sleep: "reader_pc s = Before_hlt \<Longrightarrow> kbd_step s (s\<lparr>reader_pc := Asleep\<rparr>)"
| load: "reader_pc s = Load \<Longrightarrow> kbd_load (ring_of s) = Some c \<Longrightarrow>
     kbd_step s (s\<lparr>reader_pc := Advance c\<rparr>)"
| advance: "reader_pc s = Advance c \<Longrightarrow>
     kbd_step s (s\<lparr>ring_of := kbd_advance (ring_of s), got := got s @ [c], reader_pc := Test\<rparr>)"

inductive_cases kbd_stepE: "kbd_step s t"

definition session0 :: session where
  "session0 = \<lparr>ring_of = kbd0, reader_pc = Test, got = [], arrived = []\<rparr>"

definition session_inv :: "session \<Rightarrow> bool" where
  "session_inv s \<longleftrightarrow>
     kbd_wf (ring_of s) \<and> got s @ kbd_chars (ring_of s) = arrived s \<and>
     (case reader_pc s of
        Load \<Rightarrow> kbd_chars (ring_of s) \<noteq> []
      | Advance c \<Rightarrow> kbd_chars (ring_of s) \<noteq> [] \<and> hd (kbd_chars (ring_of s)) = c
      | _ \<Rightarrow> True)"

lemma kbd_isr_chars:
  assumes wf: "kbd_wf k" and isr: "kbd_isr sc k = Some k'"
  shows "kbd_wf k'" and "kbd_chars k' = kbd_chars k @ isr_puts sc k"
proof -
  define c where "c = kbd_translate (shift_held k) (caps_lock_on k) sc"
  obtain q where q: "kbd_put c k = Some q" "kbd_wf q"
    "kbd_chars q = (if ring_count k < 255 then kbd_chars k @ [c] else kbd_chars k)"
    using kbd_chars_put [OF wf, of c] by (auto simp: KBD_BUF_SIZE_def)
  have "kbd_wf k' \<and> kbd_chars k' = kbd_chars k @ isr_puts sc k"
    using wf isr q unfolding isr_puts_def kbd_isr_def c_def [symmetric] Let_def
    by (fastforce split: if_splits)
  then show "kbd_wf k'" and "kbd_chars k' = kbd_chars k @ isr_puts sc k" by simp_all
qed

lemma kbd_step_inv: "kbd_step s t \<Longrightarrow> session_inv s \<Longrightarrow> session_inv t"
proof (induction rule: kbd_step.induct)
  case (interrupt sc s k)
  then have "kbd_wf k" "kbd_chars k = kbd_chars (ring_of s) @ isr_puts sc (ring_of s)"
    using kbd_isr_chars by (auto simp: session_inv_def)
  with interrupt.prems show ?case
    by (auto simp: session_inv_def wake_def hd_append split: reader.splits)
next
  case (test_ready s)
  then show ?case using ring_empty_iff by (auto simp: session_inv_def)
next
  case (load s c)
  then show ?case using kbd_chars_take(1) by (auto simp: session_inv_def)
next
  case (advance s c)
  then have ne: "kbd_chars (ring_of s) \<noteq> []" "hd (kbd_chars (ring_of s)) = c" "kbd_wf (ring_of s)"
    by (auto simp: session_inv_def)
  then have "c # tl (kbd_chars (ring_of s)) = kbd_chars (ring_of s)" by auto
  with ne advance show ?case
    by (simp add: session_inv_def kbd_chars_take)
qed (auto simp: session_inv_def)

lemma kbd_steps_inv: "kbd_step\<^sup>*\<^sup>* s t \<Longrightarrow> session_inv s \<Longrightarrow> session_inv t"
  by (induction rule: rtranclp_induct) (auto intro: kbd_step_inv)

text \<open>C14: in every interleaving of the interrupt handler with the reader, the characters
  \<open>kbd_getchar\<close> has returned followed by those still in the ring are exactly the characters
  the handler accepted, in order: none is lost, duplicated or reordered by an interrupt that
  arrives in the middle of a read. The next interrupt is always handled within the buffer,
  and a load the reader is about to perform always finds a character.\<close>

theorem kbd_no_char_lost:
  assumes "kbd_step\<^sup>*\<^sup>* session0 s"
  shows "got s @ kbd_chars (ring_of s) = arrived s \<and> (\<exists>k. kbd_isr sc (ring_of s) = Some k) \<and>
    (reader_pc s = Load \<longrightarrow> kbd_load (ring_of s) = Some (hd (kbd_chars (ring_of s))))"
proof -
  have inv: "session_inv s"
    using kbd_steps_inv [OF assms] by (simp add: session_inv_def session0_def)
  then show ?thesis
    using kbd_isr_wf [of "ring_of s" sc] kbd_chars_take(1) [of "ring_of s"]
    by (auto simp: session_inv_def)
qed

text \<open>A key \<open>a\<close> pressed after the loop's test and before its \<open>hlt\<close>.\<close>

definition late_key :: session where
  "late_key = session0\<lparr>ring_of := kbd0\<lparr>kbd_buf := (kbd_buf kbd0)[0 := CHR ''a''], kbd_head := 1\<rparr>,
     reader_pc := Asleep, arrived := ''a''\<rparr>"

lemma kbd_isr_a:
  "kbd_isr 0x1E kbd0 = Some (kbd0\<lparr>kbd_buf := (kbd_buf kbd0)[0 := CHR ''a''], kbd_head := 1\<rparr>)"
  by (simp add: kbd_isr_def kbd_translate_def kbd_put_def kbd0_def scancode_normal_def is_lower_def
      KBD_BUF_SIZE_def Let_def)

lemma isr_puts_a: "isr_puts 0x1E kbd0 = ''a''"
  by (simp add: isr_puts_def kbd_translate_def scancode_normal_def is_lower_def kbd0_chars)
     (simp add: kbd0_def)

lemma late_key_reachable: "kbd_step\<^sup>*\<^sup>* session0 late_key"
proof -
  define s1 where "s1 = session0\<lparr>reader_pc := Before_hlt\<rparr>"
  define s2 where "s2 = late_key\<lparr>reader_pc := Before_hlt\<rparr>"
  have late: "late_key = s2\<lparr>reader_pc := Asleep\<rparr>" by (simp add: s2_def late_key_def)
  have "kbd_step session0 s1"
    unfolding s1_def by (rule kbd_step.test_empty) (simp_all add: session0_def kbd_has_char_def kbd0_def)
  moreover have "kbd_step s1 s2"
    using kbd_step.interrupt [where sc = "0x1E" and s = s1] kbd_isr_a
    by (simp add: s1_def s2_def late_key_def session0_def isr_puts_a wake_def)
  moreover have "kbd_step s2 late_key"
    unfolding late by (rule kbd_step.sleep) (simp add: s2_def)
  ultimately show ?thesis by (blast intro: converse_rtranclp_into_rtranclp)
qed

theorem kbd_no_char_lost_witness:
  "got late_key @ kbd_chars (ring_of late_key) = ''a'' \<and> (\<exists>k. kbd_isr 0x2A (ring_of late_key) = Some k)"
  using kbd_no_char_lost [OF late_key_reachable, of "0x2A"] by (simp add: late_key_def)

text \<open>The wait loop of \<open>kbd_getchar\<close> tests the ring and executes \<open>hlt\<close> in two steps, so
  the reader can fall asleep with a character waiting: a state in which it sleeps on a
  nonempty ring is reachable, and there nothing but another interrupt can move it.\<close>

theorem kbd_wakeup_can_be_late:
  "\<exists>s. kbd_step\<^sup>*\<^sup>* session0 s \<and> reader_pc s = Asleep \<and> kbd_chars (ring_of s) \<noteq> [] \<and>
     {t. kbd_step s t} \<subseteq> {t. \<exists>sc. kbd_isr sc (ring_of s) = Some (ring_of t)}"
proof (intro exI conjI)
  show "kbd_step\<^sup>*\<^sup>* session0 late_key" by (rule late_key_reachable)
  show "reader_pc late_key = Asleep" by (simp add: late_key_def)
  show "kbd_chars (ring_of late_key) \<noteq> []"
    by (simp add: late_key_def kbd_chars_def ring_count_def KBD_BUF_SIZE_def kbd0_def)
  show "{t. kbd_step late_key t} \<subseteq> {t. \<exists>sc. kbd_isr sc (ring_of late_key) = Some (ring_of t)}"
    by (auto simp: late_key_def elim!: kbd_stepE)
qed

end
