(* ===== verification/Fat.thy ===== *)
theory Fat
  imports Kstring
begin

text \<open>
  The storage layer of \<open>src/src/fs.c\<close>: the allocation table, the data blocks, the file entries
  and the helpers that allocate, link, free, find and copy. Table entries and block numbers are
  16-bit words as in the source; a data byte is a \<open>char\<close>. File sizes and buffer offsets, \<open>uint32_t\<close>
  in the source, are natural numbers: all of them are at most the size of the disk, 262144.

  The second half gives the layer its meaning: the chain of blocks a head denotes, the
  well-formedness of a disk, the content of a file, and closed forms for every helper.
\<close>

section \<open>State\<close>

definition FS_N_BLOCKS :: nat where "FS_N_BLOCKS = 8"
definition FS_BLOCK_SIZE :: nat where "FS_BLOCK_SIZE = 32768"
definition FS_MAX_FILES :: nat where "FS_MAX_FILES = 32"
definition FS_NAME_LEN :: nat where "FS_NAME_LEN = 64"
definition FS_DIR_LEN :: nat where "FS_DIR_LEN = 64"
definition FAT_FREE :: "16 word" where "FAT_FREE = 0x0000"
definition FAT_END :: "16 word" where "FAT_END = 0xFFFF"

definition FS_BYTES :: nat where "FS_BYTES = FS_N_BLOCKS * FS_BLOCK_SIZE"

record file_entry =
  fe_name :: cptr
  fe_dir :: cptr
  first_block :: "16 word"
  fe_size :: nat
  used :: bool

text \<open>The last three are the static buffers of \<open>fs_write\<close>, \<open>fs_edit\<close> and \<open>fs_copy\<close>.\<close>

record fsys =
  fat :: "16 word list"
  blocks :: "cptr list"
  files :: "file_entry list"
  tmp_write :: cptr
  tmp_edit :: cptr
  tmp_copy :: cptr

section \<open>Helpers of the source\<close>

definition alloc_block :: "16 word list \<Rightarrow> 16 word" where
  "alloc_block f =
     (case find (\<lambda>i. f ! i = FAT_FREE) [0..<FS_N_BLOCKS] of
        Some i \<Rightarrow> of_nat i
      | None \<Rightarrow> of_nat FS_N_BLOCKS)"

text \<open>
  The loop of \<open>free_chain\<close>. It stops on a table of any content: an iteration either frees one
  more entry, or meets an entry that is already free and so continues at block 0, where it stops.
\<close>

function free_chain :: "16 word \<Rightarrow> 16 word list \<Rightarrow> 16 word list option" where
  "free_chain start f =
     (if unat start < FS_N_BLOCKS \<and> start \<noteq> FAT_END \<and> start \<noteq> FAT_FREE
      then (if unat start < length f
            then free_chain (f ! unat start) (f[unat start := FAT_FREE])
            else None)
      else Some f)"
  by pat_completeness auto

lemma filter_update_less:
  "i < length xs \<Longrightarrow> P (xs ! i) \<Longrightarrow> \<not> P y \<Longrightarrow>
   length (filter P (xs[i := y])) < length (filter P xs)"
  by (induction xs arbitrary: i) (auto split: nat.splits)

termination free_chain
proof (relation "measure (\<lambda>(b, f). 2 * length (filter (\<lambda>e. e \<noteq> FAT_FREE) f) + (if b = FAT_FREE then 0 else 1))")
  show "wf (measure (\<lambda>(b, f). 2 * length (filter (\<lambda>e. e \<noteq> FAT_FREE) f) + (if b = FAT_FREE then 0 else 1)))"
    by simp
  fix b :: "16 word" and f :: "16 word list"
  assume b: "unat b < FS_N_BLOCKS \<and> b \<noteq> FAT_END \<and> b \<noteq> FAT_FREE" and l: "unat b < length f"
  show "((f ! unat b, f[unat b := FAT_FREE]), b, f) \<in> measure (\<lambda>(b, f). 2 * length (filter (\<lambda>e. e \<noteq> FAT_FREE) f) + (if b = FAT_FREE then 0 else 1))"
  proof (cases "f ! unat b = FAT_FREE")
    case True
    then have "f[unat b := FAT_FREE] = f" by (metis list_update_id)
    with True b show ?thesis by simp
  next
    case False
    then show ?thesis
      using filter_update_less [of "unat b" f "\<lambda>e. e \<noteq> FAT_FREE" FAT_FREE] l b by simp
  qed
qed

declare free_chain.simps [simp del]

text \<open>The loop of \<open>find_file\<close> over the remaining entries; \<open>i\<close> is the loop counter.\<close>

fun find_from :: "cptr \<Rightarrow> cptr \<Rightarrow> file_entry list \<Rightarrow> nat \<Rightarrow> nat option" where
  "find_from name dir [] i = Some i"
| "find_from name dir (e # es) i =
     (if used e then do {
        a \<leftarrow> kstrcmp (fe_name e) name;
        if a = 0 then do {
          b \<leftarrow> kstrcmp (fe_dir e) dir;
          if b = 0 then Some i else find_from name dir es (Suc i)
        } else find_from name dir es (Suc i)
      } else find_from name dir es (Suc i))"

definition find_file :: "cptr \<Rightarrow> cptr \<Rightarrow> fsys \<Rightarrow> nat option" where
  "find_file name dir s = find_from name dir (files s) 0"

definition find_free_slot :: "fsys \<Rightarrow> nat" where
  "find_free_slot s =
     (case find (\<lambda>i. \<not> used (files s ! i)) [0..<FS_MAX_FILES] of Some i \<Rightarrow> i | None \<Rightarrow> FS_MAX_FILES)"

definition is_blank :: "char \<Rightarrow> bool" where
  "is_blank c \<longleftrightarrow> c = CHR '' '' \<or> c = CHR 0x09 \<or> c = CHR 0x0D \<or> c = CHR 0x0A"

text \<open>The loop of \<open>trim_line\<close>: the first argument is \<open>i + 1\<close>.\<close>

fun trim_from :: "nat \<Rightarrow> cptr \<Rightarrow> cptr" where
  "trim_from 0 s = s"
| "trim_from (Suc i) s = (if is_blank (s ! i) then trim_from i (s[i := NUL]) else s)"

definition trim_line :: "cptr \<Rightarrow> cptr option" where
  "trim_line s = do { n \<leftarrow> kstrlen s; Some (trim_from n s) }"

lemma FS_BLOCK_SIZE_pos [simp]: "0 < FS_BLOCK_SIZE"
  by (simp add: FS_BLOCK_SIZE_def)

text \<open>The loop of \<open>write_to_blocks\<close>; \<open>None\<close> is a copy past the end of \<open>data\<close>.\<close>

function write_loop ::
  "cptr \<Rightarrow> nat \<Rightarrow> nat \<Rightarrow> 16 word \<Rightarrow> 16 word \<Rightarrow> fsys \<Rightarrow> (16 word \<times> fsys) option" where
  "write_loop data len written first prev s =
     (if written < len then
        (let blk = alloc_block (fat s)
         in if unat blk = FS_N_BLOCKS then Some (blk, s)
            else
              (let f = (fat s)[unat blk := FAT_END];
                   f = (if prev \<noteq> FAT_END then f[unat prev := blk] else f);
                   first = (if first = FAT_END then blk else first);
                   chunk = min (len - written) FS_BLOCK_SIZE
               in case kmemcpy (blocks s ! unat blk) (drop written data) chunk of
                    None \<Rightarrow> None
                  | Some b \<Rightarrow> write_loop data len (written + chunk) first blk
                                (s\<lparr>fat := f, blocks := (blocks s)[unat blk := b]\<rparr>)))
      else Some (first, s))"
  by pat_completeness auto
termination
  by (relation "measure (\<lambda>(d, len, written, x). len - written)") (auto simp: FS_BLOCK_SIZE_def)

declare write_loop.simps [simp del]

definition write_to_blocks :: "cptr \<Rightarrow> nat \<Rightarrow> fsys \<Rightarrow> (16 word \<times> fsys) option" where
  "write_to_blocks data len s =
     (if len = 0 then Some (FAT_END, s) else write_loop data len 0 FAT_END FAT_END s)"

text \<open>\<open>kmemcpy(buf + off, src, n)\<close>.\<close>

definition memcpy_at :: "cptr \<Rightarrow> nat \<Rightarrow> cptr \<Rightarrow> nat \<Rightarrow> cptr option" where
  "memcpy_at buf off src n = map_option (\<lambda>p. take off buf @ p) (kmemcpy (drop off buf) src n)"

text \<open>The loop that \<open>fs_edit\<close> and \<open>fs_copy\<close> read a file into their buffer with.\<close>

function load_loop :: "16 word \<Rightarrow> nat \<Rightarrow> nat \<Rightarrow> cptr \<Rightarrow> fsys \<Rightarrow> cptr option" where
  "load_loop blk left off buf s =
     (if unat blk < FS_N_BLOCKS \<and> left > 0 then
        (let chunk = (if left < FS_BLOCK_SIZE then left else FS_BLOCK_SIZE)
         in case memcpy_at buf off (blocks s ! unat blk) chunk of
              None \<Rightarrow> None
            | Some buf \<Rightarrow> load_loop (fat s ! unat blk) (left - chunk) (off + chunk) buf s)
      else Some buf)"
  by pat_completeness auto
termination by (relation "measure (\<lambda>(b, left, x). left)") (auto simp: FS_BLOCK_SIZE_def)

declare load_loop.simps [simp del]

definition fs_init :: "fsys \<Rightarrow> fsys" where
  "fs_init s =
     s\<lparr>fat := fold (\<lambda>i f. f[i := FAT_FREE]) [0..<FS_N_BLOCKS] (fat s),
       files := fold (\<lambda>i fs. fs[i := (fs ! i)\<lparr>used := False, fe_size := 0, first_block := FAT_END\<rparr>])
                     [0..<FS_MAX_FILES] (files s)\<rparr>"

section \<open>Small constants\<close>

lemma FAT_END_unat [simp]: "unat FAT_END = 65535" and FAT_FREE_unat [simp]: "unat FAT_FREE = 0"
  by (simp_all add: FAT_END_def FAT_FREE_def)

lemma FAT_END_neq_FREE [simp]: "FAT_END \<noteq> FAT_FREE" "FAT_FREE \<noteq> FAT_END"
  by (simp_all add: FAT_END_def FAT_FREE_def)

lemma N_BLOCKS_small: "b \<le> FS_N_BLOCKS \<Longrightarrow> b < 65535"
  by (simp add: FS_N_BLOCKS_def)

lemma unat_blk [simp]: "b \<le> FS_N_BLOCKS \<Longrightarrow> unat (of_nat b :: 16 word) = b"
  by (simp add: unsigned_of_nat take_bit_nat_eq_self FS_N_BLOCKS_def)

lemma blk_neq_END [simp]: "b \<le> FS_N_BLOCKS \<Longrightarrow> (of_nat b :: 16 word) \<noteq> FAT_END"
  using unat_blk [of b] N_BLOCKS_small [of b] by (metis FAT_END_unat less_irrefl)

lemma blk_eq_FREE [simp]: "b \<le> FS_N_BLOCKS \<Longrightarrow> (of_nat b :: 16 word) = FAT_FREE \<longleftrightarrow> b = 0"
proof
  assume "b \<le> FS_N_BLOCKS" and "(of_nat b :: 16 word) = FAT_FREE"
  then show "b = 0" using unat_blk [of b] by simp
qed (simp add: FAT_FREE_def)

section \<open>Chains of blocks\<close>

text \<open>\<open>chain f p bs\<close>: starting at \<open>p\<close>, the table links exactly the blocks \<open>bs\<close>, in this order.\<close>

fun chain :: "16 word list \<Rightarrow> 16 word \<Rightarrow> nat list \<Rightarrow> bool" where
  "chain f p [] \<longleftrightarrow> p = FAT_END"
| "chain f p (b # bs) \<longleftrightarrow>
     b < FS_N_BLOCKS \<and> p = of_nat b \<and> f ! b \<noteq> FAT_FREE \<and> chain f (f ! b) bs"

lemma chain_bound: "chain f p bs \<Longrightarrow> b \<in> set bs \<Longrightarrow> b < FS_N_BLOCKS \<and> f ! b \<noteq> FAT_FREE"
  by (induction bs arbitrary: p) auto

lemma chain_cong: "(\<And>b. b \<in> set bs \<Longrightarrow> g ! b = f ! b) \<Longrightarrow> chain g p bs = chain f p bs"
  by (induction bs arbitrary: p) auto

text \<open>The blocks of a head, computed: at most \<open>n\<close> of them.\<close>

fun walk :: "nat \<Rightarrow> 16 word list \<Rightarrow> 16 word \<Rightarrow> nat list" where
  "walk 0 f p = []"
| "walk (Suc n) f p = (if unat p < FS_N_BLOCKS then unat p # walk n f (f ! unat p) else [])"

lemma walk_chain: "chain f p bs \<Longrightarrow> length bs \<le> n \<Longrightarrow> walk n f p = bs"
proof (induction bs arbitrary: p n)
  case Nil
  then show ?case by (cases n) (simp_all add: FS_N_BLOCKS_def)
next
  case (Cons b bs)
  then show ?case by (cases n) auto
qed

lemma chain_length:
  assumes "chain f p bs" and "sorted_wrt (<) bs"
  shows "length bs \<le> FS_N_BLOCKS"
proof -
  have "set bs \<subseteq> {..<FS_N_BLOCKS}" using chain_bound [OF assms(1)] by auto
  then have "card (set bs) \<le> FS_N_BLOCKS" using card_mono [of "{..<FS_N_BLOCKS}"] by fastforce
  moreover have "distinct bs" using assms(2) by (simp add: strict_sorted_iff)
  ultimately show ?thesis by (simp add: distinct_card)
qed

section \<open>Allocation and release\<close>

definition free_blocks :: "16 word list \<Rightarrow> nat list" where
  "free_blocks f = filter (\<lambda>i. f ! i = FAT_FREE) [0..<FS_N_BLOCKS]"

lemma free_blocks_sorted [simp]: "sorted_wrt (<) (free_blocks f)"
  by (simp add: free_blocks_def sorted_wrt_filter)

lemma set_free_blocks: "set (free_blocks f) = {i. i < FS_N_BLOCKS \<and> f ! i = FAT_FREE}"
  by (auto simp: free_blocks_def)

lemma find_filter: "find P xs = (case filter P xs of [] \<Rightarrow> None | x # _ \<Rightarrow> Some x)"
  by (induction xs) auto

lemma alloc_block_eq:
  "alloc_block f = of_nat (case free_blocks f of [] \<Rightarrow> FS_N_BLOCKS | b # _ \<Rightarrow> b)"
  unfolding alloc_block_def find_filter free_blocks_def by (simp split: list.splits)

definition release :: "nat list \<Rightarrow> 16 word list \<Rightarrow> 16 word list" where
  "release bs f = fold (\<lambda>b f. f[b := FAT_FREE]) bs f"

lemma release_simps [simp]:
  "release [] f = f" "release (b # bs) f = release bs (f[b := FAT_FREE])"
  "length (release bs f) = length f"
proof -
  show "length (release bs f) = length f"
    by (induction bs arbitrary: f) (simp_all add: release_def)
qed (simp_all add: release_def)

lemma nth_release:
  "i < length f \<Longrightarrow> release bs f ! i = (if i \<in> set bs then FAT_FREE else f ! i)"
  by (induction bs arbitrary: f) (auto simp: nth_list_update)

text \<open>What \<open>free_chain\<close> does to a chain: a head other than block 0 is released whole; a chain
  that starts at block 0 is left allocated, since block number 0 is read as \<open>FAT_FREE\<close>.\<close>

lemma free_chain_eq:
  "chain f p bs \<Longrightarrow> sorted_wrt (<) bs \<Longrightarrow> length f = FS_N_BLOCKS \<Longrightarrow>
   free_chain p f = Some (if 0 \<in> set bs then f else release bs f)"
proof (induction bs arbitrary: p f)
  case Nil
  then show ?case by (simp add: free_chain.simps)
next
  case (Cons b bs)
  show ?case
  proof (cases "b = 0")
    case True
    then show ?thesis using Cons.prems by (simp add: free_chain.simps FAT_FREE_def)
  next
    case False
    have "chain (f[b := FAT_FREE]) (f ! b) bs = chain f (f ! b) bs"
      using Cons.prems(2) by (intro chain_cong) auto
    then have "free_chain (f ! b) (f[b := FAT_FREE]) = Some (release bs (f[b := FAT_FREE]))"
      using Cons.IH [of "f[b := FAT_FREE]" "f ! b"] Cons.prems False by force
    then show ?thesis
      using Cons.prems False by (subst free_chain.simps) auto
  qed
qed

section \<open>Writing a chain\<close>

text \<open>The table after linking the blocks \<open>bs\<close> behind \<open>prev\<close>, and the blocks after storing data.\<close>

fun link :: "nat list \<Rightarrow> 16 word \<Rightarrow> 16 word list \<Rightarrow> 16 word list" where
  "link [] prev f = f"
| "link (b # bs) prev f =
     link bs (of_nat b)
       (if prev \<noteq> FAT_END then f[b := FAT_END, unat prev := of_nat b] else f[b := FAT_END])"

fun store_data :: "nat list \<Rightarrow> cptr \<Rightarrow> cptr list \<Rightarrow> cptr list" where
  "store_data [] d bl = bl"
| "store_data (b # bs) d bl =
     store_data bs (drop FS_BLOCK_SIZE d)
       (bl[b := take FS_BLOCK_SIZE d @ drop (length d) (bl ! b)])"

definition n_blocks :: "nat \<Rightarrow> nat" where
  "n_blocks n = (n + FS_BLOCK_SIZE - 1) div FS_BLOCK_SIZE"

lemma n_blocks_0 [simp]: "n_blocks 0 = 0"
  by (simp add: n_blocks_def FS_BLOCK_SIZE_def)

lemma n_blocks_step: "0 < n \<Longrightarrow> n_blocks n = Suc (n_blocks (n - FS_BLOCK_SIZE))"
  by (cases "n \<le> FS_BLOCK_SIZE") (auto simp: n_blocks_def FS_BLOCK_SIZE_def div_if)

lemma n_blocks_le_iff: "n_blocks n \<le> k \<longleftrightarrow> n \<le> k * FS_BLOCK_SIZE"
  by (auto simp: n_blocks_def FS_BLOCK_SIZE_def)

lemma link_length [simp]: "length (link bs p f) = length f"
  by (induction bs arbitrary: p f) auto

lemma store_data_length [simp]: "length (store_data bs d bl) = length bl"
  by (induction bs arbitrary: d bl) auto

lemma nth_link_other:
  "i \<notin> set bs \<Longrightarrow> p = FAT_END \<or> i \<noteq> unat p \<Longrightarrow> set bs \<subseteq> {..<FS_N_BLOCKS} \<Longrightarrow>
   link bs p f ! i = f ! i"
proof (induction bs arbitrary: p f)
  case (Cons b bs)
  then have "unat (of_nat b :: 16 word) = b" by simp
  with Cons show ?case by auto
qed simp

text \<open>The successor of each block in a linked chain.\<close>

lemma link_chain:
  "sorted_wrt (<) bs \<Longrightarrow> set bs \<subseteq> {..<FS_N_BLOCKS} \<Longrightarrow> length f = FS_N_BLOCKS \<Longrightarrow>
   p = FAT_END \<or> unat p \<notin> set bs \<Longrightarrow>
   chain (link bs p f) (if bs = [] then FAT_END else of_nat (hd bs)) bs"
proof (induction bs arbitrary: p f)
  case (Cons b bs)
  define g where
    "g = (if p \<noteq> FAT_END then f[b := FAT_END, unat p := of_nat b] else f[b := FAT_END])"
  have b: "b < FS_N_BLOCKS" "unat (of_nat b :: 16 word) = b" "b \<notin> set bs"
    using Cons.prems by auto
  have g: "length g = FS_N_BLOCKS" "g ! b = FAT_END"
    using Cons.prems b by (auto simp: g_def)
  have next_b: "link bs (of_nat b) g ! b = (if bs = [] then FAT_END else of_nat (hd bs))"
  proof (cases bs)
    case Nil
    then show ?thesis by (simp add: g)
  next
    case (Cons c cs)
    with \<open>sorted_wrt (<) (b # bs)\<close> \<open>set (b # bs) \<subseteq> _\<close> b g show ?thesis
      by (auto simp: nth_link_other)
  qed
  have "chain (link bs (of_nat b) g) (if bs = [] then FAT_END else of_nat (hd bs)) bs"
    using Cons.prems b g by (intro Cons.IH) auto
  moreover have "bs \<noteq> [] \<Longrightarrow> hd bs \<noteq> 0 \<and> hd bs \<le> FS_N_BLOCKS"
    using Cons.prems(1,2) by (cases bs) auto
  ultimately show ?case
    using b next_b unfolding link.simps g_def [symmetric] by auto
qed simp

lemma nth_store_other: "i \<notin> set bs \<Longrightarrow> store_data bs d bl ! i = bl ! i"
  by (induction bs arbitrary: d bl) auto

lemma store_rows:
  "list_all (\<lambda>r. length r = FS_BLOCK_SIZE) bl \<Longrightarrow> set bs \<subseteq> {..<length bl} \<Longrightarrow>
   list_all (\<lambda>r. length r = FS_BLOCK_SIZE) (store_data bs d bl)"
proof (induction bs arbitrary: d bl)
  case (Cons b bs)
  then have "length (bl ! b) = FS_BLOCK_SIZE" by (simp add: list_all_length)
  with Cons show ?case by (auto simp: list_all_length nth_list_update)
qed simp

lemma store_content:
  "distinct bs \<Longrightarrow> set bs \<subseteq> {..<length bl} \<Longrightarrow> list_all (\<lambda>r. length r = FS_BLOCK_SIZE) bl \<Longrightarrow>
   length d \<le> length bs * FS_BLOCK_SIZE \<Longrightarrow>
   take (length d) (concat (map ((!) (store_data bs d bl)) bs)) = d"
proof (induction bs arbitrary: d bl)
  case (Cons b bs)
  define row where "row = take FS_BLOCK_SIZE d @ drop (length d) (bl ! b)"
  have len: "length (bl ! b) = FS_BLOCK_SIZE" using Cons.prems by (simp add: list_all_length)
  then have row: "length row = FS_BLOCK_SIZE" by (simp add: row_def)
  have rows: "list_all (\<lambda>r. length r = FS_BLOCK_SIZE) (bl[b := row])"
    using Cons.prems row by (auto simp: list_all_length nth_list_update)
  have here: "store_data bs (drop FS_BLOCK_SIZE d) (bl[b := row]) ! b = row"
    using Cons.prems by (simp add: nth_store_other)
  have "take (length (drop FS_BLOCK_SIZE d))
      (concat (map ((!) (store_data bs (drop FS_BLOCK_SIZE d) (bl[b := row]))) bs)) = drop FS_BLOCK_SIZE d"
    using Cons.prems rows by (intro Cons.IH) auto
  moreover have "take (length d) row = take FS_BLOCK_SIZE d"
    using len by (auto simp: row_def min_def)
  ultimately show ?case
    by (simp add: row_def [symmetric] here row)
qed simp

section \<open>Closed forms of the loops\<close>

definition fs_shape :: "fsys \<Rightarrow> bool" where
  "fs_shape s \<longleftrightarrow>
     length (fat s) = FS_N_BLOCKS \<and> length (blocks s) = FS_N_BLOCKS \<and>
     list_all (\<lambda>r. length r = FS_BLOCK_SIZE) (blocks s) \<and>
     length (files s) = FS_MAX_FILES \<and>
     list_all (\<lambda>e. length (fe_name e) = FS_NAME_LEN \<and> length (fe_dir e) = FS_DIR_LEN) (files s) \<and>
     length (tmp_write s) = FS_BYTES \<and> length (tmp_edit s) = FS_BYTES \<and> length (tmp_copy s) = FS_BYTES"

text \<open>The block linked last: every free block comes after it.\<close>

definition tail_ok :: "16 word \<Rightarrow> 16 word list \<Rightarrow> bool" where
  "tail_ok prev f \<longleftrightarrow>
     prev = FAT_END \<or> unat prev < FS_N_BLOCKS \<and> f ! unat prev \<noteq> FAT_FREE \<and>
     (\<forall>b \<in> set (free_blocks f). unat prev < b)"

definition linked1 :: "16 word list \<Rightarrow> nat \<Rightarrow> 16 word \<Rightarrow> 16 word list" where
  "linked1 f b prev =
     (if prev \<noteq> FAT_END then f[b := FAT_END, unat prev := of_nat b] else f[b := FAT_END])"

lemma linked1_step:
  assumes "length f = FS_N_BLOCKS" and "tail_ok prev f" and "free_blocks f = b # rest"
  shows "free_blocks (linked1 f b prev) = rest" and "tail_ok (of_nat b) (linked1 f b prev)"
    and "length (linked1 f b prev) = FS_N_BLOCKS"
proof -
  have b: "b < FS_N_BLOCKS" "f ! b = FAT_FREE" using set_free_blocks [of f] assms(3) by auto
  have sorted: "sorted_wrt (<) (b # rest)" using free_blocks_sorted [of f] assms(3) by simp
  have prev: "prev \<noteq> FAT_END \<Longrightarrow> unat prev < b \<and> unat prev \<noteq> b \<and> f ! unat prev \<noteq> FAT_FREE"
    using assms(2,3) b by (auto simp: tail_ok_def)
  have nth: "linked1 f b prev ! i = FAT_FREE \<longleftrightarrow> f ! i = FAT_FREE \<and> i \<noteq> b" if "i < FS_N_BLOCKS" for i
    using that prev b assms(1) by (auto simp: linked1_def nth_list_update_cases split: if_splits)
  have "free_blocks (linked1 f b prev) = filter (\<lambda>i. i \<noteq> b) (free_blocks f)"
    unfolding free_blocks_def filter_filter by (rule filter_cong) (auto simp: nth)
  also have "\<dots> = rest" using assms(3) sorted by (auto intro!: filter_True)
  finally show rest: "free_blocks (linked1 f b prev) = rest" .
  show "length (linked1 f b prev) = FS_N_BLOCKS" using assms(1) by (simp add: linked1_def)
  show "tail_ok (of_nat b) (linked1 f b prev)"
    using b sorted nth [of b] by (auto simp: tail_ok_def rest)
qed

lemma copy_chunk:
  assumes "length row = FS_BLOCK_SIZE" and "w < len" and "len \<le> length data"
  shows "kmemcpy row (drop w data) (min (len - w) FS_BLOCK_SIZE) =
    Some (take FS_BLOCK_SIZE (take (len - w) (drop w data)) @ drop (len - w) row)"
  using assms by (subst kmemcpy_eq) (auto simp: min_def)

text \<open>
  \<open>write_to_blocks\<close> takes the first free blocks, as many as the data needs, links them in
  increasing order and stores the data; when there are too few it has taken them all.
\<close>

lemma write_loop_eq:
  assumes "fs_shape s" and "tail_ok prev (fat s)" and "written \<le> len" and "len \<le> length data"
  shows "write_loop data len written first prev s =
    (let bs = take (n_blocks (len - written)) (free_blocks (fat s))
     in Some (if n_blocks (len - written) \<le> length (free_blocks (fat s))
              then (if first = FAT_END \<and> bs \<noteq> [] then of_nat (hd bs) else first)
              else of_nat FS_N_BLOCKS,
              s\<lparr>fat := link bs prev (fat s),
                blocks := store_data bs (take (len - written) (drop written data)) (blocks s)\<rparr>))"
  using assms
proof (induction "len - written" arbitrary: written first prev s rule: less_induct)
  case less
  show ?case
  proof (cases "written < len \<and> free_blocks (fat s) \<noteq> []")
    case False
    show ?thesis
    proof (cases "written < len")
      case True
      with False have "alloc_block (fat s) = of_nat FS_N_BLOCKS" by (simp add: alloc_block_eq)
      with True False n_blocks_step [of "len - written"] show ?thesis
        by (subst write_loop.simps) (simp add: Let_def)
    next
      case False
      with less.prems show ?thesis by (subst write_loop.simps) simp
    qed
  next
    case True
    then obtain b rest where fb: "free_blocks (fat s) = b # rest" by (cases "free_blocks (fat s)") auto
    have b: "b < FS_N_BLOCKS" using set_free_blocks [of "fat s"] fb by auto
    have alloc: "alloc_block (fat s) = of_nat b" by (simp add: alloc_block_eq fb)
    define f where "f = linked1 (fat s) b prev"
    define row where
      "row = take FS_BLOCK_SIZE (take (len - written) (drop written data)) @ drop (len - written) (blocks s ! b)"
    define s' where "s' = s\<lparr>fat := f, blocks := (blocks s)[b := row]\<rparr>"
    define w where "w = written + min (len - written) FS_BLOCK_SIZE"
    have len: "length (blocks s ! b) = FS_BLOCK_SIZE"
      using less.prems(1) b by (auto simp: fs_shape_def list_all_length)
    have copy: "kmemcpy (blocks s ! b) (drop written data) (min (len - written) FS_BLOCK_SIZE) = Some row"
      unfolding row_def using copy_chunk [OF len] True less.prems by simp
    have st: "free_blocks f = rest" "tail_ok (of_nat b) f" "length f = FS_N_BLOCKS"
      using linked1_step [OF _ less.prems(2) fb] less.prems(1) by (simp_all add: f_def fs_shape_def)
    have "length row = FS_BLOCK_SIZE" using len True less.prems by (auto simp: row_def)
    then have shape: "fs_shape s'"
      using less.prems(1) st(3) by (auto simp: fs_shape_def s'_def list_all_length nth_list_update_cases)
    have w: "len - w < len - written" "w \<le> len"
      using True by (auto simp: w_def FS_BLOCK_SIZE_def)
    have s': "fat s' = f" "blocks s' = (blocks s)[b := row]" by (simp_all add: s'_def)
    have step: "write_loop data len written first prev s =
        write_loop data len w (if first = FAT_END then of_nat b else first) (of_nat b) s'"
      using True b copy
      by (subst write_loop.simps) (simp add: alloc Let_def s'_def f_def linked1_def w_def)
    have rem: "n_blocks (len - written) = Suc (n_blocks (len - w))"
      using True n_blocks_step [of "len - written"] by (simp add: w_def min_def)
    have dat: "drop FS_BLOCK_SIZE (take (len - written) (drop written data)) = take (len - w) (drop w data)"
      using True by (auto simp: w_def min_def drop_take add.commute)
    have ln: "min (length data - written) (len - written) = len - written"
      using less.prems by (intro min_absorb2) simp
    have "write_loop data len w (if first = FAT_END then of_nat b else first) (of_nat b) s' =
      (let bs = take (n_blocks (len - w)) rest
       in Some (if n_blocks (len - w) \<le> length rest
                then (if first = FAT_END then of_nat b else first) else of_nat FS_N_BLOCKS,
                s'\<lparr>fat := link bs (of_nat b) f,
                  blocks := store_data bs (take (len - w) (drop w data)) ((blocks s)[b := row])\<rparr>))"
      using less.hyps [OF w(1) shape _ w(2) less.prems(4), of "of_nat b"
          "if first = FAT_END then of_nat b else first"] st b
      by (simp add: s' Let_def)
    then show ?thesis
      using b unfolding step rem fb
      by (simp add: Let_def dat ln s'_def f_def linked1_def row_def)
  qed
qed

text \<open>The bytes of a file: the chain's blocks in order, cut at the size.\<close>

definition chain_bytes :: "cptr list \<Rightarrow> nat list \<Rightarrow> nat \<Rightarrow> cptr" where
  "chain_bytes bl bs n = take n (concat (map ((!) bl) bs))"

lemma chain_bytes_Cons:
  "length (bl ! b) = FS_BLOCK_SIZE \<Longrightarrow>
   chain_bytes bl (b # bs) n = take n (bl ! b) @ chain_bytes bl bs (n - FS_BLOCK_SIZE)"
  by (simp add: chain_bytes_def)

lemma chain_bytes_length:
  "list_all (\<lambda>r. length r = FS_BLOCK_SIZE) bl \<Longrightarrow> set bs \<subseteq> {..<length bl} \<Longrightarrow>
   n \<le> length bs * FS_BLOCK_SIZE \<Longrightarrow> length (chain_bytes bl bs n) = n"
proof (induction bs arbitrary: n)
  case (Cons b bs)
  then have "length (bl ! b) = FS_BLOCK_SIZE" by (simp add: list_all_length)
  with Cons show ?case by (simp add: chain_bytes_Cons)
qed (simp add: chain_bytes_def)

lemma memcpy_at_eq:
  "off + n \<le> length buf \<Longrightarrow> n \<le> length src \<Longrightarrow>
   memcpy_at buf off src n = Some (take off buf @ take n src @ drop (off + n) buf)"
  by (simp add: memcpy_at_def kmemcpy_eq add.commute)

lemma load_loop_eq:
  assumes "chain (fat s) p bs" and "fs_shape s" and "n \<le> length bs * FS_BLOCK_SIZE"
    and "off + n \<le> length buf"
  shows "load_loop p n off buf s =
    Some (take off buf @ chain_bytes (blocks s) bs n @ drop (off + n) buf)"
  using assms
proof (induction bs arbitrary: p n off buf)
  case Nil
  then show ?case by (subst load_loop.simps) (simp add: chain_bytes_def)
next
  case (Cons b bs)
  show ?case
  proof (cases "n = 0")
    case True
    then show ?thesis by (subst load_loop.simps) (simp add: chain_bytes_def)
  next
    case False
    define m where "m = min n FS_BLOCK_SIZE"
    have row: "length (blocks s ! b) = FS_BLOCK_SIZE"
      using Cons.prems by (auto simp: fs_shape_def list_all_length)
    define buf' where "buf' = take off buf @ take m (blocks s ! b) @ drop (off + m) buf"
    have copy: "memcpy_at buf off (blocks s ! b) m = Some buf'"
      unfolding buf'_def using row Cons.prems(4) by (intro memcpy_at_eq) (auto simp: m_def)
    have len: "length buf' = length buf" using row Cons.prems(4) by (simp add: buf'_def m_def)
    have "load_loop (fat s ! b) (n - m) (off + m) buf' s =
      Some (take (off + m) buf' @ chain_bytes (blocks s) bs (n - m) @ drop (off + m + (n - m)) buf')"
      using Cons.prems len by (intro Cons.IH) (auto simp: m_def)
    moreover have "take (off + m) buf' = take off buf @ take n (blocks s ! b)"
      using row Cons.prems(4) by (simp add: buf'_def m_def min_def)
    moreover have "drop (off + m + (n - m)) buf' = drop (off + n) buf"
      using row Cons.prems(4) by (simp add: buf'_def m_def min_def add.commute)
    moreover have "n - m = n - FS_BLOCK_SIZE" by (simp add: m_def)
    moreover have "load_loop p n off buf s = load_loop (fat s ! b) (n - m) (off + m) buf' s"
      using Cons.prems(1) False copy
      by (subst load_loop.simps) (auto simp: m_def min_def Let_def)
    ultimately show ?thesis using row by (simp add: chain_bytes_Cons)
  qed
qed

text \<open>\<open>find_file\<close> returns the index of the first live entry with this name and directory.\<close>

definition entry_key :: "file_entry \<Rightarrow> string \<times> string" where
  "entry_key e = (cstr (fe_name e), cstr (fe_dir e))"

definition entry_strings :: "file_entry \<Rightarrow> bool" where
  "entry_strings e \<longleftrightarrow> used e \<longrightarrow> terminated (fe_name e) \<and> terminated (fe_dir e)"

lemma find_from_eq:
  "list_all entry_strings es \<Longrightarrow> terminated name \<Longrightarrow> terminated dir \<Longrightarrow>
   find_from name dir es i =
     Some (i + length (takeWhile (\<lambda>e. \<not> (used e \<and> entry_key e = (cstr name, cstr dir))) es))"
proof (induction es arbitrary: i)
  case (Cons e es)
  show ?case
  proof (cases "used e")
    case True
    with Cons.prems have t: "terminated (fe_name e)" "terminated (fe_dir e)"
      by (auto simp: entry_strings_def)
    obtain a where a: "kstrcmp (fe_name e) name = Some a"
      using kstrcmp_defined [OF t(1) Cons.prems(2)] by blast
    obtain b where b: "kstrcmp (fe_dir e) dir = Some b"
      using kstrcmp_defined [OF t(2) Cons.prems(3)] by blast
    have "entry_key e = (cstr name, cstr dir) \<longleftrightarrow> a = 0 \<and> b = 0"
      using kstrcmp_zero_iff [OF a] kstrcmp_zero_iff [OF b] by (simp add: entry_key_def)
    with True a b Cons show ?thesis by simp
  next
    case False
    with Cons show ?thesis by simp
  qed
qed simp

text \<open>\<open>trim_line\<close> removes the trailing blanks of a C string and keeps the buffer's size.\<close>

definition rstrip :: "string \<Rightarrow> string" where
  "rstrip s = rev (dropWhile is_blank (rev s))"

lemma rstrip_snoc [simp]: "rstrip (s @ [c]) = (if is_blank c then rstrip s else s @ [c])"
  by (simp add: rstrip_def)

lemma trim_from_eq:
  "NUL \<notin> set s \<Longrightarrow> \<exists>p. trim_from (length s) (s @ NUL # q) = rstrip s @ NUL # p \<and>
     length (rstrip s @ NUL # p) = length (s @ NUL # q)"
proof (induction s arbitrary: q rule: rev_induct)
  case Nil
  then show ?case by (simp add: rstrip_def)
next
  case (snoc c s)
  show ?case
  proof (cases "is_blank c")
    case True
    have "trim_from (length (s @ [c])) ((s @ [c]) @ NUL # q) = trim_from (length s) (s @ NUL # NUL # q)"
      using True by (simp add: nth_append list_update_append)
    with snoc.IH [of "NUL # q"] snoc.prems True show ?thesis by auto
  next
    case False
    then show ?thesis by (simp add: nth_append)
  qed
qed

lemma NUL_notin_rstrip: "NUL \<notin> set s \<Longrightarrow> NUL \<notin> set (rstrip s)"
  unfolding rstrip_def using set_dropWhileD by fastforce

lemma trim_line_eq:
  assumes "terminated p"
  shows "\<exists>q. trim_line p = Some q \<and> length q = length p \<and> terminated q \<and> cstr q = rstrip (cstr p)"
proof -
  obtain r where r: "p = cstr p @ NUL # r" using cstr_decomp [OF assms] by blast
  obtain q where "trim_from (length (cstr p)) (cstr p @ NUL # r) = rstrip (cstr p) @ NUL # q"
    "length (rstrip (cstr p) @ NUL # q) = length (cstr p @ NUL # r)"
    using trim_from_eq [of "cstr p" r] by auto
  then show ?thesis
    using assms r NUL_notin_rstrip [of "cstr p"] by (auto simp: trim_line_def kstrlen_eq)
qed

end
