(* ===== verification/Disk.thy ===== *)
theory Disk
  imports Fat
begin

text \<open>
  The meaning of the storage layer. \<open>fs_wf\<close> is the invariant of \<open>src/src/fs.c\<close>: every live entry
  heads a chain of allocated blocks as long as its size needs, chains are disjoint, and no two
  live entries have the same name and directory. \<open>fs_abs\<close> is the abstract file system a
  well-formed disk represents, a map from (name, directory) to the bytes of the file. One lemma
  says what replacing a single entry does to both; the helpers are then steps of that kind.
\<close>

section \<open>Invariant and abstraction\<close>

definition blocks_of :: "fsys \<Rightarrow> file_entry \<Rightarrow> nat list" where
  "blocks_of s e = walk FS_N_BLOCKS (fat s) (first_block e)"

definition content :: "fsys \<Rightarrow> file_entry \<Rightarrow> cptr" where
  "content s e = chain_bytes (blocks s) (blocks_of s e) (fe_size e)"

definition file_ok :: "fsys \<Rightarrow> file_entry \<Rightarrow> bool" where
  "file_ok s e \<longleftrightarrow>
     terminated (fe_name e) \<and> terminated (fe_dir e) \<and>
     chain (fat s) (first_block e) (blocks_of s e) \<and> sorted_wrt (<) (blocks_of s e) \<and>
     length (blocks_of s e) = n_blocks (fe_size e)"

definition apart :: "fsys \<Rightarrow> file_entry \<Rightarrow> file_entry \<Rightarrow> bool" where
  "apart s e e' \<longleftrightarrow>
     entry_key e \<noteq> entry_key e' \<and> set (blocks_of s e) \<inter> set (blocks_of s e') = {}"

definition fs_wf :: "fsys \<Rightarrow> bool" where
  "fs_wf s \<longleftrightarrow>
     fs_shape s \<and>
     (\<forall>i < FS_MAX_FILES.
        if used (files s ! i) then file_ok s (files s ! i)
        else first_block (files s ! i) = FAT_END \<and> fe_size (files s ! i) = 0) \<and>
     (\<forall>i < FS_MAX_FILES. \<forall>j < FS_MAX_FILES.
        i \<noteq> j \<longrightarrow> used (files s ! i) \<longrightarrow> used (files s ! j) \<longrightarrow> apart s (files s ! i) (files s ! j))"

definition fs_abs :: "fsys \<Rightarrow> string \<times> string \<Rightarrow> cptr option" where
  "fs_abs s = map_of (map (\<lambda>e. (entry_key e, content s e)) (filter used (files s)))"

lemma distinct_filter_map:
  "(\<forall>i < length xs. \<forall>j < length xs. i \<noteq> j \<longrightarrow> P (xs ! i) \<longrightarrow> P (xs ! j) \<longrightarrow> f (xs ! i) \<noteq> f (xs ! j)) \<Longrightarrow>
   distinct (map f (filter P xs))"
proof (induction xs)
  case (Cons x xs)
  have "distinct (map f (filter P xs))"
    using Cons.prems by (intro Cons.IH) (metis Suc_less_eq length_Cons nat.inject nth_Cons_Suc)
  moreover have "f x \<noteq> f y" if y: "P x" "P y" "y \<in> set xs" for y
  proof -
    obtain j where "j < length xs" "xs ! j = y" using y(3) by (auto simp: in_set_conv_nth)
    with Cons.prems [rule_format, of 0 "Suc j"] y show ?thesis by auto
  qed
  ultimately show ?case by auto
qed simp

lemma fs_wf_shape: "fs_wf s \<Longrightarrow> fs_shape s"
  by (simp add: fs_wf_def)

lemma fs_wf_used: "fs_wf s \<Longrightarrow> i < FS_MAX_FILES \<Longrightarrow> used (files s ! i) \<Longrightarrow> file_ok s (files s ! i)"
  by (simp add: fs_wf_def)

lemma fs_wf_unused:
  "fs_wf s \<Longrightarrow> i < FS_MAX_FILES \<Longrightarrow> \<not> used (files s ! i) \<Longrightarrow>
   first_block (files s ! i) = FAT_END \<and> fe_size (files s ! i) = 0"
  by (simp add: fs_wf_def)

lemma fs_wf_apart:
  "fs_wf s \<Longrightarrow> i < FS_MAX_FILES \<Longrightarrow> j < FS_MAX_FILES \<Longrightarrow> i \<noteq> j \<Longrightarrow>
   used (files s ! i) \<Longrightarrow> used (files s ! j) \<Longrightarrow> apart s (files s ! i) (files s ! j)"
  by (simp add: fs_wf_def)

lemma fs_shape_files: "fs_shape s \<Longrightarrow> length (files s) = FS_MAX_FILES"
  by (simp add: fs_shape_def)

lemma fs_abs_iff:
  assumes "fs_wf s"
  shows "fs_abs s k = Some c \<longleftrightarrow>
    (\<exists>i < FS_MAX_FILES. used (files s ! i) \<and> entry_key (files s ! i) = k \<and> content s (files s ! i) = c)"
proof -
  have len: "length (files s) = FS_MAX_FILES" using assms fs_wf_shape fs_shape_files by blast
  have "distinct (map entry_key (filter used (files s)))"
    using fs_wf_apart [OF assms] by (intro distinct_filter_map) (auto simp: len apart_def)
  then have "fs_abs s k = Some c \<longleftrightarrow>
      (k, c) \<in> set (map (\<lambda>e. (entry_key e, content s e)) (filter used (files s)))"
    unfolding fs_abs_def by (intro map_of_eq_Some_iff) (simp add: comp_def)
  then show ?thesis by (auto simp: in_set_conv_nth len)
qed

lemma fs_abs_None:
  assumes "fs_wf s"
  shows "fs_abs s k = None \<longleftrightarrow> (\<forall>i < FS_MAX_FILES. used (files s ! i) \<longrightarrow> entry_key (files s ! i) \<noteq> k)"
  using fs_abs_iff [OF assms, of k] by (metis not_None_eq)

section \<open>Replacing one entry\<close>

text \<open>Blocks that belong to a live entry other than \<open>idx\<close>.\<close>

definition owned_by_others :: "fsys \<Rightarrow> nat \<Rightarrow> nat set" where
  "owned_by_others s idx =
     (\<Union>i \<in> {i. i < FS_MAX_FILES \<and> i \<noteq> idx \<and> used (files s ! i)}. set (blocks_of s (files s ! i)))"

definition untouched :: "nat set \<Rightarrow> fsys \<Rightarrow> fsys \<Rightarrow> bool" where
  "untouched B s s' \<longleftrightarrow> (\<forall>b \<in> B. fat s' ! b = fat s ! b \<and> blocks s' ! b = blocks s ! b)"

lemma kept_entry:
  assumes "file_ok s e" and "untouched (set (blocks_of s e)) s s'"
  shows "blocks_of s' e = blocks_of s e" and "file_ok s' e" and "content s' e = content s e"
proof -
  have ch: "chain (fat s') (first_block e) (blocks_of s e)"
    using assms chain_cong [of "blocks_of s e" "fat s'" "fat s"]
    by (auto simp: file_ok_def untouched_def)
  have "sorted_wrt (<) (blocks_of s e)" using assms by (simp add: file_ok_def)
  with ch show eq: "blocks_of s' e = blocks_of s e"
    using walk_chain [OF ch chain_length] by (simp add: blocks_of_def)
  show "file_ok s' e" using assms(1) ch by (simp add: file_ok_def eq)
  show "content s' e = content s e"
    using assms(2) unfolding content_def eq chain_bytes_def untouched_def by (simp cong: map_cong)
qed

definition entry_fits :: "fsys \<Rightarrow> fsys \<Rightarrow> nat \<Rightarrow> file_entry \<Rightarrow> bool" where
  "entry_fits s s' idx e' \<longleftrightarrow>
     (if used e'
      then file_ok s' e' \<and> set (blocks_of s' e') \<inter> owned_by_others s idx = {} \<and>
           (\<forall>i < FS_MAX_FILES. i \<noteq> idx \<longrightarrow> used (files s ! i) \<longrightarrow> entry_key (files s ! i) \<noteq> entry_key e')
      else first_block e' = FAT_END \<and> fe_size e' = 0)"

definition without :: "fsys \<Rightarrow> nat \<Rightarrow> string \<times> string \<Rightarrow> cptr option" where
  "without s idx = (if used (files s ! idx) then (fs_abs s)(entry_key (files s ! idx) := None) else fs_abs s)"

lemma option_map_eqI: "(\<And>k c. f k = Some c \<longleftrightarrow> g k = Some c) \<Longrightarrow> f = g"
  by (rule ext) (metis option.exhaust)

lemma without_iff:
  assumes "fs_wf s" and "idx < FS_MAX_FILES"
  shows "without s idx k = Some c \<longleftrightarrow>
    (\<exists>i < FS_MAX_FILES. i \<noteq> idx \<and> used (files s ! i) \<and> entry_key (files s ! i) = k \<and>
       content s (files s ! i) = c)"
proof (cases "used (files s ! idx) \<and> entry_key (files s ! idx) = k")
  case True
  then show ?thesis
    using fs_wf_apart [OF assms(1)] assms(2) by (auto simp: without_def apart_def)
next
  case False
  then have "without s idx k = fs_abs s k" by (auto simp: without_def)
  then show ?thesis using False fs_abs_iff [OF assms(1), of k c] by auto
qed

lemma replace_entry:
  assumes wf: "fs_wf s" and shape: "fs_shape s'" and idx: "idx < FS_MAX_FILES"
    and files: "files s' = (files s)[idx := e']"
    and kept: "untouched (owned_by_others s idx) s s'" and fits: "entry_fits s s' idx e'"
  shows "fs_wf s'" and "fs_abs s' = (if used e' then (without s idx)(entry_key e' \<mapsto> content s' e')
                                   else without s idx)"
proof -
  have len: "length (files s) = FS_MAX_FILES" using wf fs_wf_shape fs_shape_files by blast
  have at: "files s' ! i = (if i = idx then e' else files s ! i)" if "i < FS_MAX_FILES" for i
    using that by (simp add: files len nth_list_update_cases)
  have other: "blocks_of s' (files s ! i) = blocks_of s (files s ! i)" "file_ok s' (files s ! i)"
    "content s' (files s ! i) = content s (files s ! i)"
    "set (blocks_of s (files s ! i)) \<subseteq> owned_by_others s idx"
    if "i < FS_MAX_FILES" "i \<noteq> idx" "used (files s ! i)" for i
  proof -
    show sub: "set (blocks_of s (files s ! i)) \<subseteq> owned_by_others s idx"
      using that by (auto simp: owned_by_others_def)
    then have "untouched (set (blocks_of s (files s ! i))) s s'"
      using kept by (auto simp: untouched_def)
    from kept_entry [OF fs_wf_used [OF wf that(1,3)] this]
    show "blocks_of s' (files s ! i) = blocks_of s (files s ! i)" "file_ok s' (files s ! i)"
      "content s' (files s ! i) = content s (files s ! i)" by auto
  qed
  have new: "apart s' e' (files s ! i) \<and> apart s' (files s ! i) e'"
    if "used e'" "i < FS_MAX_FILES" "i \<noteq> idx" "used (files s ! i)" for i
    using fits that other [OF that(2-)] by (auto simp: entry_fits_def apart_def)
  show wf': "fs_wf s'"
    unfolding fs_wf_def
  proof (intro conjI allI impI)
    show "fs_shape s'" by (rule shape)
    show "if used (files s' ! i) then file_ok s' (files s' ! i)
      else first_block (files s' ! i) = FAT_END \<and> fe_size (files s' ! i) = 0" if "i < FS_MAX_FILES" for i
      using that other(2) fits fs_wf_unused [OF wf that] by (auto simp: at entry_fits_def)
    show "apart s' (files s' ! i) (files s' ! j)"
      if "i < FS_MAX_FILES" "j < FS_MAX_FILES" "i \<noteq> j" "used (files s' ! i)" "used (files s' ! j)" for i j
      using that new fs_wf_apart [OF wf that(1-3)] other(1)
      by (auto simp: at apart_def split: if_splits)
  qed
  show "fs_abs s' = (if used e' then (without s idx)(entry_key e' \<mapsto> content s' e') else without s idx)"
  proof (rule option_map_eqI)
    fix k c
    let ?O = "\<exists>i < FS_MAX_FILES. i \<noteq> idx \<and> used (files s ! i) \<and> entry_key (files s ! i) = k \<and>
      content s (files s ! i) = c"
    have ex: "(\<exists>i < FS_MAX_FILES. used (files s' ! i) \<and> entry_key (files s' ! i) = k \<and>
      content s' (files s' ! i) = c) \<longleftrightarrow> used e' \<and> entry_key e' = k \<and> content s' e' = c \<or> ?O"
      using ex_nth_update [OF idx len, of "\<lambda>e. used e \<and> entry_key e = k \<and> content s' e = c" e'] other(3)
      unfolding files by fastforce
    have "\<not> ?O" if "used e'" "entry_key e' = k" using fits that by (auto simp: entry_fits_def)
    then show "fs_abs s' k = Some c \<longleftrightarrow>
        (if used e' then (without s idx)(entry_key e' \<mapsto> content s' e') else without s idx) k = Some c"
      unfolding fs_abs_iff [OF wf'] ex without_iff [OF wf idx, symmetric] by auto
  qed
qed

section \<open>The storage steps\<close>

lemma take_free_blocks:
  "set (take k (free_blocks f)) \<subseteq> {..<FS_N_BLOCKS}" "sorted_wrt (<) (take k (free_blocks f))"
  using set_free_blocks [of f] set_take_subset [of k "free_blocks f"] sorted_wrt_take [OF free_blocks_sorted]
  by auto

text \<open>\<open>write_to_blocks\<close> never faults; it only touches blocks that were free, and when there are
  enough of them it returns the head of a chain that holds the data.\<close>

definition wrote :: "cptr \<Rightarrow> nat \<Rightarrow> fsys \<Rightarrow> 16 word \<Rightarrow> fsys \<Rightarrow> bool" where
  "wrote data n s first s1 \<longleftrightarrow>
     fs_shape s1 \<and> files s1 = files s \<and> tmp_write s1 = tmp_write s \<and> tmp_edit s1 = tmp_edit s \<and>
     tmp_copy s1 = tmp_copy s \<and>
     (\<forall>b. b \<notin> set (free_blocks (fat s)) \<longrightarrow> fat s1 ! b = fat s ! b \<and> blocks s1 ! b = blocks s ! b) \<and>
     (if n_blocks n \<le> length (free_blocks (fat s))
      then (\<exists>bs. bs = take (n_blocks n) (free_blocks (fat s)) \<and> chain (fat s1) first bs \<and>
              sorted_wrt (<) bs \<and> length bs = n_blocks n \<and> chain_bytes (blocks s1) bs n = take n data)
      else first = of_nat FS_N_BLOCKS)"

lemma write_to_blocks_ok:
  assumes shape: "fs_shape s" and n: "n \<le> length data"
  shows "\<exists>first s1. write_to_blocks data n s = Some (first, s1) \<and> wrote data n s first s1"
proof -
  define bs where "bs = take (n_blocks n) (free_blocks (fat s))"
  define s1 where
    "s1 = s\<lparr>fat := link bs FAT_END (fat s), blocks := store_data bs (take n data) (blocks s)\<rparr>"
  define first where "first = (if n_blocks n \<le> length (free_blocks (fat s))
      then (if bs \<noteq> [] then of_nat (hd bs) else FAT_END) else of_nat FS_N_BLOCKS)"
  have sh: "length (fat s) = FS_N_BLOCKS" "length (blocks s) = FS_N_BLOCKS"
    "list_all (\<lambda>r. length r = FS_BLOCK_SIZE) (blocks s)"
    using shape by (auto simp: fs_shape_def)
  have bs: "set bs \<subseteq> {..<FS_N_BLOCKS}" "sorted_wrt (<) bs" "set bs \<subseteq> set (free_blocks (fat s))"
    unfolding bs_def by (rule take_free_blocks set_take_subset)+
  have eq: "write_to_blocks data n s = Some (first, s1)"
    using write_loop_eq [OF shape, of FAT_END 0 n data FAT_END] n
    by (auto simp: write_to_blocks_def tail_ok_def Let_def bs_def first_def s1_def)
  have shape1: "fs_shape s1"
    using shape store_rows [OF sh(3), of bs] bs(1) sh(2) by (auto simp: fs_shape_def s1_def)
  have ch: "chain (fat s1) (if bs = [] then FAT_END else of_nat (hd bs)) bs"
    using link_chain [OF bs(2,1) sh(1), of FAT_END] by (simp add: s1_def)
  have frame: "fat s1 ! b = fat s ! b \<and> blocks s1 ! b = blocks s ! b"
    if "b \<notin> set (free_blocks (fat s))" for b
    using that bs by (auto simp: s1_def nth_link_other nth_store_other subset_eq)
  have held: "chain (fat s1) first bs \<and> length bs = n_blocks n \<and> chain_bytes (blocks s1) bs n = take n data"
    if enough: "n_blocks n \<le> length (free_blocks (fat s))"
  proof -
    have len: "length bs = n_blocks n" using enough by (simp add: bs_def)
    then have "n \<le> length bs * FS_BLOCK_SIZE" using n_blocks_le_iff [of n "n_blocks n"] by simp
    then have "chain_bytes (blocks s1) bs n = take n data"
      using store_content [of bs "blocks s" "take n data"] bs sh n
      by (simp add: chain_bytes_def s1_def strict_sorted_iff)
    with ch len enough show ?thesis by (auto simp: first_def)
  qed
  have "wrote data n s first s1"
    unfolding wrote_def using shape1 frame held bs(2)
    by (auto simp: s1_def bs_def [symmetric] first_def)
  with eq show ?thesis by blast
qed

text \<open>Allocated blocks are not free, so a write leaves every file as it was.\<close>

lemma owned_not_free:
  assumes "fs_wf s" and "b \<in> owned_by_others s idx"
  shows "b \<notin> set (free_blocks (fat s))"
proof -
  obtain i where "i < FS_MAX_FILES" "used (files s ! i)" "b \<in> set (blocks_of s (files s ! i))"
    using assms(2) by (auto simp: owned_by_others_def)
  then have "fat s ! b \<noteq> FAT_FREE"
    using fs_wf_used [OF assms(1)] chain_bound by (fastforce simp: file_ok_def)
  then show ?thesis by (simp add: set_free_blocks)
qed

lemma write_untouched:
  "fs_wf s \<Longrightarrow> wrote data n s first s1 \<Longrightarrow> untouched (owned_by_others s idx) s s1"
  using owned_not_free by (auto simp: untouched_def wrote_def)

text \<open>Freeing the chain of one live entry leaves the blocks of all others alone.\<close>

definition freed :: "fsys \<Rightarrow> nat \<Rightarrow> 16 word list \<Rightarrow> bool" where
  "freed s idx f \<longleftrightarrow>
     length f = FS_N_BLOCKS \<and> (\<forall>b \<in> owned_by_others s idx. f ! b = fat s ! b) \<and>
     (\<forall>b < FS_N_BLOCKS.
        f ! b = (if b \<in> set (blocks_of s (files s ! idx)) \<and> 0 \<notin> set (blocks_of s (files s ! idx))
                 then FAT_FREE else fat s ! b))"

lemma free_entry_chain:
  assumes wf: "fs_wf s" and idx: "idx < FS_MAX_FILES" and u: "used (files s ! idx)"
  shows "\<exists>f. free_chain (first_block (files s ! idx)) (fat s) = Some f \<and> freed s idx f"
proof -
  define bs where "bs = blocks_of s (files s ! idx)"
  have ok: "chain (fat s) (first_block (files s ! idx)) bs" "sorted_wrt (<) bs"
    using fs_wf_used [OF wf idx u] by (simp_all add: bs_def file_ok_def)
  have len: "length (fat s) = FS_N_BLOCKS" using fs_wf_shape [OF wf] by (simp add: fs_shape_def)
  have out: "b \<notin> set bs \<and> b < FS_N_BLOCKS" if b: "b \<in> owned_by_others s idx" for b
  proof -
    obtain i where i: "i < FS_MAX_FILES" "i \<noteq> idx" "used (files s ! i)" "b \<in> set (blocks_of s (files s ! i))"
      using b by (auto simp: owned_by_others_def)
    then show ?thesis
      using fs_wf_apart [OF wf i(1) idx i(2,3) u] fs_wf_used [OF wf i(1,3)] chain_bound
      by (auto simp: apart_def bs_def file_ok_def)
  qed
  show ?thesis
    unfolding free_chain_eq [OF ok len] freed_def bs_def [symmetric] using out len
    by (auto simp: nth_release)
qed

lemma freed_free_blocks:
  assumes "fs_wf s" and "idx < FS_MAX_FILES" and "used (files s ! idx)" and "freed s idx f"
  shows "set (free_blocks f) = set (free_blocks (fat s)) \<union>
    (if first_block (files s ! idx) = 0 then {} else set (blocks_of s (files s ! idx)))"
proof -
  define bs where "bs = blocks_of s (files s ! idx)"
  have ok: "chain (fat s) (first_block (files s ! idx)) bs" "sorted_wrt (<) bs"
    using fs_wf_used [OF assms(1-3)] by (simp_all add: bs_def file_ok_def)
  have head: "0 \<in> set bs \<longleftrightarrow> first_block (files s ! idx) = 0"
  proof (cases bs)
    case Nil
    then show ?thesis using ok by (simp add: FAT_END_def)
  next
    case (Cons b cs)
    with ok blk_eq_FREE [of b] show ?thesis by (auto simp: FAT_FREE_def)
  qed
  show ?thesis
    using head chain_bound [OF ok(1)] assms(4) unfolding freed_def bs_def [symmetric]
    by (auto simp: set_free_blocks)
qed

section \<open>A fresh disk and a small one\<close>

definition blank_entry :: file_entry where
  "blank_entry = \<lparr>fe_name = replicate FS_NAME_LEN NUL, fe_dir = replicate FS_DIR_LEN NUL,
     first_block = FAT_END, fe_size = 0, used = False\<rparr>"

definition fs0 :: fsys where
  "fs0 = \<lparr>fat = replicate FS_N_BLOCKS FAT_FREE, blocks = replicate FS_N_BLOCKS (replicate FS_BLOCK_SIZE NUL),
     files = replicate FS_MAX_FILES blank_entry, tmp_write = replicate FS_BYTES NUL,
     tmp_edit = replicate FS_BYTES NUL, tmp_copy = replicate FS_BYTES NUL\<rparr>"

lemma fs0_shape [simp]: "fs_shape fs0"
  by (simp add: fs_shape_def fs0_def blank_entry_def list_all_length)

lemma fs0_files: "i < FS_MAX_FILES \<Longrightarrow> files fs0 ! i = blank_entry"
  by (simp add: fs0_def)

lemma fs0_wf [simp]: "fs_wf fs0"
  by (simp add: fs_wf_def fs0_files) (simp add: blank_entry_def)

lemma fs0_free: "free_blocks (fat fs0) = [0..<FS_N_BLOCKS]"
  by (auto simp: free_blocks_def fs0_def intro!: filter_True)

definition demo_entry :: file_entry where
  "demo_entry = \<lparr>fe_name = CHR ''a'' # replicate 63 NUL, fe_dir = CHR ''/'' # replicate 63 NUL,
     first_block = 0, fe_size = 1, used = True\<rparr>"

text \<open>One file of one byte, in block 0.\<close>

definition demo_fs :: fsys where
  "demo_fs = fs0\<lparr>fat := FAT_END # replicate 7 FAT_FREE, files := demo_entry # replicate 31 blank_entry\<rparr>"

lemma demo_blocks [simp]: "blocks_of demo_fs demo_entry = [0]"
  using walk_chain [of "fat demo_fs" 0 "[0]" FS_N_BLOCKS]
  by (simp add: blocks_of_def demo_fs_def demo_entry_def FS_N_BLOCKS_def)

lemma demo_files: "i < FS_MAX_FILES \<Longrightarrow> files demo_fs ! i = (if i = 0 then demo_entry else blank_entry)"
  by (simp add: demo_fs_def FS_MAX_FILES_def nth_Cons')

lemma demo_used [simp]: "used demo_entry" "\<not> used blank_entry"
  by (simp_all add: demo_entry_def blank_entry_def)

lemma demo_ok: "file_ok demo_fs demo_entry"
  unfolding file_ok_def demo_blocks
  by (simp add: demo_entry_def demo_fs_def n_blocks_def FS_N_BLOCKS_def FS_BLOCK_SIZE_def)

lemma demo_shape: "fs_shape demo_fs"
  using fs0_shape
  by (simp add: fs_shape_def demo_fs_def FS_N_BLOCKS_def FS_MAX_FILES_def blank_entry_def demo_entry_def
      FS_NAME_LEN_def FS_DIR_LEN_def list_all_length nth_Cons')

lemma demo_wf [simp]: "fs_wf demo_fs"
  unfolding fs_wf_def using demo_ok demo_shape
  by (auto simp: demo_files) (simp_all add: blank_entry_def)

section \<open>Properties of the storage layer\<close>

text \<open>C16: what \<open>write_to_blocks\<close> stores, the reading loop of \<open>fs_edit\<close> and \<open>fs_copy\<close> reads
  back: if the disk has enough free blocks for the data, the write succeeds, reading its chain
  returns exactly the bytes written, and no block that was allocated before has changed.\<close>

theorem write_then_load_roundtrip:
  assumes "fs_shape s" and "n \<le> length data" and "n \<le> length buf"
    and "n_blocks n \<le> length (free_blocks (fat s))"
  shows "\<exists>first s'. write_to_blocks data n s = Some (first, s') \<and>
     load_loop first n 0 buf s' = Some (take n data @ drop n buf) \<and>
     (\<forall>b. fat s ! b \<noteq> FAT_FREE \<longrightarrow> fat s' ! b = fat s ! b \<and> blocks s' ! b = blocks s ! b)"
proof -
  obtain first s1 where w: "write_to_blocks data n s = Some (first, s1)" "wrote data n s first s1"
    using write_to_blocks_ok [OF assms(1,2)] by blast
  then obtain bs where bs: "chain (fat s1) first bs" "length bs = n_blocks n"
    "chain_bytes (blocks s1) bs n = take n data" and shape: "fs_shape s1"
    using assms(4) by (auto simp: wrote_def)
  have "n \<le> length bs * FS_BLOCK_SIZE" using bs(2) n_blocks_le_iff [of n "n_blocks n"] by simp
  then have "load_loop first n 0 buf s1 = Some (take n data @ drop n buf)"
    using load_loop_eq [OF bs(1) shape, of n 0 buf] assms(3) bs(3) by simp
  with w show ?thesis by (auto simp: wrote_def set_free_blocks)
qed

theorem write_then_load_roundtrip_witness:
  "\<exists>first s'. write_to_blocks ''hi'' 2 fs0 = Some (first, s') \<and>
     load_loop first 2 0 ''....'' s' = Some ''hi..''"
proof -
  have "n_blocks 2 \<le> length (free_blocks (fat fs0))"
    by (simp add: fs0_free n_blocks_def FS_BLOCK_SIZE_def FS_N_BLOCKS_def)
  then show ?thesis
    using write_then_load_roundtrip [of fs0 2 "''hi''" "''....''"] by auto
qed

text \<open>Deleting a file's chain gives back exactly its blocks, unless the chain starts at
  block 0: then \<open>free_chain\<close> takes the block number for \<open>FAT_FREE\<close> and gives nothing back, so the
  whole chain is lost until the next boot.\<close>

theorem free_chain_releases:
  assumes "fs_wf s" and "idx < FS_MAX_FILES" and "used (files s ! idx)"
  shows "\<exists>f. free_chain (first_block (files s ! idx)) (fat s) = Some f \<and>
     set (free_blocks f) = set (free_blocks (fat s)) \<union>
       (if first_block (files s ! idx) = 0 then {} else set (blocks_of s (files s ! idx)))"
  using free_entry_chain [OF assms] freed_free_blocks [OF assms] by blast

theorem free_chain_releases_witness:
  "\<exists>f. free_chain 0 (fat demo_fs) = Some f \<and> 0 \<notin> set (free_blocks f)"
proof -
  have "files demo_fs ! 0 = demo_entry" "first_block demo_entry = 0"
    by (simp_all add: demo_files FS_MAX_FILES_def) (simp add: demo_entry_def)
  moreover have "0 \<notin> set (free_blocks (fat demo_fs))" by (simp add: set_free_blocks demo_fs_def)
  ultimately show ?thesis
    using free_chain_releases [of demo_fs 0] by (auto simp: FS_MAX_FILES_def)
qed

end
