(* ===== verification/Dirtab.thy ===== *)
theory Dirtab
  imports Kstring
begin

text \<open>
  The directory table of \<open>src/src/dir.c\<close> and its path helpers. \<open>build_path\<close> and \<open>parent_path\<close>
  write into a caller's buffer of 64 bytes; both are given that buffer and return it. \<open>None\<close> is an
  access outside an object, which happens for paths that do not fit.
\<close>

section \<open>State\<close>

definition DIR_MAX :: nat where "DIR_MAX = 32"
definition DIR_NAME_LEN :: nat where "DIR_NAME_LEN = 64"

record dirtab =
  dirs :: "cptr list"
  dir_count :: nat
  cwd_idx :: nat

section \<open>Helpers of the source\<close>

text \<open>An assignment \<open>p[i] = c\<close> and a read \<open>p[i]\<close>.\<close>

definition poke :: "nat \<Rightarrow> char \<Rightarrow> cptr \<Rightarrow> cptr option" where
  "poke i c p = (if i < length p then Some (p[i := c]) else None)"

definition peek :: "cptr \<Rightarrow> nat \<Rightarrow> char option" where
  "peek p i = (if i < length p then Some (p ! i) else None)"

text \<open>The loop of \<open>find_dir\<close> over the entries still to be compared.\<close>

fun find_dir_from :: "cptr \<Rightarrow> cptr list \<Rightarrow> nat \<Rightarrow> nat option" where
  "find_dir_from path [] i = Some DIR_MAX"
| "find_dir_from path (d # ds) i = do {
     r \<leftarrow> kstrcmp d path;
     if r = 0 then Some i else find_dir_from path ds (Suc i)
   }"

definition find_dir :: "cptr \<Rightarrow> dirtab \<Rightarrow> nat option" where
  "find_dir path t = find_dir_from path (take (dir_count t) (dirs t)) 0"

definition dir_getcwd :: "dirtab \<Rightarrow> cptr" where
  "dir_getcwd t = dirs t ! cwd_idx t"

text \<open>The block of \<open>build_path\<close> for a directory other than the root.\<close>

definition add_separator :: "cptr \<Rightarrow> cptr option" where
  "add_separator out = do {
     clen \<leftarrow> kstrlen out;
     if clen < DIR_NAME_LEN - 2
     then do { out \<leftarrow> poke clen CHR ''/'' out; poke (clen + 1) NUL out }
     else Some out
   }"

definition build_path :: "cptr \<Rightarrow> cptr \<Rightarrow> dirtab \<Rightarrow> cptr option" where
  "build_path out name t = do {
     c \<leftarrow> peek name 0;
     if c = CHR ''/'' then do {
       out \<leftarrow> kstrncpy out name DIR_NAME_LEN;
       len \<leftarrow> kstrlen out;
       if len > 1 \<and> out ! (len - 1) = CHR ''/'' then poke (len - 1) NUL out else Some out
     } else do {
       let cwd = dir_getcwd t;
       out \<leftarrow> kstrncpy out cwd DIR_NAME_LEN;
       r \<leftarrow> kstrcmp cwd (lit ''/'');
       out \<leftarrow> (if r \<noteq> 0 then add_separator out else Some out);
       off \<leftarrow> kstrlen out;
       map_option (\<lambda>p. take off out @ p) (kstrncpy (drop off out) name (DIR_NAME_LEN - off))
     }
   }"

text \<open>The loop of \<open>parent_path\<close>: the largest \<open>k \<le> len\<close> that is 0 or has \<open>out[k-1] = '/'\<close>.\<close>

fun back_to_slash :: "cptr \<Rightarrow> nat \<Rightarrow> nat" where
  "back_to_slash out 0 = 0"
| "back_to_slash out (Suc k) = (if out ! k \<noteq> CHR ''/'' then back_to_slash out k else Suc k)"

definition set_root :: "cptr \<Rightarrow> cptr option" where
  "set_root out = do { out \<leftarrow> poke 0 CHR ''/'' out; poke 1 NUL out }"

definition parent_path :: "cptr \<Rightarrow> cptr \<Rightarrow> cptr option" where
  "parent_path out path = do {
     r \<leftarrow> kstrcmp path (lit ''/'');
     if r = 0 then set_root out
     else do {
       out \<leftarrow> kstrncpy out path DIR_NAME_LEN;
       n \<leftarrow> kstrlen out;
       let len = back_to_slash out n;
       if len \<le> 1 then set_root out else poke (len - 1) NUL out
     }
   }"

text \<open>The scan \<open>while (*rest) { if (*rest == '/') return 0; rest++; }\<close>: no slash up to the NUL.\<close>

fun no_slash :: "cptr \<Rightarrow> bool option" where
  "no_slash [] = None"
| "no_slash (c # s) = (if c = NUL then Some True else if c = CHR ''/'' then Some False else no_slash s)"

definition is_immediate_child :: "cptr \<Rightarrow> cptr \<Rightarrow> bool option" where
  "is_immediate_child child parent = do {
     r \<leftarrow> kstrcmp parent (lit ''/'');
     if r = 0 then do {
       c \<leftarrow> peek child 0;
       if c \<noteq> CHR ''/'' then Some False
       else do {
         d \<leftarrow> peek child 1;
         if d = NUL then Some False else no_slash (drop 1 child)
       }
     } else do {
       plen \<leftarrow> kstrlen parent;
       e \<leftarrow> kstrncmp child parent plen;
       if e \<noteq> 0 then Some False
       else do {
         c \<leftarrow> peek child plen;
         if c \<noteq> CHR ''/'' then Some False
         else do {
           b \<leftarrow> no_slash (drop (plen + 1) child);
           d \<leftarrow> peek child (plen + 1);
           Some (b \<and> d \<noteq> NUL)
         }
       }
     }
   }"

definition dir_init :: "dirtab \<Rightarrow> dirtab option" where
  "dir_init t = do {
     d \<leftarrow> poke 0 CHR ''/'' (dirs t ! 0);
     d \<leftarrow> poke 1 NUL d;
     Some (t\<lparr>dirs := (dirs t)[0 := d], dir_count := 1, cwd_idx := 0\<rparr>)
   }"

text \<open>The compaction loop of \<open>dir_rmdir\<close>, for the indices still to be visited.\<close>

fun compact :: "nat list \<Rightarrow> cptr list \<Rightarrow> cptr list option" where
  "compact [] ds = Some ds"
| "compact (i # is) ds = do {
     d \<leftarrow> kstrncpy (ds ! i) (ds ! (i + 1)) DIR_NAME_LEN;
     compact is (ds[i := d])
   }"

text \<open>The table update of \<open>dir_rmdir\<close>.\<close>

definition remove_dir :: "nat \<Rightarrow> dirtab \<Rightarrow> dirtab option" where
  "remove_dir idx t = do {
     ds \<leftarrow> compact [idx..<dir_count t - 1] (dirs t);
     d \<leftarrow> poke 0 NUL (ds ! (dir_count t - 1));
     Some (t\<lparr>dirs := ds[dir_count t - 1 := d], dir_count := dir_count t - 1,
             cwd_idx := (if cwd_idx t > idx then cwd_idx t - 1 else cwd_idx t)\<rparr>)
   }"

text \<open>The table update of \<open>dir_mkdir\<close>.\<close>

definition add_dir :: "cptr \<Rightarrow> dirtab \<Rightarrow> dirtab option" where
  "add_dir newpath t = do {
     d \<leftarrow> kstrncpy (dirs t ! dir_count t) newpath DIR_NAME_LEN;
     Some (t\<lparr>dirs := (dirs t)[dir_count t := d], dir_count := dir_count t + 1\<rparr>)
   }"

section \<open>The table as a list of paths\<close>

definition dir_row :: "cptr \<Rightarrow> bool" where
  "dir_row d \<longleftrightarrow> length d = DIR_NAME_LEN"

definition paths :: "dirtab \<Rightarrow> string list" where
  "paths t = map cstr (take (dir_count t) (dirs t))"

definition cwd :: "dirtab \<Rightarrow> string" where
  "cwd t = cstr (dir_getcwd t)"

definition absolute :: "string \<Rightarrow> bool" where
  "absolute p \<longleftrightarrow> p \<noteq> [] \<and> hd p = CHR ''/''"

definition dir_wf :: "dirtab \<Rightarrow> bool" where
  "dir_wf t \<longleftrightarrow>
     length (dirs t) = DIR_MAX \<and> list_all dir_row (dirs t) \<and>
     0 < dir_count t \<and> dir_count t \<le> DIR_MAX \<and> cwd_idx t < dir_count t \<and>
     list_all terminated (take (dir_count t) (dirs t)) \<and>
     paths t ! 0 = ''/'' \<and> distinct (paths t) \<and> list_all absolute (paths t)"

lemma length_paths: "dir_wf t \<Longrightarrow> length (paths t) = dir_count t"
  by (simp add: paths_def dir_wf_def)

lemma nth_paths: "dir_wf t \<Longrightarrow> i < dir_count t \<Longrightarrow> paths t ! i = cstr (dirs t ! i)"
  by (simp add: paths_def dir_wf_def)

lemma dir_rowD:
  "dir_wf t \<Longrightarrow> i < dir_count t \<Longrightarrow> terminated (dirs t ! i) \<and> length (dirs t ! i) = DIR_NAME_LEN"
  by (simp add: dir_wf_def list_all_length dir_row_def)

lemma cwd_eq: "dir_wf t \<Longrightarrow> cwd t = paths t ! cwd_idx t \<and> terminated (dir_getcwd t)"
  using nth_paths dir_rowD by (auto simp: cwd_def dir_getcwd_def dir_wf_def)

lemma cwd_in_paths: "dir_wf t \<Longrightarrow> cwd t \<in> set (paths t)"
  using cwd_eq [of t] length_paths [of t] by (auto simp: dir_wf_def)

lemma cwd_absolute: "dir_wf t \<Longrightarrow> absolute (cwd t)"
  using cwd_in_paths [of t] by (auto simp: dir_wf_def list_all_iff)

lemma find_dir_from_eq:
  "list_all terminated ds \<Longrightarrow> terminated p \<Longrightarrow>
   find_dir_from p ds i =
     Some (if cstr p \<in> set (map cstr ds)
           then i + length (takeWhile (\<lambda>q. q \<noteq> cstr p) (map cstr ds)) else DIR_MAX)"
proof (induction ds arbitrary: i)
  case (Cons d ds)
  obtain r where r: "kstrcmp d p = Some r" using kstrcmp_defined [of d p] Cons.prems by auto
  with Cons kstrcmp_zero_iff [OF r] show ?case by auto
qed simp

lemma find_dir_cases:
  assumes "dir_wf t" and "terminated p"
  obtains (found) i where "i < dir_count t" "i < DIR_MAX" "find_dir p t = Some i" "paths t ! i = cstr p"
  | (absent) "find_dir p t = Some DIR_MAX" "cstr p \<notin> set (paths t)"
proof (cases "cstr p \<in> set (paths t)")
  case True
  define i where "i = length (takeWhile (\<lambda>q. q \<noteq> cstr p) (paths t))"
  have "i < length (paths t)" and "paths t ! i = cstr p"
    using takeWhile_first [of "paths t" "\<lambda>q. q = cstr p"] True by (auto simp: i_def in_set_conv_nth)
  moreover have "find_dir p t = Some i"
    using find_dir_from_eq [of "take (dir_count t) (dirs t)" p 0] assms True
    by (simp add: find_dir_def paths_def i_def dir_wf_def)
  ultimately show thesis using found length_paths [OF assms(1)] assms(1) by (simp add: dir_wf_def)
next
  case False
  then show thesis
    using find_dir_from_eq [of "take (dir_count t) (dirs t)" p 0] assms absent
    by (simp add: find_dir_def paths_def dir_wf_def)
qed

section \<open>Paths\<close>

definition strip_slash :: "string \<Rightarrow> string" where
  "strip_slash p = (if length p > 1 \<and> last p = CHR ''/'' then butlast p else p)"

definition path_join :: "string \<Rightarrow> string \<Rightarrow> string" where
  "path_join c n =
     (if hd n = CHR ''/'' then strip_slash n else if c = ''/'' then CHR ''/'' # n else c @ CHR ''/'' # n)"

definition path_fits :: "string \<Rightarrow> cptr \<Rightarrow> bool" where
  "path_fits c name \<longleftrightarrow>
     terminated name \<and> cstr name \<noteq> [] \<and> length (cstr name) < DIR_NAME_LEN \<and>
     length (path_join c (cstr name)) < DIR_NAME_LEN"

text \<open>A copy into a buffer that is long enough is the string, zero padded.\<close>

lemma kstrncpy_fits:
  assumes "terminated s" and "length d = n" and "length (cstr s) < n"
  shows "kstrncpy d s n = Some (cstr s @ replicate (n - length (cstr s)) NUL)"
  using kstrncpy_eq [of n d s] assms by (simp add: min_def)

lemma padded:
  assumes "NUL \<notin> set s" and "length s < n"
  shows "cstr (s @ replicate (n - length s) NUL) = s" "terminated (s @ replicate (n - length s) NUL)"
    "length (s @ replicate (n - length s) NUL) = n"
  using assms by (simp_all add: cstr_append_unterminated)

lemma hd_cstr: "cstr p \<noteq> [] \<Longrightarrow> p ! 0 = hd (cstr p) \<and> p \<noteq> []"
  by (cases p) (auto split: if_splits)

definition path_ok :: "string \<Rightarrow> cptr \<Rightarrow> bool" where
  "path_ok s p \<longleftrightarrow> cstr p = s \<and> terminated p \<and> length p = DIR_NAME_LEN"

lemma build_path_absolute:
  assumes "length out = DIR_NAME_LEN" and "terminated name" and "cstr name \<noteq> []"
    and "hd (cstr name) = CHR ''/''" and "length (cstr name) < DIR_NAME_LEN"
  shows "\<exists>p. build_path out name t = Some p \<and> path_ok (strip_slash (cstr name)) p"
proof -
  define s where "s = cstr name"
  define q where "q = s @ replicate (DIR_NAME_LEN - length s) NUL"
  have nn: "NUL \<notin> set s" "s \<noteq> []" by (simp_all add: s_def assms(3))
  have q: "kstrncpy out name DIR_NAME_LEN = Some q" "cstr q = s" "terminated q" "length q = DIR_NAME_LEN"
    using kstrncpy_fits [OF assms(2,1,5)] padded [OF nn(1)] assms(5) by (simp_all add: q_def s_def)
  have c: "peek name 0 = Some CHR ''/''"
    using hd_cstr [OF assms(3)] assms(4) by (simp add: peek_def)
  have last: "q ! (length s - 1) = last s"
    using nn(2) by (simp add: q_def nth_append last_conv_nth)
  show ?thesis
  proof (cases "length s > 1 \<and> last s = CHR ''/''")
    case True
    obtain u where u: "s = u @ [CHR ''/'']" using True nn(2) by (metis append_butlast_last_id)
    have "q[length s - 1 := NUL] = u @ replicate (DIR_NAME_LEN - length u) NUL"
      using assms(5) by (simp add: q_def u list_update_append s_def [symmetric] flip: replicate_Suc)
    moreover have "strip_slash s = u" using True by (simp add: strip_slash_def u)
    ultimately show ?thesis
      using q c last True padded [of u DIR_NAME_LEN] nn(1) assms(5)
      by (simp add: build_path_def kstrlen_eq poke_def path_ok_def s_def [symmetric] u)
  next
    case False
    then show ?thesis
      using q c last by (auto simp: build_path_def kstrlen_eq path_ok_def strip_slash_def s_def [symmetric])
  qed
qed

lemma build_path_relative:
  assumes "length out = DIR_NAME_LEN" and "dir_wf t" and "terminated name" and "cstr name \<noteq> []"
    and "hd (cstr name) \<noteq> CHR ''/''" and "length (path_join (cwd t) (cstr name)) < DIR_NAME_LEN"
  shows "\<exists>p. build_path out name t = Some p \<and> path_ok (path_join (cwd t) (cstr name)) p"
proof -
  define c where "c = cwd t"
  define b where "b = (if c = ''/'' then c else c @ ''/'')"
  have ct: "terminated (dir_getcwd t)" "cstr (dir_getcwd t) = c"
    using cwd_eq [OF assms(2)] by (simp_all add: c_def cwd_def)
  have nc: "NUL \<notin> set c" "c \<noteq> []"
    using NUL_notin_cstr [of "dir_getcwd t"] cwd_absolute [OF assms(2)] by (auto simp: c_def cwd_def absolute_def)
  have join: "path_join c (cstr name) = b @ cstr name" using assms(5) by (simp add: path_join_def b_def)
  have lens: "length b + length (cstr name) < DIR_NAME_LEN" "0 < length (cstr name)" "NUL \<notin> set b"
    using assms(4,6) nc join by (auto simp: c_def [symmetric] b_def)
  have cl: "length c < DIR_NAME_LEN" using lens by (auto simp: b_def split: if_splits)
  define q where "q = c @ replicate (DIR_NAME_LEN - length c) NUL"
  have q: "kstrncpy out (dir_getcwd t) DIR_NAME_LEN = Some q" "cstr q = c" "terminated q" "length q = DIR_NAME_LEN"
    using kstrncpy_fits [OF ct(1) assms(1)] ct(2) cl padded [OF nc(1) cl] by (simp_all add: q_def)
  define r where "r = b @ replicate (DIR_NAME_LEN - length b) NUL"
  have r: "cstr r = b" "terminated r" "length r = DIR_NAME_LEN"
    using padded [OF lens(3), of DIR_NAME_LEN] lens(1) by (simp_all add: r_def)
  obtain y where y: "kstrcmp (dir_getcwd t) (lit ''/'') = Some y"
    using kstrcmp_defined [OF ct(1) terminated_lit] by blast
  have y0: "y = 0 \<longleftrightarrow> c = ''/''" using kstrcmp_zero_iff [OF y] ct(2) by simp
  have sep: "(if y \<noteq> 0 then add_separator q else Some q) = Some r"
  proof (cases "c = ''/''")
    case True
    then show ?thesis by (simp add: q_def r_def b_def y0)
  next
    case False
    then have short: "length c < DIR_NAME_LEN - 2" using lens(1,2)
      by (simp add: b_def less_diff_conv del: length_greater_0_conv)
    define n where "n = DIR_NAME_LEN - length c - 2"
    have m: "DIR_NAME_LEN = length c + Suc (Suc n)" using short unfolding n_def by arith
    have "q[length c := CHR ''/'', Suc (length c) := NUL] = r"
      using False by (simp add: q_def r_def b_def m list_update_append)
    with False short q y0 show ?thesis by (simp add: kstrlen_eq poke_def add_separator_def)
  qed
  have tail: "kstrncpy (drop (length b) r) name (DIR_NAME_LEN - length b) =
      Some (cstr name @ replicate (DIR_NAME_LEN - length b - length (cstr name)) NUL)"
    using kstrncpy_fits [OF assms(3), of "drop (length b) r"] r(3) lens(1) by simp
  have pk: "peek name 0 = Some (hd (cstr name))" using hd_cstr [OF assms(4)] by (simp add: peek_def)
  have tk: "take (length b) r = b" by (simp add: r_def)
  have kl: "kstrlen r = Some (length b)" using r by (simp add: kstrlen_eq)
  have "build_path out name t =
      Some (b @ cstr name @ replicate (DIR_NAME_LEN - length b - length (cstr name)) NUL)"
    unfolding build_path_def Let_def pk Option.bind.bind_lunit if_not_P [OF assms(5)] q(1) y sep kl tail
    by (simp add: tk)
  then show ?thesis
    using padded [of "b @ cstr name" DIR_NAME_LEN] lens join by (simp add: path_ok_def c_def)
qed

lemma build_path_eq:
  assumes "length out = DIR_NAME_LEN" and "dir_wf t" and "path_fits (cwd t) name"
  shows "\<exists>p. build_path out name t = Some p \<and> path_ok (path_join (cwd t) (cstr name)) p"
  using build_path_absolute [OF assms(1), of name t] build_path_relative [OF assms(1,2), of name] assms(3)
  by (cases "hd (cstr name) = CHR ''/''") (auto simp: path_fits_def path_join_def)

text \<open>The parent of a path: up to its last slash, or the root.\<close>

definition parent :: "string \<Rightarrow> string" where
  "parent p =
     (let u = rev (dropWhile (\<lambda>c. c \<noteq> CHR ''/'') (rev p))
      in if length u \<le> 1 then ''/'' else butlast u)"

lemma back_to_slash_eq:
  "n \<le> length out \<Longrightarrow>
   back_to_slash out n = length (dropWhile (\<lambda>c. c \<noteq> CHR ''/'') (rev (take n out)))"
  by (induction n) (auto simp: take_Suc_conv_app_nth)

lemma dropWhile_rev_prefix: "\<exists>v. s = rev (dropWhile P (rev s)) @ v"
  by (metis rev_append rev_rev_ident takeWhile_dropWhile_id)

lemma set_root_eq: "length out = DIR_NAME_LEN \<Longrightarrow> \<exists>p. set_root out = Some p \<and> path_ok ''/'' p"
  by (cases out; cases "tl out")
    (auto simp: set_root_def poke_def path_ok_def DIR_NAME_LEN_def)

lemma parent_path_eq:
  assumes "length out = DIR_NAME_LEN" and "terminated path" and "length (cstr path) < DIR_NAME_LEN"
    and "absolute (cstr path)"
  shows "\<exists>p. parent_path out path = Some p \<and> path_ok (parent (cstr path)) p"
proof -
  define s where "s = cstr path"
  define u where "u = rev (dropWhile (\<lambda>c. c \<noteq> CHR ''/'') (rev s))"
  define q where "q = s @ replicate (DIR_NAME_LEN - length s) NUL"
  have nn: "NUL \<notin> set s" by (simp add: s_def)
  have q: "kstrncpy out path DIR_NAME_LEN = Some q" "cstr q = s" "terminated q" "length q = DIR_NAME_LEN"
    using kstrncpy_fits [OF assms(2,1,3)] padded [OF nn] assms(3) by (simp_all add: q_def s_def)
  obtain r where r: "kstrcmp path (lit ''/'') = Some r" using kstrcmp_defined [OF assms(2) terminated_lit] by blast
  have r0: "r = 0 \<longleftrightarrow> s = ''/''" using kstrcmp_zero_iff [OF r] by (simp add: s_def)
  have len: "back_to_slash q (length s) = length u"
    using back_to_slash_eq [of "length s" q] q(4) assms(3) by (simp add: q_def u_def s_def)
  show ?thesis
  proof (cases "s = ''/'' \<or> length u \<le> 1")
    case True
    then have "parent s = ''/''" by (auto simp: parent_def u_def Let_def)
    moreover have "parent_path out path = set_root out \<or> parent_path out path = set_root q"
      using True r r0 q len by (auto simp: parent_path_def kstrlen_eq Let_def)
    ultimately show ?thesis
      using set_root_eq [OF assms(1)] set_root_eq [OF q(4)] by (auto simp: s_def)
  next
    case False
    then have par: "parent s = butlast u" by (simp add: parent_def u_def Let_def)
    have ne: "u \<noteq> []" using False by auto
    obtain v where v: "s = u @ v" using dropWhile_rev_prefix unfolding u_def by blast
    obtain w x where w: "u = w @ [x]" using ne by (metis rev_exhaust)
    have "q[length u - 1 := NUL] = w @ NUL # v @ replicate (DIR_NAME_LEN - length s) NUL"
      by (simp add: q_def v w list_update_append)
    moreover have "parent_path out path = Some (q[length u - 1 := NUL])"
      using False r r0 q len assms(3) v
      by (simp add: parent_path_def kstrlen_eq Let_def poke_def s_def [symmetric])
    moreover have "NUL \<notin> set w" "butlast u = w" using nn by (auto simp: v w)
    ultimately show ?thesis
      using par q(4) length_list_update [of q "length u - 1" NUL]
      by (auto simp: path_ok_def s_def [symmetric] simp del: length_list_update)
  qed
qed

lemma no_slash_eq: "terminated s \<Longrightarrow> no_slash s = Some (CHR ''/'' \<notin> set (cstr s))"
  by (induction s) auto

section \<open>Children\<close>

text \<open>A child of a directory: its path, a slash and one name.\<close>

definition child_of :: "string \<Rightarrow> string \<Rightarrow> bool" where
  "child_of c p \<longleftrightarrow> (\<exists>n. n \<noteq> [] \<and> CHR ''/'' \<notin> set n \<and> c = (if p = ''/'' then ''/'' else p @ ''/'') @ n)"

lemma child_of_drop:
  "child_of c p \<longleftrightarrow>
     (let u = (if p = ''/'' then ''/'' else p @ ''/'')
      in take (length u) c = u \<and> drop (length u) c \<noteq> [] \<and> CHR ''/'' \<notin> set (drop (length u) c))"
proof -
  define u where "u = (if p = ''/'' then ''/'' else p @ ''/'')"
  have "(\<exists>n. n \<noteq> [] \<and> CHR ''/'' \<notin> set n \<and> c = u @ n) \<longleftrightarrow>
      take (length u) c = u \<and> drop (length u) c \<noteq> [] \<and> CHR ''/'' \<notin> set (drop (length u) c)" (is "?l \<longleftrightarrow> ?r")
  proof
    assume ?r
    moreover from this have "c = u @ drop (length u) c" by (metis append_take_drop_id)
    ultimately show ?l by blast
  qed auto
  then show ?thesis unfolding child_of_def Let_def u_def .
qed

lemma cstr_drop: "i \<le> length (cstr p) \<Longrightarrow> cstr (drop i p) = drop i (cstr p)"
proof (induction i arbitrary: p)
  case (Suc i)
  then show ?case by (cases p) (auto split: if_splits)
qed simp

lemma terminated_drop: "terminated p \<Longrightarrow> i \<le> length (cstr p) \<Longrightarrow> terminated (drop i p)"
proof (induction i arbitrary: p)
  case (Suc i)
  then show ?case by (cases p) (auto split: if_splits)
qed simp

lemma peek_eq:
  "terminated p \<Longrightarrow> i \<le> length (cstr p) \<Longrightarrow>
   peek p i = Some (if i < length (cstr p) then cstr p ! i else NUL)"
proof -
  assume t: "terminated p" and i: "i \<le> length (cstr p)"
  then have "i < length p" using length_cstr_less [OF t] by linarith
  then show ?thesis
    using i nth_cstr [of i p] nth_length_cstr [OF t] by (cases "i = length (cstr p)") (auto simp: peek_def)
qed

lemma is_immediate_child_root:
  assumes "terminated c" and "terminated p" and "cstr p = ''/''"
  shows "is_immediate_child c p = Some (child_of (cstr c) (cstr p))"
proof -
  have r: "kstrcmp p (lit ''/'') = Some 0" using kstrcmp_eq0 [OF assms(2) terminated_lit] assms(3) by simp
  show ?thesis
  proof (cases "cstr c")
    case Nil
    then have "peek c 0 = Some NUL" using peek_eq [OF assms(1), of 0] by simp
    with r Nil assms(3) show ?thesis by (simp add: is_immediate_child_def child_of_drop)
  next
    case (Cons x xs)
    have p0: "peek c 0 = Some x" using peek_eq [OF assms(1), of 0] Cons by simp
    have p1: "peek c (Suc 0) = Some (if xs = [] then NUL else hd xs)"
      using peek_eq [OF assms(1), of 1] Cons by (cases xs) auto
    have ns: "no_slash (drop (Suc 0) c) = Some (CHR ''/'' \<notin> set xs)"
      using no_slash_eq [OF terminated_drop [OF assms(1), of 1]] cstr_drop [of 1 c] Cons by simp
    have "xs \<noteq> [] \<Longrightarrow> hd xs \<noteq> NUL"
      using NUL_notin_cstr [of c] Cons by (cases xs) auto
    with r p0 p1 ns Cons assms(3) show ?thesis
      by (auto simp: is_immediate_child_def child_of_drop)
  qed
qed

lemma is_immediate_child_other:
  assumes "terminated c" and "terminated p" and "cstr p \<noteq> ''/''"
  shows "is_immediate_child c p = Some (child_of (cstr c) (cstr p))"
proof -
  define s where "s = cstr c"
  define q where "q = cstr p"
  obtain r where r: "kstrcmp p (lit ''/'') = Some r" "r \<noteq> 0"
    using kstrcmp_defined [OF assms(2) terminated_lit] kstrcmp_zero_iff assms(3) by fastforce
  obtain e where e: "kstrncmp c p (length q) = Some e" using kstrncmp_defined [OF assms(1,2)] by blast
  have e0: "e = 0 \<longleftrightarrow> take (length q) s = q" using kstrncmp_zero_iff [OF e] by (simp add: s_def q_def)
  have child: "child_of s q \<longleftrightarrow> take (length q) s = q \<and> length q < length s \<and> s ! length q = CHR ''/'' \<and>
      drop (Suc (length q)) s \<noteq> [] \<and> CHR ''/'' \<notin> set (drop (Suc (length q)) s)"
    unfolding child_of_drop Let_def using assms(3) by (auto simp: q_def [symmetric] take_Suc_conv_app_nth)
  show ?thesis
  proof (cases "take (length q) s = q")
    case False
    then show ?thesis
      using r e e0 child assms(2) by (simp add: is_immediate_child_def kstrlen_eq q_def [symmetric] s_def [symmetric])
  next
    case True
    then have le: "length q \<le> length s" by (metis linorder_le_cases take_all order_refl)
    have pk: "peek c (length q) = Some (if length q < length s then s ! length q else NUL)"
      using peek_eq [OF assms(1), of "length q"] le by (simp add: s_def)
    show ?thesis
    proof (cases "length q < length s \<and> s ! length q = CHR ''/''")
      case False
      then show ?thesis
        using r e e0 True pk child assms(2)
        by (auto simp: is_immediate_child_def kstrlen_eq q_def [symmetric] s_def [symmetric])
    next
      case sl: True
      have ns: "no_slash (drop (Suc (length q)) c) = Some (CHR ''/'' \<notin> set (drop (Suc (length q)) s))"
        using no_slash_eq [OF terminated_drop [OF assms(1), of "Suc (length q)"]]
          cstr_drop [of "Suc (length q)" c] sl by (simp add: s_def)
      have pk1: "peek c (Suc (length q)) = Some (if Suc (length q) < length s then s ! Suc (length q) else NUL)"
        using peek_eq [OF assms(1), of "Suc (length q)"] sl by (simp add: s_def)
      have "Suc (length q) < length s \<Longrightarrow> s ! Suc (length q) \<noteq> NUL"
        using NUL_notin_cstr [of c] nth_mem by (metis s_def)
      with sl r e e0 True pk ns pk1 child assms(2) show ?thesis
        by (auto simp: is_immediate_child_def kstrlen_eq q_def [symmetric] s_def [symmetric])
    qed
  qed
qed

lemma is_immediate_child_eq:
  "terminated c \<Longrightarrow> terminated p \<Longrightarrow> is_immediate_child c p = Some (child_of (cstr c) (cstr p))"
  using is_immediate_child_root is_immediate_child_other by blast

section \<open>Table updates\<close>

lemma copy_row:
  assumes "dir_row d" and "terminated s" and "dir_row s"
  shows "\<exists>r. kstrncpy d s DIR_NAME_LEN = Some r \<and> dir_row r \<and> terminated r \<and> cstr r = cstr s"
proof -
  have lt: "length (cstr s) < DIR_NAME_LEN" using length_cstr_less [OF assms(2)] assms(3) by (simp add: dir_row_def)
  show ?thesis
    using kstrncpy_fits [OF assms(2) _ lt, of d] padded [OF NUL_notin_cstr lt] assms(1)
    by (simp add: dir_row_def)
qed

lemma compact_eq:
  assumes "list_all dir_row ds" and "m < length ds" and "i \<le> m" and "\<forall>j. i < j \<and> j \<le> m \<longrightarrow> terminated (ds ! j)"
  shows "\<exists>ds'. compact [i..<m] ds = Some ds' \<and> length ds' = length ds \<and> list_all dir_row ds' \<and>
    (\<forall>j < length ds. if i \<le> j \<and> j < m then terminated (ds' ! j) \<and> cstr (ds' ! j) = cstr (ds ! Suc j)
                     else ds' ! j = ds ! j)"
  using assms
proof (induction "m - i" arbitrary: i ds)
  case 0
  then show ?case by auto
next
  case (Suc d)
  then have im: "i < m" "Suc i \<le> m" by auto
  have rows: "dir_row (ds ! i)" "dir_row (ds ! Suc i)" "terminated (ds ! Suc i)"
    using Suc.prems im by (auto simp: list_all_length)
  obtain r where r: "kstrncpy (ds ! i) (ds ! Suc i) DIR_NAME_LEN = Some r" "dir_row r" "terminated r"
    "cstr r = cstr (ds ! Suc i)"
    using copy_row [OF rows(1,3,2)] by blast
  define ds1 where "ds1 = ds[i := r]"
  have at: "ds1 ! j = (if j = i then r else ds ! j)" if "j < length ds" for j
    using that by (simp add: ds1_def nth_list_update_cases)
  have all: "list_all dir_row ds1"
    using Suc.prems(1) r(2) by (auto simp: list_all_length ds1_def nth_list_update_cases)
  obtain ds' where ds': "compact [Suc i..<m] ds1 = Some ds'" "length ds' = length ds1" "list_all dir_row ds'"
    "\<forall>j < length ds1. if Suc i \<le> j \<and> j < m then terminated (ds' ! j) \<and> cstr (ds' ! j) = cstr (ds1 ! Suc j)
                     else ds' ! j = ds1 ! j"
  proof -
    have "d = m - Suc i" "m < length ds1" using Suc.hyps(2) Suc.prems(2) by (simp_all add: ds1_def)
    moreover have "\<forall>j. Suc i < j \<and> j \<le> m \<longrightarrow> terminated (ds1 ! j)"
      using Suc.prems(4) by (auto simp: ds1_def)
    ultimately show thesis using Suc.hyps(1) [of "Suc i" ds1] all im(2) that by blast
  qed
  have "compact [i..<m] ds = Some ds'"
    using im r(1) ds'(1) by (simp add: upt_rec [of i m] ds1_def)
  moreover have "if i \<le> j \<and> j < m then terminated (ds' ! j) \<and> cstr (ds' ! j) = cstr (ds ! Suc j)
      else ds' ! j = ds ! j" if "j < length ds" for j
    using ds'(4) [rule_format, of j] that r im Suc.prems(2) at [of j] at [of "Suc j"]
    by (auto simp: ds1_def split: if_splits)
  ultimately show ?case using ds'(2,3) by (simp add: ds1_def)
qed

lemma nth_except: "j < length xs - 1 \<Longrightarrow> i < length xs \<Longrightarrow>
  (take i xs @ drop (Suc i) xs) ! j = (if i \<le> j then xs ! Suc j else xs ! j)"
  by (auto simp: nth_append min_def)

lemma distinct_except: "distinct xs \<Longrightarrow> distinct (take i xs @ drop (Suc i) xs)"
  using set_take_disj_set_drop_if_distinct [of xs i "Suc i"] by simp

text \<open>
  Removing a row: the list of paths loses that path and keeps the order of the others, and the
  current directory is still the same directory although its index may have moved.
\<close>

lemma remove_dir_eq:
  assumes "dir_wf t" and "0 < i" and "i < dir_count t" and "i \<noteq> cwd_idx t"
  shows "\<exists>t'. remove_dir i t = Some t' \<and> dir_wf t' \<and> cwd t' = cwd t \<and>
    paths t' = take i (paths t) @ drop (Suc i) (paths t)"
proof -
  define m where "m = dir_count t - 1"
  have wf: "length (dirs t) = DIR_MAX" "list_all dir_row (dirs t)" "dir_count t \<le> DIR_MAX" "cwd_idx t < dir_count t"
    "paths t ! 0 = ''/''" "distinct (paths t)" "list_all absolute (paths t)"
    using assms(1) by (simp_all add: dir_wf_def)
  have m: "m < length (dirs t)" "i \<le> m" "Suc m = dir_count t" using wf assms(3) by (auto simp: m_def)
  obtain ds where ds: "compact [i..<m] (dirs t) = Some ds" "length ds = length (dirs t)" "list_all dir_row ds"
    "\<forall>j < length (dirs t). if i \<le> j \<and> j < m then terminated (ds ! j) \<and> cstr (ds ! j) = cstr (dirs t ! Suc j)
                     else ds ! j = dirs t ! j"
    using compact_eq [OF wf(2) m(1,2)] dir_rowD [OF assms(1)] m(3) by (auto simp: less_Suc_eq_le [symmetric])
  have row: "dir_row (ds ! m)" using ds(2,3) m(1) by (simp add: list_all_length)
  define d where "d = (ds ! m)[0 := NUL]"
  have d: "poke 0 NUL (ds ! m) = Some d" "dir_row d"
    using row by (simp_all add: poke_def d_def dir_row_def DIR_NAME_LEN_def)
  define t' where "t' = t\<lparr>dirs := ds[m := d], dir_count := m,
      cwd_idx := (if cwd_idx t > i then cwd_idx t - 1 else cwd_idx t)\<rparr>"
  have rm: "remove_dir i t = Some t'" using ds(1) d(1) by (simp add: remove_dir_def t'_def m_def)
  have at: "terminated (dirs t' ! j) \<and> cstr (dirs t' ! j) = paths t ! (if i \<le> j then Suc j else j)"
    if "j < m" for j
    using ds(4) [rule_format, of j] that m wf dir_rowD [OF assms(1), of j] nth_paths [OF assms(1), of j]
      nth_paths [OF assms(1), of "Suc j"] by (auto simp: t'_def)
  have lp: "length (paths t) = Suc m" using length_paths [OF assms(1)] m(3) by simp
  have lt: "length (dirs t') = DIR_MAX" "dir_count t' = m" using ds(2) wf(1) by (simp_all add: t'_def)
  have ps: "paths t' = take i (paths t) @ drop (Suc i) (paths t)"
  proof (rule nth_equalityI)
    show len: "length (paths t') = length (take i (paths t) @ drop (Suc i) (paths t))"
      using lt lp m wf(1) by (simp add: paths_def)
    fix j assume "j < length (paths t')"
    then have j: "j < m" using lt m wf(1) by (simp add: paths_def)
    have "paths t' ! j = cstr (dirs t' ! j)" using j lt m wf(1) by (simp add: paths_def)
    with at [OF j] show "paths t' ! j = (take i (paths t) @ drop (Suc i) (paths t)) ! j"
      using nth_except [of j "paths t" i] j lp m by simp
  qed
  have "list_all dir_row (dirs t')"
    using ds(2,3) d(2) by (auto simp: t'_def list_all_length nth_list_update_cases)
  moreover have "list_all terminated (take m (dirs t'))" using at by (auto simp: list_all_length)
  moreover have "cwd_idx t' < m" using wf(4) assms(3,4) m(3) by (auto simp: t'_def)
  moreover have "paths t' ! 0 = ''/''" using ps wf(5) assms(2) lp m by (simp add: nth_append)
  moreover have "distinct (paths t')" using ps wf(6) distinct_except by metis
  moreover have "list_all absolute (paths t')" using ps wf(7) by (auto simp: list_all_iff dest: in_set_takeD in_set_dropD)
  ultimately have wf': "dir_wf t'" using lt m wf(3) by (simp add: dir_wf_def)
  have "cwd t' = cwd t"
    using cwd_eq [OF assms(1)] at [of "cwd_idx t'"] \<open>cwd_idx t' < m\<close> assms(4)
    by (auto simp: cwd_def dir_getcwd_def t'_def split: if_splits)
  with rm wf' ps show ?thesis by blast
qed

lemma add_dir_eq:
  assumes "dir_wf t" and "dir_count t < DIR_MAX" and "path_ok s p" and "absolute s" and "s \<notin> set (paths t)"
  shows "\<exists>t'. add_dir p t = Some t' \<and> dir_wf t' \<and> cwd t' = cwd t \<and> paths t' = paths t @ [s]"
proof -
  define m where "m = dir_count t"
  have wf: "length (dirs t) = DIR_MAX" "list_all dir_row (dirs t)" "0 < m" "cwd_idx t < m"
    "paths t ! 0 = ''/''" "distinct (paths t)" "list_all absolute (paths t)" "m < DIR_MAX"
    "list_all terminated (take m (dirs t))"
    using assms(1,2) by (simp_all add: dir_wf_def m_def)
  have row: "dir_row (dirs t ! m)" "terminated p" "dir_row p" "cstr p = s"
    using wf assms(3) by (auto simp: list_all_length path_ok_def dir_row_def)
  obtain r where r: "kstrncpy (dirs t ! m) p DIR_NAME_LEN = Some r" "dir_row r" "terminated r" "cstr r = s"
    using copy_row [OF row(1,2,3)] row(4) by auto
  define t' where "t' = t\<lparr>dirs := (dirs t)[m := r], dir_count := m + 1\<rparr>"
  have ad: "add_dir p t = Some t'" using r(1) by (simp add: add_dir_def t'_def m_def)
  have tk: "take (Suc m) (dirs t') = take m (dirs t) @ [r]"
    using wf(1,8) by (simp add: t'_def take_Suc_conv_app_nth)
  have ps: "paths t' = paths t @ [s]"
    using tk r(4) by (simp add: paths_def t'_def m_def)
  have lp: "length (paths t) = m" using length_paths [OF assms(1)] by (simp add: m_def)
  have "list_all dir_row (dirs t')"
    using wf(2) r(2) by (auto simp: t'_def list_all_length nth_list_update_cases)
  moreover have "list_all terminated (take (dir_count t') (dirs t'))"
    using tk wf(9) r(3) by (simp add: t'_def)
  moreover have "paths t' ! 0 = ''/''" using ps wf(3,5) lp by (simp add: nth_append)
  moreover have "distinct (paths t')" "list_all absolute (paths t')" using ps wf(6,7) assms(4,5) by simp_all
  ultimately have wf': "dir_wf t'" using wf by (simp add: dir_wf_def t'_def)
  have "cwd t' = cwd t"
    using wf(4) by (simp add: cwd_def dir_getcwd_def t'_def)
  with ad wf' ps show ?thesis by blast
qed

lemma dir_init_eq:
  assumes "length (dirs t) = DIR_MAX" and "list_all dir_row (dirs t)"
  shows "\<exists>t'. dir_init t = Some t' \<and> dir_wf t' \<and> cwd t' = ''/'' \<and> paths t' = [''/'']"
proof -
  have "dirs t \<noteq> []" using assms(1) by (auto simp: DIR_MAX_def)
  then obtain d ds where D: "dirs t = d # ds" by (cases "dirs t") auto
  have "dir_row d" using assms(2) D by simp
  then obtain a b r where d: "d = a # b # r"
    by (cases d; cases "tl d") (auto simp: dir_row_def DIR_NAME_LEN_def)
  define t' where "t' = t\<lparr>dirs := (CHR ''/'' # NUL # r) # ds, dir_count := 1, cwd_idx := 0\<rparr>"
  have "dir_init t = Some t'" by (simp add: dir_init_def poke_def D d t'_def)
  moreover have "dir_wf t'" "cwd t' = ''/''" "paths t' = [''/'']"
    using assms D d by (auto simp: dir_wf_def t'_def paths_def cwd_def dir_getcwd_def dir_row_def absolute_def DIR_MAX_def)
  ultimately show ?thesis by blast
qed

end
