(* ===== verification/Machine.thy ===== *)
theory Machine
  imports Vga Pic Gdt Idt Isr Keyboard Disk Dirtab
begin

text \<open>
  The kernel as one state: the screen, the ports, the CPU, the interrupt handler table, the
  keyboard driver, the file system and the directory table. This theory holds the code that
  ties them together: \<open>irq_dispatch\<close> of \<open>isr.c\<close>, \<open>kbd_init\<close> and \<open>kbd_getchar\<close> of \<open>keyboard.c\<close> and the
  line editor \<open>readline\<close> that \<open>fs.c\<close>, \<open>dir.c\<close> and \<open>shell.c\<close> each carry a copy of.

  \<open>pending\<close> is what the user does: at each point of the wait loop in \<open>kbd_getchar\<close> (before its test,
  between a test that found nothing and the \<open>hlt\<close>, and in the \<open>hlt\<close>) one batch of scan codes
  arrives, possibly an empty one, and each scan code is one IRQ 1. After the last batch no interrupt
  comes any more: what is in the ring can still be read, and a reader that goes to sleep, or already
  sleeps, stays asleep, which is the outcome \<open>Blocked\<close>. \<open>junk\<close> is the unspecified content of an automatic
  buffer.
\<close>

section \<open>State\<close>

record kernel =
  scr :: vga
  ios :: io
  kcpu :: cpu
  irqs :: "handler option list"
  keys :: kbd
  disk :: fsys
  dtab :: dirtab
  pending :: "8 word list list"
  junk :: cptr

text \<open>A run of screen calls.\<close>

definition say :: "vcall list \<Rightarrow> kernel \<Rightarrow> (unit, kernel) outcome" where
  "say cs k = (case vcalls cs (scr k) of None \<Rightarrow> Stop Fault k | Some v \<Rightarrow> Ret () (k\<lparr>scr := v\<rparr>))"

definition putc :: "char \<Rightarrow> kernel \<Rightarrow> kernel" where
  "putc c k = k\<lparr>scr := vga_putchar c (scr k)\<rparr>"

section \<open>Interrupts\<close>

definition KBD_DATA_PORT :: "16 word" where "KBD_DATA_PORT = 0x60"

fun run_handler :: "handler \<Rightarrow> kernel \<Rightarrow> kernel option" where
  "run_handler Kbd_isr k = do {
     q \<leftarrow> kbd_isr (inb KBD_DATA_PORT (ios k)) (keys k);
     Some (k\<lparr>keys := q\<rparr>)
   }"

definition irq_dispatch :: "32 word \<Rightarrow> kernel \<Rightarrow> kernel option" where
  "irq_dispatch irq k = do {
     k \<leftarrow> (if irq < 16
          then (case irqs k ! unat irq of Some h \<Rightarrow> run_handler h k | None \<Rightarrow> Some k)
          else Some k);
     Some (k\<lparr>ios := pic_eoi (ucast irq) (ios k)\<rparr>)
   }"

text \<open>One scan code: the keyboard controller shows it at its data port and raises IRQ 1, which
  the CPU takes when interrupts are enabled.\<close>

definition press :: "8 word \<Rightarrow> kernel \<Rightarrow> kernel option" where
  "press sc k =
     (let k = k\<lparr>ios := (ios k)\<lparr>iodev := (\<lambda>log p. if p = KBD_DATA_PORT then sc else iodev (ios k) log p)\<rparr>\<rparr>
      in if iflag (kcpu k) then irq_dispatch 1 k else Some k)"

fun press_all :: "8 word list \<Rightarrow> kernel \<Rightarrow> kernel option" where
  "press_all [] k = Some k"
| "press_all (sc # scs) k = do { k \<leftarrow> press sc k; press_all scs k }"

section \<open>Keyboard input\<close>

definition kbd_init :: "kernel \<Rightarrow> kernel option" where
  "kbd_init k = do {
     let k = k\<lparr>irqs := irq_register 1 (Some Kbd_isr) (irqs k)\<rparr>;
     i \<leftarrow> pic_unmask 1 (ios k);
     Some (k\<lparr>ios := i\<rparr>)
   }"

text \<open>
  The wait loop, by the point it is at: before the test, between a test that found nothing and the
  \<open>hlt\<close>, and asleep in the \<open>hlt\<close>, which the next interrupt ends if interrupts are enabled. A key that
  arrives between the test and the \<open>hlt\<close> is in the ring when the reader falls asleep, and does not
  wake it. Once no interrupt is to come, a ring whose indices lie outside the buffer counts as a fault;
  \<open>kbd_wf\<close> excludes that.
\<close>

datatype wait_at = At_test | At_hlt | In_hlt

definition kbd_fetch :: "kernel \<Rightarrow> (char, kernel) outcome" where
  "kbd_fetch k =
     (case kbd_take (keys k) of
        None \<Rightarrow> Stop Fault k
      | Some (c, q) \<Rightarrow> Ret c (k\<lparr>keys := q\<rparr>))"

fun kbd_wait :: "wait_at \<Rightarrow> 8 word list list \<Rightarrow> kernel \<Rightarrow> (char, kernel) outcome" where
  "kbd_wait p [] k =
     (if p = At_test \<and> kbd_has_char (keys k)
      then (if kbd_wf (keys k) then kbd_fetch (k\<lparr>pending := []\<rparr>) else Stop Fault (k\<lparr>pending := []\<rparr>))
      else Stop Blocked (k\<lparr>pending := []\<rparr>))"
| "kbd_wait p (b # bs) k =
     (case press_all b (k\<lparr>pending := bs\<rparr>) of
        None \<Rightarrow> Stop Fault k
      | Some k \<Rightarrow>
          (case p of
             At_test \<Rightarrow> if kbd_has_char (keys k) then kbd_fetch k else kbd_wait At_hlt bs k
           | At_hlt \<Rightarrow> kbd_wait In_hlt bs k
           | In_hlt \<Rightarrow> kbd_wait (if b \<noteq> [] \<and> iflag (kcpu k) then At_test else In_hlt) bs k))"

definition kbd_getchar :: "kernel \<Rightarrow> (char, kernel) outcome" where
  "kbd_getchar k = kbd_wait At_test (pending k) k"

section \<open>What input leaves alone\<close>

text \<open>Two states that differ only in what keyboard input may change: the driver's ring, the port
  log and the input still to come.\<close>

definition input_only :: "kernel \<Rightarrow> kernel \<Rightarrow> bool" where
  "input_only k k' \<longleftrightarrow>
     scr k' = scr k \<and> kcpu k' = kcpu k \<and> irqs k' = irqs k \<and> disk k' = disk k \<and> dtab k' = dtab k \<and>
     junk k' = junk k"

lemma input_only_refl [simp]: "input_only k k"
  by (simp add: input_only_def)

lemma input_only_trans: "input_only j k \<Longrightarrow> input_only k l \<Longrightarrow> input_only j l"
  by (simp add: input_only_def)

lemma run_handler_keys: "run_handler h k = Some k' \<Longrightarrow> \<exists>q. k' = k\<lparr>keys := q\<rparr>"
  by (cases h) (auto simp: bind_eq_Some_conv)

lemma press_input: "press sc k = Some k' \<Longrightarrow> input_only k k' \<and> pending k' = pending k"
  by (auto simp: press_def irq_dispatch_def Let_def input_only_def bind_eq_Some_conv
      split: if_splits option.splits dest!: run_handler_keys simp del: run_handler.simps)

lemma press_all_input: "press_all scs k = Some k' \<Longrightarrow> input_only k k' \<and> pending k' = pending k"
proof (induction scs arbitrary: k)
  case (Cons sc scs)
  then obtain k1 where "press sc k = Some k1" "press_all scs k1 = Some k'"
    by (auto simp: bind_eq_Some_conv)
  with Cons.IH press_input show ?case by (metis input_only_trans)
qed simp

text \<open>How much input is left: the batches to come, each of which fills the ring at most, and what is
  in the ring. Every character read makes it less, which is why the loops over input end.\<close>

definition input_left :: "kernel \<Rightarrow> nat" where
  "input_left k = KBD_BUF_SIZE * length (pending k) + ring_count (keys k)"

lemma input_left_same [simp]:
  "input_left (k\<lparr>scr := v\<rparr>) = input_left k" "input_left (k\<lparr>ios := i\<rparr>) = input_left k"
  "input_left (k\<lparr>kcpu := cp\<rparr>) = input_left k" "input_left (k\<lparr>disk := d\<rparr>) = input_left k"
  "input_left (k\<lparr>dtab := t\<rparr>) = input_left k" "input_left (putc c k) = input_left k"
  by (simp_all add: input_left_def putc_def)

lemma ring_count_less: "ring_count q < KBD_BUF_SIZE"
  by (simp add: ring_count_def)

lemma kbd_take_count: "kbd_wf q \<Longrightarrow> kbd_has_char q \<Longrightarrow> kbd_take q = Some (c, q') \<Longrightarrow> kbd_wf q' \<and> ring_count q' < ring_count q"
  using ring.get_law [of q] ring_empty_iff [of q] length_kbd_chars [of q] length_kbd_chars [of q']
  by (cases "kbd_chars q") auto

lemma batch_left:
  "press_all b (k\<lparr>pending := bs\<rparr>) = Some k1 \<Longrightarrow>
   KBD_BUF_SIZE * length (pending k1) + ring_count q < KBD_BUF_SIZE * length (b # bs)"
  using press_all_input [of b "k\<lparr>pending := bs\<rparr>" k1] ring_count_less [of q] by simp

lemma kbd_wait_input:
  "kbd_wait p bs k = Ret c k' \<Longrightarrow>
   input_only k k' \<and> input_left k' < KBD_BUF_SIZE * length bs + ring_count (keys k)"
proof (induction p bs k rule: kbd_wait.induct)
  case (1 p k)
  then show ?case
    by (auto simp: kbd_fetch_def input_only_def input_left_def split: if_splits option.splits dest: kbd_take_count)
next
  case (2 p b bs k)
  then obtain k1 where k1: "press_all b (k\<lparr>pending := bs\<rparr>) = Some k1" by (auto split: option.splits)
  note io = press_all_input [OF k1] and left = batch_left [OF k1]
  show ?case
  proof (cases "p = At_test \<and> kbd_has_char (keys k1)")
    case True
    then show ?thesis
      using "2.prems" k1 io left by (auto simp: kbd_fetch_def input_left_def input_only_def trans_less_add1 split: option.splits)
  next
    case False
    then obtain p' where "kbd_wait p' bs k1 = Ret c k'" "input_only k1 k' \<and> input_left k' < KBD_BUF_SIZE * length bs + ring_count (keys k1)"
      using "2.prems" "2.IH" [OF k1] k1 by (cases p) auto
    then show ?thesis
      using io left [of "keys k1"] by (auto simp: input_only_def)
  qed
qed

lemma kbd_getchar_input:
  "kbd_getchar k = Ret c k' \<Longrightarrow> input_only k k' \<and> input_left k' < input_left k"
  unfolding kbd_getchar_def input_left_def [of k] by (rule kbd_wait_input)

section \<open>Reading a line\<close>

text \<open>
  The loop of \<open>readline\<close>. The copies in \<open>fs.c\<close> and \<open>dir.c\<close> store every character, the one in
  \<open>shell.c\<close> only printable ones: \<open>ok\<close> is that test.
\<close>

function readline_loop ::
  "(char \<Rightarrow> bool) \<Rightarrow> nat \<Rightarrow> nat \<Rightarrow> cptr \<Rightarrow> kernel \<Rightarrow> (nat \<times> cptr, kernel) outcome" where
  "readline_loop ok len n buf k =
     bnd (kbd_getchar k) (\<lambda>c k.
       if c = CHR 0x0A then
         (if n < length buf then Ret (n, buf[n := NUL]) (putc CHR 0x0A k) else Stop Fault k)
       else if c = CHR 0x08 then
         (if n > 0 then readline_loop ok len (n - 1) buf (putc CHR 0x08 k)
          else readline_loop ok len n buf k)
       else if ok c \<and> n < len - 1 then
         (if n < length buf then readline_loop ok len (n + 1) (buf[n := c]) (putc c k)
          else Stop Fault k)
       else readline_loop ok len n buf k)"
  by pat_completeness auto
termination
  by (relation "measure (\<lambda>(ok, len, n, buf, k). input_left k)")
    (auto dest: kbd_getchar_input)

declare readline_loop.simps [simp del]

definition readline :: "cptr \<Rightarrow> nat \<Rightarrow> kernel \<Rightarrow> (nat \<times> cptr, kernel) outcome" where
  "readline buf len k = readline_loop (\<lambda>_. True) len 0 buf k"

definition printable :: "char \<Rightarrow> bool" where
  "printable c \<longleftrightarrow> 0x20 \<le> (of_char c :: nat) \<and> (of_char c :: nat) \<le> 0x7E"

definition shell_readline :: "cptr \<Rightarrow> nat \<Rightarrow> kernel \<Rightarrow> (nat \<times> cptr, kernel) outcome" where
  "shell_readline buf len k = readline_loop printable len 0 buf k"

section \<open>Invariant of the machine\<close>

definition machine_ok :: "kernel \<Rightarrow> bool" where
  "machine_ok k \<longleftrightarrow>
     vga_wf (scr k) \<and> kbd_wf (keys k) \<and> length (irqs k) = NR_IRQ \<and> length (junk k) = 256"

lemma machine_ok_update [simp]:
  "machine_ok (k\<lparr>ios := i\<rparr>) = machine_ok k" "machine_ok (k\<lparr>pending := p\<rparr>) = machine_ok k"
  "machine_ok (k\<lparr>disk := d\<rparr>) = machine_ok k" "machine_ok (k\<lparr>dtab := t\<rparr>) = machine_ok k"
  "machine_ok (k\<lparr>kcpu := c\<rparr>) = machine_ok k"
  by (simp_all add: machine_ok_def)

lemma machine_ok_scr [simp]: "machine_ok k \<Longrightarrow> machine_ok (k\<lparr>scr := v\<rparr>) = vga_wf v"
  by (simp add: machine_ok_def)

lemma putc_ok [simp]: "machine_ok k \<Longrightarrow> machine_ok (putc c k)"
  by (simp add: machine_ok_def putc_def vga_putchar_wf)

lemma say_ok:
  assumes "machine_ok k" and "list_all vcall_ok cs"
    and "\<And>v. machine_ok (k\<lparr>scr := v\<rparr>) \<Longrightarrow> Q () (k\<lparr>scr := v\<rparr>)"
  shows "runs (say cs k) Q B"
proof -
  obtain v where v: "vcalls cs (scr k) = Some v" using vcalls_Some [OF assms(2)] by blast
  then have "machine_ok (k\<lparr>scr := v\<rparr>)"
    using assms(1) vcalls_safe [of "scr k" cs v] by (simp add: machine_ok_def)
  with assms(3) v show ?thesis by (simp add: say_def)
qed

lemma run_handler_ok: "kbd_wf (keys k) \<Longrightarrow> \<exists>q. run_handler h k = Some (k\<lparr>keys := q\<rparr>) \<and> kbd_wf q"
  using kbd_isr_wf [of "keys k" "inb KBD_DATA_PORT (ios k)"] by (cases h) auto

lemma irq_dispatch_ok:
  assumes "machine_ok k"
  shows "\<exists>k'. irq_dispatch irq k = Some k' \<and> machine_ok k'"
proof (cases "if irq < 16 then irqs k ! unat irq else None")
  case None
  with assms show ?thesis by (auto simp: irq_dispatch_def split: if_splits)
next
  case (Some h)
  moreover obtain q where "run_handler h k = Some (k\<lparr>keys := q\<rparr>)" "kbd_wf q"
    using run_handler_ok [of k h] assms by (auto simp: machine_ok_def)
  ultimately show ?thesis
    using assms by (auto simp: irq_dispatch_def machine_ok_def split: if_splits)
qed

lemma press_all_ok: "machine_ok k \<Longrightarrow> \<exists>k'. press_all scs k = Some k' \<and> machine_ok k'"
proof (induction scs arbitrary: k)
  case (Cons sc scs)
  have "\<exists>k1. press sc k = Some k1 \<and> machine_ok k1"
    unfolding press_def Let_def using irq_dispatch_ok Cons.prems by (auto split: if_splits)
  with Cons.IH show ?case by auto
qed simp

text \<open>States that may differ in the screen as well.\<close>

definition io_only :: "kernel \<Rightarrow> kernel \<Rightarrow> bool" where
  "io_only k k' \<longleftrightarrow> machine_ok k' \<and> kcpu k' = kcpu k \<and> irqs k' = irqs k \<and> disk k' = disk k \<and>
     dtab k' = dtab k \<and> junk k' = junk k"

lemma io_only_refl [simp]: "io_only k k = machine_ok k"
  by (simp add: io_only_def)

lemma io_only_trans: "io_only j k \<Longrightarrow> io_only k l \<Longrightarrow> io_only j l"
  by (simp add: io_only_def)

lemma io_only_putc: "io_only j k \<Longrightarrow> io_only j (putc c k)"
  by (simp add: io_only_def) (simp add: putc_def)

lemma io_only_ok: "io_only j k \<Longrightarrow> machine_ok k"
  by (simp add: io_only_def)

text \<open>A computation that waits for input stops only as \<open>Blocked\<close>.\<close>

definition blocked :: "kernel \<Rightarrow> stop \<Rightarrow> kernel \<Rightarrow> bool" where
  "blocked k e k' \<longleftrightarrow> e = Blocked \<and> io_only k k'"

lemma kbd_fetch_ok:
  assumes "machine_ok k" and "kbd_has_char (keys k)"
  shows "runs (kbd_fetch k) (\<lambda>c. io_only k) B"
proof -
  have wf: "kbd_wf (keys k)" "kbd_chars (keys k) \<noteq> []"
    using assms ring_empty_iff by (auto simp: machine_ok_def)
  then obtain q where "kbd_take (keys k) = Some (hd (kbd_chars (keys k)), q)" "kbd_wf q"
    using ring.get_law by blast
  then show ?thesis using assms(1) by (simp add: kbd_fetch_def io_only_def machine_ok_def)
qed

lemma kbd_wait_ok:
  "machine_ok k \<Longrightarrow> runs (kbd_wait p bs k) (\<lambda>c. io_only k) (blocked k)"
proof (induction bs arbitrary: p k)
  case Nil
  have "runs (kbd_fetch (k\<lparr>pending := []\<rparr>)) (\<lambda>c. io_only k) (blocked k)" if "kbd_has_char (keys k)"
    using kbd_fetch_ok [of "k\<lparr>pending := []\<rparr>" "blocked k"] that Nil by (auto simp: io_only_def elim!: runs_mono)
  moreover have "kbd_wf (keys k)" "blocked k Blocked (k\<lparr>pending := []\<rparr>)"
    using Nil by (simp_all add: blocked_def io_only_def machine_ok_def)
  ultimately show ?case by auto
next
  case (Cons b bs)
  obtain k1 where k1: "press_all b (k\<lparr>pending := bs\<rparr>) = Some k1" "machine_ok k1"
    using press_all_ok [of "k\<lparr>pending := bs\<rparr>" b] Cons.prems by auto
  have io: "io_only k k1"
    using press_all_input [OF k1(1)] k1(2) by (auto simp: io_only_def input_only_def)
  have "runs (kbd_wait p' bs k1) (\<lambda>c. io_only k) (blocked k)" for p'
    by (rule runs_mono [OF Cons.IH [OF k1(2)]]) (auto simp: blocked_def intro: io_only_trans [OF io])
  moreover have "runs (kbd_fetch k1) (\<lambda>c. io_only k) (blocked k)" if "kbd_has_char (keys k1)"
    using kbd_fetch_ok [OF k1(2) that, of "blocked k"] by (auto elim!: runs_mono intro: io_only_trans [OF io])
  ultimately show ?case using k1(1) by (auto split: wait_at.split)
qed

lemma kbd_getchar_ok: "machine_ok k \<Longrightarrow> runs (kbd_getchar k) (\<lambda>c. io_only k) (blocked k)"
  unfolding kbd_getchar_def by (rule kbd_wait_ok)

text \<open>\<open>readline\<close> stays inside its buffer and returns it terminated.\<close>

definition line_read :: "nat \<Rightarrow> cptr \<Rightarrow> kernel \<Rightarrow> nat \<times> cptr \<Rightarrow> kernel \<Rightarrow> bool" where
  "line_read len buf k r k' \<longleftrightarrow>
     fst r < len \<and> length (snd r) = length buf \<and> snd r ! fst r = NUL \<and> terminated (snd r) \<and> io_only k k'"

lemma kbd_getchar_next:
  "machine_ok k \<Longrightarrow>
   runs (kbd_getchar k) (\<lambda>c k'. io_only k k' \<and> input_left k' < input_left k) (blocked k)"
  using kbd_getchar_ok [of k] kbd_getchar_input [of k] by (cases "kbd_getchar k") auto

lemma readline_loop_ok:
  assumes "machine_ok k" and "n < len" and "len \<le> length buf"
  shows "runs (readline_loop ok len n buf k) (line_read len buf k) (blocked k)"
  using assms
proof (induction "input_left k" arbitrary: n buf k rule: less_induct)
  case less
  have more: "runs (readline_loop ok len m b j) (line_read len buf k) (blocked k)"
    if "io_only k j" "input_left j < input_left k" "m < len" "length b = length buf" for m b j
    using less.hyps [OF that(2) _ that(3), of b] that less.prems io_only_ok [OF that(1)]
    by (auto simp: line_read_def blocked_def elim!: runs_mono intro: io_only_trans)
  show ?case
    unfolding readline_loop.simps [of ok len n buf k]
  proof (rule runs_bnd [OF kbd_getchar_next [OF less.prems(1)]])
    fix c j
    assume "io_only k j \<and> input_left j < input_left k"
    then have j: "io_only k j" "input_left j < input_left k" by auto
    show "runs (if c = CHR 0x0A then
         (if n < length buf then Ret (n, buf[n := NUL]) (putc CHR 0x0A j) else Stop Fault j)
       else if c = CHR 0x08 then
         (if n > 0 then readline_loop ok len (n - 1) buf (putc CHR 0x08 j)
          else readline_loop ok len n buf j)
       else if ok c \<and> n < len - 1 then
         (if n < length buf then readline_loop ok len (n + 1) (buf[n := c]) (putc c j)
          else Stop Fault j)
       else readline_loop ok len n buf j) (line_read len buf k) (blocked k)"
      using less.prems(2,3) j io_only_putc [OF j(1)]
      by (auto simp: line_read_def terminated_def set_update_memI intro!: more)
  qed
qed

section \<open>The line editor\<close>

text \<open>\<open>gets k cs k'\<close>: from \<open>k\<close>, calls of \<open>kbd_getchar\<close> return the characters \<open>cs\<close> one after the
  other and end in \<open>k'\<close>; the caller may print in between.\<close>

inductive gets :: "kernel \<Rightarrow> string \<Rightarrow> kernel \<Rightarrow> bool" where
  gets_nil: "gets k [] (k\<lparr>scr := v\<rparr>)"
| gets_cons: "kbd_getchar k = Ret c j \<Longrightarrow> gets (j\<lparr>scr := v\<rparr>) cs k' \<Longrightarrow> gets k (c # cs) k'"

text \<open>One key on the line typed so far.\<close>

definition edit1 :: "(char \<Rightarrow> bool) \<Rightarrow> nat \<Rightarrow> string \<Rightarrow> char \<Rightarrow> string" where
  "edit1 ok len l c =
     (if c = CHR 0x08 then butlast l else if ok c \<and> length l < len - 1 then l @ [c] else l)"

definition edit_line :: "(char \<Rightarrow> bool) \<Rightarrow> nat \<Rightarrow> string \<Rightarrow> string" where
  "edit_line ok len cs = foldl (edit1 ok len) [] cs"

lemma gets_putc: "gets (putc c j) cs k' \<Longrightarrow> kbd_getchar k = Ret d j \<Longrightarrow> gets k (d # cs) k'"
  unfolding putc_def by (rule gets_cons)

lemma gets_same: "gets j cs k' \<Longrightarrow> kbd_getchar k = Ret d j \<Longrightarrow> gets k (d # cs) k'"
  using gets_cons [of k d j "scr j" cs k'] by simp

lemma readline_loop_edits:
  assumes "readline_loop ok len n buf k = Ret (m, buf') k'" and "n < len" and "len \<le> length buf"
  shows "\<exists>cs. gets k (cs @ [CHR 0x0A]) k' \<and> CHR 0x0A \<notin> set cs \<and>
    take m buf' = foldl (edit1 ok len) (take n buf) cs \<and> m < len"
  using assms
proof (induction "input_left k" arbitrary: n buf k rule: less_induct)
  case less
  obtain c j where c: "kbd_getchar k = Ret c j"
    using less.prems(1) by (subst (asm) readline_loop.simps) (auto simp: bnd_Ret_iff)
  then have dec: "input_left j < input_left k" "input_left (putc d j) < input_left k" for d
    using kbd_getchar_input by auto
  have n: "n < length buf" using less.prems by simp
  note eq = less.prems(1) [unfolded readline_loop.simps [of ok len n buf k] c bnd.simps]
  consider (nl) "c = CHR 0x0A" | (bs) "c = CHR 0x08" "n > 0" | (ch) "c \<noteq> CHR 0x0A" "c \<noteq> CHR 0x08" "ok c" "n < len - 1"
    | (no) "c \<noteq> CHR 0x0A" "c = CHR 0x08 \<longrightarrow> n = 0" "c \<noteq> CHR 0x08 \<longrightarrow> \<not> (ok c \<and> n < len - 1)" by force
  then show ?case
  proof cases
    case nl
    with eq n less.prems have "m = n" "buf' = buf[n := NUL]" "k' = putc CHR 0x0A j" by auto
    then show ?thesis
      using gets_putc [OF _ c, of "CHR 0x0A" "[]"] gets_nil [of "putc CHR 0x0A j" "scr (putc CHR 0x0A j)"] nl less.prems
      by (intro exI [of _ "[]"]) simp
  next
    case bs
    then obtain cs where cs: "gets (putc CHR 0x08 j) (cs @ [CHR 0x0A]) k'" "CHR 0x0A \<notin> set cs"
      "take m buf' = foldl (edit1 ok len) (take (n - 1) buf) cs" "m < len"
      using less.hyps [OF dec(2) [of "CHR 0x08"], of "n - 1" buf] eq less.prems less_imp_diff_less [of n len 1]
      by auto
    then show ?thesis
      using gets_putc [OF cs(1) c] bs n
      by (intro exI [of _ "CHR 0x08 # cs"]) (simp add: edit1_def butlast_take)
  next
    case ch
    then obtain cs where cs: "gets (putc c j) (cs @ [CHR 0x0A]) k'" "CHR 0x0A \<notin> set cs"
      "take m buf' = foldl (edit1 ok len) (take (Suc n) (buf[n := c])) cs" "m < len"
      using less.hyps [OF dec(2) [of c], of "n + 1" "buf[n := c]"] eq less.prems n less_diff_conv [of n len 1]
      by auto
    then show ?thesis
      using gets_putc [OF cs(1) c] ch n
      by (intro exI [of _ "c # cs"]) (simp add: edit1_def take_Suc_conv_app_nth)
  next
    case no
    then obtain cs where cs: "gets j (cs @ [CHR 0x0A]) k'" "CHR 0x0A \<notin> set cs"
      "take m buf' = foldl (edit1 ok len) (take n buf) cs" "m < len"
      using less.hyps [OF dec(1), of n buf] eq less.prems by (auto split: if_splits)
    then show ?thesis
      using gets_same [OF cs(1) c] no n by (intro exI [of _ "c # cs"]) (auto simp: edit1_def)
  qed
qed

text \<open>\<open>readline\<close> never leaves its buffer, whatever is typed. If it returns, it has read
  characters up to the first newline, and the line it returns is the result of editing them: a
  backspace removes the last character, and a character is added only while fewer than
  \<open>len - 1\<close> are there. The line is terminated inside the buffer, the buffer keeps its size, and
  files and directories are as before; otherwise it is still waiting for input.\<close>

theorem readline_edits_line:
  assumes "machine_ok k" and "0 < len" and "len \<le> length buf"
  shows "runs (readline buf len k)
     (\<lambda>(n, buf') k'. (\<exists>cs. gets k (cs @ [CHR 0x0A]) k' \<and> CHR 0x0A \<notin> set cs \<and>
        take n buf' = edit_line (\<lambda>_. True) len cs) \<and> buf' ! n = NUL \<and> n < len \<and>
        length buf' = length buf \<and> disk k' = disk k \<and> dtab k' = dtab k)
     (\<lambda>e k'. e = Blocked \<and> disk k' = disk k \<and> dtab k' = dtab k)"
  using readline_loop_ok [OF assms, of "\<lambda>_. True"]
    readline_loop_edits [OF _ assms(2,3), of "\<lambda>_. True"]
  unfolding readline_def
  by (cases "readline_loop (\<lambda>_. True) len 0 buf k")
     (fastforce simp: edit_line_def line_read_def io_only_def blocked_def)+

text \<open>\<open>irq_dispatch\<close> acknowledges every interrupt, with or without a handler: whatever the
  line, the last write is the end-of-interrupt to the master PIC, preceded by one to the slave
  for the lines 8 to 15, and the dispatch never leaves the handler table or the ring buffer.\<close>

theorem irq_dispatch_acknowledges:
  assumes "machine_ok k" and "irq < 16"
  shows "\<exists>k'. irq_dispatch irq k = Some k' \<and>
     iolog (ios k') = iolog (ios k) @ (if 8 \<le> irq then [(PIC2_CMD, PIC_EOI)] else []) @ [(PIC1_CMD, PIC_EOI)]"
proof -
  have u: "8 \<le> (ucast irq :: 8 word) \<longleftrightarrow> 8 \<le> irq"
    using assms(2) by (simp add: word_le_nat_alt word_less_nat_alt unsigned_ucast_eq take_bit_nat_eq_self)
  obtain k' where k': "irq_dispatch irq k = Some k'" using irq_dispatch_ok [OF assms(1)] by blast
  then obtain j where "k' = j\<lparr>ios := pic_eoi (ucast irq) (ios j)\<rparr>" "ios j = ios k"
    using assms(2) unfolding irq_dispatch_def bind_eq_Some_conv
    by (auto split: option.splits dest!: run_handler_keys simp del: run_handler.simps)
  with k' u show ?thesis by (auto simp: pic_eoi_def outb_def)
qed

section \<open>Typing\<close>

text \<open>Input is enabled and nothing is waiting in the ring; a key that types \<open>c\<close>.\<close>

definition input_ready :: "kernel \<Rightarrow> bool" where
  "input_ready k \<longleftrightarrow>
     machine_ok k \<and> iflag (kcpu k) \<and> irqs k ! 1 = Some Kbd_isr \<and> kbd_chars (keys k) = []"

definition types :: "kbd \<Rightarrow> 8 word \<Rightarrow> char \<Rightarrow> bool" where
  "types q sc c \<longleftrightarrow> isr_puts sc (q\<lparr>kbd_head := kbd_tail q\<rparr>) = [c]"

lemma kbd_put_modifiers:
  "kbd_put c q = Some q' \<Longrightarrow> shift_held q' = shift_held q \<and> caps_lock_on q' = caps_lock_on q"
  by (auto simp: kbd_put_def Let_def split: if_splits)

lemma chars_empty: "kbd_chars (q\<lparr>kbd_head := kbd_tail q\<rparr>) = []"
  by (simp add: kbd_chars_def ring_count_def)

lemma kbd_isr_types:
  assumes "kbd_wf q" and "kbd_chars q = []" and "types q sc c"
  shows "\<exists>q'. kbd_isr sc q = Some q' \<and> kbd_wf q' \<and> kbd_chars q' = [c] \<and>
    shift_held q' = shift_held q \<and> caps_lock_on q' = caps_lock_on q"
proof -
  have puts: "isr_puts sc q = [c]"
    using assms(2,3) chars_empty [of q] by (simp add: types_def isr_puts_def)
  obtain q' where q': "kbd_isr sc q = Some q'" "kbd_wf q'" using kbd_isr_wf [OF assms(1)] by blast
  have "kbd_put (kbd_translate (shift_held q) (caps_lock_on q) sc) q = Some q'"
    using puts q'(1) by (auto simp: isr_puts_def kbd_isr_def Let_def split: if_splits)
  with q' puts assms(2) kbd_isr_chars [OF assms(1) q'(1)] kbd_put_modifiers show ?thesis by auto
qed

lemma types_modifiers:
  "shift_held q' = shift_held q \<Longrightarrow> caps_lock_on q' = caps_lock_on q \<Longrightarrow> types q' sc c = types q sc c"
  using chars_empty [of q] chars_empty [of q'] by (simp add: types_def isr_puts_def)

text \<open>The handler is reached by every scan code.\<close>

definition live :: "kernel \<Rightarrow> bool" where
  "live k \<longleftrightarrow> machine_ok k \<and> iflag (kcpu k) \<and> irqs k ! 1 = Some Kbd_isr"

definition modifiers :: "kbd \<Rightarrow> 8 word \<times> 8 word" where
  "modifiers q = (shift_held q, caps_lock_on q)"

lemma input_ready_live: "input_ready k \<longleftrightarrow> live k \<and> kbd_chars (keys k) = []"
  by (auto simp: input_ready_def live_def)

lemma press_live:
  assumes "live k" and "kbd_isr sc (keys k) = Some q" and "kbd_wf q"
  shows "\<exists>k'. press sc k = Some k' \<and> keys k' = q \<and> live k' \<and> pending k' = pending k"
proof -
  define i where "i = (ios k)\<lparr>iodev := (\<lambda>log p. if p = KBD_DATA_PORT then sc else iodev (ios k) log p)\<rparr>"
  have "inb KBD_DATA_PORT i = sc" by (simp add: i_def inb_def)
  then show ?thesis
    using assms unfolding press_def irq_dispatch_def Let_def i_def [symmetric]
    by (simp add: live_def machine_ok_def)
qed

text \<open>The break code of a key other than Shift: the handler leaves the ring and the modifiers alone.\<close>

definition idle :: "8 word \<Rightarrow> bool" where
  "idle sc \<longleftrightarrow> sc AND 0x80 \<noteq> 0 \<and> sc AND 0x7F \<noteq> 0x2A \<and> sc AND 0x7F \<noteq> 0x36"

lemma press_all_idle:
  "live k \<Longrightarrow> list_all idle b \<Longrightarrow> \<exists>k'. press_all b k = Some k' \<and> keys k' = keys k \<and> live k' \<and> pending k' = pending k"
proof (induction b arbitrary: k)
  case (Cons sc b)
  have "kbd_isr sc (keys k) = Some (keys k)" using Cons.prems(2) by (simp add: idle_def kbd_isr_def Let_def)
  moreover have "kbd_wf (keys k)" using Cons.prems(1) by (simp add: live_def machine_ok_def)
  ultimately obtain k1 where k1: "press sc k = Some k1" "keys k1 = keys k" "live k1" "pending k1 = pending k"
    using press_live [OF Cons.prems(1)] by blast
  with Cons.IH [OF k1(3)] Cons.prems(2) show ?case by simp
qed simp

lemma press_all_append: "press_all (a @ b) k = Option.bind (press_all a k) (press_all b)"
  by (induction a arbitrary: k) (simp_all split: option.split bind_split)

text \<open>A batch in which one key types \<open>c\<close> and other keys are released.\<close>

definition keystroke :: "kbd \<Rightarrow> 8 word list \<Rightarrow> char \<Rightarrow> bool" where
  "keystroke q b c \<longleftrightarrow> (case filter (\<lambda>sc. \<not> idle sc) b of [sc] \<Rightarrow> types q sc c | _ \<Rightarrow> False)"

lemma press_keystroke:
  assumes "input_ready k" and "keystroke (keys k) b c"
  shows "\<exists>k'. press_all b k = Some k' \<and> live k' \<and> kbd_chars (keys k') = [c] \<and>
    modifiers (keys k') = modifiers (keys k) \<and> pending k' = pending k"
proof -
  obtain sc where "filter (\<lambda>sc. \<not> idle sc) b = [sc]" and sc: "types (keys k) sc c"
    using assms(2) by (auto simp: keystroke_def split: list.splits)
  then obtain us vs where b: "b = us @ sc # vs" "list_all idle us" "list_all idle vs"
    by (auto simp: filter_eq_Cons_iff list_all_iff filter_empty_conv eq_commute [of "[]"])
  have lv: "live k" and nil: "kbd_chars (keys k) = []" using assms(1) by (simp_all add: input_ready_live)
  obtain k1 where k1: "press_all us k = Some k1" "keys k1 = keys k" "live k1" "pending k1 = pending k"
    using press_all_idle [OF lv b(2)] by blast
  have wf: "kbd_wf (keys k1)" using k1(3) by (simp add: live_def machine_ok_def)
  obtain q where q: "kbd_isr sc (keys k1) = Some q" "kbd_wf q" "kbd_chars q = [c]" "modifiers q = modifiers (keys k)"
    using kbd_isr_types [OF wf, of sc c] sc nil k1(2) by (auto simp: modifiers_def)
  obtain k2 where k2: "press sc k1 = Some k2" "keys k2 = q" "live k2" "pending k2 = pending k1"
    using press_live [OF k1(3) q(1,2)] by blast
  obtain k3 where "press_all vs k2 = Some k3" "keys k3 = keys k2" "live k3" "pending k3 = pending k2"
    using press_all_idle [OF k2(3) b(3)] by blast
  then show ?thesis using b(1) k1 k2 q by (simp add: press_all_append)
qed

lemma keystroke_modifiers: "modifiers q' = modifiers q \<Longrightarrow> keystroke q' b c = keystroke q b c"
  using types_modifiers [of q' q] by (auto simp: keystroke_def modifiers_def split: list.split)

lemma kbd_fetch_one:
  assumes "live k" and "kbd_chars (keys k) = [c]"
  shows "\<exists>k'. kbd_fetch k = Ret c k' \<and> input_ready k' \<and> pending k' = pending k \<and>
    modifiers (keys k') = modifiers (keys k)"
proof -
  have wf: "kbd_wf (keys k)" using assms(1) by (simp add: live_def machine_ok_def)
  obtain q where q: "kbd_take (keys k) = Some (c, q)" "kbd_wf q" "kbd_chars q = []"
    using ring.get_law [OF wf] assms(2) by auto
  have "modifiers q = modifiers (keys k)"
    using q(1) by (auto simp: kbd_take_def kbd_advance_def modifiers_def bind_eq_Some_conv)
  with q assms(1) show ?thesis
    by (auto simp: kbd_fetch_def input_ready_def live_def machine_ok_def)
qed

text \<open>
  \<open>arrives q p w c\<close>: during the batches \<open>w\<close> a reader that is at the point \<open>p\<close> of the wait loop gets
  exactly the character \<open>c\<close>. The key comes before a test of the loop, or it wakes the reader from the
  \<open>hlt\<close>; other keys may be released at any time. What is left out is a key that comes between a test
  that found nothing and the \<open>hlt\<close>.
\<close>

inductive arrives :: "kbd \<Rightarrow> wait_at \<Rightarrow> 8 word list list \<Rightarrow> char \<Rightarrow> bool" for q where
  before_test: "keystroke q b c \<Longrightarrow> arrives q At_test [b] c"
| nothing_yet: "list_all idle b \<Longrightarrow> arrives q At_hlt w c \<Longrightarrow> arrives q At_test (b # w) c"
| falls_asleep: "list_all idle b \<Longrightarrow> arrives q In_hlt w c \<Longrightarrow> arrives q At_hlt (b # w) c"
| sleeps: "arrives q In_hlt w c \<Longrightarrow> arrives q In_hlt ([] # w) c"
| woken_in_vain: "list_all idle b \<Longrightarrow> b \<noteq> [] \<Longrightarrow> arrives q At_test w c \<Longrightarrow> arrives q In_hlt (b # w) c"
| woken: "keystroke q b c \<Longrightarrow> list_all idle e \<Longrightarrow> arrives q In_hlt [b, e] c"

lemma keystroke_nonempty: "keystroke q b c \<Longrightarrow> b \<noteq> []"
  by (auto simp: keystroke_def)

lemma kbd_wait_idle:
  assumes "input_ready k" and "list_all idle b"
  shows "\<exists>k1. press_all b (k\<lparr>pending := bs\<rparr>) = Some k1 \<and> input_ready k1 \<and> keys k1 = keys k \<and>
    iflag (kcpu k1) \<and> \<not> kbd_has_char (keys k1)"
proof -
  have "input_ready (k\<lparr>pending := bs\<rparr>)" using assms(1) by (simp add: input_ready_def)
  then obtain k1 where "press_all b (k\<lparr>pending := bs\<rparr>) = Some k1" "keys k1 = keys k" "live k1"
    using press_all_idle [of "k\<lparr>pending := bs\<rparr>" b] assms(2) by (auto simp: input_ready_live)
  with assms(1) show ?thesis using ring_empty_iff [of "keys k"] by (auto simp: input_ready_def live_def machine_ok_def)
qed

lemma kbd_wait_key:
  assumes "input_ready k" and "keystroke (keys k) b c"
  shows "\<exists>k1. press_all b (k\<lparr>pending := bs\<rparr>) = Some k1 \<and> live k1 \<and> kbd_chars (keys k1) = [c] \<and>
    kbd_has_char (keys k1) \<and> modifiers (keys k1) = modifiers (keys k) \<and> pending k1 = bs"
proof -
  have "input_ready (k\<lparr>pending := bs\<rparr>)" using assms(1) by (simp add: input_ready_def)
  then obtain k1 where "press_all b (k\<lparr>pending := bs\<rparr>) = Some k1" "live k1" "kbd_chars (keys k1) = [c]"
    "modifiers (keys k1) = modifiers (keys k)" "pending k1 = bs"
    using press_keystroke [of "k\<lparr>pending := bs\<rparr>" b c] assms(2) by auto
  then show ?thesis using ring_empty_iff [of "keys k1"] by (auto simp: live_def machine_ok_def)
qed

lemma kbd_wait_arrives:
  "arrives q p w c \<Longrightarrow> input_ready k \<Longrightarrow> modifiers (keys k) = modifiers q \<Longrightarrow>
   \<exists>k'. kbd_wait p (w @ rest) k = Ret c k' \<and> input_ready k' \<and> pending k' = rest \<and> modifiers (keys k') = modifiers q"
proof (induction arbitrary: k rule: arrives.induct)
  case (before_test b c)
  obtain k1 where k1: "press_all b (k\<lparr>pending := rest\<rparr>) = Some k1" "live k1" "kbd_chars (keys k1) = [c]"
    "kbd_has_char (keys k1)" "modifiers (keys k1) = modifiers (keys k)" "pending k1 = rest"
    using kbd_wait_key [OF before_test.prems(1), of b c rest] before_test keystroke_modifiers by blast
  with kbd_fetch_one [OF k1(2,3)] before_test.prems show ?case by simp
next
  case (woken b c e)
  obtain k1 where k1: "press_all b (k\<lparr>pending := e # rest\<rparr>) = Some k1" "live k1" "kbd_chars (keys k1) = [c]"
    "modifiers (keys k1) = modifiers (keys k)"
    using kbd_wait_key [OF woken.prems(1), of b c "e # rest"] woken keystroke_modifiers by blast
  have "live (k1\<lparr>pending := rest\<rparr>)" using k1(2) by (simp add: live_def)
  then obtain k2 where k2: "press_all e (k1\<lparr>pending := rest\<rparr>) = Some k2" "keys k2 = keys k1" "live k2" "pending k2 = rest"
    using press_all_idle [of _ e] woken.hyps(2) by fastforce
  have "iflag (kcpu k1)" "kbd_has_char (keys k2)"
    using k1 k2 ring_empty_iff [of "keys k2"] by (auto simp: live_def machine_ok_def)
  with k1 k2 kbd_fetch_one [OF k2(3), of c] woken.prems keystroke_nonempty [OF woken.hyps(1)] show ?case by simp
next
  case (nothing_yet b w c)
  then show ?case using kbd_wait_idle [OF nothing_yet.prems(1), of b "w @ rest"] by auto
next
  case (falls_asleep b w c)
  then show ?case using kbd_wait_idle [OF falls_asleep.prems(1), of b "w @ rest"] by auto
next
  case (sleeps w c)
  then show ?case using kbd_wait_idle [OF sleeps.prems(1), of "[]" "w @ rest"] by auto
next
  case (woken_in_vain b w c)
  then show ?case using kbd_wait_idle [OF woken_in_vain.prems(1), of b "w @ rest"] by auto
qed

lemma arrives_modifiers: "arrives q p w c \<Longrightarrow> modifiers q' = modifiers q \<Longrightarrow> arrives q' p w c"
proof (induction rule: arrives.induct)
  case (before_test b c)
  then show ?case using keystroke_modifiers arrives.before_test by blast
next
  case (woken b c e)
  then show ?case using keystroke_modifiers arrives.woken by blast
qed (auto intro: arrives.intros)

lemma getchar_arrives:
  assumes "input_ready k" and "arrives (keys k) At_test w c" and "pending k = w @ rest"
  shows "\<exists>k'. kbd_getchar k = Ret c k' \<and> input_ready k' \<and> pending k' = rest \<and> modifiers (keys k') = modifiers (keys k)"
  using kbd_wait_arrives [OF assms(2,1) refl, of rest] assms(3) by (simp add: kbd_getchar_def)

lemma readline_loop_types:
  assumes "input_ready k" and "list_all2 (arrives (keys k) At_test) ws (cs @ [CHR 0x0A])"
    and "pending k = concat ws @ rest" and "CHR 0x0A \<notin> set cs" and "n < len" and "len \<le> length buf"
  shows "\<exists>m buf' k'. readline_loop ok len n buf k = Ret (m, buf') k' \<and>
     take m buf' = foldl (edit1 ok len) (take n buf) cs \<and> pending k' = rest \<and> input_ready k'"
  using assms
proof (induction cs arbitrary: ws n buf k)
  case Nil
  then obtain w where w: "ws = [w]" "arrives (keys k) At_test w CHR 0x0A" by (auto simp: list_all2_Cons2)
  then obtain k' where "kbd_getchar k = Ret (CHR 0x0A) k'" "pending k' = rest" "input_ready k'"
    using getchar_arrives [OF Nil.prems(1) w(2)] Nil.prems(3) by auto
  moreover from this(3) have "input_ready (putc CHR 0x0A k')"
    by (auto simp: input_ready_def) (auto simp: putc_def)
  ultimately show ?case using Nil.prems by (subst readline_loop.simps) (simp add: putc_def)
next
  case (Cons c cs)
  then obtain w ws' where w: "ws = w # ws'" "arrives (keys k) At_test w c" "list_all2 (arrives (keys k) At_test) ws' (cs @ [CHR 0x0A])"
    by (auto simp: list_all2_Cons2)
  obtain j where j: "kbd_getchar k = Ret c j" "input_ready j" "pending j = concat ws' @ rest" "modifiers (keys j) = modifiers (keys k)"
    using getchar_arrives [OF Cons.prems(1) w(2)] Cons.prems(3) w(1) by auto
  have all: "list_all2 (arrives (keys j) At_test) ws' (cs @ [CHR 0x0A])"
    using w(3) arrives_modifiers [OF _ j(4)] by (auto elim!: list_all2_mono)
  have go: "\<exists>m b' k'. readline_loop ok len i b t = Ret (m, b') k' \<and>
      take m b' = foldl (edit1 ok len) (take i b) cs \<and> pending k' = rest \<and> input_ready k'"
    if "t = j \<or> (\<exists>d. t = putc d j)" "i < len" "len \<le> length b" for i b t
  proof (rule Cons.IH)
    show "input_ready t" using that(1) j(2) by (auto simp: input_ready_def) (auto simp: putc_def)
    show "list_all2 (arrives (keys t) At_test) ws' (cs @ [CHR 0x0A])" using that(1) all by (auto simp: putc_def)
    show "pending t = concat ws' @ rest" using that(1) j(3) by (auto simp: putc_def)
  qed (use Cons.prems that in auto)
  have n: "n < length buf" "c \<noteq> CHR 0x0A" using Cons.prems by auto
  note step = readline_loop.simps [of ok len n buf k, unfolded j(1) bnd.simps]
  consider (bs) "c = CHR 0x08" "n > 0" | (ch) "c \<noteq> CHR 0x08" "ok c" "Suc n < len"
    | (no) "c = CHR 0x08 \<longrightarrow> n = 0" "c \<noteq> CHR 0x08 \<longrightarrow> \<not> (ok c \<and> Suc n < len)" by blast
  then show ?case
  proof cases
    case bs
    then have "edit1 ok len (take n buf) c = take (n - 1) buf"
      using n by (simp add: edit1_def butlast_take)
    then show ?thesis
      using go [of "putc CHR 0x08 j" "n - 1" buf] Cons.prems(5,6) n bs less_imp_diff_less [of n len 1]
      by (auto simp: step)
  next
    case ch
    then have "edit1 ok len (take n buf) c = take (Suc n) (buf[n := c])"
      using n by (simp add: edit1_def take_Suc_conv_app_nth less_diff_conv)
    then show ?thesis
      using go [of "putc c j" "Suc n" "buf[n := c]"] Cons.prems(5,6) n ch
      by (auto simp: step less_diff_conv)
  next
    case no
    then have "foldl (edit1 ok len) (take n buf) (c # cs) = foldl (edit1 ok len) (take n buf) cs"
      using n by (auto simp: edit1_def)
    then show ?thesis
      using go [of j n buf] Cons.prems(5,6) n no by (auto simp: step less_diff_conv)
  qed
qed

text \<open>C15: typing works. When interrupts are on, the keyboard handler is installed and nothing is
  waiting, a user who presses the keys of some characters and then Enter, one after the other, makes
  \<open>readline\<close> return, with exactly the edited line. Each key may come before a test of the wait loop of
  \<open>kbd_getchar\<close> or while the reader sleeps in its \<open>hlt\<close>, and the release of keys other than Shift may be
  reported at any time; but no second key comes before the first one is read, and, as the relation
  \<open>arrives\<close> states, no key comes between a test that finds nothing and the \<open>hlt\<close>: after such a key the
  reader sleeps on, and \<open>readline\<close> does not return before another interrupt (see \<open>late_key_not_read\<close>).\<close>

theorem readline_returns_typed_line:
  assumes "input_ready k" and "list_all2 (arrives (keys k) At_test) ws (cs @ [CHR 0x0A])"
    and "CHR 0x0A \<notin> set cs" and "pending k = concat ws @ rest"
    and "0 < len" and "len \<le> length buf"
  shows "\<exists>n buf' k'. readline buf len k = Ret (n, buf') k' \<and>
     take n buf' = edit_line (\<lambda>_. True) len cs \<and> pending k' = rest"
  using readline_loop_types [OF assms(1,2,4,3,5,6), of "\<lambda>_. True"]
  by (auto simp: readline_def edit_line_def)

text \<open>The schedule that is left out: the key comes between the test and the \<open>hlt\<close>. The character is in
  the ring, nothing more is typed, and the reader sleeps.\<close>

theorem late_key_not_read:
  assumes "input_ready k" and "keystroke (keys k) b c" and "pending k = [[], b]"
  shows "\<exists>k'. readline buf len k = Stop Blocked k' \<and> kbd_chars (keys k') = [c]"
proof -
  obtain k1 where k1: "press_all [] (k\<lparr>pending := [b]\<rparr>) = Some k1" "input_ready k1" "keys k1 = keys k"
    "\<not> kbd_has_char (keys k1)"
    using kbd_wait_idle [OF assms(1), of "[]" "[b]"] by auto
  obtain k2 where "press_all b (k1\<lparr>pending := []\<rparr>) = Some k2" "kbd_chars (keys k2) = [c]"
    using kbd_wait_key [OF k1(2), of b c "[]"] assms(2) k1(3) by auto
  then have "kbd_getchar k = Stop Blocked (k2\<lparr>pending := []\<rparr>)"
    using k1 assms(3) by (simp add: kbd_getchar_def)
  then show ?thesis
    using \<open>kbd_chars (keys k2) = [c]\<close> unfolding readline_def by (subst readline_loop.simps) simp
qed

section \<open>A booted machine\<close>

definition machine0 :: kernel where
  "machine0 =
     \<lparr>scr = \<lparr>row = 0, col = 0, color = 7, VGA_MEM = \<lambda>_. 0\<rparr>, ios = \<lparr>iolog = [], iodev = pic_dev\<rparr>,
      kcpu = cpu0\<lparr>iflag := True\<rparr>, irqs = (replicate 16 None)[1 := Some Kbd_isr], keys = kbd0, disk = fs0,
      dtab = \<lparr>dirs = (CHR ''/'' # replicate 63 NUL) # replicate 31 (replicate 64 NUL), dir_count = 1, cwd_idx = 0\<rparr>,
      pending = [], junk = replicate 256 NUL\<rparr>"

lemma machine0_ok [simp]: "machine_ok machine0"
  by (simp add: machine_ok_def machine0_def vga_wf_def VGA_HEIGHT_def VGA_WIDTH_def NR_IRQ_def)

lemma machine0_ready: "input_ready (machine0\<lparr>pending := p\<rparr>)"
  by (simp add: input_ready_def) (simp add: machine0_def)

lemma types_kbd0:
  "types kbd0 0x1E CHR ''a''" "types kbd0 0x1C CHR 0x0A" "types kbd0 0x15 CHR ''y''"
  by (simp_all add: types_def isr_puts_def ring_count_def kbd_translate_def kbd0_def
      scancode_normal_def is_lower_def is_upper_def KBD_BUF_SIZE_def)

theorem readline_edits_line_witness:
  "runs (readline (replicate 4 NUL) 4 machine0) (\<lambda>(n, buf') k'. n < 4 \<and> length buf' = 4) (\<lambda>e k'. e = Blocked)"
  using readline_edits_line [of machine0 4 "replicate 4 NUL"] by (auto elim!: runs_mono)

lemma keystroke_kbd0:
  "keystroke kbd0 [0x1E] CHR ''a''" "keystroke kbd0 [0x9E, 0x1C] CHR 0x0A"
  using types_kbd0 by (simp_all add: keystroke_def idle_def)

text \<open>The key a wakes the reader; then it is released and Enter is pressed before the next test.\<close>

theorem readline_returns_typed_line_witness:
  "\<exists>n buf' k'. readline (replicate 4 NUL) 4 (machine0\<lparr>pending := [[], [], [], [0x1E], [], [0x9E, 0x1C]]\<rparr>) = Ret (n, buf') k' \<and>
     take n buf' = ''a''"
proof -
  define k where "k = machine0\<lparr>pending := [[], [], [], [0x1E], [], [0x9E, 0x1C]]\<rparr>"
  have keys: "keys k = kbd0" by (simp add: k_def machine0_def)
  have "arrives kbd0 At_test [[], [], [], [0x1E], []] CHR ''a''" "arrives kbd0 At_test [[0x9E, 0x1C]] CHR 0x0A"
    by (auto intro!: arrives.intros keystroke_kbd0)
  then have "list_all2 (arrives (keys k) At_test) [[[], [], [], [0x1E], []], [[0x9E, 0x1C]]] (''a'' @ [CHR 0x0A])"
    by (simp add: keys)
  moreover have "pending k = concat [[[], [], [], [0x1E], []], [[0x9E, 0x1C]]] @ []" by (simp add: k_def)
  moreover have "input_ready k" using machine0_ready by (simp add: k_def)
  ultimately show ?thesis
    using readline_returns_typed_line [of k _ "''a''" "[]" 4 "replicate 4 NUL"]
    by (fastforce simp: edit_line_def edit1_def k_def [symmetric])
qed

theorem irq_dispatch_acknowledges_witness:
  "\<exists>k'. irq_dispatch 1 machine0 = Some k' \<and> iolog (ios k') = [(PIC1_CMD, PIC_EOI)]"
proof -
  have "iolog (ios machine0) = []" by (simp add: machine0_def)
  then show ?thesis using irq_dispatch_acknowledges [of machine0 1] by (auto simp: word_le_nat_alt)
qed

end
