(* ===== verification/Fsops.thy ===== *)
theory Fsops
  imports Machine
begin

text \<open>
  The operations of \<open>src/src/fs.c\<close>, whole: argument checks, messages, keyboard input and the
  changes of the disk, in the order of the source. A name is \<open>None\<close> for the null pointer. The
  static buffer of an operation is taken from the disk state when its loop starts and put back
  when the loop ends; nothing else refers to it in between.
\<close>

section \<open>Helpers\<close>

text \<open>A message in red between two colour changes, and one in green.\<close>

definition complain :: "vcall list \<Rightarrow> kernel \<Rightarrow> (unit, kernel) outcome" where
  "complain cs = say (Col VGA_LIGHT_RED VGA_BLACK # cs @ [Col VGA_WHITE VGA_BLACK])"

definition confirm :: "vcall list \<Rightarrow> kernel \<Rightarrow> (unit, kernel) outcome" where
  "confirm cs = say (Col VGA_LIGHT_GREEN VGA_BLACK # cs @ [Col VGA_WHITE VGA_BLACK])"

definition upd_entry :: "nat \<Rightarrow> (file_entry \<Rightarrow> file_entry) \<Rightarrow> fsys \<Rightarrow> fsys" where
  "upd_entry idx f s = s\<lparr>files := (files s)[idx := f (files s ! idx)]\<rparr>"

definition on_disk :: "(fsys \<Rightarrow> fsys) \<Rightarrow> kernel \<Rightarrow> kernel" where
  "on_disk f k = k\<lparr>disk := f (disk k)\<rparr>"

text \<open>The condition \<open>!name || kstrlen(name) == 0\<close>.\<close>

fun no_name :: "cptr option \<Rightarrow> bool option" where
  "no_name None = Some True"
| "no_name (Some p) = map_option (\<lambda>n. n = 0) (kstrlen p)"

text \<open>Freeing the chain of an entry: \<open>free_chain(files[idx].first_block)\<close>.\<close>

definition free_file :: "nat \<Rightarrow> fsys \<Rightarrow> fsys option" where
  "free_file idx s = map_option (\<lambda>f. s\<lparr>fat := f\<rparr>) (free_chain (first_block (files s ! idx)) (fat s))"

lemma chk_Ret_iff: "chk x k = Ret a k' \<longleftrightarrow> x = Some a \<and> k' = k"
  by (cases x) auto

lemma say_input: "say cs k = Ret u k' \<Longrightarrow> input_left k' = input_left k"
  by (auto simp: say_def split: option.splits)

lemma readline_loop_input:
  "readline_loop ok len n buf k = Ret r k' \<Longrightarrow> input_left k' < input_left k"
proof (induction "input_left k" arbitrary: n buf k rule: less_induct)
  case less
  obtain c j where c: "kbd_getchar k = Ret c j"
    using less.prems by (subst (asm) readline_loop.simps) (auto simp: bnd_Ret_iff)
  then have dec: "input_left j < input_left k" using kbd_getchar_input by auto
  have more: "input_left k' < input_left k"
    if "readline_loop ok len m b t = Ret r k'" "input_left t = input_left j" for m b t
    using less.hyps [of t m b] that dec by simp
  show ?case
    using less.prems dec unfolding readline_loop.simps [of ok len n buf k] c bnd.simps
    by (auto split: if_splits intro: more)
qed

text \<open>The input loop of \<open>fs_write\<close> and of \<open>fs_edit\<close>.\<close>

function collect_lines :: "cptr \<Rightarrow> nat \<Rightarrow> cptr \<Rightarrow> kernel \<Rightarrow> (cptr \<times> nat, kernel) outcome" where
  "collect_lines tmp tot line k =
     bnd (say [Wr (lit ''  > '')] k) (\<lambda>_ k.
     bnd (readline line 256 k) (\<lambda>r k.
     bnd (chk (trim_line (snd r)) k) (\<lambda>line k.
     bnd (chk (kstrcmp line (lit ''.'')) k) (\<lambda>cmp k.
       if cmp = 0 then Ret (tmp, tot) k
       else
         bnd (chk (kstrlen line) k) (\<lambda>line_len k.
           if tot + line_len + 1 \<le> length tmp then
             bnd (chk (memcpy_at tmp tot line line_len) k) (\<lambda>tmp k.
             bnd (chk (poke (tot + line_len) CHR 0x0A tmp) k) (\<lambda>tmp k.
               collect_lines tmp (tot + line_len + 1) line k))
           else collect_lines tmp tot line k)))))"
  by pat_completeness auto
termination
  by (relation "measure (\<lambda>(tmp, tot, line, k). input_left k)")
    (auto simp: chk_Ret_iff readline_def dest!: say_input readline_loop_input)

declare collect_lines.simps [simp del]

text \<open>\<open>(tot == 0) ? FAT_END : write_to_blocks(tmp, tot)\<close>.\<close>

definition save_bytes :: "cptr \<Rightarrow> nat \<Rightarrow> fsys \<Rightarrow> (16 word \<times> fsys) option" where
  "save_bytes tmp tot s = (if tot = 0 then Some (FAT_END, s) else write_to_blocks tmp tot s)"

section \<open>fs\_write\<close>

text \<open>From the input loop on, with the entry \<open>idx\<close> already cleared or claimed.\<close>

definition fs_write_data :: "nat \<Rightarrow> cptr \<Rightarrow> kernel \<Rightarrow> (unit, kernel) outcome" where
  "fs_write_data idx name k =
     bnd (say [Col VGA_WHITE VGA_BLACK,
               Ln (lit ''  Enter content. Type a single '.' on a new line to finish:'')] k) (\<lambda>_ k.
     bnd (collect_lines (tmp_write (disk k)) 0 (junk k) k) (\<lambda>(tmp, tot) k.
     let k = on_disk (tmp_write_update (\<lambda>_. tmp)) k in
     bnd (chk (save_bytes tmp tot (disk k)) k) (\<lambda>(first, s) k.
     let k = k\<lparr>disk := s\<rparr> in
       if unat first = FS_N_BLOCKS then
         bnd (complain [Ln (lit ''  [fwrite] Error: disk full -- not enough free blocks'')] k) (\<lambda>_ k.
           Ret () (on_disk (upd_entry idx (\<lambda>e. e\<lparr>used := False\<rparr>)) k))
       else
         confirm [Wr (lit (''  [fwrite] '' @ [CHR 0x27])), Wr name, Ln (lit (CHR 0x27 # '' written successfully.''))]
           (on_disk (upd_entry idx (\<lambda>e. e\<lparr>first_block := first, fe_size := tot\<rparr>)) k))))"

definition claim_entry :: "cptr \<Rightarrow> cptr \<Rightarrow> file_entry \<Rightarrow> file_entry option" where
  "claim_entry name dir e = do {
     n \<leftarrow> kstrncpy (fe_name e) name FS_NAME_LEN;
     d \<leftarrow> kstrncpy (fe_dir e) dir FS_DIR_LEN;
     Some (e\<lparr>fe_name := n, fe_dir := d\<rparr>)
   }"

definition fs_write :: "cptr option \<Rightarrow> cptr \<Rightarrow> kernel \<Rightarrow> (unit, kernel) outcome" where
  "fs_write name dir k =
     bnd (chk (no_name name) k) (\<lambda>missing k.
     if missing then complain [Ln (lit ''  [fwrite] Error: usage: fwrite <filename>'')] k
     else let name = the name in
     bnd (chk (find_file name dir (disk k)) k) (\<lambda>idx k.
     if idx < FS_MAX_FILES then
       bnd (chk (free_file idx (disk k)) k) (\<lambda>s k.
         fs_write_data idx name
           (k\<lparr>disk := upd_entry idx (\<lambda>e. e\<lparr>first_block := FAT_END, fe_size := 0\<rparr>) s\<rparr>))
     else
       let idx = find_free_slot (disk k) in
       if idx = FS_MAX_FILES then
         complain [Ln (lit ''  [fwrite] Error: directory is full (max 32 files)'')] k
       else
         bnd (chk (claim_entry name dir (files (disk k) ! idx)) k) (\<lambda>e k.
           fs_write_data idx name (on_disk (upd_entry idx (\<lambda>_. e\<lparr>used := True\<rparr>)) k))))"

section \<open>fs\_read\<close>

definition show_bytes :: "cptr \<Rightarrow> vcall list" where
  "show_bytes cs = concat (map (\<lambda>c. Ch c # (if c = CHR 0x0A then [Wr (lit ''  '')] else [])) cs)"

function read_loop :: "16 word \<Rightarrow> nat \<Rightarrow> kernel \<Rightarrow> (unit, kernel) outcome" where
  "read_loop blk left k =
     (if unat blk < FS_N_BLOCKS \<and> left > 0 then
        (let chunk = (if left < FS_BLOCK_SIZE then left else FS_BLOCK_SIZE)
         in bnd (say (show_bytes (take chunk (blocks (disk k) ! unat blk))) k) (\<lambda>_ k.
              read_loop (fat (disk k) ! unat blk) (left - chunk) k))
      else Ret () k)"
  by pat_completeness auto
termination
  by (relation "measure (\<lambda>(b, left, k). left)") (auto simp: FS_BLOCK_SIZE_def)

declare read_loop.simps [simp del]

definition fs_read :: "cptr option \<Rightarrow> cptr \<Rightarrow> kernel \<Rightarrow> (unit, kernel) outcome" where
  "fs_read name dir k =
     bnd (chk (no_name name) k) (\<lambda>missing k.
     if missing then complain [Ln (lit ''  [fread] Error: usage: fread <filename>'')] k
     else let name = the name in
     bnd (chk (find_file name dir (disk k)) k) (\<lambda>idx k.
     if idx = FS_MAX_FILES then
       complain [Wr (lit ''  [fread] Error: file not found: ''), Ln name] k
     else
       bnd (say [Col VGA_LIGHT_CYAN VGA_BLACK, Wr (lit ''  ---- ''), Wr name, Ln (lit '' ----''),
                 Col VGA_WHITE VGA_BLACK] k) (\<lambda>_ k.
       let blk = first_block (files (disk k) ! idx); left = fe_size (files (disk k) ! idx) in
       bnd (if blk = FAT_END \<or> left = 0 then say [Ln (lit ''  (empty file)'')] k
            else
              bnd (say [Wr (lit ''  '')] k) (\<lambda>_ k.
              bnd (read_loop blk left k) (\<lambda>_ k.
              say [Ch CHR 0x0A] k))) (\<lambda>_ k.
       say [Col VGA_LIGHT_CYAN VGA_BLACK, Ln (lit ''  ---- EOF ----''), Col VGA_WHITE VGA_BLACK] k))))"

section \<open>fs\_edit\<close>

definition fs_edit :: "cptr option \<Rightarrow> cptr \<Rightarrow> kernel \<Rightarrow> (unit, kernel) outcome" where
  "fs_edit name dir k =
     bnd (chk (no_name name) k) (\<lambda>missing k.
     if missing then complain [Ln (lit ''  [fedit] Error: usage: fedit <filename>'')] k
     else let name = the name in
     bnd (chk (find_file name dir (disk k)) k) (\<lambda>idx k.
     if idx = FS_MAX_FILES then
       complain [Wr (lit ''  [fedit] Error: file not found: ''), Ln name,
                 Ln (lit ''  Use fwrite to create it first.'')] k
     else
       let e = files (disk k) ! idx in
       bnd (chk (load_loop (first_block e) (fe_size e) 0 (tmp_edit (disk k)) (disk k)) k) (\<lambda>tmp k.
       bnd (say [Col VGA_WHITE VGA_BLACK, Wr (lit (''  Appending to '' @ [CHR 0x27])), Wr name,
                 Ln (lit (CHR 0x27 # ''. Type '.' to finish:''))] k) (\<lambda>_ k.
       bnd (collect_lines tmp (fe_size e) (junk k) k) (\<lambda>(tmp, tot) k.
       let k = on_disk (tmp_edit_update (\<lambda>_. tmp)) k in
       bnd (chk (free_file idx (disk k)) k) (\<lambda>s k.
       bnd (chk (save_bytes tmp tot s) k) (\<lambda>(first, s) k.
       let k = k\<lparr>disk := s\<rparr> in
         if unat first = FS_N_BLOCKS then
           bnd (complain [Ln (lit ''  [fedit] Error: disk full'')] k) (\<lambda>_ k.
             Ret () (on_disk (upd_entry idx (\<lambda>e. e\<lparr>first_block := FAT_END, fe_size := 0\<rparr>)) k))
         else
           confirm [Wr (lit (''  [fedit] '' @ [CHR 0x27])), Wr name, Ln (lit (CHR 0x27 # '' updated successfully.''))]
             (on_disk (upd_entry idx (\<lambda>e. e\<lparr>first_block := first, fe_size := tot\<rparr>)) k))))))))"

section \<open>fs\_delete\<close>

definition drop_entry :: "file_entry \<Rightarrow> file_entry option" where
  "drop_entry e = do {
     n \<leftarrow> poke 0 NUL (fe_name e);
     Some (e\<lparr>used := False, fe_size := 0, first_block := FAT_END, fe_name := n\<rparr>)
   }"

definition fs_delete :: "cptr option \<Rightarrow> cptr \<Rightarrow> kernel \<Rightarrow> (unit, kernel) outcome" where
  "fs_delete name dir k =
     bnd (chk (no_name name) k) (\<lambda>missing k.
     if missing then complain [Ln (lit ''  [fdel] Error: usage: fdel <filename>'')] k
     else let name = the name in
     bnd (chk (find_file name dir (disk k)) k) (\<lambda>idx k.
     if idx = FS_MAX_FILES then
       complain [Wr (lit ''  [fdel] Error: file not found: ''), Ln name] k
     else
       bnd (say [Wr (lit (''  Delete '' @ [CHR 0x27])), Wr name, Wr (lit (CHR 0x27 # ''? (y/n): ''))] k) (\<lambda>_ k.
       bnd (readline (take 4 (junk k)) 4 k) (\<lambda>r k.
       bnd (chk (peek (snd r) 0) k) (\<lambda>c k.
       if c \<noteq> CHR ''y'' \<and> c \<noteq> CHR ''Y'' then say [Ln (lit ''  [fdel] Cancelled.'')] k
       else
         bnd (chk (free_file idx (disk k)) k) (\<lambda>s k.
         bnd (chk (drop_entry (files s ! idx)) k) (\<lambda>e k.
         confirm [Wr (lit (''  [fdel] '' @ [CHR 0x27])), Wr name, Ln (lit (CHR 0x27 # '' deleted.''))]
           (k\<lparr>disk := upd_entry idx (\<lambda>_. e) s\<rparr>))))))))"

section \<open>fs\_rename\<close>

definition fs_rename :: "cptr option \<Rightarrow> cptr option \<Rightarrow> cptr \<Rightarrow> kernel \<Rightarrow> (unit, kernel) outcome" where
  "fs_rename oldname newname dir k =
     bnd (if oldname = None \<or> newname = None then Ret True k
          else bnd (chk (no_name oldname) k) (\<lambda>a k. if a then Ret True k else chk (no_name newname) k))
       (\<lambda>missing k.
     if missing then complain [Ln (lit ''  [rename] Error: usage: rename <old> <new>'')] k
     else let oldname = the oldname; newname = the newname in
     bnd (chk (find_file oldname dir (disk k)) k) (\<lambda>idx k.
     if idx = FS_MAX_FILES then
       complain [Wr (lit ''  [rename] Error: file not found: ''), Ln oldname] k
     else
       bnd (chk (find_file newname dir (disk k)) k) (\<lambda>j k.
       if j < FS_MAX_FILES then
         complain [Wr (lit (''  [rename] Error: '' @ [CHR 0x27])), Wr newname, Ln (lit (CHR 0x27 # '' already exists''))] k
       else
         bnd (chk (kstrncpy (fe_name (files (disk k) ! idx)) newname FS_NAME_LEN) k) (\<lambda>n k.
         confirm [Wr (lit (''  [rename] '' @ [CHR 0x27])), Wr oldname, Wr (lit (CHR 0x27 # '' -> '' @ [CHR 0x27])), Wr newname, Ln (lit [CHR 0x27])]
           (on_disk (upd_entry idx (\<lambda>e. e\<lparr>fe_name := n\<rparr>)) k)))))"

section \<open>fs\_copy\<close>

definition fs_copy :: "cptr option \<Rightarrow> cptr option \<Rightarrow> cptr \<Rightarrow> kernel \<Rightarrow> (unit, kernel) outcome" where
  "fs_copy src dst dir k =
     bnd (if src = None \<or> dst = None then Ret True k
          else bnd (chk (no_name src) k) (\<lambda>a k. if a then Ret True k else chk (no_name dst) k))
       (\<lambda>missing k.
     if missing then complain [Ln (lit ''  [copy] Error: usage: copy <source> <destination>'')] k
     else let src = the src; dst = the dst in
     bnd (chk (find_file src dir (disk k)) k) (\<lambda>sidx k.
     if sidx = FS_MAX_FILES then
       complain [Wr (lit ''  [copy] Error: source not found: ''), Ln src] k
     else
       bnd (chk (find_file dst dir (disk k)) k) (\<lambda>j k.
       if j < FS_MAX_FILES then
         complain [Wr (lit ''  [copy] Error: destination already exists: ''), Ln dst] k
       else
         let didx = find_free_slot (disk k) in
         if didx = FS_MAX_FILES then complain [Ln (lit ''  [copy] Error: directory full'')] k
         else
           let e = files (disk k) ! sidx in
           bnd (chk (load_loop (first_block e) (fe_size e) 0 (tmp_copy (disk k)) (disk k)) k) (\<lambda>tmp k.
           let k = on_disk (tmp_copy_update (\<lambda>_. tmp)) k in
           bnd (chk (save_bytes tmp (fe_size e) (disk k)) k) (\<lambda>(first, s) k.
           let k = k\<lparr>disk := s\<rparr> in
             if unat first = FS_N_BLOCKS then complain [Ln (lit ''  [copy] Error: disk full'')] k
             else
               bnd (chk (claim_entry dst dir (files (disk k) ! didx)) k) (\<lambda>d k.
               confirm [Wr (lit (''  [copy] '' @ [CHR 0x27])), Wr src, Wr (lit (CHR 0x27 # '' -> '' @ [CHR 0x27])), Wr dst, Ln (lit [CHR 0x27])]
                 (on_disk (upd_entry didx (\<lambda>_. d\<lparr>first_block := first, fe_size := fe_size e, used := True\<rparr>))
                    k)))))))"

section \<open>fs\_list and fs\_dir\_empty\<close>

fun list_loop :: "cptr \<Rightarrow> file_entry list \<Rightarrow> nat \<Rightarrow> kernel \<Rightarrow> (nat, kernel) outcome" where
  "list_loop dir [] count k = Ret count k"
| "list_loop dir (e # es) count k =
     (if \<not> used e then list_loop dir es count k
      else
        bnd (chk (kstrcmp (fe_dir e) dir) k) (\<lambda>r k.
          if r \<noteq> 0 then list_loop dir es count k
          else
            bnd (say [Wr (lit ''  ''), Wr (fe_name e), Wr (lit ''  (''), Dec (of_nat (fe_size e)),
                      Ln (lit '' bytes)'')] k) (\<lambda>_ k.
              list_loop dir es (count + 1) k)))"

definition fs_list :: "cptr \<Rightarrow> kernel \<Rightarrow> (unit, kernel) outcome" where
  "fs_list dir k =
     bnd (list_loop dir (files (disk k)) 0 k) (\<lambda>count k.
       if count = 0 then say [Ln (lit ''  (no files in this directory)'')] k else Ret () k)"

fun dir_empty_from :: "cptr \<Rightarrow> file_entry list \<Rightarrow> bool option" where
  "dir_empty_from dir [] = Some True"
| "dir_empty_from dir (e # es) =
     (if used e
      then do { r \<leftarrow> kstrcmp (fe_dir e) dir; if r = 0 then Some False else dir_empty_from dir es }
      else dir_empty_from dir es)"

definition fs_dir_empty :: "cptr \<Rightarrow> fsys \<Rightarrow> bool option" where
  "fs_dir_empty dir s = dir_empty_from dir (files s)"

end
