(* ===== verification/Fsteps.thy ===== *)
theory Fsteps
  imports Fsops
begin

text \<open>
  The disk-changing steps of the file operations as transformations of the abstract file system:
  clearing an entry, claiming one, storing bytes under it, dropping it and renaming it.
\<close>

section \<open>Looking things up\<close>

lemma fs_wf_strings: "fs_wf s \<Longrightarrow> list_all entry_strings (files s)"
  using fs_wf_used fs_wf_shape fs_shape_files
  by (fastforce simp: list_all_length entry_strings_def file_ok_def)

lemma find_file_cases:
  assumes "fs_wf s" and "terminated name" and "terminated dir"
  obtains (found) i where "i < FS_MAX_FILES" "find_file name dir s = Some i" "used (files s ! i)"
      "entry_key (files s ! i) = (cstr name, cstr dir)"
      "fs_abs s (cstr name, cstr dir) = Some (content s (files s ! i))"
  | (absent) "find_file name dir s = Some FS_MAX_FILES" "fs_abs s (cstr name, cstr dir) = None"
proof -
  define P where "P = (\<lambda>e. used e \<and> entry_key e = (cstr name, cstr dir))"
  have len: "length (files s) = FS_MAX_FILES" using assms(1) fs_wf_shape fs_shape_files by blast
  have eq: "find_file name dir s = Some (length (takeWhile (\<lambda>e. \<not> P e) (files s)))"
    using find_from_eq [OF fs_wf_strings [OF assms(1)] assms(2,3), of 0]
    by (simp add: find_file_def P_def)
  from takeWhile_first [of "files s" P] show thesis
  proof
    assume "\<exists>i < length (files s). length (takeWhile (\<lambda>x. \<not> P x) (files s)) = i \<and> P (files s ! i)"
    then show thesis
      using eq len found fs_abs_iff [OF assms(1)] by (auto simp: P_def)
  next
    assume "length (takeWhile (\<lambda>x. \<not> P x) (files s)) = length (files s) \<and> (\<forall>i < length (files s). \<not> P (files s ! i))"
    then show thesis
      using eq len absent fs_abs_None [OF assms(1)] by (auto simp: P_def)
  qed
qed

lemma find_free_slot_cases:
  obtains (free) "find_free_slot s < FS_MAX_FILES" "\<not> used (files s ! find_free_slot s)"
  | (full) "find_free_slot s = FS_MAX_FILES" "\<forall>i < FS_MAX_FILES. used (files s ! i)"
proof (cases "find (\<lambda>i. \<not> used (files s ! i)) [0..<FS_MAX_FILES]")
  case None
  then have "find_free_slot s = FS_MAX_FILES" by (simp add: find_free_slot_def)
  with None full show thesis by (auto simp: find_None_iff)
next
  case (Some i)
  then have "i < FS_MAX_FILES" "\<not> used (files s ! i)" by (auto simp: find_Some_iff)
  with Some free show thesis by (simp add: find_free_slot_def)
qed

section \<open>Claiming an entry\<close>

definition fits_name :: "cptr \<Rightarrow> bool" where
  "fits_name p \<longleftrightarrow> terminated p \<and> length (cstr p) < FS_NAME_LEN"

lemma copied_name:
  assumes "fits_name p" and "length d = FS_NAME_LEN"
  shows "\<exists>q. kstrncpy d p FS_NAME_LEN = Some q \<and> length q = FS_NAME_LEN \<and> terminated q \<and> cstr q = cstr p"
proof -
  define q where "q = cstr p @ replicate (FS_NAME_LEN - length (cstr p)) NUL"
  have n: "FS_NAME_LEN - length (cstr p) = Suc (FS_NAME_LEN - length (cstr p) - 1)"
    using assms(1) by (auto simp: fits_name_def)
  have "kstrncpy d p FS_NAME_LEN = Some q"
    using kstrncpy_eq [of FS_NAME_LEN d p] assms by (simp add: fits_name_def q_def min_def)
  moreover have "length q = FS_NAME_LEN" "terminated q" "cstr q = cstr p"
    using assms(1) n by (auto simp: q_def fits_name_def)
  ultimately show ?thesis by blast
qed

lemma DIR_LEN_eq: "FS_DIR_LEN = FS_NAME_LEN"
  by (simp add: FS_DIR_LEN_def FS_NAME_LEN_def)

lemma claim_entry_ok:
  assumes "fits_name name" and "fits_name dir"
    and "length (fe_name e) = FS_NAME_LEN" and "length (fe_dir e) = FS_DIR_LEN"
  shows "\<exists>n d. claim_entry name dir e = Some (e\<lparr>fe_name := n, fe_dir := d\<rparr>) \<and>
    length n = FS_NAME_LEN \<and> length d = FS_DIR_LEN \<and> terminated n \<and> terminated d \<and>
    cstr n = cstr name \<and> cstr d = cstr dir"
proof -
  obtain n where "kstrncpy (fe_name e) name FS_NAME_LEN = Some n" "length n = FS_NAME_LEN"
    "terminated n" "cstr n = cstr name"
    using copied_name [OF assms(1,3)] by blast
  moreover obtain d where "kstrncpy (fe_dir e) dir FS_DIR_LEN = Some d" "length d = FS_DIR_LEN"
    "terminated d" "cstr d = cstr dir"
    using copied_name [OF assms(2)] assms(4) unfolding DIR_LEN_eq by blast
  ultimately show ?thesis by (intro exI [of _ n] exI [of _ d]) (simp add: claim_entry_def)
qed

section \<open>Steps\<close>

lemma fs_shape_entry:
  "fs_shape s \<Longrightarrow> i < FS_MAX_FILES \<Longrightarrow>
   length (fe_name (files s ! i)) = FS_NAME_LEN \<and> length (fe_dir (files s ! i)) = FS_DIR_LEN"
  by (simp add: fs_shape_def list_all_length)

lemma fs_shape_upd:
  "fs_shape s \<Longrightarrow> length (fe_name e) = FS_NAME_LEN \<Longrightarrow> length (fe_dir e) = FS_DIR_LEN \<Longrightarrow>
   fs_shape (s\<lparr>files := (files s)[idx := e]\<rparr>)"
  by (auto simp: fs_shape_def list_all_length nth_list_update_cases)

lemma upd_entry_sel [simp]:
  "fat (upd_entry i f s) = fat s" "blocks (upd_entry i f s) = blocks s"
  "tmp_write (upd_entry i f s) = tmp_write s" "tmp_edit (upd_entry i f s) = tmp_edit s"
  "tmp_copy (upd_entry i f s) = tmp_copy s"
  "files (upd_entry i f s) = (files s)[i := f (files s ! i)]"
  by (simp_all add: upd_entry_def)

text \<open>An entry without data: it has no blocks and the empty content.\<close>

definition empty_entry :: "file_entry \<Rightarrow> bool" where
  "empty_entry e \<longleftrightarrow> first_block e = FAT_END \<and> fe_size e = 0"

lemma empty_entry_blocks: "empty_entry e \<Longrightarrow> blocks_of s e = [] \<and> content s e = []"
  using walk_chain [of "fat s" FAT_END "[]" FS_N_BLOCKS]
  by (simp add: empty_entry_def blocks_of_def content_def chain_bytes_def)

lemma empty_entry_ok:
  "empty_entry e \<Longrightarrow> terminated (fe_name e) \<Longrightarrow> terminated (fe_dir e) \<Longrightarrow> file_ok s e"
  using empty_entry_blocks [of e s] by (simp add: file_ok_def empty_entry_def)

text \<open>Room for a file under a key: the free blocks and those the old file of that key gives back. A chain
  that starts at block 0 gives nothing back: \<open>free_chain\<close> takes the block number 0 for no chain.\<close>

definition reclaimed :: "fsys \<Rightarrow> string \<times> string \<Rightarrow> nat" where
  "reclaimed s key =
     (case find (\<lambda>e. used e \<and> entry_key e = key) (files s) of
        None \<Rightarrow> 0
      | Some e \<Rightarrow> if first_block e = 0 then 0 else length (blocks_of s e))"

definition room :: "fsys \<Rightarrow> string \<times> string \<Rightarrow> nat" where
  "room s key = length (free_blocks (fat s)) + reclaimed s key"

lemma find_key:
  assumes "fs_wf s" and "idx < FS_MAX_FILES" and "used (files s ! idx)"
  shows "find (\<lambda>e. used e \<and> entry_key e = entry_key (files s ! idx)) (files s) = Some (files s ! idx)"
proof -
  have "length (files s) = FS_MAX_FILES" using assms(1) fs_wf_shape fs_shape_files by blast
  moreover have "i = idx" if "i < FS_MAX_FILES" "used (files s ! i)" "entry_key (files s ! i) = entry_key (files s ! idx)" for i
    using fs_wf_apart [OF assms(1) that(1) assms(2) _ that(2) assms(3)] that(3) by (auto simp: apart_def)
  ultimately show ?thesis
    using assms unfolding find_Some_iff
    by (intro exI [of _ idx]) (auto, metis less_irrefl less_trans)
qed

lemma freed_room:
  assumes "fs_wf s" and "idx < FS_MAX_FILES" and "used (files s ! idx)" and "freed s idx f"
  shows "length (free_blocks f) = room s (entry_key (files s ! idx))"
proof -
  define bs where "bs = blocks_of s (files s ! idx)"
  have ok: "chain (fat s) (first_block (files s ! idx)) bs" "sorted_wrt (<) bs"
    using fs_wf_used [OF assms(1-3)] by (simp_all add: bs_def file_ok_def)
  have d: "distinct (free_blocks g)" for g by (simp add: free_blocks_def)
  have "set (free_blocks (fat s)) \<inter> set bs = {}"
    using chain_bound [OF ok(1)] by (auto simp: set_free_blocks)
  moreover have "distinct bs" using ok(2) by (simp add: strict_sorted_iff)
  ultimately have "card (set (free_blocks f)) = card (set (free_blocks (fat s))) +
      (if first_block (files s ! idx) = 0 then 0 else length bs)"
    unfolding freed_free_blocks [OF assms] bs_def [symmetric]
    by (simp add: card_Un_disjoint distinct_card)
  then show ?thesis
    using find_key [OF assms(1-3)] d by (simp add: room_def reclaimed_def distinct_card bs_def)
qed

text \<open>Replacing the entry \<open>idx\<close> by one with the same key and another content.\<close>

lemma without_same_key:
  "used (files s ! idx) \<Longrightarrow> entry_key e' = entry_key (files s ! idx) \<Longrightarrow>
   (without s idx)(entry_key e' \<mapsto> c) = (fs_abs s)(entry_key e' \<mapsto> c)"
  by (simp add: without_def)

lemma other_keys:
  assumes "fs_wf s" and "idx < FS_MAX_FILES" and "used (files s ! idx)"
    and "entry_key e' = entry_key (files s ! idx)"
  shows "\<forall>i < FS_MAX_FILES. i \<noteq> idx \<longrightarrow> used (files s ! i) \<longrightarrow> entry_key (files s ! i) \<noteq> entry_key e'"
  using fs_wf_apart [OF assms(1) _ assms(2) _ _ assms(3)] assms(4) by (auto simp: apart_def)

text \<open>\<open>free_chain\<close> on an entry's chain, and the entry cleared as in \<open>fs_write\<close>.\<close>

definition cleared :: "file_entry \<Rightarrow> file_entry" where
  "cleared e = e\<lparr>first_block := FAT_END, fe_size := 0\<rparr>"

lemma cleared_simps [simp]:
  "empty_entry (cleared e)" "used (cleared e) = used e" "entry_key (cleared e) = entry_key e"
  "fe_name (cleared e) = fe_name e" "fe_dir (cleared e) = fe_dir e"
  by (simp_all add: cleared_def empty_entry_def entry_key_def)

lemma free_file_ok:
  assumes "fs_wf s" and "idx < FS_MAX_FILES" and "used (files s ! idx)"
  shows "\<exists>f. free_file idx s = Some (s\<lparr>fat := f\<rparr>) \<and> freed s idx f \<and> length f = FS_N_BLOCKS"
  using free_entry_chain [OF assms] by (auto simp: free_file_def freed_def)

lemma freed_replace:
  assumes "fs_wf s" and "idx < FS_MAX_FILES" and "used (files s ! idx)" and "freed s idx f"
    and "empty_entry e'" and "length (fe_name e') = FS_NAME_LEN" and "length (fe_dir e') = FS_DIR_LEN"
    and "used e' \<Longrightarrow> terminated (fe_name e') \<and> terminated (fe_dir e') \<and> entry_key e' = entry_key (files s ! idx)"
  shows "fs_wf (s\<lparr>fat := f, files := (files s)[idx := e']\<rparr>)"
    and "fs_abs (s\<lparr>fat := f, files := (files s)[idx := e']\<rparr>) =
      (if used e' then (fs_abs s)(entry_key e' \<mapsto> []) else (fs_abs s)(entry_key (files s ! idx) := None))"
proof -
  define s2 where "s2 = s\<lparr>fat := f, files := (files s)[idx := e']\<rparr>"
  have shape: "fs_shape s2"
    using fs_shape_upd [of "s\<lparr>fat := f\<rparr>" e' idx] fs_wf_shape [OF assms(1)] assms(4,6,7)
    by (simp add: s2_def fs_shape_def freed_def)
  have kept: "untouched (owned_by_others s idx) s s2"
    using assms(4) by (auto simp: untouched_def freed_def s2_def)
  have fits: "entry_fits s s2 idx e'"
    using assms empty_entry_ok [OF assms(5)] empty_entry_blocks [OF assms(5)] other_keys [OF assms(1-3)]
    by (auto simp: entry_fits_def empty_entry_def)
  from replace_entry [OF assms(1) shape assms(2) _ kept fits]
  show "fs_wf (s\<lparr>fat := f, files := (files s)[idx := e']\<rparr>)"
    and "fs_abs (s\<lparr>fat := f, files := (files s)[idx := e']\<rparr>) =
      (if used e' then (fs_abs s)(entry_key e' \<mapsto> []) else (fs_abs s)(entry_key (files s ! idx) := None))"
    using without_same_key [OF assms(3)] empty_entry_blocks [OF assms(5)] assms(3,8)
    by (auto simp: s2_def without_def)
qed

text \<open>Claiming an unused entry for a key that is not in use.\<close>

lemma claim_step:
  assumes "fs_wf s" and "idx < FS_MAX_FILES" and "\<not> used (files s ! idx)"
    and "e' = (files s ! idx)\<lparr>fe_name := n, fe_dir := d, used := True\<rparr>"
    and "length n = FS_NAME_LEN" and "length d = FS_DIR_LEN" and "terminated n" and "terminated d"
    and "fs_abs s (cstr n, cstr d) = None"
  shows "fs_wf (s\<lparr>files := (files s)[idx := e']\<rparr>)"
    and "fs_abs (s\<lparr>files := (files s)[idx := e']\<rparr>) = (fs_abs s)((cstr n, cstr d) \<mapsto> [])"
    and "empty_entry e'" and "used e'" and "entry_key e' = (cstr n, cstr d)"
proof -
  show empty: "empty_entry e'" and used: "used e'" and key: "entry_key e' = (cstr n, cstr d)"
    using fs_wf_unused [OF assms(1-3)] by (simp_all add: assms(4) empty_entry_def entry_key_def)
  define s2 where "s2 = s\<lparr>files := (files s)[idx := e']\<rparr>"
  have shape: "fs_shape s2"
    unfolding s2_def by (rule fs_shape_upd [OF fs_wf_shape [OF assms(1)]]) (simp_all add: assms(4-6))
  have ok: "file_ok s2 e'" by (rule empty_entry_ok [OF empty]) (simp_all add: assms(4,7,8))
  have kept: "untouched (owned_by_others s idx) s s2" by (simp add: untouched_def s2_def)
  have fits: "entry_fits s s2 idx e'"
    using used ok empty_entry_blocks [OF empty, of s2] assms(9) fs_abs_None [OF assms(1)] key
    by (simp add: entry_fits_def)
  from replace_entry [OF assms(1) shape assms(2) _ kept fits]
  show "fs_wf (s\<lparr>files := (files s)[idx := e']\<rparr>)"
    and "fs_abs (s\<lparr>files := (files s)[idx := e']\<rparr>) = (fs_abs s)((cstr n, cstr d) \<mapsto> [])"
    using empty_entry_blocks [OF empty, of s2] assms(3) used key by (simp_all add: s2_def without_def)
qed

text \<open>Storing bytes does not depend on the file entries.\<close>

lemma save_bytes_files:
  assumes "fs_shape s" and "fs_shape (s\<lparr>files := fl\<rparr>)" and "n \<le> length data"
  shows "save_bytes data n (s\<lparr>files := fl\<rparr>) =
    map_option (\<lambda>(first, s1). (first, s1\<lparr>files := fl\<rparr>)) (save_bytes data n s)"
  using write_loop_eq [OF assms(1), of FAT_END 0 n data FAT_END]
    write_loop_eq [OF assms(2), of FAT_END 0 n data FAT_END] assms(3)
  by (simp add: save_bytes_def write_to_blocks_def tail_ok_def Let_def)

lemma save_bytes_ok:
  assumes "fs_shape s" and "n \<le> length data"
  shows "\<exists>first s1. save_bytes data n s = Some (first, s1) \<and> wrote data n s first s1"
proof (cases "n = 0")
  case True
  with assms show ?thesis by (simp add: save_bytes_def wrote_def chain_bytes_def)
next
  case False
  then show ?thesis using write_to_blocks_ok [OF assms] by (simp add: save_bytes_def)
qed

text \<open>Storing bytes and pointing an empty entry at them, or giving up when the disk is full.\<close>

lemma wrote_first:
  assumes "wrote data n s first s1"
  shows "unat first = FS_N_BLOCKS \<longleftrightarrow> \<not> n_blocks n \<le> length (free_blocks (fat s))"
proof (cases "n_blocks n \<le> length (free_blocks (fat s))")
  case True
  then obtain bs where "chain (fat s1) first bs" using assms by (auto simp: wrote_def)
  then have "unat first \<noteq> FS_N_BLOCKS" by (cases bs) (auto simp: FS_N_BLOCKS_def)
  with True show ?thesis by simp
qed (use assms in \<open>simp add: wrote_def\<close>)

lemma save_step:
  assumes wf: "fs_wf s" and idx: "idx < FS_MAX_FILES" and u: "used (files s ! idx)"
    and e: "empty_entry (files s ! idx)" and w: "wrote data n s first s1"
    and room: "n_blocks n \<le> length (free_blocks (fat s))"
  defines "s2 \<equiv> upd_entry idx (\<lambda>e. e\<lparr>first_block := first, fe_size := n\<rparr>) s1"
  shows "fs_wf s2" and "fs_abs s2 = (fs_abs s)(entry_key (files s ! idx) \<mapsto> take n data)"
proof -
  obtain bs where bs: "bs = take (n_blocks n) (free_blocks (fat s))" "chain (fat s1) first bs"
    "sorted_wrt (<) bs" "length bs = n_blocks n" "chain_bytes (blocks s1) bs n = take n data"
    using w room by (auto simp: wrote_def)
  have files: "files s1 = files s" and shape1: "fs_shape s1" using w by (auto simp: wrote_def)
  define e' where "e' = (files s ! idx)\<lparr>first_block := first, fe_size := n\<rparr>"
  have s2: "s2 = s1\<lparr>files := (files s)[idx := e']\<rparr>" by (simp add: s2_def upd_entry_def files e'_def)
  have shape: "fs_shape s2"
    using fs_shape_upd [OF shape1, of e' idx] fs_shape_entry [OF fs_wf_shape [OF wf] idx]
    by (simp add: s2 files e'_def)
  have "walk FS_N_BLOCKS (fat s1) first = bs" using walk_chain [OF bs(2) chain_length [OF bs(2,3)]] .
  then have blks: "blocks_of s2 e' = bs" by (simp add: blocks_of_def s2 e'_def)
  have key: "entry_key e' = entry_key (files s ! idx)" and used: "used e'"
    using u by (simp_all add: e'_def entry_key_def)
  have ok: "file_ok s2 e'"
    using fs_wf_used [OF wf idx u] bs blks by (simp add: file_ok_def) (simp add: e'_def s2)
  have kept: "untouched (owned_by_others s idx) s s2"
    using write_untouched [OF wf w] by (simp add: untouched_def s2)
  have "set bs \<inter> owned_by_others s idx = {}"
    using owned_not_free [OF wf] set_take_subset [of "n_blocks n" "free_blocks (fat s)"] bs(1) by auto
  then have fits: "entry_fits s s2 idx e'"
    using used ok blks other_keys [OF wf idx u key] by (simp add: entry_fits_def)
  have cont: "content s2 e' = take n data"
    using bs(5) by (simp add: content_def blks) (simp add: s2 e'_def)
  from replace_entry [OF wf shape idx _ kept fits]
  show "fs_wf s2" and "fs_abs s2 = (fs_abs s)(entry_key (files s ! idx) \<mapsto> take n data)"
    using used key cont u by (simp_all add: s2 without_def)
qed

text \<open>A write that found too few blocks changes no file, whatever then happens to the entry.\<close>

lemma full_step:
  assumes wf: "fs_wf s" and idx: "idx < FS_MAX_FILES" and w: "wrote data n s first s1"
    and e: "empty_entry (files s ! idx)"
  shows "fs_wf s1" and "fs_abs s1 = fs_abs s"
    and "used (files s ! idx) \<Longrightarrow> fs_wf (upd_entry idx (\<lambda>e. e\<lparr>used := False\<rparr>) s1)"
    and "used (files s ! idx) \<Longrightarrow> fs_abs (upd_entry idx (\<lambda>e. e\<lparr>used := False\<rparr>) s1) =
      (fs_abs s)(entry_key (files s ! idx) := None)"
proof -
  have files: "files s1 = files s" and shape1: "fs_shape s1" using w by (auto simp: wrote_def)
  have len: "length (files s) = FS_MAX_FILES" using wf fs_wf_shape fs_shape_files by blast
  have kept: "untouched (owned_by_others s idx) s s'" if "fat s' = fat s1" "blocks s' = blocks s1" for s'
    using write_untouched [OF wf w] that by (simp add: untouched_def)
  have "entry_fits s s1 idx (files s ! idx)"
    using fs_wf_used [OF wf idx] empty_entry_ok [OF e] empty_entry_blocks [OF e] other_keys [OF wf idx]
      fs_wf_unused [OF wf idx]
    by (simp add: entry_fits_def file_ok_def)
  moreover have "(fs_abs s)(entry_key (files s ! idx) \<mapsto> []) = fs_abs s" if "used (files s ! idx)"
    using fs_abs_iff [OF wf, of "entry_key (files s ! idx)" "[]"] empty_entry_blocks [OF e, of s] idx that
    by (intro fun_upd_idem) blast
  ultimately show "fs_wf s1" and "fs_abs s1 = fs_abs s"
    using replace_entry [OF wf shape1 idx _ kept, of "files s ! idx"] empty_entry_blocks [OF e]
    by (auto simp: files without_def)
  define e' where "e' = (files s ! idx)\<lparr>used := False\<rparr>"
  define s2 where "s2 = upd_entry idx (\<lambda>e. e\<lparr>used := False\<rparr>) s1"
  assume u: "used (files s ! idx)"
  have "fs_shape s2"
    using fs_shape_upd [OF shape1, of e' idx] fs_shape_entry [OF fs_wf_shape [OF wf] idx]
    by (simp add: s2_def upd_entry_def files e'_def)
  moreover have "entry_fits s s2 idx e'" using e by (simp add: entry_fits_def e'_def empty_entry_def)
  ultimately show "fs_wf (upd_entry idx (\<lambda>e. e\<lparr>used := False\<rparr>) s1)"
    and "fs_abs (upd_entry idx (\<lambda>e. e\<lparr>used := False\<rparr>) s1) = (fs_abs s)(entry_key (files s ! idx) := None)"
    using replace_entry [OF wf _ idx _ kept, of s2 e'] u
    by (simp_all add: s2_def files e'_def without_def)
qed

end
