(* ===== verification/Fsinput.thy ===== *)
theory Fsinput
  imports Fsteps
begin

text \<open>
  What the input loop of \<open>fs_write\<close> and \<open>fs_edit\<close> collects: the trimmed lines the user types before
  a line that is a single dot, each with a newline, as long as they fit the buffer.
\<close>

section \<open>Lines\<close>

lemma cstr_cut: "cstr (xs @ NUL # ys) = cstr xs"
  by (induction xs) auto

lemma cstr_take_NUL: "n < length b \<Longrightarrow> b ! n = NUL \<Longrightarrow> cstr b = cstr (take n b)"
  using cstr_cut [of "take n b" "drop (Suc n) b"] id_take_nth_drop [of n b] by simp

text \<open>The line \<open>readline\<close> leaves in a buffer of \<open>len\<close> bytes for the characters \<open>cs\<close>.\<close>

definition entered :: "nat \<Rightarrow> string \<Rightarrow> string" where
  "entered len cs = cstr (edit_line (\<lambda>_. True) len cs)"

definition line_post :: "nat \<Rightarrow> kernel \<Rightarrow> nat \<times> cptr \<Rightarrow> kernel \<Rightarrow> bool" where
  "line_post len k r k' \<longleftrightarrow>
     io_only k k' \<and> input_left k' < input_left k \<and> length (snd r) = len \<and>
     terminated (snd r) \<and>
     (\<exists>cs. gets k (cs @ [CHR 0x0A]) k' \<and> CHR 0x0A \<notin> set cs \<and> cstr (snd r) = entered len cs)"

lemma readline_line:
  assumes "machine_ok k" and "length buf = len" and "0 < len"
  shows "runs (readline buf len k) (line_post len k) (blocked k)"
proof (cases "readline buf len k")
  case (Ret r k')
  then have eq: "readline_loop (\<lambda>_. True) len 0 buf k = Ret (fst r, snd r) k'" by (simp add: readline_def)
  have "line_read len buf k r k'"
    using readline_loop_ok [OF assms(1,3), of buf "\<lambda>_. True"] eq assms(2) by simp
  moreover obtain cs where "gets k (cs @ [CHR 0x0A]) k'" "CHR 0x0A \<notin> set cs"
    "take (fst r) (snd r) = edit_line (\<lambda>_. True) len cs"
    using readline_loop_edits [OF eq assms(3)] assms(2) by (auto simp: edit_line_def)
  ultimately show ?thesis
    using Ret assms(2) readline_loop_input [OF eq] cstr_take_NUL [of "fst r" "snd r"]
    by (auto simp: line_post_def line_read_def entered_def)
next
  case (Stop e k')
  then show ?thesis
    using readline_loop_ok [OF assms(1,3), of buf "\<lambda>_. True"] assms(2) by (simp add: readline_def)
qed

section \<open>The loop\<close>

text \<open>\<open>typed k ls k'\<close>: at the prompt the user types the lines \<open>ls\<close>, blanks at their ends removed,
  and then the line with the dot.\<close>

inductive typed :: "kernel \<Rightarrow> string list \<Rightarrow> kernel \<Rightarrow> bool" where
  typed_dot: "gets (k\<lparr>scr := v\<rparr>) (cs @ [CHR 0x0A]) k' \<Longrightarrow> CHR 0x0A \<notin> set cs \<Longrightarrow>
     rstrip (entered 256 cs) = ''.'' \<Longrightarrow> typed k [] k'"
| typed_line: "gets (k\<lparr>scr := v\<rparr>) (cs @ [CHR 0x0A]) j \<Longrightarrow> CHR 0x0A \<notin> set cs \<Longrightarrow>
     rstrip (entered 256 cs) = l \<Longrightarrow> l \<noteq> ''.'' \<Longrightarrow> typed j ls k' \<Longrightarrow> typed k (l # ls) k'"

definition add_line :: "nat \<Rightarrow> string \<Rightarrow> string \<Rightarrow> string" where
  "add_line cap acc l = (if length acc + length l + 1 \<le> cap then acc @ l @ [CHR 0x0A] else acc)"

definition collected :: "cptr \<Rightarrow> nat \<Rightarrow> kernel \<Rightarrow> cptr \<times> nat \<Rightarrow> kernel \<Rightarrow> bool" where
  "collected tmp tot k r k' \<longleftrightarrow>
     io_only k k' \<and> length (fst r) = length tmp \<and> snd r \<le> length tmp \<and>
     (\<exists>ls. typed k ls k' \<and> take (snd r) (fst r) = foldl (add_line (length tmp)) (take tot tmp) ls)"

lemma append_line:
  assumes "tot \<le> length tmp" and "terminated line" and "tot + length (cstr line) + 1 \<le> length tmp"
  shows "\<exists>t1 t2. memcpy_at tmp tot line (length (cstr line)) = Some t1 \<and>
    poke (tot + length (cstr line)) CHR 0x0A t1 = Some t2 \<and> length t2 = length tmp \<and>
    take (tot + length (cstr line) + 1) t2 = add_line (length tmp) (take tot tmp) (cstr line)"
proof -
  define n where "n = length (cstr line)"
  define t1 where "t1 = take tot tmp @ cstr line @ drop (tot + n) tmp"
  have n: "n < length line" "take n line = cstr line"
    using assms(2) cstr_decomp [OF assms(2)] length_cstr_less [OF assms(2)]
    by (simp_all add: n_def) (metis append_eq_conv_conj)
  have "memcpy_at tmp tot line n = Some t1"
    using memcpy_at_eq [of tot n tmp line] n assms(3) by (simp add: t1_def n_def)
  moreover have len: "length t1 = length tmp" using assms(3) by (simp add: t1_def n_def)
  moreover have "take (Suc (tot + n)) (t1[tot + n := CHR 0x0A]) = take tot tmp @ cstr line @ [CHR 0x0A]"
  proof -
    have "tot + n < length t1" "take (tot + n) t1 = take tot tmp @ cstr line"
      using assms(3) len by (simp_all add: t1_def n_def)
    then show ?thesis by (simp add: take_Suc_conv_app_nth)
  qed
  ultimately show ?thesis
    using assms(1,3) unfolding n_def [symmetric] by (simp add: poke_def add_line_def n_def)
qed

lemma collect_lines_ok:
  assumes "machine_ok k" and "tot \<le> length tmp" and "length line = 256"
  shows "runs (collect_lines tmp tot line k) (collected tmp tot k) (blocked k)"
  using assms
proof (induction "input_left k" arbitrary: tmp tot line k rule: less_induct)
  case less
  show ?case
    unfolding collect_lines.simps [of tmp tot line k]
  proof (rule runs_bnd [OF say_ok [where Q = "\<lambda>_ k1. \<exists>v. k1 = k\<lparr>scr := v\<rparr> \<and> machine_ok k1"]], goal_cases)
    case (4 u k1)
    then obtain v where k1: "k1 = k\<lparr>scr := v\<rparr>" "machine_ok k1" by blast
    have io1: "io_only k k1" "input_left k1 = input_left k" using k1 by (simp_all add: io_only_def)
    show ?case
    proof (rule runs_bnd [OF runs_mono [OF readline_line [OF k1(2) less.prems(3)]]], simp, assumption, goal_cases)
      case (1 e s)
      then show ?case using io1 by (auto simp: blocked_def intro: io_only_trans)
    next
      case (2 r k2)
      then obtain cs where io2: "io_only k k2" "input_left k2 < input_left k"
        and r: "length (snd r) = 256" "terminated (snd r)" "cstr (snd r) = entered 256 cs"
        and cs: "gets (k\<lparr>scr := v\<rparr>) (cs @ [CHR 0x0A]) k2" "CHR 0x0A \<notin> set cs"
        using io1 k1(1) by (auto simp: line_post_def intro: io_only_trans)
      obtain line' where l: "trim_line (snd r) = Some line'" "length line' = 256" "terminated line'"
        "cstr line' = rstrip (entered 256 cs)"
        using trim_line_eq [OF r(2)] r by auto
      obtain c where c: "kstrcmp line' (lit ''.'') = Some c" using kstrcmp_defined [OF l(3) terminated_lit] by blast
      have c0: "c = 0 \<longleftrightarrow> cstr line' = ''.''" using kstrcmp_zero_iff [OF c] by simp
      have more: "runs (collect_lines t2 n2 line' k2) (collected tmp tot k) (blocked k)"
        if t2: "c \<noteq> 0" "n2 \<le> length t2" "length t2 = length tmp"
          "take n2 t2 = add_line (length tmp) (take tot tmp) (cstr line')" for t2 n2
      proof (rule runs_mono [OF less.hyps [OF io2(2) io_only_ok [OF io2(1)] t2(2) l(2)]])
        fix q k3 assume "collected t2 n2 k2 q k3"
        then obtain ls where "typed k2 ls k3" "io_only k2 k3" "length (fst q) = length tmp" "snd q \<le> length tmp"
          "take (snd q) (fst q) = foldl (add_line (length tmp)) (take n2 t2) ls"
          using t2(3) by (auto simp: collected_def)
        then show "collected tmp tot k q k3"
          unfolding collected_def
          using typed_line [OF cs l(4) [symmetric]] t2(1,4) c0 l(4) io_only_trans [OF io2(1)]
          by (intro conjI exI [of _ "cstr line' # ls"]) auto
      qed (auto simp: blocked_def intro: io_only_trans [OF io2(1)])
      show ?case
      proof (cases "c = 0")
        case True
        then show ?thesis
          using l c c0 io2(1) less.prems(2) typed_dot [OF cs]
          by (auto simp: collected_def intro!: exI [of _ "[]"])
      next
        case False
        then show ?thesis
          using l c more [OF False, of "tot" tmp] less.prems(2) append_line [OF less.prems(2) l(3)] more [OF False]
          by (auto simp: kstrlen_eq add_line_def)
      qed
    qed
  qed (use less.prems in auto)
qed

end
