(* ===== verification/Fsprops.thy ===== *)
theory Fsprops
  imports Fsinput
begin

text \<open>
  The operations of \<open>src/src/fs.c\<close> against their specification: an abstract file system is a map from
  (name, directory) to bytes, and each operation, run to its end, is the corresponding update of
  that map, or leaves it alone and reports an error. None of them ever accesses memory outside
  an object, and the disk invariant holds whenever an operation returns or waits for a key.
\<close>

section \<open>Frames\<close>

text \<open>Everything but screen, input, ports and files is unchanged.\<close>

definition files_only :: "kernel \<Rightarrow> kernel \<Rightarrow> bool" where
  "files_only k k' \<longleftrightarrow> machine_ok k' \<and> dtab k' = dtab k \<and> kcpu k' = kcpu k \<and> irqs k' = irqs k \<and> junk k' = junk k"

definition same_input :: "kernel \<Rightarrow> kernel \<Rightarrow> bool" where
  "same_input k k' \<longleftrightarrow>
     keys k' = keys k \<and> ios k' = ios k \<and> pending k' = pending k \<and> kcpu k' = kcpu k \<and> irqs k' = irqs k"

text \<open>The user types the lines \<open>ls\<close> and the dot while the operation runs from \<open>k\<close> to \<open>k'\<close>.\<close>

definition typed_from :: "kernel \<Rightarrow> string list \<Rightarrow> kernel \<Rightarrow> bool" where
  "typed_from k ls k' \<longleftrightarrow> (\<exists>k0 k1. same_input k k0 \<and> typed k0 ls k1 \<and> same_input k1 k')"

lemma files_only_io: "io_only k k' \<Longrightarrow> files_only k k'"
  by (simp add: files_only_def io_only_def)

lemma files_only_trans: "files_only j k \<Longrightarrow> files_only k l \<Longrightarrow> files_only j l"
  by (simp add: files_only_def)

lemma files_only_disk [simp]: "files_only k (k'\<lparr>disk := d\<rparr>) = files_only k k'"
  "files_only (k\<lparr>disk := d\<rparr>) k' = files_only k k'"
  by (simp_all add: files_only_def)

lemma fs_wf_cong:
  assumes "fat s' = fat s" and "files s' = files s" and "fs_shape s'" and "fs_wf s"
  shows "fs_wf s'"
proof -
  have "file_ok s' e = file_ok s e" "apart s' e e' = apart s e e'" for e e'
    by (simp_all add: file_ok_def apart_def blocks_of_def assms(1))
  then show ?thesis using assms by (simp add: fs_wf_def)
qed

lemma fs_wf_tmp [simp]:
  "length t = FS_BYTES \<Longrightarrow> fs_wf s \<Longrightarrow> fs_wf (s\<lparr>tmp_write := t\<rparr>)"
  "length t = FS_BYTES \<Longrightarrow> fs_wf s \<Longrightarrow> fs_wf (s\<lparr>tmp_edit := t\<rparr>)"
  "length t = FS_BYTES \<Longrightarrow> fs_wf s \<Longrightarrow> fs_wf (s\<lparr>tmp_copy := t\<rparr>)"
  by (rule fs_wf_cong; use fs_wf_shape in \<open>auto simp: fs_shape_def\<close>)+

lemma fs_abs_tmp [simp]:
  "fs_abs (s\<lparr>tmp_write := t\<rparr>) = fs_abs s" "fs_abs (s\<lparr>tmp_edit := t\<rparr>) = fs_abs s"
  "fs_abs (s\<lparr>tmp_copy := t\<rparr>) = fs_abs s"
  by (simp_all add: fs_abs_def content_def blocks_of_def)

lemma fs_wf_tmp_length:
  "fs_wf s \<Longrightarrow> length (tmp_write s) = FS_BYTES" "fs_wf s \<Longrightarrow> length (tmp_edit s) = FS_BYTES"
  "fs_wf s \<Longrightarrow> length (tmp_copy s) = FS_BYTES"
  by (auto simp: fs_wf_def fs_shape_def)

section \<open>Messages\<close>

lemma complain_ok:
  "machine_ok k \<Longrightarrow> list_all vcall_ok cs \<Longrightarrow> (\<And>v. machine_ok (k\<lparr>scr := v\<rparr>) \<Longrightarrow> Q () (k\<lparr>scr := v\<rparr>)) \<Longrightarrow>
   runs (complain cs k) Q B"
  unfolding complain_def by (rule say_ok) auto

lemma confirm_ok:
  "machine_ok k \<Longrightarrow> list_all vcall_ok cs \<Longrightarrow> (\<And>v. machine_ok (k\<lparr>scr := v\<rparr>) \<Longrightarrow> Q () (k\<lparr>scr := v\<rparr>)) \<Longrightarrow>
   runs (confirm cs k) Q B"
  unfolding confirm_def by (rule say_ok) auto

lemma runs_chk [simp]: "x = Some a \<Longrightarrow> runs (bnd (chk x k) f) Q B = runs (f a k) Q B"
  by simp

lemma no_name_ok: "fits_name p \<Longrightarrow> no_name (Some p) = Some (cstr p = [])"
  by (simp add: fits_name_def kstrlen_eq)

declare no_name.simps [simp del]

lemma fits_name_terminated [simp]: "fits_name p \<Longrightarrow> terminated p"
  by (simp add: fits_name_def)

section \<open>fs\_write\<close>

definition write_outcome :: "fsys \<Rightarrow> string \<times> string \<Rightarrow> nat \<Rightarrow> cptr \<Rightarrow> fsys \<Rightarrow> bool" where
  "write_outcome s key space c s' \<longleftrightarrow>
     fs_wf s' \<and>
     fs_abs s' = (if n_blocks (length c) \<le> space then (fs_abs s)(key \<mapsto> c) else (fs_abs s)(key := None))"

definition write_post :: "kernel \<Rightarrow> string \<times> string \<Rightarrow> nat \<Rightarrow> kernel \<Rightarrow> bool" where
  "write_post k key space k' \<longleftrightarrow>
     files_only k k' \<and>
     (\<exists>ls. typed_from k ls k' \<and>
        write_outcome (disk k) key space (foldl (add_line FS_BYTES) [] ls) (disk k'))"

lemma save_outcome:
  assumes "fs_wf s" and "idx < FS_MAX_FILES" and "used (files s ! idx)" and "empty_entry (files s ! idx)"
    and "n \<le> length data"
  shows "\<exists>first s1. save_bytes data n s = Some (first, s1) \<and>
    (if unat first = FS_N_BLOCKS
     then \<not> n_blocks n \<le> length (free_blocks (fat s)) \<and>
          write_outcome s (entry_key (files s ! idx)) (length (free_blocks (fat s))) (take n data)
            (upd_entry idx (\<lambda>e. e\<lparr>used := False\<rparr>) s1)
     else n_blocks n \<le> length (free_blocks (fat s)) \<and>
          write_outcome s (entry_key (files s ! idx)) (length (free_blocks (fat s))) (take n data)
            (upd_entry idx (\<lambda>e. e\<lparr>first_block := first, fe_size := n\<rparr>) s1))"
proof -
  obtain first s1 where w: "save_bytes data n s = Some (first, s1)" "wrote data n s first s1"
    using save_bytes_ok [OF fs_wf_shape [OF assms(1)] assms(5)] by blast
  show ?thesis
    using w(1) assms(5) wrote_first [OF w(2)] save_step [OF assms(1-4) w(2)]
      full_step(3,4) [OF assms(1,2) w(2) assms(4,3)]
    by (auto simp: write_outcome_def)
qed

lemma fs_write_data_ok:
  assumes ok: "machine_ok k" "fs_wf (disk k)" and idx: "idx < FS_MAX_FILES" "used (files (disk k) ! idx)"
    "empty_entry (files (disk k) ! idx)" and name: "terminated name"
  shows "runs (fs_write_data idx name k)
    (\<lambda>_. write_post k (entry_key (files (disk k) ! idx)) (length (free_blocks (fat (disk k)))))
    (\<lambda>e k'. e = Blocked \<and> files_only k k' \<and> disk k' = disk k)"
  unfolding fs_write_data_def
proof (rule runs_bnd [OF say_ok [where Q = "\<lambda>_ k1. \<exists>v. k1 = k\<lparr>scr := v\<rparr> \<and> machine_ok k1"]], goal_cases)
  case (4 u k1)
  then obtain v where k1: "k1 = k\<lparr>scr := v\<rparr>" "machine_ok k1" by blast
  have tmp: "length (tmp_write (disk k1)) = FS_BYTES" "length (junk k1) = 256"
    using ok k1 fs_wf_tmp_length by (auto simp: machine_ok_def)
  show ?case
  proof (rule runs_bnd [OF runs_mono [OF collect_lines_ok [OF k1(2) le0 tmp(2)]]], assumption, goal_cases)
    case (1 e k')
    then show ?case using k1 by (auto simp: blocked_def io_only_def files_only_def)
  next
    case (2 r k2)
    obtain tmp tot where r: "r = (tmp, tot)" by fastforce
    define s where "s = (disk k)\<lparr>tmp_write := tmp\<rparr>"
    obtain ls where k2: "io_only k1 k2" "length tmp = FS_BYTES" "tot \<le> FS_BYTES" "typed k1 ls k2"
      "take tot tmp = foldl (add_line FS_BYTES) [] ls"
      using 2 r tmp by (auto simp: collected_def)
    have io: "io_only k k2" using k2(1) k1 by (simp add: io_only_def)
    have s: "fs_wf s" "files s = files (disk k)" "fat s = fat (disk k)" "fs_abs s = fs_abs (disk k)"
      using ok(2) k2(2) by (simp_all add: s_def)
    have typed: "typed_from k ls k'" if "same_input k2 k'" for k'
      using that k2(4) k1 unfolding typed_from_def
      by (intro exI [of _ k1] exI [of _ k2]) (simp add: same_input_def)
    obtain first s1 where w: "save_bytes tmp tot s = Some (first, s1)"
      "if unat first = FS_N_BLOCKS
       then \<not> n_blocks tot \<le> length (free_blocks (fat s)) \<and>
          write_outcome s (entry_key (files s ! idx)) (length (free_blocks (fat s))) (take tot tmp)
            (upd_entry idx (\<lambda>e. e\<lparr>used := False\<rparr>) s1)
       else n_blocks tot \<le> length (free_blocks (fat s)) \<and>
          write_outcome s (entry_key (files s ! idx)) (length (free_blocks (fat s))) (take tot tmp)
            (upd_entry idx (\<lambda>e. e\<lparr>first_block := first, fe_size := tot\<rparr>) s1)"
      using save_outcome [OF s(1) idx(1), of tot tmp] idx k2(2,3) s(2) by auto
    have k3: "on_disk (tmp_write_update (\<lambda>_. tmp)) k2 = k2\<lparr>disk := s\<rparr>"
      using io by (simp add: on_disk_def s_def io_only_def)
    have len: "length (take tot tmp) = tot" using k2(2,3) by simp
    have post: "write_post k (entry_key (files (disk k) ! idx)) (length (free_blocks (fat (disk k)))) k'"
      if "files_only k k'" "same_input k2 k'"
        "write_outcome s (entry_key (files s ! idx)) (length (free_blocks (fat s))) (take tot tmp) (disk k')" for k'
      using that typed k2(5) s unfolding write_post_def write_outcome_def by auto
    have "machine_ok k2" using k2(1) by (rule io_only_ok)
    then show ?case
      unfolding r prod.case Let_def k3 using w io name
      by (auto simp: runs_bnd_iff on_disk_def files_only_def same_input_def io_only_def
          intro!: complain_ok confirm_ok post)
  qed
qed (use ok in auto)

text \<open>Continuing from a state whose disk has the entry of the key emptied.\<close>

lemma typed_from_disk [simp]: "typed_from (k\<lparr>disk := s\<rparr>) ls k' = typed_from k ls k'"
  by (simp add: typed_from_def same_input_def)

lemma write_post_emptied:
  assumes "fs_abs s = (fs_abs (disk k))(key \<mapsto> [])" and "write_post (k\<lparr>disk := s\<rparr>) key space k'"
  shows "write_post k key space k'"
proof -
  have "write_outcome s key space c s' = write_outcome (disk k) key space c s'" for c s'
    using assms(1) by (simp add: write_outcome_def)
  then show ?thesis using assms(2) by (simp add: write_post_def)
qed

lemma reclaimed_absent: "fs_wf s \<Longrightarrow> fs_abs s key = None \<Longrightarrow> reclaimed s key = 0"
  using fs_wf_shape fs_shape_files
  by (fastforce simp: reclaimed_def fs_abs_None in_set_conv_nth find_None_iff2 dest: find_None_iff2 [THEN iffD2]
      split: option.splits simp: find_Some_iff)

definition entry_limit :: "fsys \<Rightarrow> string \<times> string \<Rightarrow> bool" where
  "entry_limit s key \<longleftrightarrow> fs_abs s key = None \<and> (\<forall>i < FS_MAX_FILES. used (files s ! i))"

definition blocked_with :: "kernel \<Rightarrow> (string \<times> string \<Rightarrow> cptr option) \<Rightarrow> stop \<Rightarrow> kernel \<Rightarrow> bool" where
  "blocked_with k m e k' \<longleftrightarrow> e = Blocked \<and> files_only k k' \<and> fs_wf (disk k') \<and> fs_abs (disk k') = m"

lemma fs_write_from_emptied:
  assumes "machine_ok k" and "fs_wf s" and "fs_abs s = (fs_abs (disk k))(key \<mapsto> [])"
    and "idx < FS_MAX_FILES" and "used (files s ! idx)" and "empty_entry (files s ! idx)"
    and "entry_key (files s ! idx) = key" and "length (free_blocks (fat s)) = space" and "terminated name"
  shows "runs (fs_write_data idx name (k\<lparr>disk := s\<rparr>)) (\<lambda>_. write_post k key space)
    (blocked_with k ((fs_abs (disk k))(key \<mapsto> [])))"
proof (rule runs_mono [OF fs_write_data_ok [of "k\<lparr>disk := s\<rparr>" idx name]])
  show "write_post k key space k'"
    if "write_post (k\<lparr>disk := s\<rparr>) (entry_key (files (disk (k\<lparr>disk := s\<rparr>)) ! idx))
      (length (free_blocks (fat (disk (k\<lparr>disk := s\<rparr>))))) k'" for k'
    using that assms(7,8) write_post_emptied [OF assms(3)] by simp
qed (use assms in \<open>simp_all add: blocked_with_def\<close>)

lemma fs_write_ok:
  assumes ok: "machine_ok k" "fs_wf (disk k)" and name: "fits_name name" "cstr name \<noteq> []" and dir: "fits_name dir"
  defines "key \<equiv> (cstr name, cstr dir)"
  shows "runs (fs_write (Some name) dir k)
    (\<lambda>_ k'. if entry_limit (disk k) key then io_only k k' else write_post k key (room (disk k) key) k')
    (blocked_with k ((fs_abs (disk k))(key \<mapsto> [])))"
proof (rule find_file_cases [OF ok(2), of name dir])
  fix i
  assume i: "i < FS_MAX_FILES" "find_file name dir (disk k) = Some i" "used (files (disk k) ! i)"
    "entry_key (files (disk k) ! i) = (cstr name, cstr dir)"
    "fs_abs (disk k) (cstr name, cstr dir) = Some (content (disk k) (files (disk k) ! i))"
  obtain f where f: "free_file i (disk k) = Some ((disk k)\<lparr>fat := f\<rparr>)" "freed (disk k) i f"
    using free_file_ok [OF ok(2) i(1,3)] by blast
  define e where "e = cleared (files (disk k) ! i)"
  define s where "s = (disk k)\<lparr>fat := f, files := (files (disk k))[i := e]\<rparr>"
  have s: "upd_entry i (\<lambda>e. e\<lparr>first_block := FAT_END, fe_size := 0\<rparr>) ((disk k)\<lparr>fat := f\<rparr>) = s"
    by (simp add: upd_entry_def s_def e_def cleared_def)
  have e: "empty_entry e" "used e" "entry_key e = key" "length (fe_name e) = FS_NAME_LEN" "length (fe_dir e) = FS_DIR_LEN"
    "terminated (fe_name e)" "terminated (fe_dir e)"
    using i fs_shape_entry [OF fs_wf_shape [OF ok(2)] i(1)] fs_wf_used [OF ok(2) i(1,3)]
    by (simp_all add: e_def key_def file_ok_def)
  have "fs_wf s" "fs_abs s = (fs_abs (disk k))(key \<mapsto> [])"
    using freed_replace [OF ok(2) i(1,3) f(2) e(1,4,5)] e i(4) by (auto simp: s_def key_def)
  moreover have "files s ! i = e" "length (free_blocks (fat s)) = room (disk k) key"
    using i(1) freed_room [OF ok(2) i(1,3) f(2)] i(4) fs_shape_files [OF fs_wf_shape [OF ok(2)]]
    by (simp_all add: s_def key_def)
  ultimately have "runs (fs_write_data i name (k\<lparr>disk := s\<rparr>)) (\<lambda>_. write_post k key (room (disk k) key))
    (blocked_with k ((fs_abs (disk k))(key \<mapsto> [])))"
    using e i(1) name by (intro fs_write_from_emptied [OF ok(1)]) auto
  then show ?thesis
    using i name by (simp add: fs_write_def no_name_ok f(1) s entry_limit_def key_def)
next
  assume absent: "find_file name dir (disk k) = Some FS_MAX_FILES" "fs_abs (disk k) (cstr name, cstr dir) = None"
  show ?thesis
  proof (rule find_free_slot_cases [of "disk k"])
    assume "find_free_slot (disk k) = FS_MAX_FILES" "\<forall>i < FS_MAX_FILES. used (files (disk k) ! i)"
    then show ?thesis
      using absent ok name unfolding fs_write_def
      by (auto simp: no_name_ok entry_limit_def key_def io_only_def intro!: complain_ok)
  next
    define i where "i = find_free_slot (disk k)"
    assume "find_free_slot (disk k) < FS_MAX_FILES" "\<not> used (files (disk k) ! find_free_slot (disk k))"
    then have i: "i < FS_MAX_FILES" "\<not> used (files (disk k) ! i)" by (simp_all add: i_def)
    obtain n d where nd: "claim_entry name dir (files (disk k) ! i) = Some ((files (disk k) ! i)\<lparr>fe_name := n, fe_dir := d\<rparr>)"
      "length n = FS_NAME_LEN" "length d = FS_DIR_LEN" "terminated n" "terminated d" "cstr n = cstr name" "cstr d = cstr dir"
      using claim_entry_ok [OF name(1) dir] fs_shape_entry [OF fs_wf_shape [OF ok(2)] i(1)] by blast
    define e where "e = (files (disk k) ! i)\<lparr>fe_name := n, fe_dir := d, used := True\<rparr>"
    define s where "s = (disk k)\<lparr>files := (files (disk k))[i := e]\<rparr>"
    have s: "on_disk (upd_entry i (\<lambda>_. e)) k = k\<lparr>disk := s\<rparr>" by (simp add: on_disk_def upd_entry_def s_def)
    have "fs_wf s" "fs_abs s = (fs_abs (disk k))(key \<mapsto> [])" "empty_entry e" "used e" "entry_key e = key"
      using claim_step [OF ok(2) i e_def nd(2-5)] absent(2) nd(6,7) by (simp_all add: s_def key_def)
    moreover have "files s ! i = e" using i(1) fs_shape_files [OF fs_wf_shape [OF ok(2)]] by (simp add: s_def)
    moreover have "length (free_blocks (fat s)) = room (disk k) key"
      using reclaimed_absent [OF ok(2) absent(2)] by (simp add: room_def s_def key_def)
    ultimately have "runs (fs_write_data i name (k\<lparr>disk := s\<rparr>)) (\<lambda>_. write_post k key (room (disk k) key))
      (blocked_with k ((fs_abs (disk k))(key \<mapsto> [])))"
      using i(1) name by (intro fs_write_from_emptied [OF ok(1)]) auto
    moreover have "\<not> entry_limit (disk k) key" using i by (auto simp: entry_limit_def)
    ultimately show ?thesis
      using i name absent unfolding fs_write_def
      by (simp add: no_name_ok i_def [symmetric] nd(1) e_def [symmetric] s)
  qed
qed (use name dir in auto)

text \<open>C6: \<open>fs_write\<close>, given a non-empty name and a directory that fit their fields, never accesses
  memory out of bounds. If it returns, the user typed some lines and then the dot, and the file
  now holds exactly those lines, trimmed, a newline after each, as far as they fit in 256 KB; or
  the disk had too few blocks, the free ones and those reclaimed from the old version together, and the
  file is gone (nothing is reclaimed when the old version's chain starts at block 0, which \<open>free_chain\<close>
  takes for no chain, so the file can be lost although all its blocks together would do); or all 32 entries were in use and nothing has changed. All other files are as before, and
  the invariant of the disk holds then as well as while the operation waits for a key.\<close>

theorem fs_write_correct:
  assumes "machine_ok k" and "fs_wf (disk k)" and "fits_name name" and "cstr name \<noteq> []" and "fits_name dir"
    and "key = (cstr name, cstr dir)"
  shows "runs (fs_write (Some name) dir k)
     (\<lambda>_ k'. if fs_abs (disk k) key = None \<and> (\<forall>i < FS_MAX_FILES. used (files (disk k) ! i))
        then disk k' = disk k
        else fs_wf (disk k') \<and>
          (\<exists>ls c. typed_from k ls k' \<and> c = foldl (add_line FS_BYTES) [] ls \<and>
             fs_abs (disk k') = (if n_blocks (length c) \<le> room (disk k) key
                                 then (fs_abs (disk k))(key \<mapsto> c) else (fs_abs (disk k))(key := None))))
     (\<lambda>e k'. e = Blocked \<and> fs_wf (disk k') \<and> fs_abs (disk k') = (fs_abs (disk k))(key \<mapsto> []))"
proof (rule runs_mono [OF fs_write_ok [OF assms(1-5), folded assms(6)]])
  fix u k'
  assume post: "if entry_limit (disk k) key then io_only k k' else write_post k key (room (disk k) key) k'"
  show "if fs_abs (disk k) key = None \<and> (\<forall>i < FS_MAX_FILES. used (files (disk k) ! i))
        then disk k' = disk k
        else fs_wf (disk k') \<and>
          (\<exists>ls c. typed_from k ls k' \<and> c = foldl (add_line FS_BYTES) [] ls \<and>
             fs_abs (disk k') = (if n_blocks (length c) \<le> room (disk k) key
                                 then (fs_abs (disk k))(key \<mapsto> c) else (fs_abs (disk k))(key := None)))"
  proof (cases "entry_limit (disk k) key")
    case True
    then show ?thesis using post by (simp add: entry_limit_def io_only_def)
  next
    case False
    with post obtain ls where "typed_from k ls k'"
      "write_outcome (disk k) key (room (disk k) key) (foldl (add_line FS_BYTES) [] ls) (disk k')"
      by (auto simp: write_post_def)
    then show ?thesis
      unfolding entry_limit_def [symmetric] if_not_P [OF False] write_outcome_def by blast
  qed
qed (simp add: blocked_with_def)

theorem fs_write_correct_witness:
  "runs (fs_write (Some (lit ''notes'')) (lit ''/'') machine0)
     (\<lambda>_ k'. fs_wf (disk k') \<or> disk k' = disk machine0)
     (\<lambda>e k'. e = Blocked \<and> fs_abs (disk k') = [(''notes'', ''/'') \<mapsto> []])"
proof -
  have "fs_wf (disk machine0)" "fs_abs (disk machine0) = Map.empty"
    using fs0_wf by (simp_all add: machine0_def fs_abs_def fs0_def blank_entry_def)
  moreover have "fits_name (lit ''notes'')" "fits_name (lit ''/'')"
    by (simp_all add: fits_name_def FS_NAME_LEN_def)
  ultimately show ?thesis
    by (intro runs_mono [OF fs_write_correct [OF machine0_ok _ _ _ _ refl]]) (auto split: if_splits)
qed

end
