(* ===== verification/Fsmore.thy ===== *)
theory Fsmore
  imports Fsprops
begin

text \<open>
  The remaining operations of \<open>src/src/fs.c\<close> against the abstract file system: append, delete,
  rename, copy, show and list.
\<close>

section \<open>fs\_edit\<close>

lemma load_file:
  assumes "fs_wf s" and "i < FS_MAX_FILES" and "used (files s ! i)" and "length buf = FS_BYTES"
  shows "load_loop (first_block (files s ! i)) (fe_size (files s ! i)) 0 buf s =
      Some (content s (files s ! i) @ drop (fe_size (files s ! i)) buf)"
    and "length (content s (files s ! i)) = fe_size (files s ! i)"
    and "fe_size (files s ! i) \<le> FS_BYTES"
proof -
  define e where "e = files s ! i"
  have ok: "chain (fat s) (first_block e) (blocks_of s e)" "sorted_wrt (<) (blocks_of s e)"
    "length (blocks_of s e) = n_blocks (fe_size e)"
    using fs_wf_used [OF assms(1-3)] by (simp_all add: e_def file_ok_def)
  have shape: "fs_shape s" using assms(1) by (rule fs_wf_shape)
  have size: "fe_size e \<le> length (blocks_of s e) * FS_BLOCK_SIZE"
    using ok(3) n_blocks_le_iff [of "fe_size e" "n_blocks (fe_size e)"] by simp
  also have "\<dots> \<le> FS_BYTES" using chain_length [OF ok(1,2)] by (simp add: FS_BYTES_def)
  finally show le: "fe_size (files s ! i) \<le> FS_BYTES" by (simp add: e_def)
  show "load_loop (first_block (files s ! i)) (fe_size (files s ! i)) 0 buf s =
      Some (content s (files s ! i) @ drop (fe_size (files s ! i)) buf)"
    using load_loop_eq [OF ok(1) shape size, of 0 buf] le assms(4) by (simp add: content_def e_def)
  have "set (blocks_of s e) \<subseteq> {..<length (blocks s)}"
    using chain_bound [OF ok(1)] shape by (auto simp: fs_shape_def)
  then show "length (content s (files s ! i)) = fe_size (files s ! i)"
    using chain_bytes_length [OF _ _ size] shape by (simp add: content_def e_def fs_shape_def)
qed

lemma room_tmp [simp]:
  "room (s\<lparr>tmp_edit := t\<rparr>) key = room s key" "room (s\<lparr>tmp_copy := t\<rparr>) key = room s key"
  by (auto simp: room_def reclaimed_def blocks_of_def split: option.splits)

text \<open>Freeing the old chain and storing the new bytes, with the entry rewritten only at the end.\<close>

lemma rewrite_file:
  assumes wf: "fs_wf s" and i: "i < FS_MAX_FILES" "used (files s ! i)" and n: "n \<le> length data"
  defines "key \<equiv> entry_key (files s ! i)"
  shows "\<exists>s1 first s2. free_file i s = Some s1 \<and> save_bytes data n s1 = Some (first, s2) \<and>
    (if unat first = FS_N_BLOCKS
     then \<not> n_blocks n \<le> room s key \<and>
       fs_wf (upd_entry i (\<lambda>e. e\<lparr>first_block := FAT_END, fe_size := 0\<rparr>) s2) \<and>
       fs_abs (upd_entry i (\<lambda>e. e\<lparr>first_block := FAT_END, fe_size := 0\<rparr>) s2) = (fs_abs s)(key \<mapsto> [])
     else n_blocks n \<le> room s key \<and>
       fs_wf (upd_entry i (\<lambda>e. e\<lparr>first_block := first, fe_size := n\<rparr>) s2) \<and>
       fs_abs (upd_entry i (\<lambda>e. e\<lparr>first_block := first, fe_size := n\<rparr>) s2) = (fs_abs s)(key \<mapsto> take n data))"
proof -
  obtain f where f: "free_file i s = Some (s\<lparr>fat := f\<rparr>)" "freed s i f" "length f = FS_N_BLOCKS"
    using free_file_ok [OF wf i] by blast
  define e where "e = files s ! i"
  define fl where "fl = (files s)[i := cleared e]"
  define c where "c = s\<lparr>fat := f, files := fl\<rparr>"
  have len: "length (files s) = FS_MAX_FILES" using wf fs_wf_shape fs_shape_files by blast
  have e: "length (fe_name e) = FS_NAME_LEN" "length (fe_dir e) = FS_DIR_LEN" "terminated (fe_name e)" "terminated (fe_dir e)"
    using fs_shape_entry [OF fs_wf_shape [OF wf] i(1)] fs_wf_used [OF wf i] by (simp_all add: e_def file_ok_def)
  have c: "fs_wf c" "fs_abs c = (fs_abs s)(key \<mapsto> [])"
    using freed_replace [OF wf i f(2), of "cleared e"] e i(2) by (simp_all add: c_def fl_def e_def key_def)
  have ci: "files c ! i = cleared e" "length (free_blocks (fat c)) = room s key"
    using i len freed_room [OF wf i f(2)] by (simp_all add: c_def fl_def key_def)
  have shapes: "fs_shape (s\<lparr>fat := f\<rparr>)" "fs_shape (s\<lparr>fat := f, files := fl\<rparr>)"
    using fs_wf_shape [OF wf] f(3) fs_wf_shape [OF c(1)] by (simp_all add: fs_shape_def c_def)
  obtain first s2 where w: "save_bytes data n (s\<lparr>fat := f\<rparr>) = Some (first, s2)" "wrote data n (s\<lparr>fat := f\<rparr>) first s2"
    using save_bytes_ok [OF shapes(1) n] by blast
  have wc: "save_bytes data n c = Some (first, s2\<lparr>files := fl\<rparr>)"
    using save_bytes_files [OF shapes n] w(1) by (simp add: c_def)
  then have wr: "wrote data n c first (s2\<lparr>files := fl\<rparr>)"
    using save_bytes_ok [OF fs_wf_shape [OF c(1)] n] by auto
  have files: "files s2 = files s" using w(2) by (simp add: wrote_def)
  have final: "upd_entry i (\<lambda>e. e\<lparr>first_block := first, fe_size := n\<rparr>) s2 =
      upd_entry i (\<lambda>e. e\<lparr>first_block := first, fe_size := n\<rparr>) (s2\<lparr>files := fl\<rparr>)"
    using len i(1) by (simp add: upd_entry_def files fl_def e_def cleared_def)
  have same: "upd_entry i (\<lambda>e. e\<lparr>first_block := FAT_END, fe_size := 0\<rparr>) s2 = s2\<lparr>files := fl\<rparr>"
    by (simp add: upd_entry_def files fl_def e_def cleared_def)
  show ?thesis
    using f(1) w(1) wrote_first [OF wr] save_step [OF c(1) i(1) _ _ wr] full_step(1,2) [OF c(1) i(1) wr] c(2) ci i(2)
    by (auto simp: final same e_def key_def)
qed

definition edit_post :: "kernel \<Rightarrow> string \<times> string \<Rightarrow> cptr \<Rightarrow> kernel \<Rightarrow> bool" where
  "edit_post k key old k' \<longleftrightarrow>
     files_only k k' \<and> fs_wf (disk k') \<and>
     (\<exists>ls c. typed_from k ls k' \<and> c = foldl (add_line FS_BYTES) old ls \<and>
        fs_abs (disk k') = (fs_abs (disk k))(key \<mapsto> (if n_blocks (length c) \<le> room (disk k) key then c else [])))"

lemma fs_edit_found:
  assumes ok: "machine_ok k" "fs_wf (disk k)" and name: "fits_name name" "cstr name \<noteq> []"
    and i: "find_file name dir (disk k) = Some i" "i < FS_MAX_FILES" "used (files (disk k) ! i)"
  defines "e \<equiv> files (disk k) ! i"
  shows "runs (fs_edit (Some name) dir k) (\<lambda>_. edit_post k (entry_key e) (content (disk k) e))
    (\<lambda>r k'. r = Blocked \<and> files_only k k' \<and> disk k' = disk k)"
proof -
  define buf where "buf = content (disk k) e @ drop (fe_size e) (tmp_edit (disk k))"
  have load: "load_loop (first_block e) (fe_size e) 0 (tmp_edit (disk k)) (disk k) = Some buf"
    and len: "length (content (disk k) e) = fe_size e" "fe_size e \<le> FS_BYTES" "length buf = FS_BYTES"
    using load_file [OF ok(2) i(2,3) fs_wf_tmp_length(2) [OF ok(2)]] fs_wf_tmp_length(2) [OF ok(2)]
    by (simp_all add: e_def buf_def)
  have lt: "i \<noteq> FS_MAX_FILES" using i(2) by simp
  show ?thesis
    unfolding fs_edit_def
  proof (simp add: no_name_ok name i(1) lt e_def [symmetric] load Let_def,
      rule runs_bnd [OF say_ok [where Q = "\<lambda>_ k1. \<exists>v. k1 = k\<lparr>scr := v\<rparr> \<and> machine_ok k1"]], goal_cases)
    case (4 u k1)
    then obtain v where k1: "k1 = k\<lparr>scr := v\<rparr>" "machine_ok k1" by blast
    have junk: "length (junk k1) = 256" and fits: "fe_size e \<le> length buf"
      using k1(2) len by (simp_all add: machine_ok_def)
    show ?case
    proof (rule runs_bnd [OF runs_mono [OF collect_lines_ok [OF k1(2) fits junk]]], assumption, goal_cases)
      case (1 r k')
      then show ?case using k1 by (auto simp: blocked_def io_only_def files_only_def)
    next
      case (2 r k2)
      obtain tmp tot where r: "r = (tmp, tot)" by fastforce
      define s where "s = (disk k)\<lparr>tmp_edit := tmp\<rparr>"
      obtain ls where k2: "io_only k1 k2" "length tmp = FS_BYTES" "tot \<le> FS_BYTES" "typed k1 ls k2"
        "take tot tmp = foldl (add_line FS_BYTES) (content (disk k) e) ls"
        using 2 r len by (auto simp: collected_def buf_def)
      have s: "fs_wf s" "files s = files (disk k)" "fs_abs s = fs_abs (disk k)" "room s key = room (disk k) key" for key
        using ok(2) k2(2) by (simp_all add: s_def)
      obtain s1 first s2 where w: "free_file i s = Some s1" "save_bytes tmp tot s1 = Some (first, s2)"
        "if unat first = FS_N_BLOCKS
         then \<not> n_blocks tot \<le> room s (entry_key e) \<and>
           fs_wf (upd_entry i (\<lambda>e. e\<lparr>first_block := FAT_END, fe_size := 0\<rparr>) s2) \<and>
           fs_abs (upd_entry i (\<lambda>e. e\<lparr>first_block := FAT_END, fe_size := 0\<rparr>) s2) = (fs_abs s)(entry_key e \<mapsto> [])
         else n_blocks tot \<le> room s (entry_key e) \<and>
           fs_wf (upd_entry i (\<lambda>e. e\<lparr>first_block := first, fe_size := tot\<rparr>) s2) \<and>
           fs_abs (upd_entry i (\<lambda>e. e\<lparr>first_block := first, fe_size := tot\<rparr>) s2) = (fs_abs s)(entry_key e \<mapsto> take tot tmp)"
        using rewrite_file [OF s(1) i(2), of tot tmp, unfolded s(2) e_def [symmetric]] i(3) k2(2,3)
        unfolding e_def [symmetric] by auto
      have k3: "on_disk (tmp_edit_update (\<lambda>_. tmp)) k2 = k2\<lparr>disk := s\<rparr>"
        using k2(1) k1 by (simp add: on_disk_def s_def io_only_def)
      have typed: "typed_from k ls k'" if "same_input k2 k'" for k'
        using that k2(4) k1 unfolding typed_from_def
        by (intro exI [of _ k1] exI [of _ k2]) (simp add: same_input_def)
      have tot: "length (foldl (add_line FS_BYTES) (content (disk k) e) ls) = tot"
        using k2(2,3,5) by (metis length_take min_absorb2)
      have post: "edit_post k (entry_key e) (content (disk k) e) k'"
        if "files_only k k'" "same_input k2 k'" "fs_wf (disk k')"
          "fs_abs (disk k') = (fs_abs s)(entry_key e \<mapsto> (if n_blocks tot \<le> room s (entry_key e) then take tot tmp else []))" for k'
        using that typed k2(5) s(3,4) tot unfolding edit_post_def by auto
      have "machine_ok k2" using k2(1) by (rule io_only_ok)
      then show ?case
        unfolding r prod.case k3 using w k2(1) k1 name
        by (auto simp: runs_bnd_iff on_disk_def files_only_def same_input_def io_only_def
            intro!: complain_ok confirm_ok post)
    qed
  qed (use ok name in auto)
qed

lemma fs_edit_ok:
  assumes "machine_ok k" and "fs_wf (disk k)" and "fits_name name" and "cstr name \<noteq> []" and "fits_name dir"
    and "key = (cstr name, cstr dir)"
  shows "runs (fs_edit (Some name) dir k)
     (\<lambda>_ k'. case fs_abs (disk k) key of
        None \<Rightarrow> disk k' = disk k
      | Some old \<Rightarrow> fs_wf (disk k') \<and>
          (\<exists>ls c. typed_from k ls k' \<and> c = foldl (add_line FS_BYTES) old ls \<and>
             fs_abs (disk k') =
               (fs_abs (disk k))(key \<mapsto> (if n_blocks (length c) \<le> room (disk k) key then c else []))))
     (\<lambda>e k'. e = Blocked \<and> disk k' = disk k)"
proof (rule find_file_cases [OF assms(2), of name dir])
  fix i
  assume i: "i < FS_MAX_FILES" "find_file name dir (disk k) = Some i" "used (files (disk k) ! i)"
    "entry_key (files (disk k) ! i) = (cstr name, cstr dir)"
    "fs_abs (disk k) (cstr name, cstr dir) = Some (content (disk k) (files (disk k) ! i))"
  show ?thesis
    unfolding assms(6) i(5) option.case using fs_edit_found [OF assms(1-4) i(2,1,3)]
    unfolding edit_post_def i(4) by (rule runs_mono) blast+
next
  assume "find_file name dir (disk k) = Some FS_MAX_FILES" "fs_abs (disk k) (cstr name, cstr dir) = None"
  then show ?thesis
    using assms by (auto simp: fs_edit_def no_name_ok Let_def intro!: complain_ok)
qed (use assms in auto)

text \<open>C7: \<open>fs_edit\<close>, given a name and directory that fit, never accesses memory out of bounds. On a
  missing file it changes nothing. Otherwise, if it returns, the user typed some lines and the
  dot, and the file holds its old bytes followed by those lines, as far as they fit in 256 KB;
  if the disk has too few blocks for that (free ones and those reclaimed from the old version, none when
  its chain starts at block 0), the file is empty afterwards. All other files are as
  before, and while it waits for input no file has changed at all.\<close>

theorem fs_edit_correct:
  assumes "machine_ok k" and "fs_wf (disk k)" and "fits_name name" and "cstr name \<noteq> []" and "fits_name dir"
    and "key = (cstr name, cstr dir)"
  shows "runs (fs_edit (Some name) dir k)
     (\<lambda>_ k'. case fs_abs (disk k) key of
        None \<Rightarrow> disk k' = disk k
      | Some old \<Rightarrow> fs_wf (disk k') \<and>
          (\<exists>ls c. typed_from k ls k' \<and> c = foldl (add_line FS_BYTES) old ls \<and>
             fs_abs (disk k') =
               (fs_abs (disk k))(key \<mapsto> (if n_blocks (length c) \<le> room (disk k) key then c else []))))
     (\<lambda>e k'. e = Blocked \<and> disk k' = disk k)"
  using assms by (rule fs_edit_ok)

section \<open>fs\_delete\<close>

definition gets_from :: "kernel \<Rightarrow> string \<Rightarrow> kernel \<Rightarrow> bool" where
  "gets_from k cs k' \<longleftrightarrow> (\<exists>k0 k1. same_input k k0 \<and> gets k0 cs k1 \<and> same_input k1 k')"

text \<open>The answer to a y/n question, given as the characters typed before Enter.\<close>

definition answers_yes :: "string \<Rightarrow> bool" where
  "answers_yes cs \<longleftrightarrow> take 1 (entered 4 cs) \<in> {''y'', ''Y''}"

lemma peek_answer:
  assumes "terminated b" and "cstr b = entered 4 cs"
  shows "\<exists>c. peek b 0 = Some c \<and> (c \<noteq> CHR ''y'' \<and> c \<noteq> CHR ''Y'' \<longleftrightarrow> \<not> answers_yes cs)"
  using assms by (cases b) (auto simp: peek_def answers_yes_def assms(2) [symmetric])

definition ask_post :: "kernel \<Rightarrow> nat \<times> cptr \<Rightarrow> kernel \<Rightarrow> bool" where
  "ask_post k r k' \<longleftrightarrow>
     io_only k k' \<and> (\<exists>cs c. gets_from k (cs @ [CHR 0x0A]) k' \<and> CHR 0x0A \<notin> set cs \<and>
       peek (snd r) 0 = Some c \<and> (c \<noteq> CHR ''y'' \<and> c \<noteq> CHR ''Y'' \<longleftrightarrow> \<not> answers_yes cs))"

text \<open>Printing a question and reading the answer into four bytes.\<close>

lemma ask_ok:
  assumes "machine_ok k" and "list_all vcall_ok cs"
  shows "runs (bnd (say cs k) (\<lambda>_ k. readline (take 4 (junk k)) 4 k)) (ask_post k) (blocked k)"
proof (rule runs_bnd [OF say_ok [where Q = "\<lambda>_ k1. \<exists>v. k1 = k\<lparr>scr := v\<rparr> \<and> machine_ok k1"]])
  fix u k1
  assume "\<exists>v. k1 = k\<lparr>scr := v\<rparr> \<and> machine_ok k1"
  then obtain v where k1: "k1 = k\<lparr>scr := v\<rparr>" "machine_ok k1" by blast
  have len: "length (take 4 (junk k1)) = 4" using k1(2) by (simp add: machine_ok_def)
  show "runs (readline (take 4 (junk k1)) 4 k1) (ask_post k) (blocked k)"
  proof (rule runs_mono [OF readline_line [OF k1(2) len]])
    fix r k'
    assume "line_post 4 k1 r k'"
    then obtain cs where io: "io_only k1 k'" and r: "terminated (snd r)" "cstr (snd r) = entered 4 cs"
      and g: "gets k1 (cs @ [CHR 0x0A]) k'" "CHR 0x0A \<notin> set cs"
      by (auto simp: line_post_def)
    have "gets_from k (cs @ [CHR 0x0A]) k'"
      unfolding gets_from_def using g(1) k1(1)
      by (intro exI [of _ k1] exI [of _ k']) (simp add: same_input_def)
    moreover have "io_only k k'" using io k1(1) by (simp add: io_only_def)
    ultimately show "ask_post k r k'"
      unfolding ask_post_def using peek_answer [OF r] g(2) by blast
  qed (use k1 in \<open>auto simp: blocked_def io_only_def\<close>)
qed (use assms in auto)

lemma delete_step:
  assumes wf: "fs_wf s" and i: "i < FS_MAX_FILES" "used (files s ! i)"
  shows "\<exists>s1 e. free_file i s = Some s1 \<and> drop_entry (files s1 ! i) = Some e \<and>
    fs_wf (upd_entry i (\<lambda>_. e) s1) \<and> fs_abs (upd_entry i (\<lambda>_. e) s1) = (fs_abs s)(entry_key (files s ! i) := None)"
proof -
  obtain f where f: "free_file i s = Some (s\<lparr>fat := f\<rparr>)" "freed s i f"
    using free_file_ok [OF wf i] by blast
  have e: "length (fe_name (files s ! i)) = FS_NAME_LEN" "length (fe_dir (files s ! i)) = FS_DIR_LEN"
    using fs_shape_entry [OF fs_wf_shape [OF wf] i(1)] by auto
  then obtain e' where e': "drop_entry (files s ! i) = Some e'" "empty_entry e'" "\<not> used e'"
    "length (fe_name e') = FS_NAME_LEN" "length (fe_dir e') = FS_DIR_LEN"
    by (simp add: drop_entry_def poke_def empty_entry_def FS_NAME_LEN_def)
  show ?thesis
    using f(1) e'(1) freed_replace [OF wf i f(2) e'(2,4,5)] e'(3) by (simp add: upd_entry_def)
qed

lemma fs_delete_ok:
  assumes "machine_ok k" and "fs_wf (disk k)" and "fits_name name" and "cstr name \<noteq> []" and "fits_name dir"
    and "key = (cstr name, cstr dir)"
  shows "runs (fs_delete (Some name) dir k)
     (\<lambda>_ k'. fs_wf (disk k') \<and>
        (if fs_abs (disk k) key = None then disk k' = disk k
         else \<exists>cs. gets_from k (cs @ [CHR 0x0A]) k' \<and> CHR 0x0A \<notin> set cs \<and>
           fs_abs (disk k') = (if answers_yes cs then (fs_abs (disk k))(key := None) else fs_abs (disk k))))
     (\<lambda>e k'. e = Blocked \<and> disk k' = disk k)"
proof (rule find_file_cases [OF assms(2), of name dir])
  fix i
  assume i: "i < FS_MAX_FILES" "find_file name dir (disk k) = Some i" "used (files (disk k) ! i)"
    "entry_key (files (disk k) ! i) = (cstr name, cstr dir)"
    "fs_abs (disk k) (cstr name, cstr dir) = Some (content (disk k) (files (disk k) ! i))"
  obtain s1 e where d: "free_file i (disk k) = Some s1" "drop_entry (files s1 ! i) = Some e"
    "fs_wf (upd_entry i (\<lambda>_. e) s1)" "fs_abs (upd_entry i (\<lambda>_. e) s1) = (fs_abs (disk k))(key := None)"
    using delete_step [OF assms(2) i(1,3)] i(4) assms(6) by auto
  define ask where "ask = [Wr (lit (''  Delete '' @ [CHR 0x27])), Wr name, Wr (lit (CHR 0x27 # ''? (y/n): ''))]"
  have eq: "fs_delete (Some name) dir k =
      bnd (bnd (say ask k) (\<lambda>_ k. readline (take 4 (junk k)) 4 k)) (\<lambda>r k.
       bnd (chk (peek (snd r) 0) k) (\<lambda>c k.
       if c \<noteq> CHR ''y'' \<and> c \<noteq> CHR ''Y'' then say [Ln (lit ''  [fdel] Cancelled.'')] k
       else
         bnd (chk (free_file i (disk k)) k) (\<lambda>s k.
         bnd (chk (drop_entry (files s ! i)) k) (\<lambda>e k.
         confirm [Wr (lit (''  [fdel] '' @ [CHR 0x27])), Wr name, Ln (lit (CHR 0x27 # '' deleted.''))]
           (k\<lparr>disk := upd_entry i (\<lambda>_. e) s\<rparr>)))))"
    using i(1,2) assms(3,4) by (simp add: fs_delete_def no_name_ok Let_def bnd_assoc ask_def)
  show ?thesis
    unfolding eq
  proof (rule runs_bnd [OF runs_mono [OF ask_ok [OF assms(1)]]])
    show "list_all vcall_ok ask" using assms(3) by (simp add: ask_def)
  next
    fix r k1
    assume "ask_post k r k1"
    then obtain cs c where io: "io_only k k1" and g: "gets_from k (cs @ [CHR 0x0A]) k1" "CHR 0x0A \<notin> set cs"
      and c: "peek (snd r) 0 = Some c" "c \<noteq> CHR ''y'' \<and> c \<noteq> CHR ''Y'' \<longleftrightarrow> \<not> answers_yes cs"
      by (auto simp: ask_post_def)
    have g': "gets_from k (cs @ [CHR 0x0A]) k'" if "same_input k1 k'" for k'
      using g(1) that unfolding gets_from_def same_input_def by metis
    show "runs (bnd (chk (peek (snd r) 0) k1) (\<lambda>c k.
       if c \<noteq> CHR ''y'' \<and> c \<noteq> CHR ''Y'' then say [Ln (lit ''  [fdel] Cancelled.'')] k
       else
         bnd (chk (free_file i (disk k)) k) (\<lambda>s k.
         bnd (chk (drop_entry (files s ! i)) k) (\<lambda>e k.
         confirm [Wr (lit (''  [fdel] '' @ [CHR 0x27])), Wr name, Ln (lit (CHR 0x27 # '' deleted.''))]
           (k\<lparr>disk := upd_entry i (\<lambda>_. e) s\<rparr>)))))
     (\<lambda>_ k'. fs_wf (disk k') \<and>
        (if fs_abs (disk k) key = None then disk k' = disk k
         else \<exists>cs. gets_from k (cs @ [CHR 0x0A]) k' \<and> CHR 0x0A \<notin> set cs \<and>
           fs_abs (disk k') = (if answers_yes cs then (fs_abs (disk k))(key := None) else fs_abs (disk k))))
     (\<lambda>e k'. e = Blocked \<and> disk k' = disk k)"
    proof (cases "answers_yes cs")
      case True
      then show ?thesis
        using c d io assms(2,3,6) i(5) g(2)
        by (auto simp: io_only_def intro!: confirm_ok exI [of _ cs] g') (simp_all add: same_input_def)
    next
      case False
      then show ?thesis
        using c io assms(2,6) i(5) g(2)
        by (auto simp: io_only_def intro!: say_ok exI [of _ cs] g') (simp add: same_input_def)
    qed
  qed (auto simp: blocked_def io_only_def)
next
  assume "find_file name dir (disk k) = Some FS_MAX_FILES" "fs_abs (disk k) (cstr name, cstr dir) = None"
  then show ?thesis
    using assms by (auto simp: fs_delete_def no_name_ok Let_def intro!: complain_ok)
qed (use assms in auto)

text \<open>C8: \<open>fs_delete\<close>, given a name and directory that fit, removes exactly the named file, and only after the user answered the question
  with a line that starts with y or Y; on any other answer, and for a name that does not exist,
  no file changes. It never accesses memory out of bounds, and nothing has changed while it waits
  for the answer.\<close>

theorem fs_delete_correct:
  assumes "machine_ok k" and "fs_wf (disk k)" and "fits_name name" and "cstr name \<noteq> []" and "fits_name dir"
    and "key = (cstr name, cstr dir)"
  shows "runs (fs_delete (Some name) dir k)
     (\<lambda>_ k'. fs_wf (disk k') \<and>
        (if fs_abs (disk k) key = None then disk k' = disk k
         else \<exists>cs. gets_from k (cs @ [CHR 0x0A]) k' \<and> CHR 0x0A \<notin> set cs \<and>
           fs_abs (disk k') = (if answers_yes cs then (fs_abs (disk k))(key := None) else fs_abs (disk k))))
     (\<lambda>e k'. e = Blocked \<and> disk k' = disk k)"
  using assms by (rule fs_delete_ok)

section \<open>fs\_rename\<close>

text \<open>An entry keeps its chain under a new name.\<close>

lemma rename_step:
  assumes wf: "fs_wf s" and i: "i < FS_MAX_FILES" "used (files s ! i)"
    and n: "length n = FS_NAME_LEN" "terminated n" and new: "fs_abs s (cstr n, snd (entry_key (files s ! i))) = None"
  defines "s2 \<equiv> upd_entry i (\<lambda>e. e\<lparr>fe_name := n\<rparr>) s"
  shows "fs_wf s2"
    and "fs_abs s2 = (fs_abs s)(entry_key (files s ! i) := None,
           (cstr n, snd (entry_key (files s ! i))) \<mapsto> content s (files s ! i))"
proof -
  define e' where "e' = (files s ! i)\<lparr>fe_name := n\<rparr>"
  have s2: "s2 = s\<lparr>files := (files s)[i := e']\<rparr>" by (simp add: s2_def upd_entry_def e'_def)
  have shape: "fs_shape s2"
    using fs_shape_upd [OF fs_wf_shape [OF wf], of e' i] fs_shape_entry [OF fs_wf_shape [OF wf] i(1)] n
    by (simp add: s2 e'_def)
  have same: "blocks_of s2 e' = blocks_of s (files s ! i)" "content s2 e' = content s (files s ! i)"
    by (simp_all add: content_def blocks_of_def s2 e'_def)
  have key: "entry_key e' = (cstr n, snd (entry_key (files s ! i)))" by (simp add: entry_key_def e'_def)
  have ok: "file_ok s2 e'"
    using fs_wf_used [OF wf i] n same(1) by (simp add: file_ok_def) (simp add: s2 e'_def)
  have disj: "set (blocks_of s (files s ! i)) \<inter> owned_by_others s i = {}"
    using fs_wf_apart [OF wf _ i(1) _ _ i(2)] by (auto simp: owned_by_others_def apart_def)
  have kept: "untouched (owned_by_others s i) s s2" by (simp add: untouched_def s2)
  have fits: "entry_fits s s2 i e'"
    using ok disj same(1) i(2) new fs_abs_None [OF wf] key by (simp add: entry_fits_def) (simp add: e'_def)
  from replace_entry [OF wf shape i(1) _ kept fits]
  show "fs_wf s2"
    and "fs_abs s2 = (fs_abs s)(entry_key (files s ! i) := None,
           (cstr n, snd (entry_key (files s ! i))) \<mapsto> content s (files s ! i))"
    using same(2) key i(2) by (simp_all add: s2 without_def e'_def)
qed

lemma fs_rename_ok:
  assumes "machine_ok k" and "fs_wf (disk k)" and "fits_name old" and "cstr old \<noteq> []"
    and "fits_name new" and "cstr new \<noteq> []" and "fits_name dir"
  shows "\<exists>k'. fs_rename (Some old) (Some new) dir k = Ret () k' \<and> fs_wf (disk k') \<and>
     fs_abs (disk k') =
       (case fs_abs (disk k) (cstr old, cstr dir) of
          None \<Rightarrow> fs_abs (disk k)
        | Some c \<Rightarrow> if fs_abs (disk k) (cstr new, cstr dir) \<noteq> None then fs_abs (disk k)
                    else (fs_abs (disk k))((cstr old, cstr dir) := None, (cstr new, cstr dir) \<mapsto> c))"
    (is "\<exists>k'. _ = _ \<and> ?post k'")
proof -
  have ret: "\<exists>k'. fs_rename (Some old) (Some new) dir k = Ret () k' \<and> ?post k'"
    if "runs (fs_rename (Some old) (Some new) dir k) (\<lambda>_. ?post) (\<lambda>_ _. False)"
    using that by (cases "fs_rename (Some old) (Some new) dir k") auto
  show ?thesis
  proof (rule ret, rule find_file_cases [OF assms(2), of old dir])
    assume "find_file old dir (disk k) = Some FS_MAX_FILES" "fs_abs (disk k) (cstr old, cstr dir) = None"
    then show "runs (fs_rename (Some old) (Some new) dir k) (\<lambda>_. ?post) (\<lambda>_ _. False)"
      using assms by (auto simp: fs_rename_def no_name_ok Let_def intro!: complain_ok)
  next
    fix i
    assume i: "i < FS_MAX_FILES" "find_file old dir (disk k) = Some i" "used (files (disk k) ! i)"
      "entry_key (files (disk k) ! i) = (cstr old, cstr dir)"
      "fs_abs (disk k) (cstr old, cstr dir) = Some (content (disk k) (files (disk k) ! i))"
    obtain n where n: "kstrncpy (fe_name (files (disk k) ! i)) new FS_NAME_LEN = Some n" "length n = FS_NAME_LEN"
      "terminated n" "cstr n = cstr new"
      using copied_name [OF assms(5)] fs_shape_entry [OF fs_wf_shape [OF assms(2)] i(1)] by blast
    show "runs (fs_rename (Some old) (Some new) dir k) (\<lambda>_. ?post) (\<lambda>_ _. False)"
    proof (rule find_file_cases [OF assms(2), of new dir])
      fix j
      assume "j < FS_MAX_FILES" "find_file new dir (disk k) = Some j"
        "fs_abs (disk k) (cstr new, cstr dir) = Some (content (disk k) (files (disk k) ! j))"
      then show ?thesis
        using assms i by (auto simp: fs_rename_def no_name_ok Let_def intro!: complain_ok)
    next
      assume "find_file new dir (disk k) = Some FS_MAX_FILES" "fs_abs (disk k) (cstr new, cstr dir) = None"
      then show ?thesis
        using assms i n rename_step [OF assms(2) i(1,3) n(2,3)]
        by (auto simp: fs_rename_def no_name_ok Let_def on_disk_def intro!: confirm_ok)
    qed (use assms in auto)
  qed (use assms in auto)
qed

text \<open>C9: \<open>fs_rename\<close>, given non-empty names and a directory of less than 64 characters each (a longer new
  name is stored without its terminator, which is not covered), moves the bytes of a file from the old name to the new one in the same
  directory, provided the old name exists and the new one does not; otherwise it changes
  nothing. It always returns, never accesses memory out of bounds and touches no other file.\<close>

theorem fs_rename_correct:
  assumes "machine_ok k" and "fs_wf (disk k)" and "fits_name old" and "cstr old \<noteq> []"
    and "fits_name new" and "cstr new \<noteq> []" and "fits_name dir"
  shows "\<exists>k'. fs_rename (Some old) (Some new) dir k = Ret () k' \<and> fs_wf (disk k') \<and>
     fs_abs (disk k') =
       (case fs_abs (disk k) (cstr old, cstr dir) of
          None \<Rightarrow> fs_abs (disk k)
        | Some c \<Rightarrow> if fs_abs (disk k) (cstr new, cstr dir) \<noteq> None then fs_abs (disk k)
                    else (fs_abs (disk k))((cstr old, cstr dir) := None, (cstr new, cstr dir) \<mapsto> c))"
  using assms by (rule fs_rename_ok)

section \<open>fs\_copy\<close>

lemma copy_step:
  assumes wf: "fs_wf s" and d: "d < FS_MAX_FILES" "\<not> used (files s ! d)" and n: "n \<le> length data"
    and nd: "length nm = FS_NAME_LEN" "length dr = FS_DIR_LEN" "terminated nm" "terminated dr"
    and new: "fs_abs s (cstr nm, cstr dr) = None"
  defines "e \<equiv> (files s ! d)\<lparr>fe_name := nm, fe_dir := dr\<rparr>"
  shows "\<exists>first s1. save_bytes data n s = Some (first, s1) \<and> files s1 = files s \<and>
    (if unat first = FS_N_BLOCKS
     then \<not> n_blocks n \<le> length (free_blocks (fat s)) \<and> fs_wf s1 \<and> fs_abs s1 = fs_abs s
     else n_blocks n \<le> length (free_blocks (fat s)) \<and>
       fs_wf (upd_entry d (\<lambda>_. e\<lparr>first_block := first, fe_size := n, used := True\<rparr>) s1) \<and>
       fs_abs (upd_entry d (\<lambda>_. e\<lparr>first_block := first, fe_size := n, used := True\<rparr>) s1) =
         (fs_abs s)((cstr nm, cstr dr) \<mapsto> take n data))"
proof -
  define c where "c = s\<lparr>files := (files s)[d := e\<lparr>used := True\<rparr>]\<rparr>"
  have eu: "e\<lparr>used := True\<rparr> = (files s ! d)\<lparr>fe_name := nm, fe_dir := dr, used := True\<rparr>" by (simp add: e_def)
  have c: "fs_wf c" "fs_abs c = (fs_abs s)((cstr nm, cstr dr) \<mapsto> [])" "empty_entry (e\<lparr>used := True\<rparr>)"
    "entry_key (e\<lparr>used := True\<rparr>) = (cstr nm, cstr dr)"
    using claim_step [OF wf d eu nd new] by (simp_all add: c_def)
  have len: "length (files s) = FS_MAX_FILES" using wf fs_wf_shape fs_shape_files by blast
  have cd: "files c ! d = e\<lparr>used := True\<rparr>" "fat c = fat s" using d(1) len by (simp_all add: c_def)
  obtain first s1 where w: "save_bytes data n s = Some (first, s1)" "wrote data n s first s1"
    using save_bytes_ok [OF fs_wf_shape [OF wf] n] by blast
  have "save_bytes data n c = Some (first, s1\<lparr>files := files c\<rparr>)"
    using save_bytes_files [OF fs_wf_shape [OF wf] _ n, of "files c"] fs_wf_shape [OF c(1)] w(1)
    by (simp add: c_def)
  then have wc: "wrote data n c first (s1\<lparr>files := files c\<rparr>)"
    using save_bytes_ok [OF fs_wf_shape [OF c(1)] n] by auto
  have files: "files s1 = files s" using w(2) by (simp add: wrote_def)
  have final: "upd_entry d (\<lambda>e. e\<lparr>first_block := first, fe_size := n\<rparr>) (s1\<lparr>files := files c\<rparr>) =
      upd_entry d (\<lambda>_. e\<lparr>first_block := first, fe_size := n, used := True\<rparr>) s1"
    using d(1) len by (cases "files s ! d") (simp add: upd_entry_def files c_def e_def)
  have un: "empty_entry (files s ! d)" using fs_wf_unused [OF wf d] by (simp add: empty_entry_def)
  show ?thesis
    using w(1) files wrote_first [OF w(2)] full_step(1,2) [OF wf d(1) w(2) un] save_step [OF c(1) d(1) _ _ wc] c cd final
    by auto
qed

lemma fs_copy_fresh:
  assumes ok: "machine_ok k" "fs_wf (disk k)" and names: "fits_name src" "cstr src \<noteq> []" "fits_name dst"
      "cstr dst \<noteq> []" "fits_name dir"
    and i: "i < FS_MAX_FILES" "find_file src dir (disk k) = Some i" "used (files (disk k) ! i)"
      "fs_abs (disk k) (cstr src, cstr dir) = Some (content (disk k) (files (disk k) ! i))"
    and dst: "find_file dst dir (disk k) = Some FS_MAX_FILES" "fs_abs (disk k) (cstr dst, cstr dir) = None"
    and slot: "find_free_slot (disk k) < FS_MAX_FILES" "\<not> used (files (disk k) ! find_free_slot (disk k))"
  defines "c \<equiv> content (disk k) (files (disk k) ! i)"
  shows "runs (fs_copy (Some src) (Some dst) dir k)
    (\<lambda>_ k'. fs_wf (disk k') \<and>
       fs_abs (disk k') = (if n_blocks (length c) \<le> length (free_blocks (fat (disk k)))
                           then (fs_abs (disk k))((cstr dst, cstr dir) \<mapsto> c) else fs_abs (disk k)))
    (\<lambda>_ _. False)"
proof -
  define d where "d = find_free_slot (disk k)"
  define e where "e = files (disk k) ! i"
  define buf where "buf = c @ drop (fe_size e) (tmp_copy (disk k))"
  have d: "d < FS_MAX_FILES" "\<not> used (files (disk k) ! d)" using slot by (simp_all add: d_def)
  have load: "load_loop (first_block e) (fe_size e) 0 (tmp_copy (disk k)) (disk k) = Some buf"
    and len: "length c = fe_size e" "fe_size e \<le> FS_BYTES" "length buf = FS_BYTES"
    using load_file [OF ok(2) i(1,3) fs_wf_tmp_length(3) [OF ok(2)]] fs_wf_tmp_length(3) [OF ok(2)]
    by (simp_all add: e_def buf_def c_def)
  define s where "s = (disk k)\<lparr>tmp_copy := buf\<rparr>"
  have s: "fs_wf s" "fs_abs s = fs_abs (disk k)" "files s = files (disk k)" "fat s = fat (disk k)"
    using ok(2) len(3) by (simp_all add: s_def)
  obtain n r where nd: "claim_entry dst dir (files s ! d) = Some ((files s ! d)\<lparr>fe_name := n, fe_dir := r\<rparr>)"
    "length n = FS_NAME_LEN" "length r = FS_DIR_LEN" "terminated n" "terminated r" "cstr n = cstr dst" "cstr r = cstr dir"
    using claim_entry_ok [OF names(3,5)] fs_shape_entry [OF fs_wf_shape [OF s(1)] d(1)] by blast
  have fresh: "fs_abs s (cstr n, cstr r) = None" "fe_size e \<le> length buf" "\<not> used (files s ! d)"
    using dst(2) nd s(2,3) len d(2) by simp_all
  obtain first s1 where w: "save_bytes buf (fe_size e) s = Some (first, s1)" "files s1 = files s"
    "if unat first = FS_N_BLOCKS
     then \<not> n_blocks (fe_size e) \<le> length (free_blocks (fat s)) \<and> fs_wf s1 \<and> fs_abs s1 = fs_abs s
     else n_blocks (fe_size e) \<le> length (free_blocks (fat s)) \<and>
       fs_wf (upd_entry d (\<lambda>_. (files s ! d)\<lparr>fe_name := n, fe_dir := r, first_block := first, fe_size := fe_size e, used := True\<rparr>) s1) \<and>
       fs_abs (upd_entry d (\<lambda>_. (files s ! d)\<lparr>fe_name := n, fe_dir := r, first_block := first, fe_size := fe_size e, used := True\<rparr>) s1) =
         (fs_abs s)((cstr n, cstr r) \<mapsto> take (fe_size e) buf)"
    using copy_step [OF s(1) d(1) fresh(3,2) nd(2-5) fresh(1)] by auto
  have c: "take (fe_size e) buf = c" using len by (simp add: buf_def)
  have ne: "i \<noteq> FS_MAX_FILES" "d \<noteq> FS_MAX_FILES" using i(1) d(1) by auto
  show ?thesis
    unfolding fs_copy_def
    using ok names w nd(1) s c len(1) nd(6,7) ne
    by (auto simp: no_name_ok i(2) dst(1) d_def [symmetric] e_def [symmetric] load on_disk_def s_def [symmetric] Let_def
        intro!: complain_ok confirm_ok)
qed

lemma fs_copy_ok:
  assumes "machine_ok k" and "fs_wf (disk k)" and "fits_name src" and "cstr src \<noteq> []"
    and "fits_name dst" and "cstr dst \<noteq> []" and "fits_name dir"
  shows "\<exists>k'. fs_copy (Some src) (Some dst) dir k = Ret () k' \<and> fs_wf (disk k') \<and>
     fs_abs (disk k') =
       (case fs_abs (disk k) (cstr src, cstr dir) of
          None \<Rightarrow> fs_abs (disk k)
        | Some c \<Rightarrow>
            if fs_abs (disk k) (cstr dst, cstr dir) = None \<and> \<not> (\<forall>i < FS_MAX_FILES. used (files (disk k) ! i)) \<and>
               n_blocks (length c) \<le> length (free_blocks (fat (disk k)))
            then (fs_abs (disk k))((cstr dst, cstr dir) \<mapsto> c) else fs_abs (disk k))"
    (is "\<exists>k'. _ = _ \<and> ?post k'")
proof -
  have ret: "\<exists>k'. fs_copy (Some src) (Some dst) dir k = Ret () k' \<and> ?post k'"
    if "runs (fs_copy (Some src) (Some dst) dir k) (\<lambda>_. ?post) (\<lambda>_ _. False)"
    using that by (cases "fs_copy (Some src) (Some dst) dir k") auto
  show ?thesis
  proof (rule ret, rule find_file_cases [OF assms(2), of src dir])
    assume "find_file src dir (disk k) = Some FS_MAX_FILES" "fs_abs (disk k) (cstr src, cstr dir) = None"
    then show "runs (fs_copy (Some src) (Some dst) dir k) (\<lambda>_. ?post) (\<lambda>_ _. False)"
      using assms by (auto simp: fs_copy_def no_name_ok Let_def intro!: complain_ok)
  next
    fix i
    assume i: "i < FS_MAX_FILES" "find_file src dir (disk k) = Some i" "used (files (disk k) ! i)"
      "fs_abs (disk k) (cstr src, cstr dir) = Some (content (disk k) (files (disk k) ! i))"
    show "runs (fs_copy (Some src) (Some dst) dir k) (\<lambda>_. ?post) (\<lambda>_ _. False)"
    proof (rule find_file_cases [OF assms(2), of dst dir])
      fix j
      assume "j < FS_MAX_FILES" "find_file dst dir (disk k) = Some j"
        "fs_abs (disk k) (cstr dst, cstr dir) = Some (content (disk k) (files (disk k) ! j))"
      then show ?thesis
        using assms i by (auto simp: fs_copy_def no_name_ok Let_def intro!: complain_ok)
    next
      assume dst: "find_file dst dir (disk k) = Some FS_MAX_FILES" "fs_abs (disk k) (cstr dst, cstr dir) = None"
      show ?thesis
      proof (rule find_free_slot_cases [of "disk k"])
        assume "find_free_slot (disk k) = FS_MAX_FILES" "\<forall>i < FS_MAX_FILES. used (files (disk k) ! i)"
        then show ?thesis
          using assms i dst by (auto simp: fs_copy_def no_name_ok Let_def intro!: complain_ok)
      next
        assume "find_free_slot (disk k) < FS_MAX_FILES" "\<not> used (files (disk k) ! find_free_slot (disk k))"
        then show ?thesis
          using fs_copy_fresh [OF assms(1-7) i dst] i(4) dst(2) by (auto elim!: runs_mono)
      qed
    qed (use assms in auto)
  qed (use assms in auto)
qed

text \<open>C10: \<open>fs_copy\<close>, given non-empty names and a directory of less than 64 characters each (a longer new
  name is stored without its terminator, which is not covered), gives the new name a copy of the bytes of the source, provided the source
  exists, the new name does not, one of the 32 entries is free and the disk has enough free
  blocks; otherwise every file is as it was. It always returns and never accesses memory out of
  bounds.\<close>

theorem fs_copy_correct:
  assumes "machine_ok k" and "fs_wf (disk k)" and "fits_name src" and "cstr src \<noteq> []"
    and "fits_name dst" and "cstr dst \<noteq> []" and "fits_name dir"
  shows "\<exists>k'. fs_copy (Some src) (Some dst) dir k = Ret () k' \<and> fs_wf (disk k') \<and>
     fs_abs (disk k') =
       (case fs_abs (disk k) (cstr src, cstr dir) of
          None \<Rightarrow> fs_abs (disk k)
        | Some c \<Rightarrow>
            if fs_abs (disk k) (cstr dst, cstr dir) = None \<and> \<not> (\<forall>i < FS_MAX_FILES. used (files (disk k) ! i)) \<and>
               n_blocks (length c) \<le> length (free_blocks (fat (disk k)))
            then (fs_abs (disk k))((cstr dst, cstr dir) \<mapsto> c) else fs_abs (disk k))"
  using assms by (rule fs_copy_ok)

section \<open>Showing files\<close>

lemma say_append:
  assumes "list_all vcall_ok xs" and "list_all vcall_ok ys"
  shows "bnd (say xs k) (\<lambda>_. say ys) = say (xs @ ys) k"
proof -
  obtain v where v: "vcalls xs (scr k) = Some v" using vcalls_Some [OF assms(1)] by blast
  obtain w where "vcalls ys v = Some w" using vcalls_Some [OF assms(2)] by blast
  with v show ?thesis by (simp add: say_def vcalls_append)
qed

lemma show_bytes_ok [simp]: "list_all vcall_ok (show_bytes cs)"
  by (induction cs) (auto simp: show_bytes_def)

lemma show_bytes_append: "show_bytes (xs @ ys) = show_bytes xs @ show_bytes ys"
  by (simp add: show_bytes_def)

lemma say_disk: "list_all vcall_ok xs \<Longrightarrow> \<exists>v. say xs k = Ret () (k\<lparr>scr := v\<rparr>)"
  using vcalls_Some [of xs "scr k"] by (auto simp: say_def)

lemma say_nil [simp]: "say [] k = Ret () k"
  by (simp add: say_def)

text \<open>The printing loop of \<open>fs_read\<close> prints the bytes of the chain and nothing else.\<close>

lemma read_loop_eq:
  assumes "chain (fat (disk k)) p bs" and "fs_shape (disk k)" and "n \<le> length bs * FS_BLOCK_SIZE"
  shows "read_loop p n k = say (show_bytes (chain_bytes (blocks (disk k)) bs n)) k"
  using assms
proof (induction bs arbitrary: p n k)
  case Nil
  then show ?case by (subst read_loop.simps) (simp add: chain_bytes_def show_bytes_def)
next
  case (Cons b bs)
  show ?case
  proof (cases "n = 0")
    case True
    then show ?thesis by (subst read_loop.simps) (simp add: chain_bytes_def show_bytes_def)
  next
    case False
    define m where "m = min n FS_BLOCK_SIZE"
    have row: "length (blocks (disk k) ! b) = FS_BLOCK_SIZE"
      using Cons.prems by (auto simp: fs_shape_def list_all_length)
    then have chunk: "take m (blocks (disk k) ! b) = take n (blocks (disk k) ! b)"
      by (simp add: m_def min_def)
    obtain v where v: "say (show_bytes (take m (blocks (disk k) ! b))) k = Ret () (k\<lparr>scr := v\<rparr>)"
      using say_disk [OF show_bytes_ok] by blast
    have "read_loop (fat (disk k) ! b) (n - FS_BLOCK_SIZE) (k\<lparr>scr := v\<rparr>) =
        say (show_bytes (chain_bytes (blocks (disk k)) bs (n - FS_BLOCK_SIZE))) (k\<lparr>scr := v\<rparr>)"
      using Cons.IH [of "k\<lparr>scr := v\<rparr>"] Cons.prems by simp
    moreover have "read_loop p n k = read_loop (fat (disk k) ! b) (n - FS_BLOCK_SIZE) (k\<lparr>scr := v\<rparr>)"
      using Cons.prems(1) False v
      by (subst read_loop.simps) (auto simp: m_def min_def Let_def split: if_splits)
    ultimately show ?thesis
      using row v chunk say_append [of "show_bytes (take m (blocks (disk k) ! b))"
          "show_bytes (chain_bytes (blocks (disk k)) bs (n - FS_BLOCK_SIZE))" k]
      by (simp add: chain_bytes_Cons show_bytes_append)
  qed
qed

text \<open>What \<open>fs_read\<close> prints for a file of this name and content.\<close>

definition read_screen :: "cptr \<Rightarrow> cptr \<Rightarrow> vcall list" where
  "read_screen name c =
     [Col VGA_LIGHT_CYAN VGA_BLACK, Wr (lit ''  ---- ''), Wr name, Ln (lit '' ----''), Col VGA_WHITE VGA_BLACK]
     @ (if c = [] then [Ln (lit ''  (empty file)'')] else [Wr (lit ''  '')] @ show_bytes c @ [Ch CHR 0x0A])
     @ [Col VGA_LIGHT_CYAN VGA_BLACK, Ln (lit ''  ---- EOF ----''), Col VGA_WHITE VGA_BLACK]"

lemma file_empty_iff:
  assumes "fs_wf s" and "i < FS_MAX_FILES" and "used (files s ! i)"
  shows "first_block (files s ! i) = FAT_END \<or> fe_size (files s ! i) = 0 \<longleftrightarrow> content s (files s ! i) = []"
proof -
  define e where "e = files s ! i"
  have ok: "chain (fat s) (first_block e) (blocks_of s e)" "length (blocks_of s e) = n_blocks (fe_size e)"
    using fs_wf_used [OF assms] by (simp_all add: e_def file_ok_def)
  have "first_block e = FAT_END \<Longrightarrow> fe_size e = 0"
    using ok n_blocks_le_iff [of "fe_size e" 0] blk_neq_END [THEN not_sym]
    by (cases "blocks_of s e") (auto simp: less_imp_le)
  moreover have "length (content s e) = fe_size e"
    using load_file(2) [OF assms fs_wf_tmp_length(1) [OF assms(1)]] by (simp add: e_def)
  ultimately show ?thesis by (auto simp: e_def)
qed

lemma fs_read_ok:
  assumes "machine_ok k" and "fs_wf (disk k)" and "fits_name name" and "cstr name \<noteq> []" and "fits_name dir"
  shows "fs_read (Some name) dir k =
     (case fs_abs (disk k) (cstr name, cstr dir) of
        Some c \<Rightarrow> say (read_screen name c) k
      | None \<Rightarrow> complain [Wr (lit ''  [fread] Error: file not found: ''), Ln name] k)"
proof (rule find_file_cases [OF assms(2), of name dir])
  fix i
  assume i: "i < FS_MAX_FILES" "find_file name dir (disk k) = Some i" "used (files (disk k) ! i)"
    "fs_abs (disk k) (cstr name, cstr dir) = Some (content (disk k) (files (disk k) ! i))"
  define e where "e = files (disk k) ! i"
  define head where
    "head = [Col VGA_LIGHT_CYAN VGA_BLACK, Wr (lit ''  ---- ''), Wr name, Ln (lit '' ----''), Col VGA_WHITE VGA_BLACK]"
  have ok: "chain (fat (disk k)) (first_block e) (blocks_of (disk k) e)"
    "fe_size e \<le> length (blocks_of (disk k) e) * FS_BLOCK_SIZE"
    using fs_wf_used [OF assms(2) i(1,3)] n_blocks_le_iff [of "fe_size e" "n_blocks (fe_size e)"]
    by (simp_all add: e_def file_ok_def)
  have body: "read_loop (first_block e) (fe_size e) j = say (show_bytes (content (disk k) e)) j"
    if "disk j = disk k" for j
    using read_loop_eq [of j "first_block e" "blocks_of (disk k) e" "fe_size e"] that ok fs_wf_shape [OF assms(2)]
    by (simp add: content_def)
  obtain v where v: "say head k = Ret () (k\<lparr>scr := v\<rparr>)"
    using say_disk [of head k] assms(3) by (auto simp: head_def)
  obtain w where w: "say [Wr (lit ''  '')] (k\<lparr>scr := v\<rparr>) = Ret () (k\<lparr>scr := w\<rparr>)"
    using say_disk [of "[Wr (lit ''  '')]" "k\<lparr>scr := v\<rparr>"] by auto
  have hd_ok: "list_all vcall_ok head" using assms(3) by (simp add: head_def)
  have ne: "i \<noteq> FS_MAX_FILES" using i(1) by simp
  note empty = file_empty_iff [OF assms(2) i(1,3), folded e_def]
  define mid where
    "mid = (if content (disk k) e = [] then [Ln (lit ''  (empty file)'')]
            else [Wr (lit ''  '')] @ show_bytes (content (disk k) e) @ [Ch CHR 0x0A])"
  define foot where
    "foot = [Col VGA_LIGHT_CYAN VGA_BLACK, Ln (lit ''  ---- EOF ----''), Col VGA_WHITE VGA_BLACK]"
  have oks: "list_all vcall_ok mid" "list_all vcall_ok foot" by (simp_all add: mid_def foot_def)
  have mid: "(if first_block e = FAT_END \<or> fe_size e = 0 then say [Ln (lit ''  (empty file)'')] (k\<lparr>scr := v\<rparr>)
      else bnd (say [Wr (lit ''  '')] (k\<lparr>scr := v\<rparr>)) (\<lambda>_ k.
           bnd (read_loop (first_block e) (fe_size e) k) (\<lambda>_ k. say [Ch CHR 0x0A] k))) = say mid (k\<lparr>scr := v\<rparr>)"
    using w body [of "k\<lparr>scr := w\<rparr>"] empty
      say_append [of "show_bytes (content (disk k) e)" "[Ch CHR 0x0A]" "k\<lparr>scr := w\<rparr>"]
      say_append [of "[Wr (lit ''  '')]" "show_bytes (content (disk k) e) @ [Ch CHR 0x0A]" "k\<lparr>scr := v\<rparr>"]
    by (simp add: mid_def)
  have "fs_read (Some name) dir k = bnd (say mid (k\<lparr>scr := v\<rparr>)) (\<lambda>_. say foot)"
    unfolding mid [symmetric] foot_def using i(2) ne assms(3,4) v
    by (simp add: fs_read_def no_name_ok Let_def head_def e_def)
  also have "\<dots> = say (head @ mid @ foot) k"
    using say_append [OF oks] say_append [OF hd_ok, of "mid @ foot" k] oks v by simp
  finally show ?thesis
    unfolding i(4) by (simp add: read_screen_def head_def mid_def foot_def e_def)
next
  assume "find_file name dir (disk k) = Some FS_MAX_FILES" "fs_abs (disk k) (cstr name, cstr dir) = None"
  then show ?thesis
    using assms by (simp add: fs_read_def no_name_ok Let_def)
qed (use assms in auto)

text \<open>C11: \<open>fs_read\<close> shows exactly the file: for an existing name it is one run of screen calls, the
  heading, the bytes of the file in order with two spaces after each newline, or a remark that
  the file is empty, and the closing line. For a missing name it prints the error. It changes
  nothing but the screen.\<close>

theorem fs_read_correct:
  assumes "machine_ok k" and "fs_wf (disk k)" and "fits_name name" and "cstr name \<noteq> []" and "fits_name dir"
  shows "fs_read (Some name) dir k =
     (case fs_abs (disk k) (cstr name, cstr dir) of
        Some c \<Rightarrow> say (read_screen name c) k
      | None \<Rightarrow> complain [Wr (lit ''  [fread] Error: file not found: ''), Ln name] k)"
  using assms by (rule fs_read_ok)

definition list_line :: "file_entry \<Rightarrow> vcall list" where
  "list_line e = [Wr (lit ''  ''), Wr (fe_name e), Wr (lit ''  (''), Dec (of_nat (fe_size e)), Ln (lit '' bytes)'')]"

text \<open>The live entries of a directory, in table order.\<close>

definition entries_in :: "string \<Rightarrow> file_entry list \<Rightarrow> file_entry list" where
  "entries_in d es = filter (\<lambda>e. used e \<and> cstr (fe_dir e) = d) es"

lemma list_loop_eq:
  assumes "list_all entry_strings es" and "terminated dir"
  shows "list_loop dir es n k =
    bnd (say (concat (map list_line (entries_in (cstr dir) es))) k) (\<lambda>_ k. Ret (n + length (entries_in (cstr dir) es)) k)"
  using assms(1)
proof (induction es arbitrary: n k)
  case Nil
  then show ?case by (simp add: entries_in_def)
next
  case (Cons e es)
  show ?case
  proof (cases "used e \<and> cstr (fe_dir e) = cstr dir")
    case True
    have t: "terminated (fe_name e)" "terminated (fe_dir e)" using True Cons.prems by (auto simp: entry_strings_def)
    obtain v where v: "say (list_line e) k = Ret () (k\<lparr>scr := v\<rparr>)"
      using say_disk [of "list_line e" k] t by (auto simp: list_line_def)
    have ok: "list_all vcall_ok (list_line e)" "list_all vcall_ok (concat (map list_line (entries_in (cstr dir) es)))"
      using t Cons.prems by (auto simp: list_line_def entries_in_def list_all_iff entry_strings_def)
    have "kstrcmp (fe_dir e) dir = Some 0" using kstrcmp_eq0 [OF t(2) assms(2)] True by simp
    then have "list_loop dir (e # es) n k = list_loop dir es (n + 1) (k\<lparr>scr := v\<rparr>)"
      using True v by (simp add: list_line_def)
    moreover have "say (concat (map list_line (entries_in (cstr dir) (e # es)))) k =
        say (concat (map list_line (entries_in (cstr dir) es))) (k\<lparr>scr := v\<rparr>)"
      using say_append [OF ok, of k] v True by (simp add: entries_in_def)
    ultimately show ?thesis
      using Cons True by (simp add: entries_in_def)
  next
    case False
    show ?thesis
    proof (cases "used e")
      case True
      then have t: "terminated (fe_dir e)" using Cons.prems by (simp add: entry_strings_def)
      obtain r where r: "kstrcmp (fe_dir e) dir = Some r" using kstrcmp_defined [OF t assms(2)] by blast
      with False True kstrcmp_zero_iff [OF r] Cons show ?thesis by (simp add: entries_in_def)
    next
      case False
      with Cons show ?thesis by (simp add: entries_in_def)
    qed
  qed
qed

lemma fs_list_ok:
  assumes "fs_wf (disk k)" and "terminated dir"
  shows "fs_list dir k =
     say (let es = entries_in (cstr dir) (files (disk k))
          in if es = [] then [Ln (lit ''  (no files in this directory)'')]
             else concat (map (\<lambda>e. [Wr (lit ''  ''), Wr (fe_name e), Wr (lit ''  (''),
                                    Dec (of_nat (fe_size e)), Ln (lit '' bytes)'')]) es)) k"
proof -
  have ok: "list_all vcall_ok (concat (map list_line (entries_in (cstr dir) (files (disk k)))))"
    using fs_wf_strings [OF assms(1)] by (auto simp: list_line_def entries_in_def list_all_iff entry_strings_def)
  obtain v where "say (concat (map list_line (entries_in (cstr dir) (files (disk k))))) k = Ret () (k\<lparr>scr := v\<rparr>)"
    using say_disk [OF ok] by blast
  moreover have "(\<lambda>e. [Wr (lit ''  ''), Wr (fe_name e), Wr (lit ''  (''), Dec (of_nat (fe_size e)),
      Ln (lit '' bytes)'')]) = list_line"
    by (rule ext) (simp add: list_line_def)
  ultimately show ?thesis
    using list_loop_eq [OF fs_wf_strings [OF assms(1)] assms(2), of 0 k]
    by (cases "entries_in (cstr dir) (files (disk k)) = []") (simp_all add: fs_list_def Let_def)
qed

text \<open>\<open>fs_list\<close> prints one line for each file of the directory, in the order of the table, with
  its name and its size, and the remark that there are none exactly when there are none. It
  changes nothing but the screen.\<close>

theorem fs_list_correct:
  assumes "fs_wf (disk k)" and "terminated dir"
  shows "fs_list dir k =
     say (let es = entries_in (cstr dir) (files (disk k))
          in if es = [] then [Ln (lit ''  (no files in this directory)'')]
             else concat (map (\<lambda>e. [Wr (lit ''  ''), Wr (fe_name e), Wr (lit ''  (''),
                                    Dec (of_nat (fe_size e)), Ln (lit '' bytes)'')]) es)) k"
  using assms by (rule fs_list_ok)

lemma dir_empty_from_eq:
  "list_all entry_strings es \<Longrightarrow> terminated dir \<Longrightarrow> dir_empty_from dir es = Some (entries_in (cstr dir) es = [])"
proof (induction es)
  case (Cons e es)
  show ?case
  proof (cases "used e")
    case True
    then have t: "terminated (fe_dir e)" using Cons.prems by (simp add: entry_strings_def)
    obtain r where r: "kstrcmp (fe_dir e) dir = Some r" using kstrcmp_defined [OF t Cons.prems(2)] by blast
    with True kstrcmp_zero_iff [OF r] Cons show ?thesis by (auto simp: entries_in_def)
  next
    case False
    with Cons show ?thesis by (simp add: entries_in_def)
  qed
qed (simp add: entries_in_def)

lemma fs_dir_empty_eq:
  assumes "fs_wf s" and "terminated dir"
  shows "fs_dir_empty dir s = Some (\<forall>n. fs_abs s (n, cstr dir) = None)"
proof -
  have len: "length (files s) = FS_MAX_FILES" using assms(1) fs_wf_shape fs_shape_files by blast
  have "entries_in (cstr dir) (files s) = [] \<longleftrightarrow>
      (\<forall>i < FS_MAX_FILES. used (files s ! i) \<longrightarrow> cstr (fe_dir (files s ! i)) \<noteq> cstr dir)"
    unfolding entries_in_def filter_empty_conv by (simp add: all_set_conv_all_nth len)
  also have "\<dots> \<longleftrightarrow> (\<forall>n. fs_abs s (n, cstr dir) = None)"
    by (auto simp: fs_abs_None [OF assms(1)] entry_key_def)
  finally show ?thesis
    using dir_empty_from_eq [OF fs_wf_strings [OF assms(1)] assms(2)] by (simp add: fs_dir_empty_def)
qed

section \<open>Instances\<close>

definition machine1 :: kernel where
  "machine1 = machine0\<lparr>disk := demo_fs\<rparr>"

lemma machine1_ok [simp]: "machine_ok machine1" "disk machine1 = demo_fs"
  by (simp_all add: machine1_def)

lemma demo_content: "content demo_fs demo_entry = [NUL]"
  by (simp add: content_def chain_bytes_def) (simp add: demo_fs_def fs0_def demo_entry_def FS_N_BLOCKS_def FS_BLOCK_SIZE_def take_Cons' split: nat.split)

lemma demo_abs: "fs_abs demo_fs = [(''a'', ''/'') \<mapsto> [NUL]]"
proof -
  have "files demo_fs = demo_entry # replicate 31 blank_entry" by (simp add: demo_fs_def)
  moreover have "entry_key demo_entry = (''a'', ''/'')" by (simp add: entry_key_def demo_entry_def)
  ultimately show ?thesis by (simp add: fs_abs_def demo_content)
qed

lemma demo_names: "fits_name (lit ''a'')" "fits_name (lit ''b'')" "fits_name (lit ''/'')"
  by (simp_all add: fits_name_def FS_NAME_LEN_def)

theorem fs_edit_correct_witness:
  "runs (fs_edit (Some (lit ''a'')) (lit ''/'') machine1) (\<lambda>_ k'. fs_wf (disk k')) (\<lambda>e k'. e = Blocked \<and> disk k' = demo_fs)"
  using fs_edit_correct [OF machine1_ok(1) _ demo_names(1) _ demo_names(3) refl]
  by (auto simp: demo_abs elim!: runs_mono)

theorem fs_delete_correct_witness:
  "runs (fs_delete (Some (lit ''a'')) (lit ''/'') machine1)
     (\<lambda>_ k'. fs_abs (disk k') = Map.empty \<or> fs_abs (disk k') = fs_abs demo_fs) (\<lambda>e k'. e = Blocked)"
  using fs_delete_correct [OF machine1_ok(1) _ demo_names(1) _ demo_names(3) refl]
  by (auto simp: demo_abs elim!: runs_mono split: if_splits)

theorem fs_rename_correct_witness:
  "\<exists>k'. fs_rename (Some (lit ''a'')) (Some (lit ''b'')) (lit ''/'') machine1 = Ret () k' \<and>
     fs_abs (disk k') = [(''b'', ''/'') \<mapsto> [NUL]]"
  using fs_rename_correct [OF machine1_ok(1) _ demo_names(1) _ demo_names(2) _ demo_names(3)]
  by (auto simp: demo_abs)

theorem fs_copy_correct_witness:
  "\<exists>k'. fs_copy (Some (lit ''a'')) (Some (lit ''b'')) (lit ''/'') machine1 = Ret () k' \<and>
     fs_abs (disk k') = [(''a'', ''/'') \<mapsto> [NUL], (''b'', ''/'') \<mapsto> [NUL]]"
proof -
  have "\<not> used (files demo_fs ! 1)" "1 < FS_MAX_FILES" by (simp_all add: demo_files FS_MAX_FILES_def)
  then have "\<not> (\<forall>i < FS_MAX_FILES. used (files demo_fs ! i))" by blast
  moreover have "1 \<in> set (free_blocks (fat demo_fs))"
    by (simp add: set_free_blocks FS_N_BLOCKS_def demo_fs_def)
  then have "n_blocks 1 \<le> length (free_blocks (fat demo_fs))"
    by (cases "free_blocks (fat demo_fs)") (simp_all add: n_blocks_def FS_BLOCK_SIZE_def)
  ultimately show ?thesis
    using fs_copy_correct [OF machine1_ok(1) _ demo_names(1) _ demo_names(2) _ demo_names(3)]
    by (auto simp: demo_abs)
qed

theorem fs_read_correct_witness:
  "fs_read (Some (lit ''a'')) (lit ''/'') machine1 = say (read_screen (lit ''a'') [NUL]) machine1"
  using fs_read_correct [OF machine1_ok(1) _ demo_names(1) _ demo_names(3)] by (simp add: demo_abs)

theorem fs_list_correct_witness:
  "fs_list (lit ''/home'') machine1 = say [Ln (lit ''  (no files in this directory)'')] machine1"
proof -
  have "entries_in ''/home'' (files demo_fs) = []"
    by (simp add: entries_in_def demo_fs_def demo_entry_def)
  then show ?thesis using fs_list_correct [of machine1 "lit ''/home''"] by simp
qed

end
