(* ===== verification/Dirops.thy ===== *)
theory Dirops
  imports Fsmore
begin

text \<open>
  The operations of \<open>src/src/dir.c\<close> on the whole kernel: argument checks, messages, the confirmation
  of \<open>rmdir\<close> and the changes of the directory table, in the order of the source. The uninitialised
  path buffers of the source are the first 64 bytes of \<open>junk\<close>.
\<close>

section \<open>dir\_mkdir\<close>

definition path_buf :: "kernel \<Rightarrow> cptr" where
  "path_buf k = take DIR_NAME_LEN (junk k)"

definition dir_mkdir :: "cptr option \<Rightarrow> kernel \<Rightarrow> (unit, kernel) outcome" where
  "dir_mkdir name k =
     bnd (chk (no_name name) k) (\<lambda>missing k.
     if missing then complain [Ln (lit ''  [mkdir] Error: usage: mkdir <dirname>'')] k
     else if dir_count (dtab k) \<ge> DIR_MAX then
       complain [Ln (lit ''  [mkdir] Error: maximum number of directories reached'')] k
     else
       bnd (chk (build_path (path_buf k) (the name) (dtab k)) k) (\<lambda>newpath k.
       bnd (chk (find_dir newpath (dtab k)) k) (\<lambda>idx k.
       if idx < DIR_MAX then
         complain [Wr (lit ''  [mkdir] Error: directory already exists: ''), Ln newpath] k
       else
         bnd (chk (add_dir newpath (dtab k)) k) (\<lambda>t k.
         confirm [Wr (lit (''  [mkdir] Directory '' @ [CHR 0x27])), Wr newpath, Ln (lit (CHR 0x27 # '' created.''))]
           (k\<lparr>dtab := t\<rparr>)))))"

section \<open>dir\_cd\<close>

definition dir_cd :: "cptr option \<Rightarrow> kernel \<Rightarrow> (unit, kernel) outcome" where
  "dir_cd target k =
     bnd (chk (no_name target) k) (\<lambda>missing k.
     if missing then complain [Ln (lit ''  [cd] Error: usage: cd <dirname>'')] k
     else let target = the target in
     bnd (chk (kstrcmp target (lit ''..'')) k) (\<lambda>up k.
     bnd (if up = 0 then chk (parent_path (path_buf k) (dir_getcwd (dtab k))) k
          else
            bnd (chk (kstrcmp target (lit ''/'')) k) (\<lambda>root k.
              if root = 0 then chk (set_root (path_buf k)) k
              else chk (build_path (path_buf k) target (dtab k)) k)) (\<lambda>newpath k.
     bnd (chk (find_dir newpath (dtab k)) k) (\<lambda>idx k.
     if idx = DIR_MAX then
       complain [Wr (lit ''  [cd] Error: directory not found: ''), Ln newpath] k
     else
       let k = k\<lparr>dtab := (dtab k)\<lparr>cwd_idx := idx\<rparr>\<rparr> in
       confirm [Wr (lit ''  [cd] Now in: ''), Ln (dir_getcwd (dtab k))] k))))"

section \<open>dir\_rmdir\<close>

definition dir_rmdir :: "cptr option \<Rightarrow> kernel \<Rightarrow> (unit, kernel) outcome" where
  "dir_rmdir name k =
     bnd (chk (no_name name) k) (\<lambda>missing k.
     if missing then complain [Ln (lit ''  [rmdir] Error: usage: rmdir <dirname>'')] k
     else
       bnd (chk (build_path (path_buf k) (the name) (dtab k)) k) (\<lambda>target k.
       bnd (chk (kstrcmp target (lit ''/'')) k) (\<lambda>root k.
       if root = 0 then complain [Ln (lit ''  [rmdir] Error: cannot remove root directory'')] k
       else
         bnd (chk (find_dir target (dtab k)) k) (\<lambda>idx k.
         if idx = DIR_MAX then
           complain [Wr (lit ''  [rmdir] Error: directory not found: ''), Ln target] k
         else if idx = cwd_idx (dtab k) then
           complain [Ln (lit ''  [rmdir] Error: cannot remove current working directory'')] k
         else
           bnd (chk (fs_dir_empty target (disk k)) k) (\<lambda>empty k.
           if \<not> empty then
             complain [Wr (lit ''  [rmdir] Error: directory is not empty: ''), Ln target] k
           else
             bnd (say [Wr (lit (''  Delete directory '' @ [CHR 0x27])), Wr target,
                       Wr (lit (CHR 0x27 # ''? (y/n): ''))] k) (\<lambda>_ k.
             bnd (readline (take 4 (junk k)) 4 k) (\<lambda>r k.
             bnd (chk (peek (snd r) 0) k) (\<lambda>c k.
             if c \<noteq> CHR ''y'' \<and> c \<noteq> CHR ''Y'' then say [Ln (lit ''  [rmdir] Cancelled.'')] k
             else
               bnd (chk (remove_dir idx (dtab k)) k) (\<lambda>t k.
               confirm [Wr (lit (''  [rmdir] '' @ [CHR 0x27])), Wr target, Ln (lit (CHR 0x27 # '' removed.''))]
                 (k\<lparr>dtab := t\<rparr>))))))))))"

section \<open>dir\_ls\<close>

fun ls_loop :: "cptr \<Rightarrow> cptr list \<Rightarrow> kernel \<Rightarrow> (unit, kernel) outcome" where
  "ls_loop dir [] k = Ret () k"
| "ls_loop dir (d # ds) k =
     bnd (chk (is_immediate_child d dir) k) (\<lambda>child k.
     bnd (if child then say [Wr (lit ''  [DIR]  ''), Ln d] k else Ret () k) (\<lambda>_ k.
     ls_loop dir ds k))"

definition dir_ls :: "kernel \<Rightarrow> (unit, kernel) outcome" where
  "dir_ls k =
     (let dir = dir_getcwd (dtab k) in
      bnd (say [Col VGA_LIGHT_CYAN VGA_BLACK, Wr (lit ''  Directory listing: ''), Ln dir, Ln (lit []),
                Col VGA_WHITE VGA_BLACK] k) (\<lambda>_ k.
      bnd (ls_loop dir (take (dir_count (dtab k)) (dirs (dtab k))) k) (\<lambda>_ k.
      fs_list dir k)))"

end
