(* ===== verification/Dirprops.thy ===== *)
theory Dirprops
  imports Dirops
begin

text \<open>
  The operations of \<open>src/src/dir.c\<close> against an abstract directory tree: the list of the known
  paths and the current one. A name given to a command is resolved to an absolute path by
  \<open>path_join\<close>, and each command is the corresponding change of that list.
\<close>

section \<open>Preliminaries\<close>

lemma no_name_terminated: "terminated p \<Longrightarrow> no_name (Some p) = Some (cstr p = [])"
  by (simp add: no_name.simps kstrlen_eq)

lemma path_buf_length: "machine_ok k \<Longrightarrow> length (path_buf k) = DIR_NAME_LEN"
  by (simp add: path_buf_def machine_ok_def DIR_NAME_LEN_def)

lemma absolute_join: "absolute c \<Longrightarrow> n \<noteq> [] \<Longrightarrow> absolute (path_join c n)"
  by (cases n; cases "tl n") (auto simp: absolute_def path_join_def strip_slash_def)

lemma built_path:
  assumes "machine_ok k" and "dir_wf (dtab k)" and "path_fits (cwd (dtab k)) name"
  obtains p where "build_path (path_buf k) name (dtab k) = Some p" "path_ok (path_join (cwd (dtab k)) (cstr name)) p"
  using build_path_eq [OF path_buf_length [OF assms(1)] assms(2,3)] by blast

lemma path_okD: "path_ok s p \<Longrightarrow> terminated p" "path_ok s p \<Longrightarrow> cstr p = s" "path_ok s p \<Longrightarrow> length p = DIR_NAME_LEN"
  by (simp_all add: path_ok_def)

lemma cwd_length: "dir_wf t \<Longrightarrow> length (cwd t) < DIR_NAME_LEN"
  using dir_rowD [of t "cwd_idx t"] length_cstr_less [of "dir_getcwd t"]
  by (auto simp: cwd_def dir_getcwd_def dir_wf_def)

lemma runs_return: "runs m (\<lambda>_. P) (\<lambda>_ _. False) \<Longrightarrow> \<exists>k'. m = Ret () k' \<and> P k'"
  by (cases m) auto

lemma filter_other:
  assumes "distinct xs" and "i < length xs"
  shows "take i xs @ drop (Suc i) xs = filter (\<lambda>x. x \<noteq> xs ! i) xs"
proof -
  define us where "us = take i xs"
  define vs where "vs = drop (Suc i) xs"
  define x where "x = xs ! i"
  have xs: "xs = us @ x # vs" unfolding us_def vs_def x_def using assms(2) by (rule id_take_nth_drop)
  then have "x \<notin> set us" "x \<notin> set vs" using assms(1) by auto
  then have "filter (\<lambda>y. y \<noteq> x) us = us" "filter (\<lambda>y. y \<noteq> x) vs = vs" by (auto simp: filter_id_conv)
  then have "filter (\<lambda>y. y \<noteq> x) xs = us @ vs" unfolding xs by simp
  then show ?thesis unfolding us_def vs_def x_def by simp
qed

section \<open>dir\_mkdir\<close>

lemma dir_mkdir_ok:
  assumes "machine_ok k" and "dir_wf (dtab k)" and "path_fits (cwd (dtab k)) name"
    and "p = path_join (cwd (dtab k)) (cstr name)"
  shows "\<exists>k'. dir_mkdir (Some name) k = Ret () k' \<and> dir_wf (dtab k') \<and> cwd (dtab k') = cwd (dtab k) \<and>
     disk k' = disk k \<and> machine_ok k' \<and>
     paths (dtab k') = (if length (paths (dtab k)) = DIR_MAX \<or> p \<in> set (paths (dtab k))
                        then paths (dtab k) else paths (dtab k) @ [p])"
proof (rule runs_return)
  have name: "terminated name" "cstr name \<noteq> []" using assms(3) by (simp_all add: path_fits_def)
  have count: "dir_count (dtab k) \<le> DIR_MAX" using assms(2) by (simp add: dir_wf_def)
  note len = length_paths [OF assms(2)]
  obtain b where b: "build_path (path_buf k) name (dtab k) = Some b" "path_ok p b"
    using built_path [OF assms(1-3)] assms(4) by blast
  note bD = path_okD [OF b(2)]
  have abs: "absolute p" using absolute_join [OF cwd_absolute [OF assms(2)] name(2)] assms(4) by simp
  show "runs (dir_mkdir (Some name) k) (\<lambda>_ k'. dir_wf (dtab k') \<and> cwd (dtab k') = cwd (dtab k) \<and>
     disk k' = disk k \<and> machine_ok k' \<and>
     paths (dtab k') = (if length (paths (dtab k)) = DIR_MAX \<or> p \<in> set (paths (dtab k))
                        then paths (dtab k) else paths (dtab k) @ [p])) (\<lambda>_ _. False)"
  proof (rule find_dir_cases [OF assms(2) bD(1)])
    fix i assume "i < dir_count (dtab k)" "i < DIR_MAX" "find_dir b (dtab k) = Some i" "paths (dtab k) ! i = cstr b"
    then show ?thesis
      using assms(1,2) name b bD len count nth_mem [of i "paths (dtab k)"]
      by (auto simp: dir_mkdir_def no_name_terminated intro!: complain_ok)
  next
    assume absent: "find_dir b (dtab k) = Some DIR_MAX" "cstr b \<notin> set (paths (dtab k))"
    show ?thesis
    proof (cases "dir_count (dtab k) < DIR_MAX")
      case True
      obtain t where "add_dir b (dtab k) = Some t" "dir_wf t" "cwd t = cwd (dtab k)" "paths t = paths (dtab k) @ [p]"
        using add_dir_eq [OF assms(2) True b(2) abs] absent(2) bD by blast
      with True show ?thesis
        using assms(1) name b bD len absent
        by (auto simp: dir_mkdir_def no_name_terminated intro!: confirm_ok)
    next
      case False
      with count show ?thesis
        using assms(1,2) name len by (auto simp: dir_mkdir_def no_name_terminated intro!: complain_ok)
    qed
  qed
qed

text \<open>C12: \<open>dir_mkdir\<close>, given a name whose absolute path fits in 63 characters, adds that path at the
  end of the table unless it is there already or the table is full, in which cases it changes
  nothing. The current directory and all files stay as they are, and it never accesses memory
  out of bounds.\<close>

theorem dir_mkdir_correct:
  assumes "machine_ok k" and "dir_wf (dtab k)" and "path_fits (cwd (dtab k)) name"
    and "p = path_join (cwd (dtab k)) (cstr name)"
  shows "\<exists>k'. dir_mkdir (Some name) k = Ret () k' \<and> dir_wf (dtab k') \<and> cwd (dtab k') = cwd (dtab k) \<and>
     disk k' = disk k \<and> machine_ok k' \<and>
     paths (dtab k') = (if length (paths (dtab k)) = DIR_MAX \<or> p \<in> set (paths (dtab k))
                        then paths (dtab k) else paths (dtab k) @ [p])"
  using assms by (rule dir_mkdir_ok)

section \<open>dir\_cd\<close>

text \<open>The path that \<open>cd\<close> looks for.\<close>

definition cd_path :: "string \<Rightarrow> string \<Rightarrow> string" where
  "cd_path c n = (if n = ''..'' then parent c else path_join c n)"

lemma cd_target:
  assumes "machine_ok k" and "dir_wf (dtab k)" and "terminated target"
    and "cstr target = ''..'' \<or> path_fits (cwd (dtab k)) target"
    and "kstrcmp target (lit ''..'') = Some up"
  shows "\<exists>p. (if up = 0 then chk (parent_path (path_buf k) (dir_getcwd (dtab k))) k
          else bnd (chk (kstrcmp target (lit ''/'')) k) (\<lambda>root k.
              if root = 0 then chk (set_root (path_buf k)) k
              else chk (build_path (path_buf k) target (dtab k)) k)) = Ret p k \<and>
     path_ok (cd_path (cwd (dtab k)) (cstr target)) p"
proof (cases "up = 0")
  case True
  then have "cstr target = ''..''" using kstrcmp_zero_iff [OF assms(5)] by simp
  then show ?thesis
    using True parent_path_eq [OF path_buf_length [OF assms(1)], of "dir_getcwd (dtab k)"] cwd_eq [OF assms(2)]
      cwd_length [OF assms(2)] cwd_absolute [OF assms(2)] by (auto simp: cd_path_def cwd_def)
next
  case False
  then have ne: "cstr target \<noteq> ''..''" using kstrcmp_zero_iff [OF assms(5)] by simp
  obtain r where r: "kstrcmp target (lit ''/'') = Some r" using kstrcmp_defined [OF assms(3) terminated_lit] by blast
  then have r0: "r = 0 \<longleftrightarrow> cstr target = ''/''" using kstrcmp_zero_iff [OF r] by simp
  show ?thesis
  proof (cases "r = 0")
    case True
    with False r r0 show ?thesis
      using set_root_eq [OF path_buf_length [OF assms(1)]] by (auto simp: cd_path_def path_join_def strip_slash_def)
  next
    case rn: False
    obtain p where "build_path (path_buf k) target (dtab k) = Some p" "path_ok (path_join (cwd (dtab k)) (cstr target)) p"
      using built_path [OF assms(1,2)] assms(4) ne by blast
    with rn False r ne show ?thesis by (auto simp: cd_path_def)
  qed
qed

lemma dir_cd_ok:
  assumes "machine_ok k" and "dir_wf (dtab k)" and "terminated target" and "cstr target \<noteq> []"
    and "cstr target = ''..'' \<or> path_fits (cwd (dtab k)) target"
    and "p = cd_path (cwd (dtab k)) (cstr target)"
  shows "\<exists>k'. dir_cd (Some target) k = Ret () k' \<and> dir_wf (dtab k') \<and> paths (dtab k') = paths (dtab k) \<and>
     disk k' = disk k \<and> machine_ok k' \<and>
     cwd (dtab k') = (if p \<in> set (paths (dtab k)) then p else cwd (dtab k))"
proof (rule runs_return)
  let ?post = "\<lambda>k'. dir_wf (dtab k') \<and> paths (dtab k') = paths (dtab k) \<and>
     disk k' = disk k \<and> machine_ok k' \<and>
     cwd (dtab k') = (if p \<in> set (paths (dtab k)) then p else cwd (dtab k))"
  obtain up where up: "kstrcmp target (lit ''..'') = Some up" using kstrcmp_defined [OF assms(3) terminated_lit] by blast
  obtain b where b: "(if up = 0 then chk (parent_path (path_buf k) (dir_getcwd (dtab k))) k
          else bnd (chk (kstrcmp target (lit ''/'')) k) (\<lambda>root k.
              if root = 0 then chk (set_root (path_buf k)) k
              else chk (build_path (path_buf k) target (dtab k)) k)) = Ret b k"
    and ok: "path_ok p b"
    using cd_target [OF assms(1-3,5) up] assms(6) by blast
  note bD = path_okD [OF ok]
  have eq: "dir_cd (Some target) k =
     bnd (chk (find_dir b (dtab k)) k) (\<lambda>idx k.
     if idx = DIR_MAX then complain [Wr (lit ''  [cd] Error: directory not found: ''), Ln b] k
     else
       let k = k\<lparr>dtab := (dtab k)\<lparr>cwd_idx := idx\<rparr>\<rparr> in
       confirm [Wr (lit ''  [cd] Now in: ''), Ln (dir_getcwd (dtab k))] k)"
    unfolding dir_cd_def using assms(3,4) up by (simp add: no_name_terminated b)
  show "runs (dir_cd (Some target) k) (\<lambda>_. ?post) (\<lambda>_ _. False)"
  proof (rule find_dir_cases [OF assms(2) bD(1)])
    fix i assume i: "i < dir_count (dtab k)" "i < DIR_MAX" "find_dir b (dtab k) = Some i" "paths (dtab k) ! i = cstr b"
    define t where "t = (dtab k)\<lparr>cwd_idx := i\<rparr>"
    have t: "dir_wf t" "paths t = paths (dtab k)" "cwd t = p" "p \<in> set (paths (dtab k))" "terminated (dir_getcwd t)"
      using assms(2) i bD nth_paths [OF assms(2) i(1)] dir_rowD [OF assms(2) i(1)] length_paths [OF assms(2)]
        nth_mem [of i "paths (dtab k)"]
      by (auto simp: t_def dir_wf_def paths_def cwd_def dir_getcwd_def)
    show ?thesis
      unfolding eq using i t assms(1) by (auto simp: Let_def t_def [symmetric] intro!: confirm_ok)
  next
    assume "find_dir b (dtab k) = Some DIR_MAX" "cstr b \<notin> set (paths (dtab k))"
    then show ?thesis unfolding eq using assms(1,2) bD by (auto intro!: complain_ok)
  qed
qed

text \<open>\<open>dir_cd\<close> moves to the named directory exactly when it is in the table, where \<open>..\<close> names the
  parent; otherwise the current directory stays. The set of directories and all files are
  unchanged, and it never accesses memory out of bounds.\<close>

theorem dir_cd_correct:
  assumes "machine_ok k" and "dir_wf (dtab k)" and "terminated target" and "cstr target \<noteq> []"
    and "cstr target = ''..'' \<or> path_fits (cwd (dtab k)) target"
    and "p = cd_path (cwd (dtab k)) (cstr target)"
  shows "\<exists>k'. dir_cd (Some target) k = Ret () k' \<and> dir_wf (dtab k') \<and> paths (dtab k') = paths (dtab k) \<and>
     disk k' = disk k \<and> machine_ok k' \<and>
     cwd (dtab k') = (if p \<in> set (paths (dtab k)) then p else cwd (dtab k))"
  using assms by (rule dir_cd_ok)

section \<open>dir\_rmdir\<close>

text \<open>After the checks: the question, and the removal if the answer is yes.\<close>

lemma dir_rmdir_asks:
  assumes ok: "machine_ok k" "dir_wf (dtab k)" and b: "path_ok p b"
    and i: "0 < i" "i < dir_count (dtab k)" "i \<noteq> cwd_idx (dtab k)" "paths (dtab k) ! i = p"
  defines "ask \<equiv> [Wr (lit (''  Delete directory '' @ [CHR 0x27])), Wr b, Wr (lit (CHR 0x27 # ''? (y/n): ''))]"
  shows "runs (bnd (bnd (say ask k) (\<lambda>_ k. readline (take 4 (junk k)) 4 k)) (\<lambda>r k.
       bnd (chk (peek (snd r) 0) k) (\<lambda>c k.
       if c \<noteq> CHR ''y'' \<and> c \<noteq> CHR ''Y'' then say [Ln (lit ''  [rmdir] Cancelled.'')] k
       else
         bnd (chk (remove_dir i (dtab k)) k) (\<lambda>t k.
         confirm [Wr (lit (''  [rmdir] '' @ [CHR 0x27])), Wr b, Ln (lit (CHR 0x27 # '' removed.''))]
           (k\<lparr>dtab := t\<rparr>)))))
     (\<lambda>_ k'. machine_ok k' \<and> dir_wf (dtab k') \<and> cwd (dtab k') = cwd (dtab k) \<and> disk k' = disk k \<and>
        (\<exists>cs. gets_from k (cs @ [CHR 0x0A]) k' \<and> CHR 0x0A \<notin> set cs \<and>
           paths (dtab k') = (if answers_yes cs then filter (\<lambda>q. q \<noteq> p) (paths (dtab k)) else paths (dtab k))))
     (blocked k)"
proof -
  obtain t where t: "remove_dir i (dtab k) = Some t" "dir_wf t" "cwd t = cwd (dtab k)"
    "paths t = take i (paths (dtab k)) @ drop (Suc i) (paths (dtab k))"
    using remove_dir_eq [OF ok(2) i(1-3)] by blast
  have "distinct (paths (dtab k))" "i < length (paths (dtab k))"
    using ok(2) i(2) length_paths [OF ok(2)] by (simp_all add: dir_wf_def)
  then have ps: "paths t = filter (\<lambda>q. q \<noteq> p) (paths (dtab k))" using filter_other t(4) i(4) by metis
  show ?thesis
  proof (rule runs_bnd [OF ask_ok [OF ok(1)]])
    show "list_all vcall_ok ask" using path_okD(1) [OF b] by (simp add: ask_def)
  next
    fix r k1
    assume "ask_post k r k1"
    then obtain cs c where io: "io_only k k1" and g: "gets_from k (cs @ [CHR 0x0A]) k1" "CHR 0x0A \<notin> set cs"
      and c: "peek (snd r) 0 = Some c" "c \<noteq> CHR ''y'' \<and> c \<noteq> CHR ''Y'' \<longleftrightarrow> \<not> answers_yes cs"
      by (auto simp: ask_post_def)
    have g': "gets_from k (cs @ [CHR 0x0A]) k'" if "same_input k1 k'" for k'
      using g(1) that unfolding gets_from_def same_input_def by metis
    show "runs (bnd (chk (peek (snd r) 0) k1) (\<lambda>c k.
       if c \<noteq> CHR ''y'' \<and> c \<noteq> CHR ''Y'' then say [Ln (lit ''  [rmdir] Cancelled.'')] k
       else
         bnd (chk (remove_dir i (dtab k)) k) (\<lambda>t k.
         confirm [Wr (lit (''  [rmdir] '' @ [CHR 0x27])), Wr b, Ln (lit (CHR 0x27 # '' removed.''))]
           (k\<lparr>dtab := t\<rparr>))))
     (\<lambda>_ k'. machine_ok k' \<and> dir_wf (dtab k') \<and> cwd (dtab k') = cwd (dtab k) \<and> disk k' = disk k \<and>
        (\<exists>cs. gets_from k (cs @ [CHR 0x0A]) k' \<and> CHR 0x0A \<notin> set cs \<and>
           paths (dtab k') = (if answers_yes cs then filter (\<lambda>q. q \<noteq> p) (paths (dtab k)) else paths (dtab k))))
     (blocked k)"
    proof (cases "answers_yes cs")
      case True
      then show ?thesis
        using c io t ps ok(2) path_okD(1) [OF b] g(2)
        by (auto simp: io_only_def intro!: confirm_ok exI [of _ cs] g') (simp_all add: same_input_def)
    next
      case False
      then show ?thesis
        using c io ok(2) g(2) by (auto simp: io_only_def intro!: say_ok exI [of _ cs] g') (simp add: same_input_def)
    qed
  qed
qed

lemma dir_rmdir_ok:
  assumes "machine_ok k" and "fs_wf (disk k)" and "dir_wf (dtab k)" and "path_fits (cwd (dtab k)) name"
    and "p = path_join (cwd (dtab k)) (cstr name)"
  shows "runs (dir_rmdir (Some name) k)
     (\<lambda>_ k'. machine_ok k' \<and> dir_wf (dtab k') \<and> cwd (dtab k') = cwd (dtab k) \<and> disk k' = disk k \<and>
        (if p = ''/'' \<or> p \<notin> set (paths (dtab k)) \<or> p = cwd (dtab k) \<or> (\<exists>n. fs_abs (disk k) (n, p) \<noteq> None)
         then dtab k' = dtab k
         else \<exists>cs. gets_from k (cs @ [CHR 0x0A]) k' \<and> CHR 0x0A \<notin> set cs \<and>
           paths (dtab k') = (if answers_yes cs then filter (\<lambda>q. q \<noteq> p) (paths (dtab k)) else paths (dtab k))))
     (\<lambda>e k'. e = Blocked \<and> machine_ok k' \<and> disk k' = disk k \<and> dtab k' = dtab k)"
proof -
  have name: "terminated name" "cstr name \<noteq> []" using assms(4) by (simp_all add: path_fits_def)
  obtain b where b: "build_path (path_buf k) name (dtab k) = Some b" "path_ok p b"
    using built_path [OF assms(1,3,4)] assms(5) by blast
  note bD = path_okD [OF b(2)]
  obtain r where r: "kstrcmp b (lit ''/'') = Some r" using kstrcmp_defined [OF bD(1) terminated_lit] by blast
  have r0: "r = 0 \<longleftrightarrow> p = ''/''" using kstrcmp_zero_iff [OF r] bD by simp
  note start = dir_rmdir_def no_name_terminated [OF name(1)]
  note empty = fs_dir_empty_eq [OF assms(2) bD(1), unfolded bD(2)]
  show ?thesis
  proof (rule find_dir_cases [OF assms(3) bD(1)])
    assume "find_dir b (dtab k) = Some DIR_MAX" "cstr b \<notin> set (paths (dtab k))"
    then show ?thesis
      using assms(1,3) name b(1) bD r r0 by (auto simp: start intro!: complain_ok)
  next
    fix i assume i: "i < dir_count (dtab k)" "i < DIR_MAX" "find_dir b (dtab k) = Some i" "paths (dtab k) ! i = cstr b"
    have len: "length (paths (dtab k)) = dir_count (dtab k)" using length_paths [OF assms(3)] .
    have wf: "cwd_idx (dtab k) < dir_count (dtab k)" "distinct (paths (dtab k))" "paths (dtab k) ! 0 = ''/''"
      using assms(3) by (simp_all add: dir_wf_def)
    have mem: "p \<in> set (paths (dtab k))" using i bD len nth_mem by metis
    have cur: "i = cwd_idx (dtab k) \<longleftrightarrow> p = cwd (dtab k)"
      using cwd_eq [OF assms(3)] i bD wf nth_eq_iff_index_eq [OF wf(2), of i "cwd_idx (dtab k)"] len by auto
    have root: "p \<noteq> ''/'' \<Longrightarrow> 0 < i" using i(4) bD wf(3) by (cases i) auto
    have ne: "i \<noteq> DIR_MAX" using i(2) by simp
    show ?thesis
    proof (cases "p = ''/'' \<or> p = cwd (dtab k) \<or> (\<exists>n. fs_abs (disk k) (n, p) \<noteq> None)")
      case True
      then show ?thesis
        using assms(1,3) name b(1) bD r r0 i(3) ne cur empty by (auto simp: start intro!: complain_ok)
    next
      case False
      then have f: "p \<noteq> ''/''" "i \<noteq> cwd_idx (dtab k)" "fs_dir_empty b (disk k) = Some True" "r \<noteq> 0"
        using cur empty r0 by auto
      note asks = dir_rmdir_asks [OF assms(1,3) b(2) root [OF f(1)] i(1) f(2) i(4) [unfolded bD(2)]]
      have "runs (dir_rmdir (Some name) k)
       (\<lambda>_ k'. machine_ok k' \<and> dir_wf (dtab k') \<and> cwd (dtab k') = cwd (dtab k) \<and> disk k' = disk k \<and>
        (\<exists>cs. gets_from k (cs @ [CHR 0x0A]) k' \<and> CHR 0x0A \<notin> set cs \<and>
           paths (dtab k') = (if answers_yes cs then filter (\<lambda>q. q \<noteq> p) (paths (dtab k)) else paths (dtab k))))
       (blocked k)"
        using asks name b(1) r i(3) ne f by (simp add: start bnd_assoc)
      then show ?thesis
        using False mem by (auto simp: blocked_def io_only_def elim!: runs_mono)
    qed
  qed
qed

text \<open>C13: \<open>dir_rmdir\<close>, given a non-empty name of less than 64 characters whose absolute path also has
  less than 64 (longer ones leave the path buffer unterminated, which is not covered), never removes the root, the current directory, a directory that holds a file
  or one that is not in the table: then it changes nothing. Otherwise it removes exactly the named
  path, and only after the user answered yes; the other paths keep their order and the current
  directory is still the same one. It never accesses memory out of bounds, touches no file, and
  nothing has changed while it waits for the answer.\<close>

theorem dir_rmdir_correct:
  assumes "machine_ok k" and "fs_wf (disk k)" and "dir_wf (dtab k)" and "path_fits (cwd (dtab k)) name"
    and "p = path_join (cwd (dtab k)) (cstr name)"
  shows "runs (dir_rmdir (Some name) k)
     (\<lambda>_ k'. machine_ok k' \<and> dir_wf (dtab k') \<and> cwd (dtab k') = cwd (dtab k) \<and> disk k' = disk k \<and>
        (if p = ''/'' \<or> p \<notin> set (paths (dtab k)) \<or> p = cwd (dtab k) \<or> (\<exists>n. fs_abs (disk k) (n, p) \<noteq> None)
         then dtab k' = dtab k
         else \<exists>cs. gets_from k (cs @ [CHR 0x0A]) k' \<and> CHR 0x0A \<notin> set cs \<and>
           paths (dtab k') = (if answers_yes cs then filter (\<lambda>q. q \<noteq> p) (paths (dtab k)) else paths (dtab k))))
     (\<lambda>e k'. e = Blocked \<and> machine_ok k' \<and> disk k' = disk k \<and> dtab k' = dtab k)"
  using assms by (rule dir_rmdir_ok)

section \<open>dir\_ls\<close>

definition ls_line :: "cptr \<Rightarrow> vcall list" where
  "ls_line d = [Wr (lit ''  [DIR]  ''), Ln d]"

definition children :: "string \<Rightarrow> cptr list \<Rightarrow> cptr list" where
  "children p ds = filter (\<lambda>d. child_of (cstr d) p) ds"

lemma ls_lines_ok: "list_all terminated ds \<Longrightarrow> list_all vcall_ok (concat (map ls_line (children p ds)))"
  by (induction ds) (auto simp: children_def ls_line_def)

lemma ls_loop_eq:
  assumes "list_all terminated ds" and "terminated p"
  shows "ls_loop p ds k = say (concat (map ls_line (children (cstr p) ds))) k"
  using assms(1)
proof (induction ds arbitrary: k)
  case Nil
  then show ?case by (simp add: children_def)
next
  case (Cons d ds)
  then have d: "is_immediate_child d p = Some (child_of (cstr d) (cstr p))" "list_all terminated ds" "terminated d"
    using is_immediate_child_eq [OF _ assms(2)] by auto
  note IH = Cons.IH [OF d(2)]
  show ?case
  proof (cases "child_of (cstr d) (cstr p)")
    case True
    have "list_all vcall_ok (ls_line d)" using d(3) by (simp add: ls_line_def)
    note app = say_append [OF this ls_lines_ok [OF d(2), of "cstr p"], of k]
    have "ls_loop p (d # ds) k = bnd (say (ls_line d) k) (\<lambda>_. ls_loop p ds)"
      using True d(1) by (simp add: ls_line_def)
    also have "ls_loop p ds = say (concat (map ls_line (children (cstr p) ds)))" using IH by (rule ext)
    finally show ?thesis using True app by (simp add: children_def)
  next
    case False
    with d(1) IH show ?thesis by (simp add: children_def)
  qed
qed

lemma dir_ls_ok:
  assumes "fs_wf (disk k)" and "dir_wf (dtab k)"
  shows "dir_ls k = bnd (say
       ([Col VGA_LIGHT_CYAN VGA_BLACK, Wr (lit ''  Directory listing: ''), Ln (dir_getcwd (dtab k)), Ln (lit []),
         Col VGA_WHITE VGA_BLACK] @
        concat (map (\<lambda>d. [Wr (lit ''  [DIR]  ''), Ln d])
          (filter (\<lambda>d. child_of (cstr d) (cwd (dtab k))) (take (dir_count (dtab k)) (dirs (dtab k)))))) k)
     (\<lambda>_. fs_list (dir_getcwd (dtab k)))"
proof -
  define ds where "ds = take (dir_count (dtab k)) (dirs (dtab k))"
  define head where "head = [Col VGA_LIGHT_CYAN VGA_BLACK, Wr (lit ''  Directory listing: ''),
    Ln (dir_getcwd (dtab k)), Ln (lit []), Col VGA_WHITE VGA_BLACK]"
  have t: "terminated (dir_getcwd (dtab k))" "list_all terminated ds"
    using cwd_eq [OF assms(2)] assms(2) by (simp_all add: ds_def dir_wf_def)
  have hd_ok: "list_all vcall_ok head" using t(1) by (simp add: head_def)
  obtain v where v: "say head k = Ret () (k\<lparr>scr := v\<rparr>)" using say_disk [OF hd_ok] by blast
  have "(\<lambda>d. [Wr (lit ''  [DIR]  ''), Ln d]) = ls_line" by (rule ext) (simp add: ls_line_def)
  moreover have "dir_ls k = bnd (bnd (say head k) (\<lambda>_. say (concat (map ls_line (children (cwd (dtab k)) ds)))))
      (\<lambda>_. fs_list (dir_getcwd (dtab k)))"
    using v ls_loop_eq [OF t(2,1)]
    by (simp add: dir_ls_def Let_def head_def ds_def [symmetric] cwd_def)
  ultimately show ?thesis
    unfolding say_append [OF hd_ok ls_lines_ok [OF t(2)]] by (simp add: head_def ds_def children_def)
qed

text \<open>\<open>dir_ls\<close> prints the heading, one line for each directory directly below the current one
  and then the files of the current directory, or the remark that there are none; it changes
  nothing but the screen.\<close>

theorem dir_ls_correct:
  assumes "fs_wf (disk k)" and "dir_wf (dtab k)"
  shows "dir_ls k = bnd (say
       ([Col VGA_LIGHT_CYAN VGA_BLACK, Wr (lit ''  Directory listing: ''), Ln (dir_getcwd (dtab k)), Ln (lit []),
         Col VGA_WHITE VGA_BLACK] @
        concat (map (\<lambda>d. [Wr (lit ''  [DIR]  ''), Ln d])
          (filter (\<lambda>d. child_of (cstr d) (cwd (dtab k))) (take (dir_count (dtab k)) (dirs (dtab k)))))) k)
     (\<lambda>_. fs_list (dir_getcwd (dtab k)))"
  using assms by (rule dir_ls_ok)

section \<open>Instances\<close>

lemma machine0_dirs: "dir_wf (dtab machine0)" "cwd (dtab machine0) = ''/''" "paths (dtab machine0) = [''/'']"
  by (simp_all add: machine0_def dir_wf_def paths_def cwd_def dir_getcwd_def dir_row_def absolute_def DIR_MAX_def
      DIR_NAME_LEN_def cstr_replicate list_all_iff)

lemma home_fits: "path_fits ''/'' (lit ''home'')" "path_join ''/'' ''home'' = ''/home''"
  by (simp_all add: path_fits_def path_join_def DIR_NAME_LEN_def)

theorem dir_mkdir_correct_witness:
  "\<exists>k'. dir_mkdir (Some (lit ''home'')) machine0 = Ret () k' \<and> paths (dtab k') = [''/'', ''/home'']"
  using dir_mkdir_correct [OF machine0_ok machine0_dirs(1), of "lit ''home''", OF _ refl]
  by (auto simp: machine0_dirs home_fits DIR_MAX_def)

theorem dir_cd_correct_witness:
  "\<exists>k'. dir_cd (Some (lit ''..'')) machine0 = Ret () k' \<and> cwd (dtab k') = ''/''"
  using dir_cd_correct [OF machine0_ok machine0_dirs(1), of "lit ''..''", OF _ _ _ refl]
  by (auto simp: machine0_dirs cd_path_def parent_def)

text \<open>A directory to remove, and the keys of y and Enter.\<close>

definition home_dir :: kernel where
  "home_dir = machine0\<lparr>dtab := \<lparr>dirs = (CHR ''/'' # replicate 63 NUL) # (''/home'' @ replicate 59 NUL) # replicate 30 (replicate 64 NUL),
     dir_count = 2, cwd_idx = 0\<rparr>, pending := [[0x15], [0x1C]]\<rparr>"

lemma home_dir_ok: "machine_ok home_dir" "input_ready home_dir" "keys home_dir = kbd0" "pending home_dir = [[0x15], [0x1C]]"
    "disk home_dir = fs0" "junk home_dir = replicate 256 NUL"
  using machine0_ready [of "[[0x15], [0x1C]]"]
  by (simp_all add: home_dir_def input_ready_def) (simp_all add: machine0_def)

lemma home_dir_dirs: "dir_wf (dtab home_dir)" "cwd (dtab home_dir) = ''/''" "paths (dtab home_dir) = [''/'', ''/home'']"
  by (simp_all add: home_dir_def dir_wf_def paths_def cwd_def dir_getcwd_def dir_row_def absolute_def DIR_MAX_def
      DIR_NAME_LEN_def cstr_replicate list_all_iff numeral_2_eq_2)

lemma yes_arrives: "arrives kbd0 At_test [[0x15]] CHR ''y''" "arrives kbd0 At_test [[0x1C]] CHR 0x0A"
  using types_kbd0 by (auto intro!: arrives.before_test simp: keystroke_def idle_def)

text \<open>Reading a key does not depend on the screen, the files, the directories or the automatic buffers.\<close>

definition elsewhere :: "vga \<Rightarrow> fsys \<Rightarrow> dirtab \<Rightarrow> cptr \<Rightarrow> kernel \<Rightarrow> kernel" where
  "elsewhere v d t j k = k\<lparr>scr := v, disk := d, dtab := t, junk := j\<rparr>"

lemma elsewhere_input:
  "ios (elsewhere v d t j k) = ios k" "kcpu (elsewhere v d t j k) = kcpu k" "keys (elsewhere v d t j k) = keys k"
  "(elsewhere v d t j k)\<lparr>ios := i\<rparr> = elsewhere v d t j (k\<lparr>ios := i\<rparr>)"
  "(elsewhere v d t j k)\<lparr>pending := p\<rparr> = elsewhere v d t j (k\<lparr>pending := p\<rparr>)"
  by (simp_all add: elsewhere_def)

lemma press_elsewhere: "press sc (elsewhere v d t j k) = map_option (elsewhere v d t j) (press sc k)"
proof -
  have "run_handler h (elsewhere v d t j k) = map_option (elsewhere v d t j) (run_handler h k)" for h k
    by (cases h; cases "kbd_isr (inb KBD_DATA_PORT (ios k)) (keys k)") (simp_all add: elsewhere_def)
  then have "irq_dispatch i (elsewhere v d t j k) = map_option (elsewhere v d t j) (irq_dispatch i k)" for i k
    by (cases "irqs k ! unat i") (auto simp: irq_dispatch_def elsewhere_def simp del: run_handler.simps split: bind_split)
  then show ?thesis by (simp add: press_def Let_def elsewhere_input cong: if_cong)
qed

lemma press_all_elsewhere: "press_all b (elsewhere v d t j k) = map_option (elsewhere v d t j) (press_all b k)"
  by (induction b arbitrary: k) (auto simp: press_elsewhere split: bind_split)

lemma kbd_wait_elsewhere:
  "kbd_wait p bs k = Ret c k' \<Longrightarrow> kbd_wait p bs (elsewhere v d t j k) = Ret c (elsewhere v d t j k')"
proof (induction p bs k rule: kbd_wait.induct)
  case (1 p k)
  then show ?case by (auto simp: elsewhere_def kbd_fetch_def split: if_splits option.splits)
next
  case (2 p b bs k)
  then obtain k1 where k1: "press_all b (k\<lparr>pending := bs\<rparr>) = Some k1" by (auto split: option.splits)
  have g: "kbd_fetch k1 = Ret c k' \<Longrightarrow> kbd_fetch (elsewhere v d t j k1) = Ret c (elsewhere v d t j k')"
    by (auto simp: kbd_fetch_def elsewhere_def split: option.splits)
  show ?case
    using "2.prems" "2.IH" [OF k1] k1 g by (cases p) (auto simp: press_all_elsewhere elsewhere_input split: if_splits)
qed

lemma getchar_same_input:
  assumes "kbd_getchar k = Ret c k'" and "same_input k i"
  shows "\<exists>i'. kbd_getchar i = Ret c i' \<and> same_input k' i'"
proof -
  have "i = elsewhere (scr i) (disk i) (dtab i) (junk i) k"
    using assms(2) by (simp add: same_input_def elsewhere_def)
  then have "kbd_getchar i = Ret c (elsewhere (scr i) (disk i) (dtab i) (junk i) k')"
    using kbd_wait_elsewhere assms(1) assms(2) unfolding kbd_getchar_def same_input_def by metis
  then show ?thesis by (auto simp: same_input_def elsewhere_def)
qed

inductive_cases gets_consE: "gets k (c # cs) k'"

lemma yes_typed:
  assumes "gets_from home_dir (cs @ [CHR 0x0A]) k'" and "CHR 0x0A \<notin> set cs"
  shows "cs = ''y''"
proof -
  obtain k i where k: "same_input home_dir k" "gets k (cs @ [CHR 0x0A]) i"
    using assms(1) by (auto simp: gets_from_def)
  obtain j where j: "kbd_getchar home_dir = Ret CHR ''y'' j" "input_ready j" "pending j = [[0x1C]]" "modifiers (keys j) = modifiers kbd0"
    using getchar_arrives [OF home_dir_ok(2), of "[[0x15]]" "CHR ''y''" "[[0x1C]]"] yes_arrives home_dir_ok(3,4) by auto
  obtain j1 where j1: "kbd_getchar k = Ret CHR ''y'' j1" "same_input j j1" using getchar_same_input [OF j(1) k(1)] by blast
  obtain e where e: "kbd_getchar j = Ret (CHR 0x0A) e"
    using getchar_arrives [OF j(2) arrives_modifiers [OF yes_arrives(2) j(4)], of "[]"] j(3) by auto
  obtain c ds where cs: "cs = c # ds" using k(2) j1(1) by (cases cs) (auto elim: gets_consE)
  then obtain v where c: "c = CHR ''y''" "gets (j1\<lparr>scr := v\<rparr>) (ds @ [CHR 0x0A]) i"
    using k(2) j1(1) by (auto elim!: gets_consE)
  have "same_input j (j1\<lparr>scr := v\<rparr>)" using j1(2) by (simp add: same_input_def)
  then obtain e' where "kbd_getchar (j1\<lparr>scr := v\<rparr>) = Ret (CHR 0x0A) e'" using getchar_same_input [OF e] by blast
  then have "ds = []" using c(2) assms(2) cs by (cases ds) (auto elim!: gets_consE)
  with cs c(1) show ?thesis by simp
qed

text \<open>The operation returns.\<close>

lemma home_dir_removed: "\<exists>k'. dir_rmdir (Some (lit ''home'')) home_dir = Ret () k'"
proof -
  have wf: "fs_wf (disk home_dir)" "fs_abs (disk home_dir) = Map.empty"
    using fs0_wf by (simp_all add: home_dir_ok) (simp add: fs_abs_def fs0_def blank_entry_def)
  obtain b where b: "build_path (path_buf home_dir) (lit ''home'') (dtab home_dir) = Some b" "path_ok ''/home'' b"
    using built_path [OF home_dir_ok(1) home_dir_dirs(1), of "lit ''home''"] home_dir_dirs(2) home_fits by auto
  note tb = path_okD(1) [OF b(2)] and cb = path_okD(2) [OF b(2)]
  obtain r where r: "kstrcmp b (lit ''/'') = Some r" using kstrcmp_defined [OF tb terminated_lit] by blast
  then have r0: "r \<noteq> 0" using kstrcmp_zero_iff [OF r] cb by simp
  have idx: "find_dir b (dtab home_dir) = Some 1"
  proof (rule find_dir_cases [OF home_dir_dirs(1) tb])
    fix i assume "i < dir_count (dtab home_dir)" "find_dir b (dtab home_dir) = Some i" "paths (dtab home_dir) ! i = cstr b"
    then show ?thesis unfolding home_dir_dirs(3) cb by (auto simp: home_dir_def less_2_cases_iff)
  qed (simp add: home_dir_dirs(3) cb)
  have em: "fs_dir_empty b (disk home_dir) = Some True" using fs_dir_empty_eq [OF wf(1) tb] wf(2) by simp
  have says: "\<exists>v. say cs k = Ret () (k\<lparr>scr := v\<rparr>)" if "list_all vcall_ok cs" for cs k
    using vcalls_Some [OF that, of "scr k"] by (auto simp: say_def)
  define ask where "ask = [Wr (lit (''  Delete directory '' @ [CHR 0x27])), Wr b, Wr (lit (CHR 0x27 # ''? (y/n): ''))]"
  obtain v where v: "vcalls ask (scr home_dir) = Some v" using vcalls_Some [of ask "scr home_dir"] tb by (auto simp: ask_def)
  define k1 where "k1 = home_dir\<lparr>scr := v\<rparr>"
  have s1: "say ask home_dir = Ret () k1" using v by (simp add: say_def k1_def)
  have k1: "input_ready k1" "pending k1 = concat [[[0x15]], [[0x1C]]] @ []" "keys k1 = kbd0" "dtab k1 = dtab home_dir" "junk k1 = replicate 256 NUL"
    using home_dir_ok vcalls_safe [OF _ v] by (auto simp: k1_def input_ready_def machine_ok_def)
  obtain n bf k2 where rl: "readline (take 4 (junk k1)) 4 k1 = Ret (n, bf) k2" "take n bf = ''y''"
    using readline_loop_types [OF k1(1) _ k1(2), of "''y''" 0 4 "take 4 (junk k1)" "\<lambda>_. True"] yes_arrives k1(3,5)
    by (auto simp: readline_def edit1_def)
  then have pk: "peek bf 0 = Some CHR ''y''" by (cases bf; cases n) (auto simp: peek_def)
  have d2: "dtab k2 = dtab home_dir"
    using readline_loop_ok [of k1 0 4 "take 4 (junk k1)" "\<lambda>_. True"] rl(1) k1
    by (simp add: readline_def line_read_def io_only_def input_ready_def)
  obtain t where t: "remove_dir 1 (dtab home_dir) = Some t"
    using remove_dir_eq [OF home_dir_dirs(1), of 1] by (auto simp: home_dir_def)
  have final: "\<exists>w. confirm cs k = Ret () w" if "list_all vcall_ok cs" for cs k
    using says [of "Col VGA_LIGHT_GREEN VGA_BLACK # cs @ [Col VGA_WHITE VGA_BLACK]" k] that by (auto simp: confirm_def)
  obtain w where "confirm [Wr (lit (''  [rmdir] '' @ [CHR 0x27])), Wr b, Ln (lit (CHR 0x27 # '' removed.''))] (k2\<lparr>dtab := t\<rparr>) = Ret () w"
    using final tb by fastforce
  moreover have "cwd_idx (dtab home_dir) = 0" by (simp add: home_dir_def)
  ultimately show ?thesis
    using b(1) r r0 idx em s1 [unfolded ask_def] rl(1) pk d2 t
    by (simp add: dir_rmdir_def no_name_terminated DIR_MAX_def)
qed

text \<open>The directory \<open>/home\<close> is removed after the answer y.\<close>

theorem dir_rmdir_correct_witness:
  "\<exists>k'. dir_rmdir (Some (lit ''home'')) home_dir = Ret () k' \<and> paths (dtab k') = [''/'']"
proof -
  obtain k' where k': "dir_rmdir (Some (lit ''home'')) home_dir = Ret () k'" using home_dir_removed by blast
  have wf: "fs_wf (disk home_dir)" "fs_abs (disk home_dir) = Map.empty"
    using fs0_wf by (simp_all add: home_dir_ok) (simp add: fs_abs_def fs0_def blank_entry_def)
  from dir_rmdir_correct [OF home_dir_ok(1) wf(1) home_dir_dirs(1), of "lit ''home''", OF _ refl]
  obtain cs where cs: "gets_from home_dir (cs @ [CHR 0x0A]) k'" "CHR 0x0A \<notin> set cs"
    "paths (dtab k') = (if answers_yes cs then filter (\<lambda>q. q \<noteq> ''/home'') [''/'', ''/home''] else [''/'', ''/home''])"
    using k' home_fits home_dir_dirs wf(2) by auto
  have "answers_yes ''y''" by code_simp
  with cs k' yes_typed [OF cs(1,2)] show ?thesis by simp
qed

theorem dir_ls_correct_witness:
  "dir_ls machine0 =
     bnd (say [Col VGA_LIGHT_CYAN VGA_BLACK, Wr (lit ''  Directory listing: ''), Ln (dir_getcwd (dtab machine0)), Ln (lit []),
       Col VGA_WHITE VGA_BLACK] machine0) (\<lambda>_. fs_list (dir_getcwd (dtab machine0)))"
proof -
  have "fs_wf (disk machine0)" using fs0_wf by (simp add: machine0_def)
  moreover have "take (dir_count (dtab machine0)) (dirs (dtab machine0)) = [CHR ''/'' # replicate 63 NUL]"
    by (simp add: machine0_def)
  moreover have "\<not> child_of ''/'' ''/''" by (simp add: child_of_def)
  ultimately show ?thesis
    using dir_ls_correct [OF _ machine0_dirs(1)] by (simp add: machine0_dirs cstr_replicate)
qed

end
