(* ===== verification/Frame.thy ===== *)
theory Frame
  imports Dirops
begin

text \<open>
  What every operation of \<open>fs.c\<close> and \<open>dir.c\<close> leaves alone, on every path through it and whether it
  returns, waits or faults: the CPU, the handler table and the automatic buffers; the
  machine's invariant is kept, no input is made up, and the operations of \<open>fs.c\<close> do not touch
  the directory table. An operation that waits for a key has used up all the input. One rule per
  construct; each operation follows from its text.
\<close>

named_theorems frames \<open>introduction rules for the frame of a kernel operation\<close>

definition frame :: "bool \<Rightarrow> kernel \<Rightarrow> kernel \<Rightarrow> bool" where
  "frame b k k' \<longleftrightarrow>
     (machine_ok k \<longrightarrow> machine_ok k') \<and> kcpu k' = kcpu k \<and> irqs k' = irqs k \<and> junk k' = junk k \<and>
     (b \<longrightarrow> dtab k' = dtab k) \<and> input_left k' \<le> input_left k"

definition framed :: "bool \<Rightarrow> kernel \<Rightarrow> ('a, kernel) outcome \<Rightarrow> bool" where
  "framed b k m \<longleftrightarrow>
     runs m (\<lambda>_. frame b k) (\<lambda>e k'. frame b k k' \<and> (e = Fault \<or> e = Blocked \<and> pending k' = []))"

lemma frame_refl [simp]: "frame b k k"
  by (simp add: frame_def)

lemma frame_trans: "frame b j k \<Longrightarrow> frame b k l \<Longrightarrow> frame b j l"
  by (simp add: frame_def)

lemma frame_disk [simp]: "frame b k (k'\<lparr>disk := d\<rparr>) = frame b k k'"
  "frame b k (on_disk f k') = frame b k k'"
  by (simp_all add: frame_def on_disk_def)

lemma frame_dtab [simp]: "frame False k (k'\<lparr>dtab := t\<rparr>) = frame False k k'"
  by (simp add: frame_def)

lemma framed_Ret [frames]: "frame b k j \<Longrightarrow> framed b k (Ret a j)"
  by (simp add: framed_def)

text \<open>The frame is a preorder, so operations that keep it can be put in sequence.\<close>

interpretation kframe: framing "frame b" "\<lambda>k e k'. frame b k k' \<and> (e = Fault \<or> e = Blocked \<and> pending k' = [])" for b
  by unfold_locales (auto intro: frame_trans)

lemma framed_from: "frame b k j \<Longrightarrow> framed b j m \<Longrightarrow> framed b k m"
  unfolding framed_def by (rule kframe.runs_from)

lemma framed_chk [frames]: "frame b k j \<Longrightarrow> framed b k (chk x j)"
  using framed_from [of b k j "chk x j"] kframe.runs_check [of b j x] by (simp add: framed_def)

lemma framed_bnd [frames]:
  "framed b k m \<Longrightarrow> (\<And>a j. frame b k j \<Longrightarrow> framed b k (f a j)) \<Longrightarrow> framed b k (bnd m f)"
  by (cases m) (auto simp: framed_def)

lemma framed_say [frames]: "frame b k j \<Longrightarrow> framed b k (say cs j)"
proof (rule framed_from, assumption)
  show "framed b j (say cs j)"
    using vcalls_safe [of "scr j" cs]
    by (auto simp: framed_def say_def frame_def machine_ok_def split: option.splits)
qed

lemma framed_complain [frames]: "frame b k j \<Longrightarrow> framed b k (complain cs j)"
  and framed_confirm [frames]: "frame b k j \<Longrightarrow> framed b k (confirm cs j)"
  by (simp_all add: complain_def confirm_def framed_say)

section \<open>Input\<close>

lemma frame_putc: "frame b k j \<Longrightarrow> frame b k (putc c j)"
  using putc_ok [of j c] by (auto simp: frame_def) (simp_all add: putc_def)

lemma frame_batch:
  assumes "press_all b (j\<lparr>pending := bs\<rparr>) = Some j1" and "frame c k j" and "length (b # bs) \<le> length (pending j)"
    and "machine_ok j1 \<Longrightarrow> kbd_wf q"
  shows "frame c k (j1\<lparr>keys := q\<rparr>)"
proof -
  have "KBD_BUF_SIZE * length (b # bs) \<le> input_left j"
    using mult_le_mono2 [OF assms(3), of KBD_BUF_SIZE] by (simp only: input_left_def)
  then have "input_left (j1\<lparr>keys := q\<rparr>) \<le> input_left k"
    using batch_left [OF assms(1), of q] assms(2) by (simp add: input_left_def [of "j1\<lparr>keys := q\<rparr>"] frame_def)
  then show ?thesis
    using assms(2,4) press_all_input [OF assms(1)] press_all_ok [of "j\<lparr>pending := bs\<rparr>" b] assms(1)
    by (auto simp: frame_def input_only_def machine_ok_def)
qed

lemma framed_wait: "frame b k j \<Longrightarrow> length bs \<le> length (pending j) \<Longrightarrow> framed b k (kbd_wait p bs j)"
proof (induction bs arbitrary: p j)
  case Nil
  have empty: "frame b k (j\<lparr>pending := []\<rparr>)" using Nil by (auto simp: frame_def input_left_def)
  have "frame b k (j\<lparr>pending := [], keys := q\<rparr>)" if "kbd_wf (keys j)" "kbd_has_char (keys j)" "kbd_take (keys j) = Some (c, q)" for c q
    using empty kbd_take_count [OF that] by (auto simp: frame_def input_left_def machine_ok_def)
  with empty show ?case by (auto simp: framed_def kbd_fetch_def split: option.splits)
next
  case (Cons s bs)
  show ?case
  proof (cases "press_all s (j\<lparr>pending := bs\<rparr>)")
    case None
    with Cons.prems show ?thesis by (simp add: framed_def)
  next
    case (Some j1)
    have j1: "frame b k j1" "pending j1 = bs"
      using frame_batch [OF Some Cons.prems, of "keys j1"] press_all_input [OF Some] by (simp_all add: machine_ok_def)
    have "framed b k (kbd_fetch j1)" if "kbd_has_char (keys j1)"
      using frame_batch [OF Some Cons.prems] kbd_take_count [of "keys j1"] that j1(1)
      by (auto simp: framed_def kbd_fetch_def machine_ok_def split: option.splits)
    with Some Cons.IH [OF j1(1)] j1(2) show ?thesis by (auto split: wait_at.split)
  qed
qed

lemma framed_getchar [frames]: "frame b k j \<Longrightarrow> framed b k (kbd_getchar j)"
  by (simp add: kbd_getchar_def framed_wait)

lemma framed_Stop [frames]: "frame b k j \<Longrightarrow> framed b k (Stop Fault j)"
  by (simp add: framed_def)

lemma framed_readline_loop: "frame b k j \<Longrightarrow> framed b k (readline_loop ok len n buf j)"
proof (induction "input_left j" arbitrary: n buf j rule: less_induct)
  case less
  have more: "framed b k (readline_loop ok len m bf t)"
    if "frame b k t" "input_left t < input_left j" for m bf t
    using less.hyps that by blast
  show ?case
  proof (cases "kbd_getchar j")
    case (Ret c t)
    then have "input_left t < input_left j" "frame b k t"
      using kbd_getchar_input framed_getchar [OF less.prems] by (auto simp: framed_def)
    then show ?thesis
      by (subst readline_loop.simps) (auto simp: Ret intro!: frames frame_putc more)
  next
    case (Stop e t)
    then show ?thesis
      using framed_getchar [OF less.prems] by (subst readline_loop.simps) (simp add: framed_def)
  qed
qed

lemma framed_readline [frames]: "frame b k j \<Longrightarrow> framed b k (readline buf len j)"
  and framed_shell_readline [frames]: "frame b k j \<Longrightarrow> framed b k (shell_readline buf len j)"
  by (simp_all add: readline_def shell_readline_def framed_readline_loop)

lemma framed_bnd_eq:
  "framed b k m \<Longrightarrow> (\<And>a j. m = Ret a j \<Longrightarrow> frame b k j \<Longrightarrow> framed b k (f a j)) \<Longrightarrow> framed b k (bnd m f)"
  by (cases m) (auto simp: framed_def)

lemma framed_collect [frames]: "frame b k j \<Longrightarrow> framed b k (collect_lines tmp tot line j)"
proof (induction "input_left j" arbitrary: tmp tot line j rule: less_induct)
  case less
  have more: "framed b k (collect_lines t n l i)" if "frame b k i" "input_left i < input_left j" for t n l i
    using less.hyps that by blast
  show ?case
    by (subst collect_lines.simps)
      (auto intro!: framed_bnd_eq framed_say framed_readline_loop framed_chk framed_Ret more less.prems simp: chk_Ret_iff readline_def
        dest!: say_input readline_loop_input)
qed
section \<open>The operations of the file system\<close>

lemma framed_read_loop [frames]: "frame b k j \<Longrightarrow> framed b k (read_loop blk n j)"
proof (induction n arbitrary: blk j rule: less_induct)
  case (less n)
  show ?case
    by (subst read_loop.simps) (auto intro!: frames less simp: Let_def FS_BLOCK_SIZE_def)
qed

lemma framed_list_loop [frames]: "frame b k j \<Longrightarrow> framed b k (list_loop dir es n j)"
  by (induction es arbitrary: n j) (auto intro!: frames)

lemma framed_write_data [frames]: "frame b k j \<Longrightarrow> framed b k (fs_write_data idx name j)"
  unfolding fs_write_data_def by (auto intro!: frames simp: Let_def split: prod.splits)

lemma framed_fs_write [frames]: "frame b k j \<Longrightarrow> framed b k (fs_write name dir j)"
  unfolding fs_write_def by (auto intro!: frames simp: Let_def)

lemma framed_fs_read [frames]: "frame b k j \<Longrightarrow> framed b k (fs_read name dir j)"
  unfolding fs_read_def by (auto intro!: frames simp: Let_def)

lemma framed_fs_edit [frames]: "frame b k j \<Longrightarrow> framed b k (fs_edit name dir j)"
  unfolding fs_edit_def by (auto intro!: frames simp: Let_def split: prod.splits)

lemma framed_fs_delete [frames]: "frame b k j \<Longrightarrow> framed b k (fs_delete name dir j)"
  unfolding fs_delete_def by (auto intro!: frames simp: Let_def)

lemma framed_fs_rename [frames]: "frame b k j \<Longrightarrow> framed b k (fs_rename old new dir j)"
  unfolding fs_rename_def by (auto intro!: frames simp: Let_def)

lemma framed_fs_copy [frames]: "frame b k j \<Longrightarrow> framed b k (fs_copy src dst dir j)"
  unfolding fs_copy_def by (auto intro!: frames simp: Let_def split: prod.splits)

lemma framed_fs_list [frames]: "frame b k j \<Longrightarrow> framed b k (fs_list dir j)"
  unfolding fs_list_def by (auto intro!: frames)

section \<open>The operations on directories\<close>

lemma framed_mkdir [frames]: "frame False k j \<Longrightarrow> framed False k (dir_mkdir name j)"
  unfolding dir_mkdir_def by (auto intro!: frames simp: Let_def)

lemma framed_cd [frames]: "frame False k j \<Longrightarrow> framed False k (dir_cd name j)"
  unfolding dir_cd_def by (auto intro!: frames simp: Let_def)

lemma framed_rmdir [frames]: "frame False k j \<Longrightarrow> framed False k (dir_rmdir name j)"
  unfolding dir_rmdir_def by (auto intro!: frames simp: Let_def)

lemma framed_ls_loop [frames]: "frame b k j \<Longrightarrow> framed b k (ls_loop dir ds j)"
  by (induction ds arbitrary: j) (auto intro!: frames)

lemma framed_ls [frames]: "frame b k j \<Longrightarrow> framed b k (dir_ls j)"
  unfolding dir_ls_def by (auto intro!: frames simp: Let_def)
end
