(* ===== verification/Shell.thy ===== *)
theory Shell
  imports Dirprops Frame
begin

text \<open>
  The command shell of \<open>src/src/shell.c\<close>: the tokenizer \<open>parse_cmd\<close>, which cuts the line into words
  in place, the built-in commands, the dispatcher and the main loop. A token is the position of
  its first character in the line buffer; the \<open>argv\<close> that the dispatcher receives are the suffixes
  of the buffer at these positions, after all terminators have been written.
\<close>

section \<open>Configuration\<close>

definition CMD_LEN :: nat where "CMD_LEN = 256"
definition MAX_ARGS :: nat where "MAX_ARGS = 8"
definition P_NAME_LEN :: nat where "P_NAME_LEN = 16"

text \<open>A string literal that initialises a character array of 16 bytes.\<close>

definition name16 :: "string \<Rightarrow> cptr" where
  "name16 s = s @ replicate (P_NAME_LEN - length s) NUL"

definition boot_image :: "(int \<times> cptr) list" where
  "boot_image =
     [(-4, name16 ''HARDWARE''), (-3, name16 ''IDLE''), (-2, name16 ''CLOCK''), (-1, name16 ''SYSTEM''),
      (0, name16 ''PM''), (1, name16 ''FS''), (2, name16 ''TTY''), (3, name16 ''INIT'')]"

section \<open>Tokens\<close>

definition blank :: "char \<Rightarrow> bool" where
  "blank c \<longleftrightarrow> c = CHR '' '' \<or> c = CHR 0x09"

text \<open>The two inner loops of \<open>parse_cmd\<close>: over blanks, and to the end of a token.\<close>

function skip_blanks :: "cptr \<Rightarrow> nat \<Rightarrow> nat option" where
  "skip_blanks buf p =
     (case peek buf p of
        None \<Rightarrow> None
      | Some c \<Rightarrow> if blank c then skip_blanks buf (p + 1) else Some p)"
  by pat_completeness auto
termination by (relation "measure (\<lambda>(buf, p). length buf - p)") (auto simp: peek_def split: if_splits)

function token_end :: "cptr \<Rightarrow> nat \<Rightarrow> nat option" where
  "token_end buf p =
     (case peek buf p of
        None \<Rightarrow> None
      | Some c \<Rightarrow> if c \<noteq> NUL \<and> \<not> blank c then token_end buf (p + 1) else Some p)"
  by pat_completeness auto
termination by (relation "measure (\<lambda>(buf, p). length buf - p)") (auto simp: peek_def split: if_splits)

declare skip_blanks.simps [simp del] token_end.simps [simp del]

function parse_loop :: "cptr \<Rightarrow> nat \<Rightarrow> nat list \<Rightarrow> nat \<Rightarrow> (nat list \<times> cptr) option" where
  "parse_loop buf p argv max_args = do {
     c \<leftarrow> peek buf p;
     if c \<noteq> NUL \<and> length argv < max_args then do {
       p \<leftarrow> skip_blanks buf p;
       c \<leftarrow> peek buf p;
       if c = NUL then Some (argv, buf)
       else do {
         e \<leftarrow> token_end buf p;
         c \<leftarrow> peek buf e;
         if c \<noteq> NUL
         then do { buf \<leftarrow> poke e NUL buf; parse_loop buf (e + 1) (argv @ [p]) max_args }
         else parse_loop buf e (argv @ [p]) max_args
       }
     } else Some (argv, buf)
   }"
  by pat_completeness auto
termination by (relation "measure (\<lambda>(buf, p, argv, m). m - length argv)") auto

declare parse_loop.simps [simp del]

definition parse_cmd :: "cptr \<Rightarrow> nat \<Rightarrow> (nat list \<times> cptr) option" where
  "parse_cmd buf max_args = parse_loop buf 0 [] max_args"

section \<open>Commands\<close>

definition cmd_help :: "kernel \<Rightarrow> (unit, kernel) outcome" where
  "cmd_help = say (
     [Ln (lit []), Col VGA_LIGHT_CYAN VGA_BLACK] @
     map (\<lambda>s. Ln (lit s))
      [''  +------------------------------------------------------------+'',
       ''  |          DugOS v1.0  --  Command Reference                 |'',
       ''  +------------------------------------------------------------+''] @
     [Col VGA_WHITE VGA_BLACK] @
     map (\<lambda>s. Ln (lit s))
      [[],
       ''  [ General ]'',
       ''    help                  Show this help screen'',
       ''    cls / clear           Clear the screen'',
       ''    pwd                   Print current directory'',
       ''    whoami                Show current user'',
       ''    shutdown              Shut down DugOS'',
       [],
       ''  [ File Operations ]'',
       ''    fwrite <file>         Create or overwrite a file'',
       ''    fread  <file>         Read and display a file'',
       ''    cat    <file>         Same as fread'',
       ''    fedit  <file>         Append content to a file'',
       ''    fdel   <file>         Delete a file'',
       ''    rename <old> <new>    Rename a file'',
       ''    copy   <src> <dst>    Copy a file'',
       [],
       ''  [ Directory Operations ]'',
       ''    mkdir  <dir>          Create a directory'',
       ''    cd     <dir>          Change directory (use '..' for parent)'',
       ''    rmdir  <dir>          Delete an empty directory'',
       ''    ls / dir              List current directory'',
       []] @
     [Col VGA_LIGHT_CYAN VGA_BLACK,
      Ln (lit ''  +------------------------------------------------------------+''),
      Col VGA_WHITE VGA_BLACK, Ln (lit [])])"

text \<open>The lines about the stopped processes, and the rest of the report before \<open>pic_restore\<close>.\<close>

definition stopping :: "int \<times> cptr \<Rightarrow> vcall list" where
  "stopping p =
     (if fst p \<noteq> -4
      then [Wr (lit ''  [kernel]   -> stopping ''), Wr (snd p), Wr (lit '' (proc ''),
            Dec (if fst p < 0 then of_int (- fst p) else of_int (fst p)), Ln (lit '')'')]
      else [])"

definition shutdown_report :: "vcall list" where
  "shutdown_report =
     [Ln (lit []), Col VGA_LIGHT_CYAN VGA_BLACK,
      Ln (lit ''  +----------------------------------------------------------+''),
      Ln (lit ''  |                   DugOS Shutdown                         |''),
      Ln (lit ''  +----------------------------------------------------------+''),
      Col VGA_WHITE VGA_BLACK, Ln (lit []),
      Ln (lit ''  [kernel] Sending SIGKSTOP to all system processes...'')] @
     concat (map stopping boot_image) @
     [Ln (lit ''  [kernel] Flushing file system buffers ... OK''),
      Ln (lit ''  [kernel] Stopping clock task          ... OK''),
      Ln (lit ''  [kernel] Masking all hardware IRQs    ... OK'')]"

definition cmd_shutdown :: "kernel \<Rightarrow> (unit, kernel) outcome" where
  "cmd_shutdown k =
     bnd (say shutdown_report k) (\<lambda>_ k.
     let k = k\<lparr>ios := pic_restore (ios k)\<rparr> in
     bnd (say [Ln (lit ''  [kernel] intr_init: restoring BIOS defaults ... OK''), Ln (lit []),
               Ln (lit ''  DugOS has shut down. Goodbye, dug.''), Ln (lit [])] k) (\<lambda>_ k.
     let k = k\<lparr>kcpu := (kcpu k)\<lparr>iflag := False\<rparr>\<rparr>;
         k = k\<lparr>ios := outb 0x604 0x00 (ios k)\<rparr>;
         k = k\<lparr>ios := outb 0xB004 0x00 (ios k)\<rparr>
     in Stop PowerOff k))"

section \<open>Dispatcher\<close>

text \<open>A condition \<open>kstrcmp(cmd, s1) == 0 || kstrcmp(cmd, s2) == 0 || ...\<close>.\<close>

fun is_cmd :: "cptr \<Rightarrow> string list \<Rightarrow> bool option" where
  "is_cmd cmd [] = Some False"
| "is_cmd cmd (s # ss) = do { r \<leftarrow> kstrcmp cmd (lit s); if r = 0 then Some True else is_cmd cmd ss }"

text \<open>One arm of the chain of conditionals.\<close>

definition arm :: "cptr \<Rightarrow> string list \<Rightarrow> (kernel \<Rightarrow> (unit, kernel) outcome) \<Rightarrow>
    (kernel \<Rightarrow> (unit, kernel) outcome) \<Rightarrow> kernel \<Rightarrow> (unit, kernel) outcome" where
  "arm cmd ss f g k = bnd (chk (is_cmd cmd ss) k) (\<lambda>b k. if b then f k else g k)"

definition shell_dispatch :: "cptr list \<Rightarrow> kernel \<Rightarrow> (unit, kernel) outcome" where
  "shell_dispatch argv k =
     (let cmd = argv ! 0; here = dir_getcwd (dtab k); argc = length argv;
          arg1 = Some (if argc > 1 then argv ! 1 else lit []);
          arg2 = Some (if argc > 2 then argv ! 2 else lit [])
      in arm cmd [''help''] cmd_help
        (arm cmd [''clear'', ''cls''] (say [Clr])
        (arm cmd [''pwd''] (say [Wr (lit ''  ''), Ln here])
        (arm cmd [''whoami''] (say [Ln (lit ''  dug'')])
        (arm cmd [''shutdown''] cmd_shutdown
        (arm cmd [''fwrite''] (fs_write arg1 here)
        (arm cmd [''fread'', ''cat''] (fs_read arg1 here)
        (arm cmd [''fedit''] (fs_edit arg1 here)
        (arm cmd [''fdel''] (fs_delete arg1 here)
        (arm cmd [''rename''] (fs_rename arg1 arg2 here)
        (arm cmd [''copy''] (fs_copy arg1 arg2 here)
        (arm cmd [''mkdir''] (dir_mkdir arg1)
        (arm cmd [''cd''] (dir_cd (Some (if argc > 1 then argv ! 1 else lit ''/'')))
        (arm cmd [''rmdir''] (dir_rmdir arg1)
        (arm cmd [''ls'', ''dir''] dir_ls
        (complain [Wr (lit (''  Unknown command: '' @ [CHR 0x27])), Wr cmd,
                   Ln (lit (CHR 0x27 # ''  (type 'help' for a list)''))]))))))))))))))) k)"

section \<open>Main loop\<close>

text \<open>One round of the loop of \<open>shell_run\<close>, from the prompt to the next one.\<close>

definition shell_round :: "cptr \<Rightarrow> kernel \<Rightarrow> (cptr, kernel) outcome" where
  "shell_round buf k =
     bnd (say [Col VGA_LIGHT_GREEN VGA_BLACK, Wr (lit ''  dug@os:''), Wr (dir_getcwd (dtab k)), Wr (lit ''$ ''),
               Col VGA_WHITE VGA_BLACK] k) (\<lambda>_ k.
     bnd (shell_readline buf CMD_LEN k) (\<lambda>(len, buf) k.
     if len = 0 then Ret buf k
     else
       bnd (chk (parse_cmd buf MAX_ARGS) k) (\<lambda>(argv, buf) k.
       if argv = [] then Ret buf k
       else
         bnd (shell_dispatch (map (\<lambda>p. drop p buf) argv) k) (\<lambda>_ k.
         bnd (say [Ln (lit [])] k) (\<lambda>_ k. Ret buf k)))))"

section \<open>Frames, and termination of the loop on finite input\<close>

lemma framed_arm [frames]:
  "frame b k j \<Longrightarrow> (\<And>j. frame b k j \<Longrightarrow> framed b k (f j)) \<Longrightarrow> (\<And>j. frame b k j \<Longrightarrow> framed b k (g j)) \<Longrightarrow>
   framed b k (arm cmd ss f g j)"
  unfolding arm_def by (auto intro!: frames)

lemma framed_help [frames]: "frame b k j \<Longrightarrow> framed b k (cmd_help j)"
  unfolding cmd_help_def by (rule framed_say)

text \<open>The ways a command can end: \<open>shutdown\<close> never returns, and whatever waits has used up the input.\<close>

definition returns_within :: "kernel \<Rightarrow> ('a, kernel) outcome \<Rightarrow> bool" where
  "returns_within k m \<longleftrightarrow> 
     runs m (\<lambda>_ k'. input_left k' \<le> input_left k)
       (\<lambda>e k'. e \<in> {Fault, PowerOff} \<or> e = Blocked \<and> pending k' = [])"

lemma framed_returns: "framed b k m \<Longrightarrow> returns_within k m"
  by (cases m) (auto simp: framed_def returns_within_def frame_def)

lemma returns_shutdown: "returns_within k (cmd_shutdown j)"
  by (auto simp: returns_within_def cmd_shutdown_def runs_bnd_iff Let_def say_def split: option.splits)

lemma returns_arm:
  "returns_within k (f k) \<Longrightarrow> returns_within k (g k) \<Longrightarrow> returns_within k (arm cmd ss f g k)"
  by (cases "is_cmd cmd ss") (auto simp: arm_def returns_within_def)

lemma returns_dispatch: "returns_within k (shell_dispatch argv k)"
  unfolding shell_dispatch_def Let_def
  by (intro returns_arm returns_shutdown framed_returns [where b = False] frames) simp_all

lemma shell_round_input:
  "shell_round buf k = Ret buf' k' \<Longrightarrow> input_left k' < input_left k"
  using returns_dispatch
  by (fastforce simp: shell_round_def bnd_Ret_iff chk_Ret_iff shell_readline_def returns_within_def
      split: if_splits prod.splits dest!: say_input readline_loop_input runs_Ret)

function shell_loop :: "cptr \<Rightarrow> kernel \<Rightarrow> (unit, kernel) outcome" where
  "shell_loop buf k = bnd (shell_round buf k) shell_loop"
  by pat_completeness auto
termination
  by (relation "measure (\<lambda>(buf, k). input_left k)") (auto dest: shell_round_input)

declare shell_loop.simps [simp del]

definition shell_hint :: "vcall list" where
  "shell_hint =
     [Ln (lit []), Col VGA_LIGHT_GREEN VGA_BLACK, Ln (lit ''  >> DugOS shell ready. Type 'help' for commands.''),
      Col VGA_WHITE VGA_BLACK, Ln (lit [])]"

definition shell_run :: "kernel \<Rightarrow> (unit, kernel) outcome" where
  "shell_run k = bnd (say shell_hint k) (\<lambda>_ k. shell_loop (replicate CMD_LEN NUL) k)"

end
