(* ===== verification/Parse.thy ===== *)
theory Parse
  imports Shell
begin

text \<open>
  The tokenizer of \<open>src/src/shell.c\<close> against the words of a line: cutting the buffer in place gives
  pointers to exactly the first eight words.
\<close>

section \<open>Words of a line\<close>

function tokens :: "string \<Rightarrow> string list" where
  "tokens s =
     (let t = dropWhile blank s
      in if t = [] then []
         else takeWhile (\<lambda>c. \<not> blank c) t # tokens (dropWhile (\<lambda>c. \<not> blank c) t))"
  by pat_completeness auto
termination
proof (relation "measure length", goal_cases)
  case (2 s t)
  then have "t \<noteq> []" "\<not> blank (hd t)" using hd_dropWhile [of blank s] by auto
  then have "length (dropWhile (\<lambda>c. \<not> blank c) t) < length t"
    by (cases t) (auto simp: le_imp_less_Suc length_dropWhile_le)
  moreover have "length t \<le> length s" using 2 by (simp add: length_dropWhile_le)
  ultimately show ?case by simp
qed simp

declare tokens.simps [simp del]

lemma tokens_Nil [simp]: "tokens [] = []"
  by (subst tokens.simps) simp

section \<open>The scanning loops\<close>

lemma peek_drop: "drop p buf = c # s \<Longrightarrow> peek buf p = Some c \<and> drop (Suc p) buf = s"
proof -
  assume d: "drop p buf = c # s"
  then have "p < length buf" by (metis drop_all list.distinct(1) not_le)
  moreover have "drop (Suc p) buf = tl (drop p buf)" by (simp add: drop_Suc tl_drop)
  ultimately show ?thesis using d nth_via_drop [OF d] by (simp add: peek_def)
qed

lemma blank_NUL [simp]: "\<not> blank NUL"
  by (simp add: blank_def)

lemma skip_blanks_eq:
  "drop p buf = bs @ s \<Longrightarrow> list_all blank bs \<Longrightarrow> s \<noteq> [] \<Longrightarrow> \<not> blank (hd s) \<Longrightarrow>
   skip_blanks buf p = Some (p + length bs)"
proof (induction bs arbitrary: p)
  case Nil
  then show ?case using peek_drop [of p buf "hd s" "tl s"] by (subst skip_blanks.simps) simp
next
  case (Cons b bs)
  then show ?case using peek_drop [of p buf b "bs @ s"] by (subst skip_blanks.simps) simp
qed

lemma token_end_eq:
  "drop p buf = w @ s \<Longrightarrow> list_all (\<lambda>c. c \<noteq> NUL \<and> \<not> blank c) w \<Longrightarrow> s \<noteq> [] \<Longrightarrow> hd s = NUL \<or> blank (hd s) \<Longrightarrow>
   token_end buf p = Some (p + length w)"
proof (induction w arbitrary: p)
  case Nil
  then show ?case using peek_drop [of p buf "hd s" "tl s"] by (subst token_end.simps) auto
next
  case (Cons b w)
  then show ?case using peek_drop [of p buf b "w @ s"] by (subst token_end.simps) simp
qed

text \<open>The text from the pointer on: blanks, a word, and what follows the word.\<close>

lemma split_text:
  assumes "terminated q"
  obtains (stop) bs s where "q = bs @ NUL # s" "list_all blank bs" "tokens (cstr q) = []"
  | (word) bs w c s where "q = bs @ w @ c # s" "list_all blank bs" "w \<noteq> []" "list_all (\<lambda>c. c \<noteq> NUL \<and> \<not> blank c) w"
      "c = NUL \<or> blank c" "tokens (cstr q) = w # tokens (if c = NUL then [] else cstr s)"
      "c = NUL \<or> terminated s"
proof -
  define bs where "bs = takeWhile blank (cstr q)"
  define t where "t = dropWhile blank (cstr q)"
  obtain r where q: "q = cstr q @ NUL # r" using cstr_decomp [OF assms] by blast
  have s: "cstr q = bs @ t" by (simp add: bs_def t_def)
  have nn: "NUL \<notin> set (bs @ t)" using NUL_notin_cstr [of q] s by simp
  have bs: "list_all blank bs" by (auto simp: bs_def list_all_iff dest: set_takeWhileD)
  show thesis
  proof (cases "t = []")
    case True
    then have "tokens (cstr q) = []" by (subst tokens.simps) (simp add: t_def)
    with True show thesis using stop [of bs r] q s bs by simp
  next
    case False
    define w where "w = takeWhile (\<lambda>c. \<not> blank c) t"
    define u where "u = dropWhile (\<lambda>c. \<not> blank c) t"
    have t: "t = w @ u" by (simp add: w_def u_def)
    have hd: "\<not> blank (hd t)" using False hd_dropWhile [of blank "cstr q"] by (simp add: t_def)
    have wne: "w \<noteq> []" using False hd by (cases t) (simp_all add: w_def)
    have w: "list_all (\<lambda>c. c \<noteq> NUL \<and> \<not> blank c) w"
      using nn unfolding list_all_iff w_def by (auto dest: set_takeWhileD)
    have tok: "tokens (cstr q) = w # tokens u"
      using False by (subst tokens.simps) (simp add: Let_def t_def [symmetric] w_def u_def)
    show thesis
    proof (cases u)
      case Nil
      then show thesis using word [of bs w NUL r] q s t bs wne w tok by simp
    next
      case (Cons c v)
      have c: "blank c" using Cons unfolding u_def by (metis dropWhile_eq_Cons_conv)
      have nv: "NUL \<notin> set v" "c \<noteq> NUL" using nn t Cons by auto
      have "tokens u = tokens v"
        using c by (subst (1 2) tokens.simps) (simp add: Cons)
      moreover have "cstr (v @ NUL # r) = v" using nv by (simp add: cstr_append_unterminated)
      ultimately show thesis
        using word [of bs w c "v @ NUL # r"] q s t Cons bs wne w c tok nv by (simp add: terminated_def)
    qed
  qed
qed

section \<open>The tokenizer\<close>

lemma word_stays:
  assumes "take (Suc (i + length w)) b = take (Suc (i + length w)) b'" and "length b = length b'"
    and "drop i b = w @ NUL # s" and "NUL \<notin> set w"
  shows "cstr (drop i b') = w \<and> terminated (drop i b')"
proof -
  have "take (Suc (length w)) (drop i b') = take (Suc (length w)) (drop i b)"
    using assms(1) by (metis add_Suc_right take_drop add.commute)
  then have "take (Suc (length w)) (drop i b') = w @ [NUL]" using assms(3) by simp
  then obtain r where "drop i b' = w @ NUL # r"
    by (metis append.assoc append_Cons append_Nil append_take_drop_id)
  with assms(4) show ?thesis by (simp add: cstr_append_unterminated)
qed

lemma parse_loop_ok:
  "terminated (drop p buf) \<Longrightarrow>
   \<exists>ps buf'. parse_loop buf p argv n = Some (argv @ ps, buf') \<and> length buf' = length buf \<and>
     take p buf' = take p buf \<and>
     map (\<lambda>i. cstr (drop i buf')) ps = take (n - length argv) (tokens (cstr (drop p buf))) \<and>
     list_all (\<lambda>i. terminated (drop i buf')) ps"
proof (induction "n - length argv" arbitrary: buf p argv)
  case 0
  then obtain c s where "drop p buf = c # s" by (cases "drop p buf") auto
  then have "parse_loop buf p argv n = Some (argv, buf)"
    using 0 peek_drop by (subst parse_loop.simps) auto
  with 0 show ?case by simp
next
  case (Suc d)
  then have lt: "length argv < n" by simp
  show ?case
  proof (rule split_text [OF Suc.prems])
    fix bs s assume q: "drop p buf = bs @ NUL # s" "list_all blank bs" "tokens (cstr (drop p buf)) = []"
    have "skip_blanks buf p = Some (p + length bs)" using skip_blanks_eq [OF q(1,2)] by simp
    moreover have "drop (p + length bs) buf = NUL # s" using q(1) by (metis append_eq_conv_conj drop_drop add.commute)
    then have "peek buf (p + length bs) = Some NUL" using peek_drop by blast
    moreover obtain c r where "drop p buf = c # r" using q(1) by (cases bs) auto
    then have "peek buf p = Some c" using peek_drop by blast
    ultimately have "parse_loop buf p argv n = Some (argv, buf)"
      using lt by (subst parse_loop.simps) auto
    with q(3) show ?thesis by simp
  next
    fix bs w c s
    assume q: "drop p buf = bs @ w @ c # s" "list_all blank bs" "w \<noteq> []" "list_all (\<lambda>c. c \<noteq> NUL \<and> \<not> blank c) w"
      "c = NUL \<or> blank c" "tokens (cstr (drop p buf)) = w # tokens (if c = NUL then [] else cstr s)"
      "c = NUL \<or> terminated s"
    define i where "i = p + length bs"
    define e where "e = i + length w"
    have di: "drop i buf = w @ c # s" using q(1) unfolding i_def by (metis append_eq_conv_conj drop_drop add.commute)
    have de: "drop e buf = c # s" using di unfolding e_def by (metis append_eq_conv_conj drop_drop add.commute)
    have w: "\<not> blank (hd w)" "hd w \<noteq> NUL" "NUL \<notin> set w" using q(3,4) by (cases w; auto simp: list_all_iff)+
    have scan: "skip_blanks buf p = Some i" "token_end buf i = Some e"
      using skip_blanks_eq [OF q(1,2)] token_end_eq [OF di q(4)] q(3,5) w by (auto simp: i_def e_def)
    have pk: "peek buf i = Some (hd w)" "peek buf e = Some c" "e < length buf"
      using peek_drop [of i buf "hd w" "tl w @ c # s"] di q(3) peek_drop [OF de] de by (auto simp: not_le intro: ccontr)
    obtain c0 r0 where c0: "drop p buf = c0 # r0" "c0 \<noteq> NUL"
      using q(1,2) w(2) q(3) by (cases bs; cases w) (auto simp: blank_def)
    have pk0: "peek buf p = Some c0" using peek_drop c0(1) by blast
    show ?thesis
    proof (cases "c = NUL")
      case True
      have "parse_loop buf e (argv @ [i]) n = Some (argv @ [i], buf)"
        using pk True by (subst parse_loop.simps) simp
      then have "parse_loop buf p argv n = Some (argv @ [i], buf)"
        using lt scan pk pk0 c0 w(2) True by (subst parse_loop.simps) simp
      moreover have "cstr (drop i buf) = w" "terminated (drop i buf)"
        using di True w(3) by (simp_all add: cstr_append_unterminated)
      moreover have "n - length argv = Suc d" using Suc.hyps(2) by simp
      ultimately show ?thesis using q(6) True by (intro exI [of _ "[i]"] exI [of _ buf]) simp
    next
      case False
      define b1 where "b1 = buf[e := NUL]"
      have d1: "drop (Suc e) b1 = s" using peek_drop [OF de] by (simp add: b1_def)
      then obtain ps buf' where ih: "parse_loop b1 (Suc e) (argv @ [i]) n = Some ((argv @ [i]) @ ps, buf')"
        "length buf' = length b1" "take (Suc e) buf' = take (Suc e) b1"
        "map (\<lambda>i. cstr (drop i buf')) ps = take (n - length (argv @ [i])) (tokens (cstr (drop (Suc e) b1)))"
        "list_all (\<lambda>i. terminated (drop i buf')) ps"
      proof -
        have "d = n - length (argv @ [i])" "terminated (drop (Suc e) b1)"
          using Suc.hyps(2) q(7) False d1 by simp_all
        with Suc.hyps(1) [of "argv @ [i]" "Suc e" b1] that show thesis by blast
      qed
      have "parse_loop buf p argv n = Some (argv @ i # ps, buf')"
        using lt scan pk pk0 c0 w(2) False ih(1)
        by (subst parse_loop.simps) (simp add: poke_def b1_def)
      moreover have "drop i b1 = w @ NUL # s"
        using di drop_update_swap [of i e buf NUL] by (simp add: b1_def e_def list_update_append)
      then have "cstr (drop i buf') = w \<and> terminated (drop i buf')"
        using w(3) by (rule word_stays [OF ih(3) [symmetric, unfolded e_def] ih(2) [symmetric]])
      moreover have "take p buf' = take p buf"
      proof -
        have "p \<le> e" by (simp add: e_def i_def)
        then have "take p buf' = take p (take (Suc e) b1)" using ih(3) by (metis le_SucI min.absorb1 take_take)
        also have "\<dots> = take p buf" using \<open>p \<le> e\<close> by (simp add: b1_def take_take min_def)
        finally show ?thesis .
      qed
      moreover have "n - length argv = Suc (n - length (argv @ [i]))" using lt by simp
      ultimately show ?thesis
        using q(6) False ih(2,4,5) d1 by (intro exI [of _ "i # ps"] exI [of _ buf']) (simp add: b1_def)
    qed
  qed
qed

text \<open>C4: \<open>parse_cmd\<close> finds exactly the words of the line: on any terminated buffer it stays inside
  it and returns pointers at which, after it has written its terminators, the first \<open>max_args\<close>
  words separated by blanks and tabs can be read, in order, each of them a terminated string.\<close>

theorem parse_cmd_correct:
  assumes "terminated buf"
  shows "\<exists>ps buf'. parse_cmd buf max_args = Some (ps, buf') \<and> length buf' = length buf \<and>
     map (\<lambda>p. cstr (drop p buf')) ps = take max_args (tokens (cstr buf)) \<and>
     list_all (\<lambda>p. terminated (drop p buf')) ps"
  using parse_loop_ok [of 0 buf "[]" max_args] assms by (simp add: parse_cmd_def)

theorem parse_cmd_correct_witness:
  "\<exists>ps buf'. parse_cmd (lit ''  copy a b'') 8 = Some (ps, buf') \<and>
     map (\<lambda>p. cstr (drop p buf')) ps = [''copy'', ''a'', ''b'']"
proof -
  have "tokens ''  copy a b'' = [''copy'', ''a'', ''b'']"
    by code_simp
  then show ?thesis using parse_cmd_correct [of "lit ''  copy a b''" 8] by auto
qed

end
