(* ===== verification/Shellprops.thy ===== *)
theory Shellprops
  imports Parse
begin

text \<open>
  The invariant of the whole system and the commands of the shell. A system state is good when
  screen, keyboard, disk and directory table each satisfy their invariant and every file lives in
  a directory of the table. Every command whose arguments fit keeps it and never accesses memory
  out of bounds.
\<close>

section \<open>The invariant\<close>

definition files_in_dirs :: "fsys \<Rightarrow> dirtab \<Rightarrow> bool" where
  "files_in_dirs s t \<longleftrightarrow> (\<forall>n d. fs_abs s (n, d) \<noteq> None \<longrightarrow> d \<in> set (paths t))"

definition os_ok :: "kernel \<Rightarrow> bool" where
  "os_ok k \<longleftrightarrow> machine_ok k \<and> fs_wf (disk k) \<and> dir_wf (dtab k) \<and> files_in_dirs (disk k) (dtab k)"

definition os_safe :: "('a, kernel) outcome \<Rightarrow> bool" where
  "os_safe m \<longleftrightarrow> runs m (\<lambda>_. os_ok) (\<lambda>e k. e \<noteq> Fault \<and> os_ok k)"

text \<open>An argument that fits both as a file name and as a path below the current directory.\<close>

definition arg_fits :: "string \<Rightarrow> cptr \<Rightarrow> bool" where
  "arg_fits c a \<longleftrightarrow> fits_name a \<and> path_fits c a"

lemma os_okD:
  "os_ok k \<Longrightarrow> machine_ok k" "os_ok k \<Longrightarrow> fs_wf (disk k)" "os_ok k \<Longrightarrow> dir_wf (dtab k)"
  by (simp_all add: os_ok_def)

lemma cwd_fits: "os_ok k \<Longrightarrow> fits_name (dir_getcwd (dtab k))"
  using cwd_eq [OF os_okD(3), of k] cwd_length [OF os_okD(3), of k]
  by (simp add: fits_name_def cwd_def FS_NAME_LEN_def DIR_NAME_LEN_def)

lemma os_ok_scr: "machine_ok (k\<lparr>scr := v\<rparr>) \<Longrightarrow> os_ok k \<Longrightarrow> os_ok (k\<lparr>scr := v\<rparr>)"
  by (auto simp: os_ok_def)

section \<open>Commands on files\<close>

text \<open>The disk stays well formed, and files are new in the directory \<open>d\<close> at most.\<close>

definition stays_in :: "string \<Rightarrow> fsys \<Rightarrow> fsys \<Rightarrow> bool" where
  "stays_in d s s' \<longleftrightarrow>
     fs_wf s' \<and> (\<forall>n e. fs_abs s' (n, e) \<noteq> None \<longrightarrow> e = d \<or> (\<exists>m. fs_abs s (m, e) \<noteq> None))"

definition disk_safe :: "kernel \<Rightarrow> ('a, kernel) outcome \<Rightarrow> bool" where
  "disk_safe k m \<longleftrightarrow>
     runs m (\<lambda>_ k'. stays_in (cwd (dtab k)) (disk k) (disk k'))
            (\<lambda>e k'. e \<noteq> Fault \<and> stays_in (cwd (dtab k)) (disk k) (disk k'))"

lemma stays_in_same: "fs_wf s \<Longrightarrow> stays_in d s s"
  by (auto simp: stays_in_def)

lemma os_safe_disk:
  assumes "os_ok k" and "framed True k m" and "disk_safe k m"
  shows "os_safe m"
proof -
  have "os_ok k'" if "frame True k k'" "stays_in (cwd (dtab k)) (disk k) (disk k')" for k'
    using that assms(1) cwd_in_paths [OF os_okD(3) [OF assms(1)]]
    by (fastforce simp: os_ok_def frame_def stays_in_def files_in_dirs_def)
  with assms(2,3) show ?thesis
    by (cases m) (auto simp: framed_def disk_safe_def os_safe_def)
qed

lemma disk_safe_say: "os_ok k \<Longrightarrow> list_all vcall_ok cs \<Longrightarrow> disk_safe k (say cs k)"
  unfolding disk_safe_def by (rule say_ok) (auto simp: os_ok_def stays_in_same)

lemma disk_safe_complain: "os_ok k \<Longrightarrow> list_all vcall_ok cs \<Longrightarrow> disk_safe k (complain cs k)"
  unfolding complain_def by (rule disk_safe_say) auto

lemma no_name_empty: "no_name (Some (lit [])) = Some True"
  by (simp add: no_name_terminated)

lemma disk_safe_missing:
  assumes "os_ok k"
  shows "disk_safe k (fs_write (Some (lit [])) d k)" "disk_safe k (fs_read (Some (lit [])) d k)"
    "disk_safe k (fs_edit (Some (lit [])) d k)" "disk_safe k (fs_delete (Some (lit [])) d k)"
    "disk_safe k (fs_rename (Some (lit [])) (Some (lit [])) d k)"
    "fits_name a \<Longrightarrow> disk_safe k (fs_rename (Some a) (Some (lit [])) d k)"
    "disk_safe k (fs_copy (Some (lit [])) (Some (lit [])) d k)"
    "fits_name a \<Longrightarrow> disk_safe k (fs_copy (Some a) (Some (lit [])) d k)"
  by (simp_all add: fs_write_def fs_read_def fs_edit_def fs_delete_def fs_rename_def fs_copy_def no_name_empty
      no_name_ok disk_safe_complain assms)

lemma disk_safe_write:
  assumes ok: "os_ok k" and a: "fits_name a" "cstr a \<noteq> []"
  shows "disk_safe k (fs_write (Some a) (dir_getcwd (dtab k)) k)"
  unfolding disk_safe_def
proof (rule runs_mono [OF fs_write_ok [OF os_okD(1,2) [OF ok] a cwd_fits [OF ok]]], goal_cases)
  case (1 u k')
  then show ?case
    using os_okD(2) [OF ok]
    by (auto simp: io_only_def write_post_def write_outcome_def stays_in_def cwd_def split: if_splits)
next
  case (2 e k')
  then show ?case by (auto simp: blocked_with_def stays_in_def cwd_def split: if_splits)
qed

lemma disk_safe_edit:
  assumes ok: "os_ok k" and a: "fits_name a" "cstr a \<noteq> []"
  shows "disk_safe k (fs_edit (Some a) (dir_getcwd (dtab k)) k)"
  unfolding disk_safe_def
proof (rule runs_mono [OF fs_edit_ok [OF os_okD(1,2) [OF ok] a cwd_fits [OF ok] refl]], goal_cases)
  case (1 u k')
  then show ?case
    using os_okD(2) [OF ok]
    by (fastforce simp: stays_in_def cwd_def split: option.splits if_splits)
qed (use os_okD(2) [OF ok] stays_in_same in auto)

lemma disk_safe_delete:
  assumes ok: "os_ok k" and a: "fits_name a" "cstr a \<noteq> []"
  shows "disk_safe k (fs_delete (Some a) (dir_getcwd (dtab k)) k)"
  unfolding disk_safe_def
proof (rule runs_mono [OF fs_delete_ok [OF os_okD(1,2) [OF ok] a cwd_fits [OF ok] refl]], goal_cases)
  case (1 u k')
  then show ?case by (fastforce simp: stays_in_def split: if_splits)
qed (use os_okD(2) [OF ok] stays_in_same in auto)

lemma disk_safe_read:
  assumes ok: "os_ok k" and a: "fits_name a" "cstr a \<noteq> []"
  shows "disk_safe k (fs_read (Some a) (dir_getcwd (dtab k)) k)"
  unfolding fs_read_ok [OF os_okD(1,2) [OF ok] a cwd_fits [OF ok]] using ok a(1)
  by (auto intro!: disk_safe_say disk_safe_complain simp: read_screen_def split: option.splits)

lemma disk_safe_rename:
  assumes ok: "os_ok k" and a: "fits_name a" "cstr a \<noteq> []" and b: "fits_name b" "cstr b \<noteq> []"
  shows "disk_safe k (fs_rename (Some a) (Some b) (dir_getcwd (dtab k)) k)"
proof -
  obtain k' where k': "fs_rename (Some a) (Some b) (dir_getcwd (dtab k)) k = Ret () k'" "fs_wf (disk k')"
    "fs_abs (disk k') =
       (case fs_abs (disk k) (cstr a, cstr (dir_getcwd (dtab k))) of
          None \<Rightarrow> fs_abs (disk k)
        | Some c \<Rightarrow> if fs_abs (disk k) (cstr b, cstr (dir_getcwd (dtab k))) \<noteq> None then fs_abs (disk k)
                    else (fs_abs (disk k))((cstr a, cstr (dir_getcwd (dtab k))) := None,
                           (cstr b, cstr (dir_getcwd (dtab k))) \<mapsto> c))"
    using fs_rename_ok [OF os_okD(1,2) [OF ok] a b cwd_fits [OF ok]] by blast
  have "fs_abs (disk k') (n, e) \<noteq> None \<Longrightarrow> e = cwd (dtab k) \<or> (\<exists>m. fs_abs (disk k) (m, e) \<noteq> None)" for n e
    unfolding k'(3) cwd_def by (auto split: option.splits if_splits)
  then show ?thesis using k'(1,2) by (simp add: disk_safe_def stays_in_def)
qed

lemma disk_safe_copy:
  assumes ok: "os_ok k" and a: "fits_name a" "cstr a \<noteq> []" and b: "fits_name b" "cstr b \<noteq> []"
  shows "disk_safe k (fs_copy (Some a) (Some b) (dir_getcwd (dtab k)) k)"
proof -
  define d where "d = cstr (dir_getcwd (dtab k))"
  obtain k' where k': "fs_copy (Some a) (Some b) (dir_getcwd (dtab k)) k = Ret () k'" "fs_wf (disk k')"
    and upd: "fs_abs (disk k') = fs_abs (disk k) \<or> (\<exists>c. fs_abs (disk k') = (fs_abs (disk k))((cstr b, d) \<mapsto> c))"
    using fs_copy_ok [OF os_okD(1,2) [OF ok] a b cwd_fits [OF ok]] by (fastforce simp: d_def split: option.splits if_splits)
  have "fs_abs (disk k') (n, e) \<noteq> None \<Longrightarrow> e = cwd (dtab k) \<or> (\<exists>m. fs_abs (disk k) (m, e) \<noteq> None)" for n e
    using upd by (auto simp: cwd_def d_def [symmetric] split: if_splits)
  then show ?thesis using k'(1,2) by (simp add: disk_safe_def stays_in_def)
qed

lemma os_safe_ls:
  assumes ok: "os_ok k"
  shows "os_safe (dir_ls k)"
proof (rule os_safe_disk [OF ok])
  show "framed True k (dir_ls k)" by (rule framed_ls) simp
  have t: "terminated (dir_getcwd (dtab k))" "list_all terminated (take (dir_count (dtab k)) (dirs (dtab k)))"
    using cwd_eq [OF os_okD(3) [OF ok]] os_okD(3) [OF ok] by (simp_all add: dir_wf_def)
  have "disk_safe k (fs_list (dir_getcwd (dtab k)) j)" if "machine_ok j" "disk j = disk k" for j
    unfolding fs_list_ok [of j, unfolded that(2), OF os_okD(2) [OF ok] t(1)] disk_safe_def
    using that fs_wf_strings [OF os_okD(2) [OF ok]] os_okD(2) [OF ok]
    by (intro say_ok) (auto simp: Let_def entries_in_def list_all_iff entry_strings_def stays_in_same)
  then show "disk_safe k (dir_ls k)"
    unfolding dir_ls_ok [OF os_okD(2,3) [OF ok]] disk_safe_def runs_bnd_iff
    using os_okD(1) [OF ok] t by (intro say_ok) (auto simp: list_all_iff)
qed

section \<open>Commands on directories\<close>

lemma os_safe_say: "os_ok k \<Longrightarrow> list_all vcall_ok cs \<Longrightarrow> os_safe (say cs k)"
  unfolding os_safe_def by (rule say_ok) (auto simp: os_okD os_ok_scr)

lemma os_safe_complain: "os_ok k \<Longrightarrow> list_all vcall_ok cs \<Longrightarrow> os_safe (complain cs k)"
  unfolding complain_def by (rule os_safe_say) auto

lemma os_safe_missing:
  "os_ok k \<Longrightarrow> os_safe (dir_mkdir (Some (lit [])) k)" "os_ok k \<Longrightarrow> os_safe (dir_rmdir (Some (lit [])) k)"
  by (simp_all add: dir_mkdir_def dir_rmdir_def no_name_empty os_safe_complain)

lemma os_safe_mkdir:
  assumes ok: "os_ok k" and a: "path_fits (cwd (dtab k)) a"
  shows "os_safe (dir_mkdir (Some a) k)"
  using dir_mkdir_ok [OF os_okD(1,3) [OF ok] a refl] ok
  by (auto simp: os_safe_def os_ok_def files_in_dirs_def)

lemma os_safe_cd:
  assumes ok: "os_ok k" and a: "path_fits (cwd (dtab k)) a"
  shows "os_safe (dir_cd (Some a) k)"
  using dir_cd_ok [OF os_okD(1,3) [OF ok] _ _ _ refl, of a] ok a
  by (auto simp: os_safe_def os_ok_def files_in_dirs_def path_fits_def)

lemma os_safe_rmdir:
  assumes ok: "os_ok k" and a: "path_fits (cwd (dtab k)) a"
  shows "os_safe (dir_rmdir (Some a) k)"
  unfolding os_safe_def
proof (rule runs_mono [OF dir_rmdir_ok [OF os_okD(1,2,3) [OF ok] a refl]], goal_cases)
  case (1 u k')
  define p where "p = path_join (cwd (dtab k)) (cstr a)"
  have ps: "set (paths (dtab k')) \<supseteq> set (paths (dtab k)) - {p} \<and> (p \<in> set (paths (dtab k')) \<or>
      p \<notin> set (paths (dtab k)) \<or> (\<forall>n. fs_abs (disk k) (n, p) = None))"
    using 1 by (auto simp: p_def [symmetric] split: if_splits)
  have "d \<in> set (paths (dtab k'))" if "fs_abs (disk k) (n, d) \<noteq> None" for n d
  proof -
    have "d \<in> set (paths (dtab k))" using that ok by (auto simp: os_ok_def files_in_dirs_def)
    then show ?thesis using ps that by (cases "d = p") auto
  qed
  then have "files_in_dirs (disk k) (dtab k')" by (simp add: files_in_dirs_def)
  with 1 ok show ?case by (simp add: os_ok_def)
next
  case (2 e k')
  with ok show ?case by (auto simp: os_ok_def)
qed

section \<open>The dispatcher\<close>

lemma is_cmd_eq:
  "terminated cmd \<Longrightarrow> list_all (\<lambda>s. NUL \<notin> set s) ss \<Longrightarrow> is_cmd cmd ss = Some (cstr cmd \<in> set ss)"
proof (induction ss)
  case (Cons s ss)
  obtain r where r: "kstrcmp cmd (lit s) = Some r" using kstrcmp_defined [OF Cons.prems(1) terminated_lit] by blast
  with Cons kstrcmp_zero_iff [OF r] show ?case by simp
qed simp

lemma arm_eq:
  "terminated cmd \<Longrightarrow> list_all (\<lambda>s. NUL \<notin> set s) ss \<Longrightarrow>
   arm cmd ss f g k = (if cstr cmd \<in> set ss then f k else g k)"
  by (simp add: arm_def is_cmd_eq)

lemma os_safe_arm:
  "terminated cmd \<Longrightarrow> list_all (\<lambda>s. NUL \<notin> set s) ss \<Longrightarrow> os_safe (f k) \<Longrightarrow> os_safe (g k) \<Longrightarrow>
   os_safe (arm cmd ss f g k)"
  by (simp add: arm_eq)

lemma help_ok: "os_ok k \<Longrightarrow> os_safe (cmd_help k)"
  unfolding cmd_help_def by (rule os_safe_say) simp_all

lemma name16_terminated [simp]: "length s < 16 \<Longrightarrow> terminated (name16 s)"
  by (simp add: name16_def P_NAME_LEN_def terminated_def)

lemma report_ok [simp]: "list_all vcall_ok shutdown_report"
  by (simp add: shutdown_report_def boot_image_def stopping_def)

text \<open>What \<open>shutdown\<close> does after its report: mask every line, disable interrupts, power off.\<close>

lemma cmd_shutdown_eq:
  assumes "machine_ok k"
  shows "\<exists>v. vga_wf v \<and> cmd_shutdown k =
     Stop PowerOff (k\<lparr>scr := v, ios := outb 0xB004 0 (outb 0x604 0 (pic_restore (ios k))),
       kcpu := (kcpu k)\<lparr>iflag := False\<rparr>\<rparr>)"
proof -
  define foot where "foot = [Ln (lit ''  [kernel] intr_init: restoring BIOS defaults ... OK''), Ln (lit []),
    Ln (lit ''  DugOS has shut down. Goodbye, dug.''), Ln (lit [])]"
  obtain v where v: "vcalls shutdown_report (scr k) = Some v" using vcalls_Some [OF report_ok] by blast
  obtain w where w: "vcalls foot v = Some w" using vcalls_Some [of foot v] by (auto simp: foot_def)
  have "vga_wf w" using vcalls_safe [OF _ v] vcalls_safe [OF _ w] assms by (simp add: machine_ok_def)
  then show ?thesis
    using v w by (intro exI [of _ w]) (simp add: cmd_shutdown_def say_def foot_def Let_def)
qed

lemma os_safe_shutdown: "os_ok k \<Longrightarrow> os_safe (cmd_shutdown k)"
  using cmd_shutdown_eq [OF os_okD(1), of k] by (auto simp: os_safe_def os_ok_def)

definition good_arg :: "string \<Rightarrow> cptr \<Rightarrow> bool" where
  "good_arg c a \<longleftrightarrow> a = lit [] \<or> arg_fits c a"

lemma good_argD:
  "good_arg c a \<Longrightarrow> a = lit [] \<or> fits_name a \<and> cstr a \<noteq> [] \<and> path_fits c a"
  by (auto simp: good_arg_def arg_fits_def path_fits_def)

lemma os_safe_files:
  assumes ok: "os_ok k" and a: "good_arg (cwd (dtab k)) a" and b: "good_arg (cwd (dtab k)) b"
    and ab: "a = lit [] \<Longrightarrow> b = lit []"
  shows "os_safe (fs_write (Some a) (dir_getcwd (dtab k)) k)" "os_safe (fs_read (Some a) (dir_getcwd (dtab k)) k)"
    "os_safe (fs_edit (Some a) (dir_getcwd (dtab k)) k)" "os_safe (fs_delete (Some a) (dir_getcwd (dtab k)) k)"
    "os_safe (fs_rename (Some a) (Some b) (dir_getcwd (dtab k)) k)"
    "os_safe (fs_copy (Some a) (Some b) (dir_getcwd (dtab k)) k)"
  using good_argD [OF a] good_argD [OF b] ab ok
  by (auto intro!: os_safe_disk [OF ok] frames disk_safe_missing disk_safe_write disk_safe_read disk_safe_edit
      disk_safe_delete disk_safe_rename disk_safe_copy)

lemma os_safe_dirs:
  assumes "os_ok k" and "good_arg (cwd (dtab k)) a"
  shows "os_safe (dir_mkdir (Some a) k)" "os_safe (dir_rmdir (Some a) k)"
  using good_argD [OF assms(2)] assms(1) by (metis os_safe_missing os_safe_mkdir os_safe_rmdir)+

lemma root_fits: "path_fits c (lit ''/'')"
  by (simp add: path_fits_def path_join_def strip_slash_def DIR_NAME_LEN_def)

lemma dispatch_ok:
  assumes ok: "os_ok k" and cmd: "argv \<noteq> []" "terminated (argv ! 0)"
    and args: "\<And>a. a \<in> set (tl argv) \<Longrightarrow> arg_fits (cwd (dtab k)) a"
  shows "os_safe (shell_dispatch argv k)"
proof -
  define a where "a = (if length argv > 1 then argv ! 1 else lit [])"
  define b where "b = (if length argv > 2 then argv ! 2 else lit [])"
  define c where "c = (if length argv > 1 then argv ! 1 else lit ''/'')"
  have "argv ! i \<in> set (tl argv)" if "0 < i" "i < length argv" for i
    using that nth_mem [of "i - 1" "tl argv"] by (cases argv; cases i) simp_all
  then have fits: "arg_fits (cwd (dtab k)) (argv ! i)" if "0 < i" "i < length argv" for i
    using that args by blast
  have good: "good_arg (cwd (dtab k)) a" "good_arg (cwd (dtab k)) b" "path_fits (cwd (dtab k)) c"
    using fits [of 1] fits [of 2] root_fits by (simp_all add: a_def b_def c_def good_arg_def arg_fits_def)
  have "\<not> arg_fits (cwd (dtab k)) (lit [])" by (simp add: arg_fits_def path_fits_def)
  then have ab: "b = lit []" if "a = lit []"
    using that fits [of 1] by (cases "length argv > 1") (auto simp: a_def b_def)
  show ?thesis
    unfolding shell_dispatch_def Let_def a_def [symmetric] b_def [symmetric] c_def [symmetric]
    using ok cmd(2) cwd_eq [OF os_okD(3) [OF ok]]
    by (intro os_safe_arm help_ok os_safe_say os_safe_shutdown os_safe_files [OF ok good(1,2) ab]
        os_safe_dirs [OF ok good(1)] os_safe_cd [OF ok good(3)] os_safe_ls os_safe_complain) simp_all
qed

text \<open>Every command keeps the system's invariant and is memory safe: from a good state, with
  arguments shorter than 64 characters that name paths shorter than 64 characters, the
  dispatcher never accesses memory out of bounds, whatever the command word is; whether it
  returns, waits for a key or has shut down, screen, keyboard, disk and directory table are well
  formed, the current directory and the root exist, and every file is in an existing directory.\<close>

theorem shell_dispatch_safe:
  assumes "os_ok k" and "argv \<noteq> []" and "terminated (argv ! 0)"
    and "\<forall>a \<in> set (tl argv). arg_fits (cwd (dtab k)) a"
  shows "runs (shell_dispatch argv k) (\<lambda>_ k'. os_ok k') (\<lambda>e k'. e \<noteq> Fault \<and> os_ok k')"
  using dispatch_ok [OF assms(1-3)] assms(4) by (simp add: os_safe_def)

end
