(* ===== verification/Shellrun.thy ===== *)
theory Shellrun
  imports Shellprops
begin

text \<open>
  The main loop of \<open>src/src/shell.c\<close> as a state machine: the states at the prompts, the rounds
  between them, and what holds at every prompt. \<open>shell_loop\<close> is total on any finite input, and its
  only ends are an exhausted input and the shutdown.
\<close>

section \<open>Rounds\<close>

text \<open>A word that fits as a file name and as a path below the directory \<open>c\<close>.\<close>

definition word_fits :: "string \<Rightarrow> string \<Rightarrow> bool" where
  "word_fits c w \<longleftrightarrow> length w < FS_NAME_LEN \<and> length (path_join c w) < DIR_NAME_LEN"

definition prompt_line :: "cptr \<Rightarrow> kernel \<Rightarrow> (nat \<times> cptr, kernel) outcome" where
  "prompt_line buf k =
     bnd (say [Col VGA_LIGHT_GREEN VGA_BLACK, Wr (lit ''  dug@os:''), Wr (dir_getcwd (dtab k)), Wr (lit ''$ ''),
               Col VGA_WHITE VGA_BLACK] k) (\<lambda>_ k. shell_readline buf CMD_LEN k)"

text \<open>The line that the user types at this prompt has arguments that fit.\<close>

definition line_fits :: "cptr \<Rightarrow> kernel \<Rightarrow> bool" where
  "line_fits buf k \<longleftrightarrow>
     runs (prompt_line buf k)
       (\<lambda>(n, b) _. list_all (word_fits (cwd (dtab k))) (tl (take MAX_ARGS (tokens (cstr b))))) (\<lambda>_ _. True)"

inductive shell_reach :: "kernel \<Rightarrow> cptr \<Rightarrow> kernel \<Rightarrow> bool" for k0 where
  start: "shell_reach k0 (replicate CMD_LEN NUL) k0"
| round: "shell_reach k0 buf k \<Longrightarrow> shell_round buf k = Ret buf' k' \<Longrightarrow> shell_reach k0 buf' k'"

lemma tokens_nonempty: "w \<in> set (tokens s) \<Longrightarrow> w \<noteq> []"
proof (induction s rule: tokens.induct)
  case (1 s)
  define t where "t = dropWhile blank s"
  have "t \<noteq> []" using "1.prems" by (subst (asm) tokens.simps) (auto simp: t_def Let_def split: if_splits)
  then have "\<not> blank (hd t)" using hd_dropWhile [of blank s] by (simp add: t_def)
  moreover have "w = takeWhile (\<lambda>c. \<not> blank c) t \<or> w \<in> set (tokens (dropWhile (\<lambda>c. \<not> blank c) t))"
    using "1.prems" \<open>t \<noteq> []\<close> by (subst (asm) tokens.simps) (auto simp: t_def Let_def split: if_splits)
  ultimately show ?case
    using "1.IH" [OF t_def] \<open>t \<noteq> []\<close> by (cases t) auto
qed

lemma os_ok_io: "os_ok k \<Longrightarrow> io_only k k' \<Longrightarrow> os_ok k'"
  by (simp add: os_ok_def io_only_def)

text \<open>Prompt and line: the buffer keeps its size and is terminated.\<close>

lemma prompt_line_ok:
  assumes "os_ok k" and "length buf = CMD_LEN"
  shows "runs (prompt_line buf k) (\<lambda>r k'. length (snd r) = CMD_LEN \<and> terminated (snd r) \<and> io_only k k') (blocked k)"
  unfolding prompt_line_def
proof (rule runs_bnd [OF say_ok [where Q = "\<lambda>_ k1. io_only k k1"]])
  fix u k1 assume "io_only k k1"
  then show "runs (shell_readline buf CMD_LEN k1)
      (\<lambda>r k'. length (snd r) = CMD_LEN \<and> terminated (snd r) \<and> io_only k k') (blocked k)"
    using readline_loop_ok [of k1 0 CMD_LEN buf printable] assms(2) io_only_ok [of k k1]
    unfolding shell_readline_def
    by (auto simp: line_read_def blocked_def CMD_LEN_def elim!: runs_mono intro: io_only_trans)
qed (use assms(1) cwd_eq [OF os_okD(3) [OF assms(1)]] in \<open>auto simp: os_okD io_only_def\<close>)

lemma shell_round_eq:
  "shell_round buf k =
     bnd (prompt_line buf k) (\<lambda>(len, buf) k.
     if len = 0 then Ret buf k
     else
       bnd (chk (parse_cmd buf MAX_ARGS) k) (\<lambda>(argv, buf) k.
       if argv = [] then Ret buf k
       else
         bnd (shell_dispatch (map (\<lambda>p. drop p buf) argv) k) (\<lambda>_ k.
         bnd (say [Ln (lit [])] k) (\<lambda>_ k. Ret buf k))))"
  by (simp add: shell_round_def prompt_line_def bnd_assoc)

definition round_ok :: "cptr \<Rightarrow> kernel \<Rightarrow> bool" where
  "round_ok buf k \<longleftrightarrow> length buf = CMD_LEN \<and> os_ok k"

text \<open>The words of a line that fits are arguments that fit.\<close>

lemma args_fit:
  assumes "map (\<lambda>p. cstr (drop p b)) ps = take MAX_ARGS (tokens s)" and "list_all (\<lambda>p. terminated (drop p b)) ps"
    and "list_all (word_fits c) (tl (take MAX_ARGS (tokens s)))" and "a \<in> set (tl (map (\<lambda>p. drop p b) ps))"
  shows "arg_fits c a"
proof -
  obtain p where p: "p \<in> set (tl ps)" "a = drop p b" using assms(4) by (auto simp: map_tl [symmetric])
  then have in_tl: "cstr a \<in> set (tl (take MAX_ARGS (tokens s)))"
    using assms(1) [symmetric] by (auto simp: map_tl [symmetric])
  then have "cstr a \<noteq> []" using tokens_nonempty by (metis in_set_takeD list.set_sel(2) tl_Nil list.distinct(1) empty_iff list.set(1))
  moreover have "terminated a" using p assms(2) by (metis list_all_iff list.set_sel(2) tl_Nil)
  moreover have "word_fits c (cstr a)" using in_tl assms(3) by (simp add: list_all_iff)
  ultimately show ?thesis
    by (simp add: arg_fits_def fits_name_def path_fits_def word_fits_def FS_NAME_LEN_def DIR_NAME_LEN_def)
qed

lemma round_safe:
  assumes "round_ok buf k" and "line_fits buf k"
  shows "runs (shell_round buf k) round_ok (\<lambda>e k'. e \<noteq> Fault \<and> os_ok k')"
proof (cases "prompt_line buf k")
  case (Stop e k1)
  then show ?thesis
    using prompt_line_ok [of k buf] assms(1) os_ok_io
    by (auto simp: shell_round_eq round_ok_def blocked_def)
next
  case (Ret r k1)
  obtain n b where r: "r = (n, b)" by fastforce
  have b: "length b = CMD_LEN" "terminated b" "os_ok k1" "dtab k1 = dtab k"
    using prompt_line_ok [of k buf] assms(1) Ret r os_ok_io by (auto simp: round_ok_def io_only_def)
  have fits: "list_all (word_fits (cwd (dtab k1))) (tl (take MAX_ARGS (tokens (cstr b))))"
    using assms(2) Ret r b(4) by (simp add: line_fits_def)
  obtain ps b' where ps: "parse_cmd b MAX_ARGS = Some (ps, b')" "length b' = length b"
    "map (\<lambda>p. cstr (drop p b')) ps = take MAX_ARGS (tokens (cstr b))" "list_all (\<lambda>p. terminated (drop p b')) ps"
    using parse_loop_ok [of 0 b "[]" MAX_ARGS] b(2) by (auto simp: parse_cmd_def)
  have "runs (bnd (shell_dispatch (map (\<lambda>p. drop p b') ps) k1) (\<lambda>_ k. bnd (say [Ln (lit [])] k) (\<lambda>_ k. Ret b' k)))
      round_ok (\<lambda>e k'. e \<noteq> Fault \<and> os_ok k')" if "ps \<noteq> []"
  proof (rule runs_bnd [where R = "\<lambda>_. os_ok"])
    show "runs (shell_dispatch (map (\<lambda>p. drop p b') ps) k1) (\<lambda>_. os_ok) (\<lambda>e k'. e \<noteq> Fault \<and> os_ok k')"
      using dispatch_ok [OF b(3), of "map (\<lambda>p. drop p b') ps"] args_fit [OF ps(3,4) fits] ps(4) that
      by (cases ps) (auto simp: os_safe_def)
  next
    fix u k2 assume "os_ok k2"
    then show "runs (bnd (say [Ln (lit [])] k2) (\<lambda>_ k. Ret b' k)) round_ok (\<lambda>e k'. e \<noteq> Fault \<and> os_ok k')"
      unfolding runs_bnd_iff
      by (intro say_ok) (auto simp: os_okD round_ok_def ps(2) b(1) os_ok_scr)
  qed
  then show ?thesis
    using Ret r ps b by (auto simp: shell_round_eq round_ok_def)
qed

section \<open>Every prompt\<close>

lemma reach_ok:
  assumes "shell_reach k0 buf k" and "os_ok k0" and "\<And>b j. shell_reach k0 b j \<Longrightarrow> line_fits b j"
  shows "round_ok buf k"
  using assms(1)
proof induction
  case start
  then show ?case using assms(2) by (simp add: round_ok_def)
next
  case (round buf k buf' k')
  then show ?case using runs_Ret [OF round_safe [OF round.IH assms(3)]] by blast
qed

lemma reach_from:
  assumes "\<And>b j. shell_reach k0 b j \<Longrightarrow> line_fits b j" and "os_ok k0" and "shell_reach k0 buf k"
  shows "\<exists>e k'. shell_loop buf k = Stop e k' \<and> e \<noteq> Fault \<and> os_ok k'"
  using assms(3)
proof (induction "input_left k" arbitrary: buf k rule: less_induct)
  case less
  have ok: "round_ok buf k" "line_fits buf k" using reach_ok [OF less.prems assms(2,1)] assms(1) less.prems by auto
  show ?case
  proof (cases "shell_round buf k")
    case (Ret buf' k')
    then show ?thesis
      using less.hyps [OF shell_round_input [OF Ret] shell_reach.round [OF less.prems Ret]]
      by (subst shell_loop.simps) simp
  next
    case (Stop e k')
    then show ?thesis using round_safe [OF ok] by (subst shell_loop.simps) simp
  qed
qed

text \<open>How a round, and so the loop, can end.\<close>

lemma returns_bnd:
  "returns_within k m \<Longrightarrow> (\<And>a j. returns_within j (f a j)) \<Longrightarrow> returns_within k (bnd m f)"
  by (cases m) (fastforce simp: returns_within_def elim!: runs_mono)+

lemma returns_round: "returns_within k (shell_round buf k)"
proof -
  have fr: "returns_within j (say cs j)" "returns_within j (shell_readline b n j)" "returns_within j (chk x j)"
    "returns_within j (Ret a j)" for cs j b n and x :: "'a option" and a :: 'b
    by (rule framed_returns [where b = False], rule frames, simp)+
  show ?thesis
    unfolding shell_round_def
    by (intro returns_bnd fr) (auto split: prod.split intro!: returns_bnd fr returns_dispatch)
qed

lemma loop_ends:
  "\<exists>e k'. shell_loop buf k = Stop e k' \<and> (e \<in> {Fault, PowerOff} \<or> e = Blocked \<and> pending k' = [])"
proof (induction "input_left k" arbitrary: buf k rule: less_induct)
  case less
  show ?case
  proof (cases "shell_round buf k")
    case (Ret buf' k')
    then show ?thesis
      using less [OF shell_round_input [OF Ret], of buf'] by (subst shell_loop.simps) simp
  next
    case (Stop e k')
    then show ?thesis using returns_round [of k buf] by (subst shell_loop.simps) (simp add: returns_within_def)
  qed
qed

lemma loop_safe:
  assumes "os_ok k" and "\<forall>buf j. shell_reach k buf j \<longrightarrow> line_fits buf j"
  shows "\<exists>e k'. shell_loop (replicate CMD_LEN NUL) k = Stop e k' \<and> os_ok k' \<and>
     (e = PowerOff \<or> e = Blocked \<and> pending k' = [])"
  using reach_from [OF _ assms(1) shell_reach.start] loop_ends [of "replicate CMD_LEN NUL" k] assms(2)
  by (metis empty_iff insert_iff outcome.inject(2))

text \<open>C3: the shell runs forever, safely: it never returns and never accesses memory out of bounds,
  as long as at every prompt it reaches the words after the command fit into names and paths. On an
  input of finitely many keys, with interrupts at any points of the wait loop, it ends only when it is
  switched off, or asleep in the \<open>hlt\<close> of \<open>kbd_getchar\<close> after the last interrupt has been handled, and the
  invariant of the whole system holds then. (A key that came between the last test and
  this \<open>hlt\<close> may still be in the ring: \<open>late_key_not_read\<close>.)\<close>

theorem shell_loop_safe:
  assumes "os_ok k" and "\<forall>buf j. shell_reach k buf j \<longrightarrow> line_fits buf j"
  shows "\<exists>e k'. shell_loop (replicate CMD_LEN NUL) k = Stop e k' \<and> os_ok k' \<and>
     (e = PowerOff \<or> e = Blocked \<and> pending k' = [])"
  using assms by (rule loop_safe)

section \<open>Shutdown from the keyboard\<close>

text \<open>Typed keys reach \<open>readline\<close> after any output that leaves the input alone.\<close>

lemma shell_readline_types:
  assumes "input_ready k" and "list_all2 (arrives (keys k) At_test) ws (cs @ [CHR 0x0A])"
    and "CHR 0x0A \<notin> set cs" and "pending k = concat ws @ rest" and "length buf = CMD_LEN"
    and "length cs < CMD_LEN" and "list_all (\<lambda>c. printable c \<and> c \<noteq> CHR 0x08) cs"
  shows "\<exists>b k'. shell_readline buf CMD_LEN k = Ret (length cs, b) k' \<and> cstr b = cs \<and> input_ready k' \<and> pending k' = rest"
proof -
  have plain: "foldl (edit1 printable CMD_LEN) u cs = u @ cs" if "length u + length cs < CMD_LEN" for u
    using assms(7) that
  proof (induction cs arbitrary: u)
    case (Cons c cs)
    then have "edit1 printable CMD_LEN u c = u @ [c]" by (simp add: edit1_def)
    with Cons show ?case by simp
  qed simp
  have pos: "0 < CMD_LEN" by (simp add: CMD_LEN_def)
  obtain m b k' where r: "readline_loop printable CMD_LEN 0 buf k = Ret (m, b) k'" "take m b = cs" "input_ready k'" "pending k' = rest"
    using readline_loop_types [OF assms(1,2,4,3) pos, of buf printable] assms(5,6) plain [of "[]"] by auto
  have m: "m < length b" "b ! m = NUL"
    using readline_loop_ok [OF _ pos, of k buf printable] assms(1,5) r(1)
    by (auto simp: line_read_def input_ready_def)
  then have b: "b = cs @ NUL # drop (Suc m) b" using r(2) id_take_nth_drop [OF m(1)] by simp
  have "\<not> printable NUL" by (simp add: printable_def)
  then have "NUL \<notin> set cs" using assms(7) by (auto simp: list_all_iff)
  then have "cstr b = cs" by (subst b) (simp add: cstr_append_unterminated)
  moreover have "m = length cs" using m(1) r(2) by auto
  ultimately show ?thesis using r(1,3,4) by (auto simp: shell_readline_def)
qed

text \<open>Typing a line at a prompt.\<close>

lemma prompt_line_types:
  assumes "os_ok k" and "input_ready k" and "list_all2 (arrives (keys k) At_test) ws (cs @ [CHR 0x0A])"
    and "CHR 0x0A \<notin> set cs" and "pending k = concat ws @ rest" and "length buf = CMD_LEN"
    and "length cs < CMD_LEN" and "list_all (\<lambda>c. printable c \<and> c \<noteq> CHR 0x08) cs"
  shows "\<exists>b k'. prompt_line buf k = Ret (length cs, b) k' \<and> cstr b = cs \<and> input_ready k' \<and> pending k' = rest"
proof -
  define prompt where "prompt = [Col VGA_LIGHT_GREEN VGA_BLACK, Wr (lit ''  dug@os:''), Wr (dir_getcwd (dtab k)),
    Wr (lit ''$ ''), Col VGA_WHITE VGA_BLACK]"
  have pr: "list_all vcall_ok prompt" using cwd_eq [OF os_okD(3) [OF assms(1)]] by (simp add: prompt_def)
  obtain v where v: "vcalls prompt (scr k) = Some v" using vcalls_Some [OF pr] by blast
  define k1 where "k1 = k\<lparr>scr := v\<rparr>"
  have "vga_wf v" using vcalls_safe [OF _ v] os_okD(1) [OF assms(1)] by (simp add: machine_ok_def)
  then have "input_ready k1" using assms(2) by (simp add: k1_def input_ready_def)
  moreover have "list_all2 (arrives (keys k1) At_test) ws (cs @ [CHR 0x0A])" "pending k1 = concat ws @ rest"
    using assms(3,5) by (simp_all add: k1_def)
  ultimately show ?thesis
    using shell_readline_types [of k1 ws cs rest buf] assms(4,6-8) v
    by (simp add: prompt_line_def say_def prompt_def k1_def)
qed

text \<open>C5: shutting down works from the keyboard to the power switch: when the user presses the keys
  of \<open>shutdown\<close> and Enter at the prompt, the keyboard handler, the line editor, the tokenizer and
  the dispatcher together bring the machine to \<open>cmd_shutdown\<close>. The writes to the ports then leave both
  interrupt controllers initialised with their BIOS vectors, 8 and 112, and all sixteen lines masked,
  whatever state they were in; interrupts are off, and the last two port writes are those to the
  power-off ports. No file has changed. The keys come as in C15: one after the other, each before a test
  of the wait loop or while the reader sleeps, none between a test that finds nothing and the \<open>hlt\<close>.\<close>

theorem shutdown_from_keyboard:
  assumes "os_ok k" and "input_ready k" and "list_all2 (arrives (keys k) At_test) ws (''shutdown'' @ [CHR 0x0A])"
    and "pending k = concat ws @ rest" and "length buf = CMD_LEN"
  shows "\<exists>k' i. shell_loop buf k = Stop PowerOff k' \<and> ios k' = outb 0xB004 0 (outb 0x604 0 (pic_restore i)) \<and>
     phase (master p (iolog (ios k'))) = Ready \<and> phase (slave q (iolog (ios k'))) = Ready \<and>
     vbase (master p (iolog (ios k'))) = 8 \<and> vbase (slave q (iolog (ios k'))) = 112 \<and>
     (\<forall>irq < 16. line_masked (master p (iolog (ios k'))) (slave q (iolog (ios k'))) irq) \<and>
     \<not> iflag (kcpu k') \<and> disk k' = disk k"
proof -
  define cs where "cs = ''shutdown''"
  have plain: "CHR 0x0A \<notin> set cs" "length cs < CMD_LEN" "list_all (\<lambda>c. printable c \<and> c \<noteq> CHR 0x08) cs"
    by (simp_all add: cs_def CMD_LEN_def printable_def)
  obtain b k2 where pl: "prompt_line buf k = Ret (length cs, b) k2" and cb: "cstr b = cs"
    using prompt_line_types [OF assms(1,2) _ plain(1) assms(4,5) plain(2,3)] assms(3) by (auto simp: cs_def)
  then have k2: "terminated b" "os_ok k2" "io_only k k2"
    using prompt_line_ok [OF assms(1,5)] os_ok_io [OF assms(1)] by auto
  have tok: "take MAX_ARGS (tokens (cstr b)) = [''shutdown'']"
    unfolding cb cs_def by code_simp
  obtain ps b' where ps: "parse_cmd b MAX_ARGS = Some (ps, b')"
    "map (\<lambda>p. cstr (drop p b')) ps = [''shutdown'']" "list_all (\<lambda>p. terminated (drop p b')) ps"
    using parse_loop_ok [of 0 b "[]" MAX_ARGS] k2(1) tok by (auto simp: parse_cmd_def)
  then obtain a where a: "ps = [a]" "cstr (drop a b') = ''shutdown''" "terminated (drop a b')" by auto
  have "shell_dispatch [drop a b'] k2 = cmd_shutdown k2"
    using a by (simp add: shell_dispatch_def Let_def arm_eq)
  then have "shell_round buf k = bnd (cmd_shutdown k2) (\<lambda>_ k. bnd (say [Ln (lit [])] k) (\<lambda>_ k. Ret b' k))"
    using pl ps(1) a(1) by (simp add: shell_round_eq cs_def)
  moreover obtain w where "cmd_shutdown k2 =
     Stop PowerOff (k2\<lparr>scr := w, ios := outb 0xB004 0 (outb 0x604 0 (pic_restore (ios k2))),
       kcpu := (kcpu k2)\<lparr>iflag := False\<rparr>\<rparr>)"
    using cmd_shutdown_eq [OF os_okD(1) [OF k2(2)]] by blast
  ultimately show ?thesis
    using k2(3) pic_restored by (subst shell_loop.simps) (auto simp: io_only_def)
qed

section \<open>Instances\<close>

lemma machine0_os [simp]: "os_ok machine0"
proof -
  have "fs_abs fs0 = Map.empty" by (simp add: fs_abs_def fs0_def blank_entry_def)
  then show ?thesis
    using machine0_dirs(1) by (simp add: os_ok_def files_in_dirs_def) (simp add: machine0_def)
qed

lemma machine0_os_pending [simp]: "os_ok (machine0\<lparr>pending := p\<rparr>)"
  using machine0_os by (simp add: os_ok_def)

theorem shell_dispatch_safe_witness:
  "runs (shell_dispatch [lit ''mkdir'', lit ''home''] machine0) (\<lambda>_ k'. os_ok k') (\<lambda>e k'. e \<noteq> Fault \<and> os_ok k')"
proof (rule shell_dispatch_safe)
  show "\<forall>a \<in> set (tl [lit ''mkdir'', lit ''home'']). arg_fits (cwd (dtab machine0)) a"
    using home_fits(1) machine0_dirs(2) by (simp add: arg_fits_def fits_name_def FS_NAME_LEN_def)
qed simp_all

lemma types_shutdown:
  "list_all2 (types kbd0) [0x1F, 0x23, 0x16, 0x14, 0x20, 0x18, 0x11, 0x31, 0x1C] (''shutdown'' @ [CHR 0x0A])"
  by (simp add: types_def isr_puts_def ring_count_def kbd_translate_def kbd0_def
      scancode_normal_def is_lower_def is_upper_def KBD_BUF_SIZE_def)

lemma types_mkdir_a: "list_all2 (types kbd0) [0x32, 0x25, 0x20, 0x17, 0x13, 0x39, 0x1E, 0x1C] (''mkdir a'' @ [CHR 0x0A])"
  by (simp add: types_def isr_puts_def ring_count_def kbd_translate_def kbd0_def
      scancode_normal_def is_lower_def is_upper_def KBD_BUF_SIZE_def)

text \<open>A key that wakes the reader and is released before it is read.\<close>

definition tap :: "8 word \<Rightarrow> 8 word list list" where
  "tap sc = [[], [], [sc], [sc OR 0x80]]"

lemma arrives_tap:
  "types q sc c \<Longrightarrow> \<not> idle sc \<Longrightarrow> idle (sc OR 0x80) \<Longrightarrow> arrives q At_test (tap sc) c"
  unfolding tap_def by (intro arrives.nothing_yet arrives.falls_asleep arrives.woken) (simp_all add: keystroke_def)

lemma arrives_taps:
  assumes "list_all2 (types q) scs cs" and "list_all (\<lambda>sc. \<not> idle sc \<and> idle (sc OR 0x80)) scs"
  shows "list_all2 (arrives q At_test) (map tap scs) cs"
  using assms by (induction rule: list_all2_induct) (auto intro: arrives_tap)

theorem shutdown_from_keyboard_witness:
  "\<exists>k' i. shell_loop (replicate CMD_LEN NUL)
       (machine0\<lparr>pending := concat (map tap [0x1F, 0x23, 0x16, 0x14, 0x20, 0x18, 0x11, 0x31, 0x1C])\<rparr>) = Stop PowerOff k' \<and>
     ios k' = outb 0xB004 0 (outb 0x604 0 (pic_restore i)) \<and> vbase (master pic0 (iolog (ios k'))) = 8 \<and>
     line_masked (master pic0 (iolog (ios k'))) (slave pic0 (iolog (ios k'))) 1 \<and> \<not> iflag (kcpu k')"
proof -
  define scs :: "8 word list" where "scs = [0x1F, 0x23, 0x16, 0x14, 0x20, 0x18, 0x11, 0x31, 0x1C]"
  define k where "k = machine0\<lparr>pending := concat (map tap scs)\<rparr>"
  have "keys k = kbd0" by (simp add: k_def machine0_def)
  then have "list_all2 (arrives (keys k) At_test) (map tap scs) (''shutdown'' @ [CHR 0x0A])"
    using arrives_taps [OF types_shutdown] by (simp add: scs_def idle_def)
  moreover have "pending k = concat (map tap scs) @ []" by (simp add: k_def)
  moreover have "os_ok k" "input_ready k" using machine0_ready by (simp_all add: k_def)
  ultimately show ?thesis
    using shutdown_from_keyboard [of k "map tap scs" "[]" "replicate CMD_LEN NUL" pic0 pic0]
    unfolding scs_def [symmetric] k_def [symmetric] by fastforce
qed

text \<open>With nothing left to read the loop stays at its prompt.\<close>

lemma no_input: "input_left k = 0 \<Longrightarrow> line_fits buf k"
  by (cases "prompt_line buf k")
    (auto simp: line_fits_def prompt_line_def bnd_Ret_iff shell_readline_def dest!: say_input readline_loop_input)

text \<open>A user who types one line, whose arguments fit, and nothing more.\<close>

lemma one_line_fits:
  assumes "os_ok k" and "input_ready k" and "list_all2 (arrives (keys k) At_test) ws (cs @ [CHR 0x0A])"
    and "CHR 0x0A \<notin> set cs" and "pending k = concat ws" and "length cs < CMD_LEN"
    and "list_all (\<lambda>c. printable c \<and> c \<noteq> CHR 0x08) cs" and "list_all (word_fits (cwd (dtab k))) (tl (take MAX_ARGS (tokens cs)))"
    and "shell_reach k buf j"
  shows "line_fits buf j"
proof -
  obtain b k1 where pl: "prompt_line (replicate CMD_LEN NUL) k = Ret (length cs, b) k1" "cstr b = cs" "input_ready k1" "pending k1 = []"
    using prompt_line_types [OF assms(1-4), of "[]" "replicate CMD_LEN NUL"] assms(5-7) by auto
  have start: "line_fits (replicate CMD_LEN NUL) k" using pl(1,2) assms(8) by (simp add: line_fits_def)
  have left: "input_left k1 = 0"
    using pl(3,4) length_kbd_chars [of "keys k1"] by (simp add: input_left_def input_ready_def)
  have after: "input_left i = 0" if "shell_round (replicate CMD_LEN NUL) k = Ret b' i" for b' i
    using that pl(1) left returns_dispatch [of k1]
    by (fastforce simp: shell_round_eq bnd_Ret_iff chk_Ret_iff returns_within_def split: if_splits prod.splits dest!: say_input runs_Ret)
  have "j = k \<and> buf = replicate CMD_LEN NUL \<or> input_left j = 0"
    using assms(9)
  proof induction
    case (round buf j buf' j')
    then show ?case using after [of buf' j'] shell_round_input [of buf j buf' j'] by auto
  qed simp
  then show ?thesis using start no_input by blast
qed

lemma mkdir_a_typed:
  assumes "os_ok k" and "input_ready k" and "modifiers (keys k) = modifiers kbd0" and "cwd (dtab k) = ''/''"
    and "pending k = concat (map tap [0x32, 0x25, 0x20, 0x17, 0x13, 0x39, 0x1E, 0x1C])"
  shows "\<exists>n b i. prompt_line (replicate CMD_LEN NUL) k = Ret (n, b) i \<and> tokens (cstr b) = [''mkdir'', ''a'']"
    and "shell_reach k buf j \<Longrightarrow> line_fits buf j"
proof -
  define ws where "ws = map tap [0x32, 0x25, 0x20, 0x17, 0x13, 0x39, 0x1E, 0x1C]"
  have "list_all2 (arrives kbd0 At_test) ws (''mkdir a'' @ [CHR 0x0A])"
    unfolding ws_def by (rule arrives_taps [OF types_mkdir_a]) (simp add: idle_def)
  then have w: "list_all2 (arrives (keys k) At_test) ws (''mkdir a'' @ [CHR 0x0A])"
    using arrives_modifiers [OF _ assms(3)] by (auto elim!: list_all2_mono)
  have plain: "CHR 0x0A \<notin> set ''mkdir a''" "length ''mkdir a'' < CMD_LEN" "list_all (\<lambda>c. printable c \<and> c \<noteq> CHR 0x08) ''mkdir a''"
    by (simp_all add: CMD_LEN_def printable_def)
  have tok: "tokens ''mkdir a'' = [''mkdir'', ''a'']" by code_simp
  have p: "pending k = concat ws" "pending k = concat ws @ []" using assms(5) by (simp_all add: ws_def)
  show "\<exists>n b i. prompt_line (replicate CMD_LEN NUL) k = Ret (n, b) i \<and> tokens (cstr b) = [''mkdir'', ''a'']"
    using prompt_line_types [OF assms(1,2) w plain(1) p(2) _ plain(2,3)] tok by force
  have "list_all (word_fits (cwd (dtab k))) (tl (take MAX_ARGS (tokens ''mkdir a'')))"
    using assms(4) unfolding tok by (simp add: MAX_ARGS_def word_fits_def path_join_def FS_NAME_LEN_def DIR_NAME_LEN_def)
  then show "shell_reach k buf j \<Longrightarrow> line_fits buf j"
    using one_line_fits [OF assms(1,2) w plain(1) p(1) plain(2,3)] by blast
qed

text \<open>The user types \<open>mkdir a\<close>; the shell reads it, makes the directory and sleeps at the next prompt.\<close>

theorem shell_loop_safe_witness:
  "(\<exists>n b i. prompt_line (replicate CMD_LEN NUL)
      (machine0\<lparr>pending := concat (map tap [0x32, 0x25, 0x20, 0x17, 0x13, 0x39, 0x1E, 0x1C])\<rparr>) = Ret (n, b) i \<and>
      tokens (cstr b) = [''mkdir'', ''a'']) \<and>
   (\<exists>e k'. shell_loop (replicate CMD_LEN NUL)
      (machine0\<lparr>pending := concat (map tap [0x32, 0x25, 0x20, 0x17, 0x13, 0x39, 0x1E, 0x1C])\<rparr>) = Stop e k' \<and> os_ok k' \<and>
      (e = PowerOff \<or> e = Blocked \<and> pending k' = []))"
proof -
  define k where "k = machine0\<lparr>pending := concat (map tap [0x32, 0x25, 0x20, 0x17, 0x13, 0x39, 0x1E, 0x1C])\<rparr>"
  have k: "os_ok k" "input_ready k" "modifiers (keys k) = modifiers kbd0" "cwd (dtab k) = ''/''"
    "pending k = concat (map tap [0x32, 0x25, 0x20, 0x17, 0x13, 0x39, 0x1E, 0x1C])"
    using machine0_ready machine0_dirs(2) by (simp_all add: k_def) (simp add: machine0_def)
  show ?thesis
    unfolding k_def [symmetric]
    using mkdir_a_typed [OF k] shell_loop_safe [OF k(1)] by blast
qed

end
