(* ===== verification/Boot.thy ===== *)
theory Boot
  imports Shellrun
begin

text \<open>
  The boot sequence of \<open>src/src/main.c\<close>: the stages of \<open>kmain\<close> in their order, up to the shell. The
  state adds the descriptor tables to the kernel; the addresses that the linker gives to the tables
  and to the interrupt stubs are parameters.
\<close>

section \<open>State and tables\<close>

record system =
  gdt_tab :: "gdt_entry list"
  idt_tab :: "idt_entry list"
  core :: kernel

record layout =
  gdt_addr :: "32 word"
  idt_addr :: "32 word"
  isr_addr :: "nat \<Rightarrow> 32 word"
  irq_addr :: "nat \<Rightarrow> 32 word"

definition NR_TASKS :: nat where "NR_TASKS = 4"
definition NR_PROCS :: nat where "NR_PROCS = 64"
definition NR_SYS_PROCS :: nat where "NR_SYS_PROCS = 32"
definition NR_BOOT_PROCS :: nat where "NR_BOOT_PROCS = 8"

record image_entry =
  proc_nr :: int
  priority :: int
  quantum :: int
  proc_name :: cptr

definition image :: "image_entry list" where
  "image =
     [\<lparr>proc_nr = -4, priority = 0, quantum = 0, proc_name = name16 ''HARDWARE''\<rparr>,
      \<lparr>proc_nr = -3, priority = 1, quantum = 10, proc_name = name16 ''IDLE''\<rparr>,
      \<lparr>proc_nr = -2, priority = 2, quantum = 10, proc_name = name16 ''CLOCK''\<rparr>,
      \<lparr>proc_nr = -1, priority = 2, quantum = 10, proc_name = name16 ''SYSTEM''\<rparr>,
      \<lparr>proc_nr = 0, priority = 3, quantum = 10, proc_name = name16 ''PM''\<rparr>,
      \<lparr>proc_nr = 1, priority = 3, quantum = 10, proc_name = name16 ''FS''\<rparr>,
      \<lparr>proc_nr = 2, priority = 3, quantum = 10, proc_name = name16 ''TTY''\<rparr>,
      \<lparr>proc_nr = 3, priority = 4, quantum = 10, proc_name = name16 ''INIT''\<rparr>]"

section \<open>Messages of the boot stages\<close>

definition boot_proc_table :: "kernel \<Rightarrow> (unit, kernel) outcome" where
  "boot_proc_table = say [Col VGA_LIGHT_GREEN VGA_BLACK, Wr (lit ''  [kernel] proc_table: ''),
     Dec (of_nat (NR_TASKS + NR_PROCS)), Ln (lit '' slots cleared ... OK'')]"

definition boot_priv_table :: "kernel \<Rightarrow> (unit, kernel) outcome" where
  "boot_priv_table = say [Col VGA_LIGHT_GREEN VGA_BLACK, Wr (lit ''  [kernel] priv_table: ''),
     Dec (of_nat NR_SYS_PROCS), Ln (lit '' slots cleared ... OK'')]"

definition boot_image_init :: "kernel \<Rightarrow> (unit, kernel) outcome" where
  "boot_image_init = say (
     [Col VGA_LIGHT_GREEN VGA_BLACK] @
     concat (map (\<lambda>i. [Wr (lit ''  [kernel]   -> loaded  ''), Wr (proc_name (image ! i)), Ln (lit [])])
       [0..<NR_BOOT_PROCS]) @
     [Wr (lit ''  [kernel] boot_image: ''), Dec (of_nat NR_BOOT_PROCS), Ln (lit '' processes loaded  ... OK'')])"

definition announce :: "kernel \<Rightarrow> (unit, kernel) outcome" where
  "announce = say [Col VGA_LIGHT_GREEN VGA_BLACK,
     Ln (lit ''  [kernel] DugOS v1.0 -- Built on MINIX 3.1.0 concepts''),
     Ln (lit ''  [kernel] Executing in 32-bit protected mode.'')]"

text \<open>The banner; a backslash is \<open>CHR 0x5C\<close>.\<close>

definition banner :: "string list" where
  "banner =
     [[],
      ''  +=================================================================+'',
      ''  |                                                                 |'',
      ''  |    ____  _   _   ____   ___   ____                             |'',
      ''  |   |  _ '' @ CHR 0x5C # ''| | | | / ___| / _ '' @ CHR 0x5C # '' / ___|                            |'',
      ''  |   | | | | | | || |  _ | | | |'' @ CHR 0x5C # ''___ '' @ CHR 0x5C # ''                            |'',
      ''  |   | |_| | |_| || |_| || |_| | ___) |                           |'',
      ''  |   |____/ '' @ CHR 0x5C # ''___/  '' @ CHR 0x5C # ''____| '' @ CHR 0x5C # ''___/ |____/                             |'',
      ''  |                                                                 |'',
      ''  |          O P E R A T I N G     S Y S T E M                    |'',
      ''  |                      v e r s i o n  1.0                        |'',
      ''  |                                                                 |'',
      ''  |   - - - - - - - - - - - - - - - - - - - - - - - - - - - - -   |'',
      ''  |      Built on MINIX 3.1.0 kernel  (Appendix B, line 07100)    |'',
      ''  |   - - - - - - - - - - - - - - - - - - - - - - - - - - - - -   |'',
      ''  |                                                                 |'',
      ''  |              [ Type  'help'  to begin ]                        |'',
      ''  |                                                                 |'',
      ''  +=================================================================+'']"

definition welcome_msg :: "kernel \<Rightarrow> (unit, kernel) outcome" where
  "welcome_msg = say (Col VGA_YELLOW VGA_BLACK # map (\<lambda>s. Ln (lit s)) banner)"

section \<open>kmain\<close>

text \<open>A stage that works on the kernel state only.\<close>

fun on_core :: "(unit, kernel) outcome \<Rightarrow> system \<Rightarrow> (unit, system) outcome" where
  "on_core (Ret u k) s = Ret u (s\<lparr>core := k\<rparr>)"
| "on_core (Stop e k) s = Stop e (s\<lparr>core := k\<rparr>)"

definition stage :: "(kernel \<Rightarrow> (unit, kernel) outcome) \<Rightarrow> system \<Rightarrow> (unit, system) outcome" where
  "stage f s = on_core (f (core s)) s"

definition kmain_init :: "layout \<Rightarrow> system \<Rightarrow> (unit, system) outcome" where
  "kmain_init l s =
     bnd (stage (\<lambda>k. Ret () (k\<lparr>scr := vga_init (scr k)\<rparr>)) s) (\<lambda>_ s.
     bnd (stage welcome_msg s) (\<lambda>_ s.
     bnd (chk (gdt_init (gdt_addr l) (gdt_tab s) (kcpu (core s))) s) (\<lambda>(g, c) s.
     let s = s\<lparr>gdt_tab := g, core := (core s)\<lparr>kcpu := c\<rparr>\<rparr> in
     bnd (stage (say [Col VGA_LIGHT_GREEN VGA_BLACK, Ln (lit ''  >> GDT loaded (5 entries)'')]) s) (\<lambda>_ s.
     bnd (chk (idt_init (idt_addr l) (isr_addr l) (irq_addr l) (idt_tab s) (kcpu (core s))) s) (\<lambda>(i, c) s.
     let s = s\<lparr>idt_tab := i, core := (core s)\<lparr>kcpu := c\<rparr>\<rparr> in
     bnd (stage (say [Ln (lit ''  >> IDT loaded (256 entries, 32 exceptions + 16 IRQ slots)'')]) s) (\<lambda>_ s.
     bnd (chk (pic_init (ios (core s)) (scr (core s))) s) (\<lambda>(i, v) s.
     let s = s\<lparr>core := (core s)\<lparr>ios := i, scr := v\<rparr>\<rparr> in
     bnd (stage boot_proc_table s) (\<lambda>_ s.
     bnd (stage boot_priv_table s) (\<lambda>_ s.
     bnd (stage boot_image_init s) (\<lambda>_ s.
     bnd (stage announce s) (\<lambda>_ s.
     bnd (chk (kbd_init (core s)) s) (\<lambda>k s.
     let s = s\<lparr>core := k\<rparr> in
     bnd (stage (say [Ln (lit ''  >> Keyboard driver initialized (IRQ1 registered)'')]) s) (\<lambda>_ s.
     let s = s\<lparr>core := on_disk fs_init (core s)\<rparr> in
     bnd (stage (say [Ln (lit ''  >> File system initialized (8 x 32KB blocks, FAT-linked)'')]) s) (\<lambda>_ s.
     bnd (chk (dir_init (dtab (core s))) s) (\<lambda>t s.
     let s = s\<lparr>core := (core s)\<lparr>dtab := t\<rparr>\<rparr> in
     stage (say [Ln (lit ''  >> Directory subsystem initialized (cwd = /)''), Ln (lit []),
                 Col VGA_WHITE VGA_BLACK, Ln (lit ''  >> All systems ready. Entering shell...''), Ln (lit [])])
       s)))))))))))))))"

text \<open>\<open>sti\<close>.\<close>

definition sti :: "kernel \<Rightarrow> kernel" where
  "sti k = k\<lparr>kcpu := (kcpu k)\<lparr>iflag := True\<rparr>\<rparr>"

definition kmain :: "layout \<Rightarrow> system \<Rightarrow> (unit, system) outcome" where
  "kmain l s =
     bnd (kmain_init l s) (\<lambda>_ s.
     let s = s\<lparr>core := sti (core s)\<rparr> in
     bnd (stage shell_run s) (\<lambda>_ s.
     Stop Halted (s\<lparr>core := (core s)\<lparr>kcpu := (kcpu (core s))\<lparr>iflag := False\<rparr>\<rparr>\<rparr>)))"

end
