(* ===== verification/Bootprops.thy ===== *)
theory Bootprops
  imports Boot
begin

text \<open>
  What the boot sequence of \<open>src/src/main.c\<close> establishes: from the zeroed memory that the loader
  leaves, every stage succeeds, and the state in which interrupts are enabled satisfies the
  invariants that the shell relies on.
\<close>

section \<open>fs\_init\<close>

lemma fold_update_all:
  "n \<le> length xs \<Longrightarrow> fold (\<lambda>i f. f[i := h (f ! i)]) [0..<n] xs = map h (take n xs) @ drop n xs"
proof (induction n)
  case (Suc n)
  then have "drop n xs = xs ! n # drop (Suc n) xs" by (simp add: Cons_nth_drop_Suc)
  with Suc show ?case by (simp add: list_update_append nth_append take_Suc_conv_app_nth)
qed simp

lemma fs_init_eq:
  assumes "fs_shape s"
  shows "fs_init s = s\<lparr>fat := replicate FS_N_BLOCKS FAT_FREE,
    files := map (\<lambda>e. e\<lparr>used := False, fe_size := 0, first_block := FAT_END\<rparr>) (files s)\<rparr>"
proof -
  have len: "length (fat s) = FS_N_BLOCKS" "length (files s) = FS_MAX_FILES"
    using assms by (simp_all add: fs_shape_def)
  then show ?thesis
    using fold_update_all [of FS_N_BLOCKS "fat s" "\<lambda>_. FAT_FREE"]
      fold_update_all [of FS_MAX_FILES "files s" "\<lambda>e. e\<lparr>used := False, fe_size := 0, first_block := FAT_END\<rparr>"]
    by (simp add: fs_init_def map_replicate_const)
qed

lemma fs_init_ok:
  assumes "fs_shape s"
  shows "fs_wf (fs_init s) \<and> fs_abs (fs_init s) = Map.empty"
proof
  have "length (files s) = FS_MAX_FILES" using assms by (simp add: fs_shape_def)
  moreover have "fs_shape (fs_init s)"
    using assms by (simp add: fs_init_eq fs_shape_def list_all_length)
  moreover from calculation have "\<not> used (files (fs_init s) ! i) \<and> first_block (files (fs_init s) ! i) = FAT_END \<and>
      fe_size (files (fs_init s) ! i) = 0" if "i < FS_MAX_FILES" for i
    using that assms by (simp add: fs_init_eq)
  ultimately show "fs_wf (fs_init s)" by (simp add: fs_wf_def)
  have "filter used (map (\<lambda>e. e\<lparr>used := False, fe_size := 0, first_block := FAT_END\<rparr>) es) = []" for es
    by (induction es) simp_all
  with assms show "fs_abs (fs_init s) = Map.empty" by (simp add: fs_abs_def fs_init_eq)
qed

section \<open>The memory at entry\<close>

text \<open>Tables of their declared sizes, an empty keyboard ring and interrupts disabled.\<close>

definition loaded :: "system \<Rightarrow> bool" where
  "loaded s \<longleftrightarrow>
     length (gdt_tab s) = GDT_ENTRIES \<and> length (idt_tab s) = IDT_ENTRIES \<and> fs_shape (disk (core s)) \<and>
     length (dirs (dtab (core s))) = DIR_MAX \<and> list_all dir_row (dirs (dtab (core s))) \<and>
     kbd_wf (keys (core s)) \<and> kbd_chars (keys (core s)) = [] \<and> length (irqs (core s)) = NR_IRQ \<and>
     length (junk (core s)) = 256 \<and> \<not> iflag (kcpu (core s))"

text \<open>
  The documented behaviour of the two interrupt controllers that the mask operations rely on: while
  they are not being initialised, a data port reads back the mask register.
\<close>

definition pic_device :: "pic8259 \<Rightarrow> pic8259 \<Rightarrow> (iowrite list \<Rightarrow> 16 word \<Rightarrow> 8 word) \<Rightarrow> bool" where
  "pic_device p q dev \<longleftrightarrow>
     (\<forall>log. phase (master p log) = Ready \<and> phase (slave q log) = Ready \<longrightarrow>
        dev log PIC1_DATA = imr (master p log) \<and> dev log PIC2_DATA = imr (slave q log))"

section \<open>The stages\<close>

definition shown :: "vcall list \<Rightarrow> vga \<Rightarrow> vga" where
  "shown cs v = the (vcalls cs v)"

lemma stage_say:
  "list_all vcall_ok cs \<Longrightarrow> stage (say cs) s = Ret () (s\<lparr>core := (core s)\<lparr>scr := shown cs (scr (core s))\<rparr>\<rparr>)"
  using vcalls_Some [of cs "scr (core s)"] by (auto simp: stage_def say_def shown_def)

lemma stage_Ret: "stage (\<lambda>k. Ret () (f k)) s = Ret () (s\<lparr>core := f (core s)\<rparr>)"
  by (simp add: stage_def)

lemma shown_wf: "list_all vcall_ok cs \<Longrightarrow> vga_wf v \<Longrightarrow> vga_wf (shown cs v)"
  using vcalls_Some [of cs v] vcalls_safe [of v cs] by (auto simp: shown_def)

lemma messages_ok:
  "\<exists>cs. list_all vcall_ok cs \<and> welcome_msg = say cs" "\<exists>cs. list_all vcall_ok cs \<and> boot_proc_table = say cs"
  "\<exists>cs. list_all vcall_ok cs \<and> boot_priv_table = say cs" "\<exists>cs. list_all vcall_ok cs \<and> boot_image_init = say cs"
  "\<exists>cs. list_all vcall_ok cs \<and> announce = say cs"
proof -
  show "\<exists>cs. list_all vcall_ok cs \<and> welcome_msg = say cs"
    unfolding welcome_msg_def by (intro exI conjI) (auto simp: list_all_iff)
  show "\<exists>cs. list_all vcall_ok cs \<and> boot_image_init = say cs"
    unfolding boot_image_init_def
    by (intro exI conjI) (auto simp: list_all_iff NR_BOOT_PROCS_def image_def upt_rec)
qed (unfold boot_proc_table_def boot_priv_table_def announce_def, (intro exI conjI; simp)+)

lemma pic_init_screen: "pic_init s v = Some (s', v') \<Longrightarrow> vga_wf v \<Longrightarrow> vga_wf v'"
proof -
  assume p: "pic_init s v = Some (s', v')" and "vga_wf v"
  from p have "vcalls [Col VGA_LIGHT_GREEN VGA_BLACK,
      Ln (lit ''  >> PIC remapped (IRQ 0-7 -> 0x20, IRQ 8-15 -> 0x28)'')] v = Some v'"
    by (auto simp: pic_init_def Let_def bind_eq_Some_conv)
  then show ?thesis using vcalls_safe [OF \<open>vga_wf v\<close>] by blast
qed

lemma pic_init_dev: "pic_init s v = Some (s', v') \<Longrightarrow> iodev s' = iodev s"
  by (auto simp: pic_init_def Let_def bind_eq_Some_conv outb_wait_def outb_def io_wait_def)

lemma gdt_init_iflag: "gdt_init a g c = Some (g', c') \<Longrightarrow> iflag c' = iflag c"
  by (auto simp: gdt_init_def Let_def bind_eq_Some_conv gdt_flush_def)

lemma idt_init_iflag: "idt_init a f h i c = Some (i', c') \<Longrightarrow> iflag c' = iflag c"
  by (auto simp: idt_init_def Let_def bind_eq_Some_conv idt_flush_def)

text \<open>The whole sequence as one update of the state.\<close>

lemma kmain_init_eq:
  assumes "loaded s"
  shows "\<exists>g c i c2 v1 io1 v2 io2 t v. vga_wf v1 \<and> vga_wf v \<and>
     gdt_init (gdt_addr l) (gdt_tab s) (kcpu (core s)) = Some (g, c) \<and>
     idt_init (idt_addr l) (isr_addr l) (irq_addr l) (idt_tab s) c = Some (i, c2) \<and>
     pic_init (ios (core s)) v1 = Some (io1, v2) \<and> pic_unmask 1 io1 = Some io2 \<and>
     dir_init (dtab (core s)) = Some t \<and>
     kmain_init l s = Ret () (s\<lparr>gdt_tab := g, idt_tab := i, core := (core s)\<lparr>scr := v, ios := io2, kcpu := c2,
       irqs := (irqs (core s))[1 := Some Kbd_isr], disk := fs_init (disk (core s)), dtab := t\<rparr>\<rparr>)"
proof -
  have shape: "length (gdt_tab s) = GDT_ENTRIES" "length (idt_tab s) = IDT_ENTRIES" "length (irqs (core s)) = NR_IRQ"
    "length (dirs (dtab (core s))) = DIR_MAX" "list_all dir_row (dirs (dtab (core s)))"
    using assms by (simp_all add: loaded_def)
  obtain g c where g: "gdt_init (gdt_addr l) (gdt_tab s) (kcpu (core s)) = Some (g, c)"
    using gdt_init_ok [OF shape(1)] by blast
  obtain i c2 where i: "idt_init (idt_addr l) (isr_addr l) (irq_addr l) (idt_tab s) c = Some (i, c2)"
    using idt_init_ok [OF shape(2)] by blast
  obtain t where t: "dir_init (dtab (core s)) = Some t" using dir_init_eq [OF shape(4,5)] by blast
  have un: "\<exists>io2. pic_unmask 1 io1 = Some io2" for io1 by (simp add: pic_unmask_def)
  have pic: "\<exists>io1 v2. pic_init io v1 = Some (io1, v2)" for io v1 using pic_init_ok by blast
  obtain cs1 cs2 cs3 cs4 cs5 where ok: "list_all vcall_ok cs1" "list_all vcall_ok cs2" "list_all vcall_ok cs3"
    "list_all vcall_ok cs4" "list_all vcall_ok cs5"
    and eq: "welcome_msg = say cs1" "boot_proc_table = say cs2" "boot_priv_table = say cs3" "boot_image_init = say cs4"
    "announce = say cs5"
    using messages_ok by metis
  define v1 where "v1 = shown [Ln (lit ''  >> IDT loaded (256 entries, 32 exceptions + 16 IRQ slots)'')]
    (shown [Col VGA_LIGHT_GREEN VGA_BLACK, Ln (lit ''  >> GDT loaded (5 entries)'')] (shown cs1 (vga_init (scr (core s)))))"
  have wf1: "vga_wf v1" unfolding v1_def using ok by (intro shown_wf) simp_all
  obtain io1 v2 where p: "pic_init (ios (core s)) v1 = Some (io1, v2)" using pic by blast
  obtain io2 where u: "pic_unmask 1 io1 = Some io2" using un by blast
  have wf2: "vga_wf v2" using pic_init_screen [OF p wf1] .
  define fin where "fin = [Ln (lit ''  >> Directory subsystem initialized (cwd = /)''), Ln (lit []),
    Col VGA_WHITE VGA_BLACK, Ln (lit ''  >> All systems ready. Entering shell...''), Ln (lit [])]"
  define v where "v = shown fin (shown [Ln (lit ''  >> File system initialized (8 x 32KB blocks, FAT-linked)'')]
    (shown [Ln (lit ''  >> Keyboard driver initialized (IRQ1 registered)'')]
      (shown cs5 (shown cs4 (shown cs3 (shown cs2 v2))))))"
  have wf: "vga_wf v" unfolding v_def fin_def using ok wf2 by (intro shown_wf) simp_all
  have "kmain_init l s = Ret () (s\<lparr>gdt_tab := g, idt_tab := i, core := (core s)\<lparr>scr := v, ios := io2, kcpu := c2,
       irqs := (irqs (core s))[1 := Some Kbd_isr], disk := fs_init (disk (core s)), dtab := t\<rparr>\<rparr>)"
    unfolding kmain_init_def eq using ok p u
    by (simp add: stage_say stage_Ret g i t v1_def [symmetric] v_def fin_def kbd_init_def irq_register_def NR_IRQ_def
        on_disk_def Let_def)
  then show ?thesis using wf1 wf g i p u t by blast
qed
lemma master_append: "master p (xs @ ys) = master (master p xs) ys"
  and slave_append: "slave p (xs @ ys) = slave (slave p xs) ys"
  by (simp_all add: master_def slave_def)

lemma pic_unmask_keeps_base:
  assumes "pic_unmask 1 io = Some io'" and "phase (master p (iolog io)) = Ready"
  shows "vbase (master p (iolog io')) = vbase (master p (iolog io))" "slave q (iolog io') = slave q (iolog io)"
  using assms
  by (auto simp: pic_unmask_def outb_def master_snoc slave_snoc pic_step_def pic_ports word_less_nat_alt)

text \<open>After the remapping and \<open>kbd_init\<close>: line \<open>n\<close> raises vector \<open>32 + n\<close>, and the keyboard's line is open.\<close>

lemma pic_ready:
  assumes "pic_device p q (iodev io)" and "pic_init io v = Some (io1, v')" and "pic_unmask 1 io1 = Some io2"
  shows "vbase (master p (iolog io2)) = 32 \<and> vbase (slave q (iolog io2)) = 40 \<and>
    \<not> line_masked (master p (iolog io2)) (slave q (iolog io2)) 1"
proof -
  obtain log where log: "iolog io1 = iolog io @ log"
    and m: "master (master p (iolog io)) log = (master p (iolog io))\<lparr>phase := Ready, vbase := 32, cascade := 4, mode := 1,
      imr := inb PIC1_DATA io\<rparr>"
    and s: "slave (slave q (iolog io)) log = (slave q (iolog io))\<lparr>phase := Ready, vbase := 40, cascade := 2, mode := 1,
      imr := inb PIC2_DATA io\<rparr>"
    using pic_init_ok [of io v "master p (iolog io)" "slave q (iolog io)"] assms(2) by auto
  have ready: "phase (master p (iolog io1)) = Ready" "phase (slave q (iolog io1)) = Ready"
    "vbase (master p (iolog io1)) = 32" "vbase (slave q (iolog io1)) = 40"
    using m s by (simp_all add: log master_append slave_append)
  have rb: "imr_readback p q io1"
    using assms(1) ready pic_init_dev [OF assms(2)] by (simp add: imr_readback_def pic_device_def inb_def)
  show ?thesis
    using pic_unmask_ok [of 1 p q io1 1] rb assms(3) ready pic_unmask_keeps_base [OF assms(3) ready(1)] by auto
qed

lemma sti_ok [simp]: "machine_ok (sti k) = machine_ok k" "os_ok (sti k) = os_ok k"
  by (simp_all add: sti_def os_ok_def)

lemma boot_core:
  assumes "loaded s" and "vga_wf v" and "dir_init (dtab (core s)) = Some t" and "iflag c2 = False"
    and "k = (core s)\<lparr>scr := v, ios := io2, kcpu := c2, irqs := (irqs (core s))[1 := Some Kbd_isr],
               disk := fs_init (disk (core s)), dtab := t\<rparr>"
  shows "os_ok k \<and> input_ready (sti k) \<and> fs_abs (disk k) = Map.empty \<and> paths (dtab k) = [''/''] \<and> cwd (dtab k) = ''/''"
proof -
  have l: "fs_shape (disk (core s))" "kbd_wf (keys (core s))" "kbd_chars (keys (core s)) = []"
    "length (irqs (core s)) = NR_IRQ" "length (junk (core s)) = 256"
    "length (dirs (dtab (core s))) = DIR_MAX" "list_all dir_row (dirs (dtab (core s)))"
    using assms(1) by (simp_all add: loaded_def)
  have t: "dir_wf t" "cwd t = ''/''" "paths t = [''/'']" using dir_init_eq [OF l(6,7)] assms(3) by auto
  have k: "machine_ok k" "disk k = fs_init (disk (core s))" "dtab k = t" "irqs k ! 1 = Some Kbd_isr" "keys k = keys (core s)"
    using l assms(2) by (simp_all add: assms(5) machine_ok_def NR_IRQ_def)
  have "iflag (kcpu (sti k))" "irqs (sti k) = irqs k" "keys (sti k) = keys k" by (simp_all add: sti_def)
  then show ?thesis
    using k l(3) t fs_init_ok [OF l(1)] by (simp add: os_ok_def input_ready_def files_in_dirs_def)
qed

lemma boot_ready:
  assumes "loaded s"
  shows "\<exists>s'. kmain_init l s = Ret () s' \<and> os_ok (core s') \<and> pending (core s') = pending (core s) \<and>
     input_ready (sti (core s')) \<and> keys (core s') = keys (core s) \<and> cwd (dtab (core s')) = ''/''"
proof -
  obtain g c i c2 io2 t v where
    f: "vga_wf v" "gdt_init (gdt_addr l) (gdt_tab s) (kcpu (core s)) = Some (g, c)"
      "idt_init (idt_addr l) (isr_addr l) (irq_addr l) (idt_tab s) c = Some (i, c2)" "dir_init (dtab (core s)) = Some t"
    and eq: "kmain_init l s = Ret () (s\<lparr>gdt_tab := g, idt_tab := i, core := (core s)\<lparr>scr := v, ios := io2, kcpu := c2,
       irqs := (irqs (core s))[1 := Some Kbd_isr], disk := fs_init (disk (core s)), dtab := t\<rparr>\<rparr>)"
    using kmain_init_eq [OF assms(1), of l] by blast
  have "iflag c2 = False"
    using gdt_init_iflag [OF f(2)] idt_init_iflag [OF f(3)] assms(1) by (simp add: loaded_def)
  from boot_core [OF assms(1) f(1,4) this refl, of io2] eq show ?thesis by simp
qed

lemma boot_os_ok:
  assumes "loaded s"
  shows "\<exists>s'. kmain_init l s = Ret () s' \<and> os_ok (core s')"
  using boot_ready [OF assms] by blast

text \<open>C1: the boot sequence brings up the machine: from the memory the loader leaves, every stage
  of \<open>kmain\<close> succeeds, interrupts stay off until all of them are done, and then the whole system is
  in its invariant with the root as the only directory and no files, and ready to take keys. The
  interrupt path is complete: line \<open>i\<close> of the remapped controllers raises vector \<open>32 + i\<close>, whose gate
  leads to stub \<open>irq i\<close>, the keyboard's line is open, and its handler is registered.\<close>

theorem kmain_boots:
  assumes "loaded s" and "pic_device p q (iodev (ios (core s)))"
  shows "\<exists>s'. kmain_init l s = Ret () s' \<and> \<not> iflag (kcpu (core s')) \<and> os_ok (core s') \<and>
     input_ready (sti (core s')) \<and> fs_abs (disk (core s')) = Map.empty \<and> paths (dtab (core s')) = [''/''] \<and>
     (\<forall>i < 16. gate_handler (idt_tab s' ! (32 + i)) = irq_addr l i \<and> kernel_interrupt_gate (idt_tab s' ! (32 + i))) \<and>
     vbase (master p (iolog (ios (core s')))) = 32 \<and> vbase (slave q (iolog (ios (core s')))) = 40 \<and>
     \<not> line_masked (master p (iolog (ios (core s')))) (slave q (iolog (ios (core s')))) 1"
proof -
  obtain g c i c2 v1 io1 v2 io2 t v where
    f: "vga_wf v" "gdt_init (gdt_addr l) (gdt_tab s) (kcpu (core s)) = Some (g, c)"
      "idt_init (idt_addr l) (isr_addr l) (irq_addr l) (idt_tab s) c = Some (i, c2)"
      "pic_init (ios (core s)) v1 = Some (io1, v2)" "pic_unmask 1 io1 = Some io2" "dir_init (dtab (core s)) = Some t"
    and eq: "kmain_init l s = Ret () (s\<lparr>gdt_tab := g, idt_tab := i, core := (core s)\<lparr>scr := v, ios := io2, kcpu := c2,
       irqs := (irqs (core s))[1 := Some Kbd_isr], disk := fs_init (disk (core s)), dtab := t\<rparr>\<rparr>)"
    using kmain_init_eq [OF assms(1), of l] by blast
  have off: "iflag c2 = False"
    using gdt_init_iflag [OF f(2)] idt_init_iflag [OF f(3)] assms(1) by (simp add: loaded_def)
  have "length (idt_tab s) = IDT_ENTRIES" using assms(1) by (simp add: loaded_def)
  from idt_init_ok [OF this, of "idt_addr l" "isr_addr l" "irq_addr l" c]
  have gates: "gate_handler (i ! (32 + n)) = irq_addr l n \<and> kernel_interrupt_gate (i ! (32 + n))" if "n < 16" for n
    using f(3) that by simp
  define k where "k = (core s)\<lparr>scr := v, ios := io2, kcpu := c2, irqs := (irqs (core s))[1 := Some Kbd_isr],
    disk := fs_init (disk (core s)), dtab := t\<rparr>"
  define s' where "s' = s\<lparr>gdt_tab := g, idt_tab := i, core := k\<rparr>"
  have "kcpu k = c2" "ios k = io2" by (simp_all add: k_def)
  moreover have "core s' = k" "idt_tab s' = i" by (simp_all add: s'_def)
  moreover have "kmain_init l s = Ret () s'" using eq by (simp add: s'_def k_def)
  ultimately show ?thesis
    using off gates boot_core [OF assms(1) f(1,6) off k_def] pic_ready [OF assms(2) f(4,5)] by (intro exI [of _ s']) simp
qed

text \<open>C2: \<open>kmain\<close> never returns and never faults, from power-on for as long as there is input, provided
  that at every prompt the words after the command fit: on an input of finitely many keys, with
  interrupts at any points of the wait loop, it only ends in the power-off sequence, or asleep in the
  \<open>hlt\<close> of \<open>kbd_getchar\<close> after the last interrupt has been handled, with the invariant of the system
  intact. (A key that came between the last test and this \<open>hlt\<close> may still be in the ring:
  \<open>late_key_not_read\<close>.)\<close>

theorem kmain_runs_forever:
  assumes "loaded s"
    and "\<forall>s0 k0 buf j. kmain_init l s = Ret () s0 \<and> say shell_hint (sti (core s0)) = Ret () k0 \<and>
           shell_reach k0 buf j \<longrightarrow> line_fits buf j"
  shows "\<exists>e s'. kmain l s = Stop e s' \<and> os_ok (core s') \<and> (e = PowerOff \<or> e = Blocked \<and> pending (core s') = [])"
proof -
  obtain s0 where s0: "kmain_init l s = Ret () s0" "os_ok (core s0)" using boot_os_ok [OF assms(1)] by blast
  have hint: "list_all vcall_ok shell_hint" by (simp add: shell_hint_def)
  obtain k0 where k0: "say shell_hint (sti (core s0)) = Ret () k0" "os_ok k0"
    using os_safe_say [OF _ hint, of "sti (core s0)"] say_disk [OF hint, of "sti (core s0)"] s0(2)
    by (auto simp: os_safe_def)
  then have "\<exists>e k'. shell_run (sti (core s0)) = Stop e k' \<and> os_ok k' \<and> (e = PowerOff \<or> e = Blocked \<and> pending k' = [])"
    using loop_safe [OF k0(2)] assms(2) s0(1) by (simp add: shell_run_def)
  then show ?thesis
    using s0(1) by (auto simp: kmain_def stage_def)
qed

section \<open>Instances\<close>

definition system0 :: system where
  "system0 = \<lparr>gdt_tab = replicate GDT_ENTRIES null_entry, idt_tab = replicate IDT_ENTRIES zero_gate,
     core = machine0\<lparr>kcpu := cpu0, irqs := replicate NR_IRQ None\<rparr>\<rparr>"

definition layout0 :: layout where
  "layout0 = \<lparr>gdt_addr = 0x100000, idt_addr = 0x101000, isr_addr = (\<lambda>n. 0x102000 + of_nat n),
     irq_addr = (\<lambda>n. 0x103000 + of_nat n)\<rparr>"

lemma system0_loaded: "loaded system0"
  using machine0_dirs(1)
  by (simp add: loaded_def system0_def dir_wf_def) (simp add: machine0_def cpu0_def NR_IRQ_def)

lemma system0_pic: "pic_device pic0 pic0 (iodev (ios (core system0)))"
  by (auto simp: pic_device_def system0_def machine0_def pic_dev_def pic_ports)

theorem kmain_boots_witness:
  "\<exists>s'. kmain_init layout0 system0 = Ret () s' \<and> os_ok (core s') \<and> input_ready (sti (core s')) \<and>
     gate_handler (idt_tab s' ! 33) = 0x103001"
proof -
  have "irq_addr layout0 1 = 0x103001" "(1::nat) < 16" by (simp_all add: layout0_def)
  then show ?thesis
    using kmain_boots [OF system0_loaded system0_pic, of layout0] by fastforce
qed

text \<open>After the boot the user types \<open>mkdir a\<close> and nothing more.\<close>

definition system1 :: system where
  "system1 = system0\<lparr>core := (core system0)\<lparr>pending := concat (map tap [0x32, 0x25, 0x20, 0x17, 0x13, 0x39, 0x1E, 0x1C])\<rparr>\<rparr>"

lemma system1_loaded: "loaded system1"
  using system0_loaded by (simp add: loaded_def system1_def)

lemma system1_boots:
  assumes "kmain_init layout0 system1 = Ret () s0" and "say shell_hint (sti (core s0)) = Ret () k0"
  shows "os_ok k0" "input_ready k0" "modifiers (keys k0) = modifiers kbd0" "cwd (dtab k0) = ''/''"
    "pending k0 = concat (map tap [0x32, 0x25, 0x20, 0x17, 0x13, 0x39, 0x1E, 0x1C])"
proof -
  have b: "os_ok (core s0)" "input_ready (sti (core s0))" "cwd (dtab (core s0)) = ''/''"
      "keys (core s0) = kbd0" "pending (core s0) = pending (core system1)"
    using boot_ready [OF system1_loaded, of layout0] assms(1) by (auto simp: system1_def system0_def machine0_def)
  obtain v where v: "k0 = (sti (core s0))\<lparr>scr := v\<rparr>" "vga_wf v"
    using assms(2) vcalls_safe [of "scr (core s0)" shell_hint] os_okD(1) [OF b(1)]
    by (auto simp: say_def sti_def machine_ok_def split: option.splits)
  show "os_ok k0" "input_ready k0" "modifiers (keys k0) = modifiers kbd0" "cwd (dtab k0) = ''/''"
    "pending k0 = concat (map tap [0x32, 0x25, 0x20, 0x17, 0x13, 0x39, 0x1E, 0x1C])"
    using b v by (simp_all add: os_ok_def input_ready_def sti_def system1_def)
qed

theorem kmain_runs_forever_witness:
  "\<exists>s0 k0 n b i e s'. kmain_init layout0 system1 = Ret () s0 \<and> say shell_hint (sti (core s0)) = Ret () k0 \<and>
     prompt_line (replicate CMD_LEN NUL) k0 = Ret (n, b) i \<and> tokens (cstr b) = [''mkdir'', ''a''] \<and>
     kmain layout0 system1 = Stop e s' \<and> os_ok (core s') \<and> (e = PowerOff \<or> e = Blocked \<and> pending (core s') = [])"
proof -
  have fits: "\<forall>s0 k0 buf j. kmain_init layout0 system1 = Ret () s0 \<and> say shell_hint (sti (core s0)) = Ret () k0 \<and>
      shell_reach k0 buf j \<longrightarrow> line_fits buf j"
    using mkdir_a_typed(2) [OF system1_boots] by blast
  obtain s0 where s0: "kmain_init layout0 system1 = Ret () s0" using boot_os_ok [OF system1_loaded] by blast
  have "list_all vcall_ok shell_hint" by (simp add: shell_hint_def)
  then obtain v where "vcalls shell_hint (scr (sti (core s0))) = Some v" using vcalls_Some by blast
  then obtain k0 where k0: "say shell_hint (sti (core s0)) = Ret () k0" by (simp add: say_def)
  obtain n b i where "prompt_line (replicate CMD_LEN NUL) k0 = Ret (n, b) i" "tokens (cstr b) = [''mkdir'', ''a'']"
    using mkdir_a_typed(1) [OF system1_boots [OF s0 k0]] by blast
  with s0 k0 kmain_runs_forever [OF system1_loaded fits] show ?thesis by blast
qed

end
