(* ===== verification/Hosted.thy ===== *)
theory Hosted
  imports Shellrun
begin

text \<open>
  The hosted prototype \<open>src/dug_os.c\<close>: boot tables, string helpers and shell, as a program on top of
  the C library. The operating system underneath is not part of the repository: it is the
  parameter \<open>os\<close>, one function for each service the program calls. A call that can fail returns
  \<open>None\<close> when it does and then changes nothing. Names here carry the prefix \<open>h_\<close> because the kernel has
  functions of the same names. Standard output is a growing string, standard input the characters
  still to be read; \<open>strlen\<close>, \<open>strcmp\<close> and \<open>strncpy\<close> are the definitions of the kernel's own library,
  which agree with the C library.
\<close>

section \<open>Data structures\<close>

definition SLOT_FREE :: int where "SLOT_FREE = 0x01"
definition NO_MAP :: int where "NO_MAP = 0x02"
definition SYS_PROC :: int where "SYS_PROC = 0x10"
definition NONE :: int where "NONE = -1"
definition HARDWARE :: int where "HARDWARE = -4"
definition H_NR_TASKS :: nat where "H_NR_TASKS = 4"
definition H_NR_PROCS :: nat where "H_NR_PROCS = 64"
definition H_NR_SYS_PROCS :: nat where "H_NR_SYS_PROCS = 32"
definition CWD_LEN :: nat where "CWD_LEN = 512"
definition FILE_BUF :: nat where "FILE_BUF = 4096"

record hproc =
  p_nr :: int
  p_rts_flags :: int
  p_priority :: int
  p_quantum_size :: int
  p_ticks_left :: int
  p_name :: cptr

record hpriv =
  s_proc_nr :: int
  s_id :: int
  s_flags :: int

record himage =
  h_proc_nr :: int
  h_priority :: int
  h_quantum :: int
  h_flags :: int
  h_proc_name :: cptr

definition h_image :: "himage list" where
  "h_image =
     [\<lparr>h_proc_nr = -4, h_priority = 0, h_quantum = 0, h_flags = SYS_PROC, h_proc_name = name16 ''HARDWARE''\<rparr>,
      \<lparr>h_proc_nr = -3, h_priority = 1, h_quantum = 10, h_flags = SYS_PROC, h_proc_name = name16 ''IDLE''\<rparr>,
      \<lparr>h_proc_nr = -2, h_priority = 2, h_quantum = 10, h_flags = SYS_PROC, h_proc_name = name16 ''CLOCK''\<rparr>,
      \<lparr>h_proc_nr = -1, h_priority = 2, h_quantum = 10, h_flags = SYS_PROC, h_proc_name = name16 ''SYSTEM''\<rparr>,
      \<lparr>h_proc_nr = 0, h_priority = 3, h_quantum = 10, h_flags = SYS_PROC, h_proc_name = name16 ''PM''\<rparr>,
      \<lparr>h_proc_nr = 1, h_priority = 3, h_quantum = 10, h_flags = SYS_PROC, h_proc_name = name16 ''FS''\<rparr>,
      \<lparr>h_proc_nr = 2, h_priority = 3, h_quantum = 10, h_flags = SYS_PROC, h_proc_name = name16 ''TTY''\<rparr>,
      \<lparr>h_proc_nr = 3, h_priority = 4, h_quantum = 10, h_flags = 0, h_proc_name = name16 ''INIT''\<rparr>]"

text \<open>
  The services of the operating system: the bytes of a file that can be opened for reading (a finite
  string, so devices and pipes that never end are not covered), opening
  for writing (which empties the file) and for appending, a write at the end of an open file, and
  the calls on names and directories.
\<close>

record 'e os =
  os_content :: "string \<Rightarrow> 'e \<Rightarrow> string option"
  os_create :: "string \<Rightarrow> 'e \<Rightarrow> 'e option"
  os_open_append :: "string \<Rightarrow> 'e \<Rightarrow> 'e option"
  os_write :: "string \<Rightarrow> string \<Rightarrow> 'e \<Rightarrow> 'e"
  os_remove :: "string \<Rightarrow> 'e \<Rightarrow> 'e option"
  os_rename :: "string \<Rightarrow> string \<Rightarrow> 'e \<Rightarrow> 'e option"
  os_mkdir :: "string \<Rightarrow> 'e \<Rightarrow> 'e option"
  os_rmdir :: "string \<Rightarrow> 'e \<Rightarrow> 'e option"
  os_chdir :: "string \<Rightarrow> 'e \<Rightarrow> 'e option"
  os_getcwd :: "'e \<Rightarrow> string option"
  os_system :: "string \<Rightarrow> 'e \<Rightarrow> string"
  os_date :: "'e \<Rightarrow> string"

record 'e host =
  proc_table :: "hproc list"
  priv_table :: "hpriv list"
  shutdown_started :: int
  os_running :: int
  h_cwd :: cptr
  h_in :: string
  h_out :: string
  h_env :: 'e
  h_junk :: cptr

section \<open>Output\<close>

abbreviation nl :: string where "nl \<equiv> [CHR 0x0A]"

definition pr :: "string \<Rightarrow> 'e host \<Rightarrow> 'e host" where
  "pr s h = h\<lparr>h_out := h_out h @ s\<rparr>"

text \<open>The conversions \<open>%d\<close> and \<open>%-ns\<close>.\<close>

definition digits :: "nat \<Rightarrow> string" where
  "digits n = (if n = 0 then ''0'' else rev (dec_rev n))"

definition show_d :: "int \<Rightarrow> string" where
  "show_d i = (if i < 0 then CHR ''-'' # digits (nat (- i)) else digits (nat i))"

definition pad_left :: "nat \<Rightarrow> string \<Rightarrow> string" where
  "pad_left n s = s @ replicate (n - length s) CHR '' ''"

section \<open>Boot functions\<close>

definition h_intr_init :: "bool \<Rightarrow> 'e host \<Rightarrow> 'e host" where
  "h_intr_init minit h =
     (if minit
      then pr (''  [kernel] intr_init: remapping 8259A PIC ... OK'' @ nl @
               ''  [kernel] IRQs 0-7  -> vectors 0x20-0x27'' @ nl @
               ''  [kernel] IRQs 8-15 -> vectors 0x28-0x2F'' @ nl) h
      else pr (''  [kernel] intr_init: restoring BIOS defaults ... OK'' @ nl) h)"

definition h_boot_proc_table :: "'e host \<Rightarrow> 'e host" where
  "h_boot_proc_table h =
     pr (''  [kernel] proc_table: '' @ show_d (int (H_NR_TASKS + H_NR_PROCS)) @ '' slots cleared ... OK'' @ nl)
       (h\<lparr>proc_table := fold (\<lambda>j t. t[j := (t ! j)\<lparr>p_rts_flags := SLOT_FREE, p_nr := int j - int H_NR_TASKS\<rparr>])
            [0..<H_NR_TASKS + H_NR_PROCS] (proc_table h)\<rparr>)"

definition h_boot_priv_table :: "'e host \<Rightarrow> 'e host" where
  "h_boot_priv_table h =
     pr (''  [kernel] priv_table: '' @ show_d (int H_NR_SYS_PROCS) @ '' slots cleared ... OK'' @ nl)
       (h\<lparr>priv_table := fold (\<lambda>j t. t[j := (t ! j)\<lparr>s_proc_nr := NONE, s_id := int j\<rparr>])
            [0..<H_NR_SYS_PROCS] (priv_table h)\<rparr>)"

text \<open>The body of the loop of \<open>boot_image_init\<close> for one entry of the image.\<close>

definition load_proc :: "himage \<Rightarrow> hproc list \<Rightarrow> hproc list option" where
  "load_proc ip t =
     (let j = nat (int H_NR_TASKS + h_proc_nr ip) in
      if j < length t then do {
        n \<leftarrow> kstrncpy (p_name (t ! j)) (h_proc_name ip) P_NAME_LEN;
        Some (t[j := (t ! j)\<lparr>p_nr := h_proc_nr ip, p_priority := h_priority ip, p_quantum_size := h_quantum ip,
                p_ticks_left := h_quantum ip, p_name := n,
                p_rts_flags := (if h_proc_nr ip = HARDWARE then NO_MAP else 0)\<rparr>])
      } else None)"

fun load_all :: "himage list \<Rightarrow> hproc list \<Rightarrow> hproc list option" where
  "load_all [] t = Some t"
| "load_all (ip # ips) t = do { t \<leftarrow> load_proc ip t; load_all ips t }"

definition h_boot_image_init :: "'e host \<Rightarrow> (unit, 'e host) outcome" where
  "h_boot_image_init h =
     bnd (chk (load_all h_image (proc_table h)) h) (\<lambda>t h.
     Ret () (pr (''  [kernel] boot_image: '' @ show_d (int (length h_image)) @ '' processes loaded  ... OK'' @ nl)
       (h\<lparr>proc_table := t\<rparr>)))"

definition h_announce :: "'e host \<Rightarrow> 'e host" where
  "h_announce = pr (''  [kernel] DugOS v1.0 -- Built on MINIX 3.1.0 concepts'' @ nl @
                    ''  [kernel] Executing in 32-bit protected mode.'' @ nl)"

section \<open>Utility helpers\<close>

definition h_refresh_cwd :: "'e os \<Rightarrow> 'e host \<Rightarrow> (unit, 'e host) outcome" where
  "h_refresh_cwd os h =
     (case os_getcwd os (h_env h) of
        Some s \<Rightarrow>
          if length s < CWD_LEN then Ret () (h\<lparr>h_cwd := s @ NUL # drop (Suc (length s)) (h_cwd h)\<rparr>)
          else bnd (chk (kstrncpy (h_cwd h) (lit ''?'') CWD_LEN) h) (\<lambda>c h. Ret () (h\<lparr>h_cwd := c\<rparr>))
      | None \<Rightarrow> bnd (chk (kstrncpy (h_cwd h) (lit ''?'') CWD_LEN) h) (\<lambda>c h. Ret () (h\<lparr>h_cwd := c\<rparr>)))"

definition white :: "char \<Rightarrow> bool" where
  "white c \<longleftrightarrow> c \<in> {CHR '' '', CHR 0x09, CHR 0x0A, CHR 0x0D}"

text \<open>The loop that moves \<open>end\<close> back over white space, but not past \<open>s\<close>.\<close>

fun trim_back :: "cptr \<Rightarrow> nat \<Rightarrow> nat \<Rightarrow> nat" where
  "trim_back s i 0 = 0"
| "trim_back s i (Suc e) = (if Suc e > i \<and> white (s ! Suc e) then trim_back s i e else Suc e)"

text \<open>\<open>trim\<close> returns the position of its result in the buffer, and the buffer it has cut.\<close>

definition h_trim :: "cptr \<Rightarrow> (nat \<times> cptr) option" where
  "h_trim s = do {
     i \<leftarrow> skip_blanks s 0;
     c \<leftarrow> peek s i;
     if c = NUL then Some (i, s)
     else do {
       n \<leftarrow> kstrlen (drop i s);
       s \<leftarrow> poke (trim_back s i (i + n - 1) + 1) NUL s;
       Some (i, s)
     }
   }"

text \<open>\<open>strtok\<close>: the next token from position \<open>p\<close> on, if any, and the position to go on from.\<close>

function scan_while :: "(char \<Rightarrow> bool) \<Rightarrow> cptr \<Rightarrow> nat \<Rightarrow> nat option" where
  "scan_while P buf p =
     (case peek buf p of None \<Rightarrow> None | Some c \<Rightarrow> if P c then scan_while P buf (p + 1) else Some p)"
  by pat_completeness auto
termination by (relation "measure (\<lambda>(P, buf, p). length buf - p)") (auto simp: peek_def split: if_splits)

declare scan_while.simps [simp del]

definition strtok :: "char set \<Rightarrow> cptr \<Rightarrow> nat \<Rightarrow> ((nat \<times> nat) option \<times> cptr) option" where
  "strtok D buf p = do {
     i \<leftarrow> scan_while (\<lambda>c. c \<in> D) buf p;
     c \<leftarrow> peek buf i;
     if c = NUL then Some (None, buf)
     else do {
       e \<leftarrow> scan_while (\<lambda>c. c \<noteq> NUL \<and> c \<notin> D) buf i;
       c \<leftarrow> peek buf e;
       if c = NUL then Some (Some (i, e), buf)
       else do { buf \<leftarrow> poke e NUL buf; Some (Some (i, e + 1), buf) }
     }
   }"

text \<open>The loop of \<open>parse_cmd\<close> looks for one token more than it stores.\<close>

fun h_parse_from :: "nat \<Rightarrow> nat \<Rightarrow> nat list \<Rightarrow> cptr \<Rightarrow> (nat list \<times> cptr) option" where
  "h_parse_from 0 p argv buf = do { r \<leftarrow> strtok {CHR '' '', CHR 0x09, CHR 0x0A} buf p; Some (argv, snd r) }"
| "h_parse_from (Suc n) p argv buf = do {
     r \<leftarrow> strtok {CHR '' '', CHR 0x09, CHR 0x0A} buf p;
     case fst r of
       None \<Rightarrow> Some (argv, snd r)
     | Some (i, q) \<Rightarrow> h_parse_from n q (argv @ [i]) (snd r)
   }"

definition h_parse_cmd :: "cptr \<Rightarrow> nat \<Rightarrow> (nat list \<times> cptr) option" where
  "h_parse_cmd input max_args = h_parse_from max_args 0 [] input"

definition h_err :: "string \<Rightarrow> string \<Rightarrow> 'e host \<Rightarrow> 'e host" where
  "h_err cmd msg = pr (''  ['' @ cmd @ ''] Error: '' @ msg @ nl)"

text \<open>\<open>fgets\<close>: at most \<open>n - 1\<close> characters, up to and with a newline; at the end of the input no line.\<close>

fun take_line :: "nat \<Rightarrow> string \<Rightarrow> string \<times> string" where
  "take_line 0 s = ([], s)"
| "take_line (Suc n) [] = ([], [])"
| "take_line (Suc n) (c # s) =
     (if c = CHR 0x0A then ([c], s) else (let (a, b) = take_line n s in (c # a, b)))"

definition h_fgets :: "cptr \<Rightarrow> nat \<Rightarrow> 'e host \<Rightarrow> (cptr \<times> 'e host) option" where
  "h_fgets buf n h =
     (if h_in h = [] then None
      else let (l, rest) = take_line (n - 1) (h_in h)
           in Some (l @ NUL # drop (Suc (length l)) buf, h\<lparr>h_in := rest\<rparr>))"

lemma take_line_length: "length (fst (take_line n s)) + length (snd (take_line n s)) = length s"
  by (induction n s rule: take_line.induct) (auto simp: Let_def split: prod.splits)

lemma take_line_less: "s \<noteq> [] \<Longrightarrow> 0 < n \<Longrightarrow> length (snd (take_line n s)) < length s"
  using take_line_length [of n s]
  by (cases n; cases s) (auto simp: Let_def split: prod.splits if_splits)

lemma fgets_input: "h_fgets buf n h = Some (b, h') \<Longrightarrow> 1 < n \<Longrightarrow> length (h_in h') < length (h_in h)"
  using take_line_less [of "h_in h" "n - 1"] by (auto simp: h_fgets_def Let_def split: if_splits prod.splits)

end
