(* ===== verification/Hostcmd.thy ===== *)
theory Hostcmd
  imports Hosted
begin

text \<open>
  The commands, the dispatcher and the main function of the prototype \<open>src/dug_os.c\<close>. An argument is
  \<open>None\<close> for the null pointer and otherwise the string it points to. A loop over a file that grows
  under the reader may never end: then the outcome is \<open>Blocked\<close>.
\<close>

section \<open>Messages\<close>

definition h_welcome_screen :: "'e os \<Rightarrow> 'e host \<Rightarrow> 'e host" where
  "h_welcome_screen os h =
     pr (os_system os ''clear'' (h_env h) @ nl @
       ''  +=================================================================+'' @ nl @
       ''  |                                                                 |'' @ nl @
       ''  |    ____  _   _   ____   ___   ____                             |'' @ nl @
       ''  |   |  _ '' @ CHR 0x5C # ''| | | | / ___| / _ '' @ CHR 0x5C # '' / ___|                            |'' @ nl @
       ''  |   | | | | | | || |  _ | | | |'' @ CHR 0x5C # ''___ '' @ CHR 0x5C # ''                            |'' @ nl @
       ''  |   | |_| | |_| || |_| || |_| | ___) |                           |'' @ nl @
       ''  |   |____/ '' @ CHR 0x5C # ''___/  '' @ CHR 0x5C # ''____| '' @ CHR 0x5C # ''___/ |____/                             |'' @ nl @
       ''  |                                                                 |'' @ nl @
       ''  |          O P E R A T I N G     S Y S T E M                    |'' @ nl @
       ''  |                      v e r s i o n  '' @ pad_left 4 ''1.0'' @ ''                       |'' @ nl @
       ''  |                                                                 |'' @ nl @
       ''  |   - - - - - - - - - - - - - - - - - - - - - - - - - - - - -   |'' @ nl @
       ''  |      Built on MINIX 3.1.0 kernel  (Appendix B, line 07100)    |'' @ nl @
       ''  |   - - - - - - - - - - - - - - - - - - - - - - - - - - - - -   |'' @ nl @
       ''  |                                                                 |'' @ nl @
       ''  |                  [ Type  'help'  to begin ]                    |'' @ nl @
       ''  |                                                                 |'' @ nl @
       ''  +=================================================================+'' @ nl @
       nl @ ''  >> Welcome, dug. DugOS is ready.'' @ nl @ nl) h"

text \<open>A line of the format \<open>"  %-22s  %s\n"\<close>.\<close>

definition help_line :: "string \<Rightarrow> string \<Rightarrow> string" where
  "help_line a b = ''  '' @ pad_left 22 a @ ''  '' @ b @ nl"

definition h_cmd_help :: "'e host \<Rightarrow> 'e host" where
  "h_cmd_help = pr (nl @
     ''  +------------------------------------------------------------+'' @ nl @
     ''  |              DugOS v1.0  --  Command Reference            |'' @ nl @
     ''  +------------------------------------------------------------+'' @ nl @
     nl @ ''  [ General ]'' @ nl @
     help_line ''  help'' ''Show this help screen'' @
     help_line ''  cls / clear'' ''Clear the terminal screen'' @
     help_line ''  pwd'' ''Print current working directory'' @
     help_line ''  date'' ''Show current date and time'' @
     help_line ''  whoami'' ''Show current user'' @
     nl @ ''  [ File Operations ]'' @ nl @
     help_line ''  fwrite <file>'' ''Create or overwrite a file'' @
     help_line ''  fread  <file>'' ''Read and display a file'' @
     help_line ''  cat    <file>'' ''Same as fread'' @
     help_line ''  fedit  <file>'' ''Append content to a file'' @
     help_line ''  fdel   <file>'' ''Delete a file'' @
     help_line ''  rename <old> <new>'' ''Rename a file'' @
     help_line ''  copy   <src> <dst>'' ''Copy a file'' @
     nl @ ''  [ Directory Operations ]'' @ nl @
     help_line ''  mkdir  <dir>'' ''Create a new directory'' @
     help_line ''  cd     <dir>'' ''Change current directory'' @
     help_line ''  rmdir  <dir>'' ''Delete an empty directory'' @
     help_line ''  ls / dir'' ''List files in current directory'' @
     nl @ ''  [ System ]'' @ nl @
     help_line ''  shutdown'' ''Shut down DugOS'' @
     nl @ ''  +------------------------------------------------------------+'' @ nl @ nl)"

definition h_cmd_clear :: "'e os \<Rightarrow> 'e host \<Rightarrow> 'e host" where
  "h_cmd_clear os h = pr (os_system os ''clear'' (h_env h)) h"

definition h_cmd_pwd :: "'e os \<Rightarrow> 'e host \<Rightarrow> (unit, 'e host) outcome" where
  "h_cmd_pwd os h =
     bnd (h_refresh_cwd os h) (\<lambda>_ h. Ret () (pr (''  '' @ cstr (h_cwd h) @ nl) h))"

definition h_cmd_date :: "'e os \<Rightarrow> 'e host \<Rightarrow> 'e host" where
  "h_cmd_date os h = pr (''  '' @ os_date os (h_env h) @ nl) h"

definition h_cmd_whoami :: "'e host \<Rightarrow> 'e host" where
  "h_cmd_whoami = pr (''  dug'' @ nl)"

section \<open>Files\<close>

text \<open>The condition \<open>!filename || strlen(filename) == 0\<close>.\<close>

definition absent :: "string option \<Rightarrow> bool" where
  "absent a \<longleftrightarrow> a = None \<or> a = Some []"

text \<open>The input loop of \<open>cmd_fwrite\<close> and \<open>cmd_fedit\<close>, writing to the open file.\<close>

function h_enter_lines :: "'e os \<Rightarrow> string \<Rightarrow> cptr \<Rightarrow> 'e host \<Rightarrow> (unit, 'e host) outcome" where
  "h_enter_lines os name line h =
     (case h_fgets line 256 h of
        None \<Rightarrow> Ret () h
      | Some (line, h) \<Rightarrow>
          bnd (chk (h_trim line) h) (\<lambda>t h.
          bnd (chk (kstrcmp (drop (fst t) (snd t)) (lit ''.'')) h) (\<lambda>r h.
            if r = 0 then Ret () h
            else h_enter_lines os name (snd t)
                   (pr ''  > '' (h\<lparr>h_env := os_write os name (cstr (snd t)) (h_env h)\<rparr>)))))"
  by pat_completeness auto
termination
  by (relation "measure (\<lambda>(os, name, line, h). length (h_in h))")
    (auto simp: pr_def chk_Ret_iff dest!: fgets_input)

declare h_enter_lines.simps [simp del]

definition h_cmd_fwrite :: "'e os \<Rightarrow> string option \<Rightarrow> 'e host \<Rightarrow> (unit, 'e host) outcome" where
  "h_cmd_fwrite os filename h =
     (if absent filename then Ret () (h_err ''fwrite'' ''usage: fwrite <filename>'' h)
      else case os_create os (the filename) (h_env h) of
        None \<Rightarrow> Ret () (h_err ''fwrite'' ''cannot create file'' h)
      | Some e \<Rightarrow>
          let h = pr (''  Enter content. Type a single dot '.' on a new line to finish:'' @ nl @ ''  > '') (h\<lparr>h_env := e\<rparr>) in
          bnd (h_enter_lines os (the filename) (take 256 (h_junk h)) h) (\<lambda>_ h.
          Ret () (pr (''  [fwrite] '' @ CHR 0x27 # the filename @ CHR 0x27 # '' written successfully.'' @ nl) h)))"

lemma strtok_length: "strtok D buf p = Some (r, b) \<Longrightarrow> length b = length buf"
  by (auto simp: strtok_def bind_eq_Some_conv poke_def split: if_splits)

lemma scan_while_Some: "scan_while P buf p = Some i \<Longrightarrow> p \<le> i \<and> i < length buf \<and> \<not> P (buf ! i)"
proof (induction P buf p rule: scan_while.induct)
  case (1 P buf p)
  from "1.prems" have "(case peek buf p of None \<Rightarrow> None | Some c \<Rightarrow> if P c then scan_while P buf (p + 1) else Some p) = Some i"
    by (subst (asm) scan_while.simps)
  then show ?case using "1.IH" by (fastforce simp: peek_def split: if_splits)
qed

lemma strtok_progress:
  assumes "strtok D buf p = Some (Some (i, q), b)"
  shows "p < q \<and> q \<le> length buf"
proof -
  obtain e where i: "scan_while (\<lambda>c. c \<in> D) buf p = Some i" and ne: "buf ! i \<noteq> NUL"
    and e: "scan_while (\<lambda>c. c \<noteq> NUL \<and> c \<notin> D) buf i = Some e" and q: "q = e \<or> q = e + 1"
    using assms by (auto simp: strtok_def bind_eq_Some_conv peek_def split: if_splits)
  then have "e \<noteq> i" using scan_while_Some [OF i] scan_while_Some [OF e] by auto
  then show ?thesis using scan_while_Some [OF i] scan_while_Some [OF e] q by auto
qed

lemma strtok_next: "strtok D buf p = Some (Some (i, q), b) \<Longrightarrow> length b - q < length buf - p"
  using strtok_progress [of D buf p i q b] strtok_length [of D buf p "Some (i, q)" b] by linarith

text \<open>The lines of one chunk, as \<open>strtok(buf, "\n")\<close> finds them, and the loop over the chunks of a file.\<close>

function show_lines :: "cptr \<Rightarrow> nat \<Rightarrow> string option" where
  "show_lines buf p =
     (case strtok {CHR 0x0A} buf p of
        None \<Rightarrow> None
      | Some (None, buf) \<Rightarrow> Some []
      | Some (Some (i, q), buf) \<Rightarrow>
          map_option (\<lambda>s. ''  '' @ cstr (drop i buf) @ nl @ s) (show_lines buf q))"
  by pat_completeness auto
termination
  by (relation "measure (\<lambda>(buf, p). length buf - p)") (auto dest!: strtok_next)

declare show_lines.simps [simp del]

text \<open>The reading loop of \<open>cmd_fread\<close>, on a file of finite content; on a device that never ends the loop of
  the source does not end either, which \<open>os_content\<close> cannot express.\<close>

function h_read_loop :: "'e os \<Rightarrow> string \<Rightarrow> nat \<Rightarrow> 'e host \<Rightarrow> (unit, 'e host) outcome" where
  "h_read_loop os name pos h =
     (case os_content os name (h_env h) of
        None \<Rightarrow> Ret () h
      | Some c \<Rightarrow>
          (let chunk = take (FILE_BUF - 1) (drop pos c) in
           if chunk = [] then Ret () h
           else bnd (chk (show_lines (chunk @ NUL # replicate (FILE_BUF - 1 - length chunk) NUL) 0) h) (\<lambda>s h.
                h_read_loop os name (pos + length chunk) (pr s h))))"
  by pat_completeness auto
termination
  by (relation "measure (\<lambda>(os, name, pos, h). length (the (os_content os name (h_env h))) - pos)")
    (auto simp: chk_Ret_iff pr_def FILE_BUF_def)

declare h_read_loop.simps [simp del]

definition h_cmd_fread :: "'e os \<Rightarrow> string option \<Rightarrow> 'e host \<Rightarrow> (unit, 'e host) outcome" where
  "h_cmd_fread os filename h =
     (if absent filename then Ret () (h_err ''fread'' ''usage: fread <filename>'' h)
      else case os_content os (the filename) (h_env h) of
        None \<Rightarrow> Ret () (h_err ''fread'' ''file not found'' h)
      | Some _ \<Rightarrow>
          bnd (h_read_loop os (the filename) 0 (pr (''  ---- '' @ the filename @ '' ----'' @ nl) h)) (\<lambda>_ h.
          Ret () (pr (''  ---- EOF ----'' @ nl) h)))"

definition h_cmd_fedit :: "'e os \<Rightarrow> string option \<Rightarrow> 'e host \<Rightarrow> (unit, 'e host) outcome" where
  "h_cmd_fedit os filename h =
     (if absent filename then Ret () (h_err ''fedit'' ''usage: fedit <filename>'' h)
      else if os_content os (the filename) (h_env h) = None
      then Ret () (h_err ''fedit'' ''file not found -- use fwrite to create it first'' h)
      else case os_open_append os (the filename) (h_env h) of
        None \<Rightarrow> Ret () (h_err ''fedit'' ''cannot open file for editing'' h)
      | Some e \<Rightarrow>
          let h = pr (''  Appending to '' @ CHR 0x27 # the filename @ CHR 0x27 # ''. Type '.' on a new line to finish:'' @ nl @
                      ''  > '') (h\<lparr>h_env := e\<rparr>) in
          bnd (h_enter_lines os (the filename) (take 256 (h_junk h)) h) (\<lambda>_ h.
          Ret () (pr (''  [fedit] '' @ CHR 0x27 # the filename @ CHR 0x27 # '' updated successfully.'' @ nl) h)))"

text \<open>
  The question of \<open>cmd_fdel\<close> and \<open>cmd_rmdir\<close>: \<open>None\<close> at the end of the input, otherwise whether the
  trimmed answer starts with y or Y. \<open>trim\<close> runs on the answer once or twice.
\<close>

definition h_answer :: "'e host \<Rightarrow> (bool option, 'e host) outcome" where
  "h_answer h =
     (case h_fgets (take 8 (h_junk h)) 8 h of
        None \<Rightarrow> Ret None h
      | Some (line, h) \<Rightarrow>
          bnd (chk (h_trim line) h) (\<lambda>(t, line) h.
          bnd (chk (peek line t) h) (\<lambda>c h.
          if c = CHR ''y'' then Ret (Some True) h
          else
            bnd (chk (h_trim line) h) (\<lambda>(t, line) h.
            bnd (chk (peek line t) h) (\<lambda>c h. Ret (Some (c = CHR ''Y'')) h)))))"

definition h_cmd_fdel :: "'e os \<Rightarrow> string option \<Rightarrow> 'e host \<Rightarrow> (unit, 'e host) outcome" where
  "h_cmd_fdel os filename h =
     (if absent filename then Ret () (h_err ''fdel'' ''usage: fdel <filename>'' h)
      else
        bnd (h_answer (pr (''  Delete '' @ CHR 0x27 # the filename @ CHR 0x27 # ''? (y/n): '') h)) (\<lambda>a h.
        case a of
          None \<Rightarrow> Ret () h
        | Some False \<Rightarrow> Ret () (pr (''  [fdel] Cancelled.'' @ nl) h)
        | Some True \<Rightarrow>
            (case os_remove os (the filename) (h_env h) of
               Some e \<Rightarrow> Ret () (pr (''  [fdel] '' @ CHR 0x27 # the filename @ CHR 0x27 # '' deleted.'' @ nl) (h\<lparr>h_env := e\<rparr>))
             | None \<Rightarrow> Ret () (h_err ''fdel'' ''could not delete file (does it exist?)'' h))))"

definition h_cmd_rename :: "'e os \<Rightarrow> string option \<Rightarrow> string option \<Rightarrow> 'e host \<Rightarrow> (unit, 'e host) outcome" where
  "h_cmd_rename os oldname newname h =
     (if absent oldname \<or> absent newname then Ret () (h_err ''rename'' ''usage: rename <old> <new>'' h)
      else case os_rename os (the oldname) (the newname) (h_env h) of
        Some e \<Rightarrow> Ret () (pr (''  [rename] '' @ CHR 0x27 # the oldname @ CHR 0x27 # '' -> '' @ CHR 0x27 # the newname @ CHR 0x27 # nl)
                    (h\<lparr>h_env := e\<rparr>))
      | None \<Rightarrow> Ret () (h_err ''rename'' ''could not rename file'' h))"

text \<open>The copy loop: read a chunk at the current position of the source, append it to the destination.\<close>

partial_function (option) copy_loop :: "'e os \<Rightarrow> string \<Rightarrow> string \<Rightarrow> nat \<Rightarrow> 'e \<Rightarrow> 'e option" where
  "copy_loop os src dst pos e =
     (case os_content os src e of
        None \<Rightarrow> Some e
      | Some c \<Rightarrow>
          (let chunk = take FILE_BUF (drop pos c) in
           if chunk = [] then Some e
           else copy_loop os src dst (pos + length chunk) (os_write os dst chunk e)))"

definition h_cmd_copy :: "'e os \<Rightarrow> string option \<Rightarrow> string option \<Rightarrow> 'e host \<Rightarrow> (unit, 'e host) outcome" where
  "h_cmd_copy os src dst h =
     (if absent src \<or> absent dst then Ret () (h_err ''copy'' ''usage: copy <source> <destination>'' h)
      else if os_content os (the src) (h_env h) = None then Ret () (h_err ''copy'' ''source file not found'' h)
      else case os_create os (the dst) (h_env h) of
        None \<Rightarrow> Ret () (h_err ''copy'' ''cannot create destination file'' h)
      | Some e \<Rightarrow>
          (case copy_loop os (the src) (the dst) 0 e of
             None \<Rightarrow> Stop Blocked (h\<lparr>h_env := e\<rparr>)
           | Some e \<Rightarrow> Ret () (pr (''  [copy] '' @ CHR 0x27 # the src @ CHR 0x27 # '' -> '' @ CHR 0x27 # the dst @ CHR 0x27 # nl)
                         (h\<lparr>h_env := e\<rparr>))))"

section \<open>Directories\<close>

definition h_cmd_mkdir :: "'e os \<Rightarrow> string option \<Rightarrow> 'e host \<Rightarrow> (unit, 'e host) outcome" where
  "h_cmd_mkdir os dirname h =
     (if absent dirname then Ret () (h_err ''mkdir'' ''usage: mkdir <dirname>'' h)
      else case os_mkdir os (the dirname) (h_env h) of
        Some e \<Rightarrow> Ret () (pr (''  [mkdir] Directory '' @ CHR 0x27 # the dirname @ CHR 0x27 # '' created.'' @ nl) (h\<lparr>h_env := e\<rparr>))
      | None \<Rightarrow> Ret () (h_err ''mkdir'' ''could not create directory (already exists?)'' h))"

definition h_cmd_cd :: "'e os \<Rightarrow> string option \<Rightarrow> 'e host \<Rightarrow> (unit, 'e host) outcome" where
  "h_cmd_cd os dirname h =
     (if absent dirname then Ret () (h_err ''cd'' ''usage: cd <dirname>'' h)
      else case os_chdir os (the dirname) (h_env h) of
        Some e \<Rightarrow> bnd (h_refresh_cwd os (h\<lparr>h_env := e\<rparr>)) (\<lambda>_ h.
                  Ret () (pr (''  [cd] Now in: '' @ cstr (h_cwd h) @ nl) h))
      | None \<Rightarrow> Ret () (h_err ''cd'' ''directory not found'' h))"

definition h_cmd_rmdir :: "'e os \<Rightarrow> string option \<Rightarrow> 'e host \<Rightarrow> (unit, 'e host) outcome" where
  "h_cmd_rmdir os dirname h =
     (if absent dirname then Ret () (h_err ''rmdir'' ''usage: rmdir <dirname>'' h)
      else
        bnd (h_answer (pr (''  Delete directory '' @ CHR 0x27 # the dirname @ CHR 0x27 # ''? (y/n): '') h)) (\<lambda>a h.
        case a of
          None \<Rightarrow> Ret () h
        | Some False \<Rightarrow> Ret () (pr (''  [rmdir] Cancelled.'' @ nl) h)
        | Some True \<Rightarrow>
            (case os_rmdir os (the dirname) (h_env h) of
               Some e \<Rightarrow> Ret () (pr (''  [rmdir] '' @ CHR 0x27 # the dirname @ CHR 0x27 # '' removed.'' @ nl) (h\<lparr>h_env := e\<rparr>))
             | None \<Rightarrow> Ret () (h_err ''rmdir'' ''could not remove (is it empty and does it exist?)'' h))))"

definition h_cmd_ls :: "'e os \<Rightarrow> 'e host \<Rightarrow> (unit, 'e host) outcome" where
  "h_cmd_ls os h =
     bnd (h_refresh_cwd os h) (\<lambda>_ h.
     Ret () (pr (''  Directory listing: '' @ cstr (h_cwd h) @ nl @ nl @
                 os_system os ''ls -lah --color=never'' (h_env h) @ nl) h))"

section \<open>Shutdown\<close>

definition h_cmd_shutdown :: "'e host \<Rightarrow> 'e host" where
  "h_cmd_shutdown h =
     (let h = pr (nl @
            ''  +----------------------------------------------------------+'' @ nl @
            ''  |                  DugOS Shutdown                       |'' @ nl @
            ''  +----------------------------------------------------------+'' @ nl @
            nl @ ''  [kernel] Sending SIGKSTOP to all system processes...'' @ nl @
            concat (map (\<lambda>ip. if h_proc_nr ip \<noteq> HARDWARE
                then ''  [kernel]   -> stopping '' @ pad_left 10 (cstr (h_proc_name ip)) @ '' (proc '' @ show_d (h_proc_nr ip) @ '')'' @ nl
                else []) h_image) @
            ''  [kernel] Flushing file system buffers ... OK'' @ nl @
            ''  [kernel] Stopping clock task          ... OK'' @ nl @
            ''  [kernel] Masking all hardware IRQs    ... OK'' @ nl) h;
          h = h_intr_init False h
      in pr (nl @ ''  DugOS has shut down. Goodbye, dug.'' @ nl @ nl) (h\<lparr>shutdown_started := 1, os_running := 0\<rparr>))"

end
