(* ===== verification/Hostshell.thy ===== *)
theory Hostshell
  imports Hostcmd
begin

text \<open>The dispatcher, the shell loop and the main function of the prototype \<open>src/dug_os.c\<close>.\<close>

section \<open>Dispatcher\<close>

definition h_arm :: "cptr \<Rightarrow> string list \<Rightarrow> ('e host \<Rightarrow> (unit, 'e host) outcome) \<Rightarrow>
    ('e host \<Rightarrow> (unit, 'e host) outcome) \<Rightarrow> 'e host \<Rightarrow> (unit, 'e host) outcome" where
  "h_arm cmd ss f g h = bnd (chk (is_cmd cmd ss) h) (\<lambda>b h. if b then f h else g h)"

definition h_run_cmd :: "'e os \<Rightarrow> cptr list \<Rightarrow> 'e host \<Rightarrow> (unit, 'e host) outcome" where
  "h_run_cmd os argv =
     (let cmd = argv ! 0; argc = length argv;
          arg1 = (if argc > 1 then Some (cstr (argv ! 1)) else None);
          arg2 = (if argc > 2 then Some (cstr (argv ! 2)) else None)
      in h_arm cmd [''help''] (\<lambda>h. Ret () (h_cmd_help h))
        (h_arm cmd [''cls'', ''clear''] (\<lambda>h. Ret () (h_cmd_clear os h))
        (h_arm cmd [''pwd''] (h_cmd_pwd os)
        (h_arm cmd [''date''] (\<lambda>h. Ret () (h_cmd_date os h))
        (h_arm cmd [''whoami''] (\<lambda>h. Ret () (h_cmd_whoami h))
        (h_arm cmd [''shutdown''] (\<lambda>h. Ret () (h_cmd_shutdown h))
        (h_arm cmd [''fwrite''] (h_cmd_fwrite os arg1)
        (h_arm cmd [''fread'', ''cat''] (h_cmd_fread os arg1)
        (h_arm cmd [''fedit''] (h_cmd_fedit os arg1)
        (h_arm cmd [''fdel''] (h_cmd_fdel os arg1)
        (h_arm cmd [''rename''] (h_cmd_rename os arg1 arg2)
        (h_arm cmd [''copy''] (h_cmd_copy os arg1 arg2)
        (h_arm cmd [''mkdir''] (h_cmd_mkdir os arg1)
        (h_arm cmd [''cd''] (h_cmd_cd os arg1)
        (h_arm cmd [''rmdir''] (h_cmd_rmdir os arg1)
        (h_arm cmd [''ls'', ''dir''] (h_cmd_ls os)
        (\<lambda>h. Ret () (pr (''  Unknown command: '' @ CHR 0x27 # cstr cmd @ CHR 0x27 # ''  (type 'help' for a list)'' @ nl) h))))))))))))))))))"

definition h_shell_dispatch :: "'e os \<Rightarrow> cptr \<Rightarrow> 'e host \<Rightarrow> (unit, 'e host) outcome" where
  "h_shell_dispatch os input h =
     bnd (chk (kstrncpy (take CMD_LEN (h_junk h)) input (CMD_LEN - 1)) h) (\<lambda>buf h.
     bnd (chk (poke (CMD_LEN - 1) NUL buf) h) (\<lambda>buf h.
     bnd (chk (h_parse_cmd buf MAX_ARGS) h) (\<lambda>r h.
     if fst r = [] then Ret () h
     else h_run_cmd os (map (\<lambda>p. drop p (snd r)) (fst r)) h)))"

section \<open>No command makes up input\<close>

named_theorems h_frames \<open>rules for the input a command of the prototype leaves\<close>

definition h_within :: "'e host \<Rightarrow> ('a, 'e host) outcome \<Rightarrow> bool" where
  "h_within h m \<longleftrightarrow> runs m (\<lambda>_ h'. length (h_in h') \<le> length (h_in h)) (\<lambda>_ _. True)"

lemma h_within_Ret [h_frames]: "length (h_in j) \<le> length (h_in h) \<Longrightarrow> h_within h (Ret a j)"
  and h_within_Stop [h_frames]: "h_within h (Stop e j)"
  by (simp_all add: h_within_def)

lemma h_within_chk [h_frames]: "length (h_in j) \<le> length (h_in h) \<Longrightarrow> h_within h (chk x j)"
  by (cases x) (simp_all add: h_within_def)

lemma h_within_bnd [h_frames]:
  "h_within h m \<Longrightarrow> (\<And>a j. length (h_in j) \<le> length (h_in h) \<Longrightarrow> h_within h (f a j)) \<Longrightarrow> h_within h (bnd m f)"
  by (cases m) (auto simp: h_within_def)

lemma h_within_bnd_eq:
  "h_within h m \<Longrightarrow> (\<And>a j. m = Ret a j \<Longrightarrow> h_within h (f a j)) \<Longrightarrow> h_within h (bnd m f)"
  by (cases m) (auto simp: h_within_def)

text \<open>Input that never grows is a preorder too.\<close>

interpretation hinput: framing "\<lambda>h h'. length (h_in h') \<le> length (h_in h)" "\<lambda>_ _ _. True"
  by unfold_locales auto

lemma h_within_from: "length (h_in j) \<le> length (h_in h) \<Longrightarrow> h_within j m \<Longrightarrow> h_within h m"
  unfolding h_within_def by (rule hinput.runs_from)

lemma h_in_pr [simp]: "h_in (pr s h) = h_in h"
  by (simp add: pr_def)

lemma h_in_err [simp]: "h_in (h_err c m h) = h_in h"
  by (simp add: h_err_def)

lemma h_within_refresh [h_frames]: "length (h_in j) \<le> length (h_in h) \<Longrightarrow> h_within h (h_refresh_cwd os j)"
  unfolding h_refresh_cwd_def by (auto intro!: h_frames split: option.splits)

lemma h_within_lines: "h_within h (h_enter_lines os name line h)"
proof (induction "length (h_in h)" arbitrary: line h rule: less_induct)
  case less
  show ?case
  proof (cases "h_fgets line 256 h")
    case None
    then show ?thesis by (subst h_enter_lines.simps) (simp add: h_within_def)
  next
    case (Some r)
    obtain b j where r: "r = (b, j)" by fastforce
    then have lt: "length (h_in j) < length (h_in h)" using Some fgets_input [of line 256 h b j] by simp
    have "h_within h (h_enter_lines os name l (pr s (j\<lparr>h_env := e\<rparr>)))" for l s e
      using less.hyps [of "pr s (j\<lparr>h_env := e\<rparr>)" l] lt h_within_from [of "pr s (j\<lparr>h_env := e\<rparr>)" h] by simp
    then show ?thesis
      using Some r lt
      by (subst h_enter_lines.simps) (auto simp: chk_Ret_iff intro!: h_within_bnd_eq h_within_chk h_within_Ret)
  qed
qed

lemma h_within_enter [h_frames]:
  "length (h_in j) \<le> length (h_in h) \<Longrightarrow> h_within h (h_enter_lines os name line j)"
  using h_within_from h_within_lines by blast

lemma h_within_read [h_frames]: "length (h_in j) \<le> length (h_in h) \<Longrightarrow> h_within h (h_read_loop os name pos j)"
proof (induction "length (the (os_content os name (h_env j))) - pos" arbitrary: pos j rule: less_induct)
  case less
  show ?case
    using less.prems
    by (subst h_read_loop.simps)
      (auto simp: Let_def chk_Ret_iff pr_def FILE_BUF_def split: option.splits
        intro!: h_within_bnd_eq h_within_chk h_within_Ret less.hyps)
qed

lemma h_within_answer [h_frames]: "length (h_in j) \<le> length (h_in h) \<Longrightarrow> h_within h (h_answer j)"
  using fgets_input [of "take 8 (h_junk j)" 8 j]
  by (auto simp: h_answer_def split: option.splits prod.splits intro!: h_frames)

lemma h_within_cmds [h_frames]:
  assumes "length (h_in j) \<le> length (h_in h)"
  shows "h_within h (h_cmd_pwd os j)" "h_within h (h_cmd_fwrite os a j)" "h_within h (h_cmd_fread os a j)"
    "h_within h (h_cmd_fedit os a j)" "h_within h (h_cmd_fdel os a j)" "h_within h (h_cmd_rename os a b j)"
    "h_within h (h_cmd_copy os a b j)" "h_within h (h_cmd_mkdir os a j)" "h_within h (h_cmd_cd os a j)"
    "h_within h (h_cmd_rmdir os a j)" "h_within h (h_cmd_ls os j)"
  unfolding h_cmd_pwd_def h_cmd_fwrite_def h_cmd_fread_def h_cmd_fedit_def h_cmd_fdel_def h_cmd_rename_def
    h_cmd_copy_def h_cmd_mkdir_def h_cmd_cd_def h_cmd_rmdir_def h_cmd_ls_def
  using assms by (auto intro!: h_frames simp: Let_def split: option.splits bool.splits)

lemma h_within_arm [h_frames]:
  "length (h_in j) \<le> length (h_in h) \<Longrightarrow> (\<And>j. length (h_in j) \<le> length (h_in h) \<Longrightarrow> h_within h (f j)) \<Longrightarrow>
   (\<And>j. length (h_in j) \<le> length (h_in h) \<Longrightarrow> h_within h (g j)) \<Longrightarrow> h_within h (h_arm cmd ss f g j)"
  unfolding h_arm_def by (auto intro!: h_frames)

lemma h_within_run [h_frames]: "length (h_in j) \<le> length (h_in h) \<Longrightarrow> h_within h (h_run_cmd os argv j)"
  unfolding h_run_cmd_def Let_def
  by (intro h_frames)
    (simp_all add: h_cmd_help_def h_cmd_clear_def h_cmd_date_def h_cmd_whoami_def h_cmd_shutdown_def h_intr_init_def Let_def)

lemma h_within_dispatch [h_frames]: "length (h_in j) \<le> length (h_in h) \<Longrightarrow> h_within h (h_shell_dispatch os input j)"
  unfolding h_shell_dispatch_def by (auto intro!: h_frames)

section \<open>Shell loop\<close>

definition h_prompt :: "'e os \<Rightarrow> 'e host \<Rightarrow> (unit, 'e host) outcome" where
  "h_prompt os h =
     bnd (h_refresh_cwd os h) (\<lambda>_ h. Ret () (pr (''  dug@os:'' @ cstr (h_cwd h) @ ''$ '') h))"

text \<open>One round after the prompt; the result is false when the input has ended.\<close>

definition h_round :: "'e os \<Rightarrow> cptr \<Rightarrow> 'e host \<Rightarrow> (cptr option, 'e host) outcome" where
  "h_round os input h =
     bnd (h_prompt os h) (\<lambda>_ h.
     case h_fgets input CMD_LEN h of
       None \<Rightarrow> Ret None h
     | Some (input, h) \<Rightarrow>
         bnd (chk (h_trim input) h) (\<lambda>t h.
         bnd (chk (kstrlen (drop (fst t) (snd t))) h) (\<lambda>n h.
         if n = 0 then Ret (Some (snd t)) h
         else
           bnd (h_shell_dispatch os (drop (fst t) (snd t)) h) (\<lambda>_ h.
           Ret (Some (snd t)) (pr nl h)))))"

lemma dispatched: "h_shell_dispatch os input i = Ret () s \<Longrightarrow> length (h_in s) \<le> length (h_in i)"
  using h_within_dispatch [of i i os input] by (simp add: h_within_def)

lemma h_round_input:
  assumes "h_round os input h = Ret (Some b) h'"
  shows "length (h_in h') < length (h_in h)"
proof -
  obtain j where j: "h_prompt os h = Ret () j" and rest: "(case h_fgets input CMD_LEN j of
       None \<Rightarrow> Ret None j
     | Some (input, h) \<Rightarrow>
         bnd (chk (h_trim input) h) (\<lambda>t h.
         bnd (chk (kstrlen (drop (fst t) (snd t))) h) (\<lambda>n h.
         if n = 0 then Ret (Some (snd t)) h
         else
           bnd (h_shell_dispatch os (drop (fst t) (snd t)) h) (\<lambda>_ h.
           Ret (Some (snd t)) (pr nl h))))) = Ret (Some b) h'"
    using assms by (auto simp: h_round_def bnd_Ret_iff)
  have "h_within h (h_prompt os h)" unfolding h_prompt_def by (auto intro!: h_frames)
  then have "length (h_in j) \<le> length (h_in h)" using j by (simp add: h_within_def)
  moreover obtain l i where l: "h_fgets input CMD_LEN j = Some (l, i)" using rest by (auto split: option.splits)
  then have "length (h_in i) < length (h_in j)" using fgets_input [OF l] by (simp add: CMD_LEN_def)
  moreover have "length (h_in h') \<le> length (h_in i)"
    using rest l dispatched by (auto simp: bnd_Ret_iff chk_Ret_iff split: if_splits dest!: dispatched)
  ultimately show ?thesis by simp
qed

function h_shell_loop :: "'e os \<Rightarrow> cptr \<Rightarrow> 'e host \<Rightarrow> (unit, 'e host) outcome" where
  "h_shell_loop os input h =
     (if os_running h = 0 then Ret () h
      else bnd (h_round os input h) (\<lambda>r h.
        case r of None \<Rightarrow> Ret () h | Some input \<Rightarrow> h_shell_loop os input h))"
  by pat_completeness auto
termination
  by (relation "measure (\<lambda>(os, input, h). length (h_in h))") (auto dest: h_round_input)

declare h_shell_loop.simps [simp del]

definition h_shell_run :: "'e os \<Rightarrow> 'e host \<Rightarrow> (unit, 'e host) outcome" where
  "h_shell_run os h = h_shell_loop os (take CMD_LEN (h_junk h)) h"

section \<open>main\<close>

definition h_boot :: "'e os \<Rightarrow> 'e host \<Rightarrow> (unit, 'e host) outcome" where
  "h_boot os h =
     (let h = pr (os_system os ''clear'' (h_env h)) h;
          h = pr (nl @ ''  Booting DugOS v1.0 ...'' @ nl @ nl) h;
          h = h_intr_init True h;
          h = h_boot_proc_table h;
          h = h_boot_priv_table h
      in bnd (h_boot_image_init h) (\<lambda>_ h.
         Ret () (pr (nl @ ''  Boot complete.'' @ nl) (h_announce h))))"

definition h_main :: "'e os \<Rightarrow> 'e host \<Rightarrow> (unit, 'e host) outcome" where
  "h_main os h =
     bnd (h_boot os h) (\<lambda>_ h.
     h_shell_run os (h_welcome_screen os h))"

end
