(* ===== verification/Hostprops.thy ===== *)
theory Hostprops
  imports Hostshell
begin

text \<open>
  What the hosted prototype does: its boot tables, the lines of \<open>fwrite\<close>, the loop of \<open>copy\<close>, and that
  the whole program ends without leaving one of its buffers.
\<close>

section \<open>White space\<close>

lemma white_NUL [simp]: "\<not> white NUL"
  by (simp add: white_def)

lemma blank_white: "blank c \<Longrightarrow> white c"
  by (auto simp: blank_def white_def)

definition cut_end :: "string \<Rightarrow> string" where
  "cut_end s = rev (dropWhile white (rev s))"

text \<open>
  What \<open>trim\<close> leaves in the buffer: leading blanks stay before the result, the first other character
  is kept even when it is white space, and white space is cut from the end.
\<close>

definition kept :: "string \<Rightarrow> string" where
  "kept l = takeWhile blank l @
     (case dropWhile blank l of [] \<Rightarrow> [] | c # r \<Rightarrow> c # cut_end r)"

definition trimmed :: "string \<Rightarrow> string" where
  "trimmed l = (case dropWhile blank l of [] \<Rightarrow> [] | c # r \<Rightarrow> c # cut_end r)"

lemma cut_end_split: "\<exists>w. r = cut_end r @ w \<and> list_all white w"
proof (intro exI conjI)
  show "r = cut_end r @ rev (takeWhile white (rev r))"
    unfolding cut_end_def by (metis rev_append rev_rev_ident takeWhile_dropWhile_id)
  show "list_all white (rev (takeWhile white (rev r)))"
    by (auto simp: list_all_iff dest: set_takeWhileD)
qed

lemma cut_end_last: "cut_end r = [] \<or> \<not> white (last (cut_end r))"
  unfolding cut_end_def by (metis hd_dropWhile last_rev rev_is_Nil_conv)

text \<open>The backward loop stops at the last character that is not white, or at its start.\<close>

lemma trim_back_stop: "e \<le> i \<or> \<not> white (s ! e) \<Longrightarrow> trim_back s i e = e"
  by (cases e) auto

lemma trim_back_white:
  "i \<le> e \<Longrightarrow> (\<forall>j. e < j \<and> j \<le> e + n \<longrightarrow> white (s ! j)) \<Longrightarrow> trim_back s i (e + n) = trim_back s i e"
  by (induction n) auto

lemma trim_back_eq:
  assumes s: "s = pre @ c # r @ NUL # q"
  shows "trim_back s (length pre) (length pre + length r) = length pre + length (cut_end r)"
proof -
  obtain w where r: "r = cut_end r @ w" and w: "list_all white w" using cut_end_split by blast
  let ?e = "length pre + length (cut_end r)"
  have len: "length r = length (cut_end r) + length w" using arg_cong [OF r, of length] by simp
  have "s ! j = w ! (j - ?e - 1)" if lo: "?e < j" and hi: "j \<le> ?e + length w" for j
  proof -
    have "s = (pre @ c # cut_end r) @ w @ NUL # q" using s r by simp
    moreover have "j = length (pre @ c # cut_end r) + (j - ?e - 1)" "j - ?e - 1 < length w" using lo hi by auto
    ultimately show ?thesis by (metis nth_append nth_append_length_plus)
  qed
  then have "\<forall>j. ?e < j \<and> j \<le> ?e + length w \<longrightarrow> white (s ! j)"
    using w by (auto simp: list_all_length)
  then have "trim_back s (length pre) (?e + length w) = trim_back s (length pre) ?e"
    by (intro trim_back_white) simp_all
  also have "\<dots> = ?e"
  proof (cases "cut_end r = []")
    case False
    then obtain u x where u: "cut_end r = u @ [x]" by (metis rev_exhaust)
    then have "s = (pre @ c # u) @ x # (w @ NUL # q)" using s r by simp
    then have "s ! length (pre @ c # u) = x" by (metis nth_append_length)
    then have "s ! ?e = last (cut_end r)" by (simp add: u)
    then show ?thesis using cut_end_last [of r] False by (intro trim_back_stop) simp
  qed (intro trim_back_stop, simp)
  finally show ?thesis using len by (simp add: add.assoc)
qed

lemma h_trim_eq:
  assumes "NUL \<notin> set l"
  shows "\<exists>b. h_trim (l @ NUL # q) = Some (length (takeWhile blank l), kept l @ NUL # b) \<and>
    length (kept l @ NUL # b) = length (l @ NUL # q)"
proof -
  let ?p = "takeWhile blank l"
  have bl: "list_all blank ?p" by (auto simp: list_all_iff dest: set_takeWhileD)
  show ?thesis
  proof (cases "dropWhile blank l")
    case Nil
    then have l: "?p = l" by (metis append_Nil2 takeWhile_dropWhile_id)
    have "skip_blanks (l @ NUL # q) 0 = Some (length l)"
      using skip_blanks_eq [of 0 "l @ NUL # q" l "NUL # q"] bl l by simp
    moreover have "kept l = l" using l unfolding kept_def Nil by simp
    ultimately show ?thesis unfolding l by (simp add: h_trim_def peek_def)
  next
    case (Cons c r)
    then have l: "l = ?p @ c # r" by (metis takeWhile_dropWhile_id)
    have nb: "\<not> blank c" using Cons by (metis hd_dropWhile list.distinct(1) list.sel(1))
    have nn: "c \<noteq> NUL" "NUL \<notin> set r" using assms l by (metis Un_iff list.set_intros set_append)+
    obtain w where w: "r = cut_end r @ w" using cut_end_split by blast
    have s: "l @ NUL # q = ?p @ c # r @ NUL # q" by (subst l) simp
    have sk: "skip_blanks (l @ NUL # q) 0 = Some (length ?p)"
      by (rule skip_blanks_eq [of 0 "l @ NUL # q" ?p "c # r @ NUL # q", OF _ bl, simplified]) (rule l, rule nb)
    have pk: "peek (l @ NUL # q) (length ?p) = Some c" by (subst s) (simp add: peek_def)
    have sl: "kstrlen (drop (length ?p) (l @ NUL # q)) = Some (Suc (length r))"
      by (subst s) (simp add: kstrlen_eq nn cstr_append_unterminated)
    have tb: "trim_back (l @ NUL # q) (length ?p) (length ?p + length r) = length ?p + length (cut_end r)"
      by (rule trim_back_eq [OF s])
    have lw: "length r = length (cut_end r) + length w" using arg_cong [OF w, of length] by simp
    have pos: "length ?p + length (cut_end r) + 1 < length (l @ NUL # q)" by (subst s) (simp add: lw)
    obtain x y where xy: "w @ NUL # q = x # y" by (cases w) auto
    have "l @ NUL # q = (?p @ c # cut_end r) @ x # y" by (subst s, subst w) (simp add: xy)
    then have "(l @ NUL # q)[length (?p @ c # cut_end r) := NUL] = (?p @ c # cut_end r) @ NUL # y"
      by (metis list_update_length)
    also have "\<dots> = kept l @ NUL # y" using Cons by (simp add: kept_def)
    finally have "poke (length ?p + length (cut_end r) + 1) NUL (l @ NUL # q) = Some (kept l @ NUL # y)"
      using pos by (simp add: poke_def)
    moreover have "length (kept l @ NUL # y) = length (l @ NUL # q)"
      using Cons arg_cong [OF xy, of length] by (subst s) (simp add: kept_def lw)
    ultimately show ?thesis
      using sk pk sl tb nn by (auto simp: h_trim_def)
  qed
qed

section \<open>Lines of the standard input\<close>

lemma take_line_eq:
  "CHR 0x0A \<notin> set l \<Longrightarrow> length l < n \<Longrightarrow> take_line n (l @ CHR 0x0A # rest) = (l @ nl, rest)"
  by (induction l arbitrary: n) (auto simp: less_Suc_eq_0_disj Let_def gr0_conv_Suc Suc_less_eq2)

lemma h_fgets_eq:
  "h_in h = l @ CHR 0x0A # rest \<Longrightarrow> CHR 0x0A \<notin> set l \<Longrightarrow> length l + 1 < n \<Longrightarrow>
   \<exists>q. h_fgets buf n h = Some (l @ nl @ NUL # q, h\<lparr>h_in := rest\<rparr>)"
  by (auto simp: h_fgets_def take_line_eq)

section \<open>What the operating system promises\<close>

text \<open>
  Creating a file leaves it empty, opening it for appending keeps it, and a write adds its bytes at the
  end. Two names are apart when calls on the second leave the content of the first alone.
\<close>

definition file_laws :: "'e os \<Rightarrow> string \<Rightarrow> bool" where
  "file_laws os f \<longleftrightarrow>
     (\<forall>e e'. os_create os f e = Some e' \<longrightarrow> os_content os f e' = Some []) \<and>
     (\<forall>e e' c. os_open_append os f e = Some e' \<and> os_content os f e = Some c \<longrightarrow> os_content os f e' = Some c) \<and>
     (\<forall>e c s. os_content os f e = Some c \<longrightarrow> os_content os f (os_write os f s e) = Some (c @ s))"

definition apart :: "'e os \<Rightarrow> string \<Rightarrow> string \<Rightarrow> bool" where
  "apart os f g \<longleftrightarrow>
     (\<forall>e e'. os_create os g e = Some e' \<longrightarrow> os_content os f e' = os_content os f e) \<and>
     (\<forall>e s. os_content os f (os_write os g s e) = os_content os f e)"

lemma file_created: "file_laws os f \<Longrightarrow> os_create os f e = Some e' \<Longrightarrow> os_content os f e' = Some []"
  and file_appended: "file_laws os f \<Longrightarrow> os_open_append os f e = Some e' \<Longrightarrow> os_content os f e = Some c \<Longrightarrow> os_content os f e' = Some c"
  and file_written: "file_laws os f \<Longrightarrow> os_content os f e = Some c \<Longrightarrow> os_content os f (os_write os f s e) = Some (c @ s)"
  unfolding file_laws_def by blast+

section \<open>Entering lines\<close>

text \<open>A line a user can type: no NUL, no newline, short enough for the buffer, and not the final dot.\<close>

definition typed :: "string \<Rightarrow> bool" where
  "typed l \<longleftrightarrow> NUL \<notin> set l \<and> CHR 0x0A \<notin> set l \<and> length l < 255 \<and> trimmed (l @ nl) \<noteq> ''.''"

lemma kept_trimmed: "kept l = takeWhile blank l @ trimmed l"
  by (simp add: kept_def trimmed_def)

lemma cut_end_sub: "set (cut_end s) \<subseteq> set s"
  by (auto simp: cut_end_def dest: set_dropWhileD)

lemma trimmed_sub: "set (trimmed l) \<subseteq> set l"
  using cut_end_sub set_dropWhileD [of _ blank l]
  by (auto simp: trimmed_def split: list.splits) (metis cut_end_sub in_mono list.set_intros)+

lemma kept_NUL: "NUL \<notin> set l \<Longrightarrow> NUL \<notin> set (kept l)"
  using trimmed_sub [of l] by (auto simp: kept_trimmed dest: set_takeWhileD)

lemma enter_line:
  assumes "h_in h = l @ CHR 0x0A # rest" and "NUL \<notin> set l" "CHR 0x0A \<notin> set l" "length l < 255"
  shows "\<exists>line. h_enter_lines os f buf h =
    (if trimmed (l @ nl) = ''.'' then Ret () (h\<lparr>h_in := rest\<rparr>)
     else h_enter_lines os f line
       (pr ''  > '' (h\<lparr>h_in := rest, h_env := os_write os f (kept (l @ nl)) (h_env h)\<rparr>)))"
proof -
  obtain m where m: "m = l @ nl" by simp
  obtain q where q: "h_fgets buf 256 h = Some (m @ NUL # q, h\<lparr>h_in := rest\<rparr>)"
    using h_fgets_eq [OF assms(1,3), of 256 buf] assms(4) m by auto
  have nn: "NUL \<notin> set m" using assms(2) m by simp
  obtain b where b: "h_trim (m @ NUL # q) = Some (length (takeWhile blank m), kept m @ NUL # b)"
    using h_trim_eq [OF nn, of q] by blast
  have dr: "drop (length (takeWhile blank m)) (kept m @ NUL # b) = trimmed m @ NUL # b" by (simp add: kept_trimmed)
  have tn: "NUL \<notin> set (trimmed m)" using trimmed_sub [of m] nn by blast
  obtain r where r: "kstrcmp (trimmed m @ NUL # b) (lit ''.'') = Some r"
    using kstrcmp_defined [of "trimmed m @ NUL # b" "lit ''.''"] by auto
  have r0: "r = 0 \<longleftrightarrow> trimmed m = ''.''" using kstrcmp_zero_iff [OF r] tn by simp
  have k: "cstr (kept m @ NUL # b) = kept m" using kept_NUL [OF nn] by simp
  show ?thesis unfolding m [symmetric]
    by (rule exI [of _ "kept m @ NUL # b"], subst h_enter_lines.simps) (simp add: q b dr r r0 k del: drop_append)
qed

text \<open>The program text and the lines a user enters, each with its newline.\<close>

lemma enter_lines_ok:
  assumes "file_laws os f" and "list_all typed ls" and "trimmed (d @ nl) = ''.''" "NUL \<notin> set d" "CHR 0x0A \<notin> set d" "length d < 255"
    and "h_in h = concat (map (\<lambda>l. l @ nl) ls) @ d @ nl @ rest" and "os_content os f (h_env h) = Some c"
  shows "\<exists>h'. h_enter_lines os f buf h = Ret () h' \<and> h_in h' = rest \<and>
    os_content os f (h_env h') = Some (c @ concat (map (\<lambda>l. kept (l @ nl)) ls))"
  using assms(2,7,8)
proof (induction ls arbitrary: buf h c)
  case Nil
  then show ?case using enter_line [of h d rest os f buf] assms(3-6) by auto
next
  case (Cons l ls)
  let ?h = "pr ''  > '' (h\<lparr>h_in := concat (map (\<lambda>l. l @ nl) ls) @ d @ nl @ rest, h_env := os_write os f (kept (l @ nl)) (h_env h)\<rparr>)"
  have l: "typed l" using Cons.prems by simp
  have "os_content os f (h_env ?h) = Some (c @ kept (l @ nl))"
    using file_written [OF assms(1) Cons.prems(3)] by (simp add: pr_def)
  then show ?case
    using enter_line [of h l "concat (map (\<lambda>l. l @ nl) ls) @ d @ nl @ rest" os f buf] Cons.IH [of ?h "c @ kept (l @ nl)"] Cons.prems l
    by (auto simp: typed_def)
qed

lemma fwrite_ok:
  assumes "file_laws os f" and "f \<noteq> []" and "os_create os f (h_env h) = Some e"
    and "list_all typed ls" and "h_in h = concat (map (\<lambda>l. l @ nl) ls) @ ''.'' @ nl @ rest"
  shows "\<exists>h'. h_cmd_fwrite os (Some f) h = Ret () h' \<and> h_in h' = rest \<and>
    os_content os f (h_env h') = Some (concat (map (\<lambda>l. kept (l @ nl)) ls))"
proof -
  let ?h = "pr (''  Enter content. Type a single dot '.' on a new line to finish:'' @ nl @ ''  > '') (h\<lparr>h_env := e\<rparr>)"
  have "os_content os f e = Some []" by (rule file_created [OF assms(1,3)])
  then obtain h' where "h_enter_lines os f (take 256 (h_junk ?h)) ?h = Ret () h'" "h_in h' = rest"
    "os_content os f (h_env h') = Some (concat (map (\<lambda>l. kept (l @ nl)) ls))"
    using enter_lines_ok [OF assms(1,4), of "''.''" ?h rest "[]"] assms(5)
    by (auto simp: pr_def trimmed_def cut_end_def blank_def white_def)
  then show ?thesis using assms(2,3) by (auto simp: h_cmd_fwrite_def absent_def Let_def pr_def)
qed

lemma fedit_ok:
  assumes "file_laws os f" and "f \<noteq> []" and "os_content os f (h_env h) = Some c" and "os_open_append os f (h_env h) = Some e"
    and "list_all typed ls" and "h_in h = concat (map (\<lambda>l. l @ nl) ls) @ ''.'' @ nl @ rest"
  shows "\<exists>h'. h_cmd_fedit os (Some f) h = Ret () h' \<and> h_in h' = rest \<and>
    os_content os f (h_env h') = Some (c @ concat (map (\<lambda>l. kept (l @ nl)) ls))"
proof -
  let ?h = "pr (''  Appending to '' @ CHR 0x27 # f @ CHR 0x27 # ''. Type '.' on a new line to finish:'' @ nl @ ''  > '') (h\<lparr>h_env := e\<rparr>)"
  have "os_content os f e = Some c" by (rule file_appended [OF assms(1,4,3)])
  then obtain h' where "h_enter_lines os f (take 256 (h_junk ?h)) ?h = Ret () h'" "h_in h' = rest"
    "os_content os f (h_env h') = Some (c @ concat (map (\<lambda>l. kept (l @ nl)) ls))"
    using enter_lines_ok [OF assms(1,5), of "''.''" ?h rest c] assms(6)
    by (auto simp: pr_def trimmed_def cut_end_def blank_def white_def)
  then show ?thesis using assms(2-4) by (auto simp: h_cmd_fedit_def absent_def Let_def pr_def)
qed

section \<open>Copying\<close>

lemma copy_loop_self:
  "os_content os f e = Some [] \<Longrightarrow> copy_loop os f g 0 e = Some e"
  by (subst copy_loop.simps) simp

lemma take_then_drop: "take n xs @ drop (length (take n xs)) xs = xs"
  by (simp add: min_def)

lemma copy_loop_ok:
  assumes "file_laws os g" and "apart os f g"
    and "os_content os f e = Some c" "pos \<le> length c" "os_content os g e = Some d"
  shows "\<exists>e'. copy_loop os f g pos e = Some e' \<and> os_content os f e' = Some c \<and>
    os_content os g e' = Some (d @ drop pos c)"
  using assms(3-)
proof (induction "length c - pos" arbitrary: pos e d rule: less_induct)
  case less
  let ?chunk = "take FILE_BUF (drop pos c)"
  show ?case
  proof (cases "?chunk = []")
    case True
    then have "drop pos c = []" by (simp add: FILE_BUF_def)
    then show ?thesis using less.prems True by (subst copy_loop.simps) simp
  next
    case False
    let ?e = "os_write os g ?chunk e"
    have lt: "length c - (pos + length ?chunk) < length c - pos" and le: "pos + length ?chunk \<le> length c"
      using False less.prems(2) by (auto simp: FILE_BUF_def)
    have "os_content os f ?e = Some c" "os_content os g ?e = Some (d @ ?chunk)"
      using file_written [OF assms(1) less.prems(3)] assms(2) less.prems(1) by (simp_all add: apart_def)
    then obtain e' where "copy_loop os f g (pos + length ?chunk) ?e = Some e'" "os_content os f e' = Some c"
      "os_content os g e' = Some ((d @ ?chunk) @ drop (pos + length ?chunk) c)"
      using less.hyps [OF lt _ le] by blast
    moreover have "?chunk @ drop (pos + length ?chunk) c = drop pos c"
      using take_then_drop [of FILE_BUF "drop pos c"] by (simp add: add.commute)
    ultimately show ?thesis
      using less.prems(1) False by (subst copy_loop.simps) (auto simp: Let_def)
  qed
qed

lemma copy_ok:
  assumes "file_laws os g" and "f \<noteq> g \<Longrightarrow> apart os f g" and "f \<noteq> []" "g \<noteq> []"
    and "os_content os f (h_env h) = Some c" and "os_create os g (h_env h) = Some e"
  shows "\<exists>h'. h_cmd_copy os (Some f) (Some g) h = Ret () h' \<and>
    os_content os g (h_env h') = Some (if f = g then [] else c) \<and>
    (f \<noteq> g \<longrightarrow> os_content os f (h_env h') = Some c)"
proof -
  have g: "os_content os g e = Some []" by (rule file_created [OF assms(1,6)])
  have "\<exists>e'. copy_loop os f g 0 e = Some e' \<and> os_content os g e' = Some (if f = g then [] else c) \<and>
    (f \<noteq> g \<longrightarrow> os_content os f e' = Some c)"
  proof (cases "f = g")
    case True
    then show ?thesis using copy_loop_self [of os g e g] g by simp
  next
    case False
    then have "os_content os f e = Some c" using assms(2,5,6) by (simp add: apart_def)
    then show ?thesis using copy_loop_ok [OF assms(1) assms(2) [OF False], of e c 0 "[]"] g False by auto
  qed
  then show ?thesis using assms(3-6) by (auto simp: h_cmd_copy_def absent_def pr_def)
qed

section \<open>Boot tables\<close>

lemma fold_update:
  "n \<le> length t \<Longrightarrow> fold (\<lambda>j t. t[j := f j (t ! j)]) [0..<n] t = map (\<lambda>j. f j (t ! j)) [0..<n] @ drop n t"
proof (induction n)
  case (Suc n)
  then have "drop n t = t ! n # drop (Suc n) t" by (simp add: Cons_nth_drop_Suc)
  then show ?case using Suc by (simp add: nth_append list_update_append)
qed simp

definition proc_slots :: "hproc list \<Rightarrow> bool" where
  "proc_slots t \<longleftrightarrow> length t = 68 \<and> list_all (\<lambda>p. length (p_name p) = P_NAME_LEN) t"

text \<open>The slot of an image entry, and what loading the entry makes of it.\<close>

definition slot_of :: "himage \<Rightarrow> nat" where
  "slot_of ip = nat (4 + h_proc_nr ip)"

definition loaded_slot :: "himage \<Rightarrow> hproc \<Rightarrow> hproc" where
  "loaded_slot ip p = p\<lparr>p_nr := h_proc_nr ip, p_priority := h_priority ip, p_quantum_size := h_quantum ip,
     p_ticks_left := h_quantum ip, p_name := take 16 (cstr (h_proc_name ip) @ replicate 16 NUL),
     p_rts_flags := (if h_proc_nr ip = HARDWARE then NO_MAP else 0)\<rparr>"

definition image_ok :: "himage \<Rightarrow> bool" where
  "image_ok ip \<longleftrightarrow> -4 \<le> h_proc_nr ip \<and> h_proc_nr ip < 64 \<and> terminated (h_proc_name ip)"

lemma loaded_slot_name [simp]: "length (p_name (loaded_slot ip p)) = 16"
  by (simp add: loaded_slot_def)

lemma load_proc_ok:
  assumes t: "proc_slots t" and ip: "image_ok ip"
  shows "slot_of ip < length t" "load_proc ip t = Some (t[slot_of ip := loaded_slot ip (t ! slot_of ip)])"
    "proc_slots (t[slot_of ip := loaded_slot ip (t ! slot_of ip)])"
proof -
  show j: "slot_of ip < length t" using assms by (auto simp: proc_slots_def image_ok_def slot_of_def)
  then have "length (p_name (t ! slot_of ip)) = 16"
    using t by (auto simp: proc_slots_def list_all_length P_NAME_LEN_def)
  then show "load_proc ip t = Some (t[slot_of ip := loaded_slot ip (t ! slot_of ip)])" using j ip
    by (simp add: load_proc_def Let_def H_NR_TASKS_def kstrncpy_eq P_NAME_LEN_def image_ok_def slot_of_def loaded_slot_def)
  show "proc_slots (t[slot_of ip := loaded_slot ip (t ! slot_of ip)])"
    using t set_update_subset_insert [of t "slot_of ip" "loaded_slot ip (t ! slot_of ip)"]
    by (auto simp: proc_slots_def list_all_iff P_NAME_LEN_def)
qed

lemma load_all_ok:
  "proc_slots t \<Longrightarrow> list_all image_ok ips \<Longrightarrow> distinct (map slot_of ips) \<Longrightarrow>
   \<exists>t'. load_all ips t = Some t' \<and> proc_slots t' \<and>
     (\<forall>ip \<in> set ips. t' ! slot_of ip = loaded_slot ip (t ! slot_of ip)) \<and>
     (\<forall>j. j \<notin> slot_of ` set ips \<longrightarrow> t' ! j = t ! j)"
proof (induction ips arbitrary: t)
  case (Cons ip ips)
  let ?t = "t[slot_of ip := loaded_slot ip (t ! slot_of ip)]"
  have ip: "image_ok ip" using Cons.prems by simp
  obtain t' where t': "load_all ips ?t = Some t'" "proc_slots t'"
    "\<forall>ip \<in> set ips. t' ! slot_of ip = loaded_slot ip (?t ! slot_of ip)" "\<forall>j. j \<notin> slot_of ` set ips \<longrightarrow> t' ! j = ?t ! j"
    using Cons.IH [of ?t] load_proc_ok (3) [OF Cons.prems(1) ip] Cons.prems by auto
  have "slot_of ip \<notin> slot_of ` set ips" using Cons.prems by auto
  then have "t' ! slot_of ip = loaded_slot ip (t ! slot_of ip)"
    using t'(4) load_proc_ok (1) [OF Cons.prems(1) ip] by simp
  moreover have "?t ! slot_of i = t ! slot_of i" if "i \<in> set ips" for i
    using \<open>slot_of ip \<notin> slot_of ` set ips\<close> that by (metis image_eqI nth_list_update_neq)
  ultimately show ?case
    using t' load_proc_ok (2) [OF Cons.prems(1) ip] by auto
qed auto

lemma h_image_ok: "list_all image_ok h_image" "map slot_of h_image = [0..<8]"
  by (simp_all add: h_image_def image_ok_def slot_of_def name16_def P_NAME_LEN_def upt_rec)

lemma boot_proc_table_eq:
  "proc_slots (proc_table h) \<Longrightarrow> proc_table (h_boot_proc_table h) =
     map (\<lambda>j. (proc_table h ! j)\<lparr>p_rts_flags := SLOT_FREE, p_nr := int j - 4\<rparr>) [0..<68]"
  using fold_update [of 68 "proc_table h" "\<lambda>j p. p\<lparr>p_rts_flags := SLOT_FREE, p_nr := int j - int H_NR_TASKS\<rparr>"]
  by (simp add: h_boot_proc_table_def pr_def proc_slots_def H_NR_TASKS_def H_NR_PROCS_def)

lemma boot_priv_table_eq:
  "length (priv_table h) = 32 \<Longrightarrow> priv_table (h_boot_priv_table h) =
     map (\<lambda>j. (priv_table h ! j)\<lparr>s_proc_nr := NONE, s_id := int j\<rparr>) [0..<32]"
  using fold_update [of 32 "priv_table h" "\<lambda>j p. p\<lparr>s_proc_nr := NONE, s_id := int j\<rparr>"]
  by (simp add: h_boot_priv_table_def pr_def H_NR_SYS_PROCS_def)

lemma boot_ok:
  assumes p: "proc_slots (proc_table h)" and v: "length (priv_table h) = 32"
  shows "\<exists>h'. h_boot os h = Ret () h' \<and> proc_slots (proc_table h') \<and>
    (\<forall>ip \<in> set h_image. proc_table h' ! slot_of ip =
      loaded_slot ip ((proc_table h ! slot_of ip)\<lparr>p_rts_flags := SLOT_FREE, p_nr := h_proc_nr ip\<rparr>)) \<and>
    (\<forall>j. 8 \<le> j \<and> j < 68 \<longrightarrow> proc_table h' ! j = (proc_table h ! j)\<lparr>p_rts_flags := SLOT_FREE, p_nr := int j - 4\<rparr>) \<and>
    priv_table h' = map (\<lambda>j. (priv_table h ! j)\<lparr>s_proc_nr := NONE, s_id := int j\<rparr>) [0..<32] \<and>
    h_in h' = h_in h \<and> h_env h' = h_env h \<and> os_running h' = os_running h \<and> h_cwd h' = h_cwd h \<and> h_junk h' = h_junk h"
proof -
  define a where "a = h_intr_init True (pr (nl @ ''  Booting DugOS v1.0 ...'' @ nl @ nl) (pr (os_system os ''clear'' (h_env h)) h))"
  define b where "b = h_boot_priv_table (h_boot_proc_table a)"
  let ?t = "map (\<lambda>j. (proc_table h ! j)\<lparr>p_rts_flags := SLOT_FREE, p_nr := int j - 4\<rparr>) [0..<68]"
  have a: "proc_table a = proc_table h" "priv_table a = priv_table h" "h_in a = h_in h" "h_env a = h_env h"
    "os_running a = os_running h" "h_cwd a = h_cwd h" "h_junk a = h_junk h"
    by (simp_all add: a_def h_intr_init_def pr_def)
  have b: "proc_table b = ?t" "priv_table b = map (\<lambda>j. (priv_table h ! j)\<lparr>s_proc_nr := NONE, s_id := int j\<rparr>) [0..<32]"
    "h_in b = h_in h" "h_env b = h_env h" "os_running b = os_running h" "h_cwd b = h_cwd h" "h_junk b = h_junk h"
    using boot_proc_table_eq [of a] boot_priv_table_eq [of "h_boot_proc_table a"] p v a
    by (simp_all add: b_def h_boot_priv_table_def h_boot_proc_table_def pr_def)
  have "proc_slots ?t" using p by (auto simp: proc_slots_def list_all_length)
  then obtain t' where t': "load_all h_image ?t = Some t'" "proc_slots t'"
    "\<forall>ip \<in> set h_image. t' ! slot_of ip = loaded_slot ip (?t ! slot_of ip)" "\<forall>j. j \<notin> slot_of ` set h_image \<longrightarrow> t' ! j = ?t ! j"
    using load_all_ok [of ?t h_image] h_image_ok by auto
  have im: "slot_of ` set h_image = {..<8}" using h_image_ok(2) by (metis list.set_map atLeast_upt)
  have "?t ! slot_of ip = (proc_table h ! slot_of ip)\<lparr>p_rts_flags := SLOT_FREE, p_nr := h_proc_nr ip\<rparr>" if "ip \<in> set h_image" for ip
  proof -
    have "image_ok ip" using h_image_ok(1) that by (simp add: list_all_iff)
    moreover have "slot_of ip < 8" using im that by auto
    ultimately show ?thesis by (simp add: slot_of_def image_ok_def)
  qed
  then show ?thesis
    using t' b im unfolding h_boot_def Let_def a_def [symmetric] b_def [symmetric]
    by (auto simp: h_boot_image_init_def h_announce_def pr_def)
qed

section \<open>Properties\<close>

text \<open>The boot of the prototype. Starting from the zeroed tables it never leaves an array, and at the end
  slot j of the process table has process number j - 4, the eight slots of the boot image carry the
  priority, the quantum and the name of their entry and are runnable, except HARDWARE, which has the flag
  NO_MAP, all other slots are free, and entry j of the privilege table has id j and no process. Boot reads no input and
  changes no file.
\<close>

theorem host_boot_tables:
  assumes "proc_slots (proc_table h)" and "length (priv_table h) = 32"
  shows "\<exists>h'. h_boot os h = Ret () h' \<and> length (proc_table h') = 68 \<and>
    (\<forall>j < 68. p_nr (proc_table h' ! j) = int j - 4) \<and>
    (\<forall>ip \<in> set h_image. let p = proc_table h' ! nat (4 + h_proc_nr ip) in
       p_priority p = h_priority ip \<and> p_quantum_size p = h_quantum ip \<and> p_ticks_left p = h_quantum ip \<and>
       cstr (p_name p) = cstr (h_proc_name ip) \<and> p_rts_flags p = (if h_proc_nr ip = HARDWARE then NO_MAP else 0)) \<and>
    (\<forall>j. 8 \<le> j \<and> j < 68 \<longrightarrow> p_rts_flags (proc_table h' ! j) = SLOT_FREE) \<and>
    length (priv_table h') = 32 \<and> (\<forall>j < 32. s_id (priv_table h' ! j) = int j \<and> s_proc_nr (priv_table h' ! j) = NONE) \<and>
    h_in h' = h_in h \<and> h_env h' = h_env h"
proof -
  obtain h' where h': "h_boot os h = Ret () h'" "proc_slots (proc_table h')"
    "\<forall>ip \<in> set h_image. proc_table h' ! slot_of ip =
      loaded_slot ip ((proc_table h ! slot_of ip)\<lparr>p_rts_flags := SLOT_FREE, p_nr := h_proc_nr ip\<rparr>)"
    "\<forall>j. 8 \<le> j \<and> j < 68 \<longrightarrow> proc_table h' ! j = (proc_table h ! j)\<lparr>p_rts_flags := SLOT_FREE, p_nr := int j - 4\<rparr>"
    "priv_table h' = map (\<lambda>j. (priv_table h ! j)\<lparr>s_proc_nr := NONE, s_id := int j\<rparr>) [0..<32]"
    "h_in h' = h_in h" "h_env h' = h_env h"
    using boot_ok [OF assms] by blast
  have nr: "p_nr (proc_table h' ! j) = int j - 4" if "j < 68" for j
  proof (cases "j < 8")
    case True
    then obtain ip where ip: "ip \<in> set h_image" "j = slot_of ip"
      using h_image_ok(2) by (metis atLeast_upt imageE lessThan_iff list.set_map)
    then have "image_ok ip" using h_image_ok(1) by (simp add: list_all_iff)
    then show ?thesis using h'(3) ip by (simp add: loaded_slot_def slot_of_def image_ok_def)
  qed (use h'(4) that in auto)
  have "cstr (take 16 (cstr (h_proc_name ip) @ replicate 16 NUL)) = cstr (h_proc_name ip)" if "ip \<in> set h_image" for ip
    using that by (auto simp: h_image_def name16_def P_NAME_LEN_def)
  then show ?thesis using h' nr by (auto simp: proc_slots_def loaded_slot_def slot_of_def Let_def)
qed

text \<open>\<open>fwrite\<close> of the prototype. When the user enters the lines \<open>ls\<close> and then a single dot, the command creates
  the file, consumes exactly these lines and returns, and the file holds each line as \<open>trim\<close> has left it in the buffer: the
  newline and the white space before it are cut off, so lines with text run into each other, and only a
  line without text keeps its newline.
\<close>

theorem host_fwrite_stores_trimmed_lines:
  assumes "file_laws os f" and "f \<noteq> []" and "os_create os f (h_env h) = Some e"
    and "list_all typed ls" and "h_in h = concat (map (\<lambda>l. l @ nl) ls) @ ''.'' @ nl @ rest"
  shows "\<exists>h'. h_cmd_fwrite os (Some f) h = Ret () h' \<and> h_in h' = rest \<and>
    os_content os f (h_env h') = Some (concat (map (\<lambda>l. kept (l @ nl)) ls))"
  by (rule fwrite_ok [OF assms])

text \<open>\<open>copy\<close> of the prototype. For two names of different files it returns, the destination then holds exactly
  the bytes of the source, whatever their number, and the source is unchanged. For one name given twice
  it returns too, but the file is empty then.
\<close>

theorem host_copy_correct:
  assumes "file_laws os g" and "f \<noteq> g \<Longrightarrow> apart os f g" and "f \<noteq> []" "g \<noteq> []"
    and "os_content os f (h_env h) = Some c" and "os_create os g (h_env h) = Some e"
  shows "\<exists>h'. h_cmd_copy os (Some f) (Some g) h = Ret () h' \<and>
    os_content os g (h_env h') = Some (if f = g then [] else c) \<and>
    (f \<noteq> g \<longrightarrow> os_content os f (h_env h') = Some c)"
  by (rule copy_ok [OF assms])

section \<open>Witnesses\<close>

text \<open>An operating system with one directory that keeps its files in a map.\<close>

definition mem_os :: "(string \<rightharpoonup> string) os" where
  "mem_os =
     \<lparr>os_content = (\<lambda>f e. e f),
      os_create = (\<lambda>f e. Some (e(f \<mapsto> []))),
      os_open_append = (\<lambda>f e. Some (case e f of None \<Rightarrow> e(f \<mapsto> []) | Some _ \<Rightarrow> e)),
      os_write = (\<lambda>f s e. e(f \<mapsto> (case e f of None \<Rightarrow> s | Some c \<Rightarrow> c @ s))),
      os_remove = (\<lambda>f e. case e f of None \<Rightarrow> None | Some _ \<Rightarrow> Some (e(f := None))),
      os_rename = (\<lambda>f g e. case e f of None \<Rightarrow> None | Some c \<Rightarrow> Some ((e(f := None))(g \<mapsto> c))),
      os_mkdir = (\<lambda>_ _. None), os_rmdir = (\<lambda>_ _. None), os_chdir = (\<lambda>_ _. None),
      os_getcwd = (\<lambda>_. Some ''/''), os_system = (\<lambda>_ _. []), os_date = (\<lambda>_. ''Monday'')\<rparr>"

definition host0 :: "string \<Rightarrow> (string \<rightharpoonup> string) \<Rightarrow> (string \<rightharpoonup> string) host" where
  "host0 inp e =
     \<lparr>proc_table = replicate 68 \<lparr>p_nr = 0, p_rts_flags = 0, p_priority = 0, p_quantum_size = 0, p_ticks_left = 0,
        p_name = replicate 16 NUL\<rparr>,
      priv_table = replicate 32 \<lparr>s_proc_nr = 0, s_id = 0, s_flags = 0\<rparr>,
      shutdown_started = 0, os_running = 1, h_cwd = replicate 512 NUL, h_in = inp, h_out = [],
      h_env = e, h_junk = replicate 4096 NUL\<rparr>"

lemma mem_os_laws: "file_laws mem_os f"
  by (auto simp: file_laws_def mem_os_def split: option.splits)

lemma mem_os_apart: "f \<noteq> g \<Longrightarrow> apart mem_os f g"
  by (simp add: apart_def mem_os_def)

theorem host_boot_tables_witness:
  "\<exists>h'. h_boot mem_os (host0 [] Map.empty) = Ret () h' \<and> p_nr (proc_table h' ! 67) = 63 \<and>
     p_rts_flags (proc_table h' ! 0) = NO_MAP \<and> cstr (p_name (proc_table h' ! 7)) = ''INIT'' \<and>
     s_id (priv_table h' ! 31) = 31"
  using host_boot_tables [of "host0 [] Map.empty" mem_os]
  by (auto simp: host0_def proc_slots_def P_NAME_LEN_def h_image_def HARDWARE_def Let_def name16_def list_all_iff)

theorem host_fwrite_stores_trimmed_lines_witness:
  "\<exists>h'. h_cmd_fwrite mem_os (Some ''a'') (host0 (''one '' @ nl @ nl @ ''two'' @ nl @ ''.'' @ nl) Map.empty) = Ret () h' \<and>
     h_in h' = [] \<and> h_env h' ''a'' = Some (''one'' @ nl @ ''two'')"
  using host_fwrite_stores_trimmed_lines [of mem_os "''a''" "host0 (''one '' @ nl @ nl @ ''two'' @ nl @ ''.'' @ nl) Map.empty"
      "[''a'' \<mapsto> []]" "[''one '', [], ''two'']" "[]"] mem_os_laws
  by (simp add: mem_os_def host0_def typed_def trimmed_def kept_def cut_end_def blank_def white_def)

theorem host_copy_correct_witness:
  "(\<exists>h'. h_cmd_copy mem_os (Some ''a'') (Some ''b'') (host0 [] [''a'' \<mapsto> ''data'']) = Ret () h' \<and> h_env h' ''b'' = Some ''data'') \<and>
   (\<exists>h'. h_cmd_copy mem_os (Some ''a'') (Some ''a'') (host0 [] [''a'' \<mapsto> ''data'']) = Ret () h' \<and> h_env h' ''a'' = Some [])"
  using host_copy_correct [of mem_os "''b''" "''a''" "host0 [] [''a'' \<mapsto> ''data'']" "''data''" "[''a'' \<mapsto> ''data'', ''b'' \<mapsto> []]"]
    host_copy_correct [of mem_os "''a''" "''a''" "host0 [] [''a'' \<mapsto> ''data'']" "''data''" "[''a'' \<mapsto> []]"]
    mem_os_laws mem_os_apart [of "''a''" "''b''"]
  by (auto simp: mem_os_def host0_def)

end
