(* ===== verification/Hostsafe.thy ===== *)
theory Hostsafe
  imports Hostprops
begin

text \<open>
  The prototype \<open>src/dug_os.c\<close> stays inside its buffers whatever the operating system answers and
  whatever the user types, and its shell loop ends.
\<close>

section \<open>Computations without a fault\<close>

named_theorems h_safes \<open>rules for computations of the prototype that stay inside their buffers\<close>

definition host_ok :: "'e host \<Rightarrow> bool" where
  "host_ok h \<longleftrightarrow> length (h_cwd h) = CWD_LEN \<and> 256 \<le> length (h_junk h)"


text \<open>A state in which a copy hangs: a destination has just been created, and copying a source into it
  does not end.\<close>

definition copy_stuck :: "'e os \<Rightarrow> 'e host \<Rightarrow> bool" where
  "copy_stuck os h \<longleftrightarrow>
     (\<exists>f g e. os_content os f e \<noteq> None \<and> os_create os g e = Some (h_env h) \<and> copy_loop os f g 0 (h_env h) = None)"

definition h_safe :: "'e os \<Rightarrow> ('a, 'e host) outcome \<Rightarrow> bool" where
  "h_safe os m \<longleftrightarrow> runs m (\<lambda>_. host_ok) (\<lambda>s h'. s = Blocked \<and> copy_stuck os h')"

lemma h_safe_Ret [h_safes]: "host_ok h \<Longrightarrow> h_safe os (Ret a h)"
  and h_safe_Blocked [h_safes]: "copy_stuck os h \<Longrightarrow> h_safe os (Stop Blocked h)"
  by (simp_all add: h_safe_def)

lemma h_safe_bnd [h_safes]: "h_safe os m \<Longrightarrow> (\<And>a h. host_ok h \<Longrightarrow> h_safe os (f a h)) \<Longrightarrow> h_safe os (bnd m f)"
  by (cases m) (auto simp: h_safe_def)

lemma h_safe_chk: "x \<noteq> None \<Longrightarrow> (\<And>a. x = Some a \<Longrightarrow> h_safe os (f a h)) \<Longrightarrow> h_safe os (bnd (chk x h) f)"
  by (cases x) simp_all

lemma h_env_pr [simp]: "h_env (pr s h) = h_env h"
  by (simp add: pr_def)

lemma host_ok_upd [simp]:
  "host_ok (pr s h) = host_ok h" "host_ok (h_err c s h) = host_ok h" "host_ok (h\<lparr>h_env := e\<rparr>) = host_ok h"
  "host_ok (h\<lparr>h_in := i\<rparr>) = host_ok h" "host_ok (h\<lparr>shutdown_started := n\<rparr>) = host_ok h" "host_ok (h\<lparr>os_running := m\<rparr>) = host_ok h"
  "host_ok (h\<lparr>shutdown_started := n, os_running := m\<rparr>) = host_ok h"
  by (simp_all add: host_ok_def pr_def h_err_def)

section \<open>Helpers of the prototype\<close>

lemma trim_defined:
  assumes "terminated s"
  shows "\<exists>i b. h_trim s = Some (i, b) \<and> terminated (drop i b) \<and> i < length b \<and> length b = length s"
proof -
  obtain q where s: "s = cstr s @ NUL # q" using cstr_decomp [OF assms] by blast
  obtain b where "h_trim (cstr s @ NUL # q) = Some (length (takeWhile blank (cstr s)), kept (cstr s) @ NUL # b)"
    "length (kept (cstr s) @ NUL # b) = length (cstr s @ NUL # q)"
    using h_trim_eq [of "cstr s" q] by auto
  then show ?thesis using s by (auto simp: kept_trimmed)
qed

lemma fgets_defined: "h_fgets buf n h = Some (b, h') \<Longrightarrow> terminated b \<and> (host_ok h \<longrightarrow> host_ok h')"
  by (auto simp: h_fgets_def Let_def split: if_splits prod.splits)

lemma scan_while_defined:
  "terminated (drop p buf) \<Longrightarrow> \<not> P NUL \<Longrightarrow> \<exists>i. scan_while P buf p = Some i \<and> terminated (drop i buf)"
proof (induction P buf p rule: scan_while.induct)
  case (1 P buf p)
  then obtain c where c: "peek buf p = Some c" "drop p buf = c # drop (Suc p) buf"
    by (cases "drop p buf") (auto dest: peek_drop)
  show ?case
  proof (cases "P c")
    case True
    then have "terminated (drop (p + 1) buf)" using "1.prems" c by auto
    then show ?thesis using "1.IH" [OF c(1) True] "1.prems" c True by (subst scan_while.simps) simp
  next
    case False
    then show ?thesis using "1.prems" c by (subst scan_while.simps) simp
  qed
qed

lemma terminated_later: "terminated (drop q b) \<Longrightarrow> i \<le> q \<Longrightarrow> terminated (drop i b)"
  by (metis drop_drop in_set_dropD le_add_diff_inverse2 terminated_def)

lemma terminated_update: "terminated b \<Longrightarrow> terminated (b[e := NUL])"
  by (induction b arbitrary: e) (auto split: nat.splits)

lemma terminated_cut: "terminated (drop i b) \<Longrightarrow> terminated (drop i (b[e := NUL]))"
  by (cases "i \<le> e") (simp_all add: drop_update_swap terminated_update)

lemma strtok_defined:
  assumes "terminated (drop p buf)" and "NUL \<notin> D"
  shows "\<exists>r b. strtok D buf p = Some (r, b) \<and> (b = buf \<or> (\<exists>e. b = buf[e := NUL])) \<and>
    (\<forall>i q. r = Some (i, q) \<longrightarrow> terminated (drop i b) \<and> terminated (drop q b))"
proof -
  obtain i where i: "scan_while (\<lambda>c. c \<in> D) buf p = Some i" "terminated (drop i buf)"
    using scan_while_defined [of p buf "\<lambda>c. c \<in> D"] assms by blast
  obtain e where e: "scan_while (\<lambda>c. c \<noteq> NUL \<and> c \<notin> D) buf i = Some e" "terminated (drop e buf)"
    using scan_while_defined [OF i(2), of "\<lambda>c. c \<noteq> NUL \<and> c \<notin> D"] by blast
  have il: "i < length buf" and el: "e < length buf" and ie: "i \<le> e"
    using scan_while_Some [OF i(1)] scan_while_Some [OF e(1)] by auto
  have "terminated (drop (e + 1) (buf[e := NUL]))" if "buf ! e \<noteq> NUL"
    using e(2) el that by (simp add: Cons_nth_drop_Suc [symmetric] del: drop_Suc)
  moreover have "terminated (drop i (buf[e := NUL]))" using terminated_cut [OF i(2)] .
  ultimately show ?thesis using i e il el by (auto simp: strtok_def peek_def poke_def)
qed


lemma show_lines_defined: "terminated (drop p buf) \<Longrightarrow> show_lines buf p \<noteq> None"
proof (induction buf p rule: show_lines.induct)
  case (1 buf p)
  obtain r b where b: "strtok {CHR 0x0A} buf p = Some (r, b)"
    "\<forall>i q. r = Some (i, q) \<longrightarrow> terminated (drop i b) \<and> terminated (drop q b)"
    using strtok_defined [OF "1.prems", of "{CHR 0x0A}"] by auto
  show ?case
  proof (cases r)
    case None
    then show ?thesis using b by (subst show_lines.simps) simp
  next
    case (Some x)
    obtain i q where "x = (i, q)" by fastforce
    then show ?thesis using b Some "1.IH" by (subst show_lines.simps) auto
  qed
qed

section \<open>Commands\<close>

lemma refresh_safe [h_safes]: "host_ok h \<Longrightarrow> h_safe os (h_refresh_cwd os h)"
  by (auto simp: h_refresh_cwd_def h_safe_def host_ok_def kstrncpy_eq CWD_LEN_def split: option.splits)

lemma enter_safe [h_safes]: "host_ok h \<Longrightarrow> h_safe os (h_enter_lines os f line h)"
proof (induction os f line h rule: h_enter_lines.induct)
  case (1 os f line h)
  show ?case
  proof (cases "h_fgets line 256 h")
    case None
    then show ?thesis using "1.prems" by (subst h_enter_lines.simps) (simp add: h_safes)
  next
    case (Some x)
    obtain l j where x: "x = (l, j)" by fastforce
    then have l: "terminated l" "host_ok j" using fgets_defined [of line 256 h l j] Some "1.prems" by auto
    obtain i b where t: "h_trim l = Some (i, b)" "terminated (drop i b)" using trim_defined [OF l(1)] by auto
    obtain r where r: "kstrcmp (drop i b) (lit ''.'') = Some r" using kstrcmp_defined [OF t(2)] terminated_lit by blast
    have "h_safe os (h_enter_lines os f b (pr ''  > '' (j\<lparr>h_env := e\<rparr>)))" if "r \<noteq> 0" "e = os_write os f (cstr b) (h_env j)" for e
      using "1.IH" [OF Some x [symmetric], of "(i, b)" j r j] t r l that by simp
    then show ?thesis using Some x t r l by (subst h_enter_lines.simps) (simp add: h_safes)
  qed
qed

lemma read_safe [h_safes]: "host_ok h \<Longrightarrow> h_safe os (h_read_loop os f pos h)"
proof (induction "length (the (os_content os f (h_env h))) - pos" arbitrary: pos h rule: less_induct)
  case less
  show ?case
    using less
    by (subst h_read_loop.simps)
      (auto simp: Let_def FILE_BUF_def split: option.splits intro!: h_safe_chk h_safe_Ret show_lines_defined)
qed

lemma answer_safe [h_safes]:
  assumes "host_ok h"
  shows "h_safe os (h_answer h)"
proof (cases "h_fgets (take 8 (h_junk h)) 8 h")
  case (Some x)
  obtain l j where x: "x = (l, j)" by fastforce
  then have l: "terminated l" "host_ok j" using fgets_defined [of _ 8 h l j] Some assms by auto
  obtain i b where b: "h_trim l = Some (i, b)" "terminated (drop i b)" "i < length b" using trim_defined [OF l(1)] by auto
  have "terminated b" using b(2) by (meson in_set_dropD terminated_def)
  then obtain k c where c: "h_trim b = Some (k, c)" "k < length c" using trim_defined by blast
  show ?thesis using Some x l b c by (auto simp: h_answer_def peek_def intro!: h_safes)
qed (simp add: h_answer_def h_safes assms)

lemma cmds_safe [h_safes]:
  assumes "host_ok h"
  shows "h_safe os (h_cmd_pwd os h)" "h_safe os (h_cmd_fwrite os a h)" "h_safe os (h_cmd_fread os a h)"
    "h_safe os (h_cmd_fedit os a h)" "h_safe os (h_cmd_fdel os a h)" "h_safe os (h_cmd_rename os a b h)"
    "h_safe os (h_cmd_mkdir os a h)" "h_safe os (h_cmd_cd os a h)"
    "h_safe os (h_cmd_rmdir os a h)" "h_safe os (h_cmd_ls os h)"
  unfolding h_cmd_pwd_def h_cmd_fwrite_def h_cmd_fread_def h_cmd_fedit_def h_cmd_fdel_def h_cmd_rename_def
    h_cmd_mkdir_def h_cmd_cd_def h_cmd_rmdir_def h_cmd_ls_def
  using assms by (auto intro!: h_safes simp: Let_def split: option.splits bool.splits)

lemma copy_stuckI:
  "os_content os f e = Some c \<Longrightarrow> os_create os g e = Some e' \<Longrightarrow> copy_loop os f g 0 e' = None \<Longrightarrow>
   copy_stuck os (h\<lparr>h_env := e'\<rparr>)"
  unfolding copy_stuck_def by force

lemma copy_safe [h_safes]: "host_ok h \<Longrightarrow> h_safe os (h_cmd_copy os a b h)"
  using copy_stuckI [of os "the a" "h_env h" _ "the b"] unfolding h_cmd_copy_def
  by (auto intro!: h_safes split: option.splits)





section \<open>The shell loop and main\<close>








end
