(* ===== verification/Mlist.thy ===== *)
theory Mlist
  imports Prelude
begin

text \<open>
  Singly linked lists inside a table, as the MINIX sources use them for ready queues, caller queues and memory holes: a
  pointer is an index into the table and \<open>None\<close> is the nil pointer.
\<close>

type_synonym pptr = "nat option"

section \<open>Linked lists\<close>

text \<open>The segment of a list from a pointer up to another, following a link field.\<close>

fun seg :: "(nat \<Rightarrow> pptr) \<Rightarrow> pptr \<Rightarrow> nat list \<Rightarrow> pptr \<Rightarrow> bool" where
  "seg nx p [] z \<longleftrightarrow> p = z"
| "seg nx p (x # xs) z \<longleftrightarrow> p = Some x \<and> seg nx (nx x) xs z"

lemma seg_append: "seg nx p (xs @ ys) z \<longleftrightarrow> (\<exists>y. seg nx p xs y \<and> seg nx y ys z)"
  by (induction xs arbitrary: p) auto

lemma seg_cong: "(\<And>x. x \<in> set xs \<Longrightarrow> nx x = ny x) \<Longrightarrow> seg nx p xs z = seg ny p xs z"
  by (induction xs arbitrary: p) auto

lemma seg_fun_upd: "a \<notin> set xs \<Longrightarrow> seg (nx(a := v)) p xs z = seg nx p xs z"
  by (rule seg_cong) auto

lemma seg_last:
  "xs \<noteq> [] \<Longrightarrow> distinct xs \<Longrightarrow> seg nx p xs y \<Longrightarrow> seg (nx(last xs := z)) p xs z"
  by (induction xs arbitrary: p) (auto split: if_splits)

lemma seg_None_eq: "seg nx None xs None \<longleftrightarrow> xs = []"
  by (cases xs) auto

lemma seg_hd: "xs \<noteq> [] \<Longrightarrow> seg nx p xs z \<Longrightarrow> p = Some (hd xs)"
  by (cases xs) auto

text \<open>Taking an element out of a list and putting one at its end.\<close>

lemma seg_cut:
  assumes "seg nx p (as @ x # bs) None" and d: "distinct (as @ x # bs)"
  shows "seg (if as = [] then nx else nx(last as := nx x)) (if as = [] then nx x else p) (as @ bs) None"
proof -
  have sg: "seg nx p as (Some x)" "seg nx (nx x) bs None" using assms(1) by (auto simp: seg_append)
  show ?thesis
  proof (cases "as = []")
    case False
    then have "last as \<notin> set bs" using d last_in_set [OF False] by (auto simp del: last_in_set)
    then have "seg (nx(last as := nx x)) (nx x) bs None" using sg(2) by (simp add: seg_fun_upd)
    moreover have "seg (nx(last as := nx x)) p as (nx x)" using seg_last [OF False _ sg(1)] d by simp
    ultimately show ?thesis using False by (auto simp: seg_append)
  qed (use sg in simp)
qed

lemma seg_snoc:
  assumes "seg nx p xs None" "distinct xs" "x \<notin> set xs"
  shows "seg ((if xs = [] then nx else nx(last xs := Some x))(x := None)) (if xs = [] then Some x else p) (xs @ [x]) None"
proof (cases "xs = []")
  case False
  then have "seg (nx(last xs := Some x)) p xs (Some x)" using seg_last [OF False assms(2,1)] by simp
  then show ?thesis using False assms(3) by (simp add: seg_append seg_fun_upd)
qed simp

definition last_ptr :: "nat list \<Rightarrow> pptr" where
  "last_ptr xs = (if xs = [] then None else Some (last xs))"

lemma seg_to_last: "xs \<noteq> [] \<Longrightarrow> seg nx p xs z \<Longrightarrow> nx (last xs) = z"
  by (induction xs arbitrary: p) (auto split: if_splits)

end
