(* ===== verification/Msched.thy ===== *)
theory Msched
  imports Mlist "HOL-Library.Multiset"
begin

text \<open>
  The process table and the scheduler of the MINIX kernel in \<open>src/reference/minix/kernel\<close>, which the repository
  carries as the reference for DugOS: \<open>enqueue\<close>, \<open>dequeue\<close>, \<open>sched\<close> and \<open>pick_proc\<close> of \<open>proc.c\<close> with the
  linked lists they work on. A pointer to a process is its index in the process table, \<open>None\<close> is \<open>NIL_PROC\<close>; an
  index outside a table is a \<open>Fault\<close>, a loop that never ends is \<open>Blocked\<close> and a kernel panic is \<open>Halted\<close>.
  Priorities and ticks are signed characters in the source and integers here; they stay within a few units
  of the sixteen queues.
\<close>

section \<open>Process table\<close>

definition M_NR_TASKS :: int where "M_NR_TASKS = 4"
definition M_NR_PROCS :: int where "M_NR_PROCS = 64"
definition NR_SCHED_QUEUES :: nat where "NR_SCHED_QUEUES = 16"
definition IDLE_Q :: int where "IDLE_Q = 15"
definition STACK_GUARD :: "32 word" where "STACK_GUARD = 0xDEADBEEF"
definition BILLABLE :: "16 word" where "BILLABLE = 0x04"

record mpriv =
  ms_proc_nr :: int
  ms_id :: nat
  ms_flags :: "16 word"
  ms_trap_mask :: "16 word"
  ms_ipc_to :: "16 word list"
  ms_notify_pending :: "16 word list"
  ms_int_pending :: "32 word"
  ms_sig_pending :: "32 word"
  ms_stack_word :: "32 word"

record mproc =
  mp_nr :: int
  mp_priv :: nat
  mp_rts_flags :: "8 word"
  mp_priority :: int
  mp_max_priority :: int
  mp_ticks_left :: int
  mp_quantum_size :: int
  mp_data_phys :: "32 word"
  mp_data_vir :: "32 word"
  mp_stack_vir :: "32 word"
  mp_stack_len :: "32 word"
  mp_nextready :: pptr
  mp_caller_q :: pptr
  mp_q_link :: pptr
  mp_messbuf :: "32 word"
  mp_getfrom :: int
  mp_sendto :: int

record mkernel =
  mprocs :: "mproc list"
  mprivs :: "mpriv list"
  rdy_head :: "pptr list"
  rdy_tail :: "pptr list"
  proc_ptr :: nat
  next_ptr :: pptr
  bill_ptr :: nat
  sched_prev :: pptr
  k_reenter :: int
  m_shutdown :: bool
  intr_on :: bool
  mmem :: "32 word \<Rightarrow> 8 word"
  m_realtime :: "32 word"
  kstack_m :: "32 word"

text \<open>\<open>rp->...\<close> and \<open>priv(rp)->...\<close>, and an assignment through a process pointer.\<close>

definition proc_at :: "nat \<Rightarrow> mkernel \<Rightarrow> mproc" where
  "proc_at p s = mprocs s ! p"

definition priv_of :: "nat \<Rightarrow> mkernel \<Rightarrow> mpriv" where
  "priv_of p s = mprivs s ! mp_priv (proc_at p s)"

text \<open>\<open>rp->p_priv\<close> is an index into the table of privilege structures; \<open>main\<close> leaves it NULL in a slot that no
  process has used yet, and an index outside the table stands for that. Reading through it is a \<open>Fault\<close>.
  (\<open>pick_proc\<close> reads through it for processes in ready queues, which are in use and have a structure by \<open>tables_ok\<close>.)\<close>

definition has_priv :: "nat \<Rightarrow> mkernel \<Rightarrow> bool" where
  "has_priv p s \<longleftrightarrow> mp_priv (proc_at p s) < length (mprivs s)"

definition upd :: "nat \<Rightarrow> (mproc \<Rightarrow> mproc) \<Rightarrow> mkernel \<Rightarrow> mkernel" where
  "upd p f s = s\<lparr>mprocs := (mprocs s)[p := f (mprocs s ! p)]\<rparr>"

definition iskernelp :: "nat \<Rightarrow> mkernel \<Rightarrow> bool" where
  "iskernelp p s \<longleftrightarrow> mp_nr (proc_at p s) < 0"

section \<open>Policy\<close>

definition penalise :: "int \<Rightarrow> mproc \<Rightarrow> mproc" where
  "penalise d p =
     (let v = mp_priority p + d
      in p\<lparr>mp_priority := (if v < mp_max_priority p then mp_max_priority p
                           else if v > IDLE_Q - 1 then IDLE_Q - 1 else v)\<rparr>)"

definition sched :: "nat \<Rightarrow> mkernel \<Rightarrow> (int \<times> bool) \<times> mkernel" where
  "sched rp s =
     (let time_left = mp_ticks_left (proc_at rp s) > 0;
          penalty = (if time_left then 0 else if sched_prev s = Some rp then 1 else - 1);
          s = (if time_left then s
               else (upd rp (\<lambda>p. p\<lparr>mp_ticks_left := mp_quantum_size p\<rparr>) s)\<lparr>sched_prev := Some rp\<rparr>);
          s = (if penalty \<noteq> 0 \<and> \<not> iskernelp rp s then upd rp (penalise penalty) s else s)
      in ((mp_priority (proc_at rp s), time_left), s))"

fun pick_from :: "nat list \<Rightarrow> mkernel \<Rightarrow> mkernel" where
  "pick_from [] s = s"
| "pick_from (q # qs) s =
     (case rdy_head s ! q of
        None \<Rightarrow> pick_from qs s
      | Some rp \<Rightarrow> s\<lparr>next_ptr := Some rp,
                     bill_ptr := (if ms_flags (priv_of rp s) AND BILLABLE \<noteq> 0 then rp else bill_ptr s)\<rparr>)"

definition pick_proc :: "mkernel \<Rightarrow> mkernel" where
  "pick_proc s = pick_from [0..<NR_SCHED_QUEUES] s"

section \<open>Queues\<close>

definition set_next :: "pptr \<Rightarrow> mproc \<Rightarrow> mproc" where
  "set_next x p = p\<lparr>mp_nextready := x\<rparr>"

definition enqueue :: "nat \<Rightarrow> mkernel \<Rightarrow> (unit, mkernel) outcome" where
  "enqueue rp s =
     (let ((queue, front), s) = sched rp s; q = nat queue
      in if queue < 0 \<or> NR_SCHED_QUEUES \<le> q then Stop Fault s
         else if rdy_head s ! q = None then
           Ret () (pick_proc (upd rp (set_next None)
             (s\<lparr>rdy_head := (rdy_head s)[q := Some rp], rdy_tail := (rdy_tail s)[q := Some rp]\<rparr>)))
         else if front then
           Ret () (pick_proc ((upd rp (set_next (rdy_head s ! q)) s)\<lparr>rdy_head := (rdy_head s)[q := Some rp]\<rparr>))
         else
           (case rdy_tail s ! q of
              None \<Rightarrow> Stop Fault s
            | Some t \<Rightarrow>
                Ret () (pick_proc (upd rp (set_next None)
                  ((upd t (set_next (Some rp)) s)\<lparr>rdy_tail := (rdy_tail s)[q := Some rp]\<rparr>)))))"

text \<open>
  The loop of \<open>dequeue\<close>. Its variable \<open>xpp\<close> is \<open>&rdy_head[q]\<close> when \<open>prev_xp\<close> is nil and \<open>&prev_xp->p_nextready\<close>
  otherwise; \<open>link_at\<close> reads through it and \<open>set_link_at\<close> writes.
\<close>

definition link_at :: "nat \<Rightarrow> pptr \<Rightarrow> mkernel \<Rightarrow> pptr" where
  "link_at q prev s = (case prev of None \<Rightarrow> rdy_head s ! q | Some p \<Rightarrow> mp_nextready (proc_at p s))"

definition set_link_at :: "nat \<Rightarrow> pptr \<Rightarrow> pptr \<Rightarrow> mkernel \<Rightarrow> mkernel" where
  "set_link_at q prev x s =
     (case prev of None \<Rightarrow> s\<lparr>rdy_head := (rdy_head s)[q := x]\<rparr> | Some p \<Rightarrow> upd p (set_next x) s)"

definition unlink :: "nat \<Rightarrow> nat \<Rightarrow> pptr \<Rightarrow> mkernel \<Rightarrow> mkernel" where
  "unlink q rp prev s =
     (let s = set_link_at q prev (mp_nextready (proc_at rp s)) s;
          s = (if rdy_tail s ! q = Some rp then s\<lparr>rdy_tail := (rdy_tail s)[q := prev]\<rparr> else s)
      in if rp = proc_ptr s \<or> Some rp = next_ptr s then pick_proc s else s)"

partial_function (option) dequeue_loop :: "nat \<Rightarrow> nat \<Rightarrow> pptr \<Rightarrow> mkernel \<Rightarrow> mkernel option" where
  "dequeue_loop q rp prev s =
     (case link_at q prev s of
        None \<Rightarrow> Some s
      | Some x \<Rightarrow> if x = rp then Some (unlink q rp prev s) else dequeue_loop q rp (Some x) s)"

definition dequeue :: "nat \<Rightarrow> mkernel \<Rightarrow> (unit, mkernel) outcome" where
  "dequeue rp s =
     (let queue = mp_priority (proc_at rp s); q = nat queue
      in if iskernelp rp s \<and> \<not> has_priv rp s then Stop Fault s
         else if iskernelp rp s \<and> ms_stack_word (priv_of rp s) \<noteq> STACK_GUARD then Stop Halted s
         else if queue < 0 \<or> NR_SCHED_QUEUES \<le> q then Stop Fault s
         else (case dequeue_loop q rp None s of None \<Rightarrow> Stop Blocked s | Some s \<Rightarrow> Ret () s))"

text \<open>\<open>lock\<close> and \<open>unlock\<close> are \<open>intr_disable\<close> and \<open>intr_enable\<close>.\<close>

definition lock_enqueue :: "nat \<Rightarrow> mkernel \<Rightarrow> (unit, mkernel) outcome" where
  "lock_enqueue rp s = bnd (enqueue rp (s\<lparr>intr_on := False\<rparr>)) (\<lambda>_ s. Ret () (s\<lparr>intr_on := True\<rparr>))"

definition lock_dequeue :: "nat \<Rightarrow> mkernel \<Rightarrow> (unit, mkernel) outcome" where
  "lock_dequeue rp s = bnd (dequeue rp (s\<lparr>intr_on := False\<rparr>)) (\<lambda>_ s. Ret () (s\<lparr>intr_on := True\<rparr>))"

text \<open>
  The first instructions of \<open>restart\<close> in \<open>mpx386.s\<close>, with which every system call and interrupt ends: the process
  that was scheduled, if one was, becomes the running process.
\<close>

definition chosen :: "mkernel \<Rightarrow> nat" where
  "chosen s = (case next_ptr s of Some p \<Rightarrow> p | None \<Rightarrow> proc_ptr s)"

definition restart :: "mkernel \<Rightarrow> mkernel" where
  "restart s = s\<lparr>proc_ptr := chosen s, next_ptr := None\<rparr>"

end
