(* ===== verification/Mipc.thy ===== *)
theory Mipc
  imports Msched
begin

text \<open>
  Message passing of the MINIX kernel, \<open>src/reference/minix/kernel/proc.c\<close>: \<open>mini_send\<close>, \<open>mini_receive\<close>, \<open>mini_notify\<close>,
  their locked variants and \<open>sys_call\<close>. Physical memory is a function from addresses to bytes, and \<open>cp_mess\<close>
  copies a message the way the assembly routine does, word by word. Error numbers are the negative values the
  kernel is compiled with; diagnostics of \<open>kprintf\<close> are left out.
\<close>

section \<open>Constants\<close>

definition M_SLOT_FREE :: "8 word" where "M_SLOT_FREE = 0x01"
definition SENDING :: "8 word" where "SENDING = 0x04"
definition RECEIVING :: "8 word" where "RECEIVING = 0x08"
definition SENDREC_BUSY :: "16 word" where "SENDREC_BUSY = 0x20"
definition NON_BLOCKING :: "32 word" where "NON_BLOCKING = 0x10"
definition SYSCALL_FUNC :: "32 word" where "SYSCALL_FUNC = 0x0F"
definition SYSCALL_FLAGS :: "32 word" where "SYSCALL_FLAGS = 0xF0"
definition SEND :: "32 word" where "SEND = 1"
definition RECEIVE :: "32 word" where "RECEIVE = 2"
definition SENDREC :: "32 word" where "SENDREC = 3"
definition NOTIFY :: "32 word" where "NOTIFY = 4"
definition ECHO :: "32 word" where "ECHO = 8"
definition CHECK_PTR :: "32 word" where "CHECK_PTR = 0x0B"
definition CHECK_DST :: "32 word" where "CHECK_DST = 0x05"
definition ANY :: int where "ANY = 0x7ace"
definition SYSTEM :: int where "SYSTEM = -2"
definition M_HARDWARE :: int where "M_HARDWARE = -1"
definition NOTIFY_MESSAGE :: int where "NOTIFY_MESSAGE = 0x1000"
definition M_NR_SYS_PROCS :: nat where "M_NR_SYS_PROCS = 32"
definition MESS_SIZE :: "32 word" where "MESS_SIZE = 36"
definition CLICK_SHIFT :: nat where "CLICK_SHIFT = 10"

definition M_OK :: int where "M_OK = 0"
definition EFAULT :: int where "EFAULT = -14"
definition ELOCKED :: int where "ELOCKED = -101"
definition EBADCALL :: int where "EBADCALL = -102"
definition EBADSRCDST :: int where "EBADSRCDST = -103"
definition ECALLDENIED :: int where "ECALLDENIED = -104"
definition EDEADDST :: int where "EDEADDST = -105"
definition ENOTREADY :: int where "ENOTREADY = -106"

section \<open>Process numbers and bit maps\<close>

definition isokprocn :: "int \<Rightarrow> bool" where
  "isokprocn n \<longleftrightarrow> 0 \<le> n + M_NR_TASKS \<and> n + M_NR_TASKS < M_NR_PROCS + M_NR_TASKS"

definition proc_addr :: "int \<Rightarrow> nat option" where
  "proc_addr n = (if isokprocn n then Some (nat (n + M_NR_TASKS)) else None)"

definition get_sys_bit :: "16 word list \<Rightarrow> nat \<Rightarrow> bool option" where
  "get_sys_bit m b = (if b div 16 < length m then Some (bit (m ! (b div 16)) (b mod 16)) else None)"

definition set_sys_bit :: "nat \<Rightarrow> 16 word list \<Rightarrow> 16 word list option" where
  "set_sys_bit b m = (if b div 16 < length m then Some (m[b div 16 := set_bit (b mod 16) (m ! (b div 16))]) else None)"

definition upd_priv :: "nat \<Rightarrow> (mpriv \<Rightarrow> mpriv) \<Rightarrow> mkernel \<Rightarrow> mkernel" where
  "upd_priv i f s = s\<lparr>mprivs := (mprivs s)[i := f (mprivs s ! i)]\<rparr>"

section \<open>Messages\<close>

definition load32 :: "32 word \<Rightarrow> (32 word \<Rightarrow> 8 word) \<Rightarrow> 32 word" where
  "load32 a m = ucast (m a) OR push_bit 8 (ucast (m (a + 1))) OR push_bit 16 (ucast (m (a + 2))) OR push_bit 24 (ucast (m (a + 3)))"

definition store32 :: "32 word \<Rightarrow> 32 word \<Rightarrow> (32 word \<Rightarrow> 8 word) \<Rightarrow> 32 word \<Rightarrow> 8 word" where
  "store32 a w m = m(a := ucast w, a + 1 := ucast (drop_bit 8 w), a + 2 := ucast (drop_bit 16 w), a + 3 := ucast (drop_bit 24 w))"

definition cp_mess :: "32 word \<Rightarrow> 32 word \<Rightarrow> 32 word \<Rightarrow> (32 word \<Rightarrow> 8 word) \<Rightarrow> 32 word \<Rightarrow> 8 word" where
  "cp_mess src s d m =
     fold (\<lambda>i m. store32 (d + of_nat (4 * i)) (load32 (s + of_nat (4 * i)) m) m) [1..<9] (store32 d src m)"

definition phys :: "nat \<Rightarrow> 32 word \<Rightarrow> mkernel \<Rightarrow> 32 word" where
  "phys p off s = push_bit CLICK_SHIFT (mp_data_phys (proc_at p s)) + off"

definition CopyMess :: "int \<Rightarrow> nat \<Rightarrow> 32 word \<Rightarrow> nat \<Rightarrow> 32 word \<Rightarrow> mkernel \<Rightarrow> mkernel" where
  "CopyMess src sp sm dp dm s = s\<lparr>mmem := cp_mess (word_of_int src) (phys sp sm s) (phys dp dm s) (mmem s)\<rparr>"

text \<open>
  The local variable \<open>m\<close> of \<open>mini_receive\<close> and \<open>mini_notify\<close> is at \<open>kstack_m\<close> in the data segment of the kernel; \<open>m_type\<close> is at
  offset 4 of a message, \<open>NOTIFY_ARG\<close> at 20 and \<open>NOTIFY_TIMESTAMP\<close> at 24.
\<close>

definition poke_m :: "32 word \<Rightarrow> 32 word \<Rightarrow> mkernel \<Rightarrow> mkernel" where
  "poke_m off w s = s\<lparr>mmem := store32 (phys (nat (M_HARDWARE + M_NR_TASKS)) (kstack_m s + off) s) w (mmem s)\<rparr>"

definition BuildMess :: "int \<Rightarrow> nat \<Rightarrow> mkernel \<Rightarrow> mkernel" where
  "BuildMess src dst_ptr s =
     (let s = poke_m 0 (word_of_int src) s;
          s = poke_m 4 (word_of_int NOTIFY_MESSAGE OR word_of_int (src + M_NR_TASKS)) s;
          s = poke_m 24 (m_realtime s) s
      in if src = M_HARDWARE then
           upd_priv (mp_priv (proc_at dst_ptr s)) (\<lambda>p. p\<lparr>ms_int_pending := 0\<rparr>) (poke_m 20 (ms_int_pending (priv_of dst_ptr s)) s)
         else if src = SYSTEM then
           upd_priv (mp_priv (proc_at dst_ptr s)) (\<lambda>p. p\<lparr>ms_sig_pending := 0\<rparr>) (poke_m 20 (ms_sig_pending (priv_of dst_ptr s)) s)
         else s)"

definition CopyBuilt :: "int \<Rightarrow> nat \<Rightarrow> 32 word \<Rightarrow> mkernel \<Rightarrow> mkernel" where
  "CopyBuilt src dp dm s = CopyMess src (nat (M_HARDWARE + M_NR_TASKS)) (kstack_m s) dp dm s"

section \<open>Sending\<close>

text \<open>
  The deadlock check: does the chain of blocked senders that starts at \<open>xp\<close> reach the caller? \<open>None\<close> is a chain
  that never ends, \<open>Some None\<close> a destination outside the process table.
\<close>

partial_function (option) send_chain :: "nat \<Rightarrow> nat \<Rightarrow> mkernel \<Rightarrow> bool option option" where
  "send_chain caller xp s =
     (if mp_rts_flags (proc_at xp s) AND SENDING = 0 then Some (Some False)
      else case proc_addr (mp_sendto (proc_at xp s)) of
        None \<Rightarrow> Some None
      | Some x \<Rightarrow> if x = caller then Some (Some True) else send_chain caller x s)"

text \<open>A pointer into the caller queue: \<open>&dst->p_caller_q\<close> when \<open>prev\<close> is nil, else \<open>&prev->p_q_link\<close>.\<close>

definition qlink_at :: "nat \<Rightarrow> pptr \<Rightarrow> mkernel \<Rightarrow> pptr" where
  "qlink_at d prev s = (case prev of None \<Rightarrow> mp_caller_q (proc_at d s) | Some p \<Rightarrow> mp_q_link (proc_at p s))"

definition set_qlink_at :: "nat \<Rightarrow> pptr \<Rightarrow> pptr \<Rightarrow> mkernel \<Rightarrow> mkernel" where
  "set_qlink_at d prev x s =
     (case prev of None \<Rightarrow> upd d (\<lambda>p. p\<lparr>mp_caller_q := x\<rparr>) s | Some p \<Rightarrow> upd p (\<lambda>p. p\<lparr>mp_q_link := x\<rparr>) s)"

partial_function (option) queue_end :: "nat \<Rightarrow> pptr \<Rightarrow> mkernel \<Rightarrow> pptr option" where
  "queue_end d prev s =
     (case qlink_at d prev s of None \<Rightarrow> Some prev | Some x \<Rightarrow> queue_end d (Some x) s)"

definition waiting_for :: "nat \<Rightarrow> nat \<Rightarrow> mkernel \<Rightarrow> bool" where
  "waiting_for d caller s \<longleftrightarrow>
     mp_rts_flags (proc_at d s) AND (RECEIVING OR SENDING) = RECEIVING \<and>
     (mp_getfrom (proc_at d s) = ANY \<or> mp_getfrom (proc_at d s) = mp_nr (proc_at caller s))"

definition clear_flag :: "8 word \<Rightarrow> mproc \<Rightarrow> mproc" where
  "clear_flag f p = p\<lparr>mp_rts_flags := mp_rts_flags p AND NOT f\<rparr>"

definition set_flag :: "8 word \<Rightarrow> mproc \<Rightarrow> mproc" where
  "set_flag f p = p\<lparr>mp_rts_flags := mp_rts_flags p OR f\<rparr>"

text \<open>\<open>if ((rp->p_rts_flags &= ~flag) == 0) enqueue(rp)\<close> and \<open>if (rp->p_rts_flags == 0) dequeue(rp)\<close>.\<close>

definition unblock :: "8 word \<Rightarrow> nat \<Rightarrow> mkernel \<Rightarrow> (unit, mkernel) outcome" where
  "unblock f rp s =
     (let s = upd rp (clear_flag f) s in if mp_rts_flags (proc_at rp s) = 0 then enqueue rp s else Ret () s)"

definition unready :: "nat \<Rightarrow> mkernel \<Rightarrow> (unit, mkernel) outcome" where
  "unready rp s = (if mp_rts_flags (proc_at rp s) = 0 then dequeue rp s else Ret () s)"

definition block_sender :: "nat \<Rightarrow> nat \<Rightarrow> int \<Rightarrow> 32 word \<Rightarrow> mkernel \<Rightarrow> (int, mkernel) outcome" where
  "block_sender caller d dst m_ptr s =
     bnd (unready caller (upd caller (\<lambda>p. p\<lparr>mp_messbuf := m_ptr\<rparr>) s)) (\<lambda>_ s.
     let s = upd caller (\<lambda>p. (set_flag SENDING p)\<lparr>mp_sendto := dst\<rparr>) s in
     case queue_end d None s of
       None \<Rightarrow> Stop Blocked s
     | Some prev \<Rightarrow> Ret M_OK (upd caller (\<lambda>p. p\<lparr>mp_q_link := None\<rparr>) (set_qlink_at d prev (Some caller) s)))"

definition mini_send :: "nat \<Rightarrow> int \<Rightarrow> 32 word \<Rightarrow> 32 word \<Rightarrow> mkernel \<Rightarrow> (int, mkernel) outcome" where
  "mini_send caller dst m_ptr flags s =
     (case proc_addr dst of
        None \<Rightarrow> Stop Fault s
      | Some d \<Rightarrow>
          (case send_chain caller d s of
             None \<Rightarrow> Stop Blocked s
           | Some None \<Rightarrow> Stop Fault s
           | Some (Some True) \<Rightarrow> Ret ELOCKED s
           | Some (Some False) \<Rightarrow>
               if waiting_for d caller s then
                 bnd (unblock RECEIVING d (CopyMess (mp_nr (proc_at caller s)) caller m_ptr d (mp_messbuf (proc_at d s)) s)) (\<lambda>_ s.
                 Ret M_OK s)
               else if flags AND NON_BLOCKING = 0 then block_sender caller d dst m_ptr s
               else Ret ENOTREADY s))"

section \<open>Receiving\<close>

text \<open>
  The scan of the pending notifications: of every chunk of the bit map only the lowest bit that is set is looked at.
  The result is the chunk, the bit and the process number of the source.
\<close>

fun notify_scan :: "nat list \<Rightarrow> int \<Rightarrow> 16 word list \<Rightarrow> mkernel \<Rightarrow> (nat \<times> nat \<times> int) option" where
  "notify_scan [] src pend s = None"
| "notify_scan (c # cs) src pend s =
     (case filter (bit (pend ! c)) [0..<16] of
        [] \<Rightarrow> notify_scan cs src pend s
      | i # _ \<Rightarrow>
          if M_NR_SYS_PROCS \<le> c * 16 + i then None
          else let nr = ms_proc_nr (mprivs s ! (c * 16 + i))
               in if src \<noteq> ANY \<and> src \<noteq> nr then notify_scan cs src pend s else Some (c, i, nr))"

partial_function (option) find_sender :: "nat \<Rightarrow> int \<Rightarrow> pptr \<Rightarrow> mkernel \<Rightarrow> (pptr \<times> nat) option option" where
  "find_sender caller src prev s =
     (case qlink_at caller prev s of
        None \<Rightarrow> Some None
      | Some x \<Rightarrow> if src = ANY \<or> src = mp_nr (proc_at x s) then Some (Some (prev, x)) else find_sender caller src (Some x) s)"

definition take_notification :: "nat \<Rightarrow> int \<Rightarrow> mkernel \<Rightarrow> (nat \<times> nat \<times> int) option" where
  "take_notification caller src s =
     (if ms_flags (priv_of caller s) AND SENDREC_BUSY = 0
      then notify_scan [0..<2] src (ms_notify_pending (priv_of caller s)) s else None)"

definition deliver_notification :: "nat \<Rightarrow> 32 word \<Rightarrow> nat \<times> nat \<times> int \<Rightarrow> mkernel \<Rightarrow> mkernel" where
  "deliver_notification caller m_ptr n s =
     (case n of (c, i, nr) \<Rightarrow>
        let s = upd_priv (mp_priv (proc_at caller s))
                  (\<lambda>p. p\<lparr>ms_notify_pending := (ms_notify_pending p)[c := unset_bit i (ms_notify_pending p ! c)]\<rparr>) s
        in CopyBuilt nr caller m_ptr (BuildMess nr caller s))"

definition accept_sender :: "nat \<Rightarrow> 32 word \<Rightarrow> pptr \<Rightarrow> nat \<Rightarrow> mkernel \<Rightarrow> (int, mkernel) outcome" where
  "accept_sender caller m_ptr prev x s =
     bnd (unblock SENDING x (CopyMess (mp_nr (proc_at x s)) x (mp_messbuf (proc_at x s)) caller m_ptr s)) (\<lambda>_ s.
     Ret M_OK (set_qlink_at caller prev (mp_q_link (proc_at x s)) s))"

definition block_receiver :: "nat \<Rightarrow> int \<Rightarrow> 32 word \<Rightarrow> 32 word \<Rightarrow> mkernel \<Rightarrow> (int, mkernel) outcome" where
  "block_receiver caller src m_ptr flags s =
     (if flags AND NON_BLOCKING = 0 then
        bnd (unready caller (upd caller (\<lambda>p. p\<lparr>mp_getfrom := src, mp_messbuf := m_ptr\<rparr>) s)) (\<lambda>_ s.
        Ret M_OK (upd caller (set_flag RECEIVING) s))
      else Ret ENOTREADY s)"

definition mini_receive :: "nat \<Rightarrow> int \<Rightarrow> 32 word \<Rightarrow> 32 word \<Rightarrow> mkernel \<Rightarrow> (int, mkernel) outcome" where
  "mini_receive caller src m_ptr flags s =
     (if mp_rts_flags (proc_at caller s) AND SENDING = 0 then
        if \<not> has_priv caller s then Stop Fault s
        else (case take_notification caller src s of
           Some n \<Rightarrow> Ret M_OK (deliver_notification caller m_ptr n s)
         | None \<Rightarrow>
             (case find_sender caller src None s of
                None \<Rightarrow> Stop Blocked s
              | Some (Some (prev, x)) \<Rightarrow> accept_sender caller m_ptr prev x s
              | Some None \<Rightarrow> block_receiver caller src m_ptr flags s))
      else block_receiver caller src m_ptr flags s)"

section \<open>Notifications\<close>

definition mini_notify :: "nat \<Rightarrow> int \<Rightarrow> mkernel \<Rightarrow> (int, mkernel) outcome" where
  "mini_notify caller dst s =
     (case proc_addr dst of
        None \<Rightarrow> Stop Fault s
      | Some d \<Rightarrow>
          if \<not> has_priv d s then Stop Fault s
          else if waiting_for d caller s \<and> ms_flags (priv_of d s) AND SENDREC_BUSY = 0 then
            (let nr = mp_nr (proc_at caller s); s = BuildMess nr d s
             in bnd (unblock RECEIVING d (CopyBuilt nr d (mp_messbuf (proc_at d s)) s)) (\<lambda>_ s. Ret M_OK s))
          else if \<not> has_priv caller s then Stop Fault s
          else
            bnd (chk (set_sys_bit (ms_id (priv_of caller s)) (ms_notify_pending (priv_of d s))) s) (\<lambda>m s.
            Ret M_OK (upd_priv (mp_priv (proc_at d s)) (\<lambda>p. p\<lparr>ms_notify_pending := m\<rparr>) s)))"

definition lock_notify :: "int \<Rightarrow> int \<Rightarrow> mkernel \<Rightarrow> (int, mkernel) outcome" where
  "lock_notify src dst s =
     (case proc_addr src of
        None \<Rightarrow> Stop Fault s
      | Some p \<Rightarrow>
          if k_reenter s \<ge> 0 then mini_notify p dst s
          else bnd (mini_notify p dst (s\<lparr>intr_on := False\<rparr>)) (\<lambda>r s. Ret r (s\<lparr>intr_on := True\<rparr>)))"

definition lock_send :: "int \<Rightarrow> 32 word \<Rightarrow> mkernel \<Rightarrow> (int, mkernel) outcome" where
  "lock_send dst m_ptr s =
     bnd (mini_send (proc_ptr s) dst m_ptr NON_BLOCKING (s\<lparr>intr_on := False\<rparr>)) (\<lambda>r s. Ret r (s\<lparr>intr_on := True\<rparr>))"

section \<open>System call\<close>

definition bad_pointer :: "nat \<Rightarrow> 32 word \<Rightarrow> mkernel \<Rightarrow> bool" where
  "bad_pointer caller m_ptr s =
     (let p = proc_at caller s; vlo = drop_bit CLICK_SHIFT m_ptr; vhi = drop_bit CLICK_SHIFT (m_ptr + MESS_SIZE - 1)
      in vlo < mp_data_vir p \<or> vlo > vhi \<or> vhi \<ge> mp_stack_vir p + mp_stack_len p)"

text \<open>The checks of a destination: \<open>None\<close> is an access outside a table or through a NULL pointer, otherwise the
  error or zero. The id of the destination is read before the test whether its slot is in use.\<close>

definition check_dst :: "nat \<Rightarrow> int \<Rightarrow> mkernel \<Rightarrow> int option" where
  "check_dst caller dst s = do {
     d \<leftarrow> proc_addr dst;
     id \<leftarrow> (if has_priv d s then Some (ms_id (priv_of d s)) else None);
     allowed \<leftarrow> get_sys_bit (ms_ipc_to (priv_of caller s)) id;
     Some (if \<not> allowed then ECALLDENIED
           else if mp_rts_flags (proc_at d s) = M_SLOT_FREE \<and> \<not> m_shutdown s then EDEADDST else M_OK)
   }"

definition perform :: "32 word \<Rightarrow> 32 word \<Rightarrow> nat \<Rightarrow> int \<Rightarrow> 32 word \<Rightarrow> mkernel \<Rightarrow> (int, mkernel) outcome" where
  "perform fn flags caller src_dst m_ptr s =
     (let pi = mp_priv (proc_at caller s) in
      if fn = SENDREC then
        bnd (mini_send caller src_dst m_ptr flags (upd_priv pi (\<lambda>p. p\<lparr>ms_flags := ms_flags p OR SENDREC_BUSY\<rparr>) s)) (\<lambda>r s.
        if r \<noteq> M_OK then Ret r s else mini_receive caller src_dst m_ptr flags s)
      else if fn = SEND then mini_send caller src_dst m_ptr flags s
      else if fn = RECEIVE then
        mini_receive caller src_dst m_ptr flags (upd_priv pi (\<lambda>p. p\<lparr>ms_flags := ms_flags p AND NOT SENDREC_BUSY\<rparr>) s)
      else if fn = NOTIFY then mini_notify caller src_dst s
      else if fn = ECHO then Ret M_OK (CopyMess (mp_nr (proc_at caller s)) caller m_ptr caller m_ptr s)
      else Ret EBADCALL s)"

definition sys_call :: "32 word \<Rightarrow> int \<Rightarrow> 32 word \<Rightarrow> mkernel \<Rightarrow> (int, mkernel) outcome" where
  "sys_call call_nr src_dst m_ptr s =
     (let caller = proc_ptr s; fn = call_nr AND SYSCALL_FUNC; flags = call_nr AND SYSCALL_FLAGS in
      if \<not> has_priv caller s then Stop Fault s
      else if \<not> bit (ms_trap_mask (priv_of caller s)) (unat fn) \<or> (src_dst < 0 \<and> fn \<noteq> SENDREC \<and> fn \<noteq> RECEIVE)
      then Ret ECALLDENIED s
      else if \<not> (isokprocn src_dst \<or> src_dst = ANY \<or> fn = ECHO) then Ret EBADSRCDST s
      else if fn AND CHECK_PTR \<noteq> 0 \<and> bad_pointer caller m_ptr s then Ret EFAULT s
      else
        bnd (if fn AND CHECK_DST \<noteq> 0 then chk (check_dst caller src_dst s) s else Ret M_OK s) (\<lambda>r s.
        if r \<noteq> M_OK then Ret r s else perform fn flags caller src_dst m_ptr s))"

end
