(* ===== verification/Mready.thy ===== *)
theory Mready
  imports Msched
begin

text \<open>
  The ready queues as lists of processes: the invariant that ties the linked lists to them, and what \<open>enqueue\<close>
  and \<open>dequeue\<close> do to the lists.
\<close>

section \<open>Invariant\<close>

definition nexts :: "mkernel \<Rightarrow> nat \<Rightarrow> pptr" where
  "nexts s x = mp_nextready (proc_at x s)"

text \<open>Queue \<open>q\<close> is the list \<open>qs ! q\<close>; every process is in one queue at most, the one of its priority.\<close>

definition queue_ok :: "mkernel \<Rightarrow> nat list list \<Rightarrow> nat \<Rightarrow> bool" where
  "queue_ok s qs q \<longleftrightarrow>
     seg (nexts s) (rdy_head s ! q) (qs ! q) None \<and>
     (qs ! q \<noteq> [] \<longrightarrow> rdy_tail s ! q = Some (last (qs ! q))) \<and>
     (\<forall>x \<in> set (qs ! q). mp_priority (proc_at x s) = int q)"

definition ready_ok :: "mkernel \<Rightarrow> nat list list \<Rightarrow> bool" where
  "ready_ok s qs \<longleftrightarrow>
     length (mprocs s) = 68 \<and> length (rdy_head s) = 16 \<and> length (rdy_tail s) = 16 \<and> length qs = 16 \<and>
     distinct (concat qs) \<and> set (concat qs) \<subseteq> {..<68} \<and> (\<forall>q < 16. queue_ok s qs q)"

text \<open>The process chosen to run is the first one of the first queue that has one.\<close>

definition next_ok :: "mkernel \<Rightarrow> nat list list \<Rightarrow> bool" where
  "next_ok s qs \<longleftrightarrow> (concat qs \<noteq> [] \<longrightarrow> chosen s = hd (concat qs))"

lemma chosen_cong: "next_ptr t = next_ptr s \<Longrightarrow> proc_ptr t = proc_ptr s \<Longrightarrow> chosen t = chosen s"
  by (simp add: chosen_def split: option.split)

lemma proc_at_upd:
  "p < length (mprocs s) \<Longrightarrow> proc_at x (upd p f s) = (if x = p then f (proc_at p s) else proc_at x s)"
  by (simp add: proc_at_def upd_def)

lemma upd_simps [simp]:
  "rdy_head (upd p f s) = rdy_head s" "rdy_tail (upd p f s) = rdy_tail s" "mprivs (upd p f s) = mprivs s"
  "proc_ptr (upd p f s) = proc_ptr s" "next_ptr (upd p f s) = next_ptr s" "sched_prev (upd p f s) = sched_prev s"
  "mmem (upd p f s) = mmem s" "length (mprocs (upd p f s)) = length (mprocs s)" "bill_ptr (upd p f s) = bill_ptr s"
  by (simp_all add: upd_def)

lemma proc_at_other [simp]:
  "proc_at x (s\<lparr>rdy_head := a\<rparr>) = proc_at x s" "proc_at x (s\<lparr>rdy_tail := a\<rparr>) = proc_at x s"
  "proc_at x (s\<lparr>rdy_head := a, rdy_tail := b\<rparr>) = proc_at x s" "proc_at x (s\<lparr>sched_prev := c\<rparr>) = proc_at x s"
  "proc_at x (s\<lparr>next_ptr := d, bill_ptr := e\<rparr>) = proc_at x s" "proc_at x (s\<lparr>intr_on := f\<rparr>) = proc_at x s"
  by (simp_all add: proc_at_def)

lemma queue_ok_cong:
  assumes "\<And>x. x \<in> set (qs ! q) \<Longrightarrow> mp_nextready (proc_at x t) = mp_nextready (proc_at x s) \<and> mp_priority (proc_at x t) = mp_priority (proc_at x s)"
    and "rdy_head t ! q = rdy_head s ! q" "rdy_tail t ! q = rdy_tail s ! q" and "rs ! q = qs ! q"
  shows "queue_ok t rs q = queue_ok s qs q"
proof -
  have "seg (nexts t) p (qs ! q) None = seg (nexts s) p (qs ! q) None" for p
    by (rule seg_cong) (simp add: nexts_def assms(1))
  then show ?thesis using assms by (auto simp: queue_ok_def)
qed

lemma concat_mem: "q < length qs \<Longrightarrow> x \<in> set (qs ! q) \<Longrightarrow> x \<in> set (concat qs)"
  by (auto intro!: bexI [OF _ nth_mem])

lemma queue_distinct: "distinct (concat qs) \<Longrightarrow> q < length qs \<Longrightarrow> distinct (qs ! q)"
  by (auto simp: distinct_concat_iff dest: nth_mem)

lemma mset_concat_update:
  "q < length qs \<Longrightarrow> mset (concat (qs[q := xs])) + mset (qs ! q) = mset (concat qs) + mset xs"
  by (induction qs arbitrary: q) (auto split: nat.splits)

lemma queues_disjoint:
  "distinct (concat qs) \<Longrightarrow> q < length qs \<Longrightarrow> r < length qs \<Longrightarrow> q \<noteq> r \<Longrightarrow> x \<in> set (qs ! q) \<Longrightarrow> x \<notin> set (qs ! r)"
proof -
  assume d: "distinct (concat qs)" and l: "q < length qs" "r < length qs" "q \<noteq> r" and x: "x \<in> set (qs ! q)"
  have "mset (concat (qs[r := []])) + mset (qs ! r) = mset (concat qs)" using mset_concat_update [of r qs "[]"] l by simp
  then have "distinct (concat (qs[r := []]) @ qs ! r)" using d by (metis mset_append mset_eq_imp_distinct_iff)
  moreover have "x \<in> set (concat (qs[r := []]))" using x l concat_mem [of q "qs[r := []]" x] by simp
  ultimately show ?thesis by auto
qed

lemma head_eq:
  "queue_ok s qs q \<Longrightarrow> rdy_head s ! q = (case qs ! q of [] \<Rightarrow> None | x # _ \<Rightarrow> Some x)"
  by (auto simp: queue_ok_def split: list.splits)

section \<open>Choosing a process\<close>

lemma pick_from_frame:
  "pick_from ks s = s\<lparr>next_ptr := next_ptr (pick_from ks s), bill_ptr := bill_ptr (pick_from ks s)\<rparr>"
  by (induction ks) (auto split: option.splits)

lemma pick_from_next:
  "(\<forall>k \<in> set ks. queue_ok s qs k) \<Longrightarrow> concat (map ((!) qs) ks) \<noteq> [] \<Longrightarrow>
   next_ptr (pick_from ks s) = Some (hd (concat (map ((!) qs) ks)))"
proof (induction ks)
  case (Cons k ks)
  then show ?case using head_eq [of s qs k] by (cases "qs ! k") auto
qed simp

lemma pick_proc_ok:
  assumes "ready_ok s qs"
  shows "ready_ok (pick_proc s) qs" "next_ok (pick_proc s) qs"
    "\<exists>n b. pick_proc s = s\<lparr>next_ptr := n, bill_ptr := b\<rparr>"
proof -
  show f: "\<exists>n b. pick_proc s = s\<lparr>next_ptr := n, bill_ptr := b\<rparr>" unfolding pick_proc_def using pick_from_frame by blast
  then obtain n b where "pick_proc s = s\<lparr>next_ptr := n, bill_ptr := b\<rparr>" by blast
  moreover have "queue_ok (s\<lparr>next_ptr := n, bill_ptr := b\<rparr>) qs q = queue_ok s qs q" for q
    by (rule queue_ok_cong) simp_all
  ultimately show "ready_ok (pick_proc s) qs" using assms by (simp add: ready_ok_def)
  have "map ((!) qs) [0..<16] = qs" using assms map_nth [of qs] by (simp add: ready_ok_def)
  then show "next_ok (pick_proc s) qs"
    using pick_from_next [of "[0..<16]" s qs] assms by (simp add: next_ok_def chosen_def pick_proc_def NR_SCHED_QUEUES_def ready_ok_def)
qed

section \<open>Policy\<close>

text \<open>A process with ticks left keeps them and its priority; otherwise it gets a new quantum and moves by one queue.\<close>

definition reschedule :: "bool \<Rightarrow> mproc \<Rightarrow> mproc" where
  "reschedule again p =
     (if mp_ticks_left p > 0 then p
      else let p = p\<lparr>mp_ticks_left := mp_quantum_size p\<rparr>
           in if mp_nr p < 0 then p else penalise (if again then 1 else - 1) p)"

lemma sched_eq:
  assumes "rp < length (mprocs s)"
  shows "sched rp s = ((mp_priority (reschedule (sched_prev s = Some rp) (proc_at rp s)), mp_ticks_left (proc_at rp s) > 0),
     (upd rp (reschedule (sched_prev s = Some rp)) s)\<lparr>sched_prev := (if mp_ticks_left (proc_at rp s) > 0 then sched_prev s else Some rp)\<rparr>)"
  using assms
  by (auto simp: sched_def reschedule_def Let_def iskernelp_def proc_at_def upd_def nth_list_update split: if_splits)

text \<open>What the scheduler may change of a process.\<close>

definition ipc_part :: "mproc \<Rightarrow> mproc" where
  "ipc_part p = p\<lparr>mp_priority := 0, mp_ticks_left := 0, mp_nextready := None\<rparr>"

definition same_ipc :: "mkernel \<Rightarrow> mkernel \<Rightarrow> bool" where
  "same_ipc s t \<longleftrightarrow>
     (\<forall>x. ipc_part (proc_at x t) = ipc_part (proc_at x s)) \<and> length (mprocs t) = length (mprocs s) \<and>
     mprivs t = mprivs s \<and> mmem t = mmem s \<and> proc_ptr t = proc_ptr s \<and> intr_on t = intr_on s"

lemma same_ipc_refl [simp]: "same_ipc s s"
  by (simp add: same_ipc_def)

lemma same_ipc_trans: "same_ipc s t \<Longrightarrow> same_ipc t u \<Longrightarrow> same_ipc s u"
  by (simp add: same_ipc_def)

lemma ipc_part_reschedule [simp]: "ipc_part (reschedule b p) = ipc_part p"
  by (simp add: ipc_part_def reschedule_def penalise_def Let_def)

lemma ipc_part_set_next [simp]: "ipc_part (set_next x p) = ipc_part p"
  by (simp add: ipc_part_def set_next_def)

lemma same_ipc_upd:
  "same_ipc s t \<Longrightarrow> p < length (mprocs t) \<Longrightarrow> (\<And>x. ipc_part (f x) = ipc_part x) \<Longrightarrow> same_ipc s (upd p f t)"
  by (simp add: same_ipc_def proc_at_upd) (simp add: upd_def)

lemma same_ipc_ready [simp]:
  "same_ipc s (t\<lparr>rdy_head := a\<rparr>) = same_ipc s t" "same_ipc s (t\<lparr>rdy_tail := a\<rparr>) = same_ipc s t"
  "same_ipc s (t\<lparr>rdy_head := a, rdy_tail := b\<rparr>) = same_ipc s t" "same_ipc s (t\<lparr>sched_prev := c\<rparr>) = same_ipc s t"
  "same_ipc s (t\<lparr>next_ptr := d, bill_ptr := e\<rparr>) = same_ipc s t"
  by (simp_all add: same_ipc_def)

section \<open>Changing one queue\<close>

lemma ready_ok_update:
  assumes r: "ready_ok s qs" and q: "q < 16" and "length (mprocs t) = 68"
    and heads: "rdy_head t = (rdy_head s)[q := h]" and tails: "rdy_tail t = (rdy_tail s)[q := l]"
    and other: "\<And>x. x \<in> set (concat qs) \<Longrightarrow> x \<notin> set (qs ! q) \<Longrightarrow>
      mp_nextready (proc_at x t) = mp_nextready (proc_at x s) \<and> mp_priority (proc_at x t) = mp_priority (proc_at x s)"
    and here: "queue_ok t (qs[q := xs]) q"
    and "distinct (concat (qs[q := xs]))" "set (concat (qs[q := xs])) \<subseteq> {..<68}"
  shows "ready_ok t (qs[q := xs])"
proof -
  have len: "length qs = 16" "length (rdy_head s) = 16" "length (rdy_tail s) = 16" using r by (auto simp: ready_ok_def)
  have "queue_ok t (qs[q := xs]) r" if "r < 16" for r
  proof (cases "r = q")
    case False
    have "queue_ok t (qs[q := xs]) r = queue_ok s qs r"
    proof (rule queue_ok_cong)
      fix x assume "x \<in> set (qs ! r)"
      then have "x \<in> set (concat qs)" "x \<notin> set (qs ! q)"
        using that False q len r concat_mem [of r qs x] queues_disjoint [of qs r q x] by (auto simp: ready_ok_def)
      then show "mp_nextready (proc_at x t) = mp_nextready (proc_at x s) \<and> mp_priority (proc_at x t) = mp_priority (proc_at x s)"
        by (rule other)
    qed (use False heads tails in simp_all)
    then show ?thesis using r that by (simp add: ready_ok_def)
  qed (use here in simp)
  then show ?thesis using assms len by (simp add: ready_ok_def)
qed

text \<open>Where \<open>enqueue\<close> puts a process: first in its queue if it has time left, else last.\<close>

definition insert_ready :: "bool \<Rightarrow> nat \<Rightarrow> nat list \<Rightarrow> nat list" where
  "insert_ready front rp xs = (if front then rp # xs else xs @ [rp])"

lemma mset_insert_ready:
  assumes "q < length qs"
  shows "mset (concat (qs[q := insert_ready b rp (qs ! q)])) = mset (rp # concat qs)"
proof -
  have "mset (concat (qs[q := insert_ready b rp (qs ! q)])) + mset (qs ! q) = mset (rp # concat qs) + mset (qs ! q)"
    using mset_concat_update [OF assms] by (simp add: insert_ready_def)
  then show ?thesis by simp
qed

lemma insert_ready_concat:
  assumes "ready_ok s qs" "q < 16" "rp < 68" "rp \<notin> set (concat qs)"
  shows "distinct (concat (qs[q := insert_ready b rp (qs ! q)]))" "set (concat (qs[q := insert_ready b rp (qs ! q)])) \<subseteq> {..<68}"
proof -
  have m: "mset (concat (qs[q := insert_ready b rp (qs ! q)])) = mset (rp # concat qs)"
    using assms by (intro mset_insert_ready) (simp add: ready_ok_def)
  show "distinct (concat (qs[q := insert_ready b rp (qs ! q)]))"
    using assms mset_eq_imp_distinct_iff [OF m] by (simp add: ready_ok_def)
  show "set (concat (qs[q := insert_ready b rp (qs ! q)])) \<subseteq> {..<68}"
    using assms mset_eq_setD [OF m] by (simp add: ready_ok_def)
qed

lemma insert_empty:
  assumes r: "ready_ok t qs" and rp: "rp < 68" "rp \<notin> set (concat qs)" "mp_priority (proc_at rp t) = int q" "q < 16" and e: "qs ! q = []"
  shows "ready_ok (upd rp (set_next None) (t\<lparr>rdy_head := (rdy_head t)[q := Some rp], rdy_tail := (rdy_tail t)[q := Some rp]\<rparr>))
    (qs[q := insert_ready b rp (qs ! q)])"
proof -
  have len: "length (mprocs t) = 68" "length (rdy_head t) = 16" "length (rdy_tail t) = 16" "length qs = 16"
    using r by (auto simp: ready_ok_def)
  show ?thesis
    by (rule ready_ok_update [OF r rp(4), where h = "Some rp" and l = "Some rp"])
      (use e rp len insert_ready_concat [OF r rp(4,1,2), of b] in \<open>auto simp: proc_at_upd set_next_def queue_ok_def insert_ready_def nexts_def\<close>)
qed

lemma insert_front:
  assumes r: "ready_ok t qs" and rp: "rp < 68" "rp \<notin> set (concat qs)" "mp_priority (proc_at rp t) = int q" "q < 16" and ne: "qs ! q \<noteq> []"
  shows "ready_ok ((upd rp (set_next (rdy_head t ! q)) t)\<lparr>rdy_head := (rdy_head t)[q := Some rp]\<rparr>) (qs[q := insert_ready True rp (qs ! q)])"
    (is "ready_ok ?u _")
proof -
  have len: "length (mprocs t) = 68" "length (rdy_head t) = 16" "length (rdy_tail t) = 16" "length qs = 16"
    using r by (auto simp: ready_ok_def)
  have nrp: "rp \<notin> set (qs ! q)" using rp(2,4) concat_mem [of q qs rp] len by auto
  have qk: "queue_ok t qs q" using r rp(4) by (simp add: ready_ok_def)
  show ?thesis
  proof (rule ready_ok_update [OF r rp(4), where h = "Some rp" and l = "rdy_tail t ! q"])
    have "seg (nexts ?u) p (qs ! q) None = seg (nexts t) p (qs ! q) None" for p
      by (rule seg_cong) (use nrp rp len in \<open>auto simp: nexts_def proc_at_upd\<close>)
    then show "queue_ok ?u (qs[q := insert_ready True rp (qs ! q)]) q"
      using qk len rp nrp ne by (auto simp: queue_ok_def insert_ready_def nexts_def proc_at_upd set_next_def)
  qed (use len rp insert_ready_concat [OF r rp(4,1,2)] in \<open>auto simp: proc_at_upd set_next_def\<close>)
qed

lemma insert_back:
  assumes r: "ready_ok t qs" and rp: "rp < 68" "rp \<notin> set (concat qs)" "mp_priority (proc_at rp t) = int q" "q < 16" and ne: "qs ! q \<noteq> []"
  shows "rdy_tail t ! q = Some (last (qs ! q))" "last (qs ! q) < 68" "last (qs ! q) \<noteq> rp"
    "ready_ok (upd rp (set_next None) ((upd (last (qs ! q)) (set_next (Some rp)) t)\<lparr>rdy_tail := (rdy_tail t)[q := Some rp]\<rparr>))
       (qs[q := insert_ready False rp (qs ! q)])" (is "ready_ok ?u _")
proof -
  let ?l = "last (qs ! q)"
  have len: "length (mprocs t) = 68" "length (rdy_head t) = 16" "length (rdy_tail t) = 16" "length qs = 16"
    using r by (auto simp: ready_ok_def)
  have nrp: "rp \<notin> set (qs ! q)" using rp(2,4) concat_mem [of q qs rp] len by auto
  have qk: "queue_ok t qs q" using r rp(4) by (simp add: ready_ok_def)
  then show "rdy_tail t ! q = Some ?l" using ne by (simp add: queue_ok_def)
  have sg: "seg (nexts t) (rdy_head t ! q) (qs ! q) None" using qk by (simp add: queue_ok_def)
  have dq: "distinct (qs ! q)" using queue_distinct [of qs q] r rp(4) by (simp add: ready_ok_def)
  have lq: "?l \<in> set (qs ! q)" using ne by simp
  then show l: "?l < 68" "?l \<noteq> rp" using r rp(4) concat_mem [of q qs ?l] nrp by (auto simp: ready_ok_def)
  show "ready_ok ?u (qs[q := insert_ready False rp (qs ! q)])"
  proof (rule ready_ok_update [OF r rp(4), where h = "rdy_head t ! q" and l = "Some rp"])
    have "seg ((nexts t)(?l := Some rp)) (rdy_head t ! q) (qs ! q) (Some rp)"
      using seg_last [OF ne dq sg] by simp
    moreover have "seg (nexts ?u) p (qs ! q) (Some rp) = seg ((nexts t)(?l := Some rp)) p (qs ! q) (Some rp)" for p
      by (rule seg_cong) (use nrp rp len l in \<open>auto simp: nexts_def proc_at_upd set_next_def\<close>)
    moreover have "nexts ?u rp = None" using rp len by (simp add: nexts_def proc_at_upd set_next_def)
    ultimately show "queue_ok ?u (qs[q := insert_ready False rp (qs ! q)]) q"
      using qk len rp nrp ne l by (auto simp: queue_ok_def insert_ready_def proc_at_upd set_next_def seg_append)
  qed (use len rp insert_ready_concat [OF r rp(4,1,2)] l lq in \<open>auto simp: proc_at_upd set_next_def\<close>)
qed

lemma sched_ready:
  assumes r: "ready_ok s qs" and rp: "rp < 68" "rp \<notin> set (concat qs)"
  shows "ready_ok ((upd rp f s)\<lparr>sched_prev := x\<rparr>) qs"
proof -
  have "queue_ok ((upd rp f s)\<lparr>sched_prev := x\<rparr>) qs q = queue_ok s qs q" if "q < 16" for q
    by (rule queue_ok_cong) (use assms that concat_mem [of q qs] in \<open>auto simp: proc_at_upd ready_ok_def\<close>)
  then show ?thesis using r by (simp add: ready_ok_def)
qed

text \<open>Priorities stay in the range of the queues, whatever the penalty.\<close>

definition prio_ok :: "mproc \<Rightarrow> bool" where
  "prio_ok p \<longleftrightarrow> 0 \<le> mp_priority p \<and> mp_priority p \<le> 15 \<and> 0 \<le> mp_max_priority p \<and> mp_max_priority p \<le> 15"

lemma reschedule_prio: "prio_ok p \<Longrightarrow> prio_ok (reschedule b p)"
  by (auto simp: prio_ok_def reschedule_def penalise_def Let_def IDLE_Q_def)

definition sched_ok :: "mkernel \<Rightarrow> nat list list \<Rightarrow> bool" where
  "sched_ok s qs \<longleftrightarrow> ready_ok s qs \<and> next_ok s qs \<and> (\<forall>x < 68. prio_ok (proc_at x s))"

definition same_prio :: "mkernel \<Rightarrow> mkernel \<Rightarrow> bool" where
  "same_prio s t \<longleftrightarrow> (\<forall>x. mp_priority (proc_at x t) = mp_priority (proc_at x s))"

lemma same_prio_next: "same_prio s t \<Longrightarrow> p < length (mprocs t) \<Longrightarrow> same_prio s (upd p (set_next x) t)"
  by (simp add: same_prio_def proc_at_upd set_next_def)

lemma same_prio_ready [simp]:
  "same_prio s (t\<lparr>rdy_head := a\<rparr>) = same_prio s t" "same_prio s (t\<lparr>rdy_tail := a\<rparr>) = same_prio s t"
  "same_prio s (t\<lparr>rdy_head := a, rdy_tail := b\<rparr>) = same_prio s t" "same_prio s s"
  "same_prio s (t\<lparr>next_ptr := d, bill_ptr := e\<rparr>) = same_prio s t"
  by (simp_all add: same_prio_def)

lemma same_ipc_max: "same_ipc s t \<Longrightarrow> mp_max_priority (proc_at x t) = mp_max_priority (proc_at x s)"
  by (auto simp: same_ipc_def ipc_part_def dest!: spec [of _ x] arg_cong [of _ _ mp_max_priority])

lemma prios_kept:
  "same_ipc s t \<Longrightarrow> same_prio s t \<Longrightarrow> \<forall>x < 68. prio_ok (proc_at x s) \<Longrightarrow> \<forall>x < 68. prio_ok (proc_at x t)"
  by (simp add: prio_ok_def same_prio_def same_ipc_max)

text \<open>\<open>enqueue\<close> on the result of \<open>sched\<close>.\<close>

lemma enqueue_at:
  assumes t: "ready_ok t qs" and sc: "sched rp s = ((int q, front), t)" and rp: "rp < 68" and new: "rp \<notin> set (concat qs)"
    and pr: "mp_priority (proc_at rp t) = int q" and q: "q < 16"
  shows "\<exists>u. enqueue rp s = Ret () (pick_proc u) \<and> ready_ok u (qs[q := insert_ready front rp (qs ! q)]) \<and> same_ipc t u \<and> same_prio t u"
proof -
  have len: "length (mprocs t) = 68" using t by (simp add: ready_ok_def)
  have hd: "rdy_head t ! q = (case qs ! q of [] \<Rightarrow> None | x # _ \<Rightarrow> Some x)"
    using t q by (intro head_eq) (simp add: ready_ok_def)
  show ?thesis
  proof (cases "qs ! q = []")
    case True
    let ?u = "upd rp (set_next None) (t\<lparr>rdy_head := (rdy_head t)[q := Some rp], rdy_tail := (rdy_tail t)[q := Some rp]\<rparr>)"
    show ?thesis
      using sc hd q insert_empty [OF t rp new pr q True, of front] rp len True
      by (intro exI [of _ ?u]) (simp add: enqueue_def NR_SCHED_QUEUES_def same_ipc_upd same_prio_next)
  next
    case ne: False
    then obtain x ys where xs: "qs ! q = x # ys" by (cases "qs ! q") auto
    let ?f = "(upd rp (set_next (rdy_head t ! q)) t)\<lparr>rdy_head := (rdy_head t)[q := Some rp]\<rparr>"
    let ?b = "upd rp (set_next None) ((upd (last (qs ! q)) (set_next (Some rp)) t)\<lparr>rdy_tail := (rdy_tail t)[q := Some rp]\<rparr>)"
    show ?thesis
      using sc hd q insert_front [OF t rp new pr q ne] insert_back [OF t rp new pr q ne] rp len xs
      by (intro exI [of _ "if front then ?f else ?b"])
        (simp add: enqueue_def NR_SCHED_QUEUES_def same_ipc_upd same_prio_next del: last.simps)
  qed
qed

lemma enqueue_ok:
  assumes ok: "sched_ok s qs" and rp: "rp < 68" and new: "rp \<notin> set (concat qs)"
  shows "\<exists>s' q. enqueue rp s = Ret () s' \<and> q < 16 \<and>
    mp_priority (reschedule (sched_prev s = Some rp) (proc_at rp s)) = int q \<and>
    sched_ok s' (qs[q := insert_ready (mp_ticks_left (proc_at rp s) > 0) rp (qs ! q)]) \<and> same_ipc s s'"
proof -
  define front where "front = (mp_ticks_left (proc_at rp s) > 0)"
  define t where "t = (upd rp (reschedule (sched_prev s = Some rp)) s)\<lparr>sched_prev := (if front then sched_prev s else Some rp)\<rparr>"
  have r: "ready_ok s qs" using ok by (simp add: sched_ok_def)
  have len: "length (mprocs s) = 68" "length (mprocs t) = 68" using r by (auto simp: ready_ok_def t_def)
  have "prio_ok (reschedule (sched_prev s = Some rp) (proc_at rp s))" using ok rp by (simp add: sched_ok_def reschedule_prio)
  then obtain q where q: "mp_priority (reschedule (sched_prev s = Some rp) (proc_at rp s)) = int q" "q < 16"
    by (auto simp: prio_ok_def intro: that [of "nat (mp_priority (reschedule (sched_prev s = Some rp) (proc_at rp s)))"])
  have sc: "sched rp s = ((int q, front), t)" using sched_eq [of rp s] rp len q by (simp add: t_def front_def)
  have t: "ready_ok t qs" unfolding t_def by (rule sched_ready [OF r rp new])
  have pr: "mp_priority (proc_at rp t) = int q" using rp len q by (simp add: t_def proc_at_upd)
  have same: "same_ipc s t" using rp len by (simp add: t_def same_ipc_upd)
  have prios: "\<forall>x < 68. prio_ok (proc_at x t)" using ok rp len by (simp add: t_def proc_at_upd sched_ok_def reschedule_prio)
  obtain u where u: "enqueue rp s = Ret () (pick_proc u)" "ready_ok u (qs[q := insert_ready front rp (qs ! q)])"
    "same_ipc t u" "same_prio t u"
    using enqueue_at [OF t sc rp new pr q(2)] by blast
  obtain n b where pp: "pick_proc u = u\<lparr>next_ptr := n, bill_ptr := b\<rparr>" using pick_proc_ok(3) [OF u(2)] by blast
  have "\<forall>x < 68. prio_ok (proc_at x (pick_proc u))" using prios_kept [OF u(3,4) prios] pp by simp
  moreover have "same_ipc s (pick_proc u)" using same_ipc_trans [OF same u(3)] pp by simp
  ultimately show ?thesis using u(1) q pick_proc_ok(1,2) [OF u(2)] by (auto simp: sched_ok_def front_def)
qed

section \<open>Removing a process\<close>

lemma link_at_eq:
  "seg (nexts s) (rdy_head s ! q) (xs @ ys) None \<Longrightarrow> link_at q (last_ptr xs) s = (case ys of [] \<Rightarrow> None | y # _ \<Rightarrow> Some y)"
  using seg_to_last [of xs "nexts s" "rdy_head s ! q"]
  by (auto simp: seg_append link_at_def last_ptr_def nexts_def split: list.splits)

lemma dequeue_loop_eq:
  "seg (nexts s) (rdy_head s ! q) (xs @ ys) None \<Longrightarrow> rp \<notin> set xs \<Longrightarrow>
   dequeue_loop q rp (last_ptr xs) s =
     Some (if rp \<in> set ys then unlink q rp (last_ptr (xs @ takeWhile (\<lambda>y. y \<noteq> rp) ys)) s else s)"
proof (induction ys arbitrary: xs)
  case Nil
  then show ?case using link_at_eq [of s q xs "[]"] by (subst dequeue_loop.simps) simp
next
  case (Cons y ys)
  have "dequeue_loop q rp (last_ptr xs) s =
      (if y = rp then Some (unlink q rp (last_ptr xs) s) else dequeue_loop q rp (last_ptr (xs @ [y])) s)"
    using link_at_eq [OF Cons.prems(1)] by (subst dequeue_loop.simps) (simp add: last_ptr_def)
  then show ?case using Cons.IH [of "xs @ [y]"] Cons.prems by auto
qed


lemma queue_lt: "ready_ok s qs \<Longrightarrow> q < 16 \<Longrightarrow> x \<in> set (qs ! q) \<Longrightarrow> x < 68"
  using concat_mem [of q qs x] unfolding ready_ok_def by (metis lessThan_iff subsetD)

text \<open>The state after the element has been taken out of the list, before a new process is chosen.\<close>

definition cut :: "nat \<Rightarrow> nat \<Rightarrow> pptr \<Rightarrow> mkernel \<Rightarrow> mkernel" where
  "cut q rp prev s =
     (let s = set_link_at q prev (mp_nextready (proc_at rp s)) s
      in if rdy_tail s ! q = Some rp then s\<lparr>rdy_tail := (rdy_tail s)[q := prev]\<rparr> else s)"

lemma unlink_cut: "unlink q rp prev s = (let s = cut q rp prev s in if rp = proc_ptr s \<or> Some rp = next_ptr s then pick_proc s else s)"
  by (simp add: unlink_def cut_def Let_def)

lemma cut_frame:
  assumes "prev = None \<or> the prev < length (mprocs s)"
  shows "same_ipc s (cut q rp prev s)" "same_prio s (cut q rp prev s)" "proc_ptr (cut q rp prev s) = proc_ptr s"
    "next_ptr (cut q rp prev s) = next_ptr s"
  using assms by (auto simp: cut_def set_link_at_def Let_def same_ipc_upd same_prio_next split: option.splits)

lemma set_link_at_simps [simp]:
  "rdy_tail (set_link_at q prev x s) = rdy_tail s" "length (mprocs (set_link_at q prev x s)) = length (mprocs s)"
  by (simp_all add: set_link_at_def split: option.splits)

lemma cut_queue:
  assumes qk: "queue_ok s qs q" and xs: "qs ! q = as @ rp # bs" and d: "distinct (qs ! q)" and len: "length (mprocs s) = 68"
    "q < length (rdy_head s)" "q < length (rdy_tail s)" "q < length qs" and lt: "set (qs ! q) \<subseteq> {..<68}"
  shows "queue_ok (cut q rp (last_ptr as) s) (qs[q := as @ bs]) q"
proof -
  let ?c = "cut q rp (last_ptr as) s"
  let ?n = "nexts s rp"
  have tl: "rdy_tail s ! q = Some (last (rp # bs))" using qk xs by (simp add: queue_ok_def)
  have la: "last as < 68" if "as \<noteq> []"
  proof -
    have "last as \<in> set (qs ! q)" using that xs by simp
    then show ?thesis using lt by blast
  qed
  have nx: "nexts ?c = (if as = [] then nexts s else (nexts s)(last as := ?n))"
    using la len
    by (auto simp: fun_eq_iff nexts_def cut_def set_link_at_def last_ptr_def Let_def proc_at_upd set_next_def)
  have hd: "rdy_head ?c ! q = (if as = [] then ?n else rdy_head s ! q)"
    using len by (auto simp: cut_def set_link_at_def last_ptr_def Let_def nexts_def)
  have "seg (nexts ?c) (rdy_head ?c ! q) (as @ bs) None"
    using seg_cut [of "nexts s" "rdy_head s ! q" as rp bs] qk xs d nx hd by (simp add: queue_ok_def)
  moreover have "rdy_tail ?c ! q = (if bs = [] then last_ptr as else Some (last bs))"
    using tl len d xs last_in_set [of bs] by (auto simp: cut_def Let_def)
  moreover have "same_prio s ?c" using la len by (intro cut_frame) (auto simp: last_ptr_def)
  ultimately show ?thesis using qk xs len by (auto simp: queue_ok_def last_ptr_def same_prio_def)
qed

lemma concat_remove:
  "distinct (concat qs) \<Longrightarrow> q < length qs \<Longrightarrow> rp \<in> set (qs ! q) \<Longrightarrow> concat (qs[q := remove1 rp (qs ! q)]) = remove1 rp (concat qs)"
proof (induction qs arbitrary: q)
  case (Cons a qs)
  show ?case
  proof (cases q)
    case (Suc n)
    then have "rp \<in> set (concat qs)" using Cons.prems concat_mem [of n qs rp] by simp
    then have "rp \<notin> set a" using Cons.prems(1) by auto
    then show ?thesis using Cons Suc by (simp add: remove1_append)
  qed (use Cons in \<open>simp add: remove1_append\<close>)
qed simp

lemma hd_remove1: "xs \<noteq> [] \<Longrightarrow> hd xs \<noteq> x \<Longrightarrow> hd (remove1 x xs) = hd xs"
  by (cases xs) auto

lemma cut_ready:
  assumes r: "ready_ok s qs" and q: "q < 16" and xs: "qs ! q = as @ rp # bs"
  shows "ready_ok (cut q rp (last_ptr as) s) (qs[q := as @ bs])"
proof -
  have len: "length (mprocs s) = 68" "length (rdy_head s) = 16" "length (rdy_tail s) = 16" "length qs = 16"
    and d: "distinct (concat qs)" "set (concat qs) \<subseteq> {..<68}" and qk: "queue_ok s qs q"
    using r q by (auto simp: ready_ok_def)
  have lt: "set (qs ! q) \<subseteq> {..<68}" using queue_lt [OF r q] by blast
  have dq: "distinct (qs ! q)" using queue_distinct [OF d(1)] q len by simp
  have rm: "as @ bs = remove1 rp (qs ! q)" using dq xs by (simp add: remove1_append)
  have c: "concat (qs[q := as @ bs]) = remove1 rp (concat qs)"
    using concat_remove [OF d(1), of q rp] q len xs rm by simp
  let ?c = "cut q rp (last_ptr as) s"
  have "rdy_head ?c = (rdy_head s)[q := rdy_head ?c ! q]" "rdy_tail ?c = (rdy_tail s)[q := rdy_tail ?c ! q]"
    using len q by (auto simp: cut_def set_link_at_def Let_def split: option.splits)
  moreover have "length (mprocs ?c) = 68" using len by (auto simp: cut_def Let_def)
  moreover have "mp_nextready (proc_at x ?c) = mp_nextready (proc_at x s) \<and> mp_priority (proc_at x ?c) = mp_priority (proc_at x s)"
    if "x \<notin> set (qs ! q)" for x
    using that xs len queue_lt [OF r q, of "last as"]
    by (auto simp: cut_def set_link_at_def Let_def last_ptr_def proc_at_upd)
  moreover have "set (concat (qs[q := as @ bs])) \<subseteq> {..<68}"
    unfolding c using d(2) set_remove1_subset [of rp "concat qs"] by blast
  moreover have "distinct (concat (qs[q := as @ bs]))" unfolding c using d(1) by (rule distinct_remove1)
  moreover have "queue_ok ?c (qs[q := as @ bs]) q" using cut_queue [OF qk xs dq] len q lt by simp
  ultimately show ?thesis by (intro ready_ok_update [OF r q]) blast+
qed

lemma dequeue_ok:
  assumes ok: "sched_ok s qs" and rp: "rp < 68" and q: "mp_priority (proc_at rp s) = int q"
    and guard: "iskernelp rp s \<Longrightarrow> has_priv rp s \<and> ms_stack_word (priv_of rp s) = STACK_GUARD"
  shows "\<exists>s'. dequeue rp s = Ret () s' \<and> sched_ok s' (qs[q := remove1 rp (qs ! q)]) \<and> same_ipc s s' \<and>
    set (concat (qs[q := remove1 rp (qs ! q)])) = set (concat qs) - {rp}"
proof -
  have r: "ready_ok s qs" and n: "next_ok s qs" and pr: "\<forall>x < 68. prio_ok (proc_at x s)" using ok by (auto simp: sched_ok_def)
  have q16: "q < 16" using pr rp q by (auto simp: prio_ok_def)
  have len: "length (mprocs s) = 68" "length qs = 16" and d: "distinct (concat qs)" and qk: "queue_ok s qs q"
    using r q16 by (auto simp: ready_ok_def)
  have sg: "seg (nexts s) (rdy_head s ! q) ([] @ qs ! q) None" using qk by (simp add: queue_ok_def)
  have loop: "dequeue_loop q rp None s =
      Some (if rp \<in> set (qs ! q) then unlink q rp (last_ptr (takeWhile (\<lambda>y. y \<noteq> rp) (qs ! q))) s else s)"
    using dequeue_loop_eq [OF sg, of rp] by (simp add: last_ptr_def)
  have deq: "dequeue rp s = (case dequeue_loop q rp None s of None \<Rightarrow> Stop Blocked s | Some s \<Rightarrow> Ret () s)"
    using guard q q16 by (auto simp: dequeue_def NR_SCHED_QUEUES_def)
  show ?thesis
  proof (cases "rp \<in> set (qs ! q)")
    case False
    have "rp \<notin> set (qs ! k)" if "k < 16" for k
      using r that q False by (cases "k = q") (auto simp: ready_ok_def queue_ok_def)
    then have "rp \<notin> set (concat qs)" using len by (auto simp: in_set_conv_nth [of _ qs])
    moreover have "qs[q := remove1 rp (qs ! q)] = qs" using False by (simp add: remove1_idem)
    ultimately show ?thesis using loop deq False ok by simp
  next
    case True
    then obtain as bs where xs: "qs ! q = as @ rp # bs" and nas: "rp \<notin> set as" by (metis split_list_first)
    have tw: "takeWhile (\<lambda>y. y \<noteq> rp) (qs ! q) = as" using xs nas by (simp add: takeWhile_append)
    have rm: "as @ bs = remove1 rp (qs ! q)" using xs nas by (simp add: remove1_append)
    let ?c = "cut q rp (last_ptr as) s" and ?rs = "qs[q := remove1 rp (qs ! q)]"
    have cr: "ready_ok ?c ?rs" using cut_ready [OF r q16 xs] rm by simp
    have "last_ptr as = None \<or> the (last_ptr as) < length (mprocs s)"
      using xs len queue_lt [OF r q16, of "last as"] by (auto simp: last_ptr_def)
    note fr = cut_frame [OF this, of q rp]
    have cc: "concat ?rs = remove1 rp (concat qs)" using concat_remove [OF d] q16 len True by simp
    have ne: "concat qs \<noteq> []" using True q16 len concat_mem [of q qs rp] by fastforce
    define u where "u = unlink q rp (last_ptr as) s"
    have u: "u = (if rp = proc_ptr ?c \<or> Some rp = next_ptr ?c then pick_proc ?c else ?c)" by (simp add: u_def unlink_cut Let_def)
    obtain m b where pp: "pick_proc ?c = ?c\<lparr>next_ptr := m, bill_ptr := b\<rparr>" using pick_proc_ok(3) [OF cr] by blast
    have ch: "chosen ?c = chosen s" by (rule chosen_cong) (use fr(3,4) in simp_all)
    have "next_ok ?c ?rs" if "rp \<noteq> chosen ?c"
      using that n ne ch cc hd_remove1 [of "concat qs" rp] by (auto simp: next_ok_def)
    moreover have "rp \<noteq> chosen ?c" if "rp \<noteq> proc_ptr ?c" "Some rp \<noteq> next_ptr ?c"
      using that by (auto simp: chosen_def split: option.splits)
    ultimately have "ready_ok u ?rs" "next_ok u ?rs" using u cr pick_proc_ok(1,2) [OF cr] by auto
    moreover have si: "same_ipc s u" "same_prio s u" using u fr(1,2) pp by auto
    ultimately have "sched_ok u ?rs" using prios_kept [OF si pr] by (simp add: sched_ok_def)
    moreover have "set (concat ?rs) = set (concat qs) - {rp}" unfolding cc using d by (simp add: set_remove1_eq)
    ultimately show ?thesis using loop deq True tw si(1) u_def by auto
  qed
qed

end
