(* ===== verification/Mipcinv.thy ===== *)
theory Mipcinv
  imports Mipc Mready
begin

text \<open>
  The invariant of message passing: the caller queue of a process holds, in order, exactly the
  processes blocked on sending to it, no set of processes sends in a circle, and a process is in a ready queue
  exactly when none of its flags is set.
\<close>

section \<open>Invariant\<close>

definition qlinks :: "mkernel \<Rightarrow> nat \<Rightarrow> pptr" where
  "qlinks s x = mp_q_link (proc_at x s)"

definition sending :: "mkernel \<Rightarrow> nat \<Rightarrow> bool" where
  "sending s x \<longleftrightarrow> x < 68 \<and> mp_rts_flags (proc_at x s) AND SENDING \<noteq> 0"

definition waits :: "mkernel \<Rightarrow> (nat \<times> nat) set" where
  "waits s = {(x, d). sending s x \<and> proc_addr (mp_sendto (proc_at x s)) = Some d}"

definition callers_ok :: "mkernel \<Rightarrow> (nat \<Rightarrow> nat list) \<Rightarrow> bool" where
  "callers_ok s cq \<longleftrightarrow>
     (\<forall>d < 68. seg (qlinks s) (mp_caller_q (proc_at d s)) (cq d) None \<and> distinct (cq d) \<and>
        set (cq d) = {x. (x, d) \<in> waits s}) \<and>
     (\<forall>x. sending s x \<longrightarrow> proc_addr (mp_sendto (proc_at x s)) \<noteq> None) \<and> acyclic (waits s)"

definition priv_ok :: "mpriv \<Rightarrow> bool" where
  "priv_ok p \<longleftrightarrow> ms_id p < 32 \<and> length (ms_ipc_to p) = 2 \<and> length (ms_notify_pending p) = 2"

text \<open>
  Bit 0 of the flags is \<open>SLOT_FREE\<close>: the kernel tasks and every process in use have a privilege structure, a free slot
  may have none. Bit 1 of the flags is \<open>NO_MAP\<close>, which the pseudo-process HARDWARE always has. Entry 0 is IDLE, which \<open>table.c\<close> gives
  an empty trap mask.
\<close>

definition tables_ok :: "mkernel \<Rightarrow> bool" where
  "tables_ok s \<longleftrightarrow>
     length (mprocs s) = 68 \<and> length (mprivs s) = 32 \<and> (\<forall>i < 32. priv_ok (mprivs s ! i)) \<and> ms_trap_mask (priv_of 0 s) = 0 \<and>
     (\<forall>x < 68. mp_nr (proc_at x s) = int x - 4 \<and> (x < 4 \<or> \<not> bit (mp_rts_flags (proc_at x s)) 0 \<longrightarrow> mp_priv (proc_at x s) < 32) \<and>
        (mp_nr (proc_at x s) < 0 \<and> \<not> bit (mp_rts_flags (proc_at x s)) 1 \<longrightarrow> ms_stack_word (priv_of x s) = STACK_GUARD))"

definition runnable_ok :: "mkernel \<Rightarrow> nat list list \<Rightarrow> bool" where
  "runnable_ok s qs \<longleftrightarrow> (\<forall>x < 68. mp_rts_flags (proc_at x s) = 0 \<longleftrightarrow> x \<in> set (concat qs))"

definition minix_ok :: "mkernel \<Rightarrow> nat list list \<Rightarrow> (nat \<Rightarrow> nat list) \<Rightarrow> bool" where
  "minix_ok s qs cq \<longleftrightarrow> sched_ok s qs \<and> tables_ok s \<and> callers_ok s cq \<and> runnable_ok s qs"

lemma tables_priv: "tables_ok s \<Longrightarrow> x < 68 \<Longrightarrow> x < 4 \<or> \<not> bit (mp_rts_flags (proc_at x s)) 0 \<Longrightarrow> has_priv x s"
  by (auto simp: tables_ok_def has_priv_def)

lemma tables_priv_ok: "tables_ok s \<Longrightarrow> has_priv x s \<Longrightarrow> mp_priv (proc_at x s) < 32 \<and> priv_ok (priv_of x s)"
  by (simp add: tables_ok_def has_priv_def priv_of_def)

lemma minix_okD:
  assumes "minix_ok s qs cq"
  shows "sched_ok s qs" "tables_ok s" "callers_ok s cq" "runnable_ok s qs" "length (mprocs s) = 68"
  using assms by (auto simp: minix_ok_def tables_ok_def)

section \<open>What the scheduler leaves alone\<close>

lemma same_ipc_sel:
  assumes "same_ipc s t"
  shows "mp_rts_flags (proc_at x t) = mp_rts_flags (proc_at x s)" "mp_sendto (proc_at x t) = mp_sendto (proc_at x s)"
    "mp_caller_q (proc_at x t) = mp_caller_q (proc_at x s)" "mp_q_link (proc_at x t) = mp_q_link (proc_at x s)"
    "mp_nr (proc_at x t) = mp_nr (proc_at x s)" "mp_priv (proc_at x t) = mp_priv (proc_at x s)"
    "mp_getfrom (proc_at x t) = mp_getfrom (proc_at x s)" "mp_messbuf (proc_at x t) = mp_messbuf (proc_at x s)"
    "mprivs t = mprivs s" "mmem t = mmem s" "length (mprocs t) = length (mprocs s)" "proc_ptr t = proc_ptr s"
proof -
  have "ipc_part (proc_at x t) = ipc_part (proc_at x s)" using assms by (simp add: same_ipc_def)
  then show "mp_rts_flags (proc_at x t) = mp_rts_flags (proc_at x s)" "mp_sendto (proc_at x t) = mp_sendto (proc_at x s)"
    "mp_caller_q (proc_at x t) = mp_caller_q (proc_at x s)" "mp_q_link (proc_at x t) = mp_q_link (proc_at x s)"
    "mp_nr (proc_at x t) = mp_nr (proc_at x s)" "mp_priv (proc_at x t) = mp_priv (proc_at x s)"
    "mp_getfrom (proc_at x t) = mp_getfrom (proc_at x s)" "mp_messbuf (proc_at x t) = mp_messbuf (proc_at x s)"
    unfolding ipc_part_def by (cases "proc_at x t"; cases "proc_at x s"; simp)+
qed (use assms in \<open>simp_all add: same_ipc_def\<close>)

lemma same_ipc_waits: "same_ipc s t \<Longrightarrow> waits t = waits s"
  by (simp add: waits_def sending_def same_ipc_sel)

lemma same_ipc_callers: "same_ipc s t \<Longrightarrow> callers_ok t cq = callers_ok s cq"
  unfolding callers_ok_def by (simp add: same_ipc_waits sending_def same_ipc_sel qlinks_def [abs_def])

lemma same_ipc_tables: "same_ipc s t \<Longrightarrow> tables_ok t = tables_ok s"
  by (simp add: tables_ok_def same_ipc_sel priv_of_def)

lemma sched_ok_proc:
  assumes "\<And>x. mp_nextready (proc_at x t) = mp_nextready (proc_at x s) \<and> mp_priority (proc_at x t) = mp_priority (proc_at x s) \<and>
      mp_max_priority (proc_at x t) = mp_max_priority (proc_at x s)"
    and "rdy_head t = rdy_head s" "rdy_tail t = rdy_tail s" "next_ptr t = next_ptr s" "proc_ptr t = proc_ptr s" "length (mprocs t) = length (mprocs s)"
  shows "sched_ok t qs = sched_ok s qs"
proof -
  have "queue_ok t qs q = queue_ok s qs q" for q by (rule queue_ok_cong) (use assms in simp_all)
  moreover have "chosen t = chosen s" by (rule chosen_cong) (use assms in simp_all)
  ultimately show ?thesis using assms by (simp add: sched_ok_def ready_ok_def next_ok_def prio_ok_def)
qed

lemma sched_ok_upd:
  assumes "p < length (mprocs s)" and "\<And>x. mp_nextready (f x) = mp_nextready x \<and> mp_priority (f x) = mp_priority x \<and> mp_max_priority (f x) = mp_max_priority x"
  shows "sched_ok (upd p f s) qs = sched_ok s qs"
  by (rule sched_ok_proc) (use assms in \<open>auto simp: proc_at_upd\<close>)

lemma proc_at_mem [simp]: "proc_at x (s\<lparr>mmem := m\<rparr>) = proc_at x s" "proc_at x (s\<lparr>mprivs := v\<rparr>) = proc_at x s"
  "proc_at x (upd_priv i f s) = proc_at x s" "proc_at x (CopyMess n a b c d s) = proc_at x s"
  by (simp_all add: proc_at_def upd_priv_def CopyMess_def)

lemma sched_ok_mem [simp]: "sched_ok (s\<lparr>mmem := m\<rparr>) qs = sched_ok s qs" "sched_ok (upd_priv i f s) qs = sched_ok s qs"
  by (rule sched_ok_proc; simp add: upd_priv_def)+

section \<open>Blocking and unblocking\<close>

lemma flag_bits: "bit SENDING n \<longleftrightarrow> n = 2" "bit RECEIVING n \<longleftrightarrow> n = 3"
  using bit_exp_iff [of 2 n, where 'a = "8 word"] bit_exp_iff [of 3 n, where 'a = "8 word"]
  by (auto simp: SENDING_def RECEIVING_def)

lemma flag_nonzero: "(w :: 8 word) AND SENDING = 0 \<longleftrightarrow> \<not> bit w 2" "w AND RECEIVING = 0 \<longleftrightarrow> \<not> bit w 3"
  using and_exp_eq_0_iff_not_bit [of w 2] and_exp_eq_0_iff_not_bit [of w 3] by (simp_all add: SENDING_def RECEIVING_def)

lemma clear_sel [simp]:
  "mp_nextready (clear_flag f p) = mp_nextready p" "mp_priority (clear_flag f p) = mp_priority p"
  "mp_max_priority (clear_flag f p) = mp_max_priority p" "mp_nr (clear_flag f p) = mp_nr p" "mp_priv (clear_flag f p) = mp_priv p"
  "mp_sendto (clear_flag f p) = mp_sendto p" "mp_caller_q (clear_flag f p) = mp_caller_q p" "mp_q_link (clear_flag f p) = mp_q_link p"
  "mp_rts_flags (clear_flag f p) = mp_rts_flags p AND NOT f"
  by (simp_all add: clear_flag_def)

lemma set_flag_sel [simp]:
  "mp_nextready (set_flag f p) = mp_nextready p" "mp_priority (set_flag f p) = mp_priority p"
  "mp_max_priority (set_flag f p) = mp_max_priority p" "mp_nr (set_flag f p) = mp_nr p" "mp_priv (set_flag f p) = mp_priv p"
  "mp_sendto (set_flag f p) = mp_sendto p" "mp_caller_q (set_flag f p) = mp_caller_q p" "mp_q_link (set_flag f p) = mp_q_link p"
  "mp_rts_flags (set_flag f p) = mp_rts_flags p OR f"
  by (simp_all add: set_flag_def)

lemma tables_upd:
  assumes "p < 68" and "tables_ok s"
    and "\<And>x. mp_nr (f x) = mp_nr x \<and> mp_priv (f x) = mp_priv x \<and> bit (mp_rts_flags (f x)) 1 = bit (mp_rts_flags x) 1 \<and>
      bit (mp_rts_flags (f x)) 0 = bit (mp_rts_flags x) 0"
  shows "tables_ok (upd p f s)"
  using assms by (simp add: tables_ok_def proc_at_upd priv_of_def)

lemma set_insert_ready: "q < length qs \<Longrightarrow> set (concat (qs[q := insert_ready b rp (qs ! q)])) = insert rp (set (concat qs))"
  using mset_eq_setD [OF mset_insert_ready] by simp

lemma unblock_ok:
  assumes s: "sched_ok s qs" "tables_ok s" "runnable_ok s qs" and rp: "rp < 68" and f: "f = SENDING \<or> f = RECEIVING"
    and on: "mp_rts_flags (proc_at rp s) AND f \<noteq> 0"
  shows "\<exists>s' qs'. unblock f rp s = Ret () s' \<and> sched_ok s' qs' \<and> tables_ok s' \<and> runnable_ok s' qs' \<and>
    same_ipc (upd rp (clear_flag f) s) s'"
proof -
  let ?t = "upd rp (clear_flag f) s"
  have len: "length (mprocs s) = 68" using s by (simp add: tables_ok_def)
  have t: "sched_ok ?t qs" using s rp len by (subst sched_ok_upd) auto
  have tt: "tables_ok ?t" using f by (intro tables_upd [OF rp s(2)]) (auto simp: bit_simps flag_bits)
  have new: "rp \<notin> set (concat qs)" using s(3) rp on by (auto simp: runnable_ok_def)
  have fl: "mp_rts_flags (proc_at x ?t) = (if x = rp then mp_rts_flags (proc_at rp s) AND NOT f else mp_rts_flags (proc_at x s))" for x
    using rp len by (simp add: proc_at_upd)
  show ?thesis
  proof (cases "mp_rts_flags (proc_at rp ?t) = 0")
    case True
    obtain s' q where e: "enqueue rp ?t = Ret () s'" "q < 16" and ok: "sched_ok s' (qs[q := insert_ready (mp_ticks_left (proc_at rp ?t) > 0) rp (qs ! q)])"
      and same: "same_ipc ?t s'"
      using enqueue_ok [OF t rp new] by blast
    let ?qs = "qs[q := insert_ready (mp_ticks_left (proc_at rp ?t) > 0) rp (qs ! q)]"
    have "q < length qs" using e(2) s(1) by (simp add: sched_ok_def ready_ok_def)
    then have "set (concat ?qs) = insert rp (set (concat qs))" by (rule set_insert_ready)
    then have "runnable_ok s' ?qs"
      using s(3) True fl same_ipc_sel(1) [OF same] by (auto simp: runnable_ok_def)
    then show ?thesis using e ok same True tt same_ipc_tables [OF same] by (auto simp: unblock_def Let_def)
  next
    case False
    then have "runnable_ok ?t qs" using s(3) fl new by (auto simp: runnable_ok_def)
    then show ?thesis using False t tt by (intro exI [of _ ?t] exI [of _ qs]) (simp add: unblock_def Let_def)
  qed
qed

lemma unready_ok:
  assumes s: "sched_ok s qs" "tables_ok s" "runnable_ok s qs" and rp: "rp < 68"
  shows "\<exists>s' qs'. unready rp s = Ret () s' \<and> sched_ok s' qs' \<and> tables_ok s' \<and> same_ipc s s' \<and>
    set (concat qs') = {x. x < 68 \<and> mp_rts_flags (proc_at x s) = 0} - {rp}"
proof (cases "mp_rts_flags (proc_at rp s) = 0")
  case True
  have "prio_ok (proc_at rp s)" using s(1) rp by (simp add: sched_ok_def)
  then obtain q where q: "mp_priority (proc_at rp s) = int q"
    by (auto simp: prio_ok_def intro: that [of "nat (mp_priority (proc_at rp s))"])
  have "iskernelp rp s \<Longrightarrow> has_priv rp s \<and> ms_stack_word (priv_of rp s) = STACK_GUARD"
    using s(2) rp True tables_priv [OF s(2) rp] by (simp add: tables_ok_def iskernelp_def)
  from dequeue_ok [OF s(1) rp q this] obtain s' where
    d: "dequeue rp s = Ret () s'" "sched_ok s' (qs[q := remove1 rp (qs ! q)])" "same_ipc s s'"
    and set: "set (concat (qs[q := remove1 rp (qs ! q)])) = set (concat qs) - {rp}" by blast
  have "set (concat qs) \<subseteq> {..<68}" using s(1) by (simp add: sched_ok_def ready_ok_def)
  then have "set (concat qs) = {x. x < 68 \<and> mp_rts_flags (proc_at x s) = 0}" using s(3) by (auto simp: runnable_ok_def)
  then show ?thesis using d set True s(2) same_ipc_tables [OF d(3)] by (auto simp: unready_def)
next
  case False
  have "set (concat qs) \<subseteq> {..<68}" using s(1) by (simp add: sched_ok_def ready_ok_def)
  then have "set (concat qs) = {x. x < 68 \<and> mp_rts_flags (proc_at x s) = 0} - {rp}" using s(3) False by (auto simp: runnable_ok_def)
  then show ?thesis using False s by (intro exI [of _ s] exI [of _ qs]) (simp add: unready_def)
qed

section \<open>The deadlock check\<close>

lemma proc_addr_lt: "proc_addr n = Some d \<Longrightarrow> d < 68"
  by (auto simp: proc_addr_def isokprocn_def M_NR_TASKS_def M_NR_PROCS_def split: if_splits)

lemma waits_lt: "(x, d) \<in> waits s \<Longrightarrow> x < 68 \<and> d < 68"
  by (auto simp: waits_def sending_def proc_addr_lt)

lemma wf_waits: "acyclic (waits s) \<Longrightarrow> wf ((waits s)\<inverse>)"
proof -
  assume a: "acyclic (waits s)"
  have "waits s \<subseteq> {..<68} \<times> {..<68}" using waits_lt by auto
  then have "finite (waits s)" by (rule finite_subset) simp
  then show ?thesis using a by (simp add: finite_acyclic_wf_converse)
qed

lemma send_chain_eq:
  assumes "callers_ok s cq"
  shows "xp < 68 \<Longrightarrow> send_chain caller xp s = Some (Some ((xp, caller) \<in> (waits s)\<^sup>+))"
proof (induction xp rule: wf_induct_rule [OF wf_waits [of s]])
  case 1
  then show ?case using assms by (simp add: callers_ok_def)
next
  case (2 xp)
  show ?case
  proof (cases "sending s xp")
    case False
    then have "(xp, y) \<notin> waits s" for y by (simp add: waits_def)
    then have "(xp, caller) \<notin> (waits s)\<^sup>+" by (meson tranclD)
    then show ?thesis using False "2.prems" by (subst send_chain.simps) (simp add: sending_def)
  next
    case True
    then obtain x where x: "proc_addr (mp_sendto (proc_at xp s)) = Some x" using assms by (auto simp: callers_ok_def)
    then have e: "(xp, x) \<in> waits s" and u: "\<And>y. (xp, y) \<in> waits s \<Longrightarrow> y = x" using True by (auto simp: waits_def)
    have "(xp, caller) \<in> (waits s)\<^sup>+ \<longleftrightarrow> x = caller \<or> (x, caller) \<in> (waits s)\<^sup>+"
      using e u by (metis converse_tranclE r_into_trancl trancl_into_trancl2)
    moreover have "send_chain caller x s = Some (Some ((x, caller) \<in> (waits s)\<^sup>+))"
      using "2.IH" [of x] e waits_lt [OF e] by simp
    ultimately show ?thesis using True x by (subst send_chain.simps) (auto simp: sending_def)
  qed
qed

section \<open>Caller queues\<close>

lemma qlink_at_eq:
  assumes "seg (qlinks s) (mp_caller_q (proc_at d s)) (xs @ ys) None"
  shows "qlink_at d (last_ptr xs) s = (case ys of [] \<Rightarrow> None | y # _ \<Rightarrow> Some y)"
  using assms seg_to_last [of xs "qlinks s" "mp_caller_q (proc_at d s)"]
  by (auto simp: seg_append qlink_at_def last_ptr_def qlinks_def split: list.splits)

lemma queue_end_eq:
  "seg (qlinks s) (mp_caller_q (proc_at d s)) (xs @ ys) None \<Longrightarrow> queue_end d (last_ptr xs) s = Some (last_ptr (xs @ ys))"
proof (induction ys arbitrary: xs)
  case Nil
  then show ?case using qlink_at_eq [of s d xs "[]"] by (subst queue_end.simps) simp
next
  case (Cons y ys)
  have "queue_end d (last_ptr xs) s = queue_end d (last_ptr (xs @ [y])) s"
    using qlink_at_eq [OF Cons.prems] by (subst queue_end.simps) (simp add: last_ptr_def)
  then show ?case using Cons.IH [of "xs @ [y]"] Cons.prems by simp
qed

definition wanted :: "mkernel \<Rightarrow> int \<Rightarrow> nat \<Rightarrow> bool" where
  "wanted s src y \<longleftrightarrow> src = ANY \<or> src = mp_nr (proc_at y s)"

lemma find_sender_eq:
  "seg (qlinks s) (mp_caller_q (proc_at d s)) (xs @ ys) None \<Longrightarrow>
   find_sender d src (last_ptr xs) s = Some
     (case dropWhile (\<lambda>y. \<not> wanted s src y) ys of
        [] \<Rightarrow> None | y # _ \<Rightarrow> Some (last_ptr (xs @ takeWhile (\<lambda>y. \<not> wanted s src y) ys), y))"
proof (induction ys arbitrary: xs)
  case Nil
  then show ?case using qlink_at_eq [of s d xs "[]"] by (subst find_sender.simps) simp
next
  case (Cons y ys)
  have "find_sender d src (last_ptr xs) s =
      (if wanted s src y then Some (Some (last_ptr xs, y)) else find_sender d src (last_ptr (xs @ [y])) s)"
    using qlink_at_eq [OF Cons.prems] by (subst find_sender.simps) (simp add: last_ptr_def wanted_def)
  then show ?case using Cons.IH [of "xs @ [y]"] Cons.prems
    by (cases "dropWhile (\<lambda>y. \<not> wanted s src y) ys") (auto simp del: dropWhile_eq_Nil_conv)
qed

lemma callersD:
  assumes "callers_ok s cq" and "d < 68"
  shows "seg (qlinks s) (mp_caller_q (proc_at d s)) (cq d) None" "distinct (cq d)" "set (cq d) = {x. (x, d) \<in> waits s}"
  using assms by (auto simp: callers_ok_def)

lemma waits_fun: "(x, d) \<in> waits s \<Longrightarrow> (x, e) \<in> waits s \<Longrightarrow> d = e"
  by (simp add: waits_def)

lemma callers_disjoint:
  "callers_ok s cq \<Longrightarrow> d < 68 \<Longrightarrow> e < 68 \<Longrightarrow> e \<noteq> d \<Longrightarrow> y \<in> set (cq e) \<Longrightarrow> y \<notin> set (cq d)"
  using waits_fun [of y d s e] by (auto simp: callersD(3))

lemma append_caller:
  assumes c: "callers_ok s cq" and d: "d < 68" "caller < 68" and ns: "\<not> sending s caller" and nd: "(d, caller) \<notin> (waits s)\<^sup>*"
    and fl: "\<And>y. sending t y \<longleftrightarrow> sending s y \<or> y = caller"
    and st: "\<And>y. y \<noteq> caller \<Longrightarrow> mp_sendto (proc_at y t) = mp_sendto (proc_at y s)" "proc_addr (mp_sendto (proc_at caller t)) = Some d"
    and ql: "qlinks t = (if cq d = [] then qlinks s else (qlinks s)(last (cq d) := Some caller))(caller := None)"
    and ch: "\<And>e. mp_caller_q (proc_at e t) = (if e = d \<and> cq d = [] then Some caller else mp_caller_q (proc_at e s))"
  shows "callers_ok t (cq(d := cq d @ [caller]))"
proof -
  have w: "waits t = insert (caller, d) (waits s)"
    using fl st ns by (auto simp: waits_def) (metis, metis)
  have nc: "caller \<notin> set (cq e)" if "e < 68" for e using callersD(3) [OF c that] ns by (auto simp: waits_def)
  have "seg (qlinks t) (mp_caller_q (proc_at e t)) ((cq(d := cq d @ [caller])) e) None \<and>
      distinct ((cq(d := cq d @ [caller])) e) \<and> set ((cq(d := cq d @ [caller])) e) = {x. (x, e) \<in> waits t}" if e: "e < 68" for e
  proof (cases "e = d")
    case True
    then show ?thesis using seg_snoc [OF callersD(1,2) [OF c d(1)] nc [OF d(1)]] callersD [OF c d(1)] nc [OF d(1)] ql ch w
      by (auto simp del: fun_upd_apply simp: fun_upd_same)
  next
    case False
    have "qlinks t x = qlinks s x" if "x \<in> set (cq e)" for x
    proof -
      have "x \<notin> set (cq d)" by (rule callers_disjoint [OF c d(1) e False that])
      then have "cq d \<noteq> [] \<Longrightarrow> x \<noteq> last (cq d)" by (metis last_in_set)
      then show ?thesis using ql that nc [OF e] by auto
    qed
    then have "seg (qlinks t) (mp_caller_q (proc_at e s)) (cq e) None" using callersD(1) [OF c e] seg_cong [of "cq e" "qlinks t" "qlinks s"] by simp
    then show ?thesis using False callersD(2,3) [OF c e] ch w by auto
  qed
  moreover have "acyclic (waits t)" using c nd unfolding w by (simp add: callers_ok_def acyclic_insert)
  moreover have "\<forall>x. sending t x \<longrightarrow> proc_addr (mp_sendto (proc_at x t)) \<noteq> None"
    using c fl st by (metis callers_ok_def option.distinct(1))
  ultimately show ?thesis by (simp add: callers_ok_def)
qed

lemma remove_caller:
  assumes c: "callers_ok s cq" and d: "d < 68" and cq: "cq d = as @ x # bs"
    and fl: "\<And>y. sending t y \<longleftrightarrow> sending s y \<and> y \<noteq> x"
    and st: "\<And>y. mp_sendto (proc_at y t) = mp_sendto (proc_at y s)"
    and ql: "qlinks t = (if as = [] then qlinks s else (qlinks s)(last as := qlinks s x))"
    and ch: "\<And>e. mp_caller_q (proc_at e t) = (if e = d \<and> as = [] then qlinks s x else mp_caller_q (proc_at e s))"
  shows "callers_ok t (cq(d := as @ bs))"
proof -
  have xd: "(x, d) \<in> waits s" using callersD(3) [OF c d] cq by auto
  have w: "waits t = waits s - {(x, d)}" using fl st xd by (auto simp: waits_def)
  have "seg (qlinks t) (mp_caller_q (proc_at e t)) ((cq(d := as @ bs)) e) None \<and>
      distinct ((cq(d := as @ bs)) e) \<and> set ((cq(d := as @ bs)) e) = {x. (x, e) \<in> waits t}" if e: "e < 68" for e
  proof (cases "e = d")
    case True
    have "set (as @ bs) = {y. (y, d) \<in> waits t}" using callersD(2,3) [OF c d] cq w by auto
    then show ?thesis using True seg_cut [of "qlinks s" "mp_caller_q (proc_at d s)" as x bs] callersD [OF c d] cq ql ch by simp
  next
    case False
    have "qlinks t y = qlinks s y" if "y \<in> set (cq e)" for y
    proof -
      have "y \<notin> set as" using callers_disjoint [OF c d e False that] cq by simp
      then have "as \<noteq> [] \<Longrightarrow> y \<noteq> last as" by (metis last_in_set)
      then show ?thesis using ql by auto
    qed
    then have "seg (qlinks t) (mp_caller_q (proc_at e s)) (cq e) None" using callersD(1) [OF c e] seg_cong [of "cq e" "qlinks t" "qlinks s"] by simp
    then show ?thesis using False callersD(2,3) [OF c e] ch w by auto
  qed
  moreover have "acyclic (waits t)" using c acyclic_subset [of "waits s" "waits t"] unfolding w callers_ok_def by blast
  moreover have "\<forall>y. sending t y \<longrightarrow> proc_addr (mp_sendto (proc_at y t)) \<noteq> None"
    using c fl st unfolding callers_ok_def by metis
  ultimately show ?thesis unfolding callers_ok_def by blast
qed

end
