(* ===== verification/Mipcprops.thy ===== *)
theory Mipcprops
  imports Mipcinv
begin

text \<open>
  How the steps of which message passing is made keep the invariant: changes of memory and of privilege structures, waking
  a receiver, blocking a receiver, and blocking a sender at the end of a caller queue.
\<close>

section \<open>Changes outside the process table\<close>

lemma priv_frame:
  assumes "minix_ok s qs cq" and "\<And>x. proc_at x t = proc_at x s" and "rdy_head t = rdy_head s" "rdy_tail t = rdy_tail s"
    "next_ptr t = next_ptr s" "proc_ptr t = proc_ptr s" "length (mprocs t) = length (mprocs s)" "length (mprivs t) = 32"
    and "\<And>i. i < 32 \<Longrightarrow> priv_ok (mprivs t ! i) \<and> ms_stack_word (mprivs t ! i) = ms_stack_word (mprivs s ! i) \<and>
      ms_trap_mask (mprivs t ! i) = ms_trap_mask (mprivs s ! i)"
  shows "minix_ok t qs cq"
proof -
  have "sched_ok t qs = sched_ok s qs" by (rule sched_ok_proc) (use assms in simp_all)
  moreover have "waits t = waits s" "qlinks t = qlinks s" "\<And>x. sending t x = sending s x"
    using assms by (simp_all add: waits_def sending_def qlinks_def [abs_def])
  moreover have "tables_ok t" using assms by (simp add: tables_ok_def minix_ok_def priv_of_def)
  ultimately show ?thesis using assms(1,2) by (simp add: minix_ok_def callers_ok_def runnable_ok_def)
qed

lemma mem_frame: "minix_ok s qs cq \<Longrightarrow> minix_ok (s\<lparr>mmem := m\<rparr>) qs cq"
  by (rule priv_frame) (auto simp: minix_ok_def tables_ok_def)

lemma upd_priv_frame:
  assumes "minix_ok s qs cq" and "\<And>p. priv_ok p \<Longrightarrow> priv_ok (f p) \<and> ms_stack_word (f p) = ms_stack_word p \<and> ms_trap_mask (f p) = ms_trap_mask p"
  shows "minix_ok (upd_priv i f s) qs cq"
  by (rule priv_frame [OF assms(1)])
    (use assms in \<open>auto simp: minix_ok_def tables_ok_def upd_priv_def nth_list_update_cases\<close>)

lemma poke_m_frame: "minix_ok s qs cq \<Longrightarrow> minix_ok (poke_m off w s) qs cq"
  unfolding poke_m_def by (rule mem_frame)

lemma CopyMess_frame: "minix_ok s qs cq \<Longrightarrow> minix_ok (CopyMess n a b c d s) qs cq"
  unfolding CopyMess_def by (rule mem_frame)

lemma BuildMess_frame: "minix_ok s qs cq \<Longrightarrow> minix_ok (BuildMess nr d s) qs cq"
  unfolding BuildMess_def Let_def by (auto intro!: poke_m_frame upd_priv_frame simp: priv_ok_def)

lemma proc_at_poke [simp]: "proc_at x (poke_m off w s) = proc_at x s"
  by (simp add: poke_m_def)

lemma proc_at_Build [simp]: "proc_at x (BuildMess nr d s) = proc_at x s" "proc_at x (CopyBuilt nr d m s) = proc_at x s"
  by (simp_all add: BuildMess_def Let_def CopyBuilt_def)

section \<open>Blocking and unblocking\<close>

lemma callers_cong:
  assumes "callers_ok s cq" and "\<And>x. sending t x = sending s x" and "\<And>x. mp_sendto (proc_at x t) = mp_sendto (proc_at x s)"
    and "\<And>x. mp_caller_q (proc_at x t) = mp_caller_q (proc_at x s)" "\<And>x. mp_q_link (proc_at x t) = mp_q_link (proc_at x s)"
  shows "callers_ok t cq"
proof -
  have "waits t = waits s" "qlinks t = qlinks s" using assms by (simp_all add: waits_def qlinks_def [abs_def])
  then show ?thesis using assms by (simp add: callers_ok_def)
qed

lemma wake_receiver:
  assumes ok: "minix_ok s qs cq" and d: "d < 68" and on: "mp_rts_flags (proc_at d s) AND RECEIVING \<noteq> 0"
  shows "\<exists>s' qs'. unblock RECEIVING d s = Ret () s' \<and> minix_ok s' qs' cq \<and> same_ipc (upd d (clear_flag RECEIVING) s) s'"
proof -
  obtain s' qs' where s': "unblock RECEIVING d s = Ret () s'" "sched_ok s' qs'" "tables_ok s'" "runnable_ok s' qs'"
    and same: "same_ipc (upd d (clear_flag RECEIVING) s) s'"
    using unblock_ok [OF minix_okD(1,2,4) [OF ok] d _ on] by blast
  have "callers_ok s' cq"
    by (rule callers_cong [OF minix_okD(3) [OF ok]])
      (use same_ipc_sel [OF same] minix_okD(5) [OF ok] d in
        \<open>auto simp: proc_at_upd sending_def flag_nonzero bit_simps flag_bits\<close>)
  then show ?thesis using s' same by (auto simp: minix_ok_def)
qed

lemma runnable_blocked:
  assumes "set (concat qs') = {x. x < 68 \<and> mp_rts_flags (proc_at x s) = 0} - {p}" and "mp_rts_flags (proc_at p t) \<noteq> 0"
    and "\<And>x. x \<noteq> p \<Longrightarrow> mp_rts_flags (proc_at x t) = mp_rts_flags (proc_at x s)"
  shows "runnable_ok t qs'"
  unfolding runnable_ok_def using assms by (metis (mono_tags, lifting) Diff_iff mem_Collect_eq singletonD insertI1)

lemma flag_or_nonzero: "(w :: 8 word) OR SENDING \<noteq> 0" "w OR RECEIVING \<noteq> 0"
  by (auto simp: or_eq_0_iff SENDING_def RECEIVING_def)

lemma block_receiver_ok:
  assumes ok: "minix_ok s qs cq" and c: "caller < 68" and fl: "flags AND NON_BLOCKING = 0"
  shows "\<exists>s' qs'. block_receiver caller src m flags s = Ret M_OK s' \<and> minix_ok s' qs' cq \<and> mmem s' = mmem s \<and>
    (\<forall>x. mp_rts_flags (proc_at x s') = (if x = caller then mp_rts_flags (proc_at x s) OR RECEIVING else mp_rts_flags (proc_at x s))) \<and>
    proc_ptr s' = proc_ptr s \<and>
    mp_getfrom (proc_at caller s') = src \<and> mp_messbuf (proc_at caller s') = m"
proof -
  let ?a = "upd caller (\<lambda>p. p\<lparr>mp_getfrom := src, mp_messbuf := m\<rparr>) s"
  have len: "length (mprocs s) = 68" by (rule minix_okD(5) [OF ok])
  have a: "sched_ok ?a qs" "tables_ok ?a" "runnable_ok ?a qs"
    using minix_okD [OF ok] c by (auto simp: sched_ok_upd tables_upd runnable_ok_def proc_at_upd)
  obtain b qs' where b: "unready caller ?a = Ret () b" "sched_ok b qs'" "tables_ok b" "same_ipc ?a b"
    "set (concat qs') = {x. x < 68 \<and> mp_rts_flags (proc_at x ?a) = 0} - {caller}"
    using unready_ok [OF a c] by blast
  note sel = same_ipc_sel [OF b(4)]
  let ?t = "upd caller (set_flag RECEIVING) b"
  have lb: "length (mprocs b) = 68" using sel(11) len by simp
  have "sched_ok ?t qs'" using b(2) c lb by (subst sched_ok_upd) auto
  moreover have "tables_ok ?t" by (rule tables_upd [OF c b(3)]) (auto simp: bit_simps flag_bits)
  moreover have "callers_ok ?t cq"
    by (rule callers_cong [OF minix_okD(3) [OF ok]])
      (use sel c lb len in \<open>auto simp: proc_at_upd sending_def flag_nonzero bit_simps flag_bits\<close>)
  moreover have "runnable_ok ?t qs'"
    by (rule runnable_blocked [OF b(5)]) (use sel c lb len flag_or_nonzero in \<open>auto simp: proc_at_upd\<close>)
  ultimately show ?thesis using b(1) fl sel c lb len
    by (intro exI [of _ ?t] exI [of _ qs']) (simp add: block_receiver_def minix_ok_def proc_at_upd set_flag_def)
qed

section \<open>Sending\<close>

lemma seg_last_ptr: "xs \<noteq> [] \<Longrightarrow> last_ptr xs = Some (last xs)" "last_ptr [] = None"
  by (simp_all add: last_ptr_def)

lemma set_qlink_sel:
  assumes "d < length (mprocs s)" and "prev = None \<or> the prev < length (mprocs s)"
  shows "mp_rts_flags (proc_at x (set_qlink_at d prev v s)) = mp_rts_flags (proc_at x s)"
    "mp_sendto (proc_at x (set_qlink_at d prev v s)) = mp_sendto (proc_at x s)"
    "mp_messbuf (proc_at x (set_qlink_at d prev v s)) = mp_messbuf (proc_at x s)"
    "mp_caller_q (proc_at x (set_qlink_at d prev v s)) = (if x = d \<and> prev = None then v else mp_caller_q (proc_at x s))"
    "qlinks (set_qlink_at d prev v s) = (case prev of None \<Rightarrow> qlinks s | Some p \<Rightarrow> (qlinks s)(p := v))"
    "length (mprocs (set_qlink_at d prev v s)) = length (mprocs s)" "mmem (set_qlink_at d prev v s) = mmem s"
    "proc_ptr (set_qlink_at d prev v s) = proc_ptr s"
  using assms by (auto simp: set_qlink_at_def proc_at_upd qlinks_def fun_eq_iff split: option.splits)

lemma set_qlink_frame:
  assumes "d < 68" and "prev = None \<or> the prev < 68" and "length (mprocs s) = 68"
  shows "sched_ok (set_qlink_at d prev v s) qs = sched_ok s qs" "tables_ok s \<Longrightarrow> tables_ok (set_qlink_at d prev v s)"
proof -
  show "sched_ok (set_qlink_at d prev v s) qs = sched_ok s qs"
    using assms by (auto simp: set_qlink_at_def sched_ok_upd split: option.splits)
  assume t: "tables_ok s"
  show "tables_ok (set_qlink_at d prev v s)"
    using assms t by (auto simp: set_qlink_at_def split: option.splits intro!: tables_upd)
qed

text \<open>The first half of a blocking send: the caller leaves the ready queues and goes to the end of the caller queue.\<close>

definition queued :: "nat \<Rightarrow> nat \<Rightarrow> int \<Rightarrow> pptr \<Rightarrow> mkernel \<Rightarrow> mkernel" where
  "queued caller d dst p b =
     upd caller (\<lambda>p. p\<lparr>mp_q_link := None\<rparr>)
       (set_qlink_at d p (Some caller) (upd caller (\<lambda>p. (set_flag SENDING p)\<lparr>mp_sendto := dst\<rparr>) b))"

lemma block_sender_run:
  assumes ok: "minix_ok s qs cq" and c: "caller < 68" and d: "proc_addr dst = Some d"
  shows "\<exists>b qs'. block_sender caller d dst m s = Ret M_OK (queued caller d dst (last_ptr (cq d)) b) \<and>
    sched_ok b qs' \<and> tables_ok b \<and> same_ipc (upd caller (\<lambda>p. p\<lparr>mp_messbuf := m\<rparr>) s) b \<and>
    set (concat qs') = {x. x < 68 \<and> mp_rts_flags (proc_at x (upd caller (\<lambda>p. p\<lparr>mp_messbuf := m\<rparr>) s)) = 0} - {caller} \<and>
    (last_ptr (cq d) = None \<or> the (last_ptr (cq d)) < 68)"
proof -
  let ?a = "upd caller (\<lambda>p. p\<lparr>mp_messbuf := m\<rparr>) s"
  let ?p = "last_ptr (cq d)"
  have d68: "d < 68" by (rule proc_addr_lt [OF d])
  have len: "length (mprocs s) = 68" by (rule minix_okD(5) [OF ok])
  have cal: "callers_ok s cq" by (rule minix_okD(3) [OF ok])
  have a: "sched_ok ?a qs" "tables_ok ?a" "runnable_ok ?a qs"
    using minix_okD [OF ok] c by (auto simp: sched_ok_upd tables_upd runnable_ok_def proc_at_upd)
  obtain b qs' where b: "unready caller ?a = Ret () b" "sched_ok b qs'" "tables_ok b" "same_ipc ?a b"
    "set (concat qs') = {x. x < 68 \<and> mp_rts_flags (proc_at x ?a) = 0} - {caller}"
    using unready_ok [OF a c] by blast
  note sel = same_ipc_sel [OF b(4)]
  let ?e = "upd caller (\<lambda>p. (set_flag SENDING p)\<lparr>mp_sendto := dst\<rparr>) b"
  have lb: "length (mprocs b) = 68" using sel(11) len by simp
  have p68: "?p = None \<or> the ?p < 68"
    using callersD(3) [OF cal d68] last_in_set [of "cq d"] waits_lt [of "last (cq d)" d s] by (auto simp: last_ptr_def simp del: last_in_set)
  have ql: "qlinks ?e = qlinks s" "mp_caller_q (proc_at e ?e) = mp_caller_q (proc_at e s)" for e
    using sel c lb len by (auto simp: qlinks_def proc_at_upd fun_eq_iff)
  have "queue_end d None ?e = Some ?p"
    using queue_end_eq [of ?e d "[]" "cq d"] callersD(1) [OF cal d68] ql by (simp add: seg_last_ptr)
  then have "block_sender caller d dst m s = Ret M_OK (queued caller d dst ?p b)"
    using b(1) by (simp add: block_sender_def queued_def)
  then show ?thesis using b(2-5) p68 by blast
qed

lemma block_sender_ok:
  assumes ok: "minix_ok s qs cq" and c: "caller < 68" and ns: "\<not> sending s caller"
    and d: "proc_addr dst = Some d" and nd: "(d, caller) \<notin> (waits s)\<^sup>*"
  shows "\<exists>s' qs'. block_sender caller d dst m s = Ret M_OK s' \<and> minix_ok s' qs' (cq(d := cq d @ [caller])) \<and> mmem s' = mmem s \<and>
    (\<forall>x. mp_rts_flags (proc_at x s') = (if x = caller then mp_rts_flags (proc_at x s) OR SENDING else mp_rts_flags (proc_at x s))) \<and>
    proc_ptr s' = proc_ptr s \<and>
    mp_sendto (proc_at caller s') = dst \<and> mp_messbuf (proc_at caller s') = m"
proof -
  let ?a = "upd caller (\<lambda>p. p\<lparr>mp_messbuf := m\<rparr>) s"
  have d68: "d < 68" by (rule proc_addr_lt [OF d])
  have len: "length (mprocs s) = 68" by (rule minix_okD(5) [OF ok])
  have cal: "callers_ok s cq" by (rule minix_okD(3) [OF ok])
  let ?p = "last_ptr (cq d)"
  from block_sender_run [OF ok c d, of m] obtain b qs' where
    b: "block_sender caller d dst m s = Ret M_OK (queued caller d dst ?p b)" "sched_ok b qs'" "tables_ok b" "same_ipc ?a b"
      "set (concat qs') = {x. x < 68 \<and> mp_rts_flags (proc_at x ?a) = 0} - {caller}"
    and p68: "?p = None \<or> the ?p < 68" by blast
  note sel = same_ipc_sel [OF b(4)]
  let ?e = "upd caller (\<lambda>p. (set_flag SENDING p)\<lparr>mp_sendto := dst\<rparr>) b"
  let ?t = "upd caller (\<lambda>p. p\<lparr>mp_q_link := None\<rparr>) (set_qlink_at d ?p (Some caller) ?e)"
  have lb: "length (mprocs b) = 68" using sel(11) len by simp
  have ql: "qlinks ?e = qlinks s" "mp_caller_q (proc_at e ?e) = mp_caller_q (proc_at e s)" for e
    using sel c lb len by (auto simp: qlinks_def proc_at_upd fun_eq_iff)
  note qs = set_qlink_sel [of d ?e ?p, unfolded upd_simps(8) lb, OF d68 p68]
  have "sched_ok ?t qs'" using b(2) c lb d68 p68 qs(6) by (simp add: sched_ok_upd set_qlink_frame)
  moreover have "tables_ok ?e" by (rule tables_upd [OF c b(3)]) (auto simp: bit_simps flag_bits)
  then have "tables_ok (set_qlink_at d ?p (Some caller) ?e)" using set_qlink_frame(2) [of d ?p ?e] d68 p68 lb by simp
  then have "tables_ok ?t" by (rule tables_upd [OF c]) simp
  moreover have "callers_ok ?t (cq(d := cq d @ [caller]))"
  proof (rule append_caller [OF cal d68 c ns nd])
    show "sending ?t y \<longleftrightarrow> sending s y \<or> y = caller" for y
      using sel c lb len qs(1,6) by (auto simp: sending_def proc_at_upd flag_nonzero bit_simps flag_bits)
    show "y \<noteq> caller \<Longrightarrow> mp_sendto (proc_at y ?t) = mp_sendto (proc_at y s)" for y
      using sel c lb len qs(2,6) by (simp add: proc_at_upd)
    show "proc_addr (mp_sendto (proc_at caller ?t)) = Some d" using c lb qs(2,6) d by (simp add: proc_at_upd)
    have "qlinks ?t = (qlinks (set_qlink_at d ?p (Some caller) ?e))(caller := None)"
      using c lb qs(6) by (auto simp: qlinks_def proc_at_upd fun_eq_iff)
    then show "qlinks ?t = (if cq d = [] then qlinks s else (qlinks s)(last (cq d) := Some caller))(caller := None)"
      using qs(5) ql by (simp add: last_ptr_def)
    show "mp_caller_q (proc_at e ?t) = (if e = d \<and> cq d = [] then Some caller else mp_caller_q (proc_at e s))" for e
    proof -
      have "mp_caller_q (proc_at e ?t) = mp_caller_q (proc_at e (set_qlink_at d ?p (Some caller) ?e))"
        using c lb qs(6) by (simp add: proc_at_upd)
      also have "\<dots> = (if e = d \<and> ?p = None then Some caller else mp_caller_q (proc_at e s))" unfolding qs(4) ql(2) ..
      finally show ?thesis by (simp add: last_ptr_def)
    qed
  qed
  moreover have "runnable_ok ?t qs'"
    by (rule runnable_blocked [OF b(5)]) (use sel c lb len qs(1,6) flag_or_nonzero in \<open>auto simp: proc_at_upd\<close>)
  ultimately show ?thesis using b(1) sel c lb len qs unfolding queued_def
    by (intro exI [of _ ?t] exI [of _ qs']) (simp add: minix_ok_def proc_at_upd set_flag_def)
qed

end
