(* ===== verification/Mmess.thy ===== *)
theory Mmess
  imports Mipc
begin

text \<open>
  The copy of a message: \<open>cp_mess\<close> moves nine words, of which the first is the number of the sender. Where source
  and destination do not overlap, the destination holds the message of the source afterwards.
\<close>

lemma lt4_cases: "(i :: nat) < 4 \<longleftrightarrow> i = 0 \<or> i = 1 \<or> i = 2 \<or> i = 3"
  by auto

lemma load_byte: "i < 4 \<Longrightarrow> ucast (drop_bit (8 * i) (load32 b m)) = m (b + of_nat i)"
  unfolding lt4_cases
  by (elim disjE; rule bit_word_eqI) (auto simp: load32_def bit_simps dest: bit_imp_le_length)

lemma off_eq_iff: "i < 36 \<Longrightarrow> j < 36 \<Longrightarrow> d + of_nat i = (d + of_nat j :: 32 word) \<longleftrightarrow> i = j"
  by (simp add: word_of_nat_eq_iff take_bit_nat_eq_self)

lemma store_byte:
  "j < 4 \<Longrightarrow> store32 a w m (a + of_nat j) = ucast (drop_bit (8 * j) w)"
  "(\<And>j. j < 4 \<Longrightarrow> x \<noteq> a + of_nat j) \<Longrightarrow> store32 a w m x = m x"
proof -
  assume "j < 4"
  then show "store32 a w m (a + of_nat j) = ucast (drop_bit (8 * j) w)"
    unfolding lt4_cases by (elim disjE) (simp_all add: store32_def)
next
  assume "\<And>j. j < 4 \<Longrightarrow> x \<noteq> a + of_nat j"
  from this [of 0] this [of 1] this [of 2] this [of 3] show "store32 a w m x = m x" by (simp add: store32_def)
qed

lemma store_off:
  assumes "k < 9" "i < 36"
  shows "store32 (d + of_nat (4 * k)) w m (d + of_nat i) = (if i div 4 = k then ucast (drop_bit (8 * (i mod 4)) w) else m (d + of_nat i))"
proof (cases "i div 4 = k")
  case True
  have "of_nat i = (of_nat (4 * (i div 4) + i mod 4) :: 32 word)" by simp
  then have "d + of_nat i = d + of_nat (4 * k) + of_nat (i mod 4)" unfolding True of_nat_add by (simp add: add.assoc)
  then show ?thesis using True store_byte(1) [of "i mod 4" "d + of_nat (4 * k)" w m] by (simp add: add.assoc)
next
  case False
  have "d + of_nat i \<noteq> d + of_nat (4 * k) + of_nat j" if "j < 4" for j
  proof -
    have "i \<noteq> 4 * k + j" using False that by auto
    then have "d + of_nat i \<noteq> d + of_nat (4 * k + j)" using off_eq_iff [of i "4 * k + j" d] assms that by simp
    then show ?thesis by (simp add: add.assoc)
  qed
  from store_byte(2) [of "d + of_nat i" "d + of_nat (4 * k)", OF this] show ?thesis using False by simp
qed

lemma store_other:
  assumes "k < 9" and a: "\<And>j. j < 36 \<Longrightarrow> a \<noteq> d + of_nat j"
  shows "store32 (d + of_nat (4 * k)) w m a = m a"
proof (rule store_byte(2))
  fix j :: nat assume "j < 4"
  then show "a \<noteq> d + of_nat (4 * k) + of_nat j" using a [of "4 * k + j"] assms(1) by (simp add: algebra_simps)
qed

definition copied :: "nat \<Rightarrow> 32 word \<Rightarrow> 32 word \<Rightarrow> 32 word \<Rightarrow> (32 word \<Rightarrow> 8 word) \<Rightarrow> 32 word \<Rightarrow> 8 word" where
  "copied n src s d m =
     fold (\<lambda>i m. store32 (d + of_nat (4 * i)) (load32 (s + of_nat (4 * i)) m) m) [1..<n] (store32 d src m)"

lemma copied_Suc:
  "1 \<le> n \<Longrightarrow> copied (Suc n) src s d m =
     store32 (d + of_nat (4 * n)) (load32 (s + of_nat (4 * n)) (copied n src s d m)) (copied n src s d m)"
  by (simp add: copied_def)

lemma copied_bytes:
  assumes disj: "\<And>i j. i < 36 \<Longrightarrow> j < 36 \<Longrightarrow> s + of_nat i \<noteq> d + of_nat j"
  shows "1 \<le> n \<Longrightarrow> n \<le> 9 \<Longrightarrow>
    (\<forall>i < 36. copied n src s d m (d + of_nat i) =
       (if i < 4 then ucast (drop_bit (8 * i) src) else if i < 4 * n then m (s + of_nat i) else m (d + of_nat i))) \<and>
    (\<forall>a. (\<forall>j < 36. a \<noteq> d + of_nat j) \<longrightarrow> copied n src s d m a = m a)"
proof (induction n rule: nat_induct_at_least)
  case base
  have "copied 1 src s d m = store32 (d + of_nat (4 * 0)) src m" by (simp add: copied_def)
  then show ?case using store_off [of 0 _ d src m] store_other [of 0 _ d src m] by auto
next
  case (Suc n)
  let ?c = "copied n src s d m"
  have n: "n < 9" "1 \<le> n" using Suc by simp_all
  have src: "?c (s + of_nat i) = m (s + of_nat i)" if "i < 36" for i
    using Suc disj [OF that] by simp
  have w: "ucast (drop_bit (8 * j) (load32 (s + of_nat (4 * n)) ?c)) = m (s + of_nat (4 * n + j))" if "j < 4" for j
    using load_byte [OF that, of "s + of_nat (4 * n)" ?c] src [of "4 * n + j"] n that by (simp add: algebra_simps)
  have "copied (Suc n) src s d m (d + of_nat i) =
      (if i < 4 then ucast (drop_bit (8 * i) src) else if i < 4 * Suc n then m (s + of_nat i) else m (d + of_nat i))" if i: "i < 36" for i
  proof (cases "i div 4 = n")
    case True
    then have "i = 4 * n + i mod 4" "\<not> i < 4" "i < 4 * Suc n" using n by auto
    then show ?thesis using store_off [OF n(1) i] w [of "i mod 4"] True by (simp add: copied_Suc n)
  next
    case False
    then have "i < 4 * n \<longleftrightarrow> i < 4 * Suc n" by presburger
    then show ?thesis using store_off [OF n(1) i] Suc i False by (simp add: copied_Suc)
  qed
  moreover have "copied (Suc n) src s d m a = m a" if "\<forall>j < 36. a \<noteq> d + of_nat j" for a
    using store_other [OF n(1), of a d] that Suc by (simp add: copied_Suc)
  ultimately show ?case by blast
qed

lemma cp_mess_bytes:
  assumes "\<And>i j. i < 36 \<Longrightarrow> j < 36 \<Longrightarrow> s + of_nat i \<noteq> d + of_nat j"
  shows "i < 36 \<Longrightarrow> cp_mess src s d m (d + of_nat i) = (if i < 4 then ucast (drop_bit (8 * i) src) else m (s + of_nat i))"
    and "(\<And>j. j < 36 \<Longrightarrow> a \<noteq> d + of_nat j) \<Longrightarrow> cp_mess src s d m a = m a"
proof -
  have "cp_mess src s d m = copied 9 src s d m" by (simp add: cp_mess_def copied_def)
  then show "i < 36 \<Longrightarrow> cp_mess src s d m (d + of_nat i) = (if i < 4 then ucast (drop_bit (8 * i) src) else m (s + of_nat i))"
    and "(\<And>j. j < 36 \<Longrightarrow> a \<noteq> d + of_nat j) \<Longrightarrow> cp_mess src s d m a = m a"
    using copied_bytes [OF assms, of 9 src m] by auto
qed

text \<open>The number of the sender is in the message even when source and destination overlap.\<close>

lemma copied_source: "1 \<le> n \<Longrightarrow> n \<le> 9 \<Longrightarrow> i < 4 \<Longrightarrow> copied n src s d m (d + of_nat i) = ucast (drop_bit (8 * i) src)"
proof (induction n rule: nat_induct_at_least)
  case base
  have "copied 1 src s d m = store32 (d + of_nat (4 * 0)) src m" by (simp add: copied_def)
  then show ?case using store_off [of 0 i d src m] base by simp
next
  case (Suc n)
  then show ?case using store_off [of n i d] by (simp add: copied_Suc)
qed

lemma load_store: "(\<And>i. i < 4 \<Longrightarrow> m (d + of_nat i) = ucast (drop_bit (8 * i) w)) \<Longrightarrow> load32 d m = w"
proof -
  assume a: "\<And>i. i < 4 \<Longrightarrow> m (d + of_nat i) = ucast (drop_bit (8 * i) w)"
  have "bit (load32 d m) n = bit w n" if "n < 32" for n
  proof -
    define q where "q = n div 8"
    define k where "k = n mod 8"
    have n: "n = 8 * q + k" "k < 8" by (simp_all add: q_def k_def)
    have "q < 4" using that by (simp add: q_def)
    then show ?thesis unfolding n(1) lt4_cases
      using a [of 0] a [of 1] a [of 2] a [of 3] n(2) by (elim disjE) (auto simp: load32_def bit_simps)
  qed
  then show ?thesis by (intro bit_word_eqI) simp
qed

lemma cp_mess_source: "load32 d (cp_mess src s d m) = src"
proof -
  have "cp_mess src s d m = copied 9 src s d m" by (simp add: cp_mess_def copied_def)
  then show ?thesis by (intro load_store) (simp add: copied_source)
qed

end
