(* ===== verification/Mipcops.thy ===== *)
theory Mipcops
  imports Mipcprops Mmess
begin

text \<open>
  Postconditions of \<open>mini_send\<close>, \<open>mini_receive\<close> and \<open>mini_notify\<close> of the MINIX kernel for every branch, and the lemmas that they
  return, meet them and keep the invariant.
\<close>

section \<open>Send\<close>

text \<open>A process that waits for a message from the caller: it is receiving, not sending, and asked for this source or any.\<close>

definition awaits :: "mkernel \<Rightarrow> nat \<Rightarrow> nat \<Rightarrow> bool" where
  "awaits s d caller \<longleftrightarrow>
     bit (mp_rts_flags (proc_at d s)) 3 \<and> \<not> bit (mp_rts_flags (proc_at d s)) 2 \<and> mp_getfrom (proc_at d s) \<in> {ANY, int caller - 4}"

lemma receiving_only: "(w :: 8 word) AND (RECEIVING OR SENDING) = RECEIVING \<longleftrightarrow> bit w 3 \<and> \<not> bit w 2"
  unfolding bit_eq_iff by (auto simp: bit_simps flag_bits dest: spec [of _ 3] spec [of _ 2])

text \<open>What a call of \<open>mini_send\<close> does in each of its four cases.\<close>

definition send_post :: "nat \<Rightarrow> nat \<Rightarrow> int \<Rightarrow> 32 word \<Rightarrow> 32 word \<Rightarrow> mkernel \<Rightarrow> (nat \<Rightarrow> nat list) \<Rightarrow> int \<Rightarrow> mkernel \<Rightarrow> (nat \<Rightarrow> nat list) \<Rightarrow> bool" where
  "send_post caller d dst m flags s cq r s' cq' \<longleftrightarrow>
     (if (d, caller) \<in> (waits s)\<^sup>+ then r = ELOCKED \<and> s' = s \<and> cq' = cq
      else if awaits s d caller then
        r = M_OK \<and> cq' = cq \<and>
        mmem s' = cp_mess (word_of_int (int caller - 4)) (phys caller m s) (phys d (mp_messbuf (proc_at d s)) s) (mmem s) \<and>
        (\<forall>x. mp_rts_flags (proc_at x s') = (if x = d then mp_rts_flags (proc_at x s) AND NOT RECEIVING else mp_rts_flags (proc_at x s)))
      else if flags AND NON_BLOCKING = 0 then
        r = M_OK \<and> cq' = cq(d := cq d @ [caller]) \<and> mmem s' = mmem s \<and>
        (\<forall>x. mp_rts_flags (proc_at x s') = (if x = caller then mp_rts_flags (proc_at x s) OR SENDING else mp_rts_flags (proc_at x s))) \<and>
        mp_sendto (proc_at caller s') = dst \<and> mp_messbuf (proc_at caller s') = m
      else r = ENOTREADY \<and> s' = s \<and> cq' = cq)"

lemma tables_nr: "minix_ok s qs cq \<Longrightarrow> x < 68 \<Longrightarrow> mp_nr (proc_at x s) = int x - 4"
  by (simp add: minix_ok_def tables_ok_def)

lemma waiting_for_eq: "minix_ok s qs cq \<Longrightarrow> caller < 68 \<Longrightarrow> waiting_for d caller s \<longleftrightarrow> awaits s d caller"
  by (auto simp: waiting_for_def awaits_def receiving_only tables_nr)

lemma awaits_flags: "awaits s d caller \<Longrightarrow> mp_rts_flags (proc_at d s) AND RECEIVING \<noteq> 0"
  by (simp add: awaits_def flag_nonzero)

lemma mini_send_ok:
  assumes ok: "minix_ok s qs cq" and c: "caller < 68" and ns: "\<not> sending s caller"
    and d: "proc_addr dst = Some d" and ne: "d \<noteq> caller"
  shows "\<exists>r s' qs' cq'. mini_send caller dst m flags s = Ret r s' \<and> minix_ok s' qs' cq' \<and>
    send_post caller d dst m flags s cq r s' cq' \<and> proc_ptr s' = proc_ptr s"
proof -
  have d68: "d < 68" by (rule proc_addr_lt [OF d])
  have chain: "send_chain caller d s = Some (Some ((d, caller) \<in> (waits s)\<^sup>+))"
    by (rule send_chain_eq [OF minix_okD(3) [OF ok] d68])
  note wf = waiting_for_eq [OF ok c]
  consider (lock) "(d, caller) \<in> (waits s)\<^sup>+" | (deliver) "(d, caller) \<notin> (waits s)\<^sup>+" "awaits s d caller"
    | (block) "(d, caller) \<notin> (waits s)\<^sup>+" "\<not> awaits s d caller" "flags AND NON_BLOCKING = 0"
    | (fail) "(d, caller) \<notin> (waits s)\<^sup>+" "\<not> awaits s d caller" "flags AND NON_BLOCKING \<noteq> 0" by blast
  then show ?thesis
  proof cases
    case deliver
    let ?a = "CopyMess (mp_nr (proc_at caller s)) caller m d (mp_messbuf (proc_at d s)) s"
    obtain s' qs' where s': "unblock RECEIVING d ?a = Ret () s'" "minix_ok s' qs' cq" and same: "same_ipc (upd d (clear_flag RECEIVING) ?a) s'"
      using wake_receiver [OF CopyMess_frame [OF ok] d68, of "mp_nr (proc_at caller s)" caller m d "mp_messbuf (proc_at d s)"] awaits_flags [OF deliver(2)] by auto
    have "length (mprocs ?a) = 68" using minix_okD(5) [OF ok] by (simp add: CopyMess_def)
    then have "send_post caller d dst m flags s cq M_OK s' cq"
      using deliver same_ipc_sel [OF same] d68 tables_nr [OF ok c] by (auto simp: send_post_def proc_at_upd CopyMess_def)
    then show ?thesis using s' d chain deliver same_ipc_sel(12) [OF same]
      by (intro exI [of _ M_OK] exI [of _ s'] exI [of _ qs'] exI [of _ cq]) (simp add: mini_send_def CopyMess_def wf)
  next
    case block
    have "(d, caller) \<notin> (waits s)\<^sup>*" using block(1) ne by (simp add: rtrancl_eq_or_trancl)
    from block_sender_ok [OF ok c ns d this, of m] obtain s' qs' where
      "block_sender caller d dst m s = Ret M_OK s'" "minix_ok s' qs' (cq(d := cq d @ [caller]))" "proc_ptr s' = proc_ptr s"
      "send_post caller d dst m flags s cq M_OK s' (cq(d := cq d @ [caller]))"
      using block by (auto simp: send_post_def)
    then show ?thesis using d chain block by (auto simp: mini_send_def wf)
  qed (use ok d chain in \<open>auto simp: mini_send_def send_post_def wf\<close>)
qed

section \<open>Receive\<close>

definition block_post :: "nat \<Rightarrow> int \<Rightarrow> 32 word \<Rightarrow> 32 word \<Rightarrow> mkernel \<Rightarrow> (nat \<Rightarrow> nat list) \<Rightarrow> int \<Rightarrow> mkernel \<Rightarrow> (nat \<Rightarrow> nat list) \<Rightarrow> bool" where
  "block_post caller src m flags s cq r s' cq' \<longleftrightarrow>
     (if flags AND NON_BLOCKING = 0 then
        r = M_OK \<and> cq' = cq \<and> mmem s' = mmem s \<and> mp_getfrom (proc_at caller s') = src \<and> mp_messbuf (proc_at caller s') = m \<and>
        (\<forall>x. mp_rts_flags (proc_at x s') = (if x = caller then mp_rts_flags (proc_at x s) OR RECEIVING else mp_rts_flags (proc_at x s)))
      else r = ENOTREADY \<and> s' = s \<and> cq' = cq)"

definition accept_post :: "nat \<Rightarrow> 32 word \<Rightarrow> nat \<Rightarrow> mkernel \<Rightarrow> (nat \<Rightarrow> nat list) \<Rightarrow> int \<Rightarrow> mkernel \<Rightarrow> (nat \<Rightarrow> nat list) \<Rightarrow> bool" where
  "accept_post caller m x s cq r s' cq' \<longleftrightarrow>
     r = M_OK \<and> cq' = cq(caller := remove1 x (cq caller)) \<and>
     mmem s' = cp_mess (word_of_int (int x - 4)) (phys x (mp_messbuf (proc_at x s)) s) (phys caller m s) (mmem s) \<and>
     (\<forall>y. mp_rts_flags (proc_at y s') = (if y = x then mp_rts_flags (proc_at y s) AND NOT SENDING else mp_rts_flags (proc_at y s)))"

text \<open>
  The notification that is delivered: in each chunk of the bit map the code looks at the lowest bit set only, and it takes the
  first chunk in which the source that this bit stands for is wanted.
\<close>

definition pending :: "mkernel \<Rightarrow> nat \<Rightarrow> 16 word list" where
  "pending s x = ms_notify_pending (priv_of x s)"

definition lowest :: "16 word \<Rightarrow> nat \<Rightarrow> bool" where
  "lowest w i \<longleftrightarrow> bit w i \<and> (\<forall>k < i. \<not> bit w k)"

definition eligible :: "mkernel \<Rightarrow> nat \<Rightarrow> int \<Rightarrow> nat \<Rightarrow> nat \<Rightarrow> bool" where
  "eligible s caller src c i \<longleftrightarrow>
     ms_flags (priv_of caller s) AND SENDREC_BUSY = 0 \<and> c < 2 \<and> lowest (pending s caller ! c) i \<and>
     (src = ANY \<or> src = ms_proc_nr (mprivs s ! (c * 16 + i)))"

definition notified_post :: "nat \<Rightarrow> 32 word \<Rightarrow> nat \<Rightarrow> nat \<Rightarrow> mkernel \<Rightarrow> (nat \<Rightarrow> nat list) \<Rightarrow> int \<Rightarrow> mkernel \<Rightarrow> (nat \<Rightarrow> nat list) \<Rightarrow> bool" where
  "notified_post caller m c i s cq r s' cq' \<longleftrightarrow>
     r = M_OK \<and> cq' = cq \<and> mprocs s' = mprocs s \<and>
     pending s' caller = (pending s caller)[c := unset_bit i (pending s caller ! c)] \<and>
     load32 (phys caller m s) (mmem s') = word_of_int (ms_proc_nr (mprivs s ! (c * 16 + i)))"

definition receive_post :: "nat \<Rightarrow> int \<Rightarrow> 32 word \<Rightarrow> 32 word \<Rightarrow> mkernel \<Rightarrow> (nat \<Rightarrow> nat list) \<Rightarrow> int \<Rightarrow> mkernel \<Rightarrow> (nat \<Rightarrow> nat list) \<Rightarrow> bool" where
  "receive_post caller src m flags s cq r s' cq' \<longleftrightarrow>
     (if sending s caller then block_post caller src m flags s cq r s' cq'
      else if \<exists>c i. eligible s caller src c i then
        \<exists>c i. eligible s caller src c i \<and> (\<forall>c' < c. \<forall>i'. \<not> eligible s caller src c' i') \<and> notified_post caller m c i s cq r s' cq'
      else case filter (wanted s src) (cq caller) of
        x # _ \<Rightarrow> accept_post caller m x s cq r s' cq'
      | [] \<Rightarrow> block_post caller src m flags s cq r s' cq')"

lemma lowest_lt: "lowest w i \<Longrightarrow> i < 16"
  by (auto simp: lowest_def dest: bit_imp_le_length)

lemma lowest_unique: "lowest w i \<Longrightarrow> lowest w j \<Longrightarrow> i = j"
  by (meson lowest_def linorder_neqE_nat)

lemma filter_bits:
  "case filter (bit w) [0..<16] of [] \<Rightarrow> (\<forall>i. \<not> lowest w i) | i # _ \<Rightarrow> lowest w i"
proof (cases "filter (bit w) [0..<16]")
  case Nil
  then have "\<not> bit w i" for i using bit_imp_le_length [of w i] by (auto simp: filter_empty_conv)
  then show ?thesis using Nil by (simp add: lowest_def)
next
  case (Cons i ks)
  have f: "i \<in> set (filter (bit w) [0..<16])" "sorted (i # ks)" unfolding Cons [symmetric] by (simp add: Cons, rule sorted_wrt_filter [OF sorted_upt])
  have "\<not> bit w k" if "k < i" for k
  proof
    assume "bit w k"
    then have "k \<in> set (i # ks)" using that f(1) Cons [symmetric] by auto
    then show False using f(2) that by auto
  qed
  moreover have "bit w i" using f(1) by simp
  ultimately show ?thesis using Cons by (simp add: lowest_def)
qed

lemma scan_eligible:
  defines "el \<equiv> \<lambda>src pend s c i. lowest (pend ! c) i \<and> (src = ANY \<or> src = ms_proc_nr (mprivs s ! (c * 16 + i)))"
  shows "set cs \<subseteq> {..<2} \<Longrightarrow>
    (case notify_scan cs src pend s of
       None \<Rightarrow> \<forall>c \<in> set cs. \<forall>i. \<not> el src pend s c i
     | Some (c, i, nr) \<Rightarrow> \<exists>as bs. cs = as @ c # bs \<and> el src pend s c i \<and> (\<forall>c' \<in> set as. \<forall>i'. \<not> el src pend s c' i') \<and>
         nr = ms_proc_nr (mprivs s ! (c * 16 + i)))"
proof (induction cs)
  case (Cons c cs)
  have IH: "case notify_scan cs src pend s of
       None \<Rightarrow> \<forall>c \<in> set cs. \<forall>i. \<not> el src pend s c i
     | Some (c, i, nr) \<Rightarrow> \<exists>as bs. cs = as @ c # bs \<and> el src pend s c i \<and> (\<forall>c' \<in> set as. \<forall>i'. \<not> el src pend s c' i') \<and>
         nr = ms_proc_nr (mprivs s ! (c * 16 + i))" using Cons by simp
  have skip: ?case if "notify_scan (c # cs) src pend s = notify_scan cs src pend s" "\<forall>i. \<not> el src pend s c i"
  proof (cases "notify_scan cs src pend s")
    case None
    then show ?thesis using that IH by simp
  next
    case (Some n)
    obtain d i nr where n: "n = (d, i, nr)" by (cases n)
    obtain as bs where "cs = as @ d # bs" "el src pend s d i" "\<forall>c' \<in> set as. \<forall>i'. \<not> el src pend s c' i'" "nr = ms_proc_nr (mprivs s ! (d * 16 + i))"
      using IH Some n by auto
    then have "\<exists>as bs. c # cs = as @ d # bs \<and> el src pend s d i \<and> (\<forall>c' \<in> set as. \<forall>i'. \<not> el src pend s c' i') \<and> nr = ms_proc_nr (mprivs s ! (d * 16 + i))"
      using that(2) by (intro exI [of _ "c # as"] exI [of _ bs]) simp
    moreover have "notify_scan (c # cs) src pend s = Some (d, i, nr)" using that(1) Some n by simp
    ultimately show ?thesis unfolding option.case prod.case by simp
  qed
  show ?case
  proof (cases "filter (bit (pend ! c)) [0..<16]")
    case Nil
    then show ?thesis using skip filter_bits [of "pend ! c"] by (simp add: el_def)
  next
    case (Cons i ks)
    then have lo: "lowest (pend ! c) i" using filter_bits [of "pend ! c"] by simp
    have "\<not> M_NR_SYS_PROCS \<le> c * 16 + i" using lowest_lt [OF lo] Cons.prems by (simp add: M_NR_SYS_PROCS_def)
    then show ?thesis
    proof (cases "src \<noteq> ANY \<and> src \<noteq> ms_proc_nr (mprivs s ! (c * 16 + i))")
      case True
      then have "\<forall>j. \<not> el src pend s c j" using lowest_unique [OF lo] by (auto simp: el_def)
      then show ?thesis using skip Cons True \<open>\<not> M_NR_SYS_PROCS \<le> _\<close> by simp
    next
      case False
      then have "el src pend s c i" using lo by (auto simp: el_def)
      then have "\<exists>as bs. c # cs = as @ c # bs \<and> el src pend s c i \<and> (\<forall>c' \<in> set as. \<forall>i'. \<not> el src pend s c' i')"
        by (intro exI [of _ "[]"] exI [of _ cs]) simp
      moreover have "notify_scan (c # cs) src pend s = Some (c, i, ms_proc_nr (mprivs s ! (c * 16 + i)))"
        using Cons False \<open>\<not> M_NR_SYS_PROCS \<le> _\<close> by (auto simp: Let_def)
      ultimately show ?thesis unfolding option.case prod.case by simp
    qed
  qed
qed simp

lemma take_eligible:
  "case take_notification caller src s of
     None \<Rightarrow> \<forall>c i. \<not> eligible s caller src c i
   | Some (c, i, nr) \<Rightarrow> eligible s caller src c i \<and> (\<forall>c' < c. \<forall>i'. \<not> eligible s caller src c' i') \<and> nr = ms_proc_nr (mprivs s ! (c * 16 + i))"
proof (cases "ms_flags (priv_of caller s) AND SENDREC_BUSY = 0")
  case True
  have el: "eligible s caller src c i \<longleftrightarrow> c < 2 \<and> lowest (pending s caller ! c) i \<and> (src = ANY \<or> src = ms_proc_nr (mprivs s ! (c * 16 + i)))" for c i
    using True by (simp add: eligible_def)
  have tk: "take_notification caller src s = notify_scan [0..<2] src (pending s caller) s"
    using True by (simp add: take_notification_def pending_def)
  have "set [0..<2] \<subseteq> {..<2 :: nat}" by auto
  note sc = scan_eligible [OF this, where src = src and pend = "pending s caller" and s = s]
  show ?thesis
  proof (cases "take_notification caller src s")
    case None
    then show ?thesis using sc tk by (auto simp: el)
  next
    case (Some n)
    obtain c i nr where n: "n = (c, i, nr)" by (cases n)
    from sc Some tk n obtain as bs where sp: "[0..<2] = as @ c # bs"
      and e: "lowest (pending s caller ! c) i" "src = ANY \<or> src = ms_proc_nr (mprivs s ! (c * 16 + i))"
      and b: "\<forall>c' \<in> set as. \<forall>i'. \<not> (lowest (pending s caller ! c') i' \<and> (src = ANY \<or> src = ms_proc_nr (mprivs s ! (c' * 16 + i'))))"
      and nr: "nr = ms_proc_nr (mprivs s ! (c * 16 + i))" by auto
    have "c < 2" using arg_cong [OF sp, of set] by auto
    moreover have "c' \<in> set as" if "c' < c" for c'
    proof -
      have "c' \<in> set (as @ c # bs)" unfolding sp [symmetric] using that \<open>c < 2\<close> by simp
      moreover have "sorted (as @ c # bs)" unfolding sp [symmetric] by (rule sorted_upt)
      ultimately show ?thesis using that by (auto simp: sorted_append)
    qed
    ultimately show ?thesis using Some n e b nr by (auto simp: el)
  qed
next
  case False
  then show ?thesis by (simp add: take_notification_def eligible_def)
qed

lemma block_receiver_post:
  assumes "minix_ok s qs cq" "caller < 68"
  shows "\<exists>r s' qs' cq'. block_receiver caller src m flags s = Ret r s' \<and> minix_ok s' qs' cq' \<and>
    block_post caller src m flags s cq r s' cq' \<and> proc_ptr s' = proc_ptr s"
proof (cases "flags AND NON_BLOCKING = 0")
  case True
  from block_receiver_ok [OF assms True, of src m] show ?thesis
    unfolding block_post_def if_P [OF True] by blast
next
  case False
  then show ?thesis using assms by (auto simp: block_receiver_def block_post_def)
qed

lemma accept_sender_ok:
  assumes ok: "minix_ok s qs cq" and c: "caller < 68" and cq: "cq caller = as @ x # bs"
  shows "\<exists>s' qs' cq'. accept_sender caller m (last_ptr as) x s = Ret M_OK s' \<and> minix_ok s' qs' cq' \<and>
    accept_post caller m x s cq M_OK s' cq' \<and> proc_ptr s' = proc_ptr s"
proof -
  note cal = minix_okD(3) [OF ok]
  let ?a = "CopyMess (mp_nr (proc_at x s)) x (mp_messbuf (proc_at x s)) caller m s"
  let ?p = "last_ptr as"
  have on: "sending s y" "y < 68" if "y \<in> set (cq caller)" for y using callersD(3) [OF cal c] that by (auto simp: waits_def sending_def)
  have x: "x < 68" "mp_rts_flags (proc_at x s) AND SENDING \<noteq> 0" using on [of x] cq by (auto simp: sending_def)
  have p68: "?p = None \<or> the ?p < 68" using on(2) [of "last as"] cq by (cases as rule: rev_cases) (auto simp: last_ptr_def)
  have len: "length (mprocs ?a) = 68" using minix_okD(5) [OF ok] by (simp add: CopyMess_def)
  note oka = CopyMess_frame [OF ok]
  obtain b qs' where b: "unblock SENDING x ?a = Ret () b" "sched_ok b qs'" "tables_ok b" "runnable_ok b qs'"
    and same: "same_ipc (upd x (clear_flag SENDING) ?a) b"
    using unblock_ok [OF minix_okD(1,2,4) [OF oka] x(1), of SENDING "mp_nr (proc_at x s)" x "mp_messbuf (proc_at x s)" caller m] x(2)
    by auto
  note sel = same_ipc_sel [OF same]
  have lb: "length (mprocs b) = 68" using sel(11) len by simp
  let ?t = "set_qlink_at caller ?p (mp_q_link (proc_at x b)) b"
  note qs = set_qlink_sel [of caller b ?p, unfolded lb, OF c p68]
  have qb: "qlinks b = qlinks s" using sel(4) x(1) len by (auto simp: qlinks_def proc_at_upd fun_eq_iff)
  have "callers_ok ?t (cq(caller := as @ bs))"
  proof (rule remove_caller [OF cal c cq])
    show "sending ?t y \<longleftrightarrow> sending s y \<and> y \<noteq> x" for y
      using sel(1) x len qs(1) by (auto simp: sending_def proc_at_upd flag_nonzero bit_simps flag_bits)
    show "mp_sendto (proc_at y ?t) = mp_sendto (proc_at y s)" for y using sel(2) x(1) len qs(2) by (auto simp: proc_at_upd)
    show "qlinks ?t = (if as = [] then qlinks s else (qlinks s)(last as := qlinks s x))"
      using qs(5) qb by (auto simp: last_ptr_def qlinks_def fun_eq_iff)
    have "mp_caller_q (proc_at e b) = mp_caller_q (proc_at e s)" for e using sel(3) x(1) len by (auto simp: proc_at_upd)
    then show "mp_caller_q (proc_at e ?t) = (if e = caller \<and> as = [] then qlinks s x else mp_caller_q (proc_at e s))" for e
      using qs(4) fun_cong [OF qb, of x] by (simp add: last_ptr_def qlinks_def)
  qed
  moreover have "sched_ok ?t qs'" "tables_ok ?t" using b(2,3) set_qlink_frame [OF c p68 lb] by simp_all
  moreover have "runnable_ok ?t qs'" using b(4) qs(1) by (simp add: runnable_ok_def)
  moreover have "remove1 x (cq caller) = as @ bs" using callersD(2) [OF cal c] cq by (simp add: remove1_append)
  ultimately have "minix_ok ?t qs' (cq(caller := as @ bs))" "accept_post caller m x s cq M_OK ?t (cq(caller := as @ bs))"
    using sel(1,10) qs(1,7) x(1) len tables_nr [OF ok x(1)] by (auto simp: minix_ok_def accept_post_def proc_at_upd CopyMess_def)
  then show ?thesis using b(1) sel(12) qs(8)
    by (intro exI [of _ ?t] exI [of _ qs'] exI [of _ "cq(caller := as @ bs)"]) (simp add: accept_sender_def CopyMess_def)
qed

lemma CopyBuilt_frame: "minix_ok s qs cq \<Longrightarrow> minix_ok (CopyBuilt nr d m s) qs cq"
  unfolding CopyBuilt_def by (rule CopyMess_frame)

lemma poke_sel [simp]: "mprocs (poke_m off w s) = mprocs s" "proc_ptr (poke_m off w s) = proc_ptr s"
  by (simp_all add: poke_m_def)

lemma Build_sel [simp]:
  "mprocs (BuildMess nr d s) = mprocs s" "proc_ptr (BuildMess nr d s) = proc_ptr s"
  "mprocs (CopyBuilt nr d m s) = mprocs s" "proc_ptr (CopyBuilt nr d m s) = proc_ptr s"
  "mprocs (upd_priv i f s) = mprocs s" "proc_ptr (upd_priv i f s) = proc_ptr s"
  by (simp_all add: BuildMess_def Let_def CopyBuilt_def CopyMess_def upd_priv_def)

lemma Build_pending: "i < length (mprivs s) \<Longrightarrow> ms_notify_pending (mprivs (BuildMess nr d s) ! i) = ms_notify_pending (mprivs s ! i)"
  by (simp add: BuildMess_def Let_def upd_priv_def poke_m_def priv_of_def nth_list_update_cases)

lemma deliver_notification_ok:
  assumes "minix_ok s qs cq"
  shows "minix_ok (deliver_notification caller m n s) qs cq"
    "mprocs (deliver_notification caller m n s) = mprocs s" "proc_ptr (deliver_notification caller m n s) = proc_ptr s"
proof -
  obtain c i nr where n: "n = (c, i, nr)" by (cases n)
  show "minix_ok (deliver_notification caller m n s) qs cq"
    using assms unfolding n deliver_notification_def Let_def prod.case
    by (intro CopyBuilt_frame BuildMess_frame upd_priv_frame) (simp_all add: priv_ok_def)
  show "mprocs (deliver_notification caller m n s) = mprocs s" "proc_ptr (deliver_notification caller m n s) = proc_ptr s"
    by (simp_all add: n deliver_notification_def Let_def)
qed

lemma phys_cong [simp]: "phys x m (upd_priv i f s) = phys x m s" "phys x m (BuildMess nr d s) = phys x m s"
  by (simp_all add: phys_def)

lemma CopyBuilt_source: "load32 (phys d m s) (mmem (CopyBuilt nr d m s)) = word_of_int nr"
  by (simp add: CopyBuilt_def CopyMess_def cp_mess_source)

lemma deliver_notification_post:
  assumes ok: "minix_ok s qs cq" and c: "has_priv caller s"
  shows "notified_post caller m k i s cq M_OK (deliver_notification caller m (k, i, ms_proc_nr (mprivs s ! (k * 16 + i))) s) cq"
proof -
  let ?nr = "ms_proc_nr (mprivs s ! (k * 16 + i))"
  let ?u = "upd_priv (mp_priv (proc_at caller s)) (\<lambda>p. p\<lparr>ms_notify_pending := (ms_notify_pending p)[k := unset_bit i (ms_notify_pending p ! k)]\<rparr>) s"
  let ?t = "CopyBuilt ?nr caller m (BuildMess ?nr caller ?u)"
  have p: "mp_priv (proc_at caller s) < 32" "length (mprivs s) = 32" using ok c by (simp_all add: minix_ok_def tables_ok_def has_priv_def)
  have "mprivs ?t = mprivs (BuildMess ?nr caller ?u)" by (simp add: CopyBuilt_def CopyMess_def)
  then have "pending ?t caller = ms_notify_pending (mprivs ?u ! mp_priv (proc_at caller s))"
    using p by (simp add: pending_def priv_of_def Build_pending upd_priv_def [of _ _ s])
  also have "\<dots> = (pending s caller)[k := unset_bit i (pending s caller ! k)]"
    using p by (simp add: upd_priv_def pending_def priv_of_def)
  finally show ?thesis using CopyBuilt_source [of caller m "BuildMess ?nr caller ?u" ?nr]
    by (simp add: notified_post_def deliver_notification_def)
qed

lemma mini_receive_ok:
  assumes ok: "minix_ok s qs cq" and c: "caller < 68" and hp: "has_priv caller s"
  shows "\<exists>r s' qs' cq'. mini_receive caller src m flags s = Ret r s' \<and> minix_ok s' qs' cq' \<and>
    receive_post caller src m flags s cq r s' cq' \<and> proc_ptr s' = proc_ptr s"
proof (cases "sending s caller")
  case True
  then show ?thesis using block_receiver_post [OF ok c] c by (simp add: mini_receive_def receive_post_def sending_def)
next
  case ns: False
  show ?thesis
  proof (cases "take_notification caller src s")
    case (Some n)
    obtain k i nr where n: "n = (k, i, nr)" by (cases n)
    have e: "eligible s caller src k i" "\<forall>c' < k. \<forall>i'. \<not> eligible s caller src c' i'" "nr = ms_proc_nr (mprivs s ! (k * 16 + i))"
      using take_eligible [where caller = caller and src = src and s = s] Some n by auto
    have "receive_post caller src m flags s cq M_OK (deliver_notification caller m n s) cq"
      using deliver_notification_post [OF ok hp, of m k i] e ns unfolding receive_post_def n by auto
    moreover have "mini_receive caller src m flags s = Ret M_OK (deliver_notification caller m n s)"
      using Some ns c hp by (simp add: mini_receive_def sending_def)
    ultimately show ?thesis using deliver_notification_ok [OF ok, of caller m n] by blast
  next
    case None
    have ne: "\<not> (\<exists>c i. eligible s caller src c i)" using take_eligible [where caller = caller and src = src and s = s] None by simp
    let ?as = "takeWhile (\<lambda>y. \<not> wanted s src y) (cq caller)"
    have find: "find_sender caller src None s = Some (case dropWhile (\<lambda>y. \<not> wanted s src y) (cq caller) of
        [] \<Rightarrow> None | y # _ \<Rightarrow> Some (last_ptr ?as, y))"
      using find_sender_eq [of s caller "[]" "cq caller" src] callersD(1) [OF minix_okD(3) [OF ok] c]
      unfolding append_Nil seg_last_ptr(2) by blast
    show ?thesis
    proof (cases "dropWhile (\<lambda>y. \<not> wanted s src y) (cq caller)")
      case Nil
      then have "filter (wanted s src) (cq caller) = []" by (simp add: dropWhile_eq_Nil_conv filter_empty_conv)
      moreover have "find_sender caller src None s = Some None" using find unfolding Nil by simp
      ultimately show ?thesis using None ns ne c hp block_receiver_post [OF ok c]
        by (simp add: mini_receive_def receive_post_def sending_def)
    next
      case (Cons x bs)
      then have cq: "cq caller = ?as @ x # bs" by (metis takeWhile_dropWhile_id)
      moreover have "wanted s src x" using Cons by (metis dropWhile_eq_Cons_conv)
      moreover have "filter (wanted s src) ?as = []" by (auto simp: filter_empty_conv dest: set_takeWhileD)
      ultimately have "filter (wanted s src) (cq caller) = x # filter (wanted s src) bs"
        by (metis append_Nil filter.simps(2) filter_append)
      moreover have "find_sender caller src None s = Some (Some (last_ptr ?as, x))" using find unfolding Cons by simp
      ultimately show ?thesis using None ns ne c hp accept_sender_ok [OF ok c cq, of m]
        by (simp add: mini_receive_def receive_post_def sending_def) blast
    qed
  qed
qed

section \<open>Notify\<close>

definition notify_post :: "nat \<Rightarrow> nat \<Rightarrow> mkernel \<Rightarrow> mkernel \<Rightarrow> bool" where
  "notify_post caller d s s' \<longleftrightarrow>
     (if awaits s d caller \<and> ms_flags (priv_of d s) AND SENDREC_BUSY = 0 then
        (\<forall>x. mp_rts_flags (proc_at x s') = (if x = d then mp_rts_flags (proc_at x s) AND NOT RECEIVING else mp_rts_flags (proc_at x s))) \<and>
        pending s' d = pending s d \<and> load32 (phys d (mp_messbuf (proc_at d s)) s) (mmem s') = word_of_int (int caller - 4)
      else
        mprocs s' = mprocs s \<and> mmem s' = mmem s \<and>
        (\<forall>i < 32. get_sys_bit (pending s' d) i = (if i = ms_id (priv_of caller s) then Some True else get_sys_bit (pending s d) i)))"

lemma set_get_bit:
  assumes "length m = 2" "j < 32"
  shows "\<exists>m'. set_sys_bit j m = Some m' \<and> length m' = 2 \<and>
    (\<forall>i < 32. get_sys_bit m' i = (if i = j then Some True else get_sys_bit m i))"
proof -
  have "get_sys_bit (m[j div 16 := set_bit (j mod 16) (m ! (j div 16))]) i = (if i = j then Some True else get_sys_bit m i)"
    if "i < 32" for i
  proof (cases "i div 16 = j div 16")
    case True
    then have "i = j \<longleftrightarrow> i mod 16 = j mod 16" by (metis mult_div_mod_eq)
    then show ?thesis using True that assms by (auto simp: get_sys_bit_def bit_simps)
  qed (use that assms in \<open>auto simp: get_sys_bit_def\<close>)
  then show ?thesis using assms by (auto simp: set_sys_bit_def)
qed

lemma mini_notify_ok:
  assumes ok: "minix_ok s qs cq" and c: "caller < 68" and d: "proc_addr dst = Some d"
    and hc: "has_priv caller s" and hd: "has_priv d s"
  shows "\<exists>s' qs'. mini_notify caller dst s = Ret M_OK s' \<and> minix_ok s' qs' cq \<and> notify_post caller d s s' \<and> proc_ptr s' = proc_ptr s"
proof -
  have d68: "d < 68" by (rule proc_addr_lt [OF d])
  note pd = tables_priv_ok [OF minix_okD(2) [OF ok] hd] and pc = tables_priv_ok [OF minix_okD(2) [OF ok] hc]
  note wf = waiting_for_eq [OF ok c, of d]
  show ?thesis
  proof (cases "awaits s d caller \<and> ms_flags (priv_of d s) AND SENDREC_BUSY = 0")
    case True
    let ?nr = "mp_nr (proc_at caller s)"
    let ?b = "BuildMess ?nr d s"
    let ?a = "CopyBuilt ?nr d (mp_messbuf (proc_at d s)) ?b"
    have oka: "minix_ok ?a qs cq" by (rule CopyBuilt_frame [OF BuildMess_frame [OF ok]])
    obtain s' qs' where s': "unblock RECEIVING d ?a = Ret () s'" "minix_ok s' qs' cq" and same: "same_ipc (upd d (clear_flag RECEIVING) ?a) s'"
      using wake_receiver [OF oka d68] awaits_flags [of s d caller] True by auto
    have len: "length (mprocs ?a) = 68" using minix_okD(5) [OF ok] by simp
    have "mprivs ?a = mprivs ?b" by (simp add: CopyBuilt_def CopyMess_def)
    moreover have "length (mprivs s) = 32" using ok by (simp add: minix_ok_def tables_ok_def)
    ultimately have "notify_post caller d s s'" using True same_ipc_sel [OF same] d68 len pd
        CopyBuilt_source [of d "mp_messbuf (proc_at d s)" ?b ?nr] tables_nr [OF ok c]
      by (simp add: notify_post_def proc_at_upd pending_def priv_of_def Build_pending)
    then show ?thesis using s' d True same_ipc_sel(12) [OF same] hd by (auto simp: mini_notify_def Let_def wf)
  next
    case False
    obtain m' where m: "set_sys_bit (ms_id (priv_of caller s)) (ms_notify_pending (priv_of d s)) = Some m'" "length m' = 2"
      "\<forall>i < 32. get_sys_bit m' i = (if i = ms_id (priv_of caller s) then Some True else get_sys_bit (ms_notify_pending (priv_of d s)) i)"
      using set_get_bit [of "ms_notify_pending (priv_of d s)" "ms_id (priv_of caller s)"] pd pc
      unfolding priv_ok_def by blast
    let ?s = "upd_priv (mp_priv (proc_at d s)) (\<lambda>p. p\<lparr>ms_notify_pending := m'\<rparr>) s"
    have "length (mprivs s) = 32" using ok by (simp add: minix_ok_def tables_ok_def)
    then have "ms_notify_pending (priv_of d ?s) = m'" using pd by (simp add: priv_of_def upd_priv_def proc_at_def)
    then have "notify_post caller d s ?s" using m(3) unfolding notify_post_def if_not_P [OF False] pending_def by (simp add: upd_priv_def)
    moreover have "minix_ok ?s qs cq" by (rule upd_priv_frame [OF ok]) (use m(2) in \<open>simp add: priv_ok_def\<close>)
    ultimately show ?thesis using d False m(1) hc hd by (auto simp: mini_notify_def wf)
  qed
qed

end
