(* ===== verification/Msyscall.thy ===== *)
theory Msyscall
  imports Mipcops
begin

text \<open>
  System calls of the MINIX kernel: \<open>sys_call\<close> returns and keeps the invariant, and so does every run of the kernel that
  interleaves system calls, notifications of interrupt handlers and \<open>restart\<close>.
\<close>

section \<open>System calls\<close>

text \<open>No process but the running one is taken off the ready queues.\<close>

definition ready_kept :: "mkernel \<Rightarrow> mkernel \<Rightarrow> bool" where
  "ready_kept s s' \<longleftrightarrow> proc_ptr s' = proc_ptr s \<and>
     (\<forall>x. x \<noteq> proc_ptr s \<and> mp_rts_flags (proc_at x s) = 0 \<longrightarrow> mp_rts_flags (proc_at x s') = 0)"

lemma kept_refl: "ready_kept s s"
  by (simp add: ready_kept_def)

lemma kept_trans: "ready_kept s t \<Longrightarrow> ready_kept t u \<Longrightarrow> ready_kept s u"
  by (simp add: ready_kept_def)

lemma kept_same: "mprocs t = mprocs s \<Longrightarrow> proc_ptr t = proc_ptr s \<Longrightarrow> ready_kept s t"
  by (simp add: ready_kept_def proc_at_def)

lemma send_kept: "send_post (proc_ptr s) d dst m flags s cq r s' cq' \<Longrightarrow> proc_ptr s' = proc_ptr s \<Longrightarrow> ready_kept s s'"
  by (auto simp: ready_kept_def send_post_def split: if_splits)

lemma receive_kept: "receive_post (proc_ptr s) src m flags s cq r s' cq' \<Longrightarrow> proc_ptr s' = proc_ptr s \<Longrightarrow> ready_kept s s'"
  by (auto simp: ready_kept_def receive_post_def block_post_def accept_post_def notified_post_def proc_at_def
      split: if_splits list.splits)

lemma notify_kept: "notify_post caller d s s' \<Longrightarrow> proc_ptr s' = proc_ptr s \<Longrightarrow> ready_kept s s'"
  by (auto simp: ready_kept_def notify_post_def proc_at_def split: if_splits)

text \<open>The call returns in a state that satisfies the invariant.\<close>

definition safe_ret :: "mkernel \<Rightarrow> (int, mkernel) outcome \<Rightarrow> bool" where
  "safe_ret s x \<longleftrightarrow> (\<exists>r s' qs cq. x = Ret r s' \<and> minix_ok s' qs cq \<and> ready_kept s s')"

lemma safe_retI: "x = Ret r s' \<Longrightarrow> minix_ok s' qs cq \<Longrightarrow> ready_kept s s' \<Longrightarrow> safe_ret s x"
  by (auto simp: safe_ret_def)

lemma safe_if: "safe_ret p x \<Longrightarrow> safe_ret p y \<Longrightarrow> safe_ret p (if b then x else y)"
  by simp

lemma has_priv_upd [simp]: "has_priv x (upd_priv i f s) = has_priv x s"
  by (simp add: has_priv_def upd_priv_def proc_at_def)

lemma perform_ok:
  assumes ok: "minix_ok s qs cq" and cp: "caller = proc_ptr s" and c: "caller < 68" and run: "mp_rts_flags (proc_at caller s) = 0"
    and d: "fn AND CHECK_DST \<noteq> 0 \<Longrightarrow> \<exists>d. proc_addr src_dst = Some d \<and> has_priv d s \<and> (fn = SEND \<or> fn = SENDREC \<longrightarrow> d \<noteq> caller)"
  shows "safe_ret s (perform fn flags caller src_dst m s)"
proof -
  have ns: "\<not> sending s caller" and hp: "has_priv caller s"
    using run tables_priv [OF minix_okD(2) [OF ok] c] by (simp_all add: sending_def)
  note defs = SENDREC_def SEND_def NOTIFY_def RECEIVE_def ECHO_def CHECK_DST_def
  let ?f = "\<lambda>g s. upd_priv (mp_priv (proc_at caller s)) (\<lambda>p. p\<lparr>ms_flags := g (ms_flags p)\<rparr>) s"
  have fr: "minix_ok (?f g s) qs cq" for g by (rule upd_priv_frame [OF ok]) (simp add: priv_ok_def)
  have kf: "ready_kept s (?f g s)" "proc_ptr (?f g s) = caller" for g by (simp_all add: kept_same cp)
  consider (sendrec) "fn = SENDREC" | (send) "fn = SEND" | (receive) "fn = RECEIVE" | (notify) "fn = NOTIFY" | (echo) "fn = ECHO"
    | (bad) "fn \<notin> {SENDREC, SEND, RECEIVE, NOTIFY, ECHO}" by blast
  then show ?thesis
  proof cases
    case sendrec
    have "fn AND CHECK_DST \<noteq> 0" by (simp add: sendrec defs)
    then obtain d where d: "proc_addr src_dst = Some d" "d \<noteq> caller" using assms sendrec by blast
    let ?s = "?f (\<lambda>w. w OR SENDREC_BUSY) s"
    have "\<not> sending ?s caller" using ns by (simp add: sending_def)
    from mini_send_ok [OF fr c this d] obtain r t qs1 cq1 where
      t: "mini_send caller src_dst m flags ?s = Ret r t" "minix_ok t qs1 cq1" and p: "proc_ptr t = proc_ptr ?s"
        "send_post caller d src_dst m flags ?s cq r t cq1" by blast
    have k1: "ready_kept s t" by (rule kept_trans [OF kf(1) send_kept]) (use p kf(2) in simp_all)
    have pt: "caller = proc_ptr t" using p(1) kf(2) by simp
    have "mp_rts_flags (proc_at caller t) \<in> {0, SENDING}" using p(2) run d(2) by (auto simp: send_post_def split: if_splits)
    then have ht: "has_priv caller t" using tables_priv [OF minix_okD(2) [OF t(2)] c] by (auto simp: SENDING_def)
    from mini_receive_ok [OF t(2) c ht, of src_dst m flags] obtain r2 u qs2 cq2 where
      u: "mini_receive caller src_dst m flags t = Ret r2 u" "minix_ok u qs2 cq2" "proc_ptr u = proc_ptr t"
        "receive_post caller src_dst m flags t cq1 r2 u cq2" by blast
    have "ready_kept s u" by (rule kept_trans [OF k1 receive_kept]) (use u(3,4) pt in simp_all)
    then show ?thesis using t u k1 sendrec by (cases "r = M_OK") (auto simp: perform_def Let_def intro: safe_retI)
  next
    case send
    have "fn AND CHECK_DST \<noteq> 0" by (simp add: send defs)
    then obtain d where "proc_addr src_dst = Some d" "d \<noteq> caller" using assms send by blast
    from mini_send_ok [OF ok c ns this, of m flags] show ?thesis using send_kept [of s]
      unfolding perform_def Let_def send cp by (simp add: defs safe_ret_def) blast
  next
    case receive
    from mini_receive_ok [OF fr [of "\<lambda>w. w AND NOT SENDREC_BUSY"] c, of src_dst m flags] hp obtain r t qs1 cq1 where
      t: "mini_receive caller src_dst m flags (?f (\<lambda>w. w AND NOT SENDREC_BUSY) s) = Ret r t" "minix_ok t qs1 cq1"
        "proc_ptr t = proc_ptr (?f (\<lambda>w. w AND NOT SENDREC_BUSY) s)"
        "receive_post caller src_dst m flags (?f (\<lambda>w. w AND NOT SENDREC_BUSY) s) cq r t cq1" by auto
    have "ready_kept s t" by (rule kept_trans [OF kf(1) receive_kept]) (use t(3,4) kf(2) in simp_all)
    then show ?thesis using t(1,2) unfolding perform_def Let_def receive by (auto simp: defs intro: safe_retI)
  next
    case notify
    have "fn AND CHECK_DST \<noteq> 0" by (simp add: notify defs)
    then obtain d where d: "proc_addr src_dst = Some d" "has_priv d s" using assms by blast
    from mini_notify_ok [OF ok c d(1) hp d(2)] show ?thesis using notify_kept
      unfolding perform_def Let_def notify by (simp add: defs safe_ret_def) blast
  next
    case echo
    have "ready_kept s (CopyMess n a b e f s)" for n a b e f by (rule kept_same) (simp_all add: CopyMess_def)
    then show ?thesis using echo by (intro safe_retI [OF _ CopyMess_frame [OF ok]]) (simp_all add: perform_def Let_def defs)
  next
    case bad
    then show ?thesis by (intro safe_retI [OF _ ok kept_refl]) (simp add: perform_def Let_def)
  qed
qed

lemma check_dst_ok:
  assumes ok: "minix_ok s qs cq" and "has_priv caller s" and "proc_addr dst = Some d" "has_priv d s"
  shows "\<exists>r. check_dst caller dst s = Some r"
  using tables_priv_ok [OF minix_okD(2) [OF ok] assms(2)] tables_priv_ok [OF minix_okD(2) [OF ok] assms(4)] assms(3,4)
  by (simp add: check_dst_def get_sys_bit_def priv_ok_def div_less_iff_less_mult)

lemma runnable_chosen:
  assumes "minix_ok s qs cq" and "mp_rts_flags (proc_at x s) = 0" "x < 68"
  shows "chosen s < 68 \<and> mp_rts_flags (proc_at (chosen s) s) = 0"
proof -
  have r: "sched_ok s qs" "runnable_ok s qs" using minix_okD [OF assms(1)] by blast+
  then have "x \<in> set (concat qs)" using assms(2,3) by (simp add: runnable_ok_def)
  then have ne: "concat qs \<noteq> []" by (metis empty_iff list.set(1))
  then have "chosen s = hd (concat qs)" using r(1) by (simp add: sched_ok_def next_ok_def)
  then have "chosen s \<in> set (concat qs)" using ne by (metis hd_in_set)
  moreover have "set (concat qs) \<subseteq> {..<68}" using r(1) by (simp add: sched_ok_def ready_ok_def)
  ultimately show ?thesis using r(2) by (auto simp: runnable_ok_def)
qed

text \<open>The caller does not send to itself.\<close>

definition no_self_send :: "32 word \<Rightarrow> int \<Rightarrow> mkernel \<Rightarrow> bool" where
  "no_self_send call_nr src_dst s \<longleftrightarrow>
     (call_nr AND SYSCALL_FUNC \<in> {SEND, SENDREC} \<longrightarrow> src_dst \<noteq> mp_nr (proc_at (proc_ptr s) s))"

text \<open>Where the call has a destination, it is not ANY and not a slot without a privilege structure, and the caller
  does not send to itself.\<close>

definition good_dst :: "32 word \<Rightarrow> int \<Rightarrow> mkernel \<Rightarrow> bool" where
  "good_dst call_nr src_dst s \<longleftrightarrow>
     no_self_send call_nr src_dst s \<and>
     ((call_nr AND SYSCALL_FUNC) AND CHECK_DST \<noteq> 0 \<longrightarrow>
        src_dst \<noteq> ANY \<and> (case proc_addr src_dst of None \<Rightarrow> True | Some d \<Rightarrow> has_priv d s))"

lemma sys_call_ok:
  assumes ok: "minix_ok s qs cq" and p: "proc_ptr s < 68" "mp_rts_flags (proc_at (proc_ptr s) s) = 0"
    and g: "good_dst call_nr src_dst s"
  shows "safe_ret s (sys_call call_nr src_dst m s)"
proof -
  let ?fn = "call_nr AND SYSCALL_FUNC"
  let ?c = "proc_ptr s"
  have same: "safe_ret s (Ret r s)" for r by (rule safe_retI [OF _ ok kept_refl]) simp
  have hp: "has_priv ?c s" using tables_priv [OF minix_okD(2) [OF ok] p(1)] p(2) by simp
  show ?thesis
  proof (cases "?fn AND CHECK_DST \<noteq> 0 \<and> isokprocn src_dst")
    case True
    obtain d where d: "proc_addr src_dst = Some d" "int d = src_dst + 4"
      using True by (auto simp: proc_addr_def isokprocn_def M_NR_TASKS_def)
    then have hd: "has_priv d s" and ne: "?fn = SEND \<or> ?fn = SENDREC \<longrightarrow> d \<noteq> ?c"
      using g True tables_nr [OF ok p(1)] by (auto simp: good_dst_def no_self_send_def)
    obtain r where r: "check_dst ?c src_dst s = Some r" using check_dst_ok [OF ok hp d(1) hd] by blast
    have "safe_ret s (perform ?fn (call_nr AND SYSCALL_FLAGS) ?c src_dst m s)"
      using d(1) hd ne by (intro perform_ok [OF ok refl p]) blast
    then show ?thesis using r True hp by (simp add: sys_call_def Let_def same)
  next
    case False
    show ?thesis
    proof (cases "?fn AND CHECK_DST = 0")
      case True
      then have "safe_ret s (perform ?fn (call_nr AND SYSCALL_FLAGS) ?c src_dst m s)" by (intro perform_ok [OF ok refl p]) simp
      moreover have "(\<not> has_priv ?c s) = False" using hp by simp
      ultimately show ?thesis using True unfolding sys_call_def Let_def by (simp only: if_False) (intro safe_if same, simp)
    next
      case f: False
      then have "\<not> isokprocn src_dst" "src_dst \<noteq> ANY" "?fn \<noteq> ECHO" using False g by (auto simp: good_dst_def ECHO_def CHECK_DST_def)
      then show ?thesis using hp by (simp add: sys_call_def Let_def same)
    qed
  qed
qed

section \<open>Interrupts and the run of the kernel\<close>

lemma intr_frame: "minix_ok (s\<lparr>intr_on := b\<rparr>) qs cq = minix_ok s qs cq"
proof -
  have f: "minix_ok s qs cq \<Longrightarrow> minix_ok (s\<lparr>intr_on := b\<rparr>) qs cq" for s b
    by (rule priv_frame) (auto simp: minix_ok_def tables_ok_def)
  show ?thesis using f [of s b] f [of "s\<lparr>intr_on := b\<rparr>" "intr_on s"] by auto
qed

lemma notify_ready: "notify_post caller d s s' \<Longrightarrow> mp_rts_flags (proc_at x s) = 0 \<Longrightarrow> mp_rts_flags (proc_at x s') = 0"
  by (auto simp: notify_post_def proc_at_def split: if_splits)

lemma lock_notify_ok:
  assumes ok: "minix_ok s qs cq" and p: "proc_addr src = Some p" and d: "proc_addr dst = Some d" and hp: "has_priv p s" "has_priv d s"
  shows "\<exists>s' qs'. lock_notify src dst s = Ret M_OK s' \<and> minix_ok s' qs' cq \<and>
    (\<forall>x. mp_rts_flags (proc_at x s) = 0 \<longrightarrow> mp_rts_flags (proc_at x s') = 0)"
proof (cases "k_reenter s \<ge> 0")
  case True
  then show ?thesis using mini_notify_ok [OF ok proc_addr_lt [OF p] d hp] notify_ready p
    by (simp add: lock_notify_def) blast
next
  case False
  let ?o = "s\<lparr>intr_on := False\<rparr>"
  have "minix_ok ?o qs cq" "has_priv p ?o" "has_priv d ?o"
    using ok hp by (simp_all add: intr_frame) (simp_all add: has_priv_def)
  from mini_notify_ok [OF this(1) proc_addr_lt [OF p] d this(2,3)] obtain t qs' where
    t: "mini_notify p dst ?o = Ret M_OK t" "minix_ok t qs' cq" "notify_post p d ?o t" by blast
  then show ?thesis using False p notify_ready [OF t(3)]
    by (intro exI [of _ "t\<lparr>intr_on := True\<rparr>"] exI [of _ qs']) (simp add: lock_notify_def intr_frame)
qed

text \<open>
  A run of the kernel: the running process makes a system call, or an interrupt handler notifies a process, and
  \<open>restart\<close> continues with the process that was scheduled. Of the calls only one is left out, a process that sends
  to itself. A call or a notification that faults, by the destination ANY or a slot without a privilege structure, makes
  no step.
\<close>

inductive mstep :: "mkernel \<Rightarrow> mkernel \<Rightarrow> bool" where
  call: "no_self_send n d s \<Longrightarrow> sys_call n d m s = Ret r s' \<Longrightarrow> mstep s (restart s')"
| interrupt: "lock_notify M_HARDWARE dst s = Ret r s' \<Longrightarrow> mstep s (restart s')"

inductive_cases mstepE: "mstep s t"

text \<open>The invariant holds, and IDLE and the running process are runnable.\<close>

definition live :: "mkernel \<Rightarrow> bool" where
  "live s \<longleftrightarrow> (\<exists>qs cq. minix_ok s qs cq \<and> proc_ptr s = hd (concat qs)) \<and> mp_rts_flags (proc_at 0 s) = 0 \<and>
     proc_ptr s < 68 \<and> mp_rts_flags (proc_at (proc_ptr s) s) = 0"

lemma chosen_restart [simp]: "chosen (restart s) = chosen s" "proc_at x (restart s) = proc_at x s" "proc_ptr (restart s) = chosen s"
  by (simp_all add: restart_def chosen_def proc_at_def)

lemma restart_frame:
  assumes ok: "minix_ok s qs cq"
  shows "minix_ok (restart s) qs cq"
proof -
  have sel: "rdy_head (restart s) = rdy_head s" "rdy_tail (restart s) = rdy_tail s" "mprocs (restart s) = mprocs s"
    "mprivs (restart s) = mprivs s" by (simp_all add: restart_def)
  have "queue_ok (restart s) qs q = queue_ok s qs q" for q by (rule queue_ok_cong) (simp_all add: sel)
  then have "sched_ok (restart s) qs" using minix_okD(1) [OF ok] by (simp add: sched_ok_def ready_ok_def next_ok_def sel)
  moreover have "callers_ok (restart s) cq" by (rule callers_cong [OF minix_okD(3) [OF ok]]) (simp_all add: sending_def)
  ultimately show ?thesis using ok by (simp add: minix_ok_def tables_ok_def runnable_ok_def priv_of_def sel)
qed

lemma live_restart:
  assumes ok: "minix_ok s qs cq" and idle: "mp_rts_flags (proc_at 0 s) = 0"
  shows "live (restart s)"
proof -
  have "0 \<in> set (concat qs)" using minix_okD(4) [OF ok] idle by (simp add: runnable_ok_def)
  then have "concat qs \<noteq> []" by (metis empty_iff list.set(1))
  then have "chosen s = hd (concat qs)" using minix_okD(1) [OF ok] by (simp add: sched_ok_def next_ok_def)
  then show ?thesis using restart_frame [OF ok] runnable_chosen [OF ok idle] idle by (auto simp: live_def)
qed

lemma call_live:
  assumes s: "live s" and g: "good_dst n d s"
  shows "\<exists>r s'. sys_call n d m s = Ret r s' \<and> live (restart s')"
proof -
  obtain qs cq where ok: "minix_ok s qs cq" using s by (auto simp: live_def)
  have p: "proc_ptr s < 68" "mp_rts_flags (proc_at (proc_ptr s) s) = 0" and i: "mp_rts_flags (proc_at 0 s) = 0"
    using s by (auto simp: live_def)
  show ?thesis
  proof (cases "proc_ptr s = 0")
    case True
    then have "ms_trap_mask (priv_of (proc_ptr s) s) = 0" "has_priv (proc_ptr s) s"
      using ok tables_priv [OF minix_okD(2) [OF ok], of 0] by (simp_all add: minix_ok_def tables_ok_def)
    then have "sys_call n d m s = Ret ECALLDENIED s" by (simp add: sys_call_def Let_def)
    then show ?thesis using live_restart [OF ok i] by simp
  next
    case False
    from sys_call_ok [OF ok p g, of m] obtain r s' qs' cq' where
      "sys_call n d m s = Ret r s'" "minix_ok s' qs' cq'" "ready_kept s s'" by (auto simp: safe_ret_def)
    then show ?thesis using live_restart [of s' qs' cq'] i False by (auto simp: ready_kept_def)
  qed
qed

text \<open>A call with a destination that is ANY or has no privilege structure faults, or returns an error and changes nothing.\<close>

lemma bad_dst_same:
  assumes "\<not> good_dst n d s" and "no_self_send n d s" and "sys_call n d m s = Ret r s'"
  shows "s' = s"
proof -
  have "(n AND SYSCALL_FUNC) AND CHECK_DST \<noteq> 0" "check_dst (proc_ptr s) d s = None"
    using assms(1,2)
    by (auto simp: good_dst_def check_dst_def proc_addr_def isokprocn_def ANY_def M_NR_TASKS_def M_NR_PROCS_def split: option.splits if_splits)
  then show ?thesis using assms(3) by (auto simp: sys_call_def Let_def split: if_splits)
qed

lemma call_step_live:
  assumes s: "live s" and g: "no_self_send n d s" and r: "sys_call n d m s = Ret r s'"
  shows "live (restart s')"
proof (cases "good_dst n d s")
  case True
  then show ?thesis using call_live [OF s True, of m] r by auto
next
  case False
  obtain qs cq where "minix_ok s qs cq" "mp_rts_flags (proc_at 0 s) = 0" using s by (auto simp: live_def)
  then show ?thesis using live_restart bad_dst_same [OF False g r] by blast
qed

lemma hardware_priv:
  assumes "minix_ok s qs cq"
  shows "proc_addr M_HARDWARE = Some 3" "has_priv 3 s"
  using tables_priv [OF minix_okD(2) [OF assms], of 3]
  by (simp_all add: proc_addr_def isokprocn_def M_HARDWARE_def M_NR_TASKS_def M_NR_PROCS_def)

lemma interrupt_live:
  assumes s: "live s" and d: "proc_addr dst = Some d" "has_priv d s"
  shows "\<exists>s'. lock_notify M_HARDWARE dst s = Ret M_OK s' \<and> live (restart s')"
proof -
  obtain qs cq where ok: "minix_ok s qs cq" using s by (auto simp: live_def)
  from lock_notify_ok [OF ok hardware_priv(1) [OF ok] d(1) hardware_priv(2) [OF ok] d(2)] obtain s' qs' where
    "lock_notify M_HARDWARE dst s = Ret M_OK s'" "minix_ok s' qs' cq" "mp_rts_flags (proc_at 0 s') = 0"
    using s by (auto simp: live_def)
  then show ?thesis using live_restart by blast
qed

lemma notify_Ret:
  assumes "lock_notify src dst s = Ret r s'"
  shows "\<exists>d. proc_addr dst = Some d \<and> has_priv d s"
  using assms
  by (auto simp: lock_notify_def mini_notify_def bnd_Ret_iff has_priv_def proc_at_def split: option.splits if_splits)

lemma mstep_live: "mstep s t \<Longrightarrow> live s \<Longrightarrow> live t"
proof (elim mstepE)
  fix dst r s' assume "live s" "lock_notify M_HARDWARE dst s = Ret r s'" "t = restart s'"
  then show ?thesis using notify_Ret [of M_HARDWARE dst s r s'] interrupt_live [of s dst] by auto
qed (use call_step_live in blast)

lemma run_live: "mstep\<^sup>*\<^sup>* s t \<Longrightarrow> live s \<Longrightarrow> live t"
  by (induction rule: rtranclp_induct) (auto intro: mstep_live)

end
