(* ===== verification/Mstate.thy ===== *)
theory Mstate
  imports Msyscall
begin

text \<open>
  Concrete states of the MINIX kernel after a boot with an image of the kernel tasks and two servers: PM runs, FS and
  IDLE are ready, CLOCK and SYSTEM wait for messages. Every process has its own memory and its own privilege structure,
  and every server may call every other one; the other slots have never been used and their \<open>p_priv\<close> is NULL, which is
  the index 32 behind the table. In \<open>mk1\<close> PM has sent a message to FS, which has not received it yet, and FS runs.
\<close>

definition mk_proc :: "nat \<Rightarrow> mproc" where
  "mk_proc x =
     \<lparr>mp_nr = int x - 4, mp_priv = (if x < 6 then x else 32),
      mp_rts_flags = (if x = 0 \<or> x = 4 \<or> x = 5 then 0 else if x = 1 \<or> x = 2 then RECEIVING else if x = 3 then 2 else M_SLOT_FREE),
      mp_priority = (if x = 0 then 15 else if x = 4 then 3 else if x = 5 then 4 else 7),
      mp_max_priority = 0, mp_ticks_left = 8, mp_quantum_size = 8,
      mp_data_phys = word_of_nat (64 * x), mp_data_vir = 0, mp_stack_vir = 64, mp_stack_len = 0,
      mp_nextready = None, mp_caller_q = None, mp_q_link = None, mp_messbuf = 0, mp_getfrom = ANY, mp_sendto = 0\<rparr>"

definition mk_priv :: "nat \<Rightarrow> mpriv" where
  "mk_priv i =
     \<lparr>ms_proc_nr = (if i < 6 then int i - 4 else 0x6ace), ms_id = i, ms_flags = 0, ms_trap_mask = (if i = 0 then 0 else 0xFFFF),
      ms_ipc_to = [0xFFFF, 0xFFFF], ms_notify_pending = [0, 0], ms_int_pending = 0, ms_sig_pending = 0,
      ms_stack_word = STACK_GUARD\<rparr>"

definition mk0 :: mkernel where
  "mk0 =
     \<lparr>mprocs = map mk_proc [0..<68], mprivs = map mk_priv [0..<32],
      rdy_head = (replicate 16 None)[3 := Some 4, 4 := Some 5, 15 := Some 0],
      rdy_tail = (replicate 16 None)[3 := Some 4, 4 := Some 5, 15 := Some 0],
      proc_ptr = 4, next_ptr = None, bill_ptr = 4, sched_prev = None, k_reenter = - 1, m_shutdown = False, intr_on = True,
      mmem = (\<lambda>_. 0), m_realtime = 0, kstack_m = 0\<rparr>"

definition qs0 :: "nat list list" where
  "qs0 = (replicate 16 [])[3 := [4], 4 := [5], 15 := [0]]"

lemma mk0_proc: "x < 68 \<Longrightarrow> proc_at x mk0 = mk_proc x"
  by (simp add: proc_at_def mk0_def)

lemma mk0_sel: "length (mprocs mk0) = 68" "length (mprivs mk0) = 32" "i < 32 \<Longrightarrow> mprivs mk0 ! i = mk_priv i" "proc_ptr mk0 = 4" "next_ptr mk0 = None"
  "rdy_head mk0 = (replicate 16 None)[3 := Some 4, 4 := Some 5, 15 := Some 0]"
  "rdy_tail mk0 = (replicate 16 None)[3 := Some 4, 4 := Some 5, 15 := Some 0]"
  by (simp_all add: mk0_def)

lemma qs0_concat: "concat qs0 = [4, 5, 0]" "length qs0 = 16"
  by (simp_all add: qs0_def eval_nat_numeral)

lemmas mk_flags = SENDING_def RECEIVING_def M_SLOT_FREE_def

lemma mk_proc_sel:
  "mp_nr (mk_proc x) = int x - 4" "mp_priv (mk_proc x) = (if x < 6 then x else 32)"
  "mp_rts_flags (mk_proc x) = 0 \<longleftrightarrow> x = 0 \<or> x = 4 \<or> x = 5" "mp_rts_flags (mk_proc x) AND SENDING = 0"
  "bit (mp_rts_flags (mk_proc x)) 0 \<longleftrightarrow> 6 \<le> x" "bit (mp_rts_flags (mk_proc x)) 1 \<longleftrightarrow> x = 3"
  by (auto simp: mk_proc_def mk_flags)

lemma mk0_queue: "q < 16 \<Longrightarrow> queue_ok mk0 qs0 q"
  by (auto simp: queue_ok_def qs0_def mk0_sel nexts_def mk0_proc mk_proc_def nth_list_update_cases)

lemma mk0_sched: "sched_ok mk0 qs0"
  by (auto simp: sched_ok_def ready_ok_def next_ok_def prio_ok_def qs0_concat mk0_sel mk0_queue mk0_proc mk_proc_def chosen_def simp del: concat_eq_Nil_conv set_concat)

lemma mk0_waits: "\<not> sending mk0 x" "waits mk0 = {}"
  by (auto simp: waits_def sending_def mk0_proc mk_proc_sel)

lemma mk0_tables: "tables_ok mk0"
  by (auto simp: tables_ok_def mk0_sel mk0_proc mk_proc_sel priv_of_def mk_priv_def priv_ok_def)

lemma mk0_ok: "minix_ok mk0 qs0 (\<lambda>_. [])"
proof -
  have "callers_ok mk0 (\<lambda>_. [])" by (auto simp: callers_ok_def mk0_waits mk0_proc mk_proc_def acyclic_def)
  moreover have "runnable_ok mk0 qs0" unfolding runnable_ok_def qs0_concat by (auto simp: mk0_proc mk_proc_sel)
  ultimately show ?thesis by (simp add: minix_ok_def mk0_sched mk0_tables)
qed

lemma mk0_live: "live mk0"
  using mk0_ok qs0_concat by (auto simp: live_def mk0_sel mk0_proc mk_proc_sel intro!: exI [of _ qs0])

section \<open>A blocked sender\<close>

definition mk1 :: mkernel where
  "mk1 = mk0\<lparr>mprocs := (map mk_proc [0..<68])[4 := (mk_proc 4)\<lparr>mp_rts_flags := SENDING, mp_sendto := 1\<rparr>,
       5 := (mk_proc 5)\<lparr>mp_caller_q := Some 4\<rparr>],
     rdy_head := (replicate 16 None)[4 := Some 5, 15 := Some 0],
     rdy_tail := (replicate 16 None)[4 := Some 5, 15 := Some 0], proc_ptr := 5\<rparr>"

definition qs1 :: "nat list list" where
  "qs1 = (replicate 16 [])[4 := [5], 15 := [0]]"

definition cq1 :: "nat \<Rightarrow> nat list" where
  "cq1 d = (if d = 5 then [4] else [])"

lemma mk1_proc: "x < 68 \<Longrightarrow> proc_at x mk1 =
   (if x = 4 then (mk_proc 4)\<lparr>mp_rts_flags := SENDING, mp_sendto := 1\<rparr>
    else if x = 5 then (mk_proc 5)\<lparr>mp_caller_q := Some 4\<rparr> else mk_proc x)"
  by (simp add: proc_at_def mk1_def nth_list_update_cases)

lemma mk1_sel: "length (mprocs mk1) = 68" "mprivs mk1 = mprivs mk0" "proc_ptr mk1 = 5" "next_ptr mk1 = None"
  "rdy_head mk1 = (replicate 16 None)[4 := Some 5, 15 := Some 0]" "rdy_tail mk1 = (replicate 16 None)[4 := Some 5, 15 := Some 0]"
  by (simp_all add: mk1_def mk0_sel)

lemma qs1_concat: "concat qs1 = [5, 0]" "length qs1 = 16"
  by (simp_all add: qs1_def eval_nat_numeral)

lemma mk1_sending: "sending mk1 x \<longleftrightarrow> x = 4"
proof (cases "x < 68")
  case True
  have "SENDING \<noteq> 0" by (simp add: SENDING_def)
  then show ?thesis using True by (simp add: sending_def mk1_proc mk_proc_sel)
qed (simp add: sending_def)

lemma mk1_waits: "waits mk1 = {(4, 5)}"
  by (auto simp: waits_def mk1_sending mk1_proc proc_addr_def isokprocn_def M_NR_TASKS_def M_NR_PROCS_def)

lemma mk1_sched: "sched_ok mk1 qs1"
proof -
  have "queue_ok mk1 qs1 q" if "q < 16" for q
    using that by (auto simp: queue_ok_def qs1_def mk1_sel nexts_def mk1_proc mk_proc_def nth_list_update_cases)
  then show ?thesis
    by (auto simp: sched_ok_def ready_ok_def next_ok_def prio_ok_def qs1_concat mk1_sel mk1_proc mk_proc_def chosen_def simp del: concat_eq_Nil_conv set_concat)
qed

lemma mk1_ok: "minix_ok mk1 qs1 cq1"
proof -
  have "tables_ok mk1"
    by (auto simp: tables_ok_def mk0_sel mk1_sel mk1_proc mk_proc_sel priv_of_def mk_priv_def priv_ok_def mk_flags)
  moreover have "acyclic (waits mk1)" by (simp add: mk1_waits acyclic_insert) (simp add: acyclic_def)
  then have "callers_ok mk1 cq1"
    by (auto simp: callers_ok_def mk1_waits mk1_sending cq1_def mk1_proc mk_proc_def qlinks_def
        proc_addr_def isokprocn_def M_NR_TASKS_def M_NR_PROCS_def)
  moreover have "runnable_ok mk1 qs1" unfolding runnable_ok_def qs1_concat by (auto simp: mk1_proc mk_proc_sel) (simp_all add: mk_flags)
  ultimately show ?thesis by (simp add: minix_ok_def mk1_sched)
qed

end
