(* ===== verification/Mprops.thy ===== *)
theory Mprops
  imports Mstate Mmess
begin

text \<open>
  The properties of message passing and scheduling in the MINIX kernel, and the cases in which the code does not do
  what its comments say.
\<close>

section \<open>Requeueing a process whose quantum is used up\<close>

text \<open>
  The scheduler as its clients see it: a set of ready processes, and operations that add one and take one away and leave
  everything that message passing relies on alone.
\<close>

locale ready_set =
  fixes enq :: "nat \<Rightarrow> mkernel \<Rightarrow> (unit, mkernel) outcome"
    and deq :: "nat \<Rightarrow> mkernel \<Rightarrow> (unit, mkernel) outcome"
    and rdy :: "mkernel \<Rightarrow> nat set \<Rightarrow> bool"
  assumes enq_law: "rdy s R \<Longrightarrow> rp < 68 \<Longrightarrow> rp \<notin> R \<Longrightarrow> \<exists>s'. enq rp s = Ret () s' \<and> rdy s' (insert rp R) \<and> same_ipc s s'"
    and deq_law: "rdy s R \<Longrightarrow> rp < 68 \<Longrightarrow> tables_ok s \<Longrightarrow> mp_rts_flags (proc_at rp s) = 0 \<Longrightarrow>
      \<exists>s'. deq rp s = Ret () s' \<and> rdy s' (R - {rp}) \<and> same_ipc s s'"
begin

lemma requeue_law:
  assumes "rdy s R" "rp < 68" "tables_ok s" "mp_rts_flags (proc_at rp s) = 0"
  shows "\<exists>s'. bnd (deq rp s) (\<lambda>_ s. enq rp s) = Ret () s' \<and> rdy s' (insert rp R) \<and> same_ipc s s'"
proof -
  obtain t where t: "deq rp s = Ret () t" "rdy t (R - {rp})" "same_ipc s t" using deq_law [OF assms] by blast
  obtain u where "enq rp t = Ret () u" "rdy u (insert rp (R - {rp}))" "same_ipc t u" using enq_law [OF t(2) assms(2)] by blast
  then show ?thesis using t same_ipc_trans by auto
qed

end

definition ready_procs :: "mkernel \<Rightarrow> nat set \<Rightarrow> bool" where
  "ready_procs s R \<longleftrightarrow> (\<exists>qs. sched_ok s qs \<and> set (concat qs) = R)"

lemma enqueue_set:
  assumes "ready_procs s R" "rp < 68" "rp \<notin> R"
  shows "\<exists>s'. enqueue rp s = Ret () s' \<and> ready_procs s' (insert rp R) \<and> same_ipc s s'"
proof -
  obtain qs where qs: "sched_ok s qs" "set (concat qs) = R" using assms by (auto simp: ready_procs_def)
  obtain s' q where e: "enqueue rp s = Ret () s'" "q < 16"
    "sched_ok s' (qs[q := insert_ready (mp_ticks_left (proc_at rp s) > 0) rp (qs ! q)])" "same_ipc s s'"
    using enqueue_ok [OF qs(1) assms(2)] qs(2) assms(3) by blast
  have "q < length qs" using e(2) qs(1) by (simp add: sched_ok_def ready_ok_def)
  then show ?thesis using e qs(2) set_insert_ready unfolding ready_procs_def by blast
qed

lemma dequeue_set:
  assumes "ready_procs s R" "rp < 68" "tables_ok s" "mp_rts_flags (proc_at rp s) = 0"
  shows "\<exists>s'. dequeue rp s = Ret () s' \<and> ready_procs s' (R - {rp}) \<and> same_ipc s s'"
proof -
  obtain qs where qs: "sched_ok s qs" "set (concat qs) = R" using assms by (auto simp: ready_procs_def)
  have "prio_ok (proc_at rp s)" using qs(1) assms(2) by (simp add: sched_ok_def)
  then obtain q where q: "mp_priority (proc_at rp s) = int q"
    by (auto simp: prio_ok_def intro: that [of "nat (mp_priority (proc_at rp s))"])
  have "iskernelp rp s \<Longrightarrow> has_priv rp s \<and> ms_stack_word (priv_of rp s) = STACK_GUARD"
    using assms tables_priv [OF assms(3,2)] by (simp add: tables_ok_def iskernelp_def)
  from dequeue_ok [OF qs(1) assms(2) q this] show ?thesis unfolding ready_procs_def qs(2) by blast
qed

lemma ready_procs_intr: "ready_procs (s\<lparr>intr_on := b\<rparr>) R = ready_procs s R"
proof -
  have "sched_ok (s\<lparr>intr_on := b\<rparr>) qs = sched_ok s qs" for qs by (rule sched_ok_proc) simp_all
  then show ?thesis by (simp add: ready_procs_def)
qed

interpretation readyq: ready_set enqueue dequeue ready_procs
  by unfold_locales (use enqueue_set dequeue_set in blast)+

text \<open>The locked operations, which tasks call with interrupts enabled.\<close>

lemma lock_enqueue_set:
  assumes "ready_procs s R \<and> intr_on s" "rp < 68" "rp \<notin> R"
  shows "\<exists>s'. lock_enqueue rp s = Ret () s' \<and> (ready_procs s' (insert rp R) \<and> intr_on s') \<and> same_ipc s s'"
proof -
  obtain t where "enqueue rp (s\<lparr>intr_on := False\<rparr>) = Ret () t" "ready_procs t (insert rp R)" "same_ipc (s\<lparr>intr_on := False\<rparr>) t"
    using enqueue_set [of "s\<lparr>intr_on := False\<rparr>" R rp] assms by (auto simp: ready_procs_intr)
  then show ?thesis using assms(1)
    by (intro exI [of _ "t\<lparr>intr_on := True\<rparr>"]) (simp add: lock_enqueue_def ready_procs_intr same_ipc_def)
qed

lemma lock_dequeue_set:
  assumes "ready_procs s R \<and> intr_on s" "rp < 68" "tables_ok s" "mp_rts_flags (proc_at rp s) = 0"
  shows "\<exists>s'. lock_dequeue rp s = Ret () s' \<and> (ready_procs s' (R - {rp}) \<and> intr_on s') \<and> same_ipc s s'"
proof -
  let ?o = "s\<lparr>intr_on := False\<rparr>"
  have "tables_ok ?o" using assms(3) by (simp add: tables_ok_def priv_of_def)
  then obtain t where "dequeue rp ?o = Ret () t" "ready_procs t (R - {rp})" "same_ipc ?o t"
    using dequeue_set [of ?o R rp] assms by (auto simp: ready_procs_intr)
  then show ?thesis using assms(1)
    by (intro exI [of _ "t\<lparr>intr_on := True\<rparr>"]) (simp add: lock_dequeue_def ready_procs_intr same_ipc_def)
qed

interpretation lockq: ready_set lock_enqueue lock_dequeue "\<lambda>s R. ready_procs s R \<and> intr_on s"
  by unfold_locales (use lock_enqueue_set lock_dequeue_set in blast)+

text \<open>The first statement of \<open>do_clocktick\<close> in \<open>clock.c\<close>.\<close>

definition PREEMPTIBLE :: "16 word" where "PREEMPTIBLE = 0x01"

definition requeue_expired :: "nat \<Rightarrow> mkernel \<Rightarrow> (unit, mkernel) outcome" where
  "requeue_expired prev_ptr s =
     (if mp_ticks_left (proc_at prev_ptr s) \<le> 0 \<and> ms_flags (priv_of prev_ptr s) AND PREEMPTIBLE \<noteq> 0
      then bnd (lock_dequeue prev_ptr s) (\<lambda>_ s. lock_enqueue prev_ptr s) else Ret () s)"

lemma ready_of_minix: "minix_ok s qs cq \<Longrightarrow> ready_procs s {x. x < 68 \<and> mp_rts_flags (proc_at x s) = 0}"
proof -
  assume ok: "minix_ok s qs cq"
  have "set (concat qs) \<subseteq> {..<68}" using minix_okD(1) [OF ok] by (simp add: sched_ok_def ready_ok_def)
  then have "set (concat qs) = {x. x < 68 \<and> mp_rts_flags (proc_at x s) = 0}" using minix_okD(4) [OF ok] by (auto simp: runnable_ok_def)
  then show ?thesis using minix_okD(1) [OF ok] unfolding ready_procs_def by blast
qed

lemma requeue_ok:
  assumes ok: "minix_ok s qs cq" and "intr_on s" "p < 68" "mp_rts_flags (proc_at p s) = 0"
  shows "\<exists>s' qs'. requeue_expired p s = Ret () s' \<and> minix_ok s' qs' cq \<and> same_ipc s s'"
proof (cases "mp_ticks_left (proc_at p s) \<le> 0 \<and> ms_flags (priv_of p s) AND PREEMPTIBLE \<noteq> 0")
  case True
  let ?R = "{x. x < 68 \<and> mp_rts_flags (proc_at x s) = 0}"
  have R: "insert p ?R = ?R" using assms by auto
  from lockq.requeue_law [of s ?R p] ready_of_minix [OF ok] minix_okD(2) [OF ok] assms True
  obtain s' where s': "requeue_expired p s = Ret () s'" "ready_procs s' ?R" "same_ipc s s'"
    unfolding requeue_expired_def R by auto
  from s'(2) obtain qs' where "sched_ok s' qs'" "set (concat qs') = ?R" by (auto simp: ready_procs_def)
  then have "minix_ok s' qs' cq" using minix_okD(2,3) [OF ok] same_ipc_tables [OF s'(3)] same_ipc_callers [OF s'(3)]
      same_ipc_sel(1) [OF s'(3)] unfolding minix_ok_def runnable_ok_def by simp
  then show ?thesis using s' by blast
next
  case False
  then show ?thesis using ok by (auto simp: requeue_expired_def)
qed

section \<open>A process that sends to itself\<close>

lemma chain_loops:
  assumes "mp_rts_flags (proc_at p s) AND SENDING \<noteq> 0" "proc_addr (mp_sendto (proc_at p s)) = Some p" "c \<noteq> p"
  shows "send_chain c p s = None"
proof (cases "send_chain c p s")
  case (Some y)
  have "\<not> (c = c \<and> p = p \<and> s = s)"
    by (rule send_chain.raw_induct [where P = "\<lambda>c' p' s' y. \<not> (c' = c \<and> p' = p \<and> s' = s)", OF _ Some])
      (use assms in \<open>fastforce split: if_splits option.splits\<close>)
  then show ?thesis by simp
qed

lemma self_send_hangs:
  assumes ok: "minix_ok s qs cq" and p: "p < 68" "mp_rts_flags (proc_at p s) = 0" and fl: "flags AND NON_BLOCKING = 0"
  shows "\<exists>s'. mini_send p (int p - 4) m flags s = Ret M_OK s' \<and>
    (\<forall>c m' flags'. c \<noteq> p \<longrightarrow> mini_send c (int p - 4) m' flags' s' = Stop Blocked s')"
proof -
  have a: "proc_addr (int p - 4) = Some p" using p by (simp add: proc_addr_def isokprocn_def M_NR_TASKS_def M_NR_PROCS_def)
  from block_sender_run [OF ok p(1) a, of m] obtain b where
    b: "block_sender p p (int p - 4) m s = Ret M_OK (queued p p (int p - 4) (last_ptr (cq p)) b)"
      "same_ipc (upd p (\<lambda>p. p\<lparr>mp_messbuf := m\<rparr>) s) b" and l: "last_ptr (cq p) = None \<or> the (last_ptr (cq p)) < 68" by blast
  let ?t = "queued p p (int p - 4) (last_ptr (cq p)) b"
  have lb: "length (mprocs b) = 68" using same_ipc_sel(11) [OF b(2)] minix_okD(5) [OF ok] by simp
  have "proc_addr (mp_sendto (proc_at p ?t)) = Some p" "mp_rts_flags (proc_at p ?t) AND SENDING \<noteq> 0"
    using lb p l a set_qlink_sel(1,2,6) [of p "upd p (\<lambda>q. (set_flag SENDING q)\<lparr>mp_sendto := int p - 4\<rparr>) b" "last_ptr (cq p)"]
    by (simp_all add: queued_def proc_at_upd SENDING_def)
  then have "mini_send c (int p - 4) m' flags' ?t = Stop Blocked ?t" if "c \<noteq> p" for c m' flags'
    using chain_loops that a by (simp add: mini_send_def)
  moreover have "send_chain p p s = Some (Some False)" using p by (subst send_chain.simps) simp
  then have "mini_send p (int p - 4) m flags s = Ret M_OK ?t"
    using a b(1) p fl by (simp add: mini_send_def waiting_for_def RECEIVING_def)
  ultimately show ?thesis by blast
qed

section \<open>Destination ANY\<close>

lemma send_any_faults:
  assumes "has_priv (proc_ptr s) s" and "bit (ms_trap_mask (priv_of (proc_ptr s) s)) 1" and "\<not> bad_pointer (proc_ptr s) m s"
  shows "sys_call SEND ANY m s = Stop Fault s"
proof -
  have "SEND AND SYSCALL_FUNC = 1" "unat (1 :: 32 word) = 1" by (simp_all add: SEND_def SYSCALL_FUNC_def)
  moreover have "(1 :: 32 word) AND CHECK_DST \<noteq> 0" by (simp add: CHECK_DST_def)
  moreover have "proc_addr ANY = None" by (simp add: proc_addr_def isokprocn_def ANY_def M_NR_TASKS_def M_NR_PROCS_def)
  ultimately show ?thesis using assms by (simp add: sys_call_def Let_def check_dst_def ANY_def)
qed

section \<open>A destination that was never used\<close>

text \<open>\<open>sys_call\<close> reads the id of the destination through \<open>p_priv\<close> before it tests whether the slot is in use, so
  sending to a slot that no process has used yet reads through a NULL pointer instead of reporting a dead destination.\<close>

lemma send_unused_faults:
  assumes "has_priv (proc_ptr s) s" and "bit (ms_trap_mask (priv_of (proc_ptr s) s)) 1" and "\<not> bad_pointer (proc_ptr s) m s"
    and "proc_addr dst = Some d" and "\<not> has_priv d s" and "0 \<le> dst"
  shows "sys_call SEND dst m s = Stop Fault s"
proof -
  have "SEND AND SYSCALL_FUNC = 1" "unat (1 :: 32 word) = 1" by (simp_all add: SEND_def SYSCALL_FUNC_def)
  moreover have "(1 :: 32 word) AND CHECK_DST \<noteq> 0" by (simp add: CHECK_DST_def)
  moreover have "isokprocn dst" using assms(4) by (auto simp: proc_addr_def split: if_splits)
  ultimately show ?thesis using assms by (simp add: sys_call_def Let_def check_dst_def)
qed

section \<open>A pending notification that is overlooked\<close>

lemma first_bit:
  assumes "i < 16" "bit w i" "\<And>k. k < i \<Longrightarrow> \<not> bit w k"
  shows "\<exists>ks. filter (bit w) [0..<16] = i # ks"
proof -
  have "[0..<16] = [0..<i] @ i # [Suc i..<16]"
    using assms(1) upt_add_eq_append [of 0 i "16 - i"] upt_conv_Cons [of i 16] by simp
  moreover have "filter (bit w) [0..<i] = []" using assms(3) by (simp add: filter_empty_conv)
  ultimately show ?thesis using assms(2) by simp
qed

lemma notification_overlooked:
  assumes "i < j" "j < 16" "bit p0 i" "\<And>k. k < i \<Longrightarrow> \<not> bit p0 k"
    and "src \<noteq> ANY" "ms_proc_nr (mprivs s ! j) = src" "ms_proc_nr (mprivs s ! i) \<noteq> src" and "bit p0 j"
  shows "notify_scan [0..<2] src [p0, 0] s = None"
proof -
  obtain ks where "filter (bit p0) [0..<16] = i # ks" using first_bit [of i p0] assms by auto
  moreover have "[0..<2] = [0, 1 :: nat]" by (simp add: upt_rec)
  moreover have "M_NR_SYS_PROCS \<le> i \<longleftrightarrow> False" using assms by (simp add: M_NR_SYS_PROCS_def)
  ultimately show ?thesis using assms by (simp add: Let_def)
qed

section \<open>Properties\<close>

text \<open>C22: \<open>mini_send\<close> in every case. In a consistent kernel and for a destination other than the caller it returns
  and keeps the kernel consistent: it reports ELOCKED exactly when the destination waits, directly or through other
  senders, for the caller; it copies the message to a destination that waits for it and clears its RECEIVING flag; it
  puts the caller at the end of the queue of any other destination, blocked, unless blocking is not allowed.\<close>

theorem minix_send_correct:
  assumes "minix_ok s qs cq" and "caller < 68" and "\<not> sending s caller"
    and "proc_addr dst = Some d" and "d \<noteq> caller"
  shows "\<exists>r s' qs' cq'. mini_send caller dst m flags s = Ret r s' \<and> minix_ok s' qs' cq' \<and>
    send_post caller d dst m flags s cq r s' cq'"
  using mini_send_ok [OF assms, of m flags] by blast

theorem minix_send_correct_witness:
  "\<exists>r s' qs' cq'. mini_send 4 1 0 0 mk0 = Ret r s' \<and> minix_ok s' qs' cq' \<and>
     send_post 4 5 1 0 0 mk0 (\<lambda>_. []) r s' cq' \<and> cq' 5 = [4]"
proof -
  have "proc_addr 1 = Some 5" by (simp add: proc_addr_def isokprocn_def M_NR_TASKS_def M_NR_PROCS_def)
  from minix_send_correct [OF mk0_ok, of 4 1 5 0 0] this mk0_waits(1) obtain r s' qs' cq' where
    *: "mini_send 4 1 0 0 mk0 = Ret r s'" "minix_ok s' qs' cq'" "send_post 4 5 1 0 0 mk0 (\<lambda>_. []) r s' cq'" by auto
  moreover have "\<not> awaits mk0 5 4" by (simp add: awaits_def mk0_proc mk_proc_def)
  then have "cq' 5 = [4]" using *(3) by (simp add: send_post_def mk0_waits NON_BLOCKING_def)
  ultimately show ?thesis by blast
qed

text \<open>C23: \<open>mini_receive\<close> in every case, for a caller that has a privilege structure. In a consistent kernel it returns and
  keeps the kernel consistent. A caller that is still blocked on sending, as in the middle of a SENDREC, only blocks on
  receiving as well, or gets ENOTREADY when it may not block. For any other caller a pending notification is delivered
  first, unless the caller is in a SENDREC (its SENDREC_BUSY flag is set; then notifications stay pending): the one of the lowest bit in the first chunk of the bit map whose lowest bit stands for a wanted source,
  and that bit alone is cleared; otherwise the first queued sender the caller asked for is taken off the queue,
  whatever its place, its message is copied and it is unblocked; otherwise the caller blocks on receiving, or gets
  ENOTREADY when it may not block.\<close>

theorem minix_receive_correct:
  assumes "minix_ok s qs cq" and "caller < 68" and "has_priv caller s"
  shows "\<exists>r s' qs' cq'. mini_receive caller src m flags s = Ret r s' \<and> minix_ok s' qs' cq' \<and>
    receive_post caller src m flags s cq r s' cq'"
  using mini_receive_ok [OF assms, of src m flags] by blast

text \<open>FS receives the message of PM, which had blocked on sending it.\<close>

theorem minix_receive_correct_witness:
  "\<exists>s' qs' cq'. mini_receive 5 ANY 0 0 mk1 = Ret M_OK s' \<and> minix_ok s' qs' cq' \<and> cq1 5 = [4] \<and> cq' 5 = [] \<and>
     mp_rts_flags (proc_at 4 mk1) = SENDING \<and> mp_rts_flags (proc_at 4 s') = 0"
proof -
  have hp: "has_priv 5 mk1" using tables_priv [OF minix_okD(2) [OF mk1_ok], of 5] by (simp add: mk1_proc mk_proc_sel)
  from minix_receive_correct [OF mk1_ok _ hp, of ANY 0 0] obtain r s' qs' cq' where
    *: "mini_receive 5 ANY 0 0 mk1 = Ret r s'" "minix_ok s' qs' cq'" "receive_post 5 ANY 0 0 mk1 cq1 r s' cq'" by auto
  have "\<not> (\<exists>c i. eligible mk1 5 ANY c i)"
    by (auto simp: eligible_def lowest_def pending_def priv_of_def mk1_proc mk_proc_sel mk1_sel mk0_sel mk_priv_def less_2_cases_iff)
  moreover have "filter (wanted mk1 ANY) (cq1 5) = [4]" by (simp add: cq1_def wanted_def)
  moreover have "mp_rts_flags (proc_at 4 mk1) = SENDING" by (simp add: mk1_proc)
  ultimately have "accept_post 5 0 4 mk1 cq1 r s' cq'" "mp_rts_flags (proc_at 4 mk1) = SENDING"
    using *(3) unfolding receive_post_def by (simp_all only: mk1_sending if_False list.case)
  then have "r = M_OK" "cq' 5 = []" "mp_rts_flags (proc_at 4 s') = 0"
    by (simp_all add: accept_post_def cq1_def)
  then show ?thesis using *(1,2) \<open>mp_rts_flags (proc_at 4 mk1) = SENDING\<close> by (auto simp: cq1_def)
qed

text \<open>A notification is delivered at once to a process that waits for it, and is otherwise recorded in the bit map
  of the destination under the id of the sender, without changing any other bit, any process or any message; the
  kernel stays consistent.\<close>

theorem minix_notify_correct:
  assumes "minix_ok s qs cq" and "caller < 68" and "proc_addr dst = Some d" and "has_priv caller s" and "has_priv d s"
  shows "\<exists>s' qs'. mini_notify caller dst s = Ret M_OK s' \<and> minix_ok s' qs' cq \<and> notify_post caller d s s'"
  using mini_notify_ok [OF assms] by blast

theorem minix_notify_correct_witness:
  "\<exists>s' qs'. mini_notify 4 1 mk0 = Ret M_OK s' \<and> minix_ok s' qs' (\<lambda>_. []) \<and> notify_post 4 5 mk0 s'"
  using minix_notify_correct [OF mk0_ok, of 4 1 5] tables_priv [OF mk0_tables, of 4] tables_priv [OF mk0_tables, of 5]
  by (simp add: mk0_proc mk_proc_sel proc_addr_def isokprocn_def M_NR_TASKS_def M_NR_PROCS_def)

text \<open>C21: Every system call of a running process returns to the kernel, which then restarts a process that is runnable and is
  the first of the ready queue of highest priority, under three conditions on a call that has a destination: it is not ANY
  (\<open>send_any_faults\<close>), it is not a slot without a privilege structure, which is a slot that no process has used yet
  (\<open>send_unused_faults\<close>: the kernel then reads through a NULL pointer), and the process does not SEND or SENDREC to itself (C25).\<close>

theorem minix_call_returns:
  assumes "live s" and "good_dst call_nr src_dst s"
  shows "\<exists>r s'. sys_call call_nr src_dst m s = Ret r s' \<and> live (restart s')"
  using call_live [OF assms] by blast

theorem minix_call_returns_witness: "\<exists>r s'. sys_call SENDREC 1 0 mk0 = Ret r s' \<and> live (restart s')"
  using minix_call_returns [OF mk0_live, of SENDREC 1 0]
    tables_priv [OF mk0_tables, of 5]
  by (simp add: good_dst_def no_self_send_def ANY_def mk0_sel mk0_proc mk_proc_sel proc_addr_def isokprocn_def M_NR_TASKS_def M_NR_PROCS_def)

text \<open>C20: Along every run of system calls and interrupts in which no process sends to itself (which C25 shows to make a circle)
  the kernel stays consistent: the ready queues hold exactly the runnable processes, each caller queue exactly the processes
  that block on sending to it, nobody waits in a circle, and the running process is runnable and of the highest priority. The
  start has to be consistent, which includes that every process in use has a privilege structure; free slots need none. A run
  consists of calls and interrupts that return; those that fault are the subject of C21.\<close>

theorem minix_run_invariant:
  assumes "mstep\<^sup>*\<^sup>* s t" and "live s"
  shows "live t"
  using assms by (rule run_live)

text \<open>PM makes a SENDREC to FS, and then a clock interrupt notifies CLOCK.\<close>

theorem minix_run_invariant_witness:
  "\<exists>r u s' t. sys_call SENDREC 1 0 mk0 = Ret r u \<and> mstep mk0 (restart u) \<and>
     lock_notify M_HARDWARE (-3) (restart u) = Ret M_OK s' \<and> mstep (restart u) (restart s') \<and> live (restart s')"
proof -
  have g: "good_dst SENDREC 1 mk0"
    using tables_priv [OF mk0_tables, of 5]
    by (simp add: good_dst_def no_self_send_def ANY_def mk0_sel mk0_proc mk_proc_sel proc_addr_def isokprocn_def M_NR_TASKS_def M_NR_PROCS_def)
  from call_live [OF mk0_live g, of 0] obtain r u where u: "sys_call SENDREC 1 0 mk0 = Ret r u" "live (restart u)" by blast
  have first: "mstep mk0 (restart u)" using g u(1) mstep.call by (auto simp: good_dst_def)
  obtain qs cq where "minix_ok (restart u) qs cq" using u(2) by (auto simp: live_def)
  then have "has_priv 1 (restart u)" using tables_priv [OF minix_okD(2), of "restart u" qs cq 1] by simp
  moreover have "proc_addr (-3) = Some 1" by (simp add: proc_addr_def isokprocn_def M_NR_TASKS_def M_NR_PROCS_def)
  ultimately obtain s' where s': "lock_notify M_HARDWARE (-3) (restart u) = Ret M_OK s'" using interrupt_live [OF u(2)] by blast
  then have "mstep (restart u) (restart s')" by (rule mstep.interrupt)
  moreover from this have "live (restart s')"
    using minix_run_invariant [of mk0 "restart s'"] first mk0_live by (meson r_into_rtranclp rtranclp_trans)
  ultimately show ?thesis using u(1) first s' by blast
qed

text \<open>When the quantum of a runnable process is used up, taking it off the ready queues and putting it back changes
  its priority and place only: the same processes are ready and no message or blocking state changes.\<close>

theorem minix_requeue_keeps:
  assumes "minix_ok s qs cq" and "intr_on s" "p < 68" "mp_rts_flags (proc_at p s) = 0"
  shows "\<exists>s' qs'. requeue_expired p s = Ret () s' \<and> minix_ok s' qs' cq \<and> same_ipc s s'"
  using requeue_ok [OF assms] .

theorem minix_requeue_keeps_witness:
  "\<exists>s' qs'. requeue_expired 4 mk0 = Ret () s' \<and> minix_ok s' qs' (\<lambda>_. []) \<and> same_ipc mk0 s'"
  using minix_requeue_keeps [OF mk0_ok, of 4] by (simp add: mk0_def proc_at_def mk_proc_def)

text \<open>C24: The deadlock check of \<open>mini_send\<close>, a walk along the destinations of blocked senders, ends as long as the caller
  queues are consistent and no set of processes waits in a circle (a self-send makes such a circle, and then the walk does
  not end: C25), and it answers exactly whether the destination depends on the caller: whether there is a chain of processes from the one to the other in
  which each blocks on sending to the next.\<close>

theorem minix_deadlock_check_exact:
  assumes "callers_ok s cq" and "xp < 68"
  shows "send_chain caller xp s = Some (Some ((xp, caller) \<in> (waits s)\<^sup>+))"
  using send_chain_eq [OF assms] .

text \<open>PM blocks on sending to FS: FS must not send to PM, while IDLE, which nobody waits for, is not on the chain.\<close>

theorem minix_deadlock_check_exact_witness:
  "waits mk1 = {(4, 5)} \<and> send_chain 5 4 mk1 = Some (Some True) \<and> send_chain 0 4 mk1 = Some (Some False)"
  using minix_deadlock_check_exact [OF minix_okD(3) [OF mk1_ok], of 4 5] minix_deadlock_check_exact [OF minix_okD(3) [OF mk1_ok], of 4 0]
  by (auto simp: mk1_waits dest: tranclD2)

text \<open>C25: The deadlock check does not see a process that sends to itself: the call returns OK with the process blocked in its
  own queue, and from then on \<open>mini_send\<close> never returns for any other process that sends to it.\<close>

theorem minix_self_send_hangs:
  assumes "minix_ok s qs cq" and "p < 68" "mp_rts_flags (proc_at p s) = 0" and "flags AND NON_BLOCKING = 0"
  shows "\<exists>s'. mini_send p (int p - 4) m flags s = Ret M_OK s' \<and>
    (\<forall>c m' flags'. c \<noteq> p \<longrightarrow> mini_send c (int p - 4) m' flags' s' = Stop Blocked s')"
  using self_send_hangs [OF assms] .

theorem minix_self_send_hangs_witness:
  "\<exists>s'. mini_send 4 0 0 0 mk0 = Ret M_OK s' \<and> mini_send 5 0 0 0 s' = Stop Blocked s'"
proof -
  have "mp_rts_flags (proc_at 4 mk0) = 0" by (simp add: mk0_proc mk_proc_def)
  from minix_self_send_hangs [OF mk0_ok _ this, of 0 0] obtain s' where
    "mini_send 4 0 0 0 mk0 = Ret M_OK s'" "\<forall>c m' flags'. c \<noteq> 4 \<longrightarrow> mini_send c 0 m' flags' s' = Stop Blocked s'" by auto
  moreover have "(5 :: nat) \<noteq> 4" by simp
  ultimately show ?thesis by blast
qed

text \<open>A copied message is the message of the sender with the number of the sender in its first word, byte for byte,
  and no other byte of memory changes, whenever source and destination do not overlap.\<close>

theorem cp_mess_correct:
  assumes "\<And>i j. i < 36 \<Longrightarrow> j < 36 \<Longrightarrow> s + of_nat i \<noteq> d + of_nat j"
  shows "(\<forall>i < 36. cp_mess src s d m (d + of_nat i) = (if i < 4 then ucast (drop_bit (8 * i) src) else m (s + of_nat i))) \<and>
    (\<forall>a. (\<forall>j < 36. a \<noteq> d + of_nat j) \<longrightarrow> cp_mess src s d m a = m a)"
  using cp_mess_bytes [OF assms] by blast

theorem cp_mess_correct_witness: "cp_mess 7 0 64 (\<lambda>a. ucast a) 64 = 7 \<and> cp_mess 7 0 64 (\<lambda>a. ucast a) 72 = 8 \<and> cp_mess 7 0 64 (\<lambda>a. ucast a) 8 = 8"
proof -
  have ne: "0 + of_nat i \<noteq> 64 + (of_nat j :: 32 word)" if "i < 36" "j < 36" for i j :: nat
  proof -
    have "of_nat i \<noteq> (of_nat (64 + j) :: 32 word)" using that unfolding word_of_nat_eq_iff by (simp add: take_bit_nat_eq_self)
    then show ?thesis by simp
  qed
  note c = cp_mess_correct [of 0 64 7 "\<lambda>a. ucast a", OF ne]
  have "cp_mess 7 0 64 (\<lambda>a. ucast a) 8 = 8" using c ne [of 8] by simp
  moreover have "cp_mess 7 0 64 (\<lambda>a. ucast a) (64 + of_nat 0) = ucast (drop_bit (8 * 0) (7 :: 32 word))" using c by force
  moreover have "cp_mess 7 0 64 (\<lambda>a. ucast a) (64 + of_nat 8) = ucast (of_nat 8 :: 32 word)" using conjunct1 [OF c, rule_format, of 8] by simp
  ultimately show ?thesis by simp
qed

end
