(* ===== verification/Mholes.thy ===== *)
theory Mholes
  imports Mlist
begin

text \<open>
  The memory allocator of the MINIX process manager, \<open>src/reference/minix/servers/pm/alloc.c\<close>: the hole table with its two
  linked lists, one of the holes in memory and one of the table entries not in use. A hole pointer is an index into the
  table. \<open>Fault\<close> is an access through a nil pointer or outside the table, \<open>Blocked\<close> a list that never ends and \<open>Halted\<close> the panic
  \<open>hole table full\<close>. \<open>phys_clicks\<close> is a 32-bit unsigned integer.
\<close>

section \<open>Hole table\<close>

record hole =
  h_next :: pptr
  h_base :: "32 word"
  h_len :: "32 word"

record holes =
  hole_tab :: "hole list"
  hole_head :: pptr
  free_slots :: pptr

definition NR_HOLES :: nat where "NR_HOLES = 128"
definition NR_MEMS :: nat where "NR_MEMS = 8"
definition NO_MEM :: "32 word" where "NO_MEM = 0"
definition swap_base :: "32 word" where "swap_base = - 1"

definition hole_at :: "nat \<Rightarrow> holes \<Rightarrow> hole" where
  "hole_at h s = hole_tab s ! h"

definition upd_hole :: "nat \<Rightarrow> (hole \<Rightarrow> hole) \<Rightarrow> holes \<Rightarrow> holes" where
  "upd_hole h f s = s\<lparr>hole_tab := (hole_tab s)[h := f (hole_tab s ! h)]\<rparr>"

section \<open>Operations\<close>

definition del_slot :: "pptr \<Rightarrow> nat \<Rightarrow> holes \<Rightarrow> (unit, holes) outcome" where
  "del_slot prev_ptr hp s =
     bnd (if Some hp = hole_head s then Ret () (s\<lparr>hole_head := h_next (hole_at hp s)\<rparr>)
          else case prev_ptr of
            None \<Rightarrow> Stop Fault s
          | Some p \<Rightarrow> Ret () (upd_hole p (\<lambda>h. h\<lparr>h_next := h_next (hole_at hp s)\<rparr>) s)) (\<lambda>_ s.
     Ret () ((upd_hole hp (\<lambda>h. h\<lparr>h_next := free_slots s\<rparr>) s)\<lparr>free_slots := Some hp\<rparr>))"

partial_function (option) alloc_loop :: "32 word \<Rightarrow> pptr \<Rightarrow> pptr \<Rightarrow> holes \<Rightarrow> (32 word, holes) outcome option" where
  "alloc_loop clicks prev_ptr hp s =
     (case hp of
        None \<Rightarrow> Some (Ret NO_MEM s)
      | Some h \<Rightarrow>
          if \<not> h_base (hole_at h s) < swap_base then Some (Ret NO_MEM s)
          else if clicks \<le> h_len (hole_at h s) then
            Some (let old_base = h_base (hole_at h s);
                      s = upd_hole h (\<lambda>x. x\<lparr>h_base := h_base x + clicks, h_len := h_len x - clicks\<rparr>) s
                  in bnd (if h_len (hole_at h s) = 0 then del_slot prev_ptr h s else Ret () s) (\<lambda>_ s. Ret old_base s))
          else alloc_loop clicks (Some h) (h_next (hole_at h s)) s)"

text \<open>\<open>swap_out\<close> is the constant 0, so that the outer loop runs once.\<close>

definition alloc_mem :: "32 word \<Rightarrow> holes \<Rightarrow> (32 word, holes) outcome" where
  "alloc_mem clicks s = (case alloc_loop clicks None (hole_head s) s of None \<Rightarrow> Stop Blocked s | Some r \<Rightarrow> r)"

text \<open>One of the two attempts of \<open>merge\<close>: absorb the successor into the hole; the result says whether it did.\<close>

definition absorb :: "nat \<Rightarrow> nat \<Rightarrow> holes \<Rightarrow> (bool, holes) outcome" where
  "absorb hp nx s =
     (if h_base (hole_at hp s) + h_len (hole_at hp s) = h_base (hole_at nx s) then
        bnd (del_slot (Some hp) nx (upd_hole hp (\<lambda>h. h\<lparr>h_len := h_len h + h_len (hole_at nx s)\<rparr>) s)) (\<lambda>_ s. Ret True s)
      else Ret False s)"

definition merge_hole :: "nat \<Rightarrow> holes \<Rightarrow> (unit, holes) outcome" where
  "merge_hole hp s =
     (case h_next (hole_at hp s) of
        None \<Rightarrow> Ret () s
      | Some nx \<Rightarrow>
          bnd (absorb hp nx s) (\<lambda>yes s.
          let hp = (if yes then hp else nx) in
          case h_next (hole_at hp s) of
            None \<Rightarrow> Ret () s
          | Some nx \<Rightarrow> bnd (absorb hp nx s) (\<lambda>_ s. Ret () s)))"

partial_function (option) free_loop :: "32 word \<Rightarrow> pptr \<Rightarrow> pptr \<Rightarrow> holes \<Rightarrow> pptr option" where
  "free_loop base prev_ptr hp s =
     (case hp of
        None \<Rightarrow> Some prev_ptr
      | Some h \<Rightarrow> if h_base (hole_at h s) < base then free_loop base (Some h) (h_next (hole_at h s)) s else Some prev_ptr)"

definition free_mem :: "32 word \<Rightarrow> 32 word \<Rightarrow> holes \<Rightarrow> (unit, holes) outcome" where
  "free_mem base clicks s =
     (if clicks = 0 then Ret () s
      else case free_slots s of
        None \<Rightarrow> Stop Halted s
      | Some new_ptr \<Rightarrow>
          (let s = upd_hole new_ptr (\<lambda>h. h\<lparr>h_base := base, h_len := clicks\<rparr>) s;
               s = s\<lparr>free_slots := h_next (hole_at new_ptr s)\<rparr>
           in if (case hole_head s of None \<Rightarrow> True | Some h \<Rightarrow> base \<le> h_base (hole_at h s)) then
                merge_hole new_ptr ((upd_hole new_ptr (\<lambda>h. h\<lparr>h_next := hole_head s\<rparr>) s)\<lparr>hole_head := Some new_ptr\<rparr>)
              else case free_loop base None (hole_head s) s of
                None \<Rightarrow> Stop Blocked s
              | Some None \<Rightarrow> Stop Fault s
              | Some (Some p) \<Rightarrow>
                  merge_hole p (upd_hole p (\<lambda>h. h\<lparr>h_next := Some new_ptr\<rparr>)
                    (upd_hole new_ptr (\<lambda>h. h\<lparr>h_next := h_next (hole_at p s)\<rparr>) s))))"

text \<open>\<open>mem_init\<close> takes the chunks from the last one to the first and adds up their sizes.\<close>

definition hole_init :: "holes \<Rightarrow> holes" where
  "hole_init s =
     s\<lparr>hole_tab := (map (\<lambda>i. (hole_tab s ! i)\<lparr>h_next := Some (Suc i)\<rparr>) [0..<NR_HOLES])
         [NR_HOLES - 1 := (hole_tab s ! (NR_HOLES - 1))\<lparr>h_next := None\<rparr>],
       hole_head := None, free_slots := Some 0\<rparr>"

fun init_chunks :: "(32 word \<times> 32 word) list \<Rightarrow> 32 word \<Rightarrow> holes \<Rightarrow> (32 word, holes) outcome" where
  "init_chunks [] free s = Ret free s"
| "init_chunks (c # cs) free s =
     (if snd c > 0 then bnd (free_mem (fst c) (snd c) s) (\<lambda>_ s. init_chunks cs (free + snd c) s)
      else init_chunks cs free s)"

definition mem_init :: "(32 word \<times> 32 word) list \<Rightarrow> holes \<Rightarrow> (32 word, holes) outcome" where
  "mem_init chunks s =
     (if length chunks < NR_MEMS then Stop Fault (hole_init s)
      else init_chunks (rev (take NR_MEMS chunks)) 0 (hole_init s))"

section \<open>Holes as intervals\<close>

text \<open>The list of the holes as intervals, and what allocating and freeing do to it.\<close>

type_synonym ivl = "nat \<times> nat"

definition ivl_of :: "holes \<Rightarrow> nat \<Rightarrow> ivl" where
  "ivl_of s h = (unat (h_base (hole_at h s)), unat (h_len (hole_at h s)))"

definition cover :: "ivl list \<Rightarrow> nat set" where
  "cover vs = (\<Union>(b, l) \<in> set vs. {b..<b + l})"

definition gapped :: "ivl list \<Rightarrow> bool" where
  "gapped vs \<longleftrightarrow> sorted_wrt (\<lambda>v w. fst v + snd v < fst w) vs \<and> (\<forall>v \<in> set vs. 0 < snd v \<and> fst v + snd v < 2 ^ 32)"

fun ivl_alloc :: "nat \<Rightarrow> ivl list \<Rightarrow> (nat \<times> ivl list) option" where
  "ivl_alloc n [] = None"
| "ivl_alloc n (v # vs) =
     (if n \<le> snd v then Some (fst v, if n = snd v then vs else (fst v + n, snd v - n) # vs)
      else map_option (apsnd ((#) v)) (ivl_alloc n vs))"

fun ivl_join :: "ivl \<Rightarrow> ivl list \<Rightarrow> ivl list" where
  "ivl_join v [] = [v]"
| "ivl_join v (w # ws) = (if fst v + snd v = fst w then (fst v, snd v + snd w) # ws else v # w # ws)"

definition ivl_free :: "nat \<Rightarrow> nat \<Rightarrow> ivl list \<Rightarrow> ivl list" where
  "ivl_free b n vs =
     (let as = takeWhile (\<lambda>v. fst v < b) vs; bs = dropWhile (\<lambda>v. fst v < b) vs
      in if as \<noteq> [] \<and> fst (last as) + snd (last as) = b
         then butlast as @ ivl_join (fst (last as), snd (last as) + n) bs
         else as @ ivl_join (b, n) bs)"

lemma cover_simps [simp]: "cover [] = {}" "cover (v # vs) = {fst v..<fst v + snd v} \<union> cover vs" "cover (vs @ ws) = cover vs \<union> cover ws"
  by (auto simp: cover_def split_beta)

lemma gapped_Cons: "gapped (v # vs) \<longleftrightarrow> (\<forall>w \<in> set vs. fst v + snd v < fst w) \<and> 0 < snd v \<and> fst v + snd v < 2 ^ 32 \<and> gapped vs"
  by (auto simp: gapped_def)

lemma gapped_append: "gapped (vs @ ws) \<longleftrightarrow> gapped vs \<and> gapped ws \<and> (\<forall>v \<in> set vs. \<forall>w \<in> set ws. fst v + snd v < fst w)"
  by (auto simp: gapped_def sorted_wrt_append)

lemma gapped_Nil [simp]: "gapped []"
  by (simp add: gapped_def)

lemma in_cover: "x \<in> cover vs \<longleftrightarrow> (\<exists>v \<in> set vs. fst v \<le> x \<and> x < fst v + snd v)"
  by (auto simp: cover_def split_beta)

lemma cover_above: "gapped (v # vs) \<Longrightarrow> x \<in> cover vs \<Longrightarrow> fst v + snd v < x"
  unfolding in_cover gapped_Cons by (meson order_less_le_trans)

lemma ivl_alloc_ends:
  "ivl_alloc n vs = Some (b, vs') \<Longrightarrow> w \<in> set vs' \<Longrightarrow> \<exists>v \<in> set vs. fst v \<le> fst w \<and> fst w + snd w = fst v + snd v"
  by (induction vs arbitrary: vs') (fastforce split: if_splits)+

lemma ivl_alloc_ok:
  "gapped vs \<Longrightarrow> ivl_alloc n vs = Some (b, vs') \<Longrightarrow>
     gapped vs' \<and> {b..<b + n} \<subseteq> cover vs \<and> cover vs' = cover vs - {b..<b + n} \<and> b + n < 2 ^ 32"
proof (induction vs arbitrary: vs')
  case (Cons v vs)
  note up = cover_above [OF Cons.prems(1)]
  have a: "0 < snd v" "fst v + snd v < 2 ^ 32" "gapped vs" using Cons.prems(1) by (simp_all add: gapped_Cons)
  show ?case
  proof (cases "n \<le> snd v")
    case True
    then have b: "b = fst v" "vs' = (if n = snd v then vs else (fst v + n, snd v - n) # vs)" using Cons.prems(2) by simp_all
    have "gapped vs'" using b(2) True Cons.prems(1) by (auto simp: gapped_Cons)
    moreover have "cover vs \<inter> {b..<b + n} = {}"
    proof -
      have "\<not> x < b + n" if "x \<in> cover vs" for x using up [OF that] b(1) True by simp
      then show ?thesis by auto
    qed
    then have "cover vs' = cover (v # vs) - {b..<b + n}" using b True by auto
    moreover have "{b..<b + n} \<subseteq> cover (v # vs)" "b + n < 2 ^ 32" using True a(2) unfolding b(1) by auto
    ultimately show ?thesis by blast
  next
    case False
    then obtain ws where ws: "ivl_alloc n vs = Some (b, ws)" "vs' = v # ws" using Cons.prems(2) by auto
    note IH = Cons.IH [OF a(3) ws(1)]
    have "fst v + snd v < fst w" if "w \<in> set ws" for w
      using ivl_alloc_ends [OF ws(1) that] Cons.prems(1) unfolding gapped_Cons by (meson order_less_le_trans)
    then have "gapped vs'" using IH a ws(2) by (simp add: gapped_Cons)
    moreover have "x \<notin> {b..<b + n}" if "x < fst v + snd v" for x using IH up [of x] that by auto
    then have "cover vs' = cover (v # vs) - {b..<b + n}" using IH ws(2) by auto
    ultimately show ?thesis using IH by auto
  qed
qed simp

lemma ivl_alloc_none: "ivl_alloc n vs = None \<longleftrightarrow> (\<forall>v \<in> set vs. snd v < n)"
  by (induction vs) auto

lemma cover_join: "0 < snd v \<Longrightarrow> cover (ivl_join v ws) = {fst v..<fst v + snd v} \<union> cover ws"
  by (cases ws) auto

lemma join_gapped:
  assumes "gapped ws" and "0 < snd v" "fst v + snd v < 2 ^ 32" and "\<And>w. w \<in> set ws \<Longrightarrow> fst v + snd v \<le> fst w"
  shows "gapped (ivl_join v ws)" "w \<in> set (ivl_join v ws) \<Longrightarrow> fst v \<le> fst w"
proof -
  show "gapped (ivl_join v ws)"
  proof (cases ws)
    case (Cons w us)
    have l: "fst v + snd v \<le> fst w" using assms(4) Cons by simp
    have u: "fst w + snd w < fst u" if "u \<in> set us" for u using that assms(1) Cons by (simp add: gapped_Cons)
    have w: "0 < snd w" "fst w + snd w < 2 ^ 32" "gapped us" using assms(1) Cons by (simp_all add: gapped_Cons)
    show ?thesis
    proof (cases "fst v + snd v = fst w")
      case True
      then show ?thesis using Cons u w by (simp add: gapped_Cons add.assoc [symmetric])
    next
      case False
      then have "fst v + snd v < fst u" if "u \<in> set (w # us)" for u using that l u [of u] by auto
      then show ?thesis using False Cons assms(1-3) by (simp add: gapped_Cons)
    qed
  qed (use assms in \<open>simp add: gapped_Cons\<close>)
  show "w \<in> set (ivl_join v ws) \<Longrightarrow> fst v \<le> fst w" using assms(4) by (cases ws) (fastforce split: if_splits)+
qed

lemma gapped_split:
  assumes "gapped vs" and "0 < n" "b + n < 2 ^ 32" and dis: "{b..<b + n} \<inter> cover vs = {}"
  defines "as \<equiv> takeWhile (\<lambda>v. fst v < b) vs" and "bs \<equiv> dropWhile (\<lambda>v. fst v < b) vs"
  shows "vs = as @ bs" "gapped as" "gapped bs" "\<And>v. v \<in> set as \<Longrightarrow> fst v + snd v \<le> b" "\<And>w. w \<in> set bs \<Longrightarrow> b + n \<le> fst w"
    "\<And>v w. v \<in> set as \<Longrightarrow> w \<in> set bs \<Longrightarrow> fst v + snd v < fst w"
proof -
  show vs: "vs = as @ bs" by (simp add: as_def bs_def)
  then show ap: "gapped as" "gapped bs" "\<And>v w. v \<in> set as \<Longrightarrow> w \<in> set bs \<Longrightarrow> fst v + snd v < fst w"
    using assms(1) gapped_append [of as bs] by auto
  have nc: "x \<notin> cover vs" if "b \<le> x" "x < b + n" for x using dis that by auto
  show "fst v + snd v \<le> b" if "v \<in> set as" for v
  proof (rule ccontr)
    assume "\<not> fst v + snd v \<le> b"
    moreover have "fst v < b" "v \<in> set vs" using that by (auto simp: as_def dest: set_takeWhileD)
    ultimately have "b \<in> cover vs" by (auto simp: in_cover intro!: bexI [of _ v])
    then show False using nc [of b] assms(2) by simp
  qed
  have ge: "b \<le> fst w" if w: "w \<in> set bs" for w
  proof (cases bs)
    case (Cons u us)
    then have "b \<le> fst u" using hd_dropWhile [of "\<lambda>v. fst v < b" vs] unfolding bs_def [symmetric] by simp
    then show ?thesis using w Cons ap(2) by (auto simp: gapped_Cons)
  qed (use w in simp)
  show "b + n \<le> fst w" if w: "w \<in> set bs" for w
  proof (rule ccontr)
    assume "\<not> b + n \<le> fst w"
    moreover have "fst w \<in> cover vs" using w vs ap(2) by (auto simp: in_cover gapped_def intro!: bexI [of _ w])
    ultimately show False using nc [of "fst w"] ge [OF w] by simp
  qed
qed

lemma ivl_free_ok:
  assumes ap: "gapped vs" and n: "0 < n" "b + n < 2 ^ 32" and dis: "{b..<b + n} \<inter> cover vs = {}"
  shows "gapped (ivl_free b n vs)" "cover (ivl_free b n vs) = cover vs \<union> {b..<b + n}"
proof -
  define as where "as = takeWhile (\<lambda>v. fst v < b) vs"
  define bs where "bs = dropWhile (\<lambda>v. fst v < b) vs"
  note sp = gapped_split [OF ap n dis, folded as_def bs_def]
  show "gapped (ivl_free b n vs)" "cover (ivl_free b n vs) = cover vs \<union> {b..<b + n}"
  proof (atomize (full), cases "as \<noteq> [] \<and> fst (last as) + snd (last as) = b")
    case True
    define p where "p = last as"
    have as: "as = butlast as @ [p]" using True by (simp add: p_def)
    let ?v = "(fst p, snd p + n)"
    have p: "fst p + snd p = b" "p \<in> set as" using True by (simp_all add: p_def)
    then have "0 < snd p" using sp(2) by (simp add: gapped_def)
    then have "gapped (ivl_join ?v bs)" and lo: "\<And>w. w \<in> set (ivl_join ?v bs) \<Longrightarrow> fst p \<le> fst w"
      using join_gapped [OF sp(3), of ?v] sp(5) n p(1) by (auto simp: add.assoc [symmetric])
    moreover have "fst v + snd v < fst p" "gapped (butlast as)" if "v \<in> set (butlast as)" for v
      using sp(2) that gapped_append [of "butlast as" "[p]"] as by auto
    moreover have "gapped (butlast as)" using sp(2) gapped_append [of "butlast as" "[p]"] as by auto
    ultimately have "gapped (butlast as @ ivl_join ?v bs)" unfolding gapped_append by (meson order_less_le_trans)
    moreover have "cover (butlast as @ ivl_join ?v bs) = cover vs \<union> {b..<b + n}"
    proof -
      have "cover (butlast as @ ivl_join ?v bs) = cover (butlast as) \<union> {fst p..<fst p + (snd p + n)} \<union> cover bs"
        using n by (simp add: cover_join Un_assoc)
      also have "{fst p..<fst p + (snd p + n)} = {fst p..<fst p + snd p} \<union> {b..<b + n}" using p(1) by auto
      also have "cover (butlast as) \<union> ({fst p..<fst p + snd p} \<union> {b..<b + n}) \<union> cover bs = cover (butlast as @ [p]) \<union> cover bs \<union> {b..<b + n}" by auto
      finally show ?thesis using sp(1) as by (metis cover_simps(3))
    qed
    ultimately show "gapped (ivl_free b n vs) \<and> cover (ivl_free b n vs) = cover vs \<union> {b..<b + n}"
      using True unfolding ivl_free_def Let_def as_def [symmetric] bs_def [symmetric] p_def [symmetric] by simp
  next
    case False
    have jo: "gapped (ivl_join (b, n) bs)" "\<And>w. w \<in> set (ivl_join (b, n) bs) \<Longrightarrow> b \<le> fst w"
      using join_gapped [OF sp(3), of "(b, n)"] sp(5) n by auto
    have "fst v + snd v < b" if v: "v \<in> set as" for v
    proof (cases "v = last as")
      case True
      then show ?thesis using False v sp(4) [OF v] by (cases as) (auto simp: less_le)
    next
      case ne: False
      have "as = butlast as @ [last as]" using v by (cases as rule: rev_cases) auto
      then have "v \<in> set (butlast as)" and "gapped (butlast as @ [last as])" using v ne sp(2)
        by (metis Un_iff empty_iff insert_iff list.set(1,2) set_append, metis)
      then have "fst v + snd v < fst (last as)" by (simp add: gapped_append)
      moreover have "fst (last as) \<le> b" using sp(4) [of "last as"] v by (cases as) auto
      ultimately show ?thesis by linarith
    qed
    then have "gapped (as @ ivl_join (b, n) bs)" using jo sp(2) unfolding gapped_append by (meson order_less_le_trans)
    then show "gapped (ivl_free b n vs) \<and> cover (ivl_free b n vs) = cover vs \<union> {b..<b + n}"
      using False sp(1) n cover_join [of "(b, n)" bs] cover_simps(3) [of as bs]
      unfolding ivl_free_def Let_def as_def [symmetric] bs_def [symmetric] by auto
  qed
qed

end
