(* ===== verification/Mholeprops.thy ===== *)
theory Mholeprops
  imports Mholes
begin

text \<open>
  The linked hole table refines the list of intervals, and that list the set of free clicks: what \<open>alloc_mem\<close>, \<open>free_mem\<close> and
  \<open>mem_init\<close> do to the set of free memory.
\<close>

section \<open>Representation\<close>

definition nexth :: "holes \<Rightarrow> nat \<Rightarrow> pptr" where
  "nexth s h = h_next (hole_at h s)"

text \<open>The two linked lists share the table between them.\<close>

definition struct_ok :: "holes \<Rightarrow> nat list \<Rightarrow> nat list \<Rightarrow> bool" where
  "struct_ok s hs fs \<longleftrightarrow>
     length (hole_tab s) = 128 \<and> seg (nexth s) (hole_head s) hs None \<and> seg (nexth s) (free_slots s) fs None \<and>
     distinct (hs @ fs) \<and> set (hs @ fs) = {..<128}"

definition holes_ok :: "holes \<Rightarrow> ivl list \<Rightarrow> nat list \<Rightarrow> bool" where
  "holes_ok s vs fs \<longleftrightarrow> gapped vs \<and> (\<exists>hs. struct_ok s hs fs \<and> map (ivl_of s) hs = vs)"

lemma hole_at_upd: "h < length (hole_tab s) \<Longrightarrow> hole_at x (upd_hole h f s) = (if x = h then f (hole_at h s) else hole_at x s)"
  by (simp add: hole_at_def upd_hole_def)

lemma upd_hole_sel [simp]:
  "hole_head (upd_hole h f s) = hole_head s" "free_slots (upd_hole h f s) = free_slots s"
  "length (hole_tab (upd_hole h f s)) = length (hole_tab s)"
  by (simp_all add: upd_hole_def)

lemma hole_at_other [simp]: "hole_at x (s\<lparr>hole_head := p\<rparr>) = hole_at x s" "hole_at x (s\<lparr>free_slots := p\<rparr>) = hole_at x s"
  by (simp_all add: hole_at_def)

lemma ivl_of_upd:
  assumes "h < length (hole_tab s)" "\<And>x. h_base (f x) = h_base x \<and> h_len (f x) = h_len x"
  shows "ivl_of (upd_hole h f s) x = ivl_of s x"
  using assms by (simp add: ivl_of_def hole_at_upd)

lemma ivl_of_other [simp]: "ivl_of (s\<lparr>hole_head := p\<rparr>) x = ivl_of s x" "ivl_of (s\<lparr>free_slots := p\<rparr>) x = ivl_of s x"
  by (simp_all add: ivl_of_def)

lemma struct_lt: "struct_ok s hs fs \<Longrightarrow> h \<in> set hs \<or> h \<in> set fs \<Longrightarrow> h < length (hole_tab s)"
  by (auto simp: struct_ok_def)

lemma del_slot_ok:
  assumes st: "struct_ok s (xs @ h # ys) fs"
  shows "\<exists>s'. del_slot (last_ptr xs) h s = Ret () s' \<and> struct_ok s' (xs @ ys) (h # fs) \<and> (\<forall>x. ivl_of s' x = ivl_of s x)"
proof -
  have lt: "h < length (hole_tab s)" using struct_lt [OF st] by simp
  have sg: "seg (nexth s) (hole_head s) (xs @ h # ys) None" and fsg: "seg (nexth s) (free_slots s) fs None"
    and d: "distinct (xs @ h # ys)" and dd: "distinct ((xs @ h # ys) @ fs)" using st by (auto simp: struct_ok_def)
  define t where "t = (if xs = [] then s\<lparr>hole_head := h_next (hole_at h s)\<rparr> else upd_hole (last xs) (\<lambda>x. x\<lparr>h_next := h_next (hole_at h s)\<rparr>) s)"
  define u where "u = (upd_hole h (\<lambda>x. x\<lparr>h_next := free_slots t\<rparr>) t)\<lparr>free_slots := Some h\<rparr>"
  have l: "xs \<noteq> [] \<Longrightarrow> last xs < length (hole_tab s)" "xs \<noteq> [] \<Longrightarrow> last xs \<noteq> h" "xs \<noteq> [] \<Longrightarrow> last xs \<notin> set fs"
    using struct_lt [OF st] d dd last_in_set [of xs] by (auto simp del: last_in_set)
  have "Some h = hole_head s \<longleftrightarrow> xs = []" using sg d by (cases xs) auto
  then have ret: "del_slot (last_ptr xs) h s = Ret () u" by (auto simp: del_slot_def t_def u_def last_ptr_def)
  have nt: "nexth t = (if xs = [] then nexth s else (nexth s)(last xs := nexth s h))"
    using l by (auto simp: t_def nexth_def hole_at_upd fun_eq_iff)
  have lt': "length (hole_tab t) = length (hole_tab s)" "free_slots t = free_slots s" by (simp_all add: t_def)
  have nu: "nexth u = (nexth t)(h := free_slots s)" using lt lt' by (auto simp: u_def nexth_def hole_at_upd fun_eq_iff)
  have "seg (nexth t) (hole_head t) (xs @ ys) None" using seg_cut [OF sg d] nt by (simp add: t_def nexth_def split: if_splits)
  moreover have hu: "hole_head u = hole_head t" "free_slots u = Some h" by (simp_all add: u_def)
  ultimately have "seg (nexth u) (hole_head u) (xs @ ys) None" using d unfolding nu by (simp add: seg_fun_upd)
  moreover have "seg (nexth u) (free_slots u) (h # fs) None"
    using fsg dd l nt unfolding nu hu by (simp add: seg_fun_upd split: if_splits)
  moreover have "length (hole_tab u) = 128" using st lt' by (simp add: u_def struct_ok_def)
  ultimately have "struct_ok u (xs @ ys) (h # fs)" using st by (auto simp: struct_ok_def)
  moreover have "ivl_of u x = ivl_of s x" for x
    using lt l by (auto simp: u_def t_def ivl_of_def hole_at_upd)
  ultimately show ?thesis using ret by blast
qed

lemma struct_upd:
  assumes "struct_ok s hs fs" and "h < 128" and "\<And>x. h_next (f x) = h_next x"
  shows "struct_ok (upd_hole h f s) hs fs"
proof -
  have "nexth (upd_hole h f s) = nexth s" using assms by (auto simp: nexth_def hole_at_upd fun_eq_iff struct_ok_def)
  then show ?thesis using assms(1) by (simp add: struct_ok_def)
qed

section \<open>Allocation\<close>

lemma gapped_word:
  assumes "fst (ivl_of s h) + snd (ivl_of s h) < 2 ^ 32" "0 < snd (ivl_of s h)"
  shows "h_base (hole_at h s) < swap_base"
proof -
  have "unat swap_base = 2 ^ 32 - 1" by (simp add: swap_base_def unsigned_minus_1_eq_mask mask_eq_exp_minus_1)
  then show ?thesis using assms by (simp add: ivl_of_def word_less_nat_alt)
qed

lemma bite_off:
  assumes "fst (ivl_of s h) + snd (ivl_of s h) < 2 ^ 32" and n: "n \<le> h_len (hole_at h s)" and h: "h < length (hole_tab s)"
  defines "t \<equiv> upd_hole h (\<lambda>x. x\<lparr>h_base := h_base x + n, h_len := h_len x - n\<rparr>) s"
  shows "ivl_of t x = (if x = h then (fst (ivl_of s h) + unat n, snd (ivl_of s h) - unat n) else ivl_of s x)"
proof -
  have "unat (h_base (hole_at h s)) + unat n < 2 ^ 32" using assms(1) n by (simp add: ivl_of_def word_le_nat_alt)
  then have "unat (h_base (hole_at h s) + n) = unat (h_base (hole_at h s)) + unat n" by (simp add: unat_word_ariths)
  then show ?thesis using h n by (auto simp: t_def ivl_of_def hole_at_upd unat_sub)
qed

lemma alloc_loop_ok:
  assumes "struct_ok s (xs @ ys) fs" and "gapped (map (ivl_of s) ys)" and "seg (nexth s) p ys None"
  shows "case ivl_alloc (unat n) (map (ivl_of s) ys) of
      None \<Rightarrow> alloc_loop n (last_ptr xs) p s = Some (Ret NO_MEM s)
    | Some (b, vs) \<Rightarrow> \<exists>s' hs' fs'. alloc_loop n (last_ptr xs) p s = Some (Ret (of_nat b) s') \<and>
        struct_ok s' hs' fs' \<and> map (ivl_of s') hs' = map (ivl_of s) xs @ vs \<and> length fs \<le> length fs'"
  using assms
proof (induction ys arbitrary: xs p)
  case Nil
  then show ?case by (subst alloc_loop.simps) simp
next
  case (Cons h ys)
  have p: "p = Some h" "seg (nexth s) (nexth s h) ys None" using Cons.prems(3) by simp_all
  have h: "fst (ivl_of s h) + snd (ivl_of s h) < 2 ^ 32" "0 < snd (ivl_of s h)" and ap: "gapped (map (ivl_of s) ys)"
    using Cons.prems(2) by (simp_all add: gapped_Cons)
  have lt: "h < 128" "h < length (hole_tab s)" using struct_lt [OF Cons.prems(1)] Cons.prems(1) by (auto simp: struct_ok_def)
  have d: "h \<notin> set xs" "h \<notin> set ys" using Cons.prems(1) by (auto simp: struct_ok_def)
  note sw = gapped_word [OF h]
  show ?case
  proof (cases "n \<le> h_len (hole_at h s)")
    case True
    let ?t = "upd_hole h (\<lambda>x. x\<lparr>h_base := h_base x + n, h_len := h_len x - n\<rparr>) s"
    note bite = bite_off [OF h(1) True lt(2)]
    have st: "struct_ok ?t (xs @ h # ys) fs" by (rule struct_upd [OF Cons.prems(1) lt(1)]) simp
    have le: "unat n \<le> snd (ivl_of s h)" using True by (simp add: ivl_of_def word_le_nat_alt)
    have m: "map (ivl_of ?t) xs = map (ivl_of s) xs" "map (ivl_of ?t) ys = map (ivl_of s) ys" using d bite by auto
    have z: "h_len (hole_at h ?t) = 0 \<longleftrightarrow> unat n = snd (ivl_of s h)"
    proof -
      have "h_len (hole_at h ?t) = 0 \<longleftrightarrow> snd (ivl_of ?t h) = 0" by (simp add: ivl_of_def unat_eq_zero)
      then show ?thesis using bite [of h] le by auto
    qed
    have "h_base (hole_at h s) = of_nat (fst (ivl_of s h))" by (simp add: ivl_of_def)
    then have run: "alloc_loop n (last_ptr xs) p s =
        Some (bnd (if h_len (hole_at h ?t) = 0 then del_slot (last_ptr xs) h ?t else Ret () ?t) (\<lambda>_. Ret (of_nat (fst (ivl_of s h)))))"
      using p(1) sw True by (subst alloc_loop.simps) (simp add: Let_def)
    show ?thesis
    proof (cases "unat n = snd (ivl_of s h)")
      case eq: True
      from del_slot_ok [OF st] obtain s' where s': "del_slot (last_ptr xs) h ?t = Ret () s'" "struct_ok s' (xs @ ys) (h # fs)"
        "\<And>x. ivl_of s' x = ivl_of ?t x" by blast
      have "alloc_loop n (last_ptr xs) p s = Some (Ret (of_nat (fst (ivl_of s h))) s')" using run z eq s'(1) by simp
      moreover have "map (ivl_of s') (xs @ ys) = map (ivl_of s) xs @ map (ivl_of s) ys" using m s'(3) by simp
      moreover have "length fs \<le> length (h # fs)" by simp
      ultimately have "\<exists>s' hs' fs'. alloc_loop n (last_ptr xs) p s = Some (Ret (of_nat (fst (ivl_of s h))) s') \<and>
        struct_ok s' hs' fs' \<and> map (ivl_of s') hs' = map (ivl_of s) xs @ map (ivl_of s) ys \<and> length fs \<le> length fs'"
        using s'(2) by blast
      then show ?thesis using eq by simp
    next
      case ne: False
      have "map (ivl_of ?t) (xs @ h # ys) = map (ivl_of s) xs @ (fst (ivl_of s h) + unat n, snd (ivl_of s h) - unat n) # map (ivl_of s) ys"
        using m bite [of h] by simp
      moreover have "alloc_loop n (last_ptr xs) p s = Some (Ret (of_nat (fst (ivl_of s h))) ?t)" using run z ne by simp
      ultimately have "\<exists>s' hs' fs'. alloc_loop n (last_ptr xs) p s = Some (Ret (of_nat (fst (ivl_of s h))) s') \<and>
        struct_ok s' hs' fs' \<and> map (ivl_of s') hs' = map (ivl_of s) xs @ (fst (ivl_of s h) + unat n, snd (ivl_of s h) - unat n) # map (ivl_of s) ys \<and>
        length fs \<le> length fs'" using st by blast
      then show ?thesis using ne le by simp
    qed
  next
    case False
    then have f: "\<not> unat n \<le> snd (ivl_of s h)" by (simp add: ivl_of_def word_le_nat_alt)
    have "struct_ok s ((xs @ [h]) @ ys) fs" using Cons.prems(1) by simp
    note IH = Cons.IH [OF this ap p(2)]
    have "alloc_loop n (last_ptr xs) p s = alloc_loop n (last_ptr (xs @ [h])) (nexth s h) s"
      using p(1) sw False by (subst alloc_loop.simps) (simp add: last_ptr_def nexth_def)
    then show ?thesis using IH f by (auto split: option.splits)
  qed
qed

lemma alloc_ok:
  assumes "holes_ok s vs fs"
  shows "case ivl_alloc (unat n) vs of
      None \<Rightarrow> alloc_mem n s = Ret NO_MEM s
    | Some (b, vs') \<Rightarrow> \<exists>s' fs'. alloc_mem n s = Ret (of_nat b) s' \<and> holes_ok s' vs' fs' \<and> length fs \<le> length fs'"
proof -
  obtain hs where hs: "struct_ok s hs fs" "map (ivl_of s) hs = vs" and ap: "gapped vs" using assms by (auto simp: holes_ok_def)
  then have "seg (nexth s) (hole_head s) hs None" by (simp add: struct_ok_def)
  from alloc_loop_ok [of s "[]" hs fs "hole_head s" n, OF _ _ this] hs ap ivl_alloc_ok [OF ap, of "unat n"] show ?thesis
    by (auto simp: alloc_mem_def holes_ok_def last_ptr_def split: option.splits) blast
qed

section \<open>Merging\<close>

lemma absorb_ok:
  assumes st: "struct_ok s (xs @ h # k # ys) fs"
    and h: "fst (ivl_of s h) + snd (ivl_of s h) < 2 ^ 32" and k: "fst (ivl_of s k) + snd (ivl_of s k) < 2 ^ 32"
  shows "if fst (ivl_of s h) + snd (ivl_of s h) = fst (ivl_of s k)
    then \<exists>s'. absorb h k s = Ret True s' \<and> struct_ok s' (xs @ h # ys) (k # fs) \<and>
      (\<forall>x. ivl_of s' x = (if x = h then (fst (ivl_of s h), snd (ivl_of s h) + snd (ivl_of s k)) else ivl_of s x))
    else absorb h k s = Ret False s"
proof -
  have "unat (h_base (hole_at h s) + h_len (hole_at h s)) = unat (h_base (hole_at h s)) + unat (h_len (hole_at h s))"
    using h by (simp add: ivl_of_def unat_word_ariths)
  then have eq: "h_base (hole_at h s) + h_len (hole_at h s) = h_base (hole_at k s) \<longleftrightarrow>
      fst (ivl_of s h) + snd (ivl_of s h) = fst (ivl_of s k)"
    by (simp add: ivl_of_def word_unat_eq_iff)
  show ?thesis
  proof (cases "fst (ivl_of s h) + snd (ivl_of s h) = fst (ivl_of s k)")
    case True
    let ?t = "upd_hole h (\<lambda>x. x\<lparr>h_len := h_len x + h_len (hole_at k s)\<rparr>) s"
    have lt: "h < length (hole_tab s)" "h < 128" using struct_lt [OF st] st by (auto simp: struct_ok_def)
    have "unat (h_len (hole_at h s)) + unat (h_len (hole_at k s)) < 2 ^ 32" using True k by (simp add: ivl_of_def)
    then have "unat (h_len (hole_at h s) + h_len (hole_at k s)) = unat (h_len (hole_at h s)) + unat (h_len (hole_at k s))"
      by (simp add: unat_word_ariths)
    then have iv: "ivl_of ?t x = (if x = h then (fst (ivl_of s h), snd (ivl_of s h) + snd (ivl_of s k)) else ivl_of s x)" for x
      using lt by (simp add: ivl_of_def hole_at_upd)
    have "struct_ok ?t ((xs @ [h]) @ k # ys) fs" using struct_upd [OF st lt(2)] by simp
    from del_slot_ok [OF this] obtain s' where "del_slot (Some h) k ?t = Ret () s'" "struct_ok s' (xs @ h # ys) (k # fs)"
      "\<And>x. ivl_of s' x = ivl_of ?t x" by (auto simp: last_ptr_def)
    then show ?thesis using True eq iv by (simp add: absorb_def)
  next
    case False
    then show ?thesis using eq by (simp add: absorb_def)
  qed
qed

fun ivl_merge :: "ivl list \<Rightarrow> ivl list" where
  "ivl_merge [] = []"
| "ivl_merge [v] = [v]"
| "ivl_merge (v # w # ws) =
     (if fst v + snd v = fst w then ivl_join (fst v, snd v + snd w) ws else v # ivl_join w ws)"

lemma absorb_join:
  assumes st: "struct_ok s (xs @ h # k # ys) fs"
    and b: "fst (ivl_of s h) + snd (ivl_of s h) < 2 ^ 32" "fst (ivl_of s k) + snd (ivl_of s k) < 2 ^ 32"
  shows "\<exists>s' yes zs fs'. absorb h k s = Ret yes s' \<and> struct_ok s' (xs @ h # zs) fs' \<and> length fs \<le> length fs' \<and>
    map (ivl_of s') xs = map (ivl_of s) xs \<and>
    (if fst (ivl_of s h) + snd (ivl_of s h) = fst (ivl_of s k)
     then yes \<and> zs = ys \<and> ivl_of s' h = (fst (ivl_of s h), snd (ivl_of s h) + snd (ivl_of s k)) \<and> map (ivl_of s') ys = map (ivl_of s) ys
     else \<not> yes \<and> zs = k # ys \<and> s' = s)"
proof (cases "fst (ivl_of s h) + snd (ivl_of s h) = fst (ivl_of s k)")
  case True
  have d: "h \<notin> set xs" "h \<notin> set ys" using st by (auto simp: struct_ok_def)
  obtain s' where "absorb h k s = Ret True s'" "struct_ok s' (xs @ h # ys) (k # fs)"
    "\<And>x. ivl_of s' x = (if x = h then (fst (ivl_of s h), snd (ivl_of s h) + snd (ivl_of s k)) else ivl_of s x)"
    using absorb_ok [OF st b] True by auto
  then show ?thesis using True d by (intro exI [of _ s'] exI [of _ True] exI [of _ ys] exI [of _ "k # fs"]) auto
next
  case False
  then show ?thesis using absorb_ok [OF st b] st by auto
qed

lemma next_of: "struct_ok s (xs @ h # ys) fs \<Longrightarrow> h_next (hole_at h s) = (case ys of [] \<Rightarrow> None | k # _ \<Rightarrow> Some k)"
  by (cases ys) (auto simp: struct_ok_def seg_append nexth_def)

text \<open>The second attempt of \<open>merge\<close>.\<close>

lemma second_ok:
  assumes st: "struct_ok s (xs @ h # ys) fs" and b: "\<And>x. x \<in> set (h # ys) \<Longrightarrow> fst (ivl_of s x) + snd (ivl_of s x) < 2 ^ 32"
  shows "\<exists>s' hs' fs'. (case h_next (hole_at h s) of None \<Rightarrow> Ret () s | Some nx \<Rightarrow> bnd (absorb h nx s) (\<lambda>_ s. Ret () s)) = Ret () s' \<and>
    struct_ok s' hs' fs' \<and> map (ivl_of s') hs' = map (ivl_of s) xs @ ivl_join (ivl_of s h) (map (ivl_of s) ys) \<and> length fs \<le> length fs'"
proof (cases ys)
  case Nil
  then show ?thesis using st next_of [OF st] by (intro exI [of _ s] exI [of _ "xs @ [h]"] exI [of _ fs]) simp
next
  case (Cons k zs)
  from absorb_join [of s xs h k zs fs] st b Cons obtain s' yes us fs' where
    a: "absorb h k s = Ret yes s'" "struct_ok s' (xs @ h # us) fs'" "length fs \<le> length fs'" "map (ivl_of s') xs = map (ivl_of s) xs"
      "if fst (ivl_of s h) + snd (ivl_of s h) = fst (ivl_of s k)
       then yes \<and> us = zs \<and> ivl_of s' h = (fst (ivl_of s h), snd (ivl_of s h) + snd (ivl_of s k)) \<and> map (ivl_of s') zs = map (ivl_of s) zs
       else \<not> yes \<and> us = k # zs \<and> s' = s" by auto
  have "map (ivl_of s') (xs @ h # us) = map (ivl_of s) xs @ ivl_join (ivl_of s h) (map (ivl_of s) ys)"
    using a(4,5) Cons by (simp split: if_splits)
  moreover have "(case h_next (hole_at h s) of None \<Rightarrow> Ret () s | Some nx \<Rightarrow> bnd (absorb h nx s) (\<lambda>_ s. Ret () s)) = Ret () s'"
    using a(1) next_of [OF st] Cons by simp
  ultimately show ?thesis using a(2,3) by blast
qed

lemma merge_ok:
  assumes st: "struct_ok s (xs @ h # ys) fs" and b: "\<And>x. x \<in> set (h # ys) \<Longrightarrow> fst (ivl_of s x) + snd (ivl_of s x) < 2 ^ 32"
  shows "\<exists>s' hs' fs'. merge_hole h s = Ret () s' \<and> struct_ok s' hs' fs' \<and>
    map (ivl_of s') hs' = map (ivl_of s) xs @ ivl_merge (map (ivl_of s) (h # ys)) \<and> length fs \<le> length fs'"
proof (cases ys)
  case Nil
  then show ?thesis using st next_of [OF st] by (intro exI [of _ s] exI [of _ "xs @ [h]"] exI [of _ fs]) (simp add: merge_hole_def)
next
  case (Cons k zs)
  have n: "h_next (hole_at h s) = Some k" using next_of [OF st] Cons by simp
  from absorb_join [of s xs h k zs fs] st b Cons obtain t yes us ft where
    a: "absorb h k s = Ret yes t" "struct_ok t (xs @ h # us) ft" "length fs \<le> length ft" "map (ivl_of t) xs = map (ivl_of s) xs"
      and c: "if fst (ivl_of s h) + snd (ivl_of s h) = fst (ivl_of s k)
       then yes \<and> us = zs \<and> ivl_of t h = (fst (ivl_of s h), snd (ivl_of s h) + snd (ivl_of s k)) \<and> map (ivl_of t) zs = map (ivl_of s) zs
       else \<not> yes \<and> us = k # zs \<and> t = s" by auto
  show ?thesis
  proof (cases "fst (ivl_of s h) + snd (ivl_of s h) = fst (ivl_of s k)")
    case True
    then have c: "yes" "us = zs" "ivl_of t h = (fst (ivl_of s h), snd (ivl_of s h) + snd (ivl_of s k))" "map (ivl_of t) zs = map (ivl_of s) zs"
      using c by auto
    have "fst (ivl_of t x) + snd (ivl_of t x) < 2 ^ 32" if "x \<in> set (h # zs)" for x
      using that b [of x] b [of k] Cons True c(3,4) by (auto simp: add.assoc [symmetric])
    from second_ok [OF a(2) [unfolded c(2)] this] show ?thesis
      using a(1,3,4) c True Cons n by (auto simp: merge_hole_def Let_def intro: order_trans)
  next
    case False
    then have c: "\<not> yes" "t = s" using c by auto
    have "struct_ok s ((xs @ [h]) @ k # zs) fs" using st Cons by simp
    from second_ok [OF this] show ?thesis
      using a(1) c False Cons n b by (auto simp: merge_hole_def Let_def)
  qed
qed

section \<open>Freeing\<close>

lemma free_loop_eq:
  "seg (nexth s) p ys None \<Longrightarrow>
   free_loop b (last_ptr xs) p s = Some (last_ptr (xs @ takeWhile (\<lambda>h. h_base (hole_at h s) < b) ys))"
proof (induction ys arbitrary: xs p)
  case Nil
  then show ?case by (subst free_loop.simps) simp
next
  case (Cons y ys)
  then have p: "p = Some y" "seg (nexth s) (nexth s y) ys None" by simp_all
  show ?case
  proof (cases "h_base (hole_at y s) < b")
    case True
    then have "free_loop b (last_ptr xs) p s = free_loop b (last_ptr (xs @ [y])) (nexth s y) s"
      using p(1) by (subst free_loop.simps) (simp add: last_ptr_def nexth_def)
    then show ?thesis using Cons.IH [OF p(2), of "xs @ [y]"] True by simp
  next
    case False
    then show ?thesis using p(1) by (subst free_loop.simps) simp
  qed
qed

text \<open>A table entry is taken off the list of unused entries and linked into the list of holes.\<close>

definition fresh :: "32 word \<Rightarrow> 32 word \<Rightarrow> nat \<Rightarrow> holes \<Rightarrow> holes" where
  "fresh b n new s =
     (let s = upd_hole new (\<lambda>h. h\<lparr>h_base := b, h_len := n\<rparr>) s in s\<lparr>free_slots := h_next (hole_at new s)\<rparr>)"

lemma fresh_sel:
  assumes "struct_ok s hs (new # fs)"
  shows "nexth (fresh b n new s) = nexth s" "hole_head (fresh b n new s) = hole_head s" "free_slots (fresh b n new s) = nexth s new"
    "length (hole_tab (fresh b n new s)) = 128"
    "ivl_of (fresh b n new s) x = (if x = new then (unat b, unat n) else ivl_of s x)"
    "h \<noteq> new \<Longrightarrow> hole_at h (fresh b n new s) = hole_at h s"
proof -
  have l: "new < length (hole_tab s)" "length (hole_tab s) = 128" using struct_lt [OF assms] assms by (auto simp: struct_ok_def)
  show "nexth (fresh b n new s) = nexth s" "ivl_of (fresh b n new s) x = (if x = new then (unat b, unat n) else ivl_of s x)"
    "free_slots (fresh b n new s) = nexth s new" "h \<noteq> new \<Longrightarrow> hole_at h (fresh b n new s) = hole_at h s"
    using l(1) by (auto simp: fresh_def Let_def nexth_def ivl_of_def hole_at_upd fun_eq_iff)
  show "hole_head (fresh b n new s) = hole_head s" "length (hole_tab (fresh b n new s)) = 128"
    using l by (simp_all add: fresh_def Let_def)
qed

lemma link_front:
  fixes b n :: "32 word"
  assumes st: "struct_ok s hs (new # fs)"
  defines "t \<equiv> fresh b n new s"
  defines "u \<equiv> (upd_hole new (\<lambda>h. h\<lparr>h_next := hole_head t\<rparr>) t)\<lparr>hole_head := Some new\<rparr>"
  shows "struct_ok u (new # hs) fs" "ivl_of u x = (if x = new then (unat b, unat n) else ivl_of s x)"
proof -
  note fr = fresh_sel [OF st, where b = b and n = n, folded t_def]
  have nl: "new < 128" using st by (auto simp: struct_ok_def)
  have d: "new \<notin> set hs" "new \<notin> set fs" using st by (auto simp: struct_ok_def)
  have nu: "nexth u = (nexth s)(new := hole_head s)" using fr nl by (auto simp: u_def nexth_def hole_at_upd fun_eq_iff)
  have hu: "hole_head u = Some new" "free_slots u = nexth s new" "length (hole_tab u) = 128" using fr by (simp_all add: u_def)
  show "struct_ok u (new # hs) fs" using st d unfolding struct_ok_def nu hu by (auto simp: seg_fun_upd)
  show "ivl_of u x = (if x = new then (unat b, unat n) else ivl_of s x)"
    using fr(4,5) nl by (simp add: u_def ivl_of_upd)
qed

lemma link_after:
  fixes b n :: "32 word"
  assumes st: "struct_ok s (as @ p # bs) (new # fs)"
  defines "t \<equiv> fresh b n new s"
  defines "u \<equiv> upd_hole p (\<lambda>h. h\<lparr>h_next := Some new\<rparr>) (upd_hole new (\<lambda>h. h\<lparr>h_next := h_next (hole_at p t)\<rparr>) t)"
  shows "struct_ok u (as @ p # new # bs) fs" "ivl_of u x = (if x = new then (unat b, unat n) else ivl_of s x)"
proof -
  note fr = fresh_sel [OF st, where b = b and n = n, folded t_def]
  have d: "new \<notin> set as" "new \<noteq> p" "new \<notin> set bs" "new \<notin> set fs" "p \<notin> set as" "p \<notin> set bs" "p \<notin> set fs"
    using st by (auto simp: struct_ok_def)
  have p: "p < 128" "new < 128" using st by (auto simp: struct_ok_def)
  have nu: "nexth u = (nexth s)(new := nexth s p, p := Some new)"
    using fr p d(2) by (auto simp: u_def nexth_def hole_at_upd fun_eq_iff)
  have hu: "hole_head u = hole_head s" "free_slots u = nexth s new" "length (hole_tab u) = 128" using fr by (simp_all add: u_def)
  have "seg (nexth s) (hole_head s) (as @ p # bs) None" "seg (nexth s) (nexth s new) fs None" using st by (auto simp: struct_ok_def)
  then have "seg (nexth u) (hole_head u) (as @ p # new # bs) None" "seg (nexth u) (free_slots u) fs None"
    using d unfolding nu hu by (auto simp: seg_append seg_fun_upd)
  then show "struct_ok u (as @ p # new # bs) fs" using st hu(3) unfolding struct_ok_def by auto
  show "ivl_of u x = (if x = new then (unat b, unat n) else ivl_of s x)"
    using fr(4,5) p by (simp add: u_def ivl_of_upd)
qed

lemma join_gapped_id: "gapped (v # vs) \<Longrightarrow> ivl_join v vs = v # vs"
  by (cases vs) (auto simp: gapped_Cons)

lemma merge_front:
  assumes "gapped vs" "\<And>w. w \<in> set vs \<Longrightarrow> b + n \<le> fst w"
  shows "ivl_merge ((b, n) # vs) = ivl_join (b, n) vs"
proof (cases vs)
  case (Cons w ws)
  have "gapped (w # ws)" using assms(1) Cons by simp
  moreover have "gapped ((b, n + snd w) # ws)" if "b + n = fst w" using \<open>gapped (w # ws)\<close> that by (auto simp: gapped_Cons add.assoc)
  ultimately show ?thesis using Cons join_gapped_id by (auto simp: add.assoc)
qed simp

lemma merge_after: "ivl_merge (v # (b, n) # ws) = (if fst v + snd v = b then ivl_join (fst v, snd v + n) ws else v # ivl_join (b, n) ws)"
  by simp

lemma free_mem_fresh:
  "clicks \<noteq> 0 \<Longrightarrow> free_slots s = Some new \<Longrightarrow> free_mem base clicks s =
     (let s = fresh base clicks new s
      in if (case hole_head s of None \<Rightarrow> True | Some h \<Rightarrow> base \<le> h_base (hole_at h s)) then
           merge_hole new ((upd_hole new (\<lambda>h. h\<lparr>h_next := hole_head s\<rparr>) s)\<lparr>hole_head := Some new\<rparr>)
         else case free_loop base None (hole_head s) s of
           None \<Rightarrow> Stop Blocked s
         | Some None \<Rightarrow> Stop Fault s
         | Some (Some p) \<Rightarrow>
             merge_hole p (upd_hole p (\<lambda>h. h\<lparr>h_next := Some new\<rparr>)
               (upd_hole new (\<lambda>h. h\<lparr>h_next := h_next (hole_at p s)\<rparr>) s)))"
  by (simp add: free_mem_def fresh_def Let_def)

lemma free_ok:
  assumes ok: "holes_ok s vs (new # fs)" and n: "clicks \<noteq> 0" "unat base + unat clicks < 2 ^ 32"
    and dis: "{unat base..<unat base + unat clicks} \<inter> cover vs = {}"
  shows "\<exists>s' fs'. free_mem base clicks s = Ret () s' \<and> holes_ok s' (ivl_free (unat base) (unat clicks) vs) fs' \<and> length fs \<le> length fs'"
proof -
  let ?b = "unat base" and ?n = "unat clicks"
  obtain hs where st: "struct_ok s hs (new # fs)" and vs: "map (ivl_of s) hs = vs" and ap: "gapped vs" using ok by (auto simp: holes_ok_def)
  have n0: "0 < ?n" using n(1) by (simp add: unat_gt_0)
  define as where "as = takeWhile (\<lambda>h. h_base (hole_at h s) < base) hs"
  define bs where "bs = dropWhile (\<lambda>h. h_base (hole_at h s) < base) hs"
  have hs: "hs = as @ bs" by (simp add: as_def bs_def)
  have lt: "h_base (hole_at h s) < base \<longleftrightarrow> fst (ivl_of s h) < ?b" for h by (simp add: ivl_of_def word_less_nat_alt)
  have ivs: "takeWhile (\<lambda>v. fst v < ?b) vs = map (ivl_of s) as" "dropWhile (\<lambda>v. fst v < ?b) vs = map (ivl_of s) bs"
    unfolding as_def bs_def vs [symmetric] by (simp_all add: takeWhile_map dropWhile_map o_def lt)
  note sp = gapped_split [OF ap n0 n(2) dis, unfolded ivs]
  have nn: "new \<notin> set hs" using st by (auto simp: struct_ok_def)
  let ?t = "fresh base clicks new s"
  note fr = fresh_sel [OF st, where b = base and n = clicks]
  have same: "hole_at h ?t = hole_at h s" if "h \<in> set hs" for h using fr(6) [of h] that nn by metis
  have bnd: "fst (ivl_of s x) + snd (ivl_of s x) < 2 ^ 32" if "x \<in> set hs" for x using ap vs that by (auto simp: gapped_def)
  have fin: "\<exists>s' fs'. free_mem base clicks s = Ret () s' \<and> holes_ok s' (ivl_free ?b ?n vs) fs' \<and> length fs \<le> length fs'"
    if "free_mem base clicks s = Ret () s'" "struct_ok s' hs' fs'" "map (ivl_of s') hs' = ivl_free ?b ?n vs" "length fs \<le> length fs'" for s' hs' fs'
    using that ivl_free_ok(1) [OF ap n0 n(2) dis] by (auto simp: holes_ok_def)
  have fslot: "free_slots s = Some new" using st by (simp add: struct_ok_def)
  have seg: "seg (nexth ?t) (hole_head ?t) hs None" using st fr(1,2) by (simp add: struct_ok_def)
  show ?thesis
  proof (cases "as = []")
    case True
    then have front: "case hole_head ?t of None \<Rightarrow> True | Some h \<Rightarrow> base \<le> h_base (hole_at h ?t)"
      using seg same by (cases hs) (auto simp: as_def split: if_splits)
    note lf = link_front [OF st, of base clicks]
    let ?u = "(upd_hole new (\<lambda>h. h\<lparr>h_next := hole_head ?t\<rparr>) ?t)\<lparr>hole_head := Some new\<rparr>"
    have m: "map (ivl_of ?u) hs = vs" using lf(2) nn vs by auto
    have "fst (ivl_of ?u x) + snd (ivl_of ?u x) < 2 ^ 32" if "x \<in> set (new # hs)" for x using lf(2) bnd [of x] that n(2) by auto
    from merge_ok [of ?u "[]" new hs fs, OF _ this] lf(1) obtain s' hs' fs' where
      r: "merge_hole new ?u = Ret () s'" "struct_ok s' hs' fs'" "map (ivl_of s') hs' = ivl_merge (map (ivl_of ?u) (new # hs))" "length fs \<le> length fs'"
      by auto
    have bv: "map (ivl_of s) bs = vs" using vs hs True by simp
    have "ivl_merge (map (ivl_of ?u) (new # hs)) = ivl_free ?b ?n vs"
      using merge_front [OF ap sp(5) [unfolded bv]] True ivs bv m lf(2) [of new] hs by (simp add: ivl_free_def Let_def)
    then show ?thesis using fin [OF _ r(2)] r(1,3,4) free_mem_fresh [OF n(1) fslot, of base] front by (simp add: Let_def)
  next
    case False
    then obtain cs p where as: "as = cs @ [p]" by (cases as rule: rev_cases) auto
    have "\<not> (case hole_head ?t of None \<Rightarrow> True | Some h \<Rightarrow> base \<le> h_base (hole_at h ?t))"
      using seg same False by (cases hs) (auto simp: as_def split: if_splits)
    moreover have "takeWhile (\<lambda>h. h_base (hole_at h ?t) < base) hs = as" unfolding as_def by (rule takeWhile_cong) (use same in auto)
    then have "free_loop base None (hole_head ?t) ?t = Some (Some p)"
      using free_loop_eq [OF seg, of base "[]"] as by (simp add: last_ptr_def)
    ultimately have run: "free_mem base clicks s =
        merge_hole p (upd_hole p (\<lambda>h. h\<lparr>h_next := Some new\<rparr>) (upd_hole new (\<lambda>h. h\<lparr>h_next := h_next (hole_at p ?t)\<rparr>) ?t))"
      using free_mem_fresh [OF n(1) fslot, of base] by (simp add: Let_def)
    let ?u = "upd_hole p (\<lambda>h. h\<lparr>h_next := Some new\<rparr>) (upd_hole new (\<lambda>h. h\<lparr>h_next := h_next (hole_at p ?t)\<rparr>) ?t)"
    have st': "struct_ok s (cs @ p # bs) (new # fs)" using st hs as by simp
    note la = link_after [OF st', of base clicks]
    have "fst (ivl_of ?u x) + snd (ivl_of ?u x) < 2 ^ 32" if "x \<in> set (p # new # bs)" for x
      using la(2) bnd [of x] that n(2) hs as by auto
    from merge_ok [OF la(1) this] obtain s' hs' fs' where
      r: "merge_hole p ?u = Ret () s'" "struct_ok s' hs' fs'" "map (ivl_of s') hs' = map (ivl_of ?u) cs @ ivl_merge (map (ivl_of ?u) (p # new # bs))"
        "length fs \<le> length fs'" by auto
    have m: "map (ivl_of ?u) cs = map (ivl_of s) cs" "map (ivl_of ?u) bs = map (ivl_of s) bs" "ivl_of ?u p = ivl_of s p" "ivl_of ?u new = (?b, ?n)"
      using la(2) nn hs as by auto
    have "map (ivl_of ?u) cs @ ivl_merge (map (ivl_of ?u) (p # new # bs)) = ivl_free ?b ?n vs"
      unfolding list.map m merge_after ivl_free_def Let_def ivs as by simp
    then show ?thesis using fin [OF _ r(2)] r(1,3,4) run by simp
  qed
qed

end
