(* ===== verification/Mmemory.thy ===== *)
theory Mmemory
  imports Mholeprops
begin

text \<open>
  The contract of the memory allocator towards FORK and EXEC, as a locale over the set of free clicks, and that \<open>alloc.c\<close>
  meets it; initialisation of the hole table from the memory chunks of the boot monitor.
\<close>

definition block :: "32 word \<Rightarrow> 32 word \<Rightarrow> nat set" where
  "block b n = {unat b..<unat b + unat n}"

text \<open>\<open>rep s F k\<close>: the free clicks are \<open>F\<close> and at least \<open>k\<close> more blocks can be freed.\<close>

locale memory =
  fixes alloc :: "32 word \<Rightarrow> 's \<Rightarrow> (32 word, 's) outcome"
    and free :: "32 word \<Rightarrow> 32 word \<Rightarrow> 's \<Rightarrow> (unit, 's) outcome"
    and rep :: "'s \<Rightarrow> nat set \<Rightarrow> nat \<Rightarrow> bool"
  assumes alloc_fits: "rep s F k \<Longrightarrow> block b n \<subseteq> F \<Longrightarrow> n \<noteq> 0 \<Longrightarrow> \<exists>c s'. alloc n s = Ret c s' \<and>
      block c n \<subseteq> F \<and> unat c + unat n < 2 ^ 32 \<and> rep s' (F - block c n) k"
    and alloc_full: "rep s F k \<Longrightarrow> n \<noteq> 0 \<Longrightarrow> (\<And>b. \<not> block b n \<subseteq> F) \<Longrightarrow> alloc n s = Ret NO_MEM s"
    and free_law: "rep s F (Suc k) \<Longrightarrow> n \<noteq> 0 \<Longrightarrow> unat b + unat n < 2 ^ 32 \<Longrightarrow> block b n \<inter> F = {} \<Longrightarrow>
      \<exists>s'. free b n s = Ret () s' \<and> rep s' (F \<union> block b n) k"
begin

lemma alloc_then_free:
  assumes "rep s F (Suc k)" "block b n \<subseteq> F" "n \<noteq> 0"
  shows "\<exists>c s' s''. alloc n s = Ret c s' \<and> block c n \<subseteq> F \<and> free c n s' = Ret () s'' \<and> rep s'' F k"
proof -
  obtain c s' where a: "alloc n s = Ret c s'" "block c n \<subseteq> F" "unat c + unat n < 2 ^ 32" "rep s' (F - block c n) (Suc k)"
    using alloc_fits [OF assms] by blast
  obtain s'' where "free c n s' = Ret () s''" "rep s'' (F - block c n \<union> block c n) k"
    using free_law [OF a(4) assms(3) a(3)] by blast
  moreover have "F - block c n \<union> block c n = F" using a(2) by blast
  ultimately show ?thesis using a(1,2) by auto
qed

lemma allocs_disjoint:
  assumes "rep s F k" "block b n \<subseteq> F" "n \<noteq> 0" "alloc n s = Ret c s'" "block d m \<subseteq> F - block c n" "m \<noteq> 0"
  shows "\<exists>e s''. alloc m s' = Ret e s'' \<and> block c n \<subseteq> F \<and> block e m \<subseteq> F \<and> block c n \<inter> block e m = {}"
proof -
  have a: "block c n \<subseteq> F" "rep s' (F - block c n) k" using alloc_fits [OF assms(1-3)] assms(4) by auto
  from alloc_fits [OF a(2) assms(5,6)] show ?thesis using a(1) by blast
qed

end

section \<open>The hole table meets the contract\<close>

definition mem_rep :: "holes \<Rightarrow> nat set \<Rightarrow> nat \<Rightarrow> bool" where
  "mem_rep s F k \<longleftrightarrow> (\<exists>vs fs. holes_ok s vs fs \<and> cover vs = F \<and> k \<le> length fs)"

lemma run_in_hole:
  assumes "gapped vs" and sub: "{b..<b + n} \<subseteq> cover vs" and "0 < n"
  shows "\<exists>v \<in> set vs. n \<le> snd v"
proof -
  have "b \<in> cover vs" using sub assms(3) by auto
  then obtain v where v: "v \<in> set vs" "fst v \<le> b" "b < fst v + snd v" by (auto simp: in_cover)
  have "b + n \<le> fst v + snd v"
  proof (rule ccontr)
    assume "\<not> b + n \<le> fst v + snd v"
    then have "fst v + snd v \<in> cover vs" using sub v by auto
    then obtain w where w: "w \<in> set vs" "fst w \<le> fst v + snd v" "fst v + snd v < fst w + snd w" by (auto simp: in_cover)
    obtain i j where ij: "i < length vs" "vs ! i = v" "j < length vs" "vs ! j = w" using v(1) w(1) by (auto simp: in_set_conv_nth)
    have s: "sorted_wrt (\<lambda>v w. fst v + snd v < fst w) vs" using assms(1) by (simp add: gapped_def)
    consider "i < j" | "i = j" | "j < i" by linarith
    then show False
    proof cases
      case 1
      then show False using sorted_wrt_nth_less [OF s 1 ij(3)] ij w by simp
    next
      case 2
      then show False using ij w by simp
    next
      case 3
      then show False using sorted_wrt_nth_less [OF s 3 ij(1)] ij v w by simp
    qed
  qed
  then show ?thesis using v by (auto intro!: bexI [of _ v])
qed

lemma unat_small: "c < 2 ^ 32 \<Longrightarrow> unat (of_nat c :: 32 word) = c"
  by (simp add: unat_of_nat)

lemma alloc_mem_fits:
  assumes "mem_rep s F k" "block b n \<subseteq> F" "n \<noteq> 0"
  shows "\<exists>c s'. alloc_mem n s = Ret c s' \<and> block c n \<subseteq> F \<and> unat c + unat n < 2 ^ 32 \<and> mem_rep s' (F - block c n) k"
proof -
  obtain vs fs where ok: "holes_ok s vs fs" "cover vs = F" "k \<le> length fs" using assms(1) by (auto simp: mem_rep_def)
  have ap: "gapped vs" using ok(1) by (simp add: holes_ok_def)
  have "\<exists>v \<in> set vs. unat n \<le> snd v" using run_in_hole [OF ap, of "unat b" "unat n"] assms(2,3) ok(2) by (simp add: block_def unat_gt_0)
  then have "ivl_alloc (unat n) vs \<noteq> None" unfolding ivl_alloc_none by (auto simp: not_less)
  then obtain c vs' where c: "ivl_alloc (unat n) vs = Some (c, vs')" by (cases "ivl_alloc (unat n) vs") auto
  note io = ivl_alloc_ok [OF ap c]
  obtain s' fs' where s': "alloc_mem n s = Ret (of_nat c) s'" "holes_ok s' vs' fs'" "length fs \<le> length fs'"
    using alloc_ok [OF ok(1), of n] c by auto
  have "unat (of_nat c :: 32 word) = c" using io by (intro unat_small) simp
  then have "block (of_nat c) n = {c..<c + unat n}" "unat (of_nat c :: 32 word) + unat n < 2 ^ 32" using io by (simp_all add: block_def)
  moreover have "mem_rep s' (F - {c..<c + unat n}) k" using s'(2,3) io ok(2,3) unfolding mem_rep_def by (meson order_trans)
  ultimately show ?thesis using s'(1) io ok(2) by auto
qed

lemma alloc_mem_full:
  assumes "mem_rep s F k" "n \<noteq> 0" "\<And>b. \<not> block b n \<subseteq> F"
  shows "alloc_mem n s = Ret NO_MEM s"
proof -
  obtain vs fs where ok: "holes_ok s vs fs" "cover vs = F" using assms(1) by (auto simp: mem_rep_def)
  have ap: "gapped vs" using ok(1) by (simp add: holes_ok_def)
  show ?thesis
  proof (cases "ivl_alloc (unat n) vs")
    case None
    then show ?thesis using alloc_ok [OF ok(1), of n] by simp
  next
    case (Some x)
    obtain c vs' where c: "ivl_alloc (unat n) vs = Some (c, vs')" using Some by (cases x) auto
    note io = ivl_alloc_ok [OF ap c]
    then have "unat (of_nat c :: 32 word) = c" by (intro unat_small) simp
    then have "block (of_nat c) n \<subseteq> F" using io ok(2) by (simp add: block_def)
    then show ?thesis using assms(3) by blast
  qed
qed

lemma free_mem_law:
  assumes "mem_rep s F (Suc k)" "n \<noteq> 0" "unat b + unat n < 2 ^ 32" "block b n \<inter> F = {}"
  shows "\<exists>s'. free_mem b n s = Ret () s' \<and> mem_rep s' (F \<union> block b n) k"
proof -
  obtain vs fs where ok: "holes_ok s vs fs" "cover vs = F" "Suc k \<le> length fs" using assms(1) by (auto simp: mem_rep_def)
  obtain new fs1 where fs: "fs = new # fs1" using ok(3) by (cases fs) auto
  have dis: "{unat b..<unat b + unat n} \<inter> cover vs = {}" using assms(4) ok(2) by (simp add: block_def)
  have ap: "gapped vs" "0 < unat n" using ok(1) assms(2) by (simp_all add: holes_ok_def unat_gt_0)
  obtain s' fs' where s': "free_mem b n s = Ret () s'" "holes_ok s' (ivl_free (unat b) (unat n) vs) fs'" "length fs1 \<le> length fs'"
    using free_ok [OF ok(1) [unfolded fs] assms(2,3) dis] by blast
  have "cover (ivl_free (unat b) (unat n) vs) = F \<union> block b n"
    using ivl_free_ok(2) [OF ap assms(3) dis] ok(2) by (simp add: block_def)
  moreover have "k \<le> length fs'" using s'(3) ok(3) fs by simp
  ultimately show ?thesis using s'(1,2) by (auto simp: mem_rep_def)
qed

interpretation pm: memory alloc_mem free_mem mem_rep
proof unfold_locales
  show "\<exists>c s'. alloc_mem n s = Ret c s' \<and> block c n \<subseteq> F \<and> unat c + unat n < 2 ^ 32 \<and> mem_rep s' (F - block c n) k"
    if "mem_rep s F k" "block b n \<subseteq> F" "n \<noteq> 0" for s F k b n
    by (rule alloc_mem_fits [OF that])
  show "alloc_mem n s = Ret NO_MEM s" if "mem_rep s F k" "n \<noteq> 0" "\<And>b. \<not> block b n \<subseteq> F" for s F k n
    by (rule alloc_mem_full [OF that])
  show "\<exists>s'. free_mem b n s = Ret () s' \<and> mem_rep s' (F \<union> block b n) k"
    if "mem_rep s F (Suc k)" "n \<noteq> 0" "unat b + unat n < 2 ^ 32" "block b n \<inter> F = {}" for s F k n b
    by (rule free_mem_law [OF that])
qed

section \<open>Initialisation\<close>

lemma seg_upt: "(\<And>i. i \<in> {a..<b} \<Longrightarrow> nx i = (if Suc i = b then None else Some (Suc i))) \<Longrightarrow> a < b \<Longrightarrow> seg nx (Some a) [a..<b] None"
proof (induction "b - a" arbitrary: a)
  case (Suc m)
  show ?case
  proof (cases "Suc a = b")
    case True
    then show ?thesis using Suc.prems by (auto simp: upt_conv_Cons)
  next
    case False
    then have "seg nx (Some (Suc a)) [Suc a..<b] None" using Suc by simp
    then show ?thesis using Suc.prems False by (simp add: upt_conv_Cons)
  qed
qed simp

lemma hole_init_rep:
  assumes "length (hole_tab s) = 128"
  shows "mem_rep (hole_init s) {} 128"
proof -
  let ?t = "hole_init s"
  have "nexth ?t i = (if Suc i = 128 then None else Some (Suc i))" if "i < 128" for i
    using that by (simp add: nexth_def hole_at_def hole_init_def NR_HOLES_def nth_list_update_cases)
  then have "seg (nexth ?t) (Some 0) [0..<128] None" by (intro seg_upt) simp_all
  then have "struct_ok ?t [] [0..<128]" by (simp add: struct_ok_def hole_init_def NR_HOLES_def atLeast0LessThan)
  then have "holes_ok ?t [] [0..<128]" by (auto simp: holes_ok_def)
  then show ?thesis unfolding mem_rep_def by (intro exI [of _ "[]"] exI [of _ "[0..<128]"]) simp
qed

text \<open>Chunks that do not overlap and do not reach the end of the address space.\<close>

fun chunks_ok :: "(32 word \<times> 32 word) list \<Rightarrow> nat set \<Rightarrow> bool" where
  "chunks_ok [] F \<longleftrightarrow> True"
| "chunks_ok (c # cs) F \<longleftrightarrow> unat (fst c) + unat (snd c) < 2 ^ 32 \<and> block (fst c) (snd c) \<inter> F = {} \<and> chunks_ok cs (F \<union> block (fst c) (snd c))"

lemma init_chunks_ok:
  "mem_rep s F (length cs + k) \<Longrightarrow> chunks_ok cs F \<Longrightarrow>
   \<exists>s'. init_chunks cs acc s = Ret (acc + sum_list (map snd cs)) s' \<and> mem_rep s' (F \<union> (\<Union>c \<in> set cs. block (fst c) (snd c))) k"
proof (induction cs arbitrary: s F acc)
  case (Cons c cs)
  show ?case
  proof (cases "snd c > 0")
    case True
    have "mem_rep s F (Suc (length cs + k))" "snd c \<noteq> 0" using Cons.prems(1) True by simp_all
    from free_mem_law [OF this, of "fst c"] Cons.prems(2) obtain t where
      t: "free_mem (fst c) (snd c) s = Ret () t" "mem_rep t (F \<union> block (fst c) (snd c)) (length cs + k)" by auto
    from Cons.IH [OF t(2)] Cons.prems(2) obtain s' where
      "init_chunks cs (acc + snd c) t = Ret (acc + snd c + sum_list (map snd cs)) s'"
      "mem_rep s' (F \<union> block (fst c) (snd c) \<union> (\<Union>c \<in> set cs. block (fst c) (snd c))) k" by fastforce
    then show ?thesis using True t(1) by (simp add: add.assoc Un_assoc)
  next
    case False
    then have z: "snd c = 0" "block (fst c) (snd c) = {}" by (simp_all add: block_def word_neq_0_conv [symmetric])
    have "mem_rep s F (length cs + k)" using Cons.prems(1) unfolding mem_rep_def by (metis Suc_leD add_Suc length_Cons)
    from Cons.IH [OF this] Cons.prems(2) z show ?thesis by simp
  qed
qed simp

lemma mem_init_ok:
  assumes "length (hole_tab s) = 128" "length chunks = 8" "chunks_ok (rev chunks) {}"
  shows "\<exists>s'. mem_init chunks s = Ret (sum_list (map snd chunks)) s' \<and> mem_rep s' (\<Union>c \<in> set chunks. block (fst c) (snd c)) 120"
proof -
  have "mem_rep (hole_init s) {} (length (rev chunks) + 120)" using hole_init_rep [OF assms(1)] assms(2) by simp
  from init_chunks_ok [OF this assms(3), of 0] show ?thesis
    using assms(2) by (simp add: mem_init_def NR_MEMS_def rev_map [symmetric] sum_list_rev)
qed

section \<open>Properties\<close>

definition holes0 :: holes where
  "holes0 = \<lparr>hole_tab = replicate 128 \<lparr>h_next = None, h_base = 0, h_len = 0\<rparr>, hole_head = None, free_slots = None\<rparr>"

definition chunks0 :: "(32 word \<times> 32 word) list" where
  "chunks0 = [(100, 50), (400, 20), (0, 0), (0, 0), (0, 0), (0, 0), (0, 0), (0, 0)]"

lemma chunks0_ok: "length chunks0 = 8" "chunks_ok (rev chunks0) {}" "length (hole_tab holes0) = 128"
  by (simp_all add: chunks0_def holes0_def block_def)

text \<open>\<open>mem_init\<close> turns the memory chunks of the boot monitor, which do not overlap, into the hole list: the free memory
  afterwards is exactly their union, the size it reports is the sum of their sizes, and 120 table entries stay unused.\<close>

theorem pm_mem_init_correct:
  assumes "length (hole_tab s) = 128" and "length chunks = 8" and "chunks_ok (rev chunks) {}"
  shows "\<exists>s'. mem_init chunks s = Ret (sum_list (map snd chunks)) s' \<and> mem_rep s' (\<Union>c \<in> set chunks. block (fst c) (snd c)) 120"
  using mem_init_ok [OF assms] .

theorem pm_mem_init_correct_witness:
  "\<exists>s'. mem_init chunks0 holes0 = Ret (sum_list (map snd chunks0)) s' \<and> mem_rep s' (\<Union>c \<in> set chunks0. block (fst c) (snd c)) 120"
  by (rule pm_mem_init_correct [OF chunks0_ok(3,1,2)])

lemma holes_example: "\<exists>s. mem_rep s ({100..<150} \<union> {400..<420}) 120"
proof -
  have "(\<Union>c \<in> set chunks0. block (fst c) (snd c)) = {100..<150} \<union> {400..<420}" by (auto simp: chunks0_def block_def)
  then show ?thesis using mem_init_ok [OF chunks0_ok(3,1,2)] by auto
qed

text \<open>C26: First fit allocation. When somewhere in the free memory there is a run of the requested length, \<open>alloc_mem\<close> returns
  the start of such a run, all of it was free, and exactly it is taken out of the free memory; when there is none it returns NO_MEM
  and changes nothing. It never runs off the hole list, and no address wraps around.\<close>

theorem pm_alloc_correct:
  assumes "mem_rep s F k" and "n \<noteq> 0"
  shows "if \<exists>b. block b n \<subseteq> F
    then \<exists>c s'. alloc_mem n s = Ret c s' \<and> block c n \<subseteq> F \<and> unat c + unat n < 2 ^ 32 \<and> mem_rep s' (F - block c n) k
    else alloc_mem n s = Ret NO_MEM s"
  using pm.alloc_fits [OF assms(1) _ assms(2)] pm.alloc_full [OF assms] by auto

theorem pm_alloc_correct_witness:
  "\<exists>s c s'. mem_rep s ({100..<150} \<union> {400..<420}) 120 \<and> alloc_mem 30 s = Ret c s' \<and> block c 30 \<subseteq> {100..<150} \<union> {400..<420}"
proof -
  obtain s where s: "mem_rep s ({100..<150} \<union> {400..<420}) 120" using holes_example by blast
  have "block 100 30 \<subseteq> {100..<150} \<union> {400..<420}" by (auto simp: block_def)
  then show ?thesis using pm_alloc_correct [OF s, of 30] s by (auto split: if_splits)
qed

text \<open>C27: Freeing. A block that is not free becomes free and nothing else changes, whatever holes it touches: it is merged with its
  neighbours, the hole list stays sorted with a gap between any two holes, and at most one table entry is used up.\<close>

theorem pm_free_correct:
  assumes "mem_rep s F (Suc k)" and "n \<noteq> 0" and "unat b + unat n < 2 ^ 32" and "block b n \<inter> F = {}"
  shows "\<exists>s'. free_mem b n s = Ret () s' \<and> mem_rep s' (F \<union> block b n) k"
  using pm.free_law [OF assms] .

theorem pm_free_correct_witness:
  "\<exists>s s'. mem_rep s ({100..<150} \<union> {400..<420}) (Suc 119) \<and> free_mem 150 250 s = Ret () s' \<and>
     mem_rep s' ({100..<150} \<union> {400..<420} \<union> block 150 250) 119"
proof -
  obtain s where s: "mem_rep s ({100..<150} \<union> {400..<420}) (Suc 119)" using holes_example by auto
  have "block 150 250 \<inter> ({100..<150} \<union> {400..<420}) = {}" by (auto simp: block_def)
  then show ?thesis using pm_free_correct [OF s, of 250 150] s by auto
qed

text \<open>Allocating a block and freeing it again gives back the same free memory, so that FORK and EXEC lose no memory when the
  process they served is gone.\<close>

theorem pm_alloc_free_roundtrip:
  assumes "mem_rep s F (Suc k)" and "block b n \<subseteq> F" and "n \<noteq> 0"
  shows "\<exists>c s' s''. alloc_mem n s = Ret c s' \<and> block c n \<subseteq> F \<and> free_mem c n s' = Ret () s'' \<and> mem_rep s'' F k"
  using pm.alloc_then_free [OF assms] .

theorem pm_alloc_free_roundtrip_witness:
  "\<exists>s c s' s''. alloc_mem 50 s = Ret c s' \<and> free_mem c 50 s' = Ret () s'' \<and> mem_rep s'' ({100..<150} \<union> {400..<420}) 119"
proof -
  obtain s where s: "mem_rep s ({100..<150} \<union> {400..<420}) (Suc 119)" using holes_example by auto
  have "block 100 50 \<subseteq> {100..<150} \<union> {400..<420}" by (auto simp: block_def)
  then show ?thesis using pm_alloc_free_roundtrip [OF s, of 100 50] by auto
qed

end
