(* ===== verification/Pmtab.thy ===== *)
theory Pmtab
  imports Mmemory
begin

text \<open>
  The process table of the MINIX process manager (\<open>src/reference/minix/servers/pm\<close>): \<open>mproc.h\<close>, \<open>glo.h\<close>, the parts of
  \<open>utility.c\<close>, \<open>exec.c\<close>, \<open>main.c\<close>, \<open>break.c\<close> and \<open>timers.c\<close> that the process and signal calls use. A pointer to a slot is its index.

  The kernel, the file server and the C library are not part of the process manager: what it asks of them is a value of type
  \<open>kcall\<close>, appended to the log \<open>kcalls\<close>, and their answers are the parameter \<open>e :: env\<close>, a function of the log. \<open>panic\<close> is the
  outcome \<open>Halted\<close>, an index outside the table \<open>Fault\<close>.
\<close>

section \<open>Constants\<close>

definition PM_NR_PROCS :: nat where "PM_NR_PROCS = 64"
definition NR_PIDS :: int where "NR_PIDS = 30000"
definition INIT_PID :: int where "INIT_PID = 1"
definition INIT_PROC_NR :: nat where "INIT_PROC_NR = 7"
definition PM_PROC_NR :: nat where "PM_PROC_NR = 0"
definition RS_PROC_NR :: nat where "RS_PROC_NR = 2"
definition LAST_FEW :: nat where "LAST_FEW = 2"
definition NSIG :: nat where "NSIG = 20"
definition PM_HZ :: "32 word" where "PM_HZ = 60"
definition PM_CLICK_SHIFT :: nat where "PM_CLICK_SHIFT = 10"
definition SAFETY_CLICKS :: "32 word" where "SAFETY_CLICKS = (384 * 4 + 1024 - 1) div 1024"

definition IN_USE :: "32 word" where "IN_USE = 0x001"
definition WAITING :: "32 word" where "WAITING = 0x002"
definition ZOMBIE :: "32 word" where "ZOMBIE = 0x004"
definition PAUSED :: "32 word" where "PAUSED = 0x008"
definition ALARM_ON :: "32 word" where "ALARM_ON = 0x010"
definition SEPARATE :: "32 word" where "SEPARATE = 0x020"
definition TRACED :: "32 word" where "TRACED = 0x040"
definition STOPPED :: "32 word" where "STOPPED = 0x080"
definition SIGSUSPENDED :: "32 word" where "SIGSUSPENDED = 0x100"
definition REPLY :: "32 word" where "REPLY = 0x200"
definition ONSWAP :: "32 word" where "ONSWAP = 0x400"
definition SWAPIN :: "32 word" where "SWAPIN = 0x800"
definition DONT_SWAP :: "32 word" where "DONT_SWAP = 0x1000"
definition PRIV_PROC :: "32 word" where "PRIV_PROC = 0x2000"

definition SUSPEND :: int where "SUSPEND = -998"
definition EPERM :: int where "EPERM = -1"
definition ESRCH :: int where "ESRCH = -3"
definition EINTR :: int where "EINTR = -4"
definition EIO :: int where "EIO = -5"
definition E2BIG :: int where "E2BIG = -7"
definition ENOEXEC :: int where "ENOEXEC = -8"
definition ECHILD :: int where "ECHILD = -10"
definition EAGAIN :: int where "EAGAIN = -11"
definition ENOMEM :: int where "ENOMEM = -12"
definition EACCES :: int where "EACCES = -13"
definition PM_EFAULT :: int where "PM_EFAULT = -14"
definition EINVAL :: int where "EINVAL = -22"
definition ENOSPC :: int where "ENOSPC = -28"
definition ENOSYS :: int where "ENOSYS = -38"

definition SIGHUP :: nat where "SIGHUP = 1"
definition SIGTRAP :: nat where "SIGTRAP = 5"
definition SIGKILL :: nat where "SIGKILL = 9"
definition SIGALRM :: nat where "SIGALRM = 14"
definition SIGCHLD :: nat where "SIGCHLD = 17"

section \<open>State\<close>

record mem_map =
  mem_vir :: "32 word"
  mem_phys :: "32 word"
  mem_len :: "32 word"

text \<open>A message: its type and the six words of the union, which the members \<open>m1_i1\<close>, \<open>m2_l1\<close> and so on name by their offset.\<close>

record pmess =
  m_type :: int
  m_w0 :: "32 word"
  m_w1 :: "32 word"
  m_w2 :: "32 word"
  m_w3 :: "32 word"
  m_w4 :: "32 word"
  m_w5 :: "32 word"

definition m1_i1 :: "pmess \<Rightarrow> int" where "m1_i1 m = sint (m_w0 m)"
definition m1_i2 :: "pmess \<Rightarrow> int" where "m1_i2 m = sint (m_w1 m)"
definition m1_i3 :: "pmess \<Rightarrow> int" where "m1_i3 m = sint (m_w2 m)"

record sigact =
  sa_handler :: "32 word"
  sa_mask :: "32 word"
  sa_flags :: "32 word"

record pmproc =
  mp_seg_T :: mem_map
  mp_seg_D :: mem_map
  mp_seg_S :: mem_map
  mp_exitstatus :: "8 word"
  mp_sigstatus :: "8 word"
  mp_pid :: int
  mp_procgrp :: int
  mp_wpid :: int
  mp_parent :: nat
  mp_child_utime :: "32 word"
  mp_child_stime :: "32 word"
  mp_realuid :: "16 word"
  mp_effuid :: "16 word"
  mp_realgid :: "8 word"
  mp_effgid :: "8 word"
  mp_ino :: "32 word"
  mp_dev :: "16 word"
  mp_ctime :: "32 word"
  mp_ignore :: "32 word"
  mp_catch :: "32 word"
  mp_sig2mess :: "32 word"
  mp_sigmask :: "32 word"
  mp_sigmask2 :: "32 word"
  mp_sigpending :: "32 word"
  mp_sigact :: "sigact list"
  mp_sigreturn :: "32 word"
  mp_exptime :: "32 word"
  mp_flags :: "32 word"
  mp_procargs :: "32 word"
  mp_reply :: pmess
  mp_nice :: int
  mp_name :: "8 word list"

text \<open>The requests the process manager makes of the kernel, the file server, the timer library and the C library, and an answer: the
  status, and what the request fills in: words (\<open>errno\<close> in \<open>a_2\<close> for a request of the C library that fails), the bytes that are read or
  copied in, and the status of a file.\<close>

record fstat =
  st_dev :: "16 word"
  st_ino :: "32 word"
  st_mode :: "16 word"
  st_uid :: "16 word"
  st_gid :: "16 word"
  st_ctime :: "32 word"

datatype kcall =
    SysAbscopy "32 word" "32 word" "32 word"
  | SysFork nat nat
  | SysNewmap nat mem_map mem_map mem_map
  | SysTimes nat
  | SysExit nat
  | SysTrace int nat "32 word" "32 word"
  | SysGetproc nat
  | SysSigsend nat nat "32 word" "32 word" "32 word" "32 word"
  | SysSigreturn nat "32 word"
  | SysKill nat nat
  | SysNice nat int
  | SysDatacopy nat nat
  | GetUptime
  | SetTimer nat "32 word"
  | CancelTimer nat
  | OpenCore nat
  | WriteCore nat
  | TellFs int int int int
  | CopyIn nat "32 word" "32 word"
  | CopyOut nat "32 word" "8 word list"
  | CopyInfo int nat "32 word"
  | Access "8 word list"
  | OpenFile "8 word list"
  | Fstat int
  | ReadFile int nat
  | Lseek int "32 word" int
  | CloseFile int
  | RwSeg bool int "32 word" "32 word"
  | SysMemset "32 word" "32 word"
  | SysExec nat "32 word" "8 word list" "32 word"
  | SysAbort int

record answer =
  a_res :: int
  a_1 :: "32 word"
  a_2 :: "32 word"
  a_3 :: "32 word"
  a_data :: "8 word list"
  a_stat :: fstat

type_synonym env = "kcall list \<Rightarrow> answer"

record pmst =
  mproc_tab :: "pmproc list"
  procs_in_use :: int
  next_pid :: int
  cur :: nat
  who :: nat
  call_nr :: int
  m_in :: pmess
  pm_holes :: holes
  kcalls :: "kcall list"
  boottime :: "32 word"
  monitor_params :: "8 word list"
  param_overrides :: "(8 word list \<times> 8 word list) list"
  local_params :: nat
  mbuf :: "8 word list"
  name_buf :: "8 word list"

type_synonym 'a act = "pmst \<Rightarrow> ('a, pmst) outcome"

text \<open>\<open>rmp->...\<close> and an assignment through \<open>rmp\<close>; a flag test; a request.\<close>

definition slot :: "nat \<Rightarrow> pmst \<Rightarrow> pmproc" where
  "slot r s = mproc_tab s ! r"

definition set_slot :: "nat \<Rightarrow> (pmproc \<Rightarrow> pmproc) \<Rightarrow> pmst \<Rightarrow> pmst" where
  "set_slot r f s = s\<lparr>mproc_tab := (mproc_tab s)[r := f (mproc_tab s ! r)]\<rparr>"

definition has :: "pmproc \<Rightarrow> 32 word \<Rightarrow> bool" where
  "has p m \<longleftrightarrow> mp_flags p AND m \<noteq> 0"

definition raise_flag :: "32 word \<Rightarrow> pmproc \<Rightarrow> pmproc" where
  "raise_flag m p = p\<lparr>mp_flags := mp_flags p OR m\<rparr>"

definition drop_flag :: "32 word \<Rightarrow> pmproc \<Rightarrow> pmproc" where
  "drop_flag m p = p\<lparr>mp_flags := mp_flags p AND NOT m\<rparr>"

definition ask :: "env \<Rightarrow> kcall \<Rightarrow> pmst \<Rightarrow> answer \<times> pmst" where
  "ask e c s = (e (c # kcalls s), s\<lparr>kcalls := c # kcalls s\<rparr>)"

definition tell_fs :: "env \<Rightarrow> int \<Rightarrow> int \<Rightarrow> int \<Rightarrow> int \<Rightarrow> pmst \<Rightarrow> pmst" where
  "tell_fs e what p1 p2 p3 s = snd (ask e (TellFs what p1 p2 p3) s)"

definition on_holes :: "(holes \<Rightarrow> ('a, holes) outcome) \<Rightarrow> 'a act" where
  "on_holes f s =
     (case f (pm_holes s) of Ret a h \<Rightarrow> Ret a (s\<lparr>pm_holes := h\<rparr>) | Stop r h \<Rightarrow> Stop r (s\<lparr>pm_holes := h\<rparr>))"

text \<open>The test \<open>(mp_flags & (IN_USE | ZOMBIE)) == IN_USE\<close> that occurs throughout.\<close>

definition in_use :: "pmproc \<Rightarrow> bool" where
  "in_use p \<longleftrightarrow> has p IN_USE"

definition running :: "pmproc \<Rightarrow> bool" where
  "running p \<longleftrightarrow> mp_flags p AND (IN_USE OR ZOMBIE) = IN_USE"

section \<open>Utilities\<close>

definition setreply :: "nat \<Rightarrow> int \<Rightarrow> pmst \<Rightarrow> pmst" where
  "setreply nr result = set_slot nr (\<lambda>p. raise_flag REPLY (p\<lparr>mp_reply := (mp_reply p)\<lparr>m_type := result\<rparr>\<rparr>))"

definition reply_res2 :: "nat \<Rightarrow> int \<Rightarrow> pmst \<Rightarrow> pmst" where
  "reply_res2 nr v = set_slot nr (\<lambda>p. p\<lparr>mp_reply := (mp_reply p)\<lparr>m_w0 := word_of_int v\<rparr>\<rparr>)"

definition pid_taken :: "pmproc list \<Rightarrow> int \<Rightarrow> bool" where
  "pid_taken ps n \<longleftrightarrow> list_ex (\<lambda>p. mp_pid p = n \<or> mp_procgrp p = n) ps"

partial_function (option) free_pid_loop :: "pmproc list \<Rightarrow> int \<Rightarrow> int option" where
  "free_pid_loop ps n =
     (let n = (if n < NR_PIDS then n + 1 else INIT_PID + 1)
      in if pid_taken ps n then free_pid_loop ps n else Some n)"

definition get_free_pid :: "int act" where
  "get_free_pid s =
     (case free_pid_loop (mproc_tab s) (next_pid s) of
        None \<Rightarrow> Stop Blocked s
      | Some n \<Rightarrow> Ret n (s\<lparr>next_pid := n\<rparr>))"

text \<open>The slot of the first process that satisfies a test, as the loops over the table find it.\<close>

fun first_slot :: "(nat \<Rightarrow> pmproc \<Rightarrow> bool) \<Rightarrow> nat list \<Rightarrow> pmst \<Rightarrow> nat option" where
  "first_slot t [] s = None"
| "first_slot t (r # rs) s = (if t r (slot r s) then Some r else first_slot t rs s)"

definition all_slots :: "nat list" where
  "all_slots = [0..<PM_NR_PROCS]"

definition find_share :: "nat \<Rightarrow> 32 word \<Rightarrow> 16 word \<Rightarrow> 32 word \<Rightarrow> pmst \<Rightarrow> nat option" where
  "find_share ign ino dev ctime =
     first_slot (\<lambda>r p. has p SEPARATE \<and> r \<noteq> ign \<and> mp_ino p = ino \<and> mp_dev p = dev \<and> mp_ctime p = ctime) all_slots"

definition proc_from_pid :: "int \<Rightarrow> pmst \<Rightarrow> nat option" where
  "proc_from_pid pid = first_slot (\<lambda>_ p. mp_pid p = pid) all_slots"

definition find_proc :: "int \<Rightarrow> pmst \<Rightarrow> nat option" where
  "find_proc lpid = first_slot (\<lambda>_ p. in_use p \<and> mp_pid p = lpid) all_slots"

section \<open>Segments\<close>

text \<open>
  \<open>adjust\<close>. The type \<open>long\<close> has the width of \<open>unsigned\<close>: the comparison of \<open>sp_click\<close> with \<open>base_of_stack\<close> is unsigned, the one of
  \<open>delta\<close> with 0 signed.
\<close>

definition adjust :: "env \<Rightarrow> nat \<Rightarrow> 32 word \<Rightarrow> 32 word \<Rightarrow> pmst \<Rightarrow> int \<times> pmst" where
  "adjust e r data_clicks sp s =
     (let D = mp_seg_D (slot r s); S = mp_seg_S (slot r s);
          base_of_stack = mem_vir S + mem_len S;
          sp_click = drop_bit PM_CLICK_SHIFT sp;
          delta = mem_vir S - sp_click;
          lower = (if 0 < sint delta then sp_click else mem_vir S);
          gap_base = mem_vir D + data_clicks + SAFETY_CLICKS
      in if mem_len S = 0 then (0, s)
         else if base_of_stack \<le> sp_click then (ENOMEM, s)
         else if lower < gap_base then (ENOMEM, s)
         else
           (let D' = D\<lparr>mem_len := data_clicks\<rparr>;
                S' = (if 0 < sint delta
                      then S\<lparr>mem_vir := mem_vir S - delta, mem_phys := mem_phys S - delta, mem_len := mem_len S + delta\<rparr> else S);
                changed = (data_clicks \<noteq> mem_len D \<or> 0 < sint delta)
            in if mem_vir D' + mem_len D' > mem_vir S' then (ENOMEM, s)
               else
                 (let s = set_slot r (\<lambda>p. p\<lparr>mp_seg_D := D', mp_seg_S := S'\<rparr>) s
                  in (0, if changed then snd (ask e (SysNewmap r (mp_seg_T (slot r s)) D' S') s) else s))))"

section \<open>Timers\<close>

text \<open>
  \<open>pm_set_timer\<close> and \<open>pm_cancel_timer\<close>: the list of timers is kept by the timer library, which is not in the repository; a
  \<open>SetTimer\<close> or \<open>CancelTimer\<close> request covers the library call and the rescheduling of the alarm behind it.
\<close>

definition pm_set_timer :: "env \<Rightarrow> nat \<Rightarrow> 32 word \<Rightarrow> unit act" where
  "pm_set_timer e nr ticks s =
     (let (a, s) = ask e GetUptime s
      in if a_res a \<noteq> 0 then Stop Halted s
         else
           (let s = set_slot nr (\<lambda>p. p\<lparr>mp_exptime := a_1 a + ticks\<rparr>) s; (b, s) = ask e (SetTimer nr (a_1 a + ticks)) s
            in if a_res b \<noteq> 0 then Stop Halted s else Ret () s))"

definition pm_cancel_timer :: "env \<Rightarrow> nat \<Rightarrow> unit act" where
  "pm_cancel_timer e nr s =
     (let (b, s) = ask e (CancelTimer nr) s in if a_res b \<noteq> 0 then Stop Halted s else Ret () s)"

definition alarm_ticks :: "32 word \<Rightarrow> 32 word" where
  "alarm_ticks sec = (let ticks = PM_HZ * sec in if ticks div PM_HZ \<noteq> sec then 0x7FFFFFFF else ticks)"

definition alarm_left :: "32 word \<Rightarrow> 32 word \<Rightarrow> int" where
  "alarm_left exptime uptime = (let left = sint (exptime - uptime + (PM_HZ - 1)) in if left < 0 then 0 else left div 60)"

definition set_alarm :: "env \<Rightarrow> nat \<Rightarrow> 32 word \<Rightarrow> int act" where
  "set_alarm e nr sec s =
     bnd (if has (slot nr s) ALARM_ON then
            (let (a, s) = ask e GetUptime s
             in if a_res a \<noteq> 0 then Stop Halted s else Ret (alarm_left (mp_exptime (slot nr s)) (a_1 a)) s)
          else Ret 0 s) (\<lambda>remaining s.
     let ticks = alarm_ticks sec
     in bnd (if ticks \<noteq> 0 then bnd (pm_set_timer e nr ticks s) (\<lambda>_ s. Ret () (set_slot nr (raise_flag ALARM_ON) s))
             else if has (slot nr s) ALARM_ON then
               bnd (pm_cancel_timer e nr s) (\<lambda>_ s. Ret () (set_slot nr (drop_flag ALARM_ON) s))
             else Ret () s) (\<lambda>_ s. Ret remaining s))"

end
