(* ===== verification/Pmsig.thy ===== *)
theory Pmsig
  imports Pmtab
begin

text \<open>
  Termination of processes and signals: \<open>pm_exit\<close> and \<open>cleanup\<close> of \<open>forkexit.c\<close>, \<open>sig_proc\<close>, \<open>check_sig\<close> and their callers in
  \<open>signal.c\<close>, \<open>stop_proc\<close> of \<open>trace.c\<close>. In the source \<open>pm_exit\<close> calls \<open>check_sig\<close>, which calls \<open>sig_proc\<close>, which calls \<open>pm_exit\<close>.
  Here \<open>sig_proc_with\<close> and \<open>check_sig_with\<close> take the function they call as an argument, and \<open>pm_exit\<close> closes the knot with a bound
  on the depth of the nesting: a process that exits is no longer running, so \<open>PM_NR_PROCS + 1\<close> is enough.
\<close>

section \<open>Signal sets\<close>

definition SA_RESETHAND :: "32 word" where "SA_RESETHAND = 2"
definition SA_NODEFER :: "32 word" where "SA_NODEFER = 4"
definition SIG_DFL :: "32 word" where "SIG_DFL = 0"
definition SIG_IGN :: "32 word" where "SIG_IGN = 1"
definition SIG_MESS :: "32 word" where "SIG_MESS = 4"
definition DUMPED :: "8 word" where "DUMPED = 0x80"
definition FS_CHDIR :: int where "FS_CHDIR = 12"
definition FS_EXIT :: int where "FS_EXIT = 1"
definition FS_UNPAUSE :: int where "FS_UNPAUSE = 65"

definition sigismember :: "32 word \<Rightarrow> nat \<Rightarrow> bool" where "sigismember m n \<longleftrightarrow> bit m n"
definition sigaddset :: "nat \<Rightarrow> 32 word \<Rightarrow> 32 word" where "sigaddset n m = m OR 2 ^ n"
definition sigdelset :: "nat \<Rightarrow> 32 word \<Rightarrow> 32 word" where "sigdelset n m = m AND NOT (2 ^ n)"

definition core_sigs :: "nat list" where "core_sigs = [3, 4, 5, 6, 7, 8, 10, 11, 12]"
definition ign_sigs :: "nat list" where "ign_sigs = [SIGCHLD]"
definition core_sset :: "32 word" where "core_sset = fold sigaddset core_sigs 0"
definition ign_sset :: "32 word" where "ign_sset = fold sigaddset ign_sigs 0"

section \<open>Parts of signal delivery\<close>

definition wait_status :: "pmproc \<Rightarrow> int" where
  "wait_status p = push_bit 8 (sint (mp_exitstatus p)) OR uint (mp_sigstatus p)"

definition cleanup :: "nat \<Rightarrow> unit act" where
  "cleanup child s =
     (let parent = mp_parent (slot child s)
      in if PM_NR_PROCS \<le> parent then Stop Fault s
         else
           (let s = reply_res2 parent (wait_status (slot child s)) s;
                s = setreply parent (mp_pid (slot child s)) s;
                s = set_slot parent (drop_flag WAITING) s;
                s = set_slot child (\<lambda>p. p\<lparr>mp_pid := 0, mp_flags := 0, mp_child_utime := 0, mp_child_stime := 0\<rparr>) s
            in Ret () (s\<lparr>procs_in_use := procs_in_use s - 1\<rparr>)))"

definition unpause :: "env \<Rightarrow> nat \<Rightarrow> pmst \<Rightarrow> pmst" where
  "unpause e pro s =
     (if has (slot pro s) (PAUSED OR WAITING OR SIGSUSPENDED)
      then setreply pro EINTR (set_slot pro (drop_flag (PAUSED OR WAITING OR SIGSUSPENDED)) s)
      else tell_fs e FS_UNPAUSE (int pro) 0 0 s)"

definition stop_proc :: "env \<Rightarrow> nat \<Rightarrow> nat \<Rightarrow> unit act" where
  "stop_proc e r signo s =
     (let parent = mp_parent (slot r s); (a, s) = ask e (SysTrace (- 1) r 0 0) s
      in if a_res a \<noteq> 0 then Ret () s
         else if PM_NR_PROCS \<le> parent then Stop Fault s
         else
           (let s = set_slot r (raise_flag STOPPED) s
            in if has (slot parent s) WAITING then
                 Ret () (setreply parent (mp_pid (slot r s))
                   (reply_res2 parent (0x7F OR push_bit 8 (int signo)) (set_slot parent (drop_flag WAITING) s)))
               else Ret () (set_slot r (\<lambda>p. p\<lparr>mp_sigstatus := word_of_nat signo\<rparr>) s)))"

text \<open>
  \<open>dump_core\<close>: the writing of the file itself, from the header on, is one request.
\<close>

definition dump_core :: "env \<Rightarrow> nat \<Rightarrow> unit act" where
  "dump_core e r s =
     (if mp_realuid (slot r s) \<noteq> mp_effuid (slot r s) then Ret () s
      else
        (let (fd, s) = ask e (OpenCore r) s
         in if a_res fd < 0 then Ret () s
            else
              (let s = set_slot r (\<lambda>p. p\<lparr>mp_sigstatus := mp_sigstatus p OR DUMPED\<rparr>) s; (a, s) = ask e (SysGetproc r) s
               in if a_res a \<noteq> 0 then Stop Halted s
                  else
                    (let (_, s) = adjust e r (mem_len (mp_seg_D (slot r s))) (a_1 a) s; (_, s) = ask e (WriteCore r) s
                     in Ret () s))))"

section \<open>Signals\<close>

text \<open>The code at \<open>doterminate\<close>.\<close>

definition sig_default :: "env \<Rightarrow> (nat \<Rightarrow> int \<Rightarrow> unit act) \<Rightarrow> nat \<Rightarrow> nat \<Rightarrow> unit act" where
  "sig_default e ex r signo s =
     (if sigismember ign_sset signo then Ret () s
      else
        (let s = set_slot r (\<lambda>p. p\<lparr>mp_sigstatus := word_of_nat signo\<rparr>) s
         in bnd (if sigismember core_sset signo then dump_core e r (tell_fs e FS_CHDIR (int r) 0 0 s) else Ret () s) (\<lambda>_ s.
            ex r 0 s)))"

definition block_mask :: "nat \<Rightarrow> pmproc \<Rightarrow> 32 word" where
  "block_mask signo p =
     (let m = mp_sigmask p OR sa_mask (mp_sigact p ! signo)
      in if sa_flags (mp_sigact p ! signo) AND SA_NODEFER \<noteq> 0 then sigdelset signo m else sigaddset signo m)"

definition reset_hand :: "nat \<Rightarrow> pmproc \<Rightarrow> pmproc" where
  "reset_hand signo p =
     (if sa_flags (mp_sigact p ! signo) AND SA_RESETHAND \<noteq> 0
      then p\<lparr>mp_catch := sigdelset signo (mp_catch p),
             mp_sigact := (mp_sigact p)[signo := (mp_sigact p ! signo)\<lparr>sa_handler := SIG_DFL\<rparr>]\<rparr>
      else p)"

text \<open>The branch of \<open>sig_proc\<close> for a signal that is caught; 92 is the size of the context and the frame pushed on the stack.\<close>

definition sig_catch :: "env \<Rightarrow> (nat \<Rightarrow> int \<Rightarrow> unit act) \<Rightarrow> nat \<Rightarrow> nat \<Rightarrow> unit act" where
  "sig_catch e ex r signo s =
     (let p = slot r s;
          sm_mask = (if has p SIGSUSPENDED then mp_sigmask2 p else mp_sigmask p);
          sm_handler = sa_handler (mp_sigact p ! signo);
          (a, s) = ask e (SysGetproc r) s
      in if a_res a \<noteq> 0 then Stop Halted s
         else case adjust e r (mem_len (mp_seg_D (slot r s))) (a_1 a - 92) s of (ok, s) \<Rightarrow>
           if ok \<noteq> 0 then sig_default e ex r signo s
           else
             (let s = set_slot r (\<lambda>p. p\<lparr>mp_sigmask := block_mask signo p\<rparr>) s;
                  s = set_slot r (reset_hand signo) s;
                  (b, s) = ask e (SysSigsend r signo sm_mask sm_handler (mp_sigreturn (slot r s)) (a_1 a)) s
              in if a_res b \<noteq> 0 then Stop Halted s
                 else Ret () (unpause e r (set_slot r (\<lambda>p. p\<lparr>mp_sigpending := sigdelset signo (mp_sigpending p)\<rparr>) s))))"

definition sig_proc_with :: "env \<Rightarrow> (nat \<Rightarrow> int \<Rightarrow> unit act) \<Rightarrow> nat \<Rightarrow> nat \<Rightarrow> unit act" where
  "sig_proc_with e ex r signo s =
     (if \<not> running (slot r s) then Stop Halted s
      else if has (slot r s) TRACED \<and> signo \<noteq> SIGKILL then stop_proc e r signo (unpause e r s)
      else if sigismember (mp_ignore (slot r s)) signo then Ret () s
      else if sigismember (mp_sigmask (slot r s)) signo then
        Ret () (set_slot r (\<lambda>p. p\<lparr>mp_sigpending := sigaddset signo (mp_sigpending p)\<rparr>) s)
      else if sigismember (mp_catch (slot r s)) signo then sig_catch e ex r signo s
      else if sigismember (mp_sig2mess (slot r s)) signo then
        (let (b, s) = ask e (SysKill r signo) s in if a_res b \<noteq> 0 then Stop Halted s else Ret () s)
      else sig_default e ex r signo s)"

definition sig_selects :: "int \<Rightarrow> pmproc \<Rightarrow> pmproc \<Rightarrow> bool" where
  "sig_selects proc_id m p \<longleftrightarrow>
     \<not> (proc_id > 0 \<and> proc_id \<noteq> mp_pid p) \<and> \<not> (proc_id = 0 \<and> mp_procgrp m \<noteq> mp_procgrp p) \<and>
     \<not> (proc_id = - 1 \<and> mp_pid p \<le> INIT_PID) \<and> \<not> (proc_id < - 1 \<and> mp_procgrp p \<noteq> - proc_id)"

definition sig_permits :: "pmproc \<Rightarrow> pmproc \<Rightarrow> bool" where
  "sig_permits m p \<longleftrightarrow>
     \<not> (mp_effuid m \<noteq> 0 \<and> mp_realuid m \<noteq> mp_realuid p \<and> mp_effuid m \<noteq> mp_realuid p \<and>
        mp_realuid m \<noteq> mp_effuid p \<and> mp_effuid m \<noteq> mp_effuid p)"

fun check_loop :: "(nat \<Rightarrow> nat \<Rightarrow> unit act) \<Rightarrow> int \<Rightarrow> nat \<Rightarrow> nat list \<Rightarrow> nat \<Rightarrow> int \<Rightarrow> (nat \<times> int) act" where
  "check_loop sg proc_id signo [] count err s = Ret (count, err) s"
| "check_loop sg proc_id signo (r # rs) count err s =
     (let p = slot r s; m = slot (cur s) s
      in if \<not> in_use p then check_loop sg proc_id signo rs count err s
         else if has p ZOMBIE \<and> signo \<noteq> 0 then check_loop sg proc_id signo rs count err s
         else if \<not> sig_selects proc_id m p then check_loop sg proc_id signo rs count err s
         else if \<not> sig_permits m p then check_loop sg proc_id signo rs count EPERM s
         else if signo = 0 then check_loop sg proc_id signo rs (Suc count) err s
         else bnd (sg r signo s) (\<lambda>_ s.
           if proc_id > 0 then Ret (Suc count, err) s else check_loop sg proc_id signo rs (Suc count) err s))"

definition check_sig_with :: "(nat \<Rightarrow> nat \<Rightarrow> unit act) \<Rightarrow> int \<Rightarrow> int \<Rightarrow> int act" where
  "check_sig_with sg proc_id signo s =
     (if signo < 0 \<or> signo > int NSIG then Ret EINVAL s
      else if proc_id = INIT_PID \<and> signo = int SIGKILL then Ret EINVAL s
      else bnd (check_loop sg proc_id (nat signo) all_slots 0 ESRCH s) (\<lambda>(count, err) s.
        if \<not> running (slot (cur s) s) then Ret SUSPEND s else Ret (if count > 0 then 0 else err) s))"

section \<open>Termination\<close>

definition right_child :: "int \<Rightarrow> pmproc \<Rightarrow> bool" where
  "right_child pidarg p \<longleftrightarrow> pidarg = - 1 \<or> pidarg = mp_pid p \<or> - pidarg = mp_procgrp p"

fun disinherit :: "nat \<Rightarrow> nat list \<Rightarrow> unit act" where
  "disinherit nr [] s = Ret () s"
| "disinherit nr (r # rs) s =
     (if in_use (slot r s) \<and> mp_parent (slot r s) = nr then
        (let s = set_slot r (\<lambda>p. p\<lparr>mp_parent := INIT_PROC_NR\<rparr>) s
         in bnd (if has (slot INIT_PROC_NR s) WAITING \<and> has (slot r s) ZOMBIE then cleanup r s else Ret () s) (\<lambda>_ s.
            disinherit nr rs s))
      else disinherit nr rs s)"

text \<open>Accounting at the parent and the notices to the kernel and the file server.\<close>

definition exit_notify :: "env \<Rightarrow> nat \<Rightarrow> unit act" where
  "exit_notify e r s =
     (let (t, s) = ask e (SysTimes r) s; parent = mp_parent (slot r s)
      in if PM_NR_PROCS \<le> parent then Stop Fault s
         else
           (let s = set_slot parent (\<lambda>p. p\<lparr>mp_child_utime := mp_child_utime p + (a_1 t + mp_child_utime (slot r s))\<rparr>) s;
                s = set_slot parent (\<lambda>p. p\<lparr>mp_child_stime := mp_child_stime p + (a_2 t + mp_child_stime (slot r s))\<rparr>) s;
                s = tell_fs e FS_EXIT (int r) 0 0 s;
                (_, s) = ask e (SysExit r) s
            in Ret () (set_slot r (drop_flag REPLY) s)))"

definition release_memory :: "nat \<Rightarrow> unit act" where
  "release_memory r s =
     bnd (if find_share r (mp_ino (slot r s)) (mp_dev (slot r s)) (mp_ctime (slot r s)) s = None
          then on_holes (free_mem (mem_phys (mp_seg_T (slot r s))) (mem_len (mp_seg_T (slot r s)))) s
          else Ret () s) (\<lambda>_ s.
     on_holes (free_mem (mem_phys (mp_seg_D (slot r s)))
       (mem_vir (mp_seg_S (slot r s)) + mem_len (mp_seg_S (slot r s)) - mem_vir (mp_seg_D (slot r s)))) s)"

definition zombify :: "(nat \<Rightarrow> nat \<Rightarrow> unit act) \<Rightarrow> nat \<Rightarrow> unit act" where
  "zombify sg r s =
     (let parent = mp_parent (slot r s); p = slot parent s
      in if has p WAITING \<and> right_child (mp_wpid p) (slot r s) then cleanup r s
         else sg parent SIGCHLD (set_slot r (\<lambda>p. p\<lparr>mp_flags := IN_USE OR ZOMBIE\<rparr>) s))"

text \<open>\<open>pm_exit\<close> up to the hangup, which is sent to the group of a session leader.\<close>

definition exit_body :: "env \<Rightarrow> (nat \<Rightarrow> nat \<Rightarrow> unit act) \<Rightarrow> nat \<Rightarrow> int \<Rightarrow> unit act" where
  "exit_body e sg r status s =
     bnd (if has (slot r s) ALARM_ON then set_alarm e r 0 s else Ret 0 s) (\<lambda>_ s.
     bnd (exit_notify e r s) (\<lambda>_ s.
     bnd (release_memory r s) (\<lambda>_ s.
     bnd (zombify sg r (set_slot r (\<lambda>p. p\<lparr>mp_exitstatus := word_of_int status\<rparr>) s)) (\<lambda>_ s.
     disinherit r all_slots s))))"

fun pm_exit_n :: "nat \<Rightarrow> env \<Rightarrow> nat \<Rightarrow> int \<Rightarrow> unit act" where
  "pm_exit_n 0 e r status s = Stop Blocked s"
| "pm_exit_n (Suc n) e r status s =
     (let sg = sig_proc_with e (pm_exit_n n e);
          procgrp = (if mp_pid (slot r s) = mp_procgrp (slot (cur s) s) then mp_procgrp (slot (cur s) s) else 0)
      in bnd (exit_body e sg r status s) (\<lambda>_ s.
         if procgrp \<noteq> 0 then bnd (check_sig_with sg (- procgrp) (int SIGHUP) s) (\<lambda>_ s. Ret () s) else Ret () s))"

definition pm_exit :: "env \<Rightarrow> nat \<Rightarrow> int \<Rightarrow> unit act" where
  "pm_exit = pm_exit_n (Suc PM_NR_PROCS)"

definition sig_proc :: "env \<Rightarrow> nat \<Rightarrow> nat \<Rightarrow> unit act" where
  "sig_proc e = sig_proc_with e (pm_exit e)"

definition check_sig :: "env \<Rightarrow> int \<Rightarrow> int \<Rightarrow> int act" where
  "check_sig e = check_sig_with (sig_proc e)"

end
