(* ===== verification/Pmcalls.thy ===== *)
theory Pmcalls
  imports Pmsig
begin

text \<open>
  The system calls of the process manager: \<open>forkexit.c\<close>, \<open>signal.c\<close>, \<open>getset.c\<close>, \<open>trace.c\<close>, \<open>break.c\<close>, the memory and
  priority calls of \<open>misc.c\<close>, and the part of the main loop that replies. \<open>cur\<close> is the slot \<open>mp\<close> points to, \<open>who\<close> the caller.
  A handler returns the result that \<open>main\<close> puts into the reply, or \<open>SUSPEND\<close>.
\<close>

section \<open>Fork, exit and wait\<close>

definition WAIT :: int where "WAIT = 7"
definition WNOHANG :: int where "WNOHANG = 1"
definition FS_FORK :: int where "FS_FORK = 2"

definition inherit_flags :: "32 word" where
  "inherit_flags = IN_USE OR SEPARATE OR PRIV_PROC OR DONT_SWAP"

text \<open>The slot of the child, copied from the parent.\<close>

definition child_slot :: "nat \<Rightarrow> 32 word \<Rightarrow> pmproc \<Rightarrow> pmproc" where
  "child_slot parent child_base p =
     (let f = mp_flags p AND inherit_flags
      in p\<lparr>mp_parent := parent, mp_flags := f, mp_child_utime := 0, mp_child_stime := 0,
           mp_seg_T := (if f AND SEPARATE = 0 then (mp_seg_T p)\<lparr>mem_phys := child_base\<rparr> else mp_seg_T p),
           mp_seg_D := (mp_seg_D p)\<lparr>mem_phys := child_base\<rparr>,
           mp_seg_S := (mp_seg_S p)\<lparr>mem_phys := child_base + (mem_vir (mp_seg_S p) - mem_vir (mp_seg_D p))\<rparr>,
           mp_exitstatus := 0, mp_sigstatus := 0\<rparr>)"

text \<open>The second half of \<open>do_fork\<close>, once memory and a slot for the child are found.\<close>

definition fork_into :: "env \<Rightarrow> nat \<Rightarrow> 32 word \<Rightarrow> int act" where
  "fork_into e child_nr child_base s =
     (let rmp = cur s;
          s = s\<lparr>procs_in_use := procs_in_use s + 1\<rparr>;
          s = set_slot child_nr (\<lambda>_. child_slot (who s) child_base (slot rmp s)) s
      in bnd (get_free_pid s) (\<lambda>new_pid s.
         let s = set_slot child_nr (\<lambda>c. c\<lparr>mp_pid := new_pid\<rparr>) s;
             (_, s) = ask e (SysFork (who s) child_nr) s;
             s = tell_fs e FS_FORK (int (who s)) (int child_nr) new_pid s;
             c = slot child_nr s;
             (_, s) = ask e (SysNewmap child_nr (mp_seg_T c) (mp_seg_D c) (mp_seg_S c)) s;
             s = setreply child_nr 0 s;
             s = reply_res2 rmp (int child_nr) s
         in Ret new_pid s))"

definition do_fork :: "env \<Rightarrow> int act" where
  "do_fork e s =
     (let p = slot (cur s) s
      in if procs_in_use s = int PM_NR_PROCS \<or> procs_in_use s \<ge> int (PM_NR_PROCS - LAST_FEW) \<and> mp_effuid p \<noteq> 0 then Ret EAGAIN s
         else
           (let prog_clicks = mem_len (mp_seg_S p) + (mem_vir (mp_seg_S p) - mem_vir (mp_seg_D p));
                prog_bytes = push_bit PM_CLICK_SHIFT prog_clicks
            in bnd (on_holes (alloc_mem prog_clicks) s) (\<lambda>child_base s.
               if child_base = NO_MEM then Ret ENOMEM s
               else
                 (let (a, s) = ask e (SysAbscopy (push_bit PM_CLICK_SHIFT (mem_phys (mp_seg_D p)))
                                        (push_bit PM_CLICK_SHIFT child_base) prog_bytes) s
                  in if a_res a < 0 then Stop Halted s
                     else case first_slot (\<lambda>_ p. \<not> in_use p) all_slots s of
                       None \<Rightarrow> Stop Fault s
                     | Some child_nr \<Rightarrow> fork_into e child_nr child_base s))))"

definition do_pm_exit :: "env \<Rightarrow> int act" where
  "do_pm_exit e s = bnd (pm_exit e (cur s) (m1_i1 (m_in s)) s) (\<lambda>_ s. Ret SUSPEND s)"

definition wait_accepts :: "int \<Rightarrow> pmproc \<Rightarrow> bool" where
  "wait_accepts pidarg p \<longleftrightarrow> \<not> (pidarg > 0 \<and> pidarg \<noteq> mp_pid p) \<and> \<not> (pidarg < - 1 \<and> - pidarg \<noteq> mp_procgrp p)"

text \<open>The scan for children: \<open>Some\<close> result when it ends early, otherwise the number of acceptable children.\<close>

fun wait_loop :: "int \<Rightarrow> nat list \<Rightarrow> nat \<Rightarrow> (int option \<times> nat) act" where
  "wait_loop pidarg [] children s = Ret (None, children) s"
| "wait_loop pidarg (r # rs) children s =
     (let p = slot r s
      in if in_use p \<and> mp_parent p = who s \<and> wait_accepts pidarg p then
           (if has p ZOMBIE then bnd (cleanup r s) (\<lambda>_ s. Ret (Some SUSPEND, Suc children) s)
            else if has p STOPPED \<and> mp_sigstatus p \<noteq> 0 then
              Ret (Some (mp_pid p), Suc children)
                (set_slot r (\<lambda>p. p\<lparr>mp_sigstatus := 0\<rparr>)
                  (reply_res2 (cur s) (0x7F OR push_bit 8 (sint (mp_sigstatus p))) s))
            else wait_loop pidarg rs (Suc children) s)
         else wait_loop pidarg rs children s)"

definition wait_pidarg :: "pmst \<Rightarrow> int" where
  "wait_pidarg s =
     (let pidarg = (if call_nr s = WAIT then - 1 else m1_i1 (m_in s))
      in if pidarg = 0 then - mp_procgrp (slot (cur s) s) else pidarg)"

definition wait_options :: "pmst \<Rightarrow> int" where
  "wait_options s = (if call_nr s = WAIT then 0 else m1_i2 (m_in s))"

definition do_waitpid :: "int act" where
  "do_waitpid s =
     (let pidarg = wait_pidarg s; options = wait_options s
      in bnd (wait_loop pidarg all_slots 0 s) (\<lambda>(res, children) s.
         case res of
           Some v \<Rightarrow> Ret v s
         | None \<Rightarrow>
             if children > 0 then
               (if options AND WNOHANG \<noteq> 0 then Ret 0 s
                else Ret SUSPEND (set_slot (cur s) (\<lambda>p. (raise_flag WAITING p)\<lparr>mp_wpid := pidarg\<rparr>) s))
             else Ret ECHILD s))"

section \<open>Signal calls\<close>

text \<open>The pending signals that are no longer blocked: the first of them is delivered.\<close>

fun pending_loop :: "(nat \<Rightarrow> nat \<Rightarrow> unit act) \<Rightarrow> nat \<Rightarrow> nat list \<Rightarrow> unit act" where
  "pending_loop sg r [] s = Ret () s"
| "pending_loop sg r (i # is) s =
     (if sigismember (mp_sigpending (slot r s)) i \<and> \<not> sigismember (mp_sigmask (slot r s)) i
      then sg r i (set_slot r (\<lambda>p. p\<lparr>mp_sigpending := sigdelset i (mp_sigpending p)\<rparr>) s)
      else pending_loop sg r is s)"

definition signals :: "nat list" where "signals = [1..<Suc NSIG]"

definition check_pending :: "env \<Rightarrow> nat \<Rightarrow> unit act" where
  "check_pending e r = pending_loop (sig_proc e) r signals"

text \<open>The new disposition of a signal; \<open>None\<close> is the refusal of \<open>SIG_MESS\<close> to an ordinary process.\<close>

definition dispose :: "nat \<Rightarrow> 32 word \<Rightarrow> pmproc \<Rightarrow> pmproc option" where
  "dispose n handler p =
     (if handler = SIG_IGN then
        Some (p\<lparr>mp_ignore := sigaddset n (mp_ignore p), mp_sigpending := sigdelset n (mp_sigpending p),
                mp_catch := sigdelset n (mp_catch p), mp_sig2mess := sigdelset n (mp_sig2mess p)\<rparr>)
      else if handler = SIG_DFL then
        Some (p\<lparr>mp_ignore := sigdelset n (mp_ignore p), mp_catch := sigdelset n (mp_catch p), mp_sig2mess := sigdelset n (mp_sig2mess p)\<rparr>)
      else if handler = SIG_MESS then
        (if \<not> has p PRIV_PROC then None
         else Some (p\<lparr>mp_ignore := sigdelset n (mp_ignore p), mp_sig2mess := sigaddset n (mp_sig2mess p), mp_catch := sigdelset n (mp_catch p)\<rparr>))
      else
        Some (p\<lparr>mp_ignore := sigdelset n (mp_ignore p), mp_catch := sigaddset n (mp_catch p), mp_sig2mess := sigdelset n (mp_sig2mess p)\<rparr>))"

definition do_sigaction :: "env \<Rightarrow> int act" where
  "do_sigaction e s =
     (let signr = m1_i2 (m_in s); n = nat signr; r = cur s
      in if signr = int SIGKILL then Ret 0 s
         else if signr < 1 \<or> signr > int NSIG then Ret EINVAL s
         else bnd (if m_w4 (m_in s) \<noteq> 0 then (let (a, s) = ask e (SysDatacopy PM_PROC_NR (who s)) s in Ret (a_res a) s) else Ret 0 s) (\<lambda>res s.
           if res \<noteq> 0 then Ret res s
           else if m_w3 (m_in s) = 0 then Ret 0 s
           else
             (let (svec, s) = ask e (SysDatacopy (who s) PM_PROC_NR) s
              in if a_res svec \<noteq> 0 then Ret (a_res svec) s
                 else case dispose n (a_1 svec) (slot r s) of
                   None \<Rightarrow> Ret EPERM s
                 | Some p \<Rightarrow>
                     Ret 0 (set_slot r (\<lambda>_. p\<lparr>mp_sigact := (mp_sigact p)[n := \<lparr>sa_handler = a_1 svec,
                         sa_mask = sigdelset SIGKILL (a_2 svec), sa_flags = a_3 svec\<rparr>], mp_sigreturn := m_w5 (m_in s)\<rparr>) s))))"

definition do_sigpending :: "int act" where
  "do_sigpending s = Ret 0 (set_slot (cur s) (\<lambda>p. p\<lparr>mp_reply := (mp_reply p)\<lparr>m_w3 := mp_sigpending p\<rparr>\<rparr>) s)"

definition SIG_BLOCK :: int where "SIG_BLOCK = 0"
definition SIG_UNBLOCK :: int where "SIG_UNBLOCK = 1"
definition SIG_SETMASK :: int where "SIG_SETMASK = 2"
definition SIG_INQUIRE :: int where "SIG_INQUIRE = 4"

definition set_mask :: "(32 word \<Rightarrow> 32 word) \<Rightarrow> nat \<Rightarrow> pmst \<Rightarrow> pmst" where
  "set_mask f r = set_slot r (\<lambda>p. p\<lparr>mp_sigmask := f (mp_sigmask p)\<rparr>)"

definition mask_each :: "(nat \<Rightarrow> 32 word \<Rightarrow> 32 word) \<Rightarrow> 32 word \<Rightarrow> 32 word \<Rightarrow> 32 word" where
  "mask_each f sset m = fold (\<lambda>i m. if sigismember sset i then f i m else m) signals m"

definition do_sigprocmask :: "env \<Rightarrow> int act" where
  "do_sigprocmask e s =
     (let r = cur s; how = m1_i1 (m_in s); sset = m_w3 (m_in s);
          s = set_slot r (\<lambda>p. p\<lparr>mp_reply := (mp_reply p)\<lparr>m_w3 := mp_sigmask p\<rparr>\<rparr>) s
      in if how = SIG_BLOCK then Ret 0 (set_mask (mask_each sigaddset (sigdelset SIGKILL sset)) r s)
         else if how = SIG_UNBLOCK then
           bnd (check_pending e r (set_mask (mask_each sigdelset sset) r s)) (\<lambda>_ s. Ret 0 s)
         else if how = SIG_SETMASK then
           bnd (check_pending e r (set_mask (\<lambda>_. sigdelset SIGKILL sset) r s)) (\<lambda>_ s. Ret 0 s)
         else if how = SIG_INQUIRE then Ret 0 s
         else Ret EINVAL s)"

definition do_sigsuspend :: "env \<Rightarrow> int act" where
  "do_sigsuspend e s =
     (let r = cur s;
          s = set_slot r (\<lambda>p. raise_flag SIGSUSPENDED (p\<lparr>mp_sigmask2 := mp_sigmask p, mp_sigmask := sigdelset SIGKILL (m_w3 (m_in s))\<rparr>)) s
      in bnd (check_pending e r s) (\<lambda>_ s. Ret SUSPEND s))"

definition do_sigreturn :: "env \<Rightarrow> int act" where
  "do_sigreturn e s =
     (let r = cur s;
          s = set_slot r (\<lambda>p. p\<lparr>mp_sigmask := sigdelset SIGKILL (m_w3 (m_in s))\<rparr>) s;
          (a, s) = ask e (SysSigreturn (who s) (m_w5 (m_in s))) s
      in bnd (check_pending e r s) (\<lambda>_ s. Ret (a_res a) s))"

definition do_kill :: "env \<Rightarrow> int act" where
  "do_kill e s = check_sig e (m1_i1 (m_in s)) (m1_i2 (m_in s)) s"

definition do_alarm :: "env \<Rightarrow> int act" where
  "do_alarm e s = set_alarm e (who s) (m_w0 (m_in s)) s"

definition do_pause :: "int act" where
  "do_pause s = Ret SUSPEND (set_slot (cur s) (raise_flag PAUSED) s)"

definition cause_sigalrm :: "env \<Rightarrow> nat \<Rightarrow> unit act" where
  "cause_sigalrm e r s =
     (if \<not> running (slot r s) then Ret () s
      else if \<not> has (slot r s) ALARM_ON then Ret () s
      else
        (let s = set_slot r (drop_flag ALARM_ON) s
         in bnd (check_sig e (mp_pid (slot r s)) (int SIGALRM) s) (\<lambda>_ s. Ret () s)))"

definition ksig_target :: "int \<Rightarrow> nat \<Rightarrow> int" where
  "ksig_target proc_id i = (if i = 2 \<or> i = 3 then 0 else if i = SIGKILL then - 1 else proc_id)"

fun sig_each :: "env \<Rightarrow> int \<Rightarrow> 32 word \<Rightarrow> nat list \<Rightarrow> unit act" where
  "sig_each e proc_id sig_map [] s = Ret () s"
| "sig_each e proc_id sig_map (i # is) s =
     (if \<not> sigismember sig_map i then sig_each e proc_id sig_map is s
      else bnd (check_sig e (ksig_target proc_id i) (int i) s) (\<lambda>_ s. sig_each e proc_id sig_map is s))"

definition handle_sig :: "env \<Rightarrow> nat \<Rightarrow> 32 word \<Rightarrow> unit act" where
  "handle_sig e r sig_map s =
     (if \<not> running (slot r s) then Ret () s
      else
        (let proc_id = mp_pid (slot r s); s = s\<lparr>cur := PM_PROC_NR\<rparr>;
             s = set_slot PM_PROC_NR (\<lambda>p. p\<lparr>mp_procgrp := mp_procgrp (slot r s)\<rparr>) s
         in sig_each e proc_id sig_map signals s))"

section \<open>Identity, priority, memory and tracing\<close>

datatype ids_call = GETUID | GETGID | GETPID | SETUID | SETGID | SETSID | GETPGRP

definition FS_SETUID :: int where "FS_SETUID = 23"
definition FS_SETGID :: int where "FS_SETGID = 46"
definition FS_SETSID :: int where "FS_SETSID = 62"

definition do_getset :: "env \<Rightarrow> ids_call \<Rightarrow> int act" where
  "do_getset e c s =
     (let r = cur s; p = slot r s
      in case c of
           GETUID \<Rightarrow> Ret (sint (mp_realuid p)) (reply_res2 r (sint (mp_effuid p)) s)
         | GETGID \<Rightarrow> Ret (sint (mp_realgid p)) (reply_res2 r (sint (mp_effgid p)) s)
         | GETPID \<Rightarrow> if PM_NR_PROCS \<le> mp_parent p then Stop Fault s else Ret (mp_pid (slot (who s) s)) (reply_res2 r (mp_pid (slot (mp_parent p) s)) s)
         | SETUID \<Rightarrow>
             (let u = word_of_int (m1_i1 (m_in s))
              in if mp_realuid p \<noteq> u \<and> mp_effuid p \<noteq> 0 then Ret EPERM s
                 else Ret 0 (tell_fs e FS_SETUID (int (who s)) (sint u) (sint u) (set_slot r (\<lambda>p. p\<lparr>mp_realuid := u, mp_effuid := u\<rparr>) s)))
         | SETGID \<Rightarrow>
             (let g = word_of_int (m1_i1 (m_in s))
              in if mp_realgid p \<noteq> g \<and> mp_effuid p \<noteq> 0 then Ret EPERM s
                 else Ret 0 (tell_fs e FS_SETGID (int (who s)) (sint g) (sint g) (set_slot r (\<lambda>p. p\<lparr>mp_realgid := g, mp_effgid := g\<rparr>) s)))
         | SETSID \<Rightarrow>
             if mp_procgrp p = mp_pid p then Ret EPERM s
             else Ret (mp_pid p) (tell_fs e FS_SETSID (int (who s)) 0 0 (set_slot r (\<lambda>p. p\<lparr>mp_procgrp := mp_pid p\<rparr>) s))
         | GETPGRP \<Rightarrow> Ret (mp_procgrp p) s)"

definition GETPRIORITY :: int where "GETPRIORITY = 88"
definition PRIO_MIN :: int where "PRIO_MIN = -20"

definition do_getsetpriority :: "env \<Rightarrow> int act" where
  "do_getsetpriority e s =
     (let arg_which = m1_i1 (m_in s); arg_who = m1_i2 (m_in s); arg_pri = m1_i3 (m_in s)
      in if arg_which \<noteq> 0 then Ret EINVAL s
         else case (if arg_who = 0 then Some (who s) else proc_from_pid arg_who s) of
           None \<Rightarrow> Ret ESRCH s
         | Some r \<Rightarrow>
             (let p = slot r s; m = slot (cur s) s
              in if mp_effuid m \<noteq> 0 \<and> mp_effuid m \<noteq> mp_effuid p \<and> mp_effuid m \<noteq> mp_realuid p then Ret EPERM s
                 else if call_nr s = GETPRIORITY then Ret (mp_nice p - PRIO_MIN) s
                 else if mp_nice p > arg_pri \<and> mp_effuid m \<noteq> 0 then Ret EACCES s
                 else (let s = set_slot r (\<lambda>p. p\<lparr>mp_nice := arg_pri\<rparr>) s; (a, s) = ask e (SysNice r arg_pri) s in Ret (a_res a) s)))"

definition to_clicks :: "32 word \<Rightarrow> 32 word" where
  "to_clicks n = drop_bit PM_CLICK_SHIFT (n + 1024 - 1)"

definition do_allocmem :: "int act" where
  "do_allocmem s =
     bnd (on_holes (alloc_mem (to_clicks (m_w0 (m_in s)))) s) (\<lambda>mem_base s.
     if mem_base = NO_MEM then Ret ENOMEM s
     else Ret 0 (set_slot (cur s) (\<lambda>p. p\<lparr>mp_reply := (mp_reply p)\<lparr>m_w1 := push_bit PM_CLICK_SHIFT mem_base\<rparr>\<rparr>) s))"

definition do_freemem :: "int act" where
  "do_freemem s =
     bnd (on_holes (free_mem (to_clicks (m_w1 (m_in s))) (to_clicks (m_w0 (m_in s)))) s) (\<lambda>_ s. Ret 0 s)"

definition do_brk :: "env \<Rightarrow> int act" where
  "do_brk e s =
     (let r = cur s; v = m_w3 (m_in s); new_clicks = signed_drop_bit PM_CLICK_SHIFT (v + 1024 - 1);
          fail = (\<lambda>s. set_slot r (\<lambda>p. p\<lparr>mp_reply := (mp_reply p)\<lparr>m_w5 := - 1\<rparr>\<rparr>) s)
      in if new_clicks < mem_vir (mp_seg_D (slot r s)) then Ret ENOMEM (fail s)
         else
           (let (a, s) = ask e (SysGetproc (who s)) s
            in if a_res a \<noteq> 0 then Stop Halted s
               else case adjust e r (new_clicks - mem_vir (mp_seg_D (slot r s))) (a_1 a) s of (res, s) \<Rightarrow>
                 Ret res (if res = 0 then set_slot r (\<lambda>p. p\<lparr>mp_reply := (mp_reply p)\<lparr>m_w5 := v\<rparr>\<rparr>) s else fail s)))"

definition T_OK :: int where "T_OK = 0"
definition T_RESUME :: int where "T_RESUME = 7"
definition T_EXIT :: int where "T_EXIT = 8"
definition T_STEP :: int where "T_STEP = 9"

definition trace_reply :: "nat \<Rightarrow> 32 word \<Rightarrow> pmst \<Rightarrow> pmst" where
  "trace_reply r v = set_slot r (\<lambda>p. p\<lparr>mp_reply := (mp_reply p)\<lparr>m_w4 := v\<rparr>\<rparr>)"

definition do_trace :: "env \<Rightarrow> int act" where
  "do_trace e s =
     (let request = m1_i2 (m_in s); data = m_w4 (m_in s); r = cur s
      in if request = T_OK then Ret 0 (trace_reply r 0 (set_slot r (raise_flag TRACED) s))
         else case find_proc (m1_i1 (m_in s)) s of
           None \<Rightarrow> Ret ESRCH s
         | Some child \<Rightarrow>
             if \<not> has (slot child s) STOPPED then Ret ESRCH s
             else if request = T_EXIT then bnd (pm_exit e child (sint data) s) (\<lambda>_ s. Ret 0 (trace_reply r 0 s))
             else if (request = T_RESUME \<or> request = T_STEP) \<and> (sint data < 0 \<or> sint data > int NSIG) then Ret EIO s
             else
               bnd (if request = T_RESUME \<or> request = T_STEP then
                      bnd (if 0 < sint data then
                             bnd (sig_proc e child (unat data) (set_slot child (drop_flag TRACED) s)) (\<lambda>_ s.
                             Ret () (set_slot child (raise_flag TRACED) s))
                           else Ret () s) (\<lambda>_ s. Ret () (set_slot child (drop_flag STOPPED) s))
                    else Ret () s) (\<lambda>_ s.
               let (a, s) = ask e (SysTrace request child (m_w3 (m_in s)) data) s
               in if a_res a \<noteq> 0 then Ret (- sint (a_2 a)) s else Ret 0 (trace_reply r (a_1 a) s)))"

section \<open>Replies\<close>

text \<open>The loop of \<open>main\<close> that sends the pending replies: the messages sent, with their destinations, in order.\<close>

definition reply_due :: "pmproc \<Rightarrow> bool" where
  "reply_due p \<longleftrightarrow> mp_flags p AND (REPLY OR ONSWAP OR IN_USE OR ZOMBIE) = REPLY OR IN_USE"

fun send_replies :: "nat list \<Rightarrow> pmst \<Rightarrow> (nat \<times> pmess) list \<times> pmst" where
  "send_replies [] s = ([], s)"
| "send_replies (r # rs) s =
     (if reply_due (slot r s) then
        (let (ms, t) = send_replies rs (set_slot r (drop_flag REPLY) s) in ((r, mp_reply (slot r s)) # ms, t))
      else send_replies rs s)"

definition finish_call :: "int \<Rightarrow> pmst \<Rightarrow> (nat \<times> pmess) list \<times> pmst" where
  "finish_call result s = send_replies all_slots (if result \<noteq> SUSPEND then setreply (who s) result s else s)"

end
