(* ===== verification/Pmview.thy ===== *)
theory Pmview
  imports Pmcalls
begin

text \<open>
  What the correctness of the process table depends on: a view of each slot that leaves out everything the process manager only
  passes on (replies, signal masks, times, the log of requests), the invariant over these views, and the effect of the
  small operations on them.
\<close>

section \<open>Flags\<close>

lemma pm_flag_bits:
  "bit IN_USE i \<longleftrightarrow> i = 0" "bit WAITING i \<longleftrightarrow> i = 1" "bit ZOMBIE i \<longleftrightarrow> i = 2" "bit PAUSED i \<longleftrightarrow> i = 3" "bit ALARM_ON i \<longleftrightarrow> i = 4"
  "bit SEPARATE i \<longleftrightarrow> i = 5" "bit TRACED i \<longleftrightarrow> i = 6" "bit STOPPED i \<longleftrightarrow> i = 7" "bit SIGSUSPENDED i \<longleftrightarrow> i = 8" "bit REPLY i \<longleftrightarrow> i = 9"
  "bit ONSWAP i \<longleftrightarrow> i = 10" "bit DONT_SWAP i \<longleftrightarrow> i = 12" "bit PRIV_PROC i \<longleftrightarrow> i = 13"
proof -
  have p: "IN_USE = 2 ^ 0" "WAITING = 2 ^ 1" "ZOMBIE = 2 ^ 2" "PAUSED = 2 ^ 3" "ALARM_ON = 2 ^ 4" "SEPARATE = 2 ^ 5" "TRACED = 2 ^ 6"
    "STOPPED = 2 ^ 7" "SIGSUSPENDED = 2 ^ 8" "REPLY = 2 ^ 9" "ONSWAP = 2 ^ 10" "DONT_SWAP = 2 ^ 12" "PRIV_PROC = 2 ^ 13"
    by (simp_all add: IN_USE_def WAITING_def ZOMBIE_def PAUSED_def ALARM_ON_def SEPARATE_def TRACED_def STOPPED_def
      SIGSUSPENDED_def REPLY_def ONSWAP_def DONT_SWAP_def PRIV_PROC_def)
  show "bit IN_USE i \<longleftrightarrow> i = 0" "bit WAITING i \<longleftrightarrow> i = 1" "bit ZOMBIE i \<longleftrightarrow> i = 2" "bit PAUSED i \<longleftrightarrow> i = 3" "bit ALARM_ON i \<longleftrightarrow> i = 4"
    "bit SEPARATE i \<longleftrightarrow> i = 5" "bit TRACED i \<longleftrightarrow> i = 6" "bit STOPPED i \<longleftrightarrow> i = 7" "bit SIGSUSPENDED i \<longleftrightarrow> i = 8" "bit REPLY i \<longleftrightarrow> i = 9"
    "bit ONSWAP i \<longleftrightarrow> i = 10" "bit DONT_SWAP i \<longleftrightarrow> i = 12" "bit PRIV_PROC i \<longleftrightarrow> i = 13"
    unfolding p bit_exp_iff by (auto simp del: power_0)
qed

lemma and_one_bit: "(\<And>i. bit m i \<longleftrightarrow> i = k) \<Longrightarrow> w AND m = 0 \<longleftrightarrow> \<not> bit w k" for w m :: "32 word"
  by (auto intro!: bit_word_eqI simp: bit_and_iff dest: arg_cong [where f = \<open>\<lambda>x. bit x k\<close>])

lemma has_bits:
  "has p IN_USE \<longleftrightarrow> bit (mp_flags p) 0" "has p WAITING \<longleftrightarrow> bit (mp_flags p) 1" "has p ZOMBIE \<longleftrightarrow> bit (mp_flags p) 2"
  "has p ALARM_ON \<longleftrightarrow> bit (mp_flags p) 4" "has p SEPARATE \<longleftrightarrow> bit (mp_flags p) 5" "has p TRACED \<longleftrightarrow> bit (mp_flags p) 6"
  "has p STOPPED \<longleftrightarrow> bit (mp_flags p) 7" "has p SIGSUSPENDED \<longleftrightarrow> bit (mp_flags p) 8" "has p REPLY \<longleftrightarrow> bit (mp_flags p) 9"
  by (simp_all add: has_def and_one_bit [OF pm_flag_bits(1)] and_one_bit [OF pm_flag_bits(2)] and_one_bit [OF pm_flag_bits(3)]
    and_one_bit [OF pm_flag_bits(5)] and_one_bit [OF pm_flag_bits(6)] and_one_bit [OF pm_flag_bits(7)] and_one_bit [OF pm_flag_bits(8)]
    and_one_bit [OF pm_flag_bits(9)] and_one_bit [OF pm_flag_bits(10)])

lemma running_iff: "running p \<longleftrightarrow> has p IN_USE \<and> \<not> has p ZOMBIE"
proof -
  have "bit (mp_flags p AND (IN_USE OR ZOMBIE)) i \<longleftrightarrow> bit (mp_flags p) i \<and> (i = 0 \<or> i = 2)" for i
    by (simp add: bit_and_iff bit_or_iff pm_flag_bits)
  then have "mp_flags p AND (IN_USE OR ZOMBIE) = IN_USE \<longleftrightarrow> (\<forall>i. (bit (mp_flags p) i \<and> (i = 0 \<or> i = 2)) = (i = 0))"
    by (metis bit_word_eqI pm_flag_bits(1))
  also have "\<dots> \<longleftrightarrow> bit (mp_flags p) 0 \<and> \<not> bit (mp_flags p) 2"
    by (metis zero_neq_numeral)
  finally show ?thesis by (simp add: running_def has_bits)
qed

section \<open>Views\<close>

record pview =
  v_use :: bool
  v_zomb :: bool
  v_wait :: bool
  v_stop :: bool
  v_sep :: bool
  v_pid :: int
  v_grp :: int
  v_wpid :: int
  v_par :: nat
  v_text :: "32 word \<times> 32 word"
  v_core :: "32 word \<times> 32 word"
  v_file :: "32 word \<times> 16 word \<times> 32 word"
  v_stat :: "8 word \<times> 8 word"

definition view :: "pmproc \<Rightarrow> pview" where
  "view p = \<lparr>v_use = has p IN_USE, v_zomb = has p ZOMBIE, v_wait = has p WAITING, v_stop = has p STOPPED, v_sep = has p SEPARATE,
     v_pid = mp_pid p, v_grp = mp_procgrp p, v_wpid = mp_wpid p, v_par = mp_parent p,
     v_text = (mem_phys (mp_seg_T p), mem_len (mp_seg_T p)),
     v_core = (mem_phys (mp_seg_D p), mem_vir (mp_seg_S p) + mem_len (mp_seg_S p) - mem_vir (mp_seg_D p)),
     v_file = (mp_ino p, mp_dev p, mp_ctime p), v_stat = (mp_exitstatus p, mp_sigstatus p)\<rparr>"

definition vw :: "pmst \<Rightarrow> nat \<Rightarrow> pview" where
  "vw s r = view (slot r s)"

definition live :: "pview \<Rightarrow> bool" where
  "live v \<longleftrightarrow> v_use v \<and> \<not> v_zomb v"

lemma view_sel [simp]:
  "v_use (view p) = has p IN_USE" "v_zomb (view p) = has p ZOMBIE" "v_wait (view p) = has p WAITING" "v_stop (view p) = has p STOPPED"
  "v_sep (view p) = has p SEPARATE" "v_pid (view p) = mp_pid p" "v_grp (view p) = mp_procgrp p" "v_wpid (view p) = mp_wpid p"
  "v_par (view p) = mp_parent p" "v_text (view p) = (mem_phys (mp_seg_T p), mem_len (mp_seg_T p))"
  "v_file (view p) = (mp_ino p, mp_dev p, mp_ctime p)" "v_stat (view p) = (mp_exitstatus p, mp_sigstatus p)"
  by (simp_all add: view_def)

lemma running_view: "running p \<longleftrightarrow> live (view p)"
  by (simp add: running_iff live_def)

lemma in_use_view: "in_use p \<longleftrightarrow> v_use (view p)"
  by (simp add: in_use_def)

text \<open>The rest of the state the invariant mentions.\<close>

definition same_rest :: "pmst \<Rightarrow> pmst \<Rightarrow> bool" where
  "same_rest s t \<longleftrightarrow> length (mproc_tab t) = length (mproc_tab s) \<and> cur t = cur s \<and> who t = who s \<and> next_pid t = next_pid s \<and>
     procs_in_use t = procs_in_use s \<and> pm_holes t = pm_holes s \<and> m_in t = m_in s \<and> call_nr t = call_nr s"

definition same :: "pmst \<Rightarrow> pmst \<Rightarrow> bool" where
  "same s t \<longleftrightarrow> same_rest s t \<and> vw t = vw s"

lemma same_rest_refl [simp]: "same_rest s s"
  by (simp add: same_rest_def)

lemma same_refl [simp]: "same s s"
  by (simp add: same_def)

lemma same_rest_trans: "same_rest s t \<Longrightarrow> same_rest t u \<Longrightarrow> same_rest s u"
  by (auto simp: same_rest_def)

lemma same_trans [trans]: "same s t \<Longrightarrow> same t u \<Longrightarrow> same s u"
  by (auto simp: same_def intro: same_rest_trans)

named_theorems step_view \<open>what the small operations do to the views\<close>

lemma set_slot_sel [simp]:
  "length (mproc_tab (set_slot r f s)) = length (mproc_tab s)" "cur (set_slot r f s) = cur s" "who (set_slot r f s) = who s"
  "next_pid (set_slot r f s) = next_pid s" "procs_in_use (set_slot r f s) = procs_in_use s" "pm_holes (set_slot r f s) = pm_holes s"
  "m_in (set_slot r f s) = m_in s" "call_nr (set_slot r f s) = call_nr s" "kcalls (set_slot r f s) = kcalls s"
  by (simp_all add: set_slot_def)

lemma same_rest_set_slot [simp]: "same_rest s (set_slot r f s)"
  by (simp add: same_rest_def)

lemma slot_set_slot: "r < length (mproc_tab s) \<Longrightarrow> slot q (set_slot r f s) = (if q = r then f (slot r s) else slot q s)"
  by (simp add: slot_def set_slot_def)

lemma vw_set_slot: "r < length (mproc_tab s) \<Longrightarrow> vw (set_slot r f s) = (vw s)(r := view (f (slot r s)))"
  by (auto simp: vw_def slot_set_slot)

lemma set_slot_outside: "\<not> r < length (mproc_tab s) \<Longrightarrow> set_slot r f s = s"
  by (simp add: set_slot_def list_update_beyond)

lemma same_set_slot: "view (f (slot r s)) = view (slot r s) \<Longrightarrow> same s (set_slot r f s)"
  by (cases "r < length (mproc_tab s)") (auto simp: same_def vw_set_slot set_slot_outside, auto simp: vw_def)

lemma slot_kcalls [simp]: "slot r (s\<lparr>kcalls := x\<rparr>) = slot r s" "slot r (s\<lparr>pm_holes := h\<rparr>) = slot r s" "slot r (s\<lparr>next_pid := n\<rparr>) = slot r s"
    "slot r (s\<lparr>procs_in_use := k\<rparr>) = slot r s" "slot r (s\<lparr>cur := c\<rparr>) = slot r s" "slot r (s\<lparr>boottime := b\<rparr>) = slot r s" "slot r (s\<lparr>mbuf := y\<rparr>) = slot r s"
    "slot r (s\<lparr>name_buf := y\<rparr>) = slot r s"
  by (simp_all add: slot_def)

lemma vw_rest [simp]: "vw (s\<lparr>kcalls := x\<rparr>) = vw s" "vw (s\<lparr>pm_holes := h\<rparr>) = vw s" "vw (s\<lparr>next_pid := n\<rparr>) = vw s"
    "vw (s\<lparr>procs_in_use := k\<rparr>) = vw s" "vw (s\<lparr>cur := c\<rparr>) = vw s" "vw (s\<lparr>boottime := b\<rparr>) = vw s" "vw (s\<lparr>mbuf := y\<rparr>) = vw s"
    "vw (s\<lparr>name_buf := y\<rparr>) = vw s"
  by (simp_all add: vw_def fun_eq_iff)

lemma same_kcalls [simp]: "same s (s\<lparr>kcalls := x\<rparr>)"
  by (simp add: same_def same_rest_def)

lemma same_buffers [simp]: "same s (s\<lparr>boottime := b\<rparr>)" "same s (s\<lparr>mbuf := y\<rparr>)" "same s (s\<lparr>name_buf := y\<rparr>)"
  by (simp_all add: same_def same_rest_def)

lemma ask_same: "ask e c s = (a, t) \<Longrightarrow> same s t \<and> slot r t = slot r s"
  by (auto simp: ask_def)

lemma tell_fs_same [simp]: "same s (tell_fs e a b c d s)" "slot r (tell_fs e a b c d s) = slot r s"
  by (simp_all add: tell_fs_def ask_def)


lemmas flag_simps = has_bits raise_flag_def drop_flag_def bit_or_iff bit_and_iff bit_not_iff pm_flag_bits

lemma flags_rest [simp]: "(raise_flag m p)\<lparr>mp_flags := f\<rparr> = p\<lparr>mp_flags := f\<rparr>" "(drop_flag m p)\<lparr>mp_flags := f\<rparr> = p\<lparr>mp_flags := f\<rparr>"
  by (simp_all add: raise_flag_def drop_flag_def)

lemma view_neutral:
  "view (raise_flag REPLY p) = view p" "view (drop_flag REPLY p) = view p" "view (raise_flag ALARM_ON p) = view p" "view (drop_flag ALARM_ON p) = view p"
  "view (raise_flag PAUSED p) = view p" "view (raise_flag TRACED p) = view p" "view (drop_flag TRACED p) = view p" "view (raise_flag SIGSUSPENDED p) = view p"
  "view (drop_flag WAITING p) = (view p)\<lparr>v_wait := False\<rparr>" "view (raise_flag STOPPED p) = (view p)\<lparr>v_stop := True\<rparr>"
  "view (raise_flag WAITING p) = (view p)\<lparr>v_wait := True\<rparr>" "view (drop_flag STOPPED p) = (view p)\<lparr>v_stop := False\<rparr>"
  "view (drop_flag (PAUSED OR WAITING OR SIGSUSPENDED) p) = (view p)\<lparr>v_wait := False\<rparr>"
  by (simp_all add: view_def flag_simps)

section \<open>Environment\<close>

text \<open>What the process manager counts on: these requests do not fail (it panics otherwise).\<close>

definition env_ok :: "env \<Rightarrow> bool" where
  "env_ok e \<longleftrightarrow>
     (\<forall>l. a_res (e (GetUptime # l)) = 0) \<and> (\<forall>r t l. a_res (e (SetTimer r t # l)) = 0) \<and> (\<forall>r l. a_res (e (CancelTimer r # l)) = 0) \<and>
     (\<forall>r l. a_res (e (SysGetproc r # l)) = 0) \<and> (\<forall>r l. a_res (e (SysTimes r # l)) = 0) \<and> (\<forall>r n l. a_res (e (SysKill r n # l)) = 0) \<and>
     (\<forall>r n m h g p l. a_res (e (SysSigsend r n m h g p # l)) = 0) \<and> (\<forall>a b n l. 0 \<le> a_res (e (SysAbscopy a b n # l)))"

section \<open>Operations that keep the views\<close>

definition nofail :: "stop \<Rightarrow> pmst \<Rightarrow> bool" where
  "nofail b t \<longleftrightarrow> False"

interpretation sm: framing same "\<lambda>_. nofail"
  by unfold_locales (auto simp: nofail_def intro: same_trans)

lemma setreply_same [simp]: "same s (setreply r v s)"
  unfolding setreply_def by (rule same_set_slot) (simp add: view_neutral, simp add: view_def has_def)

lemma reply_res2_same [simp]: "same s (reply_res2 r v s)"
  unfolding reply_res2_def by (rule same_set_slot) (simp add: view_def has_def)

lemma same_steps:
  "same s t \<Longrightarrow> same s (t\<lparr>kcalls := x\<rparr>)" "same s t \<Longrightarrow> same s (snd (ask e c t))" "same s t \<Longrightarrow> same s (setreply r v t)"
  "same s t \<Longrightarrow> same s (reply_res2 r v t)" "same s t \<Longrightarrow> same s (tell_fs e a b i j t)"
  "same s t \<Longrightarrow> view (f (slot r t)) = view (slot r t) \<Longrightarrow> same s (set_slot r f t)"
  by (auto simp: ask_def intro: same_trans same_set_slot)

lemma adjust_same: "same s (snd (adjust e r d sp s))"
  unfolding adjust_def Let_def by (auto simp: view_def has_def intro!: same_steps)

lemma adjust_step: "same s t \<Longrightarrow> same s (snd (adjust e r d sp t))"
  using adjust_same same_trans by blast

lemma pm_set_timer_same: "env_ok e \<Longrightarrow> runs (pm_set_timer e r n s) (\<lambda>_. same s) nofail"
  by (auto simp: pm_set_timer_def ask_def env_ok_def view_def has_def intro!: same_steps)

lemma pm_cancel_timer_same: "env_ok e \<Longrightarrow> runs (pm_cancel_timer e r s) (\<lambda>_. same s) nofail"
  by (auto simp: pm_cancel_timer_def ask_def env_ok_def intro!: same_steps)

lemma set_alarm_same: "env_ok e \<Longrightarrow> runs (set_alarm e r n s) (\<lambda>_. same s) nofail"
  unfolding set_alarm_def Let_def
  by (intro sm.runs_seq)
    (auto simp: ask_def env_ok_def view_neutral intro!: same_steps sm.runs_seq pm_set_timer_same pm_cancel_timer_same)

lemma exit_notify_same: "mp_parent (slot r s) < PM_NR_PROCS \<Longrightarrow> runs (exit_notify e r s) (\<lambda>_. same s) nofail"
  by (auto simp: exit_notify_def ask_def Let_def view_neutral intro!: same_steps) (simp_all add: view_def has_def)

section \<open>Operations that only wake or stop\<close>

text \<open>\<open>calm s t\<close>: from \<open>s\<close> to \<open>t\<close> processes may have been woken from a wait, and live ones stopped or marked with a
  signal; nothing else changed.\<close>

definition near :: "pview \<Rightarrow> pview \<Rightarrow> bool" where
  "near a b \<longleftrightarrow> b\<lparr>v_wait := v_wait a, v_stop := v_stop a, v_stat := v_stat a\<rparr> = a \<and> (v_wait b \<longrightarrow> v_wait a) \<and>
     (v_stop b \<longrightarrow> v_stop a \<or> live a) \<and> (v_stat b = v_stat a \<or> live a)"

definition calm :: "pmst \<Rightarrow> pmst \<Rightarrow> bool" where
  "calm s t \<longleftrightarrow> same_rest s t \<and> (\<forall>r. near (vw s r) (vw t r))"

lemma live_upd [simp]: "live (v\<lparr>v_wait := w\<rparr>) = live v" "live (v\<lparr>v_stop := x\<rparr>) = live v" "live (v\<lparr>v_stat := y\<rparr>) = live v"
  by (simp_all add: live_def)

lemma near_refl [simp]: "near a a"
  by (simp add: near_def)

lemma near_sel:
  assumes "near a b"
  shows "v_use b = v_use a" "v_zomb b = v_zomb a" "v_sep b = v_sep a" "v_pid b = v_pid a" "v_grp b = v_grp a" "v_wpid b = v_wpid a"
    "v_par b = v_par a" "v_text b = v_text a" "v_core b = v_core a" "v_file b = v_file a" "live b = live a"
  using assms by (cases a; cases b; simp add: near_def live_def)+

lemma near_trans: "near a b \<Longrightarrow> near b c \<Longrightarrow> near a c"
  by (cases a; cases b; cases c) (auto simp: near_def live_def)

lemma same_calm: "same s t \<Longrightarrow> calm s t"
  by (simp add: same_def calm_def)

lemma calm_trans [trans]: "calm s t \<Longrightarrow> calm t u \<Longrightarrow> calm s u"
  unfolding calm_def by (meson near_trans same_rest_trans)

interpretation cm: framing calm "\<lambda>_. nofail"
  by unfold_locales (auto simp: nofail_def intro: calm_trans same_calm)

lemma calm_set_slot: "near (vw s r) (view (f (slot r s))) \<Longrightarrow> calm s (set_slot r f s)"
  by (cases "r < length (mproc_tab s)") (auto simp: calm_def vw_set_slot set_slot_outside)

lemma calm_steps:
  "calm s t \<Longrightarrow> calm s (t\<lparr>kcalls := x\<rparr>)" "calm s t \<Longrightarrow> calm s (setreply r v t)" "calm s t \<Longrightarrow> calm s (reply_res2 r v t)"
  "calm s t \<Longrightarrow> calm s (tell_fs e a b i j t)" "calm s t \<Longrightarrow> calm s (set_slot r (drop_flag WAITING) t)"
  "calm s t \<Longrightarrow> calm s (set_slot r (drop_flag (PAUSED OR WAITING OR SIGSUSPENDED)) t)"
  "calm s t \<Longrightarrow> live (vw t r) \<Longrightarrow> calm s (set_slot r (raise_flag STOPPED) t)"
  by (auto elim!: calm_trans intro!: calm_set_slot intro: same_calm simp: view_neutral vw_def near_def)

lemma calm_slot: "calm s t \<Longrightarrow> view (f (slot r t)) = view (slot r t) \<Longrightarrow> calm s (set_slot r f t)"
  by (meson calm_trans same_calm same_set_slot)

lemma view_sigstatus: "view (p\<lparr>mp_sigstatus := c\<rparr>) = (view p)\<lparr>v_stat := (mp_exitstatus p, c)\<rparr>"
  by (simp add: view_def has_def)

lemma calm_sigstatus: "calm s t \<Longrightarrow> live (vw t r) \<Longrightarrow> calm s (set_slot r (\<lambda>p. p\<lparr>mp_sigstatus := f p\<rparr>) t)"
  by (rule calm_trans, assumption, rule calm_set_slot) (simp add: view_sigstatus near_def vw_def)

lemma calm_live: "calm s t \<Longrightarrow> live (vw t r) = live (vw s r)"
  by (simp add: calm_def near_sel)

lemma adjust_calm: "calm s t \<Longrightarrow> calm s (snd (adjust e r d sp t))"
  by (meson adjust_same calm_trans same_calm)

lemma dump_core_calm:
  assumes "env_ok e" "live (vw s r)"
  shows "runs (dump_core e r s) (\<lambda>_. calm s) nofail"
proof -
  have "calm s s" by (simp add: same_calm)
  then show ?thesis using assms
    by (auto simp: dump_core_def ask_def env_ok_def Let_def split_beta intro!: calm_steps(1) adjust_calm calm_sigstatus)
qed

lemma calm_unpause: "calm s t \<Longrightarrow> calm s (unpause e r t)"
  by (auto simp: unpause_def intro: calm_steps)

lemma stop_proc_calm:
  assumes "live (vw s r)" "mp_parent (slot r s) < PM_NR_PROCS"
  shows "runs (stop_proc e r n s) (\<lambda>_. calm s) nofail"
proof -
  define t where "t = set_slot r (raise_flag STOPPED) (s\<lparr>kcalls := SysTrace (- 1) r 0 0 # kcalls s\<rparr>)"
  have t: "calm s t" "calm s (s\<lparr>kcalls := SysTrace (- 1) r 0 0 # kcalls s\<rparr>)"
    unfolding t_def using assms(1) by (auto intro!: calm_steps simp: same_calm)
  have "live (vw t r)" using t(1) assms(1) by (simp add: calm_live)
  then show ?thesis using assms t
    by (auto simp: stop_proc_def ask_def Let_def t_def [symmetric] intro!: calm_steps(2,3,5) calm_sigstatus)
qed

end
