(* ===== verification/Pminv.thy ===== *)
theory Pminv
  imports Pmview
begin

text \<open>
  The invariant of the process manager over the views of the slots, and what the elementary changes of the table (a process that
  becomes a zombie, a slot that is released, an orphan that is handed to \<open>INIT\<close>, a new child) do to it.
\<close>

section \<open>Table\<close>

definition rightv :: "int \<Rightarrow> pview \<Rightarrow> bool" where
  "rightv pidarg v \<longleftrightarrow> pidarg = - 1 \<or> pidarg = v_pid v \<or> - pidarg = v_grp v"

definition lives :: "(nat \<Rightarrow> pview) \<Rightarrow> nat set" where
  "lives v = {r. r < PM_NR_PROCS \<and> live (v r)}"

definition users :: "(nat \<Rightarrow> pview) \<Rightarrow> nat set" where
  "users v = {r. r < PM_NR_PROCS \<and> v_use (v r)}"

text \<open>
  Every process has a parent slot whose process is live, \<open>INIT\<close>, or in the set \<open>X\<close> of processes that are just leaving; only the
  process manager, the reincarnation server and \<open>INIT\<close> can be their own parents.
\<close>

definition roots :: "nat set" where
  "roots = {PM_PROC_NR, RS_PROC_NR, INIT_PROC_NR}"

definition parents_ok :: "nat set \<Rightarrow> (nat \<Rightarrow> pview) \<Rightarrow> bool" where
  "parents_ok X v \<longleftrightarrow> (\<forall>r \<in> users v. v_par (v r) < PM_NR_PROCS \<and>
     (live (v (v_par (v r))) \<or> v_par (v r) = INIT_PROC_NR \<or> v_par (v r) \<in> X) \<and>
     (v_par (v r) = r \<longrightarrow> r \<in> roots))"

definition pids_ok :: "(nat \<Rightarrow> pview) \<Rightarrow> bool" where
  "pids_ok v \<longleftrightarrow> inj_on (\<lambda>r. v_pid (v r)) (users v) \<and> (\<forall>r \<in> users v. 0 \<le> v_pid (v r) \<and> 0 \<le> v_grp (v r))"

text \<open>
  Only live processes wait or are stopped, and no process waits while one of its children that it is waiting for is a zombie.
\<close>

definition waits_ok :: "(nat \<Rightarrow> pview) \<Rightarrow> bool" where
  "waits_ok v \<longleftrightarrow> (\<forall>r < PM_NR_PROCS. (v_wait (v r) \<longrightarrow> live (v r)) \<and> (v_use (v r) \<and> v_stop (v r) \<longrightarrow> live (v r))) \<and>
     (\<forall>r \<in> users v. v_zomb (v r) \<and> v_wait (v (v_par (v r))) \<longrightarrow> \<not> rightv (v_wpid (v (v_par (v r)))) (v r))"

definition tab_ok :: "nat set \<Rightarrow> (nat \<Rightarrow> pview) \<Rightarrow> int \<Rightarrow> bool" where
  "tab_ok X v n \<longleftrightarrow> n = int (card (users v)) \<and> parents_ok X v \<and> pids_ok v \<and> waits_ok v"

definition reap :: "(nat \<Rightarrow> pview) \<Rightarrow> nat \<Rightarrow> nat \<Rightarrow> pview" where
  "reap v r = (let v = v(v_par (v r) := (v (v_par (v r)))\<lparr>v_wait := False\<rparr>)
     in v(r := (v r)\<lparr>v_use := False, v_zomb := False, v_wait := False, v_stop := False, v_sep := False, v_pid := 0\<rparr>))"

definition bury :: "(nat \<Rightarrow> pview) \<Rightarrow> nat \<Rightarrow> nat \<Rightarrow> pview" where
  "bury v r = v(r := (v r)\<lparr>v_use := True, v_zomb := True, v_wait := False, v_stop := False, v_sep := False\<rparr>)"

definition adopt :: "(nat \<Rightarrow> pview) \<Rightarrow> nat \<Rightarrow> nat \<Rightarrow> pview" where
  "adopt v r = v(r := (v r)\<lparr>v_par := INIT_PROC_NR\<rparr>)"

lemma finite_users [simp]: "finite (users v)" "finite (lives v)"
  by (simp_all add: users_def lives_def)

lemma reap_sel:
  "v_use (reap v r q) \<longleftrightarrow> q \<noteq> r \<and> v_use (v q)" "q \<noteq> r \<Longrightarrow> v_zomb (reap v r q) = v_zomb (v q)"
  "q \<noteq> r \<Longrightarrow> v_pid (reap v r q) = v_pid (v q)" "v_grp (reap v r q) = v_grp (v q)" "v_wpid (reap v r q) = v_wpid (v q)"
  "v_par (reap v r q) = v_par (v q)" "live (reap v r q) \<longleftrightarrow> q \<noteq> r \<and> live (v q)"
  "v_wait (reap v r q) \<longleftrightarrow> q \<noteq> r \<and> q \<noteq> v_par (v r) \<and> v_wait (v q)" "v_stop (reap v r q) \<longleftrightarrow> q \<noteq> r \<and> v_stop (v q)"
  "v_text (reap v r q) = v_text (v q)" "v_core (reap v r q) = v_core (v q)" "v_file (reap v r q) = v_file (v q)"
  "v_sep (reap v r q) \<longleftrightarrow> q \<noteq> r \<and> v_sep (v q)"
  by (auto simp: reap_def live_def Let_def)

lemma users_reap: "users (reap v r) = users v - {r}" "lives (reap v r) = lives v - {r}"
  by (auto simp: users_def lives_def reap_sel)

lemma zomb_not_live: "v_zomb a \<Longrightarrow> \<not> live a"
  by (simp add: live_def)

lemma parents_reap:
  "parents_ok X v \<Longrightarrow> parents_ok (insert r X) (reap v r)" "parents_ok X v \<Longrightarrow> v_zomb (v r) \<Longrightarrow> parents_ok X (reap v r)"
  by (auto simp: parents_ok_def users_reap reap_sel dest: zomb_not_live)

lemma pids_reap: "pids_ok v \<Longrightarrow> pids_ok (reap v r)"
  by (auto simp: pids_ok_def users_reap reap_sel inj_on_def)

lemma count_reap: "r \<in> users v \<Longrightarrow> int (card (users (reap v r))) = int (card (users v)) - 1"
  using card_Suc_Diff1 [of "users v" r] by (simp add: users_reap)

lemma reap_ok:
  assumes "tab_ok X v n" "r \<in> users v"
  shows "tab_ok (insert r X) (reap v r) (n - 1)"
    and "v_zomb (v r) \<Longrightarrow> tab_ok X (reap v r) (n - 1)"
proof -
  have w: "waits_ok (reap v r)"
    using assms by (auto simp: tab_ok_def waits_ok_def users_reap reap_sel rightv_def)
  show "tab_ok (insert r X) (reap v r) (n - 1)" "v_zomb (v r) \<Longrightarrow> tab_ok X (reap v r) (n - 1)"
    using assms w count_reap [OF assms(2)] by (simp_all add: tab_ok_def parents_reap pids_reap)
qed

lemma bury_sel:
  "q \<noteq> r \<Longrightarrow> bury v r q = v q" "v_use (bury v r r)" "v_zomb (bury v r r)" "\<not> v_wait (bury v r r)" "\<not> v_stop (bury v r r)"
  "v_pid (bury v r q) = v_pid (v q)" "v_grp (bury v r q) = v_grp (v q)" "v_wpid (bury v r q) = v_wpid (v q)" "v_par (bury v r q) = v_par (v q)"
  "live (bury v r q) \<longleftrightarrow> q \<noteq> r \<and> live (v q)" "v_text (bury v r q) = v_text (v q)" "v_core (bury v r q) = v_core (v q)"
  by (auto simp: bury_def live_def)

lemma users_bury: "r \<in> users v \<Longrightarrow> users (bury v r) = users v" "lives (bury v r) = lives v - {r}"
  by (auto simp: users_def lives_def bury_sel bury_def live_def)

lemma bury_ok:
  assumes "tab_ok X v n" "r \<in> users v" "v_wait (v (v_par (v r))) \<Longrightarrow> \<not> rightv (v_wpid (v (v_par (v r)))) (v r)"
  shows "tab_ok (insert r X) (bury v r) n"
proof -
  have "parents_ok (insert r X) (bury v r)"
    using assms(1,2) by (auto simp: tab_ok_def parents_ok_def users_bury bury_sel)
  moreover have "pids_ok (bury v r)" using assms(1,2) by (auto simp: tab_ok_def pids_ok_def users_bury bury_sel)
  moreover have "waits_ok (bury v r)"
    using assms unfolding tab_ok_def waits_ok_def rightv_def
    by (auto simp: users_bury bury_sel) (auto simp: bury_def split: if_splits)
  ultimately show ?thesis using assms(1,2) by (simp add: tab_ok_def users_bury)
qed

lemma adopt_sel:
  "q \<noteq> r \<Longrightarrow> adopt v r q = v q" "v_use (adopt v r q) = v_use (v q)" "v_zomb (adopt v r q) = v_zomb (v q)"
  "v_pid (adopt v r q) = v_pid (v q)" "v_grp (adopt v r q) = v_grp (v q)" "v_wpid (adopt v r q) = v_wpid (v q)"
  "v_par (adopt v r q) = (if q = r then INIT_PROC_NR else v_par (v q))" "live (adopt v r q) = live (v q)"
  "v_wait (adopt v r q) = v_wait (v q)" "v_stop (adopt v r q) = v_stop (v q)"
  "v_text (adopt v r q) = v_text (v q)" "v_core (adopt v r q) = v_core (v q)" "v_file (adopt v r q) = v_file (v q)"
  "v_sep (adopt v r q) = v_sep (v q)"
  by (auto simp: adopt_def live_def)

lemma users_adopt: "users (adopt v r) = users v" "lives (adopt v r) = lives v"
  by (auto simp: users_def lives_def adopt_sel)

text \<open>An orphan is handed to \<open>INIT\<close>; if it is a zombie and \<open>INIT\<close> is waiting, its slot is released at once.\<close>

lemma adopt_ok:
  assumes t: "tab_ok X v n" and r: "r \<in> users v"
  shows "\<not> (v_wait (v INIT_PROC_NR) \<and> v_zomb (v r)) \<Longrightarrow> tab_ok X (adopt v r) n"
    and "v_zomb (v r) \<Longrightarrow> tab_ok X (reap (adopt v r) r) (n - 1)"
proof -
  have init: "INIT_PROC_NR < PM_NR_PROCS" by (simp add: INIT_PROC_NR_def PM_NR_PROCS_def)
  have p: "parents_ok X (adopt v r)" using t init by (auto simp: tab_ok_def parents_ok_def users_adopt adopt_sel roots_def)
  have i: "pids_ok (adopt v r)" using t by (auto simp: tab_ok_def pids_ok_def users_adopt adopt_sel)
  show "\<not> (v_wait (v INIT_PROC_NR) \<and> v_zomb (v r)) \<Longrightarrow> tab_ok X (adopt v r) n"
    using t p i by (auto simp: tab_ok_def waits_ok_def rightv_def users_adopt adopt_sel)
  show "tab_ok X (reap (adopt v r) r) (n - 1)" if z: "v_zomb (v r)"
  proof -
    have "waits_ok (reap (adopt v r) r)"
      using t by (auto simp: tab_ok_def waits_ok_def users_reap users_adopt reap_sel adopt_sel rightv_def)
    then show ?thesis using t p i z r count_reap [of r "adopt v r"]
      by (simp add: tab_ok_def parents_reap pids_reap users_adopt adopt_sel)
  qed
qed

lemma tab_ok_near:
  assumes "\<And>r. near (v r) (u r)" "tab_ok X v n"
  shows "tab_ok X u n" "users u = users v" "lives u = lives v"
proof -
  note e = near_sel [OF assms(1)]
  show u: "users u = users v" "lives u = lives v" by (simp_all add: users_def lives_def e)
  have w: "v_wait (u r) \<Longrightarrow> v_wait (v r)" "v_stop (u r) \<Longrightarrow> v_stop (v r) \<or> live (v r)" for r
    using assms(1) [of r] by (auto simp: near_def)
  have "waits_ok u" using assms(2) w unfolding tab_ok_def waits_ok_def rightv_def u e by blast
  then show "tab_ok X u n" using assms(2) by (simp add: tab_ok_def parents_ok_def pids_ok_def u e)
qed

text \<open>The processes that were excused have no children left.\<close>

lemma tab_ok_drop:
  assumes "tab_ok (insert r X) v n" "\<And>q. q \<in> users v \<Longrightarrow> v_par (v q) = r \<Longrightarrow> r = INIT_PROC_NR"
  shows "tab_ok X v n"
  using assms unfolding tab_ok_def parents_ok_def by blast

lemma tab_ok_mono: "tab_ok X v n \<Longrightarrow> X \<subseteq> Y \<Longrightarrow> tab_ok Y v n"
  unfolding tab_ok_def parents_ok_def by blast

section \<open>Memory\<close>

text \<open>
  The memory of a process: its text, which processes that run the same file may share, and its core image of data, gap and stack.
  The images of the processes in \<open>A\<close> are in memory that is not free and do not overlap; click 0 holds the interrupt vectors.
\<close>

definition text_of :: "pview \<Rightarrow> nat set" where
  "text_of v = block (fst (v_text v)) (snd (v_text v))"

definition core_of :: "pview \<Rightarrow> nat set" where
  "core_of v = block (fst (v_core v)) (snd (v_core v))"

definition shares :: "pview \<Rightarrow> pview \<Rightarrow> bool" where
  "shares a b \<longleftrightarrow> v_sep a \<and> v_sep b \<and> v_file a = v_file b"

definition placed :: "nat set \<Rightarrow> pview \<Rightarrow> bool" where
  "placed F v \<longleftrightarrow> snd (v_core v) \<noteq> 0 \<and> (\<not> v_sep v \<longrightarrow> snd (v_text v) = 0) \<and> 0 \<notin> core_of v \<union> text_of v \<and>
     unat (fst (v_core v)) + unat (snd (v_core v)) < 2 ^ 32 \<and> unat (fst (v_text v)) + unat (snd (v_text v)) < 2 ^ 32 \<and>
     (core_of v \<union> text_of v) \<inter> F = {}"

definition apart :: "pview \<Rightarrow> pview \<Rightarrow> bool" where
  "apart a b \<longleftrightarrow> core_of a \<inter> core_of b = {} \<and> (text_of a \<inter> text_of b = {} \<or> shares a b)"

definition mem_layout :: "nat set \<Rightarrow> (nat \<Rightarrow> pview) \<Rightarrow> nat set \<Rightarrow> bool" where
  "mem_layout F v A \<longleftrightarrow> 0 \<notin> F \<and> (\<forall>r \<in> A. placed F (v r)) \<and> (\<forall>r \<in> A. \<forall>q \<in> A. core_of (v r) \<inter> text_of (v q) = {} \<and> (r \<noteq> q \<longrightarrow> apart (v r) (v q)))"

definition pm_inv :: "nat set \<Rightarrow> nat set \<Rightarrow> nat set \<Rightarrow> pmst \<Rightarrow> bool" where
  "pm_inv F X A s \<longleftrightarrow> length (mproc_tab s) = PM_NR_PROCS \<and> cur s < PM_NR_PROCS \<and> who s < PM_NR_PROCS \<and>
     INIT_PID \<le> next_pid s \<and> next_pid s \<le> NR_PIDS \<and> tab_ok X (vw s) (procs_in_use s) \<and>
     mem_rep (pm_holes s) F 0 \<and> mem_layout F (vw s) A"

text \<open>The invariant between calls, for the free memory \<open>F\<close>.\<close>

definition pm_ok :: "nat set \<Rightarrow> pmst \<Rightarrow> bool" where
  "pm_ok F s \<longleftrightarrow> pm_inv F {} (lives (vw s)) s"

text \<open>Changes that keep the segments and the file of the processes in question.\<close>

definition like :: "pview \<Rightarrow> pview \<Rightarrow> bool" where
  "like a b \<longleftrightarrow> v_text b = v_text a \<and> v_core b = v_core a \<and> v_file b = v_file a \<and> v_sep b = v_sep a"

lemma like_mem:
  "like a b \<Longrightarrow> text_of b = text_of a" "like a b \<Longrightarrow> core_of b = core_of a" "like a b \<Longrightarrow> placed F b = placed F a"
  "like a b \<Longrightarrow> shares b c = shares a c" "like a b \<Longrightarrow> shares c b = shares c a"
  by (simp_all add: text_of_def core_of_def placed_def shares_def like_def)

lemma layout_like:
  assumes "mem_layout F v A" "B \<subseteq> A" "\<And>r. r \<in> B \<Longrightarrow> like (v r) (u r)"
  shows "mem_layout F u B"
proof -
  have "placed F (u r)" if "r \<in> B" for r using assms that like_mem(3) [OF assms(3)] by (auto simp: mem_layout_def)
  moreover have "core_of (u r) \<inter> text_of (u q) = {} \<and> (r \<noteq> q \<longrightarrow> apart (u r) (u q))" if "r \<in> B" "q \<in> B" for r q
    using assms(1,2) that like_mem [OF assms(3) [OF that(1)]] like_mem [OF assms(3) [OF that(2)]]
    unfolding mem_layout_def apart_def by (metis subsetD)
  ultimately show ?thesis using assms(1) by (simp add: mem_layout_def)
qed

lemma near_like: "near a b \<Longrightarrow> like a b"
  by (simp add: like_def near_sel)

lemma layout_free:
  assumes l: "mem_layout F v A" and r: "r \<in> A" and T: "T = {} \<or> T = text_of (v r) \<and> (\<forall>q \<in> A. q \<noteq> r \<longrightarrow> \<not> shares (v r) (v q))"
  shows "mem_layout (F \<union> T \<union> core_of (v r)) v (A - {r})"
proof -
  have "0 \<notin> F \<union> T \<union> core_of (v r)" using l r T by (auto simp: mem_layout_def placed_def)
  moreover have "placed (F \<union> T \<union> core_of (v r)) (v q)" if q: "q \<in> A" "q \<noteq> r" for q
  proof -
    have "apart (v r) (v q)" "core_of (v r) \<inter> text_of (v q) = {}" "core_of (v q) \<inter> text_of (v r) = {}" "placed F (v q)"
      using l r q by (auto simp: mem_layout_def)
    then show ?thesis using T q by (auto simp: placed_def apart_def)
  qed
  ultimately show ?thesis using l by (simp add: mem_layout_def)
qed

section \<open>Whole state\<close>

lemma pm_inv_calm:
  assumes "calm s t" "pm_inv F X A s"
  shows "pm_inv F X A t"
proof -
  have n: "near (vw s r) (vw t r)" for r using assms(1) by (simp add: calm_def)
  have r: "same_rest s t" using assms(1) by (simp add: calm_def)
  have "tab_ok X (vw t) (procs_in_use t)" using tab_ok_near(1) [OF n] assms(2) r by (simp add: pm_inv_def same_rest_def)
  moreover have "mem_layout F (vw t) A" using layout_like [of F "vw s" A A "vw t"] near_like [OF n] assms(2) by (simp add: pm_inv_def)
  ultimately show ?thesis using assms(2) r by (simp add: pm_inv_def same_rest_def)
qed

lemma calm_lives: "calm s t \<Longrightarrow> lives (vw t) = lives (vw s)"
  by (simp add: lives_def calm_live)

lemma pm_ok_calm: "calm s t \<Longrightarrow> pm_ok F s \<Longrightarrow> pm_ok F t"
  using pm_inv_calm calm_lives by (metis pm_ok_def)

lemma pm_inv_len: "pm_inv F X A s \<Longrightarrow> length (mproc_tab s) = PM_NR_PROCS"
  by (simp add: pm_inv_def)

lemma pm_inv_par: "pm_inv F X A s \<Longrightarrow> r < PM_NR_PROCS \<Longrightarrow> v_use (vw s r) \<Longrightarrow> v_par (vw s r) < PM_NR_PROCS"
  by (auto simp: pm_inv_def tab_ok_def parents_ok_def users_def)

end
