(* ===== verification/Pmexit.thy ===== *)
theory Pmexit
  imports Pminv
begin

text \<open>
  Correctness of \<open>pm_exit\<close>, \<open>sig_proc\<close> and \<open>check_sig\<close>: what each part of an exit does to the table and to the free memory, and
  that the mutual recursion ends and keeps the invariant.
\<close>

section \<open>Memory\<close>

text \<open>
  The ways in which an exit can end in a panic: the parent that should be told has itself gone, which only happens when \<open>INIT\<close>
  (or the reincarnation server or the process manager) is dead, or the hole table is full.
\<close>

definition doomed :: "stop \<Rightarrow> pmst \<Rightarrow> bool" where
  "doomed b t \<longleftrightarrow> b = Halted \<and> ((\<exists>q \<in> roots. \<not> live (vw t q)) \<or> free_slots (pm_holes t) = None)"

lemma free_mem_any:
  assumes "mem_rep h F 0" "unat b + unat n < 2 ^ 32" "block b n \<inter> F = {}"
  shows "runs (free_mem b n h) (\<lambda>_ h'. mem_rep h' (F \<union> block b n) 0) (\<lambda>e h'. e = Halted \<and> free_slots h' = None)"
proof (cases "n = 0")
  case True
  then show ?thesis using assms(1) by (simp add: free_mem_def block_def)
next
  case False
  show ?thesis
  proof (cases "free_slots h")
    case None
    then show ?thesis using False by (simp add: free_mem_def)
  next
    case (Some p)
    then have "mem_rep h F (Suc 0)" using assms(1) unfolding mem_rep_def holes_ok_def struct_ok_def by (metis Suc_leI length_greater_0_conv seg.simps(1) option.distinct(1))
    from free_mem_law [OF this False assms(2,3)] show ?thesis by auto
  qed
qed

lemma runs_on_holes:
  "runs (f (pm_holes s)) (\<lambda>a h. Q a (s\<lparr>pm_holes := h\<rparr>)) (\<lambda>b h. B b (s\<lparr>pm_holes := h\<rparr>)) \<Longrightarrow> runs (on_holes f s) Q B"
  unfolding on_holes_def by (cases "f (pm_holes s)") auto

lemma first_slot_None: "first_slot t rs s = None \<longleftrightarrow> (\<forall>r \<in> set rs. \<not> t r (slot r s))"
  by (induction rs) auto

lemma first_slot_Some: "first_slot t rs s = Some r \<Longrightarrow> r \<in> set rs \<and> t r (slot r s)"
  by (induction rs) (auto split: if_splits)

lemma all_slots_set [simp]: "set all_slots = {..<PM_NR_PROCS}" "distinct all_slots"
  by (auto simp: all_slots_def)

text \<open>Whether the text of a process is in use by another one, as \<open>find_share\<close> decides it.\<close>

definition text_shared :: "nat \<Rightarrow> pmst \<Rightarrow> bool" where
  "text_shared r s \<longleftrightarrow> (\<exists>q < PM_NR_PROCS. q \<noteq> r \<and> v_sep (vw s q) \<and> v_file (vw s q) = v_file (vw s r))"

definition clicks_freed :: "nat \<Rightarrow> pmst \<Rightarrow> nat set" where
  "clicks_freed r s = (if text_shared r s then {} else text_of (vw s r)) \<union> core_of (vw s r)"

lemma find_share_None:
  "find_share r (mp_ino (slot r s)) (mp_dev (slot r s)) (mp_ctime (slot r s)) s = None \<longleftrightarrow> \<not> text_shared r s"
  unfolding find_share_def first_slot_None text_shared_def by (auto simp: vw_def)

lemma pm_inv_holes: "pm_inv F X A s \<Longrightarrow> mem_rep h G 0 \<Longrightarrow> mem_layout G (vw s) B \<Longrightarrow> pm_inv G X B (s\<lparr>pm_holes := h\<rparr>)"
  by (simp add: pm_inv_def)

lemma release_memory_layout:
  assumes l: "mem_layout F (vw s) A" "mem_rep (pm_holes s) F 0" and r: "r \<in> A" "A \<subseteq> lives (vw s)"
  shows "runs (release_memory r s) (\<lambda>_ t. \<exists>h. t = s\<lparr>pm_holes := h\<rparr> \<and> mem_rep h (F \<union> clicks_freed r s) 0 \<and>
    mem_layout (F \<union> clicks_freed r s) (vw s) (A - {r})) doomed"
proof -
  define T where "T = (if text_shared r s then {} else text_of (vw s r))"
  have p: "placed F (vw s r)" "core_of (vw s r) \<inter> text_of (vw s r) = {}" using l(1) r(1) by (simp_all add: mem_layout_def)
  have cv: "v_core (vw s r) = (mem_phys (mp_seg_D (slot r s)), mem_vir (mp_seg_S (slot r s)) + mem_len (mp_seg_S (slot r s)) - mem_vir (mp_seg_D (slot r s)))"
    by (simp add: vw_def view_def)
  have tv: "v_text (vw s r) = (mem_phys (mp_seg_T (slot r s)), mem_len (mp_seg_T (slot r s)))" by (simp add: vw_def)
  have T: "T = {} \<or> T = text_of (vw s r) \<and> (\<forall>q \<in> A. q \<noteq> r \<longrightarrow> \<not> shares (vw s r) (vw s q))"
    using r(2) by (auto simp: T_def text_shared_def shares_def lives_def)
  have one: "runs (if find_share r (mp_ino (slot r s)) (mp_dev (slot r s)) (mp_ctime (slot r s)) s = None
      then on_holes (free_mem (mem_phys (mp_seg_T (slot r s))) (mem_len (mp_seg_T (slot r s)))) s else Ret () s)
      (\<lambda>_ t. \<exists>h. t = s\<lparr>pm_holes := h\<rparr> \<and> mem_rep h (F \<union> T) 0) doomed"
  proof (cases "text_shared r s")
    case True
    then show ?thesis using l(2) unfolding find_share_None by (auto simp: T_def intro!: exI [of _ "pm_holes s"])
  next
    case False
    have "runs (free_mem (fst (v_text (vw s r))) (snd (v_text (vw s r))) (pm_holes s))
        (\<lambda>_ h. mem_rep h (F \<union> T) 0) (\<lambda>e h. e = Halted \<and> free_slots h = None)"
      using free_mem_any [OF l(2), of "fst (v_text (vw s r))" "snd (v_text (vw s r))"] p False
      by (simp add: T_def placed_def text_of_def Int_Un_distrib2)
    then show ?thesis using False unfolding find_share_None tv
      by (auto intro!: runs_on_holes elim!: runs_mono simp: doomed_def)
  qed
  have two: "runs (on_holes (free_mem (fst (v_core (vw s r))) (snd (v_core (vw s r)))) (s\<lparr>pm_holes := h\<rparr>))
      (\<lambda>_ t. \<exists>h. t = s\<lparr>pm_holes := h\<rparr> \<and> mem_rep h (F \<union> clicks_freed r s) 0 \<and> mem_layout (F \<union> clicks_freed r s) (vw s) (A - {r})) doomed" if h: "mem_rep h (F \<union> T) 0" for h
  proof -
    have "core_of (vw s r) \<inter> (F \<union> T) = {}" using p T by (auto simp: placed_def)
    then have "runs (free_mem (fst (v_core (vw s r))) (snd (v_core (vw s r))) h)
        (\<lambda>_ h. mem_rep h (F \<union> clicks_freed r s) 0) (\<lambda>e h. e = Halted \<and> free_slots h = None)"
      using free_mem_any [OF h, of "fst (v_core (vw s r))" "snd (v_core (vw s r))"] p
      by (simp add: placed_def core_of_def clicks_freed_def T_def Un_assoc)
    moreover have "mem_layout (F \<union> clicks_freed r s) (vw s) (A - {r})"
      using layout_free [OF l(1) r(1) T] by (simp add: clicks_freed_def T_def Un_assoc)
    ultimately show ?thesis
      by (auto intro!: runs_on_holes elim!: runs_mono simp: doomed_def)
  qed
  show ?thesis unfolding release_memory_def
    by (rule runs_bnd [OF one]) (use two in \<open>auto simp: cv\<close>)
qed

lemma release_memory_ok:
  assumes "pm_inv F X A s" "r \<in> A" "A \<subseteq> lives (vw s)"
  shows "runs (release_memory r s) (\<lambda>_ t. pm_inv (F \<union> clicks_freed r s) X (A - {r}) t \<and> (\<exists>h. t = s\<lparr>pm_holes := h\<rparr>)) doomed"
  using release_memory_layout [of F s A r] assms pm_inv_holes [OF assms(1)] by (auto simp: pm_inv_def elim!: runs_mono)

section \<open>Releasing a slot\<close>

text \<open>What the parent finds in its reply when \<open>cleanup\<close> has told it about a child.\<close>

definition told :: "pview \<Rightarrow> pmproc \<Rightarrow> bool" where
  "told child p \<longleftrightarrow> m_type (mp_reply p) = v_pid child \<and>
     m_w0 (mp_reply p) = word_of_int (push_bit 8 (sint (fst (v_stat child))) OR uint (snd (v_stat child))) \<and> has p REPLY \<and> \<not> has p WAITING"

text \<open>Everything the invariant mentions but the views and the count stays.\<close>

definition rest_kept :: "pmst \<Rightarrow> pmst \<Rightarrow> bool" where
  "rest_kept s t \<longleftrightarrow> same_rest (s\<lparr>procs_in_use := procs_in_use t\<rparr>) t"

lemma kept_simps: "rest_kept s t \<longleftrightarrow> length (mproc_tab t) = length (mproc_tab s) \<and> cur t = cur s \<and> who t = who s \<and> next_pid t = next_pid s \<and>
    pm_holes t = pm_holes s \<and> m_in t = m_in s \<and> call_nr t = call_nr s"
  by (auto simp: rest_kept_def same_rest_def)

lemma rest_kept_trans: "rest_kept s t \<Longrightarrow> rest_kept t u \<Longrightarrow> rest_kept s u"
  by (simp add: kept_simps)

lemma kept_set_slot [simp]: "rest_kept s (set_slot r f s)" "rest_kept s s"
  by (simp_all add: kept_simps)

lemma calm_kept: "calm s t \<Longrightarrow> rest_kept s t"
  by (simp add: calm_def same_rest_def kept_simps)

lemma pm_inv_views:
  "pm_inv F X A s \<Longrightarrow> rest_kept s t \<Longrightarrow> tab_ok Y (vw t) (procs_in_use t) \<Longrightarrow> mem_layout F (vw t) B \<Longrightarrow> pm_inv F Y B t"
  by (simp add: pm_inv_def kept_simps)

lemma view_released:
  "view (p\<lparr>mp_pid := 0, mp_flags := 0, mp_child_utime := a, mp_child_stime := b\<rparr>) =
     (view p)\<lparr>v_use := False, v_zomb := False, v_wait := False, v_stop := False, v_sep := False, v_pid := 0\<rparr>"
  by (simp add: view_def has_def)

lemma cleanup_ok:
  assumes len: "length (mproc_tab s) = PM_NR_PROCS" and r: "r < PM_NR_PROCS" and par: "v_par (vw s r) < PM_NR_PROCS"
  obtains t where "cleanup r s = Ret () t" "vw t = reap (vw s) r" "procs_in_use t = procs_in_use s - 1"
    "rest_kept s t" "v_par (vw s r) \<noteq> r \<Longrightarrow> told (vw s r) (slot (v_par (vw s r)) t)"
    "\<And>q. q \<noteq> r \<Longrightarrow> q \<noteq> v_par (vw s r) \<Longrightarrow> slot q t = slot q s"
proof -
  define p where "p = mp_parent (slot r s)"
  define s1 where "s1 = setreply p (mp_pid (slot r (reply_res2 p (wait_status (slot r s)) s))) (reply_res2 p (wait_status (slot r s)) s)"
  define s2 where "s2 = set_slot p (drop_flag WAITING) s1"
  define s3 where "s3 = set_slot r (\<lambda>p. p\<lparr>mp_pid := 0, mp_flags := 0, mp_child_utime := 0, mp_child_stime := 0\<rparr>) s2"
  have pl: "p < PM_NR_PROCS" "v_par (vw s r) = p" using par by (simp_all add: p_def vw_def)
  have s1: "same s s1" unfolding s1_def by (intro same_steps same_refl)
  have l1: "length (mproc_tab s1) = PM_NR_PROCS" using s1 len by (simp add: same_def same_rest_def)
  have v2: "vw s2 = (vw s)(p := (vw s p)\<lparr>v_wait := False\<rparr>)"
    using s1 l1 pl(1) by (simp add: s2_def vw_set_slot view_neutral same_def flip: vw_def)
  have v3: "vw s3 = reap (vw s) r"
    using l1 r v2 pl(2) by (simp add: s3_def vw_set_slot view_released reap_def Let_def s2_def flip: vw_def)
  show thesis
  proof
    show "cleanup r s = Ret () (s3\<lparr>procs_in_use := procs_in_use s3 - 1\<rparr>)"
      using pl(1) by (simp add: cleanup_def Let_def p_def [symmetric] s1_def s2_def s3_def)
    show "vw (s3\<lparr>procs_in_use := procs_in_use s3 - 1\<rparr>) = reap (vw s) r" by (simp add: v3)
    show "procs_in_use (s3\<lparr>procs_in_use := procs_in_use s3 - 1\<rparr>) = procs_in_use s - 1"
      using s1 by (simp add: s3_def s2_def same_def same_rest_def)
    show "rest_kept s (s3\<lparr>procs_in_use := procs_in_use s3 - 1\<rparr>)"
      using s1 by (simp add: s3_def s2_def same_def same_rest_def kept_simps)
    show "told (vw s r) (slot (v_par (vw s r)) (s3\<lparr>procs_in_use := procs_in_use s3 - 1\<rparr>))" if "v_par (vw s r) \<noteq> r"
    proof -
      have d: "reply_res2 p x s = set_slot p (\<lambda>p. p\<lparr>mp_reply := (mp_reply p)\<lparr>m_w0 := word_of_int x\<rparr>\<rparr>) s" for x by (simp add: reply_res2_def)
      show ?thesis using that pl r len l1
        by (simp add: told_def s3_def s2_def slot_set_slot s1_def setreply_def d flag_simps wait_status_def vw_def)
    qed
    show "slot q (s3\<lparr>procs_in_use := procs_in_use s3 - 1\<rparr>) = slot q s" if "q \<noteq> r" "q \<noteq> v_par (vw s r)" for q
      using that pl r len l1 by (simp add: s3_def s2_def slot_set_slot s1_def setreply_def reply_res2_def)
  qed
qed

section \<open>Orphans\<close>

text \<open>The orphans of \<open>r\<close> among \<open>cs\<close> go to \<open>INIT\<close>; a zombie among them that finds \<open>INIT\<close> waiting is released.\<close>

fun adopt_all :: "nat \<Rightarrow> nat list \<Rightarrow> (nat \<Rightarrow> pview) \<Rightarrow> nat \<Rightarrow> pview" where
  "adopt_all r [] v = v"
| "adopt_all r (c # cs) v =
     (if v_use (v c) \<and> v_par (v c) = r
      then adopt_all r cs (if v_wait (v INIT_PROC_NR) \<and> v_zomb (v c) then reap (adopt v c) c else adopt v c)
      else adopt_all r cs v)"

lemma vw_adopt: "length (mproc_tab s) = PM_NR_PROCS \<Longrightarrow> c < PM_NR_PROCS \<Longrightarrow> vw (set_slot c (\<lambda>p. p\<lparr>mp_parent := INIT_PROC_NR\<rparr>) s) = adopt (vw s) c"
  by (simp add: vw_set_slot adopt_def) (simp add: view_def vw_def has_def)

lemma like_adopt: "like (v q) (adopt v c q)" "q \<noteq> c \<Longrightarrow> like (v q) (reap (adopt v c) c q)"
  by (simp_all add: like_def adopt_sel reap_sel)

lemma init_slot [simp]: "INIT_PROC_NR < PM_NR_PROCS" "PM_PROC_NR < PM_NR_PROCS" "PM_PROC_NR \<noteq> INIT_PROC_NR" "INIT_PROC_NR \<noteq> PM_PROC_NR"
  by (simp_all add: INIT_PROC_NR_def PM_NR_PROCS_def PM_PROC_NR_def)

lemma disinherit_ok:
  "pm_inv F X A s \<Longrightarrow> A \<subseteq> lives (vw s) \<Longrightarrow> set cs \<subseteq> {..<PM_NR_PROCS} \<Longrightarrow>
   \<exists>t. disinherit r cs s = Ret () t \<and> pm_inv F X A t \<and> vw t = adopt_all r cs (vw s) \<and> rest_kept s t"
proof (induction cs arbitrary: s)
  case (Cons c cs)
  have c: "c < PM_NR_PROCS" and cs: "set cs \<subseteq> {..<PM_NR_PROCS}" using Cons.prems(3) by auto
  have len: "length (mproc_tab s) = PM_NR_PROCS" and tab: "tab_ok X (vw s) (procs_in_use s)" and lay: "mem_layout F (vw s) A"
    using Cons.prems(1) by (simp_all add: pm_inv_def)
  show ?case
  proof (cases "v_use (vw s c) \<and> v_par (vw s c) = r")
    case False
    then show ?thesis using Cons.IH [OF Cons.prems(1,2) cs] by (auto simp: vw_def in_use_def)
  next
    case True
    define s1 where "s1 = set_slot c (\<lambda>p. p\<lparr>mp_parent := INIT_PROC_NR\<rparr>) s"
    have v1: "vw s1 = adopt (vw s) c" using vw_adopt [OF len c] by (simp add: s1_def)
    have uc: "c \<in> users (vw s)" using True c by (simp add: users_def)
    have h: "has (slot q s1) WAITING \<longleftrightarrow> v_wait (vw s q)" "has (slot q s1) ZOMBIE \<longleftrightarrow> v_zomb (vw s q)" for q
      using arg_cong [OF fun_cong [OF v1, of q], of v_wait] arg_cong [OF fun_cong [OF v1, of q], of v_zomb]
      by (simp_all add: adopt_sel) (simp_all add: vw_def)
    have e: "disinherit r (c # cs) s = bnd (if v_wait (vw s INIT_PROC_NR) \<and> v_zomb (vw s c) then cleanup c s1 else Ret () s1) (\<lambda>_. disinherit r cs)"
      using True by (simp add: s1_def [symmetric] h Let_def) (simp add: vw_def in_use_def)
    show ?thesis
    proof (cases "v_wait (vw s INIT_PROC_NR) \<and> v_zomb (vw s c)")
      case wz: True
      have pc: "v_par (vw s1 c) < PM_NR_PROCS" by (simp add: v1 adopt_sel)
      obtain t where t: "cleanup c s1 = Ret () t" "vw t = reap (adopt (vw s) c) c" "procs_in_use t = procs_in_use s - 1" "rest_kept s1 t"
        using cleanup_ok [OF _ c pc] len by (metis s1_def set_slot_sel(1,5) v1)
      have k: "rest_kept s t" using t(4) rest_kept_trans kept_set_slot(1) unfolding s1_def by blast
      have n: "c \<notin> A" using wz Cons.prems(2) by (auto simp: lives_def live_def)
      have "pm_inv F X A t"
        by (rule pm_inv_views [OF Cons.prems(1) k]) (use adopt_ok(2) [OF tab uc] wz t n in \<open>auto intro: layout_like [OF lay] like_adopt\<close>)
      moreover have "A \<subseteq> lives (vw t)" using Cons.prems(2) n t(2) by (auto simp: users_reap users_adopt)
      ultimately show ?thesis using Cons.IH [OF _ _ cs, of t] t k wz True e by (auto intro: rest_kept_trans)
    next
      case wz: False
      have k: "rest_kept s s1" by (simp add: s1_def)
      have p1: "procs_in_use s1 = procs_in_use s" by (simp add: s1_def)
      have "pm_inv F X A s1"
        by (rule pm_inv_views [OF Cons.prems(1) k]) (use adopt_ok(1) [OF tab uc] wz v1 p1 in \<open>auto intro: layout_like [OF lay] like_adopt\<close>)
      moreover have "A \<subseteq> lives (vw s1)" using Cons.prems(2) v1 by (simp add: users_adopt)
      ultimately show ?thesis using Cons.IH [OF _ _ cs, of s1] v1 k wz True e by (auto intro: rest_kept_trans)
    qed
  qed
qed simp

lemma near_reap: "q \<noteq> c \<Longrightarrow> near (v q) (reap v c q)"
  by (auto simp: near_def reap_def Let_def)

lemma adopt_all_other: "q \<notin> set cs \<Longrightarrow> near (v q) (adopt_all r cs v q)"
proof (induction cs arbitrary: v)
  case (Cons c cs)
  have "near (v q) (reap (adopt v c) c q)" "near (v q) (adopt v c q)"
    using Cons.prems near_reap [of q c "adopt v c"] by (simp_all add: adopt_sel)
  then show ?case using Cons.prems Cons.IH by (auto intro: near_trans)
qed simp

lemma adopt_all_wait: "v_wait (adopt_all r cs v q) \<Longrightarrow> v_wait (v q)"
proof (induction cs arbitrary: v)
  case (Cons c cs)
  from Cons.IH [of "if v_wait (v INIT_PROC_NR) \<and> v_zomb (v c) then reap (adopt v c) c else adopt v c"] Cons.IH [of v] Cons.prems
  show ?case by (auto simp: reap_sel adopt_sel split: if_splits)
qed simp

text \<open>What becomes of each slot.\<close>

lemma adopt_all_slot:
  "distinct cs \<Longrightarrow> q \<in> set cs \<Longrightarrow>
   if v_use (v q) \<and> v_par (v q) = r
   then v_par (adopt_all r cs v q) = INIT_PROC_NR \<and> live (adopt_all r cs v q) = live (v q) \<and>
     (\<not> v_use (adopt_all r cs v q) \<longrightarrow> v_zomb (v q) \<and> v_wait (v INIT_PROC_NR))
   else near (v q) (adopt_all r cs v q)"
proof (induction cs arbitrary: v)
  case (Cons c cs)
  show ?case
  proof (cases "q = c")
    case True
    let ?u = "if v_wait (v INIT_PROC_NR) \<and> v_zomb (v c) then reap (adopt v c) c else adopt v c"
    have o: "near (u c) (adopt_all r cs u c)" for u using adopt_all_other Cons.prems(1) by simp
    have "near (?u c) (adopt_all r cs ?u c)" by (rule o)
    from near_sel [OF this] have "v_use (v c) \<Longrightarrow> v_par (v c) = r \<Longrightarrow> v_par (adopt_all r (c # cs) v c) = INIT_PROC_NR \<and>
        live (adopt_all r (c # cs) v c) = live (v c) \<and> (\<not> v_use (adopt_all r (c # cs) v c) \<longrightarrow> v_zomb (v c) \<and> v_wait (v INIT_PROC_NR))"
      by (auto simp: adopt_sel reap_sel live_def)
    then show ?thesis using True o [of v] by (auto split: if_splits)
  next
    case False
    let ?u = "if v_use (v c) \<and> v_par (v c) = r then if v_wait (v INIT_PROC_NR) \<and> v_zomb (v c) then reap (adopt v c) c else adopt v c else v"
    have u: "adopt_all r (c # cs) v = adopt_all r cs ?u" by simp
    have n: "near (v q) (?u q)" using False near_reap [of q c "adopt v c"] by (simp add: adopt_sel)
    have w: "v_wait (?u INIT_PROC_NR) \<Longrightarrow> v_wait (v INIT_PROC_NR)" by (auto simp: reap_sel adopt_sel split: if_splits)
    have "q \<in> set cs" "distinct cs" using Cons.prems False by simp_all
    from Cons.IH [OF this(2,1), of ?u] near_sel [OF n] near_trans [OF n] w show ?thesis unfolding u by (auto split: if_splits)
  qed
qed simp

lemma adopt_all_lives:
  assumes "distinct cs"
  shows "live (adopt_all r cs v q) = live (v q)"
  using adopt_all_slot [OF assms, of q v r] near_sel(11) [OF adopt_all_other [of q cs v r]] near_sel(11) [of "v q" "adopt_all r cs v q"]
  by (cases "q \<in> set cs") (auto split: if_splits)

section \<open>The signal to the parent\<close>

lemma sigchld_default [simp]: "sig_default e ex r SIGCHLD s = Ret () s"
  by (simp add: sig_default_def sigismember_def ign_sset_def ign_sigs_def sigaddset_def bit_exp_iff SIGCHLD_def)

lemma view_sig [simp]:
  "view (p\<lparr>mp_sigmask := a\<rparr>) = view p" "view (p\<lparr>mp_sigpending := a\<rparr>) = view p" "view (reset_hand n p) = view p"
  by (simp_all add: view_def has_def reset_hand_def)

text \<open>A caught signal either is delivered, which wakes the process, or finds no room on the stack and is then treated by default.\<close>

lemma sig_catch_calm:
  assumes "env_ok e" "calm s0 s"
  shows "runs (sig_catch e ex r n s) (\<lambda>_. calm s0) nofail \<or> (\<exists>t. calm s0 t \<and> sig_catch e ex r n s = sig_default e ex r n t)"
proof -
  define s1 where "s1 = s\<lparr>kcalls := SysGetproc r # kcalls s\<rparr>"
  define a where "a = e (SysGetproc r # kcalls s)"
  obtain ok s2 where adj: "adjust e r (mem_len (mp_seg_D (slot r s1))) (a_1 a - 92) s1 = (ok, s2)" by fastforce
  have c2: "calm s0 s2" using adjust_calm [of s0 s1 e r "mem_len (mp_seg_D (slot r s1))" "a_1 a - 92"] assms(2) adj by (simp add: s1_def calm_steps)
  have e: "a_res a = 0" "\<And>n m h g p l. a_res (e (SysSigsend r n m h g p # l)) = 0" using assms(1) by (simp_all add: env_ok_def a_def)
  show ?thesis
  proof (cases "ok = 0")
    case True
    then have "runs (sig_catch e ex r n s) (\<lambda>_. calm s0) nofail"
      using adj e c2 by (auto simp: sig_catch_def ask_def Let_def s1_def [symmetric] a_def [symmetric] intro!: calm_unpause calm_slot calm_steps(1))
    then show ?thesis by simp
  next
    case False
    then have "sig_catch e ex r n s = sig_default e ex r n s2"
      using adj e by (simp add: sig_catch_def ask_def Let_def s1_def [symmetric] a_def [symmetric])
    then show ?thesis using c2 by blast
  qed
qed

lemma calm_refl [simp]: "calm s s"
  by (simp add: same_calm)

lemma unpause_parent: "mp_parent (slot r (unpause e r s)) = mp_parent (slot r s)"
  using calm_unpause [of s s e r] near_sel(7) [of "vw s r" "vw (unpause e r s) r"] by (simp add: calm_def vw_def)

lemma stopped_calm:
  assumes "live (vw s r)" "mp_parent (slot r s) < PM_NR_PROCS"
  shows "runs (stop_proc e r n (unpause e r s)) (\<lambda>_. calm s) nofail"
proof -
  have u: "calm s (unpause e r s)" by (rule calm_unpause) simp
  have "runs (stop_proc e r n (unpause e r s)) (\<lambda>_. calm (unpause e r s)) nofail"
    using assms u by (intro stop_proc_calm) (simp_all add: calm_live unpause_parent)
  then show ?thesis by (rule cm.runs_from [OF u])
qed

lemma sig_kill_calm: "env_ok e \<Longrightarrow> runs (let (b, s) = ask e (SysKill r n) s in if a_res b \<noteq> 0 then Stop Halted s else Ret () s) (\<lambda>_. calm s) nofail"
  by (simp add: ask_def env_ok_def calm_steps)

lemma sigchld_ok:
  assumes "env_ok e" "mp_parent (slot r s) < PM_NR_PROCS"
  shows "if live (vw s r) then runs (sig_proc_with e ex r SIGCHLD s) (\<lambda>_. calm s) nofail else sig_proc_with e ex r SIGCHLD s = Stop Halted s"
proof -
  have l: "running (slot r s) = live (vw s r)" by (simp add: running_view vw_def)
  show ?thesis
    using stopped_calm [of s r e SIGCHLD] sig_catch_calm [OF assms(1) calm_refl, where s = s and ex = ex and r = r and n = SIGCHLD] sig_kill_calm [OF assms(1), of r SIGCHLD s] assms(2)
    unfolding sig_proc_with_def l by (auto intro: calm_slot)
qed

section \<open>The exit of one process\<close>

text \<open>Released because its parent waits for it, or left as a zombie.\<close>

definition awaited :: "(nat \<Rightarrow> pview) \<Rightarrow> nat \<Rightarrow> bool" where
  "awaited v r \<longleftrightarrow> v_wait (v (v_par (v r))) \<and> rightv (v_wpid (v (v_par (v r)))) (v r)"

definition leaves :: "nat \<Rightarrow> (nat \<Rightarrow> pview) \<Rightarrow> (nat \<Rightarrow> pview) \<Rightarrow> bool" where
  "leaves r v b \<longleftrightarrow> (if awaited v r then b = reap v r else \<forall>q. near (bury v r q) (b q))"

definition buried :: "nat \<Rightarrow> pmst \<Rightarrow> pmst \<Rightarrow> bool" where
  "buried r s t \<longleftrightarrow> leaves r (vw s) (vw t) \<and> (awaited (vw s) r \<and> v_par (vw s r) \<noteq> r \<longrightarrow> told (vw s r) (slot (v_par (vw s r)) t))"

lemma right_child_view: "right_child w p = rightv w (view p)"
  by (simp add: right_child_def rightv_def)

lemma view_zombie: "view (p\<lparr>mp_flags := IN_USE OR ZOMBIE\<rparr>) = (view p)\<lparr>v_use := True, v_zomb := True, v_wait := False, v_stop := False, v_sep := False\<rparr>"
  by (simp add: view_def flag_simps)

lemma zombify_ok:
  assumes inv: "pm_inv F {} (lives (vw s) - {r}) s" and e: "env_ok e" and r: "r \<in> users (vw s)"
  shows "runs (zombify (sig_proc_with e ex) r s)
    (\<lambda>_ t. pm_inv F {r} (lives (vw s) - {r}) t \<and> rest_kept s t \<and> lives (vw t) = lives (vw s) - {r} \<and> buried r s t) doomed"
proof -
  define p where "p = v_par (vw s r)"
  define u where "u = set_slot r (\<lambda>p. p\<lparr>mp_flags := IN_USE OR ZOMBIE\<rparr>) s"
  have tab: "tab_ok {} (vw s) (procs_in_use s)" and lay: "mem_layout F (vw s) (lives (vw s) - {r})" and len: "length (mproc_tab s) = PM_NR_PROCS"
    using inv by (simp_all add: pm_inv_def)
  have rl: "r < PM_NR_PROCS" "v_use (vw s r)" using r by (simp_all add: users_def)
  have par: "p < PM_NR_PROCS" "live (vw s p) \<or> p = INIT_PROC_NR" "p = r \<Longrightarrow> r \<in> roots"
    using tab r by (auto simp: tab_ok_def parents_ok_def p_def)
  have z: "zombify (sig_proc_with e ex) r s =
      (if v_wait (vw s p) \<and> rightv (v_wpid (vw s p)) (vw s r) then cleanup r s else sig_proc_with e ex p SIGCHLD u)"
    by (simp add: zombify_def Let_def p_def u_def right_child_view vw_def)
  show ?thesis
  proof (cases "v_wait (vw s p) \<and> rightv (v_wpid (vw s p)) (vw s r)")
    case True
    obtain t where t: "cleanup r s = Ret () t" "vw t = reap (vw s) r" "procs_in_use t = procs_in_use s - 1" "rest_kept s t"
        "p \<noteq> r \<Longrightarrow> told (vw s r) (slot p t)"
      using cleanup_ok [OF len rl(1)] par(1) unfolding p_def by metis
    have "pm_inv F {r} (lives (vw s) - {r}) t"
      by (rule pm_inv_views [OF inv t(4)]) (use reap_ok(1) [OF tab r] t(2,3) in \<open>auto intro: layout_like [OF lay] simp: like_def reap_sel\<close>)
    then show ?thesis using True z t by (auto simp: users_reap buried_def leaves_def awaited_def p_def)
  next
    case False
    have vu: "vw u = bury (vw s) r" using len rl(1) by (simp add: u_def vw_set_slot view_zombie bury_def flip: vw_def)
    have ku: "rest_kept s u" "procs_in_use u = procs_in_use s" by (simp_all add: u_def)
    have "mem_layout F (bury (vw s) r) (lives (vw s) - {r})" by (rule layout_like [OF lay]) (auto simp: like_def bury_sel)
    then have iu: "pm_inv F {r} (lives (vw s) - {r}) u"
      by (intro pm_inv_views [OF inv ku(1)]) (use bury_ok [OF tab r] False vu ku p_def in auto)
    show ?thesis
    proof (cases "live (vw u p)")
      case True
      have "mp_parent (slot p u) < PM_NR_PROCS"
        using pm_inv_par [OF iu par(1)] True by (simp add: live_def vw_def)
      then have "runs (sig_proc_with e ex p SIGCHLD u) (\<lambda>_. calm u) nofail" using sigchld_ok [OF e, of p u] True by simp
      then have "runs (sig_proc_with e ex p SIGCHLD u)
          (\<lambda>_ t. pm_inv F {r} (lives (vw s) - {r}) t \<and> rest_kept s t \<and> lives (vw t) = lives (vw s) - {r} \<and> buried r s t) doomed"
        using False iu vu ku(1)
        by (elim runs_mono) (auto simp: nofail_def buried_def leaves_def awaited_def p_def calm_lives users_bury intro: pm_inv_calm rest_kept_trans calm_kept, auto simp: calm_def)
      then show ?thesis by (simp only: z if_not_P [OF False])
    next
      case False': False
      then have d: "\<exists>q \<in> roots. \<not> live (vw u q)" using par vu by (auto simp: bury_sel roots_def)
      have "sig_proc_with e ex p SIGCHLD u = Stop Halted u" using False' by (simp add: sig_proc_with_def running_view vw_def)
      then show ?thesis using d z False by (simp add: doomed_def)
    qed
  qed
qed

lemma disinherit_told:
  "disinherit r cs s = Ret () t \<Longrightarrow> length (mproc_tab s) = PM_NR_PROCS \<Longrightarrow> set cs \<subseteq> {..<PM_NR_PROCS} \<Longrightarrow>
   live (vw s p) \<Longrightarrow> told w (slot p s) \<Longrightarrow> told w (slot p t)"
proof (induction cs arbitrary: s)
  case (Cons c cs)
  define s1 where "s1 = set_slot c (\<lambda>p. p\<lparr>mp_parent := INIT_PROC_NR\<rparr>) s"
  have c: "c < PM_NR_PROCS" "set cs \<subseteq> {..<PM_NR_PROCS}" using Cons.prems(3) by auto
  have l1: "length (mproc_tab s1) = PM_NR_PROCS" "vw s1 = adopt (vw s) c" using Cons.prems(2) vw_adopt [OF Cons.prems(2) c(1)] by (simp_all add: s1_def)
  have t1: "told w (slot p s1)" using Cons.prems(2,5) c(1) by (auto simp: s1_def slot_set_slot told_def has_def)
  have p1: "live (vw s1 p)" using Cons.prems(4) l1(2) by (simp add: adopt_sel)
  show ?case
  proof (cases "has (slot INIT_PROC_NR s1) WAITING \<and> has (slot c s1) ZOMBIE")
    case True
    have "v_par (vw s1 c) = INIT_PROC_NR" by (simp add: l1(2) adopt_sel)
    then obtain u where u: "cleanup c s1 = Ret () u" "vw u = reap (vw s1) c" "rest_kept s1 u"
        "\<And>q. q \<noteq> c \<Longrightarrow> q \<noteq> INIT_PROC_NR \<Longrightarrow> slot q u = slot q s1"
      using cleanup_ok [OF l1(1) c(1)] by (metis init_slot(1))
    have "p \<noteq> c" "p \<noteq> INIT_PROC_NR" using True p1 t1 by (auto simp: told_def live_def vw_def)
    then have "told w (slot p u)" "live (vw u p)" "length (mproc_tab u) = PM_NR_PROCS" using u t1 p1 l1(1) by (simp_all add: reap_sel kept_simps)
    then show ?thesis using Cons.IH [of u] Cons.IH [of s] Cons.prems True u(1) c(2) by (auto simp: s1_def Let_def split: if_splits)
  next
    case False
    then show ?thesis using Cons.IH [of s1] Cons.IH [of s] Cons.prems t1 p1 l1(1) c(2) by (auto simp: s1_def Let_def split: if_splits)
  qed
qed simp

text \<open>
  The effect of an exit with a given status: the process is told or buried, and then its children are handed over.
\<close>

definition with_status :: "nat \<Rightarrow> int \<Rightarrow> (nat \<Rightarrow> pview) \<Rightarrow> nat \<Rightarrow> pview" where
  "with_status r st v = v(r := (v r)\<lparr>v_stat := (word_of_int st, snd (v_stat (v r)))\<rparr>)"

definition exited :: "nat \<Rightarrow> int \<Rightarrow> pmst \<Rightarrow> pmst \<Rightarrow> bool" where
  "exited r st s t \<longleftrightarrow>
     (let v = with_status r st (vw s); p = v_par (v r)
      in (\<exists>b. leaves r v b \<and> vw t = adopt_all r all_slots b) \<and> (awaited v r \<and> p \<noteq> r \<longrightarrow> told (v r) (slot p t)))"

lemma freed_vw: "vw t = vw s \<Longrightarrow> clicks_freed r t = clicks_freed r s"
  unfolding clicks_freed_def text_shared_def by (simp only:)

lemma adopted_ok:
  assumes "tab_ok {r} v n" "v = adopt_all r all_slots b"
  shows "tab_ok {} v n"
proof (rule tab_ok_drop [OF assms(1)])
  fix q assume q: "q \<in> users v" "v_par (v q) = r"
  have "q \<in> set all_slots" using q(1) by (simp add: users_def)
  note a = adopt_all_slot [OF all_slots_set(2) this, of b r, folded assms(2)]
  show "r = INIT_PROC_NR"
  proof (cases "v_use (b q) \<and> v_par (b q) = r")
    case True
    then show ?thesis using a q(2) by simp
  next
    case False
    then have "near (b q) (v q)" using a by simp
    then show ?thesis using q False near_sel(1,7) [of "b q" "v q"] by (simp add: users_def)
  qed
qed

text \<open>The first half of an exit: timers, accounting and memory.\<close>

definition exit_front :: "env \<Rightarrow> nat \<Rightarrow> unit act" where
  "exit_front e r s = bnd (if has (slot r s) ALARM_ON then set_alarm e r 0 s else Ret 0 s) (\<lambda>_ s. bnd (exit_notify e r s) (\<lambda>_ s. release_memory r s))"

lemma exit_body_split:
  "exit_body e sg r st s = bnd (exit_front e r s) (\<lambda>_ s.
     bnd (zombify sg r (set_slot r (\<lambda>p. p\<lparr>mp_exitstatus := word_of_int st\<rparr>) s)) (\<lambda>_. disinherit r all_slots))"
  by (simp add: exit_body_def exit_front_def bnd_assoc)

lemma exit_front_ok:
  assumes ok: "pm_ok F s" and e: "env_ok e" and r: "r \<in> lives (vw s)"
  shows "runs (exit_front e r s)
    (\<lambda>_ t. pm_inv (F \<union> clicks_freed r s) {} (lives (vw s) - {r}) t \<and> vw t = vw s \<and> cur t = cur s \<and> who t = who s) doomed"
proof -
  have rl: "r < PM_NR_PROCS" "live (vw s r)" using r by (simp_all add: lives_def)
  have inv: "pm_inv F {} (lives (vw s)) s" using ok by (simp add: pm_ok_def)
  have one: "runs (if has (slot r s) ALARM_ON then set_alarm e r 0 s else Ret 0 s) (\<lambda>_. same s) doomed"
    using set_alarm_same [OF e, of r 0 s] by (auto simp: nofail_def elim!: runs_mono)
  have two: "runs (exit_notify e r u) (\<lambda>_. same s) doomed" if u: "same s u" for u
  proof -
    have "v_par (vw u r) < PM_NR_PROCS" using pm_inv_par [OF inv rl(1)] rl(2) u by (simp add: live_def same_def)
    then have "runs (exit_notify e r u) (\<lambda>_. same u) nofail" by (intro exit_notify_same) (simp add: vw_def)
    then show ?thesis using u by (auto simp: nofail_def elim!: runs_mono intro: same_trans)
  qed
  have three: "runs (release_memory r u) (\<lambda>_ t. pm_inv (F \<union> clicks_freed r s) {} (lives (vw s) - {r}) t \<and> vw t = vw s \<and> cur t = cur s \<and> who t = who s) doomed"
    if u: "same s u" for u
  proof -
    have v: "vw u = vw s" "cur u = cur s" "who u = who s" "pm_inv F {} (lives (vw s)) u"
      using u pm_inv_calm [OF same_calm [OF u] inv] by (simp_all add: same_def same_rest_def)
    show ?thesis using release_memory_ok [OF v(4) r] v(1-3) freed_vw [OF v(1), of r] by (auto elim!: runs_mono)
  qed
  show ?thesis unfolding exit_front_def by (rule runs_bnd [OF one], rule runs_bnd [OF two], assumption, rule three)
qed

text \<open>The exit status is written into a slot that is still live.\<close>

lemma set_status_ok:
  fixes st :: int
  assumes "pm_inv G {} A u" "vw u = vw s" "r \<in> lives (vw s)"
  defines "w \<equiv> set_slot r (\<lambda>p. p\<lparr>mp_exitstatus := word_of_int st\<rparr>) u"
  shows "pm_inv G {} A w" "vw w = with_status r st (vw s)" "lives (vw w) = lives (vw s)" "cur w = cur u" "who w = who u" "r \<in> users (vw w)"
proof -
  have rl: "r < PM_NR_PROCS" "live (vw s r)" using assms(3) by (simp_all add: lives_def)
  have vs: "view (slot r u\<lparr>mp_exitstatus := word_of_int st\<rparr>) = (vw s r)\<lparr>v_stat := (word_of_int st, snd (v_stat (vw s r)))\<rparr>"
    unfolding assms(2) [symmetric] by (simp add: vw_def view_def has_def)
  show "vw w = with_status r st (vw s)" using pm_inv_len [OF assms(1)] rl(1) assms(2) vs by (simp add: w_def vw_set_slot with_status_def)
  have cw: "calm u w" unfolding w_def by (rule calm_set_slot) (use rl(2) assms(2) in \<open>simp add: vs near_def\<close>)
  then show "pm_inv G {} A w" "lives (vw w) = lives (vw s)" "cur w = cur u" "who w = who u"
    using pm_inv_calm [OF cw assms(1)] calm_lives [OF cw] assms(2) calm_kept [OF cw] by (simp_all add: kept_simps)
  then show "r \<in> users (vw w)" using assms(3) by (auto simp: lives_def users_def live_def)
qed

lemma exit_back_ok:
  assumes e: "env_ok e" and iw: "pm_inv G {} (lives (vw w) - {r}) w" and uw: "r \<in> users (vw w)"
  shows "runs (bnd (zombify (sig_proc_with e ex) r w) (\<lambda>_. disinherit r all_slots))
    (\<lambda>_ t. pm_ok G t \<and> lives (vw t) = lives (vw w) - {r} \<and> cur t = cur w \<and> who t = who w \<and>
       (\<exists>b. leaves r (vw w) b \<and> vw t = adopt_all r all_slots b) \<and> (awaited (vw w) r \<and> v_par (vw w r) \<noteq> r \<longrightarrow> told (vw w r) (slot (v_par (vw w r)) t))) doomed"
proof (rule runs_bnd [OF zombify_ok [OF iw e uw]])
  fix b assume b: "pm_inv G {r} (lives (vw w) - {r}) b \<and> rest_kept w b \<and> lives (vw b) = lives (vw w) - {r} \<and> buried r w b"
  obtain t where t: "disinherit r all_slots b = Ret () t" "pm_inv G {r} (lives (vw w) - {r}) t" "vw t = adopt_all r all_slots (vw b)" "rest_kept b t"
    using disinherit_ok [of _ _ _ b all_slots r] b by fastforce
  have lt: "lives (vw t) = lives (vw w) - {r}" using adopt_all_lives [OF all_slots_set(2)] t(3) b by (auto simp: lives_def)
  have "pm_ok G t" using t(2) adopted_ok [OF _ t(3)] lt by (simp add: pm_ok_def pm_inv_def)
  moreover have "told (vw w r) (slot (v_par (vw w r)) t)" if a: "awaited (vw w) r" "v_par (vw w r) \<noteq> r"
  proof -
    have "v_par (vw w r) < PM_NR_PROCS" using pm_inv_par [OF iw] uw by (simp add: users_def)
    then have "live (vw w (v_par (vw w r)))" using a(1) iw by (simp add: pm_inv_def tab_ok_def waits_ok_def awaited_def)
    then have "live (vw b (v_par (vw w r)))" using a b by (simp add: buried_def leaves_def reap_sel)
    then show ?thesis using disinherit_told [OF t(1)] a b pm_inv_len unfolding buried_def all_slots_set by blast
  qed
  ultimately show "runs (disinherit r all_slots b)
      (\<lambda>_ t. pm_ok G t \<and> lives (vw t) = lives (vw w) - {r} \<and> cur t = cur w \<and> who t = who w \<and>
        (\<exists>b. leaves r (vw w) b \<and> vw t = adopt_all r all_slots b) \<and> (awaited (vw w) r \<and> v_par (vw w r) \<noteq> r \<longrightarrow> told (vw w r) (slot (v_par (vw w r)) t))) doomed"
    using t b lt by (auto simp: buried_def kept_simps)
qed

lemma exit_body_ok:
  assumes ok: "pm_ok F s" and e: "env_ok e" and r: "r \<in> lives (vw s)"
  shows "runs (exit_body e (sig_proc_with e ex) r st s)
    (\<lambda>_ t. pm_ok (F \<union> clicks_freed r s) t \<and> lives (vw t) = lives (vw s) - {r} \<and> cur t = cur s \<and> who t = who s \<and> exited r st s t) doomed"
  unfolding exit_body_split
proof (rule runs_bnd [OF exit_front_ok [OF assms]], elim conjE)
  fix u assume u: "pm_inv (F \<union> clicks_freed r s) {} (lives (vw s) - {r}) u" "vw u = vw s" "cur u = cur s" "who u = who s"
  note w = set_status_ok [OF u(1,2) r, of st]
  let ?w = "set_slot r (\<lambda>p. p\<lparr>mp_exitstatus := word_of_int st\<rparr>) u"
  have "pm_inv (F \<union> clicks_freed r s) {} (lives (vw ?w) - {r}) ?w" using w(1,3) by simp
  from exit_back_ok [OF e this w(6), of ex] show "runs (bnd (zombify (sig_proc_with e ex) r ?w) (\<lambda>_. disinherit r all_slots))
      (\<lambda>_ t. pm_ok (F \<union> clicks_freed r s) t \<and> lives (vw t) = lives (vw s) - {r} \<and> cur t = cur s \<and> who t = who s \<and> exited r st s t) doomed"
    by (rule runs_mono) (use w u(3,4) in \<open>simp_all add: exited_def Let_def\<close>)
qed

section \<open>Signals and exits\<close>

text \<open>Nothing has gone wrong: the invariant holds, no process came to life, and the caller is the same.\<close>

definition fine :: "pmst \<Rightarrow> pmst \<Rightarrow> bool" where
  "fine s t \<longleftrightarrow> (\<exists>F. pm_ok F t) \<and> lives (vw t) \<subseteq> lives (vw s) \<and> cur t = cur s \<and> who t = who s"

lemma fine_trans: "fine s t \<Longrightarrow> fine t u \<Longrightarrow> fine s u"
  by (auto simp: fine_def)

lemma fine_from: "fine s t \<Longrightarrow> runs m (\<lambda>_. fine t) doomed \<Longrightarrow> runs m (\<lambda>_. fine s) doomed"
  by (erule runs_mono) (auto intro: fine_trans)

lemma calm_fine: "calm s t \<Longrightarrow> pm_ok F s \<Longrightarrow> fine s t"
  using pm_ok_calm calm_lives calm_kept by (fastforce simp: fine_def kept_simps)

text \<open>What the functions that kill processes promise, when at most \<open>n\<close> processes are live.\<close>

definition exits :: "nat \<Rightarrow> (nat \<Rightarrow> int \<Rightarrow> unit act) \<Rightarrow> bool" where
  "exits n ex \<longleftrightarrow> (\<forall>s F r st. pm_ok F s \<longrightarrow> r \<in> lives (vw s) \<longrightarrow> card (lives (vw s)) \<le> n \<longrightarrow>
     runs (ex r st s) (\<lambda>_ t. fine s t \<and> r \<notin> lives (vw t)) doomed)"

definition signals_ok :: "nat \<Rightarrow> (nat \<Rightarrow> nat \<Rightarrow> unit act) \<Rightarrow> bool" where
  "signals_ok n sg \<longleftrightarrow> (\<forall>s F r m. pm_ok F s \<longrightarrow> r \<in> lives (vw s) \<longrightarrow> card (lives (vw s)) \<le> n \<longrightarrow> runs (sg r m s) (\<lambda>_. fine s) doomed)"

lemma calm_runs_fine: "pm_ok F s \<Longrightarrow> runs m (\<lambda>_. calm s) nofail \<Longrightarrow> runs m (\<lambda>_. fine s) doomed"
  by (erule runs_mono) (auto simp: nofail_def intro: calm_fine)

lemma sig_default_ok:
  assumes ex: "exits n ex" and e: "env_ok e" and ok: "pm_ok F s" and r: "r \<in> lives (vw s)" and n: "card (lives (vw s)) \<le> n"
  shows "runs (sig_default e ex r m s) (\<lambda>_. fine s) doomed"
proof -
  define t where "t = set_slot r (\<lambda>p. p\<lparr>mp_sigstatus := word_of_nat m\<rparr>) s"
  have ct: "calm s t" using r unfolding t_def by (intro calm_sigstatus) (simp_all add: lives_def)
  have "live (vw t r)" using ct r by (simp add: calm_live lives_def)
  then have d: "runs (if sigismember core_sset m then dump_core e r (tell_fs e FS_CHDIR (int r) 0 0 t) else Ret () t) (\<lambda>_. calm s) nofail"
    using cm.runs_from [OF calm_steps(4) [OF ct] dump_core_calm [OF e]] ct by (simp add: vw_def)
  have x: "runs (ex r 0 u) (\<lambda>_. fine s) doomed" if u: "calm s u" for u
  proof -
    have "runs (ex r 0 u) (\<lambda>_ v. fine u v \<and> r \<notin> lives (vw v)) doomed"
      using ex pm_ok_calm [OF u ok] r n calm_lives [OF u] unfolding exits_def by metis
    then show ?thesis by (rule runs_mono) (auto intro: fine_trans calm_fine [OF u ok])
  qed
  have "runs (bnd (if sigismember core_sset m then dump_core e r (tell_fs e FS_CHDIR (int r) 0 0 t) else Ret () t) (\<lambda>_. ex r 0)) (\<lambda>_. fine s) doomed"
  proof (rule runs_bnd)
    show "runs (if sigismember core_sset m then dump_core e r (tell_fs e FS_CHDIR (int r) 0 0 t) else Ret () t) (\<lambda>_. calm s) doomed"
      using d by (rule runs_mono) (simp_all add: nofail_def)
  qed (rule x)
  then show ?thesis unfolding sig_default_def Let_def t_def [symmetric] using calm_fine [OF calm_refl ok] by simp
qed

lemma sig_proc_with_ok:
  assumes ex: "exits n ex" and e: "env_ok e"
  shows "signals_ok n (sig_proc_with e ex)"
  unfolding signals_ok_def
proof (intro allI impI)
  fix s F r m assume ok: "pm_ok F s" and r: "r \<in> lives (vw s)" and n: "card (lives (vw s)) \<le> n"
  have l: "running (slot r s)" "live (vw s r)" using r by (simp_all add: lives_def running_view vw_def)
  have p: "mp_parent (slot r s) < PM_NR_PROCS" using pm_inv_par [of F "{}" _ s r] ok r by (simp add: pm_ok_def lives_def live_def vw_def)
  have "runs (sig_default e ex r m t) (\<lambda>_. fine s) doomed" if t: "calm s t" for t
    using fine_from [OF calm_fine [OF t ok] sig_default_ok [OF ex e pm_ok_calm [OF t ok]]] r n calm_lives [OF t] by simp
  then have d: "runs (sig_default e ex r m s) (\<lambda>_. fine s) doomed" "runs (sig_catch e ex r m s) (\<lambda>_. fine s) doomed"
    using sig_catch_calm [OF e calm_refl, where s = s and ex = ex and r = r and n = m] calm_runs_fine [OF ok] by auto
  show "runs (sig_proc_with e ex r m s) (\<lambda>_. fine s) doomed"
    using l d calm_runs_fine [OF ok stopped_calm [OF l(2) p]] calm_runs_fine [OF ok sig_kill_calm [OF e]] calm_fine [OF calm_refl ok]
    unfolding sig_proc_with_def by (auto intro!: calm_fine [OF _ ok] calm_slot)
qed

lemma check_loop_ok:
  assumes sg: "signals_ok n sg"
  shows "pm_ok F s \<Longrightarrow> card (lives (vw s)) \<le> n \<Longrightarrow> set rs \<subseteq> {..<PM_NR_PROCS} \<Longrightarrow>
    runs (check_loop sg proc_id m rs count err s) (\<lambda>_. fine s) doomed"
proof (induction rs arbitrary: s count err F)
  case Nil
  then show ?case using calm_fine [OF calm_refl] by simp
next
  case (Cons r rs)
  have rs: "set rs \<subseteq> {..<PM_NR_PROCS}" using Cons.prems(3) by simp
  have go: "runs (check_loop sg proc_id m rs c er s) (\<lambda>_. fine s) doomed" for c er using Cons.IH [OF Cons.prems(1,2) rs] .
  have sig: "runs (bnd (sg r m s) (\<lambda>_ s. if proc_id > 0 then Ret (Suc count, err) s else check_loop sg proc_id m rs (Suc count) err s)) (\<lambda>_. fine s) doomed"
    if r: "r \<in> lives (vw s)"
  proof (rule runs_bnd)
    show "runs (sg r m s) (\<lambda>_. fine s) doomed" using sg Cons.prems(1,2) r unfolding signals_ok_def by blast
    fix t assume t: "fine s t"
    then obtain G where G: "pm_ok G t" "card (lives (vw t)) \<le> n"
      using Cons.prems(2) card_mono [of "lives (vw s)" "lives (vw t)"] unfolding fine_def by (meson finite_users(2) order_trans)
    show "runs (if proc_id > 0 then Ret (Suc count, err) t else check_loop sg proc_id m rs (Suc count) err t) (\<lambda>_. fine s) doomed"
      using fine_from [OF t Cons.IH [OF G rs]] t by simp
  qed
  show ?case using go sig Cons.prems(3)
    by (auto simp: Let_def in_use_def lives_def live_def vw_def)
qed

lemma check_sig_with_ok:
  assumes "signals_ok n sg" "pm_ok F s" "card (lives (vw s)) \<le> n"
  shows "runs (check_sig_with sg proc_id m s) (\<lambda>_. fine s) doomed"
  using calm_fine [OF calm_refl assms(2)] check_loop_ok [OF assms, of all_slots proc_id "nat m" 0 ESRCH]
  unfolding check_sig_with_def by (auto intro!: runs_bnd)

text \<open>The recursion: every exit takes a live process away, so \<open>n\<close> nested ones are enough for \<open>n\<close> live processes.\<close>

lemma pm_exit_n_ok: "env_ok e \<Longrightarrow> exits n (pm_exit_n n e)"
proof (induction n)
  case 0
  then show ?case by (auto simp: exits_def)
next
  case (Suc n)
  have sg: "signals_ok n (sig_proc_with e (pm_exit_n n e))" using sig_proc_with_ok Suc by blast
  show ?case unfolding exits_def
  proof (intro allI impI)
    fix s F r st assume ok: "pm_ok F s" and r: "r \<in> lives (vw s)" and n: "card (lives (vw s)) \<le> Suc n"
    show "runs (pm_exit_n (Suc n) e r st s) (\<lambda>_ t. fine s t \<and> r \<notin> lives (vw t)) doomed"
      unfolding pm_exit_n.simps Let_def
    proof (rule runs_bnd [OF exit_body_ok [OF ok Suc.prems r]], elim conjE)
      fix t assume t: "pm_ok (F \<union> clicks_freed r s) t" "lives (vw t) = lives (vw s) - {r}" "cur t = cur s" "who t = who s"
      have f: "fine s t" "r \<notin> lives (vw t)" "card (lives (vw t)) \<le> n" using t r n by (auto simp: fine_def)
      have "runs (check_sig_with (sig_proc_with e (pm_exit_n n e)) i j t) (\<lambda>_ u. fine s u \<and> r \<notin> lives (vw u)) doomed" for i j
        by (rule runs_mono [OF check_sig_with_ok [OF sg t(1) f(3)]]) (use f(1,2) in \<open>auto simp: fine_def\<close>)
      then show "runs (if (if mp_pid (slot r s) = mp_procgrp (slot (cur s) s) then mp_procgrp (slot (cur s) s) else 0) \<noteq> 0
          then bnd (check_sig_with (sig_proc_with e (pm_exit_n n e)) (- (if mp_pid (slot r s) = mp_procgrp (slot (cur s) s) then mp_procgrp (slot (cur s) s) else 0)) (int SIGHUP) t) (\<lambda>_ s. Ret () s)
          else Ret () t) (\<lambda>_ u. fine s u \<and> r \<notin> lives (vw u)) doomed"
        using f by (auto intro!: runs_bnd)
    qed
  qed
qed

lemma lives_le: "card (lives v) \<le> PM_NR_PROCS"
  using card_mono [of "{..<PM_NR_PROCS}" "lives v"] by (auto simp: lives_def)

lemma exits_mono: "exits n ex \<Longrightarrow> m \<le> n \<Longrightarrow> exits m ex"
  unfolding exits_def by (meson order_trans)

theorem pm_exit_ok: "env_ok e \<Longrightarrow> exits PM_NR_PROCS (pm_exit e)"
  unfolding pm_exit_def by (rule exits_mono [OF pm_exit_n_ok]) simp_all

lemma sig_proc_ok: "env_ok e \<Longrightarrow> signals_ok PM_NR_PROCS (sig_proc e)"
  unfolding sig_proc_def by (rule sig_proc_with_ok [OF pm_exit_ok])

lemma check_sig_ok: "env_ok e \<Longrightarrow> pm_ok F s \<Longrightarrow> runs (check_sig e i j s) (\<lambda>_. fine s) doomed"
  unfolding check_sig_def by (rule check_sig_with_ok [OF sig_proc_ok _ lives_le])

end
