(* ===== verification/Pmfork.thy ===== *)
theory Pmfork
  imports Pmexit
begin

text \<open>
  Correctness of \<open>get_free_pid\<close>, \<open>do_fork\<close> and \<open>do_waitpid\<close>.
\<close>

section \<open>Process identifiers\<close>

text \<open>There are far more identifiers than slots, so that the search ends.\<close>

definition taken :: "pmproc list \<Rightarrow> int set" where
  "taken ps = mp_pid ` set ps \<union> mp_procgrp ` set ps"

lemma pid_taken_iff: "pid_taken ps n \<longleftrightarrow> n \<in> taken ps"
  by (auto simp: pid_taken_def taken_def list_ex_iff)

lemma card_taken: "card (taken ps) \<le> 2 * length ps"
proof -
  have "card (mp_pid ` set ps) \<le> length ps" "card (mp_procgrp ` set ps) \<le> length ps"
    using card_image_le [of "set ps" mp_pid] card_image_le [of "set ps" mp_procgrp] card_length [of ps] by simp_all
  then show ?thesis unfolding taken_def using card_Un_le [of "mp_pid ` set ps" "mp_procgrp ` set ps"] by linarith
qed

lemma free_pid_reached:
  assumes "t \<notin> taken ps" "2 \<le> t" "t \<le> 30000"
  shows "1 \<le> n \<Longrightarrow> n \<le> 30000 \<Longrightarrow> nat (if n < t then t - n else 30000 - n + t - 1) = k \<Longrightarrow>
    \<exists>m. free_pid_loop ps n = Some m \<and> m \<notin> taken ps \<and> 2 \<le> m \<and> m \<le> 30000"
proof (induction k arbitrary: n)
  case 0
  then show ?case using assms(2,3) by (auto split: if_splits)
next
  case (Suc k)
  define n' where "n' = (if n < 30000 then n + 1 else 2 :: int)"
  have b: "1 \<le> n'" "2 \<le> n'" "n' \<le> 30000" using Suc.prems by (auto simp: n'_def)
  have e: "free_pid_loop ps n = (if n' \<in> taken ps then free_pid_loop ps n' else Some n')"
    by (subst free_pid_loop.simps) (simp add: Let_def pid_taken_iff NR_PIDS_def INIT_PID_def n'_def)
  show ?case
  proof (cases "n' \<in> taken ps")
    case True
    then have "n' \<noteq> t" using assms(1) by auto
    then have "nat (if n' < t then t - n' else 30000 - n' + t - 1) = k" using Suc.prems assms(2,3) by (auto simp: n'_def split: if_splits)
    from Suc.IH [OF b(1,3) this] show ?thesis using e True by simp
  next
    case False
    then show ?thesis using e b by simp
  qed
qed

lemma get_free_pid_ok:
  assumes "length (mproc_tab s) = PM_NR_PROCS" "INIT_PID \<le> next_pid s" "next_pid s \<le> NR_PIDS"
  shows "\<exists>n. get_free_pid s = Ret n (s\<lparr>next_pid := n\<rparr>) \<and> n \<notin> taken (mproc_tab s) \<and> INIT_PID < n \<and> n \<le> NR_PIDS"
proof -
  have "card (taken (mproc_tab s)) < card {2..30000 :: int}" using card_taken [of "mproc_tab s"] assms(1) by (simp add: PM_NR_PROCS_def)
  moreover have "finite (taken (mproc_tab s))" by (simp add: taken_def)
  ultimately have "\<not> {2..30000} \<subseteq> taken (mproc_tab s)" using card_mono [of "taken (mproc_tab s)" "{2..30000}"] by linarith
  then obtain t where t: "t \<notin> taken (mproc_tab s)" "2 \<le> t" "t \<le> 30000" unfolding subset_iff atLeastAtMost_iff by blast
  from free_pid_reached [OF t, of "next_pid s"] assms(2,3) show ?thesis
    by (auto simp: get_free_pid_def INIT_PID_def NR_PIDS_def)
qed

section \<open>Birth\<close>

text \<open>A child: live, with the parent \<open>p\<close>, a new identifier and the core image at \<open>b\<close>; it may share the text of its parent.\<close>

definition born :: "pview \<Rightarrow> nat \<Rightarrow> int \<Rightarrow> 32 word \<Rightarrow> pview" where
  "born a p pid b =
     a\<lparr>v_use := True, v_zomb := False, v_wait := False, v_stop := False, v_pid := pid, v_par := p,
       v_text := (if v_sep a then v_text a else (b, snd (v_text a))), v_core := (b, snd (v_core a)), v_stat := (0, 0)\<rparr>"

lemma born_sel [simp]:
  "v_use (born a p pid b)" "\<not> v_zomb (born a p pid b)" "\<not> v_wait (born a p pid b)" "\<not> v_stop (born a p pid b)"
  "v_pid (born a p pid b) = pid" "v_par (born a p pid b) = p" "v_grp (born a p pid b) = v_grp a" "live (born a p pid b)"
  "v_sep (born a p pid b) = v_sep a" "v_file (born a p pid b) = v_file a" "v_core (born a p pid b) = (b, snd (v_core a))"
  "v_text (born a p pid b) = (if v_sep a then v_text a else (b, snd (v_text a)))"
  by (simp_all add: born_def live_def)

lemma birth_users:
  assumes "c < PM_NR_PROCS" "c \<notin> users v"
  shows "users (v(c := born a p pid b)) = insert c (users v)" "lives (v(c := born a p pid b)) = insert c (lives v)"
  using assms by (auto simp: users_def lives_def live_def)

lemma birth_ok:
  assumes t: "tab_ok {} v n" and c: "c < PM_NR_PROCS" "c \<notin> users v" and p: "p \<in> lives v"
    and pid: "0 \<le> pid" "\<And>q. q \<in> users v \<Longrightarrow> v_pid (v q) \<noteq> pid"
  shows "tab_ok {} (v(c := born (v p) p pid b)) (n + 1)"
proof -
  have pc: "p \<noteq> c" "p < PM_NR_PROCS" "live (v p)" "p \<in> users v" using p c by (auto simp: lives_def users_def live_def)
  have nl: "\<not> live (v c)" using c by (simp add: users_def live_def)
  let ?v = "v(c := born (v p) p pid b)"
  have "n + 1 = int (card (users ?v))" using t c by (simp add: tab_ok_def birth_users)
  moreover have "parents_ok {} ?v"
    using t pc nl c unfolding tab_ok_def parents_ok_def birth_users [OF c] by auto
  moreover have "pids_ok ?v"
    using t pid pc c(2) unfolding tab_ok_def pids_ok_def birth_users [OF c] by (auto simp: inj_on_def) 
  moreover have "waits_ok ?v"
    using t pc nl c unfolding tab_ok_def waits_ok_def birth_users [OF c] by auto
  ultimately show ?thesis by (simp add: tab_ok_def)
qed

lemma apart_sym: "apart a b = apart b a"
  by (auto simp: apart_def shares_def)

lemma layout_insert:
  assumes "mem_layout F v A" "c \<notin> A" "placed F w" "core_of w \<inter> text_of w = {}"
    "\<And>r. r \<in> A \<Longrightarrow> core_of (v r) \<inter> text_of w = {}" "\<And>r. r \<in> A \<Longrightarrow> core_of w \<inter> text_of (v r) = {}" "\<And>r. r \<in> A \<Longrightarrow> apart (v r) w"
  shows "mem_layout F (v(c := w)) (insert c A)"
proof -
  have "core_of ((v(c := w)) r) \<inter> text_of ((v(c := w)) q) = {} \<and> (r \<noteq> q \<longrightarrow> apart ((v(c := w)) r) ((v(c := w)) q))"
    if rq: "r \<in> insert c A" "q \<in> insert c A" for r q
  proof (cases "r = c")
    case True
    then show ?thesis using rq(2) assms(2,4,6,7) apart_sym by (cases "q = c") simp_all
  next
    case False
    then show ?thesis using rq assms(1,5,7) by (cases "q = c") (simp_all add: mem_layout_def)
  qed
  moreover have "placed F ((v(c := w)) r)" if "r \<in> insert c A" for r using that assms(1,3) by (cases "r = c") (simp_all add: mem_layout_def)
  ultimately show ?thesis using assms(1) by (simp add: mem_layout_def)
qed

lemma birth_layout:
  assumes l: "mem_layout F v A" and p: "p \<in> A" and c: "c \<notin> A" and b: "block b (snd (v_core (v p))) \<subseteq> F" "unat b + unat (snd (v_core (v p))) < 2 ^ 32"
  shows "mem_layout (F - block b (snd (v_core (v p)))) (v(c := born (v p) q pid b)) (insert c A)"
proof -
  let ?w = "born (v p) q pid b" and ?B = "block b (snd (v_core (v p)))"
  have z: "0 \<notin> F" and pl: "\<And>r. r \<in> A \<Longrightarrow> placed F (v r)" using l by (auto simp: mem_layout_def)
  have cw: "core_of ?w = ?B" by (simp add: core_of_def)
  have tw: "text_of ?w = text_of (v p)" if "v_sep (v p)" using that by (simp add: text_of_def)
  have te: "text_of ?w = {}" if "\<not> v_sep (v p)" using that pl [OF p] by (simp add: text_of_def placed_def block_def)
  have pw: "placed (F - ?B) ?w"
  proof -
    have "snd (v_core (v p)) \<noteq> 0" "\<not> v_sep (v p) \<longrightarrow> snd (v_text (v p)) = 0" "0 \<notin> text_of (v p)" "text_of (v p) \<inter> F = {}"
      "unat (fst (v_text (v p))) + unat (snd (v_text (v p))) < 2 ^ 32" using pl [OF p] by (auto simp: placed_def)
    then show ?thesis using z b cw tw te by (auto simp: placed_def)
  qed
  have po: "placed (F - ?B) (v r)" if "r \<in> A" for r using pl [OF that] by (auto simp: placed_def)
  have cf: "core_of (v r) \<inter> ?B = {}" "text_of (v r) \<inter> ?B = {}" if "r \<in> A" for r using pl [OF that] b(1) by (auto simp: placed_def)
  have tt: "text_of (v r) \<inter> text_of ?w = {} \<or> shares (v r) ?w" "core_of (v r) \<inter> text_of ?w = {}" if r: "r \<in> A" for r
  proof -
    have "core_of (v r) \<inter> text_of (v p) = {}" "r \<noteq> p \<Longrightarrow> text_of (v r) \<inter> text_of (v p) = {} \<or> shares (v r) (v p)"
      using l r p by (auto simp: mem_layout_def apart_def)
    then show "text_of (v r) \<inter> text_of ?w = {} \<or> shares (v r) ?w" "core_of (v r) \<inter> text_of ?w = {}"
      using tw te by (cases "v_sep (v p)"; auto simp: shares_def)+
  qed
  have ww: "core_of ?w \<inter> text_of ?w = {}" using cw tw te cf(2) [OF p] by (cases "v_sep (v p)") auto
  have "mem_layout (F - ?B) v A" using l po z by (simp add: mem_layout_def)
  then show ?thesis
    by (rule layout_insert) (use c pw ww tt cf cw in \<open>simp_all add: apart_def Int_commute\<close>)
qed

section \<open>Fork\<close>

lemma view_child:
  assumes "has p IN_USE"
  shows "view ((child_slot q b p)\<lparr>mp_pid := pid\<rparr>) = born (view p) q pid b"
proof -
  have "(mp_flags p AND inherit_flags) AND SEPARATE = 0 \<longleftrightarrow> \<not> has p SEPARATE"
    unfolding has_bits(5) and_one_bit [OF pm_flag_bits(6)] by (simp add: inherit_flags_def bit_and_iff bit_or_iff pm_flag_bits)
  moreover have "v_core (view p) = (mem_phys (mp_seg_D p), mem_vir (mp_seg_S p) + mem_len (mp_seg_S p) - mem_vir (mp_seg_D p))"
    by (simp add: view_def)
  ultimately show ?thesis using assms
    by (simp add: child_slot_def Let_def view_def born_def inherit_flags_def flag_simps)
qed

lemma free_slot_found:
  assumes "tab_ok X (vw s) n" "n \<noteq> int PM_NR_PROCS"
  obtains c where "first_slot (\<lambda>_ p. \<not> in_use p) all_slots s = Some c" "c < PM_NR_PROCS" "c \<notin> users (vw s)"
proof (cases "first_slot (\<lambda>_ p. \<not> in_use p) all_slots s")
  case None
  then have "users (vw s) = {..<PM_NR_PROCS}" unfolding first_slot_None by (auto simp: users_def in_use_def vw_def)
  then show ?thesis using assms by (simp add: tab_ok_def)
next
  case (Some c)
  from first_slot_Some [OF this] that [OF Some] show ?thesis by (simp add: users_def in_use_def vw_def)
qed

definition fork_refused :: "pmst \<Rightarrow> bool" where
  "fork_refused s \<longleftrightarrow> procs_in_use s = int PM_NR_PROCS \<or> procs_in_use s \<ge> int (PM_NR_PROCS - LAST_FEW) \<and> mp_effuid (slot (cur s) s) \<noteq> 0"

definition image_size :: "pmst \<Rightarrow> 32 word" where
  "image_size s = snd (v_core (vw s (cur s)))"

text \<open>The state after a fork: the child is in a slot that was free, has an identifier nobody uses, and lives in memory that was free.\<close>

definition forked :: "nat set \<Rightarrow> pmst \<Rightarrow> int \<Rightarrow> nat \<Rightarrow> 32 word \<Rightarrow> pmst \<Rightarrow> bool" where
  "forked F s pid c b t \<longleftrightarrow>
     c < PM_NR_PROCS \<and> c \<notin> users (vw s) \<and> INIT_PID < pid \<and> pid \<le> NR_PIDS \<and>
     (\<forall>q \<in> users (vw s). mp_pid (slot q s) \<noteq> pid \<and> mp_procgrp (slot q s) \<noteq> pid) \<and> block b (image_size s) \<subseteq> F \<and>
     vw t = (vw s)(c := born (vw s (cur s)) (cur s) pid b) \<and> procs_in_use t = procs_in_use s + 1 \<and> cur t = cur s \<and> who t = who s \<and>
     m_type (mp_reply (slot c t)) = 0 \<and> has (slot c t) REPLY \<and> m_w0 (mp_reply (slot (cur s) t)) = word_of_nat c"

lemma image_clicks: "mem_len (mp_seg_S (slot (cur s) s)) + (mem_vir (mp_seg_S (slot (cur s) s)) - mem_vir (mp_seg_D (slot (cur s) s))) = image_size s"
  by (simp add: image_size_def vw_def view_def)

lemma fork_into_ok:
  assumes len: "length (mproc_tab s) = PM_NR_PROCS" and c: "c < PM_NR_PROCS" "c \<notin> users (vw s)" and p: "cur s \<in> lives (vw s)" "who s = cur s"
    and np: "INIT_PID \<le> next_pid s" "next_pid s \<le> NR_PIDS" and b: "block b (image_size s) \<subseteq> F"
  shows "\<exists>pid t. fork_into e c b s = Ret pid t \<and> forked F s pid c b t \<and> pm_holes t = pm_holes s \<and>
    length (mproc_tab t) = PM_NR_PROCS \<and> next_pid t = pid"
proof -
  define u where "u = set_slot c (\<lambda>_. child_slot (who s) b (slot (cur s) s)) (s\<lparr>procs_in_use := procs_in_use s + 1\<rparr>)"
  have lu: "length (mproc_tab u) = PM_NR_PROCS" "next_pid u = next_pid s" using len by (simp_all add: u_def)
  obtain pid where pid: "get_free_pid u = Ret pid (u\<lparr>next_pid := pid\<rparr>)" "pid \<notin> taken (mproc_tab u)" "INIT_PID < pid" "pid \<le> NR_PIDS"
    using get_free_pid_ok [OF lu(1)] lu(2) np by auto
  define u1 where "u1 = set_slot c (\<lambda>c. c\<lparr>mp_pid := pid\<rparr>) (u\<lparr>next_pid := pid\<rparr>)"
  define u2 where "u2 = tell_fs e FS_FORK (int (who s)) (int c) pid (snd (ask e (SysFork (who s) c) u1))"
  define u3 where "u3 = snd (ask e (SysNewmap c (mp_seg_T (slot c u2)) (mp_seg_D (slot c u2)) (mp_seg_S (slot c u2))) u2)"
  define t where "t = reply_res2 (cur s) (int c) (setreply c 0 u3)"
  have w: "who u = who s" "who u1 = who s" "who (snd (ask e (SysFork (who s) c) u1)) = who s" by (simp_all add: u1_def u_def ask_def)
  have ret: "fork_into e c b s = Ret pid t"
    using pid(1) w by (simp add: fork_into_def Let_def u_def [symmetric] u1_def [symmetric] u2_def t_def u3_def split_beta)
  have s1: "same u1 t" unfolding t_def u3_def u2_def by (intro same_steps same_refl)
  have pc: "cur s \<noteq> c" "cur s < PM_NR_PROCS" "has (slot (cur s) s) IN_USE" using p c by (auto simp: lives_def users_def live_def vw_def)
  have v1: "vw u1 = (vw s)(c := born (vw s (cur s)) (cur s) pid b)"
    using len c pc view_child [OF pc(3)] p(2) by (simp add: u1_def u_def vw_set_slot slot_set_slot vw_def)
  have fresh: "mp_pid (slot q s) \<noteq> pid \<and> mp_procgrp (slot q s) \<noteq> pid" if q: "q \<in> users (vw s)" for q
  proof -
    have "slot q u = slot q s" "q < length (mproc_tab u)" using q c len by (auto simp: u_def slot_set_slot users_def)
    then have "slot q s \<in> set (mproc_tab u)" unfolding slot_def by (metis nth_mem)
    then show ?thesis using pid(2) by (auto simp: taken_def)
  qed
  have l3: "length (mproc_tab u3) = PM_NR_PROCS" using lu(1) by (simp add: u3_def u2_def tell_fs_def ask_def u1_def)
  have "m_type (mp_reply (slot c t)) = 0" "has (slot c t) REPLY" "m_w0 (mp_reply (slot (cur s) t)) = word_of_nat c"
    using l3 c pc by (simp_all add: t_def reply_res2_def setreply_def slot_set_slot flag_simps)
  moreover have "procs_in_use t = procs_in_use s + 1" "cur t = cur s" "who t = who s" "pm_holes t = pm_holes s" "length (mproc_tab t) = PM_NR_PROCS" "next_pid t = pid"
    using s1 len by (auto simp: same_def same_rest_def u1_def u_def)
  moreover have "vw t = (vw s)(c := born (vw s (cur s)) (cur s) pid b)" using s1 v1 by (simp add: same_def)
  ultimately show ?thesis using ret c pid(3,4) fresh b by (auto simp: forked_def)
qed

lemma do_fork_ok:
  assumes ok: "pm_ok F s" and e: "env_ok e" and p: "cur s \<in> lives (vw s)" "who s = cur s"
  shows "if fork_refused s then do_fork e s = Ret EAGAIN s
    else if \<forall>b. \<not> block b (image_size s) \<subseteq> F then do_fork e s = Ret ENOMEM s
    else \<exists>pid c b t. do_fork e s = Ret pid t \<and> forked F s pid c b t \<and> pm_ok (F - block b (image_size s)) t"
proof (cases "fork_refused s")
  case False
  let ?n = "image_size s"
  have inv: "length (mproc_tab s) = PM_NR_PROCS" "INIT_PID \<le> next_pid s" "next_pid s \<le> NR_PIDS" "tab_ok {} (vw s) (procs_in_use s)"
    "mem_rep (pm_holes s) F 0" "mem_layout F (vw s) (lives (vw s))" using ok by (simp_all add: pm_ok_def pm_inv_def)
  have n0: "?n \<noteq> 0" "0 \<notin> F" using inv(6) p(1) by (auto simp: mem_layout_def placed_def image_size_def)
  have step: "do_fork e s = bnd (on_holes (alloc_mem ?n) s) (\<lambda>child_base s'. if child_base = NO_MEM then Ret ENOMEM s'
      else (let (a, s') = ask e (SysAbscopy (push_bit PM_CLICK_SHIFT (mem_phys (mp_seg_D (slot (cur s) s)))) (push_bit PM_CLICK_SHIFT child_base) (push_bit PM_CLICK_SHIFT ?n)) s'
        in if a_res a < 0 then Stop Halted s' else case first_slot (\<lambda>_ p. \<not> in_use p) all_slots s' of None \<Rightarrow> Stop Fault s' | Some child_nr \<Rightarrow> fork_into e child_nr child_base s'))"
    using False unfolding do_fork_def fork_refused_def Let_def image_clicks by (rule if_not_P)
  show ?thesis
  proof (cases "\<forall>b. \<not> block b ?n \<subseteq> F")
    case True
    then have "alloc_mem ?n (pm_holes s) = Ret NO_MEM (pm_holes s)" using alloc_mem_full [OF inv(5) n0(1)] by blast
    then have "do_fork e s = Ret ENOMEM s" unfolding step by (simp add: on_holes_def)
    then show ?thesis using False True by simp
  next
    case fits: False
    then obtain b h where b: "alloc_mem ?n (pm_holes s) = Ret b h" "block b ?n \<subseteq> F" "unat b + unat ?n < 2 ^ 32" "mem_rep h (F - block b ?n) 0"
      using alloc_mem_fits [OF inv(5) _ n0(1)] by blast
    have "0 < unat ?n" using n0(1) by (simp add: unat_gt_0)
    then have b0: "b \<noteq> NO_MEM" using b(2) n0(2) by (auto simp: NO_MEM_def block_def)
    define k where "k = SysAbscopy (push_bit PM_CLICK_SHIFT (mem_phys (mp_seg_D (slot (cur s) s)))) (push_bit PM_CLICK_SHIFT b) (push_bit PM_CLICK_SHIFT ?n) # kcalls s"
    define u where "u = s\<lparr>pm_holes := h, kcalls := k\<rparr>"
    have vu: "vw u = vw s" by (simp add: u_def)
    have "procs_in_use s \<noteq> int PM_NR_PROCS" using False by (simp add: fork_refused_def)
    then obtain c where c: "first_slot (\<lambda>_ p. \<not> in_use p) all_slots u = Some c" "c < PM_NR_PROCS" "c \<notin> users (vw u)"
      using free_slot_found [of "{}" u] inv(4) vu by metis
    have "\<not> a_res (e k) < 0" using e by (simp add: env_ok_def k_def not_less)
    then have "do_fork e s = fork_into e c b u"
      using b(1) b0 c(1) unfolding step by (simp add: on_holes_def ask_def u_def k_def)
    moreover have "\<exists>pid t. fork_into e c b u = Ret pid t \<and> forked F u pid c b t \<and> pm_holes t = pm_holes u \<and> length (mproc_tab t) = PM_NR_PROCS \<and> next_pid t = pid"
      by (rule fork_into_ok) (use inv p c vu b(2) in \<open>simp_all add: u_def image_size_def\<close>)
    ultimately obtain pid t where t: "do_fork e s = Ret pid t" "forked F u pid c b t" "pm_holes t = h" "length (mproc_tab t) = PM_NR_PROCS" "next_pid t = pid"
      by (auto simp: u_def)
    have fk: "forked F s pid c b t" using t(2) vu by (simp add: forked_def u_def image_size_def)
    have "tab_ok {} (vw t) (procs_in_use t)"
      using birth_ok [OF inv(4) c(2) _ p(1), of pid b] c(3) vu fk by (auto simp: forked_def vw_def INIT_PID_def)
    moreover have "mem_layout (F - block b ?n) (vw t) (lives (vw t))"
      using birth_layout [OF inv(6) p(1), of c b "cur s" pid] b(2,3) fk birth_users(2) c(2)
      by (auto simp: forked_def image_size_def lives_def users_def live_def)
    moreover have "cur t < PM_NR_PROCS" "who t < PM_NR_PROCS" "INIT_PID \<le> pid" "pid \<le> NR_PIDS" using fk p by (simp_all add: forked_def lives_def)
    ultimately have "pm_ok (F - block b ?n) t" using t(3-5) b(4) by (simp add: pm_ok_def pm_inv_def)
    then show ?thesis using False fits t(1) fk by auto
  qed
qed (simp add: do_fork_def fork_refused_def Let_def)

section \<open>Wait\<close>

text \<open>The children a call waits for, and those of them that have something to report.\<close>

definition acceptable :: "int \<Rightarrow> pmst \<Rightarrow> nat \<Rightarrow> bool" where
  "acceptable pidarg s r \<longleftrightarrow> in_use (slot r s) \<and> mp_parent (slot r s) = who s \<and> wait_accepts pidarg (slot r s)"

definition reports :: "pmst \<Rightarrow> nat \<Rightarrow> bool" where
  "reports s r \<longleftrightarrow> has (slot r s) ZOMBIE \<or> has (slot r s) STOPPED \<and> mp_sigstatus (slot r s) \<noteq> 0"

definition tell_stopped :: "nat \<Rightarrow> pmst \<Rightarrow> pmst" where
  "tell_stopped r s = set_slot r (\<lambda>p. p\<lparr>mp_sigstatus := 0\<rparr>) (reply_res2 (cur s) (0x7F OR push_bit 8 (sint (mp_sigstatus (slot r s)))) s)"

definition collect :: "nat \<Rightarrow> nat \<Rightarrow> (int option \<times> nat) act" where
  "collect r k s = (if has (slot r s) ZOMBIE then bnd (cleanup r s) (\<lambda>_ s. Ret (Some SUSPEND, k) s)
     else Ret (Some (mp_pid (slot r s)), k) (tell_stopped r s))"

lemma wait_loop_eq:
  "case find (\<lambda>r. acceptable pidarg s r \<and> reports s r) rs of
     None \<Rightarrow> wait_loop pidarg rs n s = Ret (None, n + length (filter (acceptable pidarg s) rs)) s
   | Some r \<Rightarrow> \<exists>k. wait_loop pidarg rs n s = collect r k s"
proof (induction rs arbitrary: n)
  case (Cons r rs)
  have e: "wait_loop pidarg (r # rs) n s = (if acceptable pidarg s r then if reports s r then collect r (Suc n) s
      else wait_loop pidarg rs (Suc n) s else wait_loop pidarg rs n s)"
    by (auto simp: acceptable_def reports_def collect_def tell_stopped_def Let_def)
  show ?case using Cons.IH [of n] Cons.IH [of "Suc n"] unfolding e
    by (cases "acceptable pidarg s r"; cases "reports s r") (auto simp del: wait_loop.simps split: option.splits)
qed simp

definition now_waiting :: "int \<Rightarrow> pmst \<Rightarrow> pmst" where
  "now_waiting pidarg s = set_slot (cur s) (\<lambda>p. (raise_flag WAITING p)\<lparr>mp_wpid := pidarg\<rparr>) s"

lemma do_waitpid_eq:
  "do_waitpid s =
     (case find (\<lambda>r. acceptable (wait_pidarg s) s r \<and> reports s r) all_slots of
        Some r \<Rightarrow> if has (slot r s) ZOMBIE then bnd (cleanup r s) (\<lambda>_ s. Ret SUSPEND s) else Ret (mp_pid (slot r s)) (tell_stopped r s)
      | None \<Rightarrow>
          if filter (acceptable (wait_pidarg s) s) all_slots = [] then Ret ECHILD s
          else if wait_options s AND WNOHANG \<noteq> 0 then Ret 0 s
          else Ret SUSPEND (now_waiting (wait_pidarg s) s))"
  using wait_loop_eq [where s = s and pidarg = "wait_pidarg s" and rs = all_slots and n = 0]
  by (auto simp: do_waitpid_def Let_def bnd_assoc now_waiting_def collect_def split: option.splits)

lemma right_accepted: "right_child w p \<Longrightarrow> 0 \<le> mp_pid p \<Longrightarrow> 0 \<le> mp_procgrp p \<Longrightarrow> wait_accepts w p"
  by (auto simp: right_child_def wait_accepts_def)

lemma find_none: "find P xs = None \<longleftrightarrow> (\<forall>x \<in> set xs. \<not> P x)"
  by (induction xs) auto

lemma find_some: "find P xs = Some x \<Longrightarrow> x \<in> set xs \<and> P x"
  by (induction xs) (auto split: if_splits)

lemma now_waiting_ok:
  assumes ok: "pm_ok F s" and p: "cur s \<in> lives (vw s)" "who s = cur s"
    and none: "find (\<lambda>r. acceptable w s r \<and> reports s r) all_slots = None"
  shows "pm_ok F (now_waiting w s)"
proof -
  let ?t = "now_waiting w s" and ?c = "cur s"
  have inv: "pm_inv F {} (lives (vw s)) s" "tab_ok {} (vw s) (procs_in_use s)" "mem_layout F (vw s) (lives (vw s))" "length (mproc_tab s) = PM_NR_PROCS"
    using ok by (simp_all add: pm_ok_def pm_inv_def)
  have c: "?c < PM_NR_PROCS" "live (vw s ?c)" using p by (simp_all add: lives_def)
  have v: "vw ?t = (vw s)(?c := (vw s ?c)\<lparr>v_wait := True, v_wpid := w\<rparr>)"
    using inv(4) c(1) by (simp add: now_waiting_def vw_set_slot) (simp add: view_def flag_simps vw_def)
  have l: "live (vw ?t q) = live (vw s q)" "v_use (vw ?t q) = v_use (vw s q)" "v_zomb (vw ?t q) = v_zomb (vw s q)" "v_par (vw ?t q) = v_par (vw s q)"
    "v_pid (vw ?t q) = v_pid (vw s q)" "v_grp (vw ?t q) = v_grp (vw s q)" "v_stop (vw ?t q) = v_stop (vw s q)" "like (vw s q) (vw ?t q)" for q
    by (simp_all add: v live_def like_def)
  have u: "users (vw ?t) = users (vw s)" "lives (vw ?t) = lives (vw s)" by (simp_all add: users_def lives_def l)
  have nr: "\<not> rightv w (vw s q)" if q: "q \<in> users (vw s)" "v_zomb (vw s q)" "v_par (vw s q) = ?c" for q
  proof
    assume "rightv w (vw s q)"
    then have "right_child w (slot q s)" by (simp add: right_child_view vw_def)
    moreover have "0 \<le> mp_pid (slot q s)" "0 \<le> mp_procgrp (slot q s)" using inv(2) q(1) by (auto simp: tab_ok_def pids_ok_def vw_def)
    ultimately have "wait_accepts w (slot q s)" by (rule right_accepted)
    then have "acceptable w s q" "reports s q" "q \<in> set all_slots"
      using q p(2) by (auto simp: acceptable_def reports_def users_def vw_def in_use_def)
    then show False using none unfolding find_none by blast
  qed
  have "waits_ok (vw ?t)"
    using inv(2) c nr unfolding tab_ok_def waits_ok_def u l rightv_def by (auto simp: v)
  moreover have "procs_in_use ?t = procs_in_use s" by (simp add: now_waiting_def)
  ultimately have "tab_ok {} (vw ?t) (procs_in_use ?t)"
    using inv(2) by (simp add: tab_ok_def parents_ok_def pids_ok_def u l)
  moreover have "mem_layout F (vw ?t) (lives (vw ?t))" unfolding u by (rule layout_like [OF inv(3)]) (simp_all add: l)
  moreover have "rest_kept s ?t" by (simp add: now_waiting_def)
  ultimately show ?thesis using pm_inv_views [OF inv(1)] unfolding pm_ok_def by blast
qed

lemma reaped_ok:
  assumes ok: "pm_ok F s" and r: "r \<in> users (vw s)" "v_zomb (vw s r)"
  obtains t where "cleanup r s = Ret () t" "pm_ok F t" "vw t = reap (vw s) r" "cur t = cur s" "who t = who s" "lives (vw t) = lives (vw s)"
    "v_par (vw s r) \<noteq> r \<Longrightarrow> told (vw s r) (slot (v_par (vw s r)) t)"
proof -
  have inv: "pm_inv F {} (lives (vw s)) s" "tab_ok {} (vw s) (procs_in_use s)" "mem_layout F (vw s) (lives (vw s))" "length (mproc_tab s) = PM_NR_PROCS"
    using ok by (simp_all add: pm_ok_def pm_inv_def)
  have rl: "r < PM_NR_PROCS" "v_par (vw s r) < PM_NR_PROCS" using r(1) pm_inv_par [OF inv(1)] by (simp_all add: users_def)
  obtain t where t: "cleanup r s = Ret () t" "vw t = reap (vw s) r" "procs_in_use t = procs_in_use s - 1" "rest_kept s t"
      "v_par (vw s r) \<noteq> r \<Longrightarrow> told (vw s r) (slot (v_par (vw s r)) t)"
    using cleanup_ok [OF inv(4) rl] by metis
  have lv: "lives (vw t) = lives (vw s)" using t(2) r(2) by (auto simp: lives_def reap_sel dest: zomb_not_live)
  have "mem_layout F (vw t) (lives (vw t))"
    unfolding lv by (rule layout_like [OF inv(3)]) (use r(2) in \<open>auto simp: t(2) like_def reap_sel lives_def live_def\<close>)
  then have "pm_ok F t" unfolding pm_ok_def using reap_ok(2) [OF inv(2) r] t(2,3) by (intro pm_inv_views [OF inv(1) t(4)]) simp_all
  then show thesis using that t lv by (simp add: kept_simps)
qed

lemma stopped_live: "pm_ok F s \<Longrightarrow> r < PM_NR_PROCS \<Longrightarrow> in_use (slot r s) \<Longrightarrow> has (slot r s) STOPPED \<Longrightarrow> live (vw s r)"
  by (auto simp: pm_ok_def pm_inv_def tab_ok_def waits_ok_def in_use_def vw_def)

lemma tell_stopped_calm: "live (vw s r) \<Longrightarrow> calm s (tell_stopped r s)"
  unfolding tell_stopped_def by (intro calm_sigstatus calm_steps(3) calm_refl) (metis calm_live calm_refl calm_steps(3))

text \<open>Waiting, on every branch.\<close>

lemma do_waitpid_ok:
  assumes ok: "pm_ok F s" and p: "cur s \<in> lives (vw s)" "who s = cur s"
  shows "case find (\<lambda>r. acceptable (wait_pidarg s) s r \<and> reports s r) all_slots of
      Some r \<Rightarrow> if has (slot r s) ZOMBIE
        then \<exists>t. do_waitpid s = Ret SUSPEND t \<and> vw t = reap (vw s) r \<and> (r \<noteq> cur s \<longrightarrow> told (vw s r) (slot (cur s) t)) \<and> pm_ok F t \<and> lives (vw t) = lives (vw s)
        else do_waitpid s = Ret (mp_pid (slot r s)) (tell_stopped r s) \<and> pm_ok F (tell_stopped r s)
    | None \<Rightarrow>
        if \<forall>r < PM_NR_PROCS. \<not> acceptable (wait_pidarg s) s r then do_waitpid s = Ret ECHILD s
        else if wait_options s AND WNOHANG \<noteq> 0 then do_waitpid s = Ret 0 s
        else do_waitpid s = Ret SUSPEND (now_waiting (wait_pidarg s) s) \<and> pm_ok F (now_waiting (wait_pidarg s) s)"
proof (cases "find (\<lambda>r. acceptable (wait_pidarg s) s r \<and> reports s r) all_slots")
  case None
  have "filter (acceptable (wait_pidarg s) s) all_slots = [] \<longleftrightarrow> (\<forall>r < PM_NR_PROCS. \<not> acceptable (wait_pidarg s) s r)"
    by (auto simp: filter_empty_conv)
  then show ?thesis using None now_waiting_ok [OF ok p None] by (auto simp: do_waitpid_eq)
next
  case (Some r)
  have r: "r < PM_NR_PROCS" "acceptable (wait_pidarg s) s r" "reports s r" using find_some [OF Some] by simp_all
  have u: "r \<in> users (vw s)" "v_par (vw s r) = cur s" using r p(2) by (simp_all add: acceptable_def users_def vw_def in_use_def)
  show ?thesis
  proof (cases "has (slot r s) ZOMBIE")
    case True
    then have "v_zomb (vw s r)" by (simp add: vw_def)
    then obtain t where "cleanup r s = Ret () t" "pm_ok F t" "vw t = reap (vw s) r" "lives (vw t) = lives (vw s)" "cur s \<noteq> r \<Longrightarrow> told (vw s r) (slot (cur s) t)"
      using reaped_ok [OF ok u(1)] u(2) by metis
    then show ?thesis using True Some by (auto simp: do_waitpid_eq)
  next
    case False
    then have "live (vw s r)" using stopped_live [OF ok r(1)] r(2,3) by (auto simp: acceptable_def reports_def)
    then show ?thesis using False Some pm_ok_calm [OF tell_stopped_calm ok] by (simp add: do_waitpid_eq)
  qed
qed

end
