(* ===== verification/Pmstack.thy ===== *)
theory Pmstack
  imports Prelude
begin

text \<open>
  The argument stack of \<open>exec\<close> (\<open>patch_ptr\<close>, \<open>insert_arg\<close> and \<open>patch_stack\<close> of \<open>src/reference/minix/servers/pm/exec.c\<close>). The
  caller's library builds an image of the stack of the new program: the number of arguments, the pointers to the arguments and to the environment,
  each list followed by a null pointer, and the strings; the pointers are offsets into the image. For a script, the process
  manager rewrites the image so that the interpreter and its arguments come first.

  The buffer is a list of bytes; \<open>None\<close> is an access outside of it. An index is an \<open>int\<close>, since it comes from the
  image, which may hold anything.
\<close>

section \<open>Bytes\<close>

type_synonym bytes = "8 word list"

definition EXEC_MAX :: nat where "EXEC_MAX = 16384"
definition PATH_MAX :: nat where "PATH_MAX = 255"
definition PTRSIZE :: nat where "PTRSIZE = 4"

definition bstr :: "bytes \<Rightarrow> bytes" where
  "bstr b = takeWhile (\<lambda>c. c \<noteq> 0) b"

definition bstrlen :: "bytes \<Rightarrow> int option" where
  "bstrlen b = (if 0 \<in> set b then Some (int (length (bstr b))) else None)"

definition byte_at :: "bytes \<Rightarrow> int \<Rightarrow> 8 word option" where
  "byte_at b i = (if 0 \<le> i \<and> i < int (length b) then Some (b ! nat i) else None)"

definition blit :: "bytes \<Rightarrow> int \<Rightarrow> bytes \<Rightarrow> bytes option" where
  "blit b d x = (if 0 \<le> d \<and> d + int (length x) \<le> int (length b) then Some (take (nat d) b @ x @ drop (nat d + length x) b) else None)"

definition bmove :: "bytes \<Rightarrow> int \<Rightarrow> int \<Rightarrow> int \<Rightarrow> bytes option" where
  "bmove b d s n = (if 0 \<le> s \<and> 0 \<le> n \<and> s + n \<le> int (length b) then blit b d (take (nat n) (drop (nat s) b)) else None)"

definition bstrcpy :: "bytes \<Rightarrow> int \<Rightarrow> bytes \<Rightarrow> bytes option" where
  "bstrcpy b d x = (if 0 \<in> set x then blit b d (bstr x @ [0]) else None)"

text \<open>Bytes that are copied to the beginning of a buffer.\<close>

definition copy_in :: "nat \<Rightarrow> bytes \<Rightarrow> bytes \<Rightarrow> bytes" where
  "copy_in n x b = take n x @ drop (length (take n x)) b"

text \<open>A pointer in the image, least significant byte first.\<close>

definition bytes4 :: "32 word \<Rightarrow> bytes" where
  "bytes4 w = [ucast w, ucast (drop_bit 8 w), ucast (drop_bit 16 w), ucast (drop_bit 24 w)]"

fun word4 :: "bytes \<Rightarrow> 32 word" where
  "word4 [a, b, c, d] = ucast a OR push_bit 8 (ucast b) OR push_bit 16 (ucast c) OR push_bit 24 (ucast d)"
| "word4 _ = 0"

definition ptr_at :: "bytes \<Rightarrow> nat \<Rightarrow> 32 word option" where
  "ptr_at b i = (if i + PTRSIZE \<le> length b then Some (word4 (take PTRSIZE (drop i b))) else None)"

definition set_ptr :: "bytes \<Rightarrow> nat \<Rightarrow> 32 word \<Rightarrow> bytes option" where
  "set_ptr b i w = blit b (int i) (bytes4 w)"

section \<open>The code\<close>

function patch_from :: "nat \<Rightarrow> nat \<Rightarrow> 32 word \<Rightarrow> bytes \<Rightarrow> bytes option" where
  "patch_from ap flag base stack =
     (if flag < 2 \<and> ap < EXEC_MAX then
        do {
          v \<leftarrow> ptr_at stack ap;
          if v \<noteq> 0 then do { stack \<leftarrow> set_ptr stack ap (v + base); patch_from (ap + PTRSIZE) flag base stack }
          else patch_from (ap + PTRSIZE) (flag + 1) base stack
        }
      else Some stack)"
  by auto
termination
  by (relation "measure (\<lambda>(ap, flag, base, stack). EXEC_MAX - ap)") (auto simp: PTRSIZE_def)

declare patch_from.simps [simp del]

definition patch_ptr :: "bytes \<Rightarrow> 32 word \<Rightarrow> bytes option" where
  "patch_ptr stack base = patch_from PTRSIZE 0 base stack"

text \<open>The loop over the old \<open>argv[0]\<close>: the inner \<open>None\<close> is the end of the image.\<close>

function skip_arg :: "bytes \<Rightarrow> int \<Rightarrow> int \<Rightarrow> int \<Rightarrow> (int \<times> int) option option" where
  "skip_arg stack old_bytes a1 offset =
     (if a1 = old_bytes then Some None
      else case byte_at stack a1 of
        None \<Rightarrow> None
      | Some c \<Rightarrow> if c \<noteq> 0 then skip_arg stack old_bytes (a1 + 1) (offset - 1) else Some (Some (a1 + 1, offset - 1)))"
  by auto
termination
  by (relation "measure (\<lambda>(stack, old, a1, offset). nat (int (length stack) - a1))") (auto simp: byte_at_def split: if_splits)

declare skip_arg.simps [simp del]

text \<open>
  The second half of \<open>insert_arg\<close>, from the check of the new size on. The comparison with \<open>EXEC_MAX\<close> is unsigned.
\<close>

definition put_arg :: "bytes \<Rightarrow> 32 word \<Rightarrow> bytes \<Rightarrow> bool \<Rightarrow> int \<Rightarrow> int \<Rightarrow> int \<Rightarrow> (bool \<times> bytes \<times> 32 word) option" where
  "put_arg stack stk_bytes arg replace a0 a1 offset =
     (let old_bytes = sint stk_bytes; stk_bytes = stk_bytes + word_of_int offset
      in if stk_bytes > word_of_nat EXEC_MAX then Some (False, stack, stk_bytes)
         else do {
           stack \<leftarrow> bmove stack (a1 + offset) a1 (old_bytes - a1);
           stack \<leftarrow> bstrcpy stack a0 arg;
           stack \<leftarrow> (if replace then Some stack
             else do {
               stack \<leftarrow> bmove stack (2 * int PTRSIZE) (int PTRSIZE) (a0 - 2 * int PTRSIZE);
               n \<leftarrow> ptr_at stack 0;
               set_ptr stack 0 (n + 1)
             });
           stack \<leftarrow> patch_ptr stack (word_of_int offset);
           stack \<leftarrow> set_ptr stack PTRSIZE (word_of_int a0);
           Some (True, stack, stk_bytes)
         })"

text \<open>
  \<open>4 * PTRSIZE\<close> has the unsigned type of \<open>sizeof\<close>, so that the first comparison is unsigned; the second one is between two \<open>int\<close>s.
\<close>

definition insert_arg :: "bytes \<Rightarrow> 32 word \<Rightarrow> bytes \<Rightarrow> bool \<Rightarrow> (bool \<times> bytes \<times> 32 word) option" where
  "insert_arg stack stk_bytes arg replace =
     do {
       len \<leftarrow> bstrlen arg;
       w \<leftarrow> ptr_at stack PTRSIZE;
       let old_bytes = sint stk_bytes;
       let a0 = sint w;
       let offset = len + 1;
       if w < word_of_nat (4 * PTRSIZE) \<or> a0 \<ge> old_bytes then Some (False, stack, stk_bytes)
       else if replace then
         do {
           r \<leftarrow> skip_arg stack old_bytes a0 offset;
           case r of None \<Rightarrow> Some (False, stack, stk_bytes) | Some (a1, offset) \<Rightarrow> put_arg stack stk_bytes arg True a0 a1 offset
         }
       else put_arg stack stk_bytes arg False (a0 + int PTRSIZE) a0 (offset + int PTRSIZE)
     }"

definition blank_char :: "8 word \<Rightarrow> bool" where
  "blank_char c \<longleftrightarrow> c = 0x20 \<or> c = 0x09"

text \<open>The two inner loops of \<open>patch_stack\<close>: \<open>sp\<close> moves back over blanks, then over a word.\<close>

fun back_blanks :: "bytes \<Rightarrow> nat \<Rightarrow> nat" where
  "back_blanks script 0 = 0"
| "back_blanks script (Suc sp) = (if blank_char (script ! sp) then back_blanks script sp else sp)"

fun back_word :: "bytes \<Rightarrow> nat \<Rightarrow> nat" where
  "back_word script 0 = 0"
| "back_word script (Suc sp) = (if blank_char (script ! sp) then Suc sp else back_word script sp)"

lemma back_le: "back_word script sp \<le> sp" "back_blanks script sp \<le> sp" "0 < sp \<Longrightarrow> back_blanks script sp < sp"
proof -
  show "back_word script sp \<le> sp" by (induction sp) auto
  show l: "back_blanks script sp \<le> sp" for sp by (induction sp) auto
  show "0 < sp \<Longrightarrow> back_blanks script sp < sp" using l by (cases sp) (auto simp: le_imp_less_Suc)
qed

definition round_ptr :: "32 word \<Rightarrow> 32 word" where
  "round_ptr n = (n + word_of_nat PTRSIZE - 1) div word_of_nat PTRSIZE * word_of_nat PTRSIZE"

text \<open>The outer loop. The result is \<open>None\<close> for a fault, otherwise the interpreter (\<open>None\<close> for \<open>NULL\<close>) with the two buffers and the size.\<close>

function patch_words :: "nat \<Rightarrow> nat option \<Rightarrow> bytes \<Rightarrow> bytes \<Rightarrow> 32 word \<Rightarrow> (nat option \<times> bytes \<times> bytes \<times> 32 word) option" where
  "patch_words sp interp script stack stk_bytes =
     (let sp = back_blanks script sp
      in if sp = 0 then Some (interp, script, stack, round_ptr stk_bytes)
         else if length script \<le> sp + 1 then None
         else
           (let script = script[sp + 1 := 0]; sp = back_word script sp
            in case insert_arg stack stk_bytes (drop sp script) False of
                 None \<Rightarrow> None
               | Some (ok, stack, stk_bytes) \<Rightarrow>
                   if ok then patch_words sp (Some sp) script stack stk_bytes else Some (None, script, stack, stk_bytes)))"
  by auto
termination
proof (relation "measure fst", goal_cases)
  case (2 sp interp script stack stk_bytes x xa xb)
  then show ?case using back_le(1) [of xa "back_blanks script sp"] back_le(3) [of sp script] by (cases sp) auto
qed simp

declare patch_words.simps [simp del]

fun bfind :: "8 word \<Rightarrow> bytes \<Rightarrow> nat option" where
  "bfind c [] = None"
| "bfind c (x # xs) = (if x = c then Some 0 else map_option Suc (bfind c xs))"

text \<open>\<open>line\<close> is what the file holds behind \<open>#!\<close>, as far as \<open>read\<close> gives it (\<open>None\<close> for an error).\<close>

definition patch_stack :: "bytes option \<Rightarrow> bytes \<Rightarrow> 32 word \<Rightarrow> bytes \<Rightarrow> (nat option \<times> bytes \<times> bytes \<times> 32 word) option" where
  "patch_stack line stack stk_bytes script =
     (case insert_arg stack stk_bytes script True of
        None \<Rightarrow> None
      | Some (ok, stack, stk_bytes) \<Rightarrow>
          if \<not> ok then Some (None, script, stack, stk_bytes)
          else case line of
            None \<Rightarrow> Some (None, script, stack, stk_bytes)
          | Some data \<Rightarrow>
              do {
                script \<leftarrow> blit script 0 data;
                case bfind 0x0A data of
                  None \<Rightarrow> Some (None, script, stack, stk_bytes)
                | Some sp \<Rightarrow> patch_words sp None script stack stk_bytes
              })"

end
