(* ===== verification/Pmmisc.thy ===== *)
theory Pmmisc
  imports Pmcalls Pmstack "HOL-Library.Signed_Division"
begin

text \<open>
  The calls of the process manager for the time (\<open>time.c\<close>), and those of \<open>misc.c\<close> that inform, reboot and keep parameters:
  \<open>getsysinfo\<close>, \<open>getprocnr\<close>, \<open>reboot\<close> and \<open>svrctl\<close>, with \<open>find_param\<close> of \<open>utility.c\<close>.
\<close>

section \<open>Time\<close>

definition FS_STIME :: int where "FS_STIME = 25"

text \<open>\<open>clock_t\<close> and \<open>time_t\<close> are \<open>long\<close>: the division is the signed one that rounds towards 0, the sum wraps around.\<close>

definition do_time :: "env \<Rightarrow> int act" where
  "do_time e s =
     (let (a, s) = ask e GetUptime s
      in if a_res a \<noteq> 0 then Stop Halted s
         else Ret 0 (set_slot (cur s) (\<lambda>p. p\<lparr>mp_reply := (mp_reply p)
           \<lparr>m_w3 := boottime s + word_of_int (sint (a_1 a) sdiv 60), m_w4 := word_of_int (((sint (a_1 a) smod 60) * 1000000) sdiv 60)\<rparr>\<rparr>) s))"

definition do_stime :: "env \<Rightarrow> int act" where
  "do_stime e s =
     (if mp_effuid (slot (cur s) s) \<noteq> 0 then Ret EPERM s
      else
        (let (a, s) = ask e GetUptime s
         in if a_res a \<noteq> 0 then Stop Halted s
            else (let s = s\<lparr>boottime := m_w3 (m_in s) - word_of_int (sint (a_1 a) sdiv 60)\<rparr>
                  in Ret 0 (tell_fs e FS_STIME (sint (boottime s)) 0 0 s))))"

definition do_times :: "env \<Rightarrow> int act" where
  "do_times e s =
     (let (a, s) = ask e (SysTimes (who s)) s
      in if a_res a \<noteq> 0 then Stop Halted s
         else Ret 0 (set_slot (cur s) (\<lambda>p. p\<lparr>mp_reply := (mp_reply p)
           \<lparr>m_w0 := a_1 a, m_w1 := a_2 a, m_w2 := mp_child_utime p, m_w3 := mp_child_stime p, m_w4 := a_3 a\<rparr>\<rparr>) s))"

section \<open>Information\<close>

definition PROC_NAME_LEN :: nat where "PROC_NAME_LEN = 16"

definition do_getsysinfo :: "env \<Rightarrow> int act" where
  "do_getsysinfo e s =
     (if m1_i1 (m_in s) \<in> {0, 1, 2}
      then (let (a, s) = ask e (CopyInfo (m1_i1 (m_in s)) (who s) (m_w3 (m_in s))) s in Ret (a_res a) s)
      else Ret EINVAL s)"

text \<open>\<open>strncmp(s, t, n) == 0\<close>: the strings agree up to the first null byte or the length \<open>n\<close>.\<close>

fun same_upto :: "bytes \<Rightarrow> bytes \<Rightarrow> nat \<Rightarrow> bool" where
  "same_upto x y 0 = True"
| "same_upto (a # x) (b # y) (Suc n) = (a = b \<and> (a = 0 \<or> same_upto x y n))"
| "same_upto _ _ (Suc n) = False"

definition reply_procnr :: "int \<Rightarrow> pmst \<Rightarrow> pmst" where
  "reply_procnr n s = set_slot (cur s) (\<lambda>p. p\<lparr>mp_reply := (mp_reply p)\<lparr>m_w0 := word_of_int n\<rparr>\<rparr>) s"

definition do_getprocnr :: "env \<Rightarrow> int act" where
  "do_getprocnr e s =
     (let pid = m1_i1 (m_in s); namelen = m1_i2 (m_in s)
      in if pid \<ge> 0 then
           (case first_slot (\<lambda>_ p. in_use p \<and> mp_pid p = pid) all_slots s of
              Some r \<Rightarrow> Ret 0 (reply_procnr (int r) s)
            | None \<Rightarrow> Ret ESRCH s)
         else if namelen > 0 then
           (let key_len = min (nat namelen) PROC_NAME_LEN;
                (a, s) = ask e (CopyIn (who s) (m_w3 (m_in s)) (word_of_nat key_len)) s
            in if a_res a \<noteq> 0 then Ret (a_res a) s
               else
                 (let search_key = take key_len (a_data a) @ [0]
                  in case first_slot (\<lambda>_ p. in_use p \<and> same_upto (mp_name p) search_key key_len) all_slots s of
                       Some r \<Rightarrow> Ret 0 (reply_procnr (int r) s)
                     | None \<Rightarrow> Ret ESRCH s))
         else Ret 0 (reply_procnr (int (who s)) s))"

section \<open>Reboot\<close>

definition FS_REBOOT :: int where "FS_REBOOT = 76"
definition RBT_MONITOR :: int where "RBT_MONITOR = 3"

text \<open>
  The first half of \<open>do_reboot\<close>: the flag for the kernel, or the error. \<open>code_len\<close> is compared with the unsigned size of the buffer, so
  that a negative one is too long; but it may be 0, and then the byte before the buffer is read, which is the outcome \<open>Fault\<close>.
\<close>

definition reboot_flag :: "env \<Rightarrow> (int + int) act" where
  "reboot_flag e s =
     (let flag = m1_i1 (m_in s)
      in if flag \<in> {0, 2, 4} then Ret (Inr flag) s
         else if flag = 1 then Ret (Inr RBT_MONITOR) s
         else if flag = RBT_MONITOR then
           (let code_len = m_w1 (m_in s) + 1
            in if code_len > 128 then Ret (Inl EINVAL) s
               else
                 (let (a, s) = ask e (CopyIn (who s) (m_w3 (m_in s)) code_len) s
                  in if a_res a \<noteq> 0 then Ret (Inl PM_EFAULT) s
                     else if code_len = 0 then Stop Fault s
                     else if byte_at (a_data a) (uint code_len - 1) \<noteq> Some 0 then Ret (Inl EINVAL) s
                     else Ret (Inr RBT_MONITOR) s))
         else Ret (Inl EINVAL) s)"

definition do_reboot :: "env \<Rightarrow> int act" where
  "do_reboot e s =
     (if mp_effuid (slot (cur s) s) \<noteq> 0 then Ret EPERM s
      else bnd (reboot_flag e s) (\<lambda>r s.
        case r of
          Inl err \<Rightarrow> Ret err s
        | Inr flag \<Rightarrow>
            bnd (check_sig e (- 1) (int SIGKILL) s) (\<lambda>_ s.
            Ret SUSPEND (snd (ask e (SysAbort flag) (tell_fs e FS_REBOOT 0 0 0 s))))))"

section \<open>Parameters\<close>

text \<open>
  \<open>find_param\<close>: the boot monitor's parameters are strings \<open>name=value\<close>, each ended by a null byte, and an empty string behind the last
  one. The result is the rest of the buffer behind the \<open>=\<close>; the outer \<open>None\<close> is an access outside of the buffer. The inner loop
  compares the name with the entry, \<open>skip_entry\<close> moves to the next entry.
\<close>

fun match_name :: "bytes \<Rightarrow> bytes \<Rightarrow> (bytes \<times> bytes) option" where
  "match_name (n # name) (c # env) = (if n \<noteq> 0 \<and> n = c then match_name name env else Some (n # name, c # env))"
| "match_name _ _ = None"

fun skip_entry :: "bytes \<Rightarrow> bytes option" where
  "skip_entry [] = None"
| "skip_entry (c # env) = (if c = 0 then Some env else skip_entry env)"

lemma skip_entry_shorter: "skip_entry env = Some rest \<Longrightarrow> length rest < length env"
  by (induction env) (auto split: if_splits)

lemma match_name_shorter: "match_name name env = Some (name', env') \<Longrightarrow> length env' \<le> length env"
  by (induction name env rule: match_name.induct) (auto split: if_splits)

function find_param :: "bytes \<Rightarrow> bytes \<Rightarrow> bytes option option" where
  "find_param name env =
     (case env of
        [] \<Rightarrow> None
      | c # _ \<Rightarrow>
          if c = 0 then Some None
          else case match_name name env of
            None \<Rightarrow> None
          | Some (name', env') \<Rightarrow>
              if hd name' = 0 \<and> hd env' = 0x3D then Some (Some (tl env'))
              else case skip_entry env' of None \<Rightarrow> None | Some rest \<Rightarrow> find_param name rest)"
  by auto
termination
proof (relation "measure (\<lambda>(name, env). length env)", goal_cases)
  case (2 name env a b c d f g)
  then show ?case using match_name_shorter [of name env] skip_entry_shorter by (fastforce split: prod.splits)
qed simp

declare find_param.simps [simp del]

definition MMGETPARAM :: "32 word" where "MMGETPARAM = 0x40104D05"
definition MMSETPARAM :: "32 word" where "MMSETPARAM = 0x80104D07"
definition MAX_LOCAL_PARAMS :: nat where "MAX_LOCAL_PARAMS = 2"

text \<open>The structure of a request: the addresses and lengths of the name and of the value.\<close>

record sysgetenv =
  key :: "32 word"
  keylen :: "32 word"
  val :: "32 word"
  vallen :: "32 word"

definition sysgetenv_of :: "bytes \<Rightarrow> sysgetenv" where
  "sysgetenv_of b = \<lparr>key = word4 (take 4 b), keylen = word4 (take 4 (drop 4 b)), val = word4 (take 4 (drop 8 b)), vallen = word4 (take 4 (drop 12 b))\<rparr>"

definition set_param :: "env \<Rightarrow> sysgetenv \<Rightarrow> int act" where
  "set_param e g s =
     (if local_params s \<ge> MAX_LOCAL_PARAMS then Ret ENOSPC s
      else if keylen g = 0 \<or> keylen g \<ge> 30 \<or> vallen g = 0 \<or> vallen g \<ge> 30 then Ret EINVAL s
      else
        (let i = local_params s; (a, s) = ask e (CopyIn (who s) (key g) (keylen g)) s
         in if a_res a \<noteq> 0 then Ret (a_res a) s
            else
              (let (n, v) = param_overrides s ! i;
                   n = copy_in (unat (keylen g)) (a_data a) n;
                   s = s\<lparr>param_overrides := (param_overrides s)[i := (n, v)]\<rparr>;
                   (b, s) = ask e (CopyIn (who s) (val g) (keylen g)) s
               in if a_res b \<noteq> 0 then Ret (a_res b) s
                  else
                    (let v = copy_in (unat (keylen g)) (a_data b) v
                     in Ret 0 (s\<lparr>param_overrides := (param_overrides s)[i := (n[unat (keylen g) := 0], v[unat (vallen g) := 0])],
                                 local_params := i + 1\<rparr>)))))"

text \<open>The value of a name: an override, or a parameter of the boot monitor; \<open>None\<close> is a fault, the inner \<open>None\<close> an unknown name.\<close>

definition lookup_param :: "bytes \<Rightarrow> pmst \<Rightarrow> bytes option option" where
  "lookup_param name s =
     (case find (\<lambda>(n, _). bstr n = bstr name) (take (local_params s) (param_overrides s)) of
        Some (_, v) \<Rightarrow> Some (Some v)
      | None \<Rightarrow> find_param name (monitor_params s))"

definition give_param :: "env \<Rightarrow> sysgetenv \<Rightarrow> bytes \<Rightarrow> int act" where
  "give_param e g x s =
     (if word_of_nat (length x) > vallen g then Ret E2BIG s
      else (let (a, s) = ask e (CopyOut (who s) (val g) x) s in Ret (a_res a) s))"

definition get_param :: "env \<Rightarrow> sysgetenv \<Rightarrow> int act" where
  "get_param e g s =
     (if keylen g = 0 then give_param e g (monitor_params s) s
      else if keylen g > 64 then Ret EINVAL s
      else
        (let (a, s) = ask e (CopyIn (who s) (key g) (keylen g)) s
         in if a_res a \<noteq> 0 then Ret (a_res a) s
            else
              case lookup_param (take (unat (keylen g) - 1) (a_data a) @ [0]) s of
                None \<Rightarrow> Stop Fault s
              | Some None \<Rightarrow> Ret ESRCH s
              | Some (Some x) \<Rightarrow> if 0 \<notin> set x then Stop Fault s else give_param e g (bstr x @ [0]) s))"

definition do_svrctl :: "env \<Rightarrow> int act" where
  "do_svrctl e s =
     (let req = m_w0 (m_in s)
      in if drop_bit 8 req AND 0xFF \<noteq> 0x4D then Ret EINVAL s
         else if req = MMSETPARAM \<or> req = MMGETPARAM then
           (let (a, s) = ask e (CopyIn (who s) (m_w5 (m_in s)) 16) s; g = sysgetenv_of (a_data a)
            in if a_res a \<noteq> 0 then Ret PM_EFAULT s
               else if req = MMSETPARAM then set_param e g s else get_param e g s)
         else Ret EINVAL s)"

end
