(* ===== verification/Pmexec.thy ===== *)
theory Pmexec
  imports Pmmisc
begin

text \<open>
  The \<open>exec\<close> call: \<open>do_exec\<close>, \<open>read_header\<close>, \<open>new_mem\<close> and \<open>rw_seg\<close> of \<open>exec.c\<close>, \<open>allowed\<close> of \<open>utility.c\<close>. \<open>do_exec\<close> is split at
  the comment about sharing the text: \<open>exec_prepare\<close> fetches the name and the argument stack and looks at the file, and at the interpreter if
  it is a script; \<open>exec_image\<close> replaces the core image. The buffers \<open>mbuf\<close> and \<open>name_buf\<close> are static in the source and so
  part of the state.
\<close>

section \<open>Constants\<close>

definition ESCRIPT :: int where "ESCRIPT = -2000"
definition A_MINHDR :: nat where "A_MINHDR = 32"
definition A_NSYM :: "8 word" where "A_NSYM = 0x04"
definition A_EXEC :: "8 word" where "A_EXEC = 0x10"
definition A_SEP :: "8 word" where "A_SEP = 0x20"
definition A_I80386 :: "8 word" where "A_I80386 = 0x10"
definition I_TYPE :: "16 word" where "I_TYPE = 0xF000"
definition I_REGULAR :: "16 word" where "I_REGULAR = 0x8000"
definition I_SET_UID_BIT :: "16 word" where "I_SET_UID_BIT = 0x800"
definition I_SET_GID_BIT :: "16 word" where "I_SET_GID_BIT = 0x400"
definition FS_EXEC :: int where "FS_EXEC = 59"

definition clicks_of :: "32 word \<Rightarrow> 32 word" where
  "clicks_of n = drop_bit PM_CLICK_SHIFT (n + 1024 - 1)"

section \<open>The file\<close>

text \<open>
  \<open>allowed\<close> with the mask \<open>X_BIT\<close>: the descriptor of the open file with its status, or a negative error code. A request that
  fails leaves \<open>errno\<close> in \<open>a_2\<close>.
\<close>

definition allowed :: "env \<Rightarrow> bytes \<Rightarrow> (int \<times> fstat) act" where
  "allowed e name s =
     (let (a, s) = ask e (Access name) s
      in if a_res a < 0 then Ret (- sint (a_2 a), a_stat a) s
         else
           (let s = tell_fs e FS_SETUID (int PM_PROC_NR) 0 0 s;
                (b, s) = ask e (OpenFile name) s;
                s = tell_fs e FS_SETUID (int PM_PROC_NR) (sint (mp_effuid (slot (cur s) s))) (sint (mp_effuid (slot (cur s) s))) s
            in if a_res b < 0 then Ret (- sint (a_2 b), a_stat b) s
               else
                 (let (c, s) = ask e (Fstat (a_res b)) s
                  in if a_res c < 0 then Stop Halted s
                     else if st_mode (a_stat c) AND I_TYPE \<noteq> I_REGULAR
                     then Ret (EACCES, a_stat c) (snd (ask e (CloseFile (a_res b)) s))
                     else Ret (a_res b, a_stat c) s)))"

text \<open>What \<open>read_header\<close> returns through its pointers.\<close>

record header =
  h_sep :: bool
  h_text :: "32 word"
  h_data :: "32 word"
  h_bss :: "32 word"
  h_tot :: "32 word"
  h_syms :: "32 word"
  h_pc :: "32 word"

definition hdr_byte :: "bytes \<Rightarrow> nat \<Rightarrow> 8 word" where
  "hdr_byte b i = (if i < length b then b ! i else 0)"

definition hdr_long :: "bytes \<Rightarrow> nat \<Rightarrow> 32 word" where
  "hdr_long b i = word4 (take 4 (drop i b))"

text \<open>The sizes: without separate instruction and data space the text counts as data.\<close>

definition header_of :: "bytes \<Rightarrow> header" where
  "header_of b =
     (let sep = hdr_byte b 2 AND A_SEP \<noteq> 0; text = hdr_long b 8; data = hdr_long b 12
      in \<lparr>h_sep = sep, h_text = (if sep then text else 0), h_data = (if sep then data else data + text), h_bss = hdr_long b 16,
          h_tot = hdr_long b 24, h_syms = hdr_long b 28, h_pc = hdr_long b 20\<rparr>)"

definition bad_header :: "bytes \<Rightarrow> bool" where
  "bad_header b \<longleftrightarrow> hdr_byte b 0 \<noteq> 0x01 \<or> hdr_byte b 1 \<noteq> 0x03 \<or> hdr_byte b 3 \<noteq> A_I80386 \<or>
     hdr_byte b 2 AND NOT (A_NSYM OR A_EXEC OR A_SEP) \<noteq> 0"

text \<open>The check of the sizes against the stack of \<open>sc\<close> clicks.\<close>

definition check_sizes :: "header \<Rightarrow> 32 word \<Rightarrow> int" where
  "check_sizes h sc =
     (let tc = clicks_of (h_text h); dc = clicks_of (h_data h + h_bss h); totc = clicks_of (h_tot h);
          dvir = (if h_sep h then 0 else tc); s_vir = dvir + (totc - sc)
      in if h_tot h = 0 \<or> dc \<ge> totc then ENOEXEC else if dvir + dc > s_vir then ENOMEM else 0)"

definition read_header :: "env \<Rightarrow> int \<Rightarrow> 32 word \<Rightarrow> (int \<times> header) act" where
  "read_header e fd sc s =
     (let (a, s) = ask e (ReadFile fd A_MINHDR) s; b = take A_MINHDR (a_data a); h = header_of b
      in if a_res a < 2 then Ret (ENOEXEC, h) s
         else if hdr_byte b 0 = 0x23 \<and> hdr_byte b 1 = 0x21 then Ret (ESCRIPT, h) s
         else if a_res a \<noteq> int A_MINHDR \<or> bad_header b then Ret (ENOEXEC, h) s
         else if check_sizes h sc = ENOEXEC then Ret (ENOEXEC, h) s
         else
           (let ct = hdr_byte b 4
            in Ret (check_sizes h sc, h) (if ct > word_of_nat A_MINHDR then snd (ask e (Lseek fd (ucast ct) 0) s) else s)))"

section \<open>Preparation\<close>

record exec_img =
  im_fd :: int
  im_hdr :: header
  im_file :: fstat
  im_first :: fstat
  im_name :: nat
  im_stk :: "32 word"

text \<open>The input of \<open>patch_stack\<close>: its first line is only read once the name of the script is in the stack.\<close>

definition read_line :: "env \<Rightarrow> int \<Rightarrow> 32 word \<Rightarrow> pmst \<Rightarrow> bytes option \<times> pmst" where
  "read_line e fd stk s =
     (case insert_arg (mbuf s) stk (name_buf s) True of
        Some (True, _, _) \<Rightarrow>
          (let (a, s) = ask e (Lseek fd 2 0) s
           in if a_res a = - 1 then (None, s)
              else (let (b, s) = ask e (ReadFile fd PATH_MAX) s
                    in (if a_res b < 0 then None else Some (take (nat (a_res b)) (a_data b)), s)))
      | _ \<Rightarrow> (None, s))"

text \<open>One round of the loop: the name starts at \<open>off\<close> in \<open>name_buf\<close>. The result is an error of \<open>allowed\<close>, or the file and \<open>m\<close>.\<close>

definition exec_try :: "env \<Rightarrow> nat \<Rightarrow> 32 word \<Rightarrow> (int + int \<times> fstat \<times> int \<times> header) act" where
  "exec_try e off stk s =
     (let s = tell_fs e FS_CHDIR (int (who s)) 0 0 s; name = drop off (name_buf s)
      in if 0 \<notin> set name then Stop Fault s
         else bnd (allowed e (bstr name) s) (\<lambda>(fd, st) s.
           if fd < 0 then Ret (Inl fd) s
           else bnd (read_header e fd (clicks_of stk) s) (\<lambda>(m, h) s. Ret (Inr (fd, st, m, h)) s)))"

definition no_exec :: "env \<Rightarrow> int \<Rightarrow> 32 word \<Rightarrow> (int + exec_img) act" where
  "no_exec e fd stk s = Ret (Inl (if stk > word_of_nat EXEC_MAX then ENOMEM else ENOEXEC)) (snd (ask e (CloseFile fd) s))"

text \<open>The second round, for the interpreter of a script.\<close>

definition exec_script :: "env \<Rightarrow> int \<Rightarrow> fstat \<Rightarrow> 32 word \<Rightarrow> (int + exec_img) act" where
  "exec_script e fd st stk s =
     (let (line, s) = read_line e fd stk s
      in case patch_stack line (mbuf s) stk (name_buf s) of
           None \<Rightarrow> Stop Fault s
         | Some (interp, script, stack, stk) \<Rightarrow>
             (let s = s\<lparr>mbuf := stack, name_buf := script\<rparr>
              in case interp of
                   None \<Rightarrow> no_exec e fd stk s
                 | Some off \<Rightarrow>
                     bnd (exec_try e off stk (snd (ask e (CloseFile fd) s))) (\<lambda>r s.
                       case r of
                         Inl err \<Rightarrow> Ret (Inl err) s
                       | Inr (fd, st1, m, h) \<Rightarrow>
                           if m < 0 then no_exec e fd stk s
                           else Ret (Inr \<lparr>im_fd = fd, im_hdr = h, im_file = st1, im_first = st, im_name = off, im_stk = stk\<rparr>) s)))"

definition exec_find :: "env \<Rightarrow> 32 word \<Rightarrow> (int + exec_img) act" where
  "exec_find e stk s =
     bnd (exec_try e 0 stk s) (\<lambda>r s.
       case r of
         Inl err \<Rightarrow> Ret (Inl err) s
       | Inr (fd, st, m, h) \<Rightarrow>
           if m = ESCRIPT then exec_script e fd st stk s
           else if m < 0 then no_exec e fd stk s
           else Ret (Inr \<lparr>im_fd = fd, im_hdr = h, im_file = st, im_first = st, im_name = 0, im_stk = stk\<rparr>) s)"

definition exec_prepare :: "env \<Rightarrow> (int + exec_img) act" where
  "exec_prepare e s =
     (let stk = m_w1 (m_in s); len = m1_i1 (m_in s)
      in if stk > word_of_nat EXEC_MAX then Ret (Inl ENOMEM) s
         else if len \<le> 0 \<or> len > int PATH_MAX then Ret (Inl EINVAL) s
         else
           (let (a, s) = ask e (CopyIn (who s) (m_w3 (m_in s)) (m_w0 (m_in s))) s
            in if a_res a \<noteq> 0 then Ret (Inl (a_res a)) s
               else
                 (let s = s\<lparr>name_buf := copy_in (nat len) (a_data a) (name_buf s)\<rparr>;
                      (b, s) = ask e (CopyIn (who s) (m_w4 (m_in s)) stk) s
                  in if a_res b \<noteq> 0 then Ret (Inl EACCES) s
                     else exec_find e stk (s\<lparr>mbuf := copy_in (unat stk) (a_data b) (mbuf s)\<rparr>))))"

section \<open>New core image\<close>

text \<open>The sizes of the parts in clicks.\<close>

definition text_clicks :: "nat option \<Rightarrow> header \<Rightarrow> 32 word" where
  "text_clicks sh h = clicks_of (if sh = None then h_text h else 0)"

definition gap_clicks :: "header \<Rightarrow> 32 word \<Rightarrow> 32 word" where
  "gap_clicks h stk = clicks_of (h_tot h) - clicks_of (h_data h + h_bss h) - clicks_of stk"

text \<open>The map of a process with the memory at \<open>base\<close>, sharing the text of the process in the slot \<open>sh\<close>.\<close>

definition new_map :: "nat option \<Rightarrow> header \<Rightarrow> 32 word \<Rightarrow> 32 word \<Rightarrow> pmst \<Rightarrow> pmproc \<Rightarrow> pmproc" where
  "new_map sh h stk base s p =
     (let D = \<lparr>mem_vir = 0, mem_phys = base + text_clicks sh h, mem_len = clicks_of (h_data h + h_bss h)\<rparr>;
          S = \<lparr>mem_vir = mem_len D + gap_clicks h stk, mem_phys = mem_phys D + mem_len D + gap_clicks h stk, mem_len = clicks_of stk\<rparr>
      in p\<lparr>mp_seg_T := (case sh of Some q \<Rightarrow> mp_seg_T (slot q s) | None \<Rightarrow> \<lparr>mem_vir = 0, mem_phys = base, mem_len = text_clicks sh h\<rparr>),
           mp_seg_D := D, mp_seg_S := S\<rparr>)"

text \<open>The physical memory that is cleared: its address and size in bytes.\<close>

definition zero_base :: "nat option \<Rightarrow> header \<Rightarrow> 32 word \<Rightarrow> 32 word" where
  "zero_base sh h base = push_bit PM_CLICK_SHIFT (base + text_clicks sh h) + push_bit PM_CLICK_SHIFT (drop_bit PM_CLICK_SHIFT (h_data h))"

definition zero_bytes :: "header \<Rightarrow> 32 word \<Rightarrow> 32 word" where
  "zero_bytes h stk = push_bit PM_CLICK_SHIFT (clicks_of (h_data h + h_bss h) + gap_clicks h stk + clicks_of stk)
     - push_bit PM_CLICK_SHIFT (drop_bit PM_CLICK_SHIFT (h_data h))"

text \<open>\<open>new_mem\<close>. The old image is freed by the same statements as in \<open>pm_exit\<close>.\<close>

definition new_mem :: "env \<Rightarrow> nat option \<Rightarrow> header \<Rightarrow> 32 word \<Rightarrow> int act" where
  "new_mem e sh h stk s =
     (let r = cur s; s = set_slot r (raise_flag WAITING) s
      in if sint (gap_clicks h stk) < 0 then Ret ENOMEM s
         else bnd (on_holes (alloc_mem (text_clicks sh h + clicks_of (h_tot h))) s) (\<lambda>base s.
           if base = NO_MEM then Ret ENOMEM s
           else bnd (release_memory r s) (\<lambda>_ s.
             let s = set_slot r (new_map sh h stk base s) s;
                 (_, s) = ask e (SysNewmap (who s) (mp_seg_T (slot r s)) (mp_seg_D (slot r s)) (mp_seg_S (slot r s))) s;
                 s = set_slot r (drop_flag (WAITING OR ONSWAP OR SWAPIN)) s;
                 (a, s) = ask e (SysMemset (zero_base sh h base) (zero_bytes h stk)) s
             in if a_res a \<noteq> 0 then Stop Halted s else Ret 0 s)))"

definition CHUNK_MAX :: "32 word" where "CHUNK_MAX = (0x7FFFFFFF div 8192) * 8192"

text \<open>\<open>rw_seg\<close>: the loop ends when everything is transferred or the file server transfers less than it was asked for.\<close>

function rw_seg :: "env \<Rightarrow> bool \<Rightarrow> int \<Rightarrow> 32 word \<Rightarrow> 32 word \<Rightarrow> pmst \<Rightarrow> pmst" where
  "rw_seg e rw new_fd ubuf seg_bytes s =
     (if seg_bytes = 0 then s
      else
        (let n = min CHUNK_MAX seg_bytes; (a, s) = ask e (RwSeg rw new_fd ubuf n) s
         in if a_res a \<noteq> uint n then s else rw_seg e rw new_fd (ubuf + n) (seg_bytes - n) s))"
  by auto
termination
proof (relation "measure (\<lambda>(e, rw, fd, ubuf, n, s). unat n)", goal_cases)
  case (2 e rw new_fd ubuf seg_bytes s n p a t)
  have "0 < min CHUNK_MAX seg_bytes" "min CHUNK_MAX seg_bytes \<le> seg_bytes" using 2(1) by (simp_all add: CHUNK_MAX_def word_gt_0 min_def)
  then have "unat (seg_bytes - min CHUNK_MAX seg_bytes) < unat seg_bytes"
    using unat_sub [of "min CHUNK_MAX seg_bytes" seg_bytes] unfolding word_less_nat_alt word_le_nat_alt unat_0 by linarith
  then show ?case using 2(2) by simp
qed simp

declare rw_seg.simps [simp del]

text \<open>The descriptor that tells the file server to copy to or from a segment (0 for text, 1 for data) of a process.\<close>

definition seg_fd :: "nat \<Rightarrow> int \<Rightarrow> int \<Rightarrow> int" where
  "seg_fd proc sg fd = (push_bit 7 (int proc) OR push_bit 5 sg) OR fd"

section \<open>Replacing the image\<close>

text \<open>Ids of a set-uid or set-gid file; for a script they come from the script, not from the interpreter.\<close>

definition set_ids :: "env \<Rightarrow> fstat \<Rightarrow> pmst \<Rightarrow> pmst" where
  "set_ids e st s =
     (let r = cur s
      in if has (slot r s) TRACED then s
         else
           (let s = (if st_mode st AND I_SET_UID_BIT \<noteq> 0
                     then (let s = set_slot r (\<lambda>p. p\<lparr>mp_effuid := st_uid st\<rparr>) s
                           in tell_fs e FS_SETUID (int (who s)) (sint (mp_realuid (slot r s))) (sint (mp_effuid (slot r s))) s)
                     else s)
            in if st_mode st AND I_SET_GID_BIT \<noteq> 0
               then (let s = set_slot r (\<lambda>p. p\<lparr>mp_effgid := ucast (st_gid st)\<rparr>) s
                     in tell_fs e FS_SETGID (int (who s)) (sint (mp_realgid (slot r s))) (sint (mp_effgid (slot r s))) s)
               else s))"

definition reset_sig :: "nat \<Rightarrow> pmproc \<Rightarrow> pmproc" where
  "reset_sig n p =
     (if sigismember (mp_catch p) n
      then p\<lparr>mp_catch := sigdelset n (mp_catch p), mp_sigact := (mp_sigact p)[n := (mp_sigact p ! n)\<lparr>sa_handler := SIG_DFL, sa_mask := 0\<rparr>]\<rparr>
      else p)"

definition base_name :: "bytes \<Rightarrow> bytes" where
  "base_name name = rev (takeWhile (\<lambda>c. c \<noteq> 0x2F) (rev name))"

text \<open>
  \<open>strncpy(rmp->mp_name, basename, PROC_NAME_LEN-1)\<close>, and the null byte at the index \<open>PROC_NAME_LEN\<close>, which is not the last byte of the
  name but the one behind it: the low byte of the first member of the next slot, or a byte behind the table, which is the outcome \<open>Fault\<close>.
\<close>

definition short_name :: "bytes \<Rightarrow> bytes \<Rightarrow> bytes" where
  "short_name b old = take (PROC_NAME_LEN - 1) (b @ replicate (PROC_NAME_LEN - 1) 0) @ drop (PROC_NAME_LEN - 1) old"

definition end_name :: "nat \<Rightarrow> unit act" where
  "end_name r s =
     (if r + 1 < PM_NR_PROCS
      then Ret () (set_slot (r + 1) (\<lambda>p. p\<lparr>mp_seg_T := (mp_seg_T p)\<lparr>mem_vir := mem_vir (mp_seg_T p) AND NOT 0xFF\<rparr>\<rparr>) s)
      else Stop Fault s)"

text \<open>The part behind \<open>new_mem\<close> up to the closing of the file: the stack and the segments.\<close>

definition stack_top :: "32 word \<Rightarrow> pmproc \<Rightarrow> 32 word" where
  "stack_top stk p = push_bit PM_CLICK_SHIFT (mem_vir (mp_seg_S p)) + push_bit PM_CLICK_SHIFT (mem_len (mp_seg_S p)) - stk"

definition load_image :: "env \<Rightarrow> nat option \<Rightarrow> exec_img \<Rightarrow> unit act" where
  "load_image e sh im s =
     (let r = cur s; h = im_hdr im; st = im_file im;
          s = set_slot r (\<lambda>p. p\<lparr>mp_ino := st_ino st, mp_dev := st_dev st, mp_ctime := st_ctime st\<rparr>) s;
          vsp = stack_top (im_stk im) (slot r s)
      in case patch_ptr (mbuf s) vsp of
           None \<Rightarrow> Stop Fault s
         | Some b \<Rightarrow>
             (let (a, s) = ask e (CopyOut (who s) vsp (take (unat (im_stk im)) b)) (s\<lparr>mbuf := b\<rparr>)
              in if a_res a \<noteq> 0 then Stop Halted s
                 else
                   (let s = (case sh of
                               Some _ \<Rightarrow> snd (ask e (Lseek (im_fd im) (h_text h) 1) s)
                             | None \<Rightarrow> rw_seg e False (seg_fd (who s) 0 (im_fd im)) (push_bit PM_CLICK_SHIFT (mem_vir (mp_seg_T (slot (who s) s)))) (h_text h) s);
                        s = rw_seg e False (seg_fd (who s) 1 (im_fd im)) (push_bit PM_CLICK_SHIFT (mem_vir (mp_seg_D (slot (who s) s)))) (h_data h) s
                    in Ret () (snd (ask e (CloseFile (im_fd im)) s)))))"

definition start_image :: "env \<Rightarrow> exec_img \<Rightarrow> int act" where
  "start_image e im s =
     (let r = cur s; h = im_hdr im; vsp = stack_top (im_stk im) (slot r s);
          s = set_ids e (im_first im) s;
          s = set_slot r (\<lambda>p. fold reset_sig signals (p\<lparr>mp_procargs := vsp\<rparr>)) s;
          s = set_slot r (\<lambda>p. (if h_sep h then raise_flag SEPARATE else id) (drop_flag SEPARATE p)) s;
          s = tell_fs e FS_EXEC (int (who s)) 0 0 s;
          base = base_name (bstr (drop (im_name im) (name_buf s)))
      in bnd (end_name r (set_slot r (\<lambda>p. p\<lparr>mp_name := short_name base (mp_name p)\<rparr>) s)) (\<lambda>_ s.
         let (_, s) = ask e (SysExec (who s) vsp base (h_pc h)) s
         in bnd (if has (slot r s) TRACED then check_sig e (mp_pid (slot r s)) (int SIGTRAP) s else Ret 0 s) (\<lambda>_ s. Ret SUSPEND s)))"

definition exec_image :: "env \<Rightarrow> exec_img \<Rightarrow> int act" where
  "exec_image e im s =
     (let st = im_file im; sh = find_share (cur s) (st_ino st) (st_dev st) (st_ctime st) s
      in bnd (new_mem e sh (im_hdr im) (im_stk im) s) (\<lambda>v s.
         if v \<noteq> 0 then Ret v (snd (ask e (CloseFile (im_fd im)) s))
         else bnd (load_image e sh im s) (\<lambda>_ s. start_image e im s)))"

definition do_exec :: "env \<Rightarrow> int act" where
  "do_exec e s = bnd (exec_prepare e s) (\<lambda>r s. case r of Inl err \<Rightarrow> Ret err s | Inr im \<Rightarrow> exec_image e im s)"

end
