(* ===== verification/Pmrun.thy ===== *)
theory Pmrun
  imports Pmfork Pmexec
begin

text \<open>
  The main loop of the process manager as a step relation: a call, an alarm or a kernel signal is served and the pending replies
  are sent. Every call keeps the invariant, and it can only end in the panic of a system that has lost \<open>INIT\<close>, the
  reincarnation server or the process manager itself, or that has no entry left in the hole table.
\<close>

section \<open>Dispatch\<close>

text \<open>
  The table \<open>call_vec\<close>, and the calls of it that keep the invariant. Not among these are \<open>freemem\<close>, by which a process can give away
  memory it does not own; \<open>exec\<close>, which leaves the caller marked as waiting when it finds no memory; \<open>reboot\<close>, which can read before its
  buffer; and \<open>svrctl\<close>, which relies on the form of the parameters of the boot monitor.
\<close>

definition served :: "int list" where
  "served = [1, 2, 7, 11, 13, 17, 20, 23, 24, 25, 26, 27, 29, 37, 43, 46, 47, 62, 63, 71, 72, 73, 74, 75, 79, 80, 83, 88, 89, 90]"

definition call_vec :: "env \<Rightarrow> int \<Rightarrow> int act" where
  "call_vec e n =
     (if n = 1 then do_pm_exit e else if n = 2 then do_fork e else if n = 7 \<or> n = 11 then do_waitpid else if n = 17 then do_brk e
      else if n = 20 then do_getset e GETPID else if n = 23 then do_getset e SETUID else if n = 24 then do_getset e GETUID
      else if n = 26 then do_trace e else if n = 27 then do_alarm e else if n = 29 then do_pause else if n = 37 then do_kill e
      else if n = 46 then do_getset e SETGID else if n = 47 then do_getset e GETGID else if n = 62 then do_getset e SETSID
      else if n = 63 then do_getset e GETPGRP else if n = 71 then do_sigaction e else if n = 72 then do_sigsuspend e
      else if n = 73 then do_sigpending else if n = 74 then do_sigprocmask e else if n = 75 then do_sigreturn e
      else if n = 83 then do_allocmem else if n = 84 then do_freemem else if n = 88 \<or> n = 89 then do_getsetpriority e
      else if n = 13 \<or> n = 90 then do_time e else if n = 25 then do_stime e else if n = 43 then do_times e else if n = 59 then do_exec e
      else if n = 76 then do_reboot e else if n = 77 then do_svrctl e else if n = 79 then do_getsysinfo e else if n = 80 then do_getprocnr e
      else Ret ENOSYS)"

definition get_work :: "nat \<Rightarrow> int \<Rightarrow> pmess \<Rightarrow> pmst \<Rightarrow> pmst" where
  "get_work src n m s = s\<lparr>who := src, cur := src, call_nr := n, m_in := m\<rparr>"

text \<open>
  The three kinds of message: a call of a live process, one of those in \<open>served\<close>, the alarm that lets a timer expire, and the report of a kernel signal.
  The kernel delivers messages of live processes only, and of kernel signals only to a process manager that runs.
\<close>

inductive pm_step :: "env \<Rightarrow> pmst \<Rightarrow> pmst \<Rightarrow> bool" for e where
  call: "p \<in> lives (vw s) \<Longrightarrow> n \<in> set served \<Longrightarrow> call_vec e n (get_work p n m s) = Ret v t \<Longrightarrow> pm_step e s (snd (finish_call v t))"
| alarm: "r < PM_NR_PROCS \<Longrightarrow> cause_sigalrm e r (s\<lparr>cur := PM_PROC_NR\<rparr>) = Ret () t \<Longrightarrow> pm_step e s (snd (finish_call SUSPEND t))"
| ksig: "PM_PROC_NR \<in> lives (vw s) \<Longrightarrow> r < PM_NR_PROCS \<Longrightarrow> handle_sig e r m (s\<lparr>cur := PM_PROC_NR\<rparr>) = Ret () t \<Longrightarrow> pm_step e s (snd (finish_call SUSPEND t))"

section \<open>Handlers\<close>

text \<open>A handler that is called by a live process in a good state leaves a good state, or panics for one of the known reasons.\<close>

definition good :: "pmst \<Rightarrow> bool" where
  "good s \<longleftrightarrow> (\<exists>F. pm_ok F s)"

definition caller :: "pmst \<Rightarrow> bool" where
  "caller s \<longleftrightarrow> good s \<and> cur s \<in> lives (vw s) \<and> who s = cur s"

definition handles :: "int act \<Rightarrow> bool" where
  "handles h \<longleftrightarrow> (\<forall>s. caller s \<longrightarrow> runs (h s) (\<lambda>_. good) doomed)"

lemma good_calm: "calm s t \<Longrightarrow> good s \<Longrightarrow> good t"
  unfolding good_def using pm_ok_calm by blast

lemma good_same: "same s t \<Longrightarrow> good s \<Longrightarrow> good t"
  using good_calm same_calm by blast

lemma caller_same: "same s t \<Longrightarrow> caller s \<Longrightarrow> caller t"
  using good_same [of s t] by (simp add: caller_def) (simp add: same_def same_rest_def)

lemma caller_good: "caller s \<Longrightarrow> good s"
  by (simp add: caller_def)

lemma fine_good: "fine s t \<Longrightarrow> good t"
  by (simp add: fine_def good_def)

lemma runs_same_good: "good s \<Longrightarrow> runs m (\<lambda>_. same s) nofail \<Longrightarrow> runs m (\<lambda>_. good) doomed"
  by (erule runs_mono) (auto simp: nofail_def intro: good_same)

lemma runs_fine_good: "runs m (\<lambda>_. fine s) doomed \<Longrightarrow> runs m (\<lambda>_. good) doomed"
  by (erule runs_mono) (auto dest: fine_good)

lemma exit_good:
  assumes "env_ok e" "good s" "r \<in> lives (vw s)"
  shows "runs (pm_exit e r st s) (\<lambda>_. good) doomed"
proof -
  have "runs (pm_exit e r st s) (\<lambda>_ t. fine s t \<and> r \<notin> lives (vw t)) doomed"
    using pm_exit_ok [OF assms(1)] assms(2,3) lives_le [of "vw s"] unfolding exits_def good_def by blast
  then show ?thesis by (rule runs_mono) (auto dest: fine_good)
qed

lemma sig_good:
  assumes "env_ok e" "good s" "r \<in> lives (vw s)"
  shows "runs (sig_proc e r n s) (\<lambda>_. good) doomed"
  using sig_proc_ok [OF assms(1)] assms(2,3) lives_le [of "vw s"] unfolding signals_ok_def good_def by (blast intro: runs_fine_good [unfolded good_def])

lemma check_sig_good: "env_ok e \<Longrightarrow> good s \<Longrightarrow> runs (check_sig e i j s) (\<lambda>_. good) doomed"
  using check_sig_ok runs_fine_good unfolding good_def by blast

lemma pending_good:
  assumes "env_ok e" "good s" "r \<in> lives (vw s)"
  shows "runs (check_pending e r s) (\<lambda>_. good) doomed"
proof -
  have "runs (pending_loop (sig_proc e) r is s) (\<lambda>_. good) doomed" for "is"
  proof (induction "is")
    case (Cons i "is")
    let ?t = "set_slot r (\<lambda>p. p\<lparr>mp_sigpending := sigdelset i (mp_sigpending p)\<rparr>) s"
    have t: "same s ?t" by (rule same_set_slot) simp
    then have "good ?t" "r \<in> lives (vw ?t)" using assms(2,3) good_same [OF t] by (simp_all add: same_def)
    then show ?case using Cons sig_good [OF assms(1)] by simp
  qed (use assms in simp)
  then show ?thesis by (simp add: check_pending_def)
qed

section \<open>Calls\<close>

lemma view_calls:
  "view (p\<lparr>mp_reply := a\<rparr>) = view p" "view (p\<lparr>mp_sigmask2 := b\<rparr>) = view p" "view (p\<lparr>mp_ignore := b\<rparr>) = view p" "view (p\<lparr>mp_catch := b\<rparr>) = view p"
  "view (p\<lparr>mp_sig2mess := b\<rparr>) = view p" "view (p\<lparr>mp_sigact := x\<rparr>) = view p" "view (p\<lparr>mp_sigreturn := b\<rparr>) = view p"
  "view (p\<lparr>mp_realuid := u\<rparr>) = view p" "view (p\<lparr>mp_effuid := u\<rparr>) = view p" "view (p\<lparr>mp_realgid := g\<rparr>) = view p" "view (p\<lparr>mp_effgid := g\<rparr>) = view p"
  "view (p\<lparr>mp_nice := n\<rparr>) = view p"
  by (simp_all add: view_def has_def)

lemmas quiet = view_calls view_neutral

lemma exit_handles: "env_ok e \<Longrightarrow> handles (do_pm_exit e)"
  unfolding handles_def do_pm_exit_def caller_def using exit_good by (auto intro!: runs_bnd)

lemma fork_handles:
  assumes "env_ok e"
  shows "handles (do_fork e)"
  unfolding handles_def
proof (intro allI impI)
  fix s assume "caller s"
  then obtain F where c: "pm_ok F s" "cur s \<in> lives (vw s)" "who s = cur s" by (auto simp: caller_def good_def)
  show "runs (do_fork e s) (\<lambda>_. good) doomed"
    using do_fork_ok [OF c(1) assms c(2,3)] c(1) by (auto simp: good_def split: if_splits)
qed

lemma wait_handles: "handles do_waitpid"
  unfolding handles_def
proof (intro allI impI)
  fix s assume "caller s"
  then obtain F where c: "pm_ok F s" "cur s \<in> lives (vw s)" "who s = cur s" by (auto simp: caller_def good_def)
  show "runs (do_waitpid s) (\<lambda>_. good) doomed"
    using do_waitpid_ok [OF c] c(1) by (auto simp: good_def split: if_splits option.splits)
qed

text \<open>A handler that keeps the views.\<close>

lemma quiet_handles: "(\<And>s. runs (h s) (\<lambda>_. same s) nofail) \<Longrightarrow> handles h"
  unfolding handles_def using runs_same_good caller_good by blast

lemma brk_handles: "env_ok e \<Longrightarrow> handles (do_brk e)"
  by (rule quiet_handles)
    (auto simp: do_brk_def Let_def ask_def env_ok_def split_beta view_calls intro!: same_steps adjust_step)

lemma small_handles:
  assumes "env_ok e"
  shows "handles do_pause" "handles do_sigpending" "handles (do_alarm e)" "handles (do_getsetpriority e)"
proof -
  show "handles do_pause" "handles do_sigpending"
    by (auto simp: do_pause_def do_sigpending_def quiet intro!: quiet_handles same_steps)
  show "handles (do_alarm e)" using set_alarm_same [OF assms] by (intro quiet_handles) (simp add: do_alarm_def)
  show "handles (do_getsetpriority e)"
  proof (rule quiet_handles)
    fix s
    have n: "same s ((set_slot r (\<lambda>p. p\<lparr>mp_nice := v\<rparr>) s)\<lparr>kcalls := k\<rparr>)" for r v k by (intro same_steps) (simp_all add: view_calls)
    show "runs (do_getsetpriority e s) (\<lambda>_. same s) nofail"
    proof (cases "if m1_i2 (m_in s) = 0 then Some (who s) else proc_from_pid (m1_i2 (m_in s)) s")
      case None
      then show ?thesis by (simp only: do_getsetpriority_def Let_def option.case) simp
    next
      case (Some r)
      then show ?thesis using n by (simp only: do_getsetpriority_def Let_def option.case) (simp add: ask_def)
    qed
  qed
qed

text \<open>The calls that only fill in the reply.\<close>

lemma info_handles:
  assumes "env_ok e"
  shows "handles (do_time e)" "handles (do_stime e)" "handles (do_times e)" "handles (do_getsysinfo e)" "handles (do_getprocnr e)"
proof -
  have b: "same s t \<Longrightarrow> same s (t\<lparr>boottime := x\<rparr>)" for s t x using same_trans [OF _ same_buffers(1)] by blast
  show "handles (do_time e)" "handles (do_times e)"
    using assms by (auto simp: do_time_def do_times_def ask_def env_ok_def view_calls intro!: quiet_handles same_steps)
  show "handles (do_stime e)" using assms by (auto simp: do_stime_def ask_def env_ok_def Let_def intro!: quiet_handles same_steps b)
  show "handles (do_getsysinfo e)" by (auto simp: do_getsysinfo_def ask_def intro!: quiet_handles same_steps)
  show "handles (do_getprocnr e)"
    by (auto simp: do_getprocnr_def reply_procnr_def ask_def Let_def view_calls intro!: quiet_handles same_steps split: option.split)
qed

lemma view_dispose: "dispose n h p = Some q \<Longrightarrow> view q = view p"
  by (auto simp: dispose_def view_calls split: if_splits)

lemma sigaction_handles: "handles (do_sigaction e)"
proof (rule quiet_handles)
  fix s
  have "same s (set_slot r (\<lambda>_. q\<lparr>mp_sigact := a, mp_sigreturn := b\<rparr>) t)" if "same s t" "dispose n h (slot r t) = Some q" for r q a b t n h
    using that view_dispose by (intro same_steps) (simp_all add: view_calls)
  then show "runs (do_sigaction e s) (\<lambda>_. same s) nofail"
    by (auto simp: do_sigaction_def Let_def ask_def intro!: same_steps split: option.split)
qed

text \<open>The calls that change the mask look for pending signals afterwards.\<close>

lemma masked_good:
  assumes "env_ok e" "caller s" "same s t"
  shows "runs (bnd (check_pending e (cur s) t) (\<lambda>_ s. Ret v s)) (\<lambda>_. good) doomed"
proof (rule runs_bnd [OF pending_good])
  show "good t" "cur s \<in> lives (vw t)" using caller_same [OF assms(3,2)] assms(2,3) by (simp_all add: caller_def same_def)
qed (simp_all add: assms)

lemma set_mask_same: "same s t \<Longrightarrow> same s (set_mask f r t)"
  unfolding set_mask_def by (rule same_steps) simp_all

lemma mask_handles:
  assumes "env_ok e"
  shows "handles (do_sigprocmask e)" "handles (do_sigsuspend e)" "handles (do_sigreturn e)"
proof -
  have "same s (set_slot r (\<lambda>p. p\<lparr>mp_reply := f p\<rparr>) s)" for s r f by (rule same_set_slot) (simp add: view_calls)
  then show "handles (do_sigprocmask e)"
    unfolding handles_def do_sigprocmask_def Let_def
    by (auto intro!: masked_good [OF assms] set_mask_same good_same [OF _ caller_good])
  show "handles (do_sigsuspend e)" unfolding handles_def do_sigsuspend_def Let_def
    by (auto intro!: masked_good [OF assms] same_set_slot simp: quiet)
  show "handles (do_sigreturn e)" unfolding handles_def do_sigreturn_def Let_def ask_def
    by (auto intro!: masked_good [OF assms] same_steps)
qed

lemma kill_handles: "env_ok e \<Longrightarrow> handles (do_kill e)"
  unfolding handles_def do_kill_def using check_sig_good caller_good by blast

lemma regroup_ok:
  assumes ok: "pm_ok F s" and r: "r \<in> lives (vw s)" "0 \<le> g"
  shows "pm_ok F (set_slot r (\<lambda>p. p\<lparr>mp_procgrp := g\<rparr>) s)"
proof -
  let ?t = "set_slot r (\<lambda>p. p\<lparr>mp_procgrp := g\<rparr>) s"
  have inv: "pm_inv F {} (lives (vw s)) s" "tab_ok {} (vw s) (procs_in_use s)" "mem_layout F (vw s) (lives (vw s))" "length (mproc_tab s) = PM_NR_PROCS"
    using ok by (simp_all add: pm_ok_def pm_inv_def)
  have rl: "r < PM_NR_PROCS" "live (vw s r)" using r(1) by (simp_all add: lives_def)
  have v: "vw ?t = (vw s)(r := (vw s r)\<lparr>v_grp := g\<rparr>)"
    using inv(4) rl(1) by (simp add: vw_set_slot) (simp add: view_def has_def vw_def)
  have l: "live (vw ?t q) = live (vw s q)" "v_use (vw ?t q) = v_use (vw s q)" "v_zomb (vw ?t q) = v_zomb (vw s q)" "v_par (vw ?t q) = v_par (vw s q)"
    "v_pid (vw ?t q) = v_pid (vw s q)" "v_wait (vw ?t q) = v_wait (vw s q)" "v_wpid (vw ?t q) = v_wpid (vw s q)" "v_stop (vw ?t q) = v_stop (vw s q)" "like (vw s q) (vw ?t q)"
    "v_zomb (vw s q) \<Longrightarrow> v_grp (vw ?t q) = v_grp (vw s q)" "v_grp (vw ?t q) = (if q = r then g else v_grp (vw s q))" for q
    using rl(2) by (auto simp: v live_def like_def)
  have u: "users (vw ?t) = users (vw s)" "lives (vw ?t) = lives (vw s)" by (simp_all add: users_def lives_def l)
  have "waits_ok (vw ?t)" using inv(2) l(10) unfolding tab_ok_def waits_ok_def u l(1-9) rightv_def by metis
  moreover have "pids_ok (vw ?t)" using inv(2) r(2) unfolding tab_ok_def pids_ok_def u l(5,11) by auto
  ultimately have "tab_ok {} (vw ?t) (procs_in_use ?t)"
    using inv(2) unfolding tab_ok_def parents_ok_def u l set_slot_sel by simp
  moreover have "mem_layout F (vw ?t) (lives (vw ?t))" unfolding u by (rule layout_like [OF inv(3)]) (simp_all add: l)
  ultimately show ?thesis using pm_inv_views [OF inv(1)] unfolding pm_ok_def by simp
qed

lemma regroup_good: "good s \<Longrightarrow> r \<in> lives (vw s) \<Longrightarrow> 0 \<le> g \<Longrightarrow> good (set_slot r (\<lambda>p. p\<lparr>mp_procgrp := g\<rparr>) s)"
  unfolding good_def using regroup_ok by blast

lemma pid_bounds: "good s \<Longrightarrow> r \<in> lives (vw s) \<Longrightarrow> 0 \<le> mp_pid (slot r s) \<and> 0 \<le> mp_procgrp (slot r s) \<and> mp_parent (slot r s) < PM_NR_PROCS"
  unfolding good_def pm_ok_def pm_inv_def tab_ok_def pids_ok_def parents_ok_def lives_def users_def live_def vw_def by auto

lemma getset_handles: "handles (do_getset e c)"
  unfolding handles_def
proof (intro allI impI)
  fix s assume c: "caller s"
  have g: "good s" "cur s \<in> lives (vw s)" using c by (simp_all add: caller_def)
  have sid: "good (tell_fs e FS_SETSID (int (who s)) 0 0 (set_slot (cur s) (\<lambda>p. p\<lparr>mp_procgrp := mp_pid p\<rparr>) s))"
  proof -
    have "set_slot (cur s) (\<lambda>p. p\<lparr>mp_procgrp := mp_pid p\<rparr>) s = set_slot (cur s) (\<lambda>p. p\<lparr>mp_procgrp := mp_pid (slot (cur s) s)\<rparr>) s"
      by (simp add: set_slot_def slot_def)
    then show ?thesis using regroup_good [OF g] pid_bounds [OF g] good_same [OF tell_fs_same(1)] by simp
  qed
  have n: "good (reply_res2 r v s)" for r v using good_same [OF reply_res2_same g(1)] .
  have "same s (set_slot (cur s) (\<lambda>p. p\<lparr>mp_realuid := u, mp_effuid := u\<rparr>) s)" "same s (set_slot (cur s) (\<lambda>p. p\<lparr>mp_realgid := w, mp_effgid := w\<rparr>) s)" for u w
    by (auto intro!: same_set_slot simp: view_calls)
  then have m: "good (tell_fs e i j k l (set_slot (cur s) (\<lambda>p. p\<lparr>mp_realuid := u, mp_effuid := u\<rparr>) s))"
      "good (tell_fs e i j k l (set_slot (cur s) (\<lambda>p. p\<lparr>mp_realgid := w, mp_effgid := w\<rparr>) s))" for i j k l u w
    using good_same [OF same_trans [OF _ tell_fs_same(1)] g(1)] by blast+
  show "runs (do_getset e c s) (\<lambda>_. good) doomed"
    using g n m sid pid_bounds [OF g] by (cases c) (simp_all add: do_getset_def Let_def)
qed

lemma trace_reply_same: "same s t \<Longrightarrow> same s (trace_reply r v t)"
  unfolding trace_reply_def by (rule same_steps) (simp_all add: view_calls)

lemma find_proc_live: "good s \<Longrightarrow> find_proc pid s = Some r \<Longrightarrow> has (slot r s) STOPPED \<Longrightarrow> r \<in> lives (vw s)"
  using first_slot_Some [of _ all_slots s r] stopped_live [of _ s r] by (fastforce simp: find_proc_def good_def lives_def)

lemma unstop_good: "good s \<Longrightarrow> good (set_slot r (drop_flag STOPPED) s)"
  by (rule good_calm [OF calm_set_slot]) (auto simp: view_neutral near_def vw_def)

lemma resume_good:
  assumes e: "env_ok e" and g: "good s" "c \<in> lives (vw s)"
  shows "runs (bnd (if b then bnd (sig_proc e c n (set_slot c (drop_flag TRACED) s)) (\<lambda>_ s. Ret () (set_slot c (raise_flag TRACED) s)) else Ret () s)
    (\<lambda>_ s. Ret () (set_slot c (drop_flag STOPPED) s))) (\<lambda>_. good) doomed"
proof -
  let ?t = "set_slot c (drop_flag TRACED) s"
  have t: "same s ?t" by (rule same_set_slot) (simp add: view_neutral)
  then have "good ?t" "c \<in> lives (vw ?t)" using g good_same [OF t] by (simp_all add: same_def)
  from sig_good [OF e this] have "runs (bnd (sig_proc e c n ?t) (\<lambda>_ s. Ret () (set_slot c (raise_flag TRACED) s))) (\<lambda>_. good) doomed"
    by (rule runs_bnd) (auto intro!: good_same [OF same_set_slot] simp: view_neutral)
  then have "runs (if b then bnd (sig_proc e c n ?t) (\<lambda>_ s. Ret () (set_slot c (raise_flag TRACED) s)) else Ret () s) (\<lambda>_. good) doomed"
    using g(1) by simp
  then show ?thesis by (rule runs_bnd) (simp add: unstop_good)
qed

lemma do_trace_eq:
  assumes "m1_i2 (m_in s) \<noteq> T_OK" "find_proc (m1_i1 (m_in s)) s = Some c" "has (slot c s) STOPPED"
  shows "do_trace e s = (if m1_i2 (m_in s) = T_EXIT then bnd (pm_exit e c (sint (m_w4 (m_in s))) s) (\<lambda>_ t. Ret 0 (trace_reply (cur s) 0 t))
    else if (m1_i2 (m_in s) = T_RESUME \<or> m1_i2 (m_in s) = T_STEP) \<and> (sint (m_w4 (m_in s)) < 0 \<or> sint (m_w4 (m_in s)) > int NSIG) then Ret EIO s
    else bnd (if m1_i2 (m_in s) = T_RESUME \<or> m1_i2 (m_in s) = T_STEP then bnd (if 0 < sint (m_w4 (m_in s)) then bnd (sig_proc e c (unat (m_w4 (m_in s))) (set_slot c (drop_flag TRACED) s))
          (\<lambda>_ s. Ret () (set_slot c (raise_flag TRACED) s)) else Ret () s) (\<lambda>_ s. Ret () (set_slot c (drop_flag STOPPED) s)) else Ret () s)
      (\<lambda>_ t. let (a, t) = ask e (SysTrace (m1_i2 (m_in s)) c (m_w3 (m_in t)) (m_w4 (m_in s))) t in if a_res a \<noteq> 0 then Ret (- sint (a_2 a)) t else Ret 0 (trace_reply (cur s) (a_1 a) t)))"
  using assms unfolding do_trace_def Let_def by simp

lemma trace_handles:
  assumes e: "env_ok e"
  shows "handles (do_trace e)"
  unfolding handles_def
proof (intro allI impI)
  fix s assume "caller s"
  then have g: "good s" by (rule caller_good)
  have ok: "good (trace_reply (cur s) 0 (set_slot (cur s) (raise_flag TRACED) s))"
    by (rule good_same [OF _ g]) (intro trace_reply_same same_steps same_refl, simp add: view_neutral)
  have fin: "runs (let (a, t) = ask e k t in if a_res a \<noteq> 0 then Ret (- sint (a_2 a)) t else Ret 0 (trace_reply (cur s) (a_1 a) t)) (\<lambda>_. good) doomed"
    if t: "good t" for t k
    using good_same [OF same_kcalls t] good_same [OF trace_reply_same [OF same_kcalls] t] by (simp add: ask_def)
  show "runs (do_trace e s) (\<lambda>_. good) doomed"
  proof (cases "m1_i2 (m_in s) = T_OK")
    case True
    then show ?thesis using ok by (simp add: do_trace_def Let_def)
  next
    case F: False
    show ?thesis
    proof (cases "find_proc (m1_i1 (m_in s)) s")
      case None
      then show ?thesis using F g by (simp add: do_trace_def Let_def)
    next
      case (Some c)
      show ?thesis
      proof (cases "has (slot c s) STOPPED")
        case True
        have c: "c \<in> lives (vw s)" using find_proc_live [OF g Some True] .
        have x: "runs (bnd (pm_exit e c (sint d) s) (\<lambda>_ t. Ret 0 (trace_reply (cur s) 0 t))) (\<lambda>_. good) doomed" for d
          by (rule runs_bnd [OF exit_good [OF e g c]]) (simp add: good_same [OF trace_reply_same [OF same_refl]])
        have y: "runs (bnd m (\<lambda>_ t. let (a, t) = ask e (k t) t in if a_res a \<noteq> 0 then Ret (- sint (a_2 a)) t else Ret 0 (trace_reply (cur s) (a_1 a) t))) (\<lambda>_. good) doomed"
          if "runs m (\<lambda>_. good) doomed" for m :: "(unit, pmst) outcome" and k using that fin by (rule runs_bnd)
        let ?q = "m1_i2 (m_in s)" and ?d = "m_w4 (m_in s)"
        note st = do_trace_eq [OF F Some True, of e]
        have m: "runs (if w then bnd (if b then bnd (sig_proc e c n (set_slot c (drop_flag TRACED) s)) (\<lambda>_ s. Ret () (set_slot c (raise_flag TRACED) s)) else Ret () s)
            (\<lambda>_ s. Ret () (set_slot c (drop_flag STOPPED) s)) else Ret () s) (\<lambda>_. good) doomed" for w b n
          using resume_good [OF e g c] g by simp
        show ?thesis unfolding st using x y [OF m] g by (simp only: runs.simps split: if_split) blast
      next
        case False
        then show ?thesis using F Some g by (simp add: do_trace_def Let_def)
      qed
    qed
  qed
qed

lemma alloc_zero:
  assumes "mem_rep h F k"
  shows "\<exists>c. alloc_mem 0 h = Ret c h"
proof (cases "hole_head h")
  case None
  then show ?thesis by (simp add: alloc_mem_def alloc_loop.simps)
next
  case (Some x)
  obtain hs fs vs where h: "struct_ok h hs fs" "map (ivl_of h) hs = vs" "gapped vs" using assms by (auto simp: mem_rep_def holes_ok_def)
  have "x \<in> set hs" using h(1) Some by (cases hs) (auto simp: struct_ok_def)
  then have "0 < unat (h_len (hole_at x h))" using h(2,3) by (auto simp: gapped_def ivl_of_def)
  then have "h_len (hole_at x h) \<noteq> 0" by (metis less_irrefl unat_0)
  moreover have "upd_hole x (\<lambda>y. y\<lparr>h_base := h_base y + 0, h_len := h_len y - 0\<rparr>) h = h" by (simp add: upd_hole_def)
  ultimately show ?thesis using Some by (simp add: alloc_mem_def alloc_loop.simps [of 0 None "Some x"] Let_def)
qed

lemma alloc_handles: "handles do_allocmem"
  unfolding handles_def
proof (intro allI impI)
  fix s assume "caller s"
  then obtain F where ok: "pm_ok F s" by (auto simp: caller_def good_def)
  let ?n = "to_clicks (m_w0 (m_in s))"
  have inv: "pm_inv F {} (lives (vw s)) s" "mem_rep (pm_holes s) F 0" "mem_layout F (vw s) (lives (vw s))" using ok by (simp_all add: pm_ok_def pm_inv_def)
  have hole: "good (s\<lparr>pm_holes := h\<rparr>)" if "mem_rep h G 0" "G \<subseteq> F" for h G
  proof -
    have "mem_layout G (vw s) (lives (vw s))" using inv(3) that(2) unfolding mem_layout_def placed_def by blast
    then have "pm_ok G (s\<lparr>pm_holes := h\<rparr>)" using inv(1) that(1) by (simp add: pm_ok_def pm_inv_def)
    then show ?thesis by (auto simp: good_def)
  qed
  obtain c h G where a: "alloc_mem ?n (pm_holes s) = Ret c h" "mem_rep h G 0" "G \<subseteq> F"
  proof (cases "?n = 0")
    case True
    then show ?thesis using alloc_zero [OF inv(2)] inv(2) that by fastforce
  next
    case n: False
    show ?thesis
    proof (cases "\<exists>b. block b ?n \<subseteq> F")
      case True
      then show ?thesis using alloc_mem_fits [OF inv(2) _ n] that by blast
    next
      case False
      then show ?thesis using alloc_mem_full [OF inv(2) n] inv(2) that by blast
    qed
  qed
  have "good (set_slot r (\<lambda>p. p\<lparr>mp_reply := f p\<rparr>) (s\<lparr>pm_holes := h\<rparr>))" for r f
    by (rule good_same [OF same_set_slot hole [OF a(2,3)]]) (simp add: view_calls)
  then show "runs (do_allocmem s) (\<lambda>_. good) doomed"
    using a(1) hole [OF a(2,3)] by (simp add: do_allocmem_def on_holes_def)
qed

section \<open>Notifications\<close>

lemma good_cur: "good s \<Longrightarrow> good (s\<lparr>cur := PM_PROC_NR\<rparr>)"
  by (simp add: good_def pm_ok_def pm_inv_def)

lemma cause_sigalrm_good:
  assumes "env_ok e" "good s"
  shows "runs (cause_sigalrm e r s) (\<lambda>_. good) doomed"
proof -
  have "same s (set_slot r (drop_flag ALARM_ON) s)" by (rule same_set_slot) (simp add: view_neutral)
  then have g: "good (set_slot r (drop_flag ALARM_ON) s)" using good_same assms(2) by blast
  have "runs (bnd (check_sig e i j (set_slot r (drop_flag ALARM_ON) s)) (\<lambda>_ s. Ret () s)) (\<lambda>_. good) doomed" for i j
    by (rule runs_bnd [OF check_sig_good [OF assms(1) g]]) simp
  then show ?thesis using assms(2) by (simp add: cause_sigalrm_def Let_def)
qed

lemma sig_each_good: "env_ok e \<Longrightarrow> good s \<Longrightarrow> runs (sig_each e i m js s) (\<lambda>_. good) doomed"
proof (induction js arbitrary: s)
  case (Cons j js)
  from runs_bnd [OF check_sig_good [OF Cons.prems] Cons.IH [OF Cons.prems(1)]] Cons show ?case by simp
qed simp

lemma handle_sig_good:
  assumes "env_ok e" "good s" "PM_PROC_NR \<in> lives (vw s)" "r < PM_NR_PROCS"
  shows "runs (handle_sig e r m s) (\<lambda>_. good) doomed"
proof (cases "running (slot r s)")
  case True
  let ?s = "s\<lparr>cur := PM_PROC_NR\<rparr>"
  have r: "r \<in> lives (vw s)" using True assms(4) by (simp add: lives_def running_view vw_def)
  have "good (set_slot PM_PROC_NR (\<lambda>p. p\<lparr>mp_procgrp := mp_procgrp (slot r ?s)\<rparr>) ?s)"
    by (rule regroup_good) (use good_cur assms pid_bounds [OF assms(2) r] in \<open>simp_all add: roots_def\<close>)
  then show ?thesis using True sig_each_good [OF assms(1)] by (simp add: handle_sig_def Let_def)
qed (simp add: handle_sig_def assms)

lemma send_replies_same: "same s (snd (send_replies rs s))"
proof (induction rs arbitrary: s)
  case (Cons r rs)
  have "same s (set_slot r (drop_flag REPLY) s)" by (rule same_set_slot) (simp add: view_neutral)
  then show ?case using Cons.IH same_trans by (auto simp: split_beta Let_def)
qed simp

lemma finish_good: "good s \<Longrightarrow> good (snd (finish_call v s))"
  unfolding finish_call_def using good_same [OF same_trans [OF setreply_same send_replies_same]] good_same [OF send_replies_same] by simp

section \<open>Runs\<close>

lemma served_handles:
  assumes "env_ok e" "n \<in> set served"
  shows "handles (call_vec e n)"
  using assms exit_handles fork_handles wait_handles brk_handles small_handles sigaction_handles mask_handles kill_handles
    getset_handles trace_handles alloc_handles info_handles
  by (auto simp: served_def call_vec_def)

lemma get_work_caller: "good s \<Longrightarrow> p \<in> lives (vw s) \<Longrightarrow> caller (get_work p n m s)"
proof -
  have v: "vw (get_work p n m s) = vw s" by (simp add: get_work_def vw_def slot_def fun_eq_iff)
  then show "good s \<Longrightarrow> p \<in> lives (vw s) \<Longrightarrow> ?thesis"
    by (simp add: caller_def good_def pm_ok_def pm_inv_def) (simp add: get_work_def lives_def)
qed

lemma call_safe:
  "env_ok e \<Longrightarrow> good s \<Longrightarrow> p \<in> lives (vw s) \<Longrightarrow> n \<in> set served \<Longrightarrow> runs (call_vec e n (get_work p n m s)) (\<lambda>_. good) doomed"
  using served_handles get_work_caller unfolding handles_def by blast

lemma pm_step_good:
  assumes "pm_step e s t" "env_ok e" "good s"
  shows "good t"
  using assms(1)
proof cases
  case (call p n m v u)
  then show ?thesis using call_safe [OF assms(2,3), of p n m] by (simp add: finish_good)
next
  case (alarm r u)
  then show ?thesis using cause_sigalrm_good [OF assms(2) good_cur [OF assms(3)], of r] by (simp add: finish_good)
next
  case (ksig r m u)
  then show ?thesis using handle_sig_good [OF assms(2) good_cur [OF assms(3)], of r m] by (simp add: finish_good)
qed

lemma pm_steps_good: "(pm_step e)\<^sup>*\<^sup>* s t \<Longrightarrow> env_ok e \<Longrightarrow> good s \<Longrightarrow> good t"
  by (induction rule: rtranclp_induct) (auto intro: pm_step_good)

end
