(* ===== verification/Pmkill.thy ===== *)
theory Pmkill
  imports Pmrun
begin

text \<open>
  \<open>SIGKILL\<close> cannot be blocked, ignored, caught or turned into a message: no call puts it into one of the sets of an ordinary process (the
  system processes of the boot image ignore every signal). With that, an ordinary process that is sent the signal dies.
\<close>

section \<open>The sets of a process\<close>

definition open_to_kill :: "pmproc \<Rightarrow> bool" where
  "open_to_kill p \<longleftrightarrow> \<not> bit (mp_ignore p) SIGKILL \<and> \<not> bit (mp_catch p) SIGKILL \<and> \<not> bit (mp_sig2mess p) SIGKILL \<and> \<not> bit (mp_sigmask p) SIGKILL \<and>
     length (mp_sigact p) = Suc NSIG \<and> (\<forall>a \<in> set (mp_sigact p). \<not> bit (sa_mask a) SIGKILL) \<and> (\<forall>n. bit (mp_catch p) n \<longrightarrow> n \<le> NSIG)"

text \<open>The slots of system processes (\<open>PRIV_PROC\<close>), free slots and zombies are exempt: \<open>pm_init\<close> fills \<open>mp_ignore\<close> of a system process.\<close>

definition guarded :: "pmproc \<Rightarrow> bool" where
  "guarded p \<longleftrightarrow> (running p \<and> \<not> has p PRIV_PROC \<longrightarrow> open_to_kill p)"

definition killable :: "pmst \<Rightarrow> bool" where
  "killable s \<longleftrightarrow> (\<forall>p \<in> set (mproc_tab s). guarded p)"

definition keeps :: "pmst \<Rightarrow> pmst \<Rightarrow> bool" where
  "keeps s t \<longleftrightarrow> length (mproc_tab t) = length (mproc_tab s) \<and> (killable s \<longrightarrow> killable t)"

abbreviation any_stop :: "stop \<Rightarrow> pmst \<Rightarrow> bool" where
  "any_stop b t \<equiv> True"

interpretation kk: framing keeps "\<lambda>_. any_stop"
  by unfold_locales (auto simp: keeps_def)

lemma keeps_bnd:
  "runs m (\<lambda>_. keeps s) any_stop \<Longrightarrow> (\<And>a t. runs (f a t) (\<lambda>_. keeps t) any_stop) \<Longrightarrow> runs (bnd m f) (\<lambda>_. keeps s) any_stop"
  by (rule kk.runs_seq)

lemma sigset_bits [simp]:
  "bit (sigaddset n m) k \<longleftrightarrow> bit m k \<or> k = n \<and> n < 32" "bit (sigdelset n m) k \<longleftrightarrow> bit m k \<and> k \<noteq> n"
  by (auto simp: sigaddset_def sigdelset_def bit_or_iff bit_and_iff bit_not_iff bit_exp_iff dest: bit_imp_le_length)

lemma keeps_trans: "keeps s t \<Longrightarrow> keeps t u \<Longrightarrow> keeps s u"
  by (simp add: keeps_def)

lemma keeps_slot:
  assumes "killable s \<Longrightarrow> r < length (mproc_tab s) \<Longrightarrow> guarded (slot r s) \<Longrightarrow> guarded (f (slot r s))"
  shows "keeps s (set_slot r f s)"
proof (cases "r < length (mproc_tab s)")
  case True
  then show ?thesis using assms set_update_subset_insert [of "mproc_tab s" r "f (mproc_tab s ! r)"]
    by (auto simp: keeps_def killable_def set_slot_def slot_def)
qed (simp add: set_slot_outside keeps_def)

lemma keeps_steps:
  "keeps s s" "keeps s t \<Longrightarrow> keeps s (t\<lparr>kcalls := x\<rparr>)" "keeps s t \<Longrightarrow> keeps s (t\<lparr>pm_holes := h\<rparr>)" "keeps s t \<Longrightarrow> keeps s (t\<lparr>next_pid := n\<rparr>)"
  "keeps s t \<Longrightarrow> keeps s (t\<lparr>procs_in_use := k\<rparr>)" "keeps s t \<Longrightarrow> keeps s (t\<lparr>cur := c\<rparr>)" "keeps s t \<Longrightarrow> keeps s (snd (ask e d t))"
  "keeps s t \<Longrightarrow> keeps s (tell_fs e a b i j t)"
  "keeps s t \<Longrightarrow> (guarded (slot r t) \<Longrightarrow> guarded (f (slot r t))) \<Longrightarrow> keeps s (set_slot r f t)"
  by (auto simp: ask_def tell_fs_def intro: keeps_trans [OF _ keeps_slot]) (simp_all add: keeps_def killable_def)

lemma open_rest [simp]:
  "open_to_kill (p\<lparr>mp_flags := y\<rparr>) = open_to_kill p"
  "open_to_kill (p\<lparr>mp_reply := x0\<rparr>) = open_to_kill p" "open_to_kill (p\<lparr>mp_sigstatus := x1\<rparr>) = open_to_kill p" "open_to_kill (p\<lparr>mp_exitstatus := x2\<rparr>) = open_to_kill p"
  "open_to_kill (p\<lparr>mp_parent := x3\<rparr>) = open_to_kill p" "open_to_kill (p\<lparr>mp_child_utime := x4\<rparr>) = open_to_kill p" "open_to_kill (p\<lparr>mp_child_stime := x5\<rparr>) = open_to_kill p"
  "open_to_kill (p\<lparr>mp_pid := x6\<rparr>) = open_to_kill p" "open_to_kill (p\<lparr>mp_procgrp := x7\<rparr>) = open_to_kill p" "open_to_kill (p\<lparr>mp_wpid := x8\<rparr>) = open_to_kill p"
  "open_to_kill (p\<lparr>mp_seg_T := x9\<rparr>) = open_to_kill p" "open_to_kill (p\<lparr>mp_seg_D := x10\<rparr>) = open_to_kill p" "open_to_kill (p\<lparr>mp_seg_S := x11\<rparr>) = open_to_kill p"
  "open_to_kill (p\<lparr>mp_exptime := x12\<rparr>) = open_to_kill p" "open_to_kill (p\<lparr>mp_sigpending := x13\<rparr>) = open_to_kill p" "open_to_kill (p\<lparr>mp_sigmask2 := x14\<rparr>) = open_to_kill p"
  "open_to_kill (p\<lparr>mp_sigreturn := x15\<rparr>) = open_to_kill p" "open_to_kill (p\<lparr>mp_realuid := x16\<rparr>) = open_to_kill p" "open_to_kill (p\<lparr>mp_effuid := x17\<rparr>) = open_to_kill p"
  "open_to_kill (p\<lparr>mp_realgid := x18\<rparr>) = open_to_kill p" "open_to_kill (p\<lparr>mp_effgid := x19\<rparr>) = open_to_kill p" "open_to_kill (p\<lparr>mp_nice := x20\<rparr>) = open_to_kill p"
  by (simp_all add: open_to_kill_def)

lemma guarded_rest [simp]:
  "guarded (p\<lparr>mp_reply := x0\<rparr>) = guarded p" "guarded (p\<lparr>mp_sigstatus := x1\<rparr>) = guarded p" "guarded (p\<lparr>mp_exitstatus := x2\<rparr>) = guarded p"
  "guarded (p\<lparr>mp_parent := x3\<rparr>) = guarded p" "guarded (p\<lparr>mp_child_utime := x4\<rparr>) = guarded p" "guarded (p\<lparr>mp_child_stime := x5\<rparr>) = guarded p"
  "guarded (p\<lparr>mp_pid := x6\<rparr>) = guarded p" "guarded (p\<lparr>mp_procgrp := x7\<rparr>) = guarded p" "guarded (p\<lparr>mp_wpid := x8\<rparr>) = guarded p"
  "guarded (p\<lparr>mp_seg_T := x9\<rparr>) = guarded p" "guarded (p\<lparr>mp_seg_D := x10\<rparr>) = guarded p" "guarded (p\<lparr>mp_seg_S := x11\<rparr>) = guarded p"
  "guarded (p\<lparr>mp_exptime := x12\<rparr>) = guarded p" "guarded (p\<lparr>mp_sigpending := x13\<rparr>) = guarded p" "guarded (p\<lparr>mp_sigmask2 := x14\<rparr>) = guarded p"
  "guarded (p\<lparr>mp_sigreturn := x15\<rparr>) = guarded p" "guarded (p\<lparr>mp_realuid := x16\<rparr>) = guarded p" "guarded (p\<lparr>mp_effuid := x17\<rparr>) = guarded p"
  "guarded (p\<lparr>mp_realgid := x18\<rparr>) = guarded p" "guarded (p\<lparr>mp_effgid := x19\<rparr>) = guarded p" "guarded (p\<lparr>mp_nice := x20\<rparr>) = guarded p"
  by (simp_all add: guarded_def running_def has_def)

lemma has_priv: "has p PRIV_PROC \<longleftrightarrow> bit (mp_flags p) 13"
  by (simp add: has_def and_one_bit [OF pm_flag_bits(13)])

lemma guarded_open: "guarded p \<Longrightarrow> mp_flags q = mp_flags p \<Longrightarrow> (open_to_kill p \<Longrightarrow> open_to_kill q) \<Longrightarrow> guarded q"
  by (simp add: guarded_def running_def has_def)

text \<open>The flags that a call sets or clears say nothing of life or privileges; a slot that is released or turned into a zombie is exempt.\<close>

lemma guarded_flags:
  assumes "\<not> bit m 0" "\<not> bit m 2" "\<not> bit m 13"
  shows "guarded (raise_flag m p) = guarded p" "guarded (drop_flag m p) = guarded p"
  using assms by (simp_all add: guarded_def running_iff has_bits has_priv raise_flag_def drop_flag_def bit_simps)

lemmas guarded_rest_flags [simp] =
  guarded_flags [of REPLY, simplified pm_flag_bits, simplified] guarded_flags [of WAITING, simplified pm_flag_bits, simplified]
  guarded_flags [of STOPPED, simplified pm_flag_bits, simplified] guarded_flags [of TRACED, simplified pm_flag_bits, simplified]
  guarded_flags [of PAUSED, simplified pm_flag_bits, simplified] guarded_flags [of ALARM_ON, simplified pm_flag_bits, simplified]
  guarded_flags [of SIGSUSPENDED, simplified pm_flag_bits, simplified]
  guarded_flags [of "PAUSED OR WAITING OR SIGSUSPENDED", simplified bit_or_iff pm_flag_bits, simplified]

lemma guarded_exempt [simp]: "guarded (p\<lparr>mp_flags := 0\<rparr>)" "guarded (p\<lparr>mp_flags := IN_USE OR ZOMBIE\<rparr>)"
  by (simp_all add: guarded_def running_iff has_bits bit_or_iff pm_flag_bits)

section \<open>Signals and exit\<close>

lemma reply_keeps: "keeps s t \<Longrightarrow> keeps s (setreply r v t)" "keeps s t \<Longrightarrow> keeps s (reply_res2 r v t)"
  unfolding setreply_def reply_res2_def by (auto intro!: keeps_steps)

lemma adjust_keeps: "keeps s t \<Longrightarrow> keeps s (snd (adjust e r d sp t))"
  unfolding adjust_def Let_def by (auto intro!: keeps_steps)

lemma unpause_keeps: "keeps s t \<Longrightarrow> keeps s (unpause e r t)"
  unfolding unpause_def by (auto intro!: keeps_steps reply_keeps)

lemmas keeping = keeps_steps reply_keeps adjust_keeps unpause_keeps

lemma alarm_keeps: "runs (set_alarm e r n s) (\<lambda>_. keeps s) any_stop"
  unfolding set_alarm_def Let_def pm_set_timer_def pm_cancel_timer_def ask_def
  by (intro kk.runs_seq) (auto intro!: keeping kk.runs_seq)

lemma stop_keeps: "runs (stop_proc e r m (unpause e r s)) (\<lambda>_. keeps s) any_stop"
  unfolding stop_proc_def Let_def ask_def by (auto intro!: keeping)

lemma dump_core_keeps: "keeps s t \<Longrightarrow> runs (dump_core e r t) (\<lambda>_. keeps s) any_stop"
  unfolding dump_core_def ask_def by (auto simp: split_beta Let_def intro!: keeping)

lemma cleanup_keeps: "runs (cleanup r s) (\<lambda>_. keeps s) any_stop"
  unfolding cleanup_def Let_def by (auto intro!: keeping)

lemma disinherit_keeps: "runs (disinherit r rs s) (\<lambda>_. keeps s) any_stop"
proof (induction rs arbitrary: s)
  case (Cons q rs)
  let ?t = "set_slot q (\<lambda>p. p\<lparr>mp_parent := INIT_PROC_NR\<rparr>) s"
  have t: "keeps s ?t" by (auto intro!: keeping)
  have "runs (if b then cleanup q ?t else Ret () ?t) (\<lambda>_. keeps s) any_stop" for b
    using kk.runs_from [OF t cleanup_keeps] t by simp
  then have "runs (bnd (if b then cleanup q ?t else Ret () ?t) (\<lambda>_. disinherit r rs)) (\<lambda>_. keeps s) any_stop" for b
    using Cons.IH by (rule kk.runs_seq)
  then show ?case using Cons.IH unfolding disinherit.simps Let_def by (rule if_split [THEN iffD2, OF conjI [OF impI impI]])
qed (simp add: keeping)

definition keeping_exit :: "(nat \<Rightarrow> int \<Rightarrow> unit act) \<Rightarrow> bool" where
  "keeping_exit ex \<longleftrightarrow> (\<forall>r st s. runs (ex r st s) (\<lambda>_. keeps s) any_stop)"

definition keeping_sig :: "(nat \<Rightarrow> nat \<Rightarrow> unit act) \<Rightarrow> bool" where
  "keeping_sig sg \<longleftrightarrow> (\<forall>r m s. runs (sg r m s) (\<lambda>_. keeps s) any_stop)"

lemma sig_default_keeps:
  assumes "keeping_exit ex" "keeps s t"
  shows "runs (sig_default e ex r m t) (\<lambda>_. keeps s) any_stop"
proof -
  have k: "keeps s (set_slot r (\<lambda>p. p\<lparr>mp_sigstatus := word_of_nat m\<rparr>) t)" using assms(2) by (auto intro!: keeping)
  have "runs (bnd m (\<lambda>_. ex r 0)) (\<lambda>_. keeps s) any_stop" if "runs m (\<lambda>_. keeps s) any_stop" for m
    using that assms(1) unfolding keeping_exit_def by (intro kk.runs_seq) auto
  from this [of "if sigismember core_sset m then dump_core e r (tell_fs e FS_CHDIR (int r) 0 0 (set_slot r (\<lambda>p. p\<lparr>mp_sigstatus := word_of_nat m\<rparr>) t))
      else Ret () (set_slot r (\<lambda>p. p\<lparr>mp_sigstatus := word_of_nat m\<rparr>) t)"]
  show ?thesis using assms(2) dump_core_keeps [OF keeps_steps(8) [OF k]] k unfolding sig_default_def Let_def by auto
qed

lemma open_caught:
  assumes "open_to_kill p" "bit (mp_catch p) m"
  shows "m \<noteq> SIGKILL" "open_to_kill (p\<lparr>mp_sigmask := block_mask m p\<rparr>)" "open_to_kill (reset_hand m p)"
proof -
  show m: "m \<noteq> SIGKILL" using assms by (auto simp: open_to_kill_def)
  have "mp_sigact p ! m \<in> set (mp_sigact p)" using assms by (auto simp: open_to_kill_def)
  then have n: "\<not> bit (sa_mask (mp_sigact p ! m)) SIGKILL" using assms(1) by (auto simp: open_to_kill_def)
  then show "open_to_kill (p\<lparr>mp_sigmask := block_mask m p\<rparr>)"
    using assms(1) m by (auto simp: open_to_kill_def block_mask_def Let_def bit_or_iff)
  show "open_to_kill (reset_hand m p)"
    using assms(1) m n set_update_subset_insert [of "mp_sigact p" m] by (fastforce simp: open_to_kill_def reset_hand_def)
qed


lemma guarded_caught:
  assumes "guarded p" "bit (mp_catch p) m"
  shows "guarded (p\<lparr>mp_sigmask := block_mask m p\<rparr>)" "guarded (reset_hand m p)"
  using open_caught [OF _ assms(2)] by (auto simp: reset_hand_def intro!: guarded_open [OF assms(1)])

lemma catch_set_slot: "mp_catch (f (slot r s)) = mp_catch (slot r s) \<Longrightarrow> mp_catch (slot r (set_slot r f s)) = mp_catch (slot r s)"
  by (cases "r < length (mproc_tab s)") (simp_all add: slot_set_slot set_slot_outside)

lemma adjust_catch: "mp_catch (slot r (snd (adjust e r d sp s))) = mp_catch (slot r s)"
  unfolding adjust_def Let_def by (auto simp: catch_set_slot ask_def)

lemma blocked_keeps:
  assumes "keeps s t" "bit (mp_catch (slot r t)) m"
  shows "keeps s (set_slot r (reset_hand m) (set_slot r (\<lambda>p. p\<lparr>mp_sigmask := block_mask m p\<rparr>) t))"
proof -
  have "bit (mp_catch (slot r (set_slot r (\<lambda>p. p\<lparr>mp_sigmask := block_mask m p\<rparr>) t))) m" using assms(2) by (simp add: catch_set_slot)
  then show ?thesis using assms by (intro keeps_steps(9)) (auto intro: guarded_caught)
qed

lemma sig_catch_keeps:
  assumes "keeping_exit ex" "bit (mp_catch (slot r s)) m"
  shows "runs (sig_catch e ex r m s) (\<lambda>_. keeps s) any_stop"
proof -
  define s1 where "s1 = s\<lparr>kcalls := SysGetproc r # kcalls s\<rparr>"
  define a where "a = e (SysGetproc r # kcalls s)"
  obtain ok t where adj: "adjust e r (mem_len (mp_seg_D (slot r s1))) (a_1 a - 92) s1 = (ok, t)" by fastforce
  have s1: "keeps s s1" unfolding s1_def by (intro keeps_steps)
  have t: "keeps s t" "bit (mp_catch (slot r t)) m"
    using adjust_keeps [OF s1, of e r "mem_len (mp_seg_D (slot r s1))" "a_1 a - 92"] assms(2) adj
      adjust_catch [of r e "mem_len (mp_seg_D (slot r s1))" "a_1 a - 92" s1] by (auto simp: s1_def)
  show ?thesis using adj blocked_keeps [OF t] sig_default_keeps [OF assms(1) t(1)]
    by (auto simp: sig_catch_def ask_def Let_def s1_def [symmetric] a_def [symmetric] intro!: unpause_keeps keeps_steps(2,9))
qed

lemma sig_proc_keeps:
  assumes "keeping_exit ex"
  shows "keeping_sig (sig_proc_with e ex)"
  unfolding keeping_sig_def sig_proc_with_def
  using stop_keeps sig_catch_keeps [OF assms] sig_default_keeps [OF assms keeps_steps(1)]
  by (auto simp: ask_def sigismember_def intro!: keeping)

lemma check_loop_keeps: "keeping_sig sg \<Longrightarrow> runs (check_loop sg i m rs c err s) (\<lambda>_. keeps s) any_stop"
proof (induction rs arbitrary: s c err)
  case (Cons r rs)
  have "runs (bnd (sg r m s) (\<lambda>_ s. if 0 < i then Ret (Suc c, err) s else check_loop sg i m rs (Suc c) err s)) (\<lambda>_. keeps s) any_stop"
    using Cons unfolding keeping_sig_def by (intro kk.runs_seq) (auto simp: keeping)
  then show ?case using Cons by (cases "m = 0") (simp_all add: Let_def)
qed (simp add: keeping)

lemma check_sig_with_keeps: "keeping_sig sg \<Longrightarrow> runs (check_sig_with sg i n s) (\<lambda>_. keeps s) any_stop"
  unfolding check_sig_with_def by (auto intro!: kk.runs_seq check_loop_keeps keeping)

lemma exit_body_keeps:
  assumes "keeping_sig sg"
  shows "runs (exit_body e sg r st s) (\<lambda>_. keeps s) any_stop"
proof -
  have n: "runs (exit_notify e r t) (\<lambda>_. keeps t) any_stop" for t
    unfolding exit_notify_def Let_def ask_def by (auto intro!: keeping)
  have "runs (on_holes f t) (\<lambda>_. keeps t) any_stop" for f :: "holes \<Rightarrow> (unit, holes) outcome" and t
    by (cases "f (pm_holes t)") (simp_all add: on_holes_def keeping)
  then have m: "runs (release_memory r t) (\<lambda>_. keeps t) any_stop" for t
    unfolding release_memory_def by (intro keeps_bnd) (auto intro!: keeping)
  have z: "runs (zombify sg r (set_slot r (\<lambda>p. p\<lparr>mp_exitstatus := word_of_int st\<rparr>) t)) (\<lambda>_. keeps t) any_stop" for t
  proof -
    let ?u = "set_slot r (\<lambda>p. p\<lparr>mp_exitstatus := word_of_int st\<rparr>) t"
    have k: "keeps t ?u" "keeps t (set_slot r (\<lambda>p. p\<lparr>mp_flags := IN_USE OR ZOMBIE\<rparr>) ?u)" by (auto intro!: keeping)
    have "runs (sg q SIGCHLD u) (\<lambda>_. keeps u) any_stop" for q u using assms by (simp add: keeping_sig_def)
    from kk.runs_from [OF k(2) this] show ?thesis using kk.runs_from [OF k(1) cleanup_keeps] by (simp add: zombify_def Let_def)
  qed
  have a: "runs (if b then set_alarm e r 0 s else Ret 0 s) (\<lambda>_. keeps s) any_stop" for b using alarm_keeps by (simp add: keeping)
  show ?thesis unfolding exit_body_def
    by (rule keeps_bnd [OF a], rule keeps_bnd [OF n], rule keeps_bnd [OF m], rule keeps_bnd [OF z], rule disinherit_keeps)
qed

lemma exit_keeps: "keeping_exit (pm_exit_n n e)"
proof (induction n)
  case (Suc n)
  show ?case unfolding keeping_exit_def pm_exit_n.simps Let_def
    using exit_body_keeps [OF sig_proc_keeps [OF Suc]] check_sig_with_keeps [OF sig_proc_keeps [OF Suc]]
    by (intro allI kk.runs_seq) (auto intro!: kk.runs_seq simp: keeping)
qed (simp add: keeping_exit_def)

lemma check_sig_keeps: "runs (check_sig e i n s) (\<lambda>_. keeps s) any_stop"
  unfolding check_sig_def sig_proc_def pm_exit_def by (intro check_sig_with_keeps sig_proc_keeps exit_keeps)

lemma sig_keeps: "runs (sig_proc e r n s) (\<lambda>_. keeps s) any_stop"
  using sig_proc_keeps [OF exit_keeps, of e "Suc PM_NR_PROCS" e] unfolding keeping_sig_def sig_proc_def pm_exit_def by blast

section \<open>Calls\<close>

lemma on_holes_keeps: "runs (on_holes f s) (\<lambda>_. keeps s) any_stop"
  by (cases "f (pm_holes s)") (simp_all add: on_holes_def keeping)

lemma pending_keeps: "runs (check_pending e r s) (\<lambda>_. keeps s) any_stop"
proof -
  have "runs (pending_loop (sig_proc e) r is s) (\<lambda>_. keeps s) any_stop" for "is"
  proof (induction "is")
    case (Cons i "is")
    have "keeps s (set_slot r (\<lambda>p. p\<lparr>mp_sigpending := sigdelset i (mp_sigpending p)\<rparr>) s)" by (auto intro!: keeping)
    from kk.runs_from [OF this sig_keeps] Cons show ?case by simp
  qed (simp add: keeping)
  then show ?thesis by (simp add: check_pending_def)
qed

text \<open>The masks that the signal calls store.\<close>

lemma mask_each_bit:
  "\<not> bit m SIGKILL \<Longrightarrow> \<not> bit (mask_each sigdelset x m) SIGKILL"
  "\<not> bit m SIGKILL \<Longrightarrow> \<not> bit (mask_each sigaddset (sigdelset SIGKILL x) m) SIGKILL"
proof -
  have "\<not> bit m SIGKILL \<Longrightarrow> \<not> bit (fold (\<lambda>i m. if sigismember x i then sigdelset i m else m) is m) SIGKILL" for "is"
    by (induction "is" arbitrary: m) auto
  then show "\<not> bit m SIGKILL \<Longrightarrow> \<not> bit (mask_each sigdelset x m) SIGKILL" by (simp add: mask_each_def)
  have "\<not> bit m SIGKILL \<Longrightarrow> \<not> bit (fold (\<lambda>i m. if sigismember (sigdelset SIGKILL x) i then sigaddset i m else m) is m) SIGKILL" for "is"
    by (induction "is" arbitrary: m) (auto simp: sigismember_def)
  then show "\<not> bit m SIGKILL \<Longrightarrow> \<not> bit (mask_each sigaddset (sigdelset SIGKILL x) m) SIGKILL" by (simp add: mask_each_def)
qed

lemma open_mask: "open_to_kill p \<Longrightarrow> \<not> bit m SIGKILL \<Longrightarrow> open_to_kill (p\<lparr>mp_sigmask := m\<rparr>)"
  by (simp add: open_to_kill_def)

lemma guarded_mask: "guarded p \<Longrightarrow> (\<not> bit (mp_sigmask p) SIGKILL \<Longrightarrow> \<not> bit m SIGKILL) \<Longrightarrow> guarded (p\<lparr>mp_sigmask := m\<rparr>)"
  by (auto simp: open_to_kill_def intro: guarded_open)

lemma dispose_open:
  assumes "open_to_kill p" "dispose n h p = Some q" "n \<noteq> SIGKILL" "n \<le> NSIG" "\<not> bit (sa_mask x) SIGKILL"
  shows "open_to_kill (q\<lparr>mp_sigact := (mp_sigact q)[n := x], mp_sigreturn := y\<rparr>)"
proof -
  have q: "open_to_kill q" using assms(1-4) by (auto simp: dispose_def open_to_kill_def split: if_splits)
  then have "\<forall>a \<in> set ((mp_sigact q)[n := x]). \<not> bit (sa_mask a) SIGKILL"
    using assms(5) set_update_subset_insert [of "mp_sigact q" n x] by (auto simp: open_to_kill_def)
  then show ?thesis using q by (simp add: open_to_kill_def)
qed

lemma dispose_flags: "dispose n h p = Some q \<Longrightarrow> mp_flags q = mp_flags p"
  by (auto simp: dispose_def split: if_splits)

lemma dispose_keeps:
  assumes "n \<noteq> int SIGKILL" "1 \<le> n" "n \<le> int NSIG" "keeps s t"
  shows "runs (case dispose (nat n) h (slot r t) of None \<Rightarrow> Ret EPERM t
    | Some p \<Rightarrow> Ret 0 (set_slot r (\<lambda>_. p\<lparr>mp_sigact := (mp_sigact p)[nat n := \<lparr>sa_handler = h, sa_mask = sigdelset SIGKILL m, sa_flags = f\<rparr>], mp_sigreturn := y\<rparr>) t))
    (\<lambda>_. keeps s) any_stop"
proof (cases "dispose (nat n) h (slot r t)")
  case (Some p)
  have "nat n \<noteq> SIGKILL" "nat n \<le> NSIG" using assms by auto
  then have "guarded (slot r t) \<Longrightarrow> guarded (p\<lparr>mp_sigact := (mp_sigact p)[nat n := \<lparr>sa_handler = h, sa_mask = sigdelset SIGKILL m, sa_flags = f\<rparr>], mp_sigreturn := y\<rparr>)"
    using dispose_open [OF _ Some] dispose_flags [OF Some] by (elim guarded_open) simp_all
  then show ?thesis using Some assms(4) by (auto intro!: keeps_steps(9))
qed (simp add: assms)

lemma sigaction_keeps: "runs (do_sigaction e s) (\<lambda>_. keeps s) any_stop"
proof (cases "m1_i2 (m_in s) = int SIGKILL \<or> m1_i2 (m_in s) < 1 \<or> m1_i2 (m_in s) > int NSIG")
  case False
  then have n: "m1_i2 (m_in s) \<noteq> int SIGKILL" "1 \<le> m1_i2 (m_in s)" "m1_i2 (m_in s) \<le> int NSIG" by auto
  have c: "runs (if b then (let (a, s) = ask e c s in Ret (a_res a) s) else Ret 0 s) (\<lambda>_. keeps s) any_stop" for b c
    by (simp add: ask_def keeping)
  note d = dispose_keeps [OF n keeps_steps(2) [OF keeps_steps(1)], unfolded slot_kcalls(1)]
  show ?thesis unfolding do_sigaction_def Let_def [of "m1_i2 (m_in s)"] Let_def [of "nat _"] Let_def [of "cur s"]
    using False by (simp only: de_Morgan_disj if_False simp_thms)
      (rule keeps_bnd [OF c], simp add: ask_def Let_def d keeping)
next
  case True
  then have "do_sigaction e s = Ret 0 s \<or> do_sigaction e s = Ret EINVAL s"
    by (cases "m1_i2 (m_in s) = int SIGKILL") (simp_all add: do_sigaction_def Let_def)
  then show ?thesis by (auto simp: keeping)
qed

lemma mask_keeps: "(\<And>m. \<not> bit m SIGKILL \<Longrightarrow> \<not> bit (f m) SIGKILL) \<Longrightarrow> keeps s t \<Longrightarrow> keeps s (set_mask f r t)"
  unfolding set_mask_def by (intro keeps_steps(9)) (auto intro: guarded_mask)

lemma sigmask_keeps:
  "runs (do_sigprocmask e s) (\<lambda>_. keeps s) any_stop" "runs (do_sigsuspend e s) (\<lambda>_. keeps s) any_stop" "runs (do_sigreturn e s) (\<lambda>_. keeps s) any_stop"
proof -
  have p: "runs (bnd (check_pending e r t) (\<lambda>_ s. Ret (v :: int) s)) (\<lambda>_. keeps s) any_stop" if "keeps s t" for r t v
    by (rule keeps_bnd [OF kk.runs_from [OF that pending_keeps]]) (simp add: keeping)
  have r: "keeps s (set_slot (cur s) (\<lambda>p. p\<lparr>mp_reply := (mp_reply p)\<lparr>m_w3 := mp_sigmask p\<rparr>\<rparr>) s)" by (auto intro!: keeping)
  show "runs (do_sigprocmask e s) (\<lambda>_. keeps s) any_stop"
    using p [OF mask_keeps [OF _ r]] mask_keeps [OF _ r] r mask_each_bit unfolding do_sigprocmask_def Let_def by simp
  show "runs (do_sigsuspend e s) (\<lambda>_. keeps s) any_stop"
    unfolding do_sigsuspend_def Let_def by (intro p keeps_steps) (auto intro: guarded_mask)
  show "runs (do_sigreturn e s) (\<lambda>_. keeps s) any_stop"
    unfolding do_sigreturn_def Let_def ask_def by (auto intro!: p keeps_steps intro: guarded_mask)
qed

lemma fork_into_keeps:
  assumes "cur s < length (mproc_tab s)" "running (slot (cur s) s)"
  shows "runs (fork_into e n b s) (\<lambda>_. keeps s) any_stop"
proof -
  let ?u = "s\<lparr>procs_in_use := procs_in_use s + 1\<rparr>"
  have c: "guarded p \<Longrightarrow> running p \<Longrightarrow> guarded (child_slot q b p)" for q b p
    by (auto simp: child_slot_def Let_def guarded_def running_iff has_bits has_priv inherit_flags_def bit_and_iff bit_or_iff pm_flag_bits)
  have g: "runs (get_free_pid t) (\<lambda>_. keeps t) any_stop" for t
    by (simp add: get_free_pid_def keeping split: option.split)
  have "keeps ?u (set_slot n (\<lambda>_. child_slot (who ?u) b (slot (cur s) ?u)) ?u)"
    using assms by (intro keeps_slot c) (simp_all add: killable_def slot_def)
  then have "keeps s (set_slot n (\<lambda>_. child_slot (who ?u) b (slot (cur s) ?u)) ?u)" using keeps_trans keeps_steps(1,5) by blast
  from kk.runs_from [OF this g] show ?thesis unfolding fork_into_def Let_def
    by (rule keeps_bnd) (auto simp: ask_def intro!: keeping)
qed

lemma fork_keeps:
  assumes "cur s < length (mproc_tab s)" "running (slot (cur s) s)"
  shows "runs (do_fork e s) (\<lambda>_. keeps s) any_stop"
proof -
  have a: "runs (on_holes f s) (\<lambda>_ t. \<exists>h. t = s\<lparr>pm_holes := h\<rparr>) any_stop" for f :: "holes \<Rightarrow> ('a, holes) outcome"
    by (cases "f (pm_holes s)") (auto simp: on_holes_def)
  have k: "keeps s (s\<lparr>pm_holes := h, kcalls := l\<rparr>)" for h l by (intro keeps_steps)
  have f: "runs (fork_into e n b (s\<lparr>pm_holes := h, kcalls := l\<rparr>)) (\<lambda>_. keeps s) any_stop" for n b h l
    using kk.runs_from [OF k fork_into_keeps] assms by simp
  have "runs (bnd (on_holes (alloc_mem n) s) g) (\<lambda>_. keeps s) any_stop"
    if "\<And>x h. runs (g x (s\<lparr>pm_holes := h\<rparr>)) (\<lambda>_. keeps s) any_stop" for n and g :: "32 word \<Rightarrow> int act"
    by (rule runs_bnd [OF a]) (use that in auto)
  then show ?thesis unfolding do_fork_def Let_def by (simp add: f ask_def keeping split: option.split)
qed

lemma exit_call_keeps: "runs (pm_exit e r st s) (\<lambda>_. keeps s) any_stop"
  using exit_keeps [of "Suc PM_NR_PROCS" e] by (simp add: keeping_exit_def pm_exit_def)

lemma trace_keeps: "runs (do_trace e s) (\<lambda>_. keeps s) any_stop"
proof -
  have r: "runs (bnd (sig_proc e c n (set_slot c (drop_flag TRACED) s)) (\<lambda>_ s. Ret () (set_slot c (raise_flag TRACED) s))) (\<lambda>_. keeps s) any_stop" for c n
    by (rule keeps_bnd, rule kk.runs_from [OF _ sig_keeps]) (auto intro!: keeping)
  have p: "runs (if a then bnd (if b then bnd (sig_proc e c n (set_slot c (drop_flag TRACED) s)) (\<lambda>_ s. Ret () (set_slot c (raise_flag TRACED) s))
      else Ret () s) (\<lambda>_ s. Ret () (set_slot c (drop_flag STOPPED) s)) else Ret () s) (\<lambda>_. keeps s) any_stop" for a b c n
  proof -
    have s: "keeps t (set_slot c (drop_flag STOPPED) t)" for t by (auto intro!: keeping)
    show ?thesis using keeps_bnd [OF r [of c n], where f = "\<lambda>_ s. Ret () (set_slot c (drop_flag STOPPED) s)"] s by (simp add: keeping)
  qed
  have x: "runs (bnd (pm_exit e c st s) (\<lambda>_ s. Ret 0 (trace_reply r 0 s))) (\<lambda>_. keeps s) any_stop" for c st r
    by (rule keeps_bnd [OF exit_call_keeps]) (auto simp: trace_reply_def intro!: keeping)
  have y: "runs (bnd (if a then bnd (if b then bnd (sig_proc e c n (set_slot c (drop_flag TRACED) s)) (\<lambda>_ s. Ret () (set_slot c (raise_flag TRACED) s))
      else Ret () s) (\<lambda>_ s. Ret () (set_slot c (drop_flag STOPPED) s)) else Ret () s) f) (\<lambda>_. keeps s) any_stop"
    if "\<And>t. runs (f () t) (\<lambda>_. keeps t) any_stop" for a b c n and f :: "unit \<Rightarrow> int act"
    by (rule keeps_bnd [OF p]) (use that in simp)
  have z: "runs (let (a, s) = ask e (SysTrace q c x d) s in if a_res a \<noteq> 0 then Ret (- sint (a_2 a)) s else Ret 0 (trace_reply r (a_1 a) s)) (\<lambda>_. keeps s) any_stop"
    for q c x d r s by (auto simp: ask_def trace_reply_def intro!: keeping)
  have t: "keeps s (trace_reply r v (set_slot r (raise_flag TRACED) s))" for r v unfolding trace_reply_def by (auto intro!: keeping)
  show ?thesis
  proof (cases "m1_i2 (m_in s) \<noteq> T_OK \<and> (\<exists>c. find_proc (m1_i1 (m_in s)) s = Some c \<and> has (slot c s) STOPPED)")
    case True
    then obtain c where c: "m1_i2 (m_in s) \<noteq> T_OK" "find_proc (m1_i1 (m_in s)) s = Some c" "has (slot c s) STOPPED" by blast
    show ?thesis unfolding do_trace_eq [OF c] by (rule if_split [THEN iffD2], intro conjI impI x, rule if_split [THEN iffD2], intro conjI impI y z) (simp add: keeping)
  next
    case False
    then show ?thesis using t by (cases "find_proc (m1_i1 (m_in s)) s") (auto simp: do_trace_def Let_def keeping)
  qed
qed

lemma small_keeps:
  "runs (do_pm_exit e s) (\<lambda>_. keeps s) any_stop" "runs (do_kill e s) (\<lambda>_. keeps s) any_stop" "runs (do_alarm e s) (\<lambda>_. keeps s) any_stop"
  "runs (do_pause s) (\<lambda>_. keeps s) any_stop" "runs (do_sigpending s) (\<lambda>_. keeps s) any_stop" "runs (do_allocmem s) (\<lambda>_. keeps s) any_stop"
  "runs (do_freemem s) (\<lambda>_. keeps s) any_stop" "runs (do_getset e c s) (\<lambda>_. keeps s) any_stop"
proof -
  show "runs (do_pm_exit e s) (\<lambda>_. keeps s) any_stop" unfolding do_pm_exit_def by (rule keeps_bnd [OF exit_call_keeps]) (simp add: keeping)
  show "runs (do_allocmem s) (\<lambda>_. keeps s) any_stop" unfolding do_allocmem_def by (rule keeps_bnd [OF on_holes_keeps]) (auto intro!: keeping)
  show "runs (do_freemem s) (\<lambda>_. keeps s) any_stop" unfolding do_freemem_def by (rule keeps_bnd [OF on_holes_keeps]) (auto intro!: keeping)
  show "runs (do_getset e c s) (\<lambda>_. keeps s) any_stop" by (cases c) (auto simp: do_getset_def Let_def intro!: keeping)
qed (auto simp: do_kill_def do_alarm_def do_pause_def do_sigpending_def intro!: check_sig_keeps alarm_keeps keeping)

lemma brk_keeps: "runs (do_brk e s) (\<lambda>_. keeps s) any_stop"
proof -
  define t where "t = s\<lparr>kcalls := SysGetproc (who s) # kcalls s\<rparr>"
  define a where "a = e (SysGetproc (who s) # kcalls s)"
  let ?d = "signed_drop_bit PM_CLICK_SHIFT (m_w3 (m_in s) + 1024 - 1) - mem_vir (mp_seg_D (slot (cur s) t))"
  obtain v u where adj: "adjust e (cur s) ?d (a_1 a) t = (v, u)" by fastforce
  have "keeps s t" unfolding t_def by (intro keeps_steps)
  from adjust_keeps [OF this, of e "cur s" ?d "a_1 a"] have u: "keeps s u" using adj by simp
  have "keeps s (set_slot r (\<lambda>p. p\<lparr>mp_reply := f p\<rparr>) u)" "keeps s (set_slot r (\<lambda>p. p\<lparr>mp_reply := f p\<rparr>) s)" for r f
    using u by (auto intro!: keeps_steps)
  then show ?thesis using adj by (simp add: do_brk_def Let_def ask_def t_def [symmetric] a_def [symmetric])
qed

lemma priority_keeps: "runs (do_getsetpriority e s) (\<lambda>_. keeps s) any_stop"
proof -
  have n: "keeps s ((set_slot r (\<lambda>p. p\<lparr>mp_nice := v\<rparr>) s)\<lparr>kcalls := k\<rparr>)" for r v k by (intro keeps_steps) simp
  show ?thesis
  proof (cases "if m1_i2 (m_in s) = 0 then Some (who s) else proc_from_pid (m1_i2 (m_in s)) s")
    case None
    then show ?thesis by (simp only: do_getsetpriority_def Let_def option.case) (simp add: keeping)
  next
    case (Some r)
    then show ?thesis using n by (simp only: do_getsetpriority_def Let_def option.case) (simp add: ask_def keeping)
  qed
qed

lemma wait_keeps: "runs (do_waitpid s) (\<lambda>_. keeps s) any_stop"
proof -
  have l: "runs (wait_loop w rs c s) (\<lambda>_. keeps s) any_stop" for w rs c
  proof (induction rs arbitrary: c)
    case (Cons r rs)
    have "runs (bnd (cleanup r s) (\<lambda>_ t. Ret (Some SUSPEND, Suc c) t)) (\<lambda>_. keeps s) any_stop"
      by (rule keeps_bnd [OF cleanup_keeps]) (simp add: keeping)
    moreover have "keeps s (set_slot r (\<lambda>p. p\<lparr>mp_sigstatus := 0\<rparr>) (reply_res2 (cur s) v s))" for v by (auto intro!: keeping)
    ultimately show ?case using Cons unfolding wait_loop.simps Let_def by simp
  qed (simp add: keeping)
  have "keeps t (set_slot (cur t) (\<lambda>p. (raise_flag WAITING p)\<lparr>mp_wpid := w\<rparr>) t)" for t w by (auto intro!: keeping)
  then show ?thesis unfolding do_waitpid_def Let_def by (intro keeps_bnd [OF l]) (auto simp: keeping split: option.split)
qed

lemma info_keeps:
  "runs (do_time e s) (\<lambda>_. keeps s) any_stop" "runs (do_stime e s) (\<lambda>_. keeps s) any_stop" "runs (do_times e s) (\<lambda>_. keeps s) any_stop"
  "runs (do_getsysinfo e s) (\<lambda>_. keeps s) any_stop" "runs (do_getprocnr e s) (\<lambda>_. keeps s) any_stop"
proof -
  have b: "keeps s t \<Longrightarrow> keeps s (t\<lparr>boottime := x\<rparr>)" for s t x by (simp add: keeps_def killable_def)
  show "runs (do_time e s) (\<lambda>_. keeps s) any_stop" "runs (do_times e s) (\<lambda>_. keeps s) any_stop" "runs (do_getsysinfo e s) (\<lambda>_. keeps s) any_stop"
    by (auto simp: do_time_def do_times_def do_getsysinfo_def ask_def intro!: keeping)
  show "runs (do_stime e s) (\<lambda>_. keeps s) any_stop" by (auto simp: do_stime_def ask_def Let_def intro!: keeping b)
  show "runs (do_getprocnr e s) (\<lambda>_. keeps s) any_stop"
    by (auto simp: do_getprocnr_def reply_procnr_def ask_def Let_def intro!: keeping split: option.split)
qed

lemmas call_keeps = fork_keeps wait_keeps small_keeps brk_keeps priority_keeps trace_keeps sigaction_keeps sigmask_keeps info_keeps

lemma served_keeps: "n \<in> set served \<Longrightarrow> cur s < length (mproc_tab s) \<Longrightarrow> running (slot (cur s) s) \<Longrightarrow> runs (call_vec e n s) (\<lambda>_. keeps s) any_stop"
  by (auto simp: served_def call_vec_def call_keeps)

lemma ksig_keeps: "runs (handle_sig e r m s) (\<lambda>_. keeps s) any_stop"
proof -
  have l: "runs (sig_each e i m js t) (\<lambda>_. keeps t) any_stop" for i js t
  proof (induction js arbitrary: t)
    case (Cons j js)
    from keeps_bnd [OF check_sig_keeps Cons] Cons show ?case by simp
  qed (simp add: keeping)
  have k: "keeps s (set_slot PM_PROC_NR (\<lambda>p. p\<lparr>mp_procgrp := g\<rparr>) (s\<lparr>cur := PM_PROC_NR\<rparr>))" for g by (auto intro!: keeping)
  from kk.runs_from [OF k l] show ?thesis by (simp add: handle_sig_def Let_def keeping)
qed

lemma sigalrm_keeps: "runs (cause_sigalrm e r s) (\<lambda>_. keeps s) any_stop"
proof -
  have k: "keeps s (set_slot r (drop_flag ALARM_ON) s)" by (auto intro!: keeping)
  have "runs (bnd (check_sig e i j (set_slot r (drop_flag ALARM_ON) s)) (\<lambda>_ s. Ret () s)) (\<lambda>_. keeps s) any_stop" for i j
    by (rule keeps_bnd [OF kk.runs_from [OF k check_sig_keeps]]) (simp add: keeping)
  then show ?thesis by (simp add: cause_sigalrm_def Let_def keeping)
qed

lemma finish_keeps: "keeps s (snd (finish_call v s))"
proof -
  have "keeps s t \<Longrightarrow> keeps s (snd (send_replies rs t))" for rs t
  proof (induction rs arbitrary: t)
    case (Cons r rs)
    then show ?case using keeps_steps(9) [OF Cons.prems, of r "drop_flag REPLY"] by (auto simp: split_beta Let_def)
  qed simp
  then show ?thesis by (auto simp: finish_call_def intro!: keeping)
qed

lemma pm_step_killable:
  assumes "pm_step e s t" "killable s" "length (mproc_tab s) = PM_NR_PROCS"
  shows "killable t"
  using assms(1)
proof cases
  case (call p n m v u)
  have g: "keeps s (get_work p n m s)" "cur (get_work p n m s) < length (mproc_tab (get_work p n m s))"
      "running (slot (cur (get_work p n m s)) (get_work p n m s))"
    using call(2) assms(3) by (simp_all add: get_work_def keeps_def killable_def lives_def running_view vw_def slot_def)
  show ?thesis using kk.runs_from [OF g(1) served_keeps [OF call(3) g(2,3), of e]] call(1,4) finish_keeps [of u v] assms(2) by (auto simp: keeps_def)
next
  case (alarm r u)
  have "keeps s (s\<lparr>cur := PM_PROC_NR\<rparr>)" by (intro keeps_steps)
  from kk.runs_from [OF this sigalrm_keeps, of e r] show ?thesis using alarm finish_keeps [of u SUSPEND] assms(2) by (auto simp: keeps_def)
next
  case (ksig r m u)
  have "keeps s (s\<lparr>cur := PM_PROC_NR\<rparr>)" by (intro keeps_steps)
  from kk.runs_from [OF this ksig_keeps, of e r m] show ?thesis using ksig finish_keeps [of u SUSPEND] assms(2) by (auto simp: keeps_def)
qed

lemma pm_steps_killable:
  "(pm_step e)\<^sup>*\<^sup>* s t \<Longrightarrow> env_ok e \<Longrightarrow> good s \<Longrightarrow> killable s \<Longrightarrow> good t \<and> killable t"
proof (induction rule: rtranclp_induct)
  case (step u t)
  then have u: "good u" "killable u" by simp_all
  then have "length (mproc_tab u) = PM_NR_PROCS" using pm_inv_len by (auto simp: good_def pm_ok_def)
  then show ?case using pm_step_good [OF step(2)] pm_step_killable [OF step(2)] u step.prems by simp
qed simp

section \<open>Delivery\<close>

lemma check_loop_one:
  assumes "0 < pid" "m \<noteq> 0" "running (slot r s)" "mp_pid (slot r s) = pid" "sig_permits (slot (cur s) s) (slot r s)"
  shows "r \<in> set rs \<Longrightarrow> (\<And>q. q \<in> set rs \<Longrightarrow> q \<noteq> r \<Longrightarrow> in_use (slot q s) \<Longrightarrow> mp_pid (slot q s) \<noteq> pid) \<Longrightarrow>
    check_loop sg pid m rs c err s = bnd (sg r m s) (\<lambda>_ t. Ret (Suc c, err) t)"
proof (induction rs)
  case (Cons q rs)
  have l: "in_use (slot r s)" "\<not> has (slot r s) ZOMBIE" using assms(3) by (simp_all add: running_iff in_use_def)
  show ?case
  proof (cases "q = r")
    case True
    then show ?thesis using l assms by (simp add: Let_def sig_selects_def)
  next
    case False
    then have "\<not> in_use (slot q s) \<or> \<not> sig_selects pid (slot (cur s) s) (slot q s)" using Cons.prems assms(1) by (auto simp: sig_selects_def)
    then show ?thesis using Cons False by (auto simp: Let_def)
  qed
qed simp

lemma sigkill_sets [simp]: "\<not> bit ign_sset SIGKILL" "\<not> bit core_sset SIGKILL"
  by (simp_all add: ign_sset_def core_sset_def core_sigs_def ign_sigs_def SIGKILL_def SIGCHLD_def)

lemma sig_kills:
  assumes "pm_ok F s" "env_ok e" "r \<in> lives (vw s)" "open_to_kill (slot r s)"
  shows "runs (sig_proc e r SIGKILL s) (\<lambda>_ t. fine s t \<and> r \<notin> lives (vw t)) doomed"
proof -
  let ?t = "set_slot r (\<lambda>p. p\<lparr>mp_sigstatus := word_of_nat SIGKILL\<rparr>) s"
  have t: "calm s ?t" using assms(3) by (intro calm_sigstatus) (simp_all add: lives_def)
  have "runs (pm_exit e r 0 ?t) (\<lambda>_ u. fine ?t u \<and> r \<notin> lives (vw u)) doomed"
    using pm_exit_ok [OF assms(2)] pm_ok_calm [OF t assms(1)] assms(3) calm_lives [OF t] lives_le [of "vw ?t"] unfolding exits_def by metis
  then have "runs (pm_exit e r 0 ?t) (\<lambda>_ u. fine s u \<and> r \<notin> lives (vw u)) doomed"
    by (rule runs_mono) (auto intro: fine_trans calm_fine [OF t assms(1)])
  moreover have "running (slot r s)" using assms(3) by (simp add: lives_def running_view vw_def)
  ultimately show ?thesis using assms(4)
    by (simp add: sig_proc_def sig_proc_with_def sig_default_def sigismember_def open_to_kill_def Let_def)
qed

lemma kill_ok:
  assumes "pm_ok F s" "env_ok e" "killable s" "r \<in> lives (vw s)" "\<not> has (slot r s) PRIV_PROC" "INIT_PID < mp_pid (slot r s)" "sig_permits (slot (cur s) s) (slot r s)"
  shows "runs (check_sig e (mp_pid (slot r s)) (int SIGKILL) s) (\<lambda>v t. fine s t \<and> r \<notin> lives (vw t) \<and> (v = 0 \<or> v = SUSPEND)) doomed"
proof -
  let ?pid = "mp_pid (slot r s)"
  have inv: "pids_ok (vw s)" "length (mproc_tab s) = PM_NR_PROCS" using assms(1) pm_inv_len by (auto simp: pm_ok_def pm_inv_def tab_ok_def)
  have r: "running (slot r s)" "r < PM_NR_PROCS" "r \<in> users (vw s)" using assms(4) by (auto simp: lives_def users_def running_view vw_def live_def)
  have u: "q \<noteq> r \<Longrightarrow> q < PM_NR_PROCS \<Longrightarrow> in_use (slot q s) \<Longrightarrow> mp_pid (slot q s) \<noteq> ?pid" for q
    using inv(1) r(3) unfolding pids_ok_def inj_on_def by (force simp: users_def vw_def in_use_def)
  have o: "open_to_kill (slot r s)" using assms(3,5) inv(2) r(1,2) by (simp add: killable_def guarded_def slot_def)
  have l: "check_loop (sig_proc e) ?pid SIGKILL all_slots 0 ESRCH s = bnd (sig_proc e r SIGKILL s) (\<lambda>_ t. Ret (1, ESRCH) t)"
    using check_loop_one [of ?pid SIGKILL r s all_slots "sig_proc e" 0 ESRCH] assms(6,7) r u by (simp add: SIGKILL_def INIT_PID_def)
  have k: "check_sig e ?pid (int SIGKILL) s = bnd (check_loop (sig_proc e) ?pid SIGKILL all_slots 0 ESRCH s) (\<lambda>(count, err) s.
      if \<not> running (slot (cur s) s) then Ret SUSPEND s else Ret (if count > 0 then 0 else err) s)"
    using assms(6) by (simp add: check_sig_def check_sig_with_def NSIG_def SIGKILL_def)
  show ?thesis unfolding k l using sig_kills [OF assms(1,2,4) o]
    by (auto simp: runs_bnd_iff elim!: runs_mono)
qed

end
