(* ===== verification/Pmprops.thy ===== *)
theory Pmprops
  imports Pmkill
begin

text \<open>
  The properties of the process manager of MINIX, and a small concrete state to try them on: the process manager, the
  reincarnation server, \<open>INIT\<close> and one child of \<open>INIT\<close>.
\<close>

section \<open>A concrete state\<close>

definition mess0 :: pmess where
  "mess0 = \<lparr>m_type = 0, m_w0 = 0, m_w1 = 0, m_w2 = 0, m_w3 = 0, m_w4 = 0, m_w5 = 0\<rparr>"

definition proc0 :: "int \<Rightarrow> nat \<Rightarrow> 32 word \<Rightarrow> 32 word \<Rightarrow> pmproc" where
  "proc0 pid parent base f =
     \<lparr>mp_seg_T = \<lparr>mem_vir = 0, mem_phys = base, mem_len = 0\<rparr>, mp_seg_D = \<lparr>mem_vir = 0, mem_phys = base, mem_len = 2\<rparr>,
      mp_seg_S = \<lparr>mem_vir = 8, mem_phys = base + 8, mem_len = 2\<rparr>, mp_exitstatus = 0, mp_sigstatus = 0, mp_pid = pid, mp_procgrp = 0,
      mp_wpid = 0, mp_parent = parent, mp_child_utime = 0, mp_child_stime = 0, mp_realuid = 0, mp_effuid = 0, mp_realgid = 0, mp_effgid = 0,
      mp_ino = 0, mp_dev = 0, mp_ctime = 0, mp_ignore = 0, mp_catch = 0, mp_sig2mess = 0, mp_sigmask = 0, mp_sigmask2 = 0,
      mp_sigpending = 0, mp_sigact = replicate 21 \<lparr>sa_handler = 0, sa_mask = 0, sa_flags = 0\<rparr>, mp_sigreturn = 0, mp_exptime = 0,
      mp_flags = f, mp_procargs = 0, mp_reply = mess0, mp_nice = 0, mp_name = replicate 16 0\<rparr>"

text \<open>A system process ignores every signal, as \<open>pm_init\<close> has it.\<close>

definition servant :: "pmproc \<Rightarrow> pmproc" where
  "servant p = p\<lparr>mp_ignore := -1\<rparr>"

definition pm0 :: "32 word \<Rightarrow> nat \<Rightarrow> int \<Rightarrow> pmess \<Rightarrow> holes \<Rightarrow> pmst" where
  "pm0 init c n m h =
     \<lparr>mproc_tab = map (\<lambda>r. if r = 0 then servant (proc0 0 0 10 0x3001) else if r = 2 then servant (proc0 3 2 20 0x3001) else if r = 7 then proc0 1 2 30 init
         else if r = 8 then (proc0 5 7 40 1)\<lparr>mp_procgrp := 9\<rparr> else proc0 0 0 0 0) [0..<64],
      procs_in_use = 4, next_pid = 5, cur = c, who = c, call_nr = n, m_in = m, pm_holes = h, kcalls = [], boottime = 0,
      monitor_params = replicate 512 0, param_overrides = replicate 2 (replicate 30 0, replicate 30 0), local_params = 0,
      mbuf = replicate 16384 0, name_buf = replicate 255 0\<rparr>"

definition env0 :: env where
  "env0 l = \<lparr>a_res = 0, a_1 = 0, a_2 = 0, a_3 = 0, a_data = [], a_stat = \<lparr>st_dev = 0, st_ino = 0, st_mode = 0, st_uid = 0, st_gid = 0, st_ctime = 0\<rparr>\<rparr>"

abbreviation free0 :: "nat set" where
  "free0 \<equiv> {100..<150} \<union> {400..<420}"

lemma env0_ok: "env_ok env0"
  by (simp add: env_ok_def env0_def)

lemma slot_pm0:
  "r < 64 \<Longrightarrow> slot r (pm0 i c n m h) = (if r = 0 then servant (proc0 0 0 10 0x3001) else if r = 2 then servant (proc0 3 2 20 0x3001) else if r = 7 then proc0 1 2 30 i
     else if r = 8 then (proc0 5 7 40 1)\<lparr>mp_procgrp := 9\<rparr> else proc0 0 0 0 0)"
  by (simp add: slot_def pm0_def)

lemma pm0_sel [simp]: "length (mproc_tab (pm0 i c n m h)) = 64" "procs_in_use (pm0 i c n m h) = 4" "next_pid (pm0 i c n m h) = 5"
  "cur (pm0 i c n m h) = c" "who (pm0 i c n m h) = c" "call_nr (pm0 i c n m h) = n" "m_in (pm0 i c n m h) = m" "pm_holes (pm0 i c n m h) = h"
  by (simp_all add: pm0_def)

lemma view_proc0:
  "view (proc0 pid par b f) = \<lparr>v_use = bit f 0, v_zomb = bit f 2, v_wait = bit f 1, v_stop = bit f 7, v_sep = bit f 5, v_pid = pid, v_grp = 0, v_wpid = 0,
     v_par = par, v_text = (b, 0), v_core = (b, 10), v_file = (0, 0, 0), v_stat = (0, 0)\<rparr>"
  by (simp add: view_def has_bits proc0_def)

lemma view_servant: "view (servant p) = view p"
  by (simp add: view_def has_def servant_def)

lemma view_group: "view (p\<lparr>mp_procgrp := g\<rparr>) = (view p)\<lparr>v_grp := g\<rparr>"
  by (simp add: view_def has_def)

definition view0 :: "32 word \<Rightarrow> nat \<Rightarrow> pview" where
  "view0 i r = (if r = 0 then view (proc0 0 0 10 0x3001) else if r = 2 then view (proc0 3 2 20 0x3001) else if r = 7 then view (proc0 1 2 30 i)
     else if r = 8 then (view (proc0 5 7 40 1))\<lparr>v_grp := 9\<rparr> else view (proc0 0 0 0 0))"

lemma vw_pm0: "r < 64 \<Longrightarrow> vw (pm0 i c n m h) r = view0 i r"
  by (simp add: vw_def slot_pm0 view0_def view_group view_servant)

lemma pm0_sets:
  assumes "i = 1 \<or> i = 3 \<or> i = 5"
  shows "users (vw (pm0 i c n m h)) = {0, 2, 7, 8}" "lives (vw (pm0 i c n m h)) = (if i = 5 then {0, 2, 8} else {0, 2, 7, 8})"
  using assms by (auto simp: users_def lives_def live_def vw_pm0 view0_def view_proc0 PM_NR_PROCS_def split: if_splits)

lemma pm0_layout: "i = 1 \<or> i = 3 \<or> i = 5 \<Longrightarrow> mem_layout free0 (vw (pm0 i c n m h)) {0, 2, 7, 8}"
  by (auto simp: mem_layout_def placed_def apart_def shares_def core_of_def text_of_def vw_pm0 view0_def view_proc0 block_def)

lemma pm0_ok:
  assumes i: "i = 1 \<or> i = 3 \<or> i = 5" and h: "mem_rep h free0 0" and c: "c < 64"
  shows "pm_ok free0 (pm0 i c n m h)"
proof -
  let ?v = "vw (pm0 i c n m h)"
  have "parents_ok {} ?v" "pids_ok ?v"
    unfolding parents_ok_def pids_ok_def pm0_sets [OF i]
    by (auto simp: vw_pm0 view0_def view_proc0 PM_NR_PROCS_def INIT_PROC_NR_def live_def roots_def RS_PROC_NR_def PM_PROC_NR_def)
  moreover have "waits_ok ?v"
    unfolding waits_ok_def pm0_sets [OF i] using i
    by (auto simp: vw_pm0 view0_def view_proc0 PM_NR_PROCS_def live_def)
  moreover have "mem_layout free0 ?v (lives ?v)"
    using pm0_layout [OF i, of c n m h] pm0_sets(2) [OF i, of c n m h] by (auto intro: layout_like simp: like_def)
  ultimately show ?thesis using h c pm0_sets(1) [OF i, of c n m h]
    by (simp add: pm_ok_def pm_inv_def tab_ok_def PM_NR_PROCS_def INIT_PID_def NR_PIDS_def)
qed

lemma holes0_rep: "\<exists>h. mem_rep h free0 0"
  using holes_example unfolding mem_rep_def by (meson zero_le)

section \<open>Fork\<close>

text \<open>Process identifiers. The search of \<open>get_free_pid\<close> ends for every contents of the process table, although it is an unbounded
  loop, because the 64 slots can block at most 128 of the 29999 identifiers; the result lies in the range of identifiers and is neither the
  identifier nor the process group of any slot.\<close>

theorem pm_free_pid_found:
  assumes "length (mproc_tab s) = PM_NR_PROCS" and "INIT_PID \<le> next_pid s" and "next_pid s \<le> NR_PIDS"
  shows "\<exists>n. get_free_pid s = Ret n (s\<lparr>next_pid := n\<rparr>) \<and> INIT_PID < n \<and> n \<le> NR_PIDS \<and>
    (\<forall>p \<in> set (mproc_tab s). mp_pid p \<noteq> n \<and> mp_procgrp p \<noteq> n)"
  using get_free_pid_ok [OF assms] by (auto simp: taken_def)

theorem pm_free_pid_found_witness:
  "\<exists>h n. get_free_pid (pm0 1 7 2 mess0 h) = Ret n ((pm0 1 7 2 mess0 h)\<lparr>next_pid := n\<rparr>) \<and> INIT_PID < n"
  using pm_free_pid_found [of "pm0 1 7 2 mess0 undefined"] by (auto simp: PM_NR_PROCS_def INIT_PID_def NR_PIDS_def)

text \<open>C29: Fork. With a full table, or one that is full but for the last two slots and an ordinary caller, the call is refused and nothing
  changes; so it is when no run of free memory has the size of the caller's core image. Otherwise the child gets a slot that was free, an
  identifier that no process and no group uses, the caller as its parent, a core image in memory that was free (which is taken out of the
  free memory) and the text of its parent if that is separate; it inherits neither a wait nor a stop; parent and child get their replies;
  and the invariant of the process table holds again. No case ends in a fault, a panic or an endless loop.\<close>

theorem pm_fork_correct:
  assumes "pm_ok F s" and "env_ok e" and "cur s \<in> lives (vw s)" and "who s = cur s"
  shows "if fork_refused s then do_fork e s = Ret EAGAIN s
    else if \<forall>b. \<not> block b (image_size s) \<subseteq> F then do_fork e s = Ret ENOMEM s
    else \<exists>pid c b t. do_fork e s = Ret pid t \<and> forked F s pid c b t \<and> pm_ok (F - block b (image_size s)) t"
  using do_fork_ok [OF assms] .

theorem pm_fork_correct_witness:
  "\<exists>h pid c b t. do_fork env0 (pm0 1 7 2 mess0 h) = Ret pid t \<and> forked free0 (pm0 1 7 2 mess0 h) pid c b t \<and> pm_ok (free0 - block b 10) t"
proof -
  obtain h where h: "mem_rep h free0 0" using holes0_rep by blast
  let ?s = "pm0 1 7 2 mess0 h"
  have ok: "pm_ok free0 ?s" using pm0_ok [of 1 h 7] h by simp
  have c: "cur ?s \<in> lives (vw ?s)" "who ?s = cur ?s" using pm0_sets(2) [of 1] by simp_all
  have n: "image_size ?s = 10" "\<not> fork_refused ?s"
    by (simp_all add: image_size_def vw_pm0 view0_def view_proc0 fork_refused_def PM_NR_PROCS_def LAST_FEW_def)
  have "block 100 10 \<subseteq> free0" by (auto simp: block_def)
  then have "\<not> (\<forall>b. \<not> block b (image_size ?s) \<subseteq> free0)" using n(1) by metis
  then show ?thesis using pm_fork_correct [OF ok env0_ok c] n by (simp only: if_False) metis
qed

section \<open>Exit\<close>

text \<open>A process whose exit does not end a session: no hangup is sent.\<close>

definition session_leader :: "nat \<Rightarrow> pmst \<Rightarrow> bool" where
  "session_leader r s \<longleftrightarrow> mp_pid (slot r s) = mp_procgrp (slot (cur s) s) \<and> mp_procgrp (slot (cur s) s) \<noteq> 0"

lemma bnd_Ret_unit: "bnd m Ret = m"
  by (cases m) simp_all

lemma exit_plain: "\<not> session_leader r s \<Longrightarrow> pm_exit e r st s = exit_body e (sig_proc_with e (pm_exit_n PM_NR_PROCS e)) r st s"
  by (auto simp: pm_exit_def Let_def session_leader_def bnd_Ret_unit)

text \<open>The state of the exiting process and of every other one after an exit.\<close>

definition gone :: "nat \<Rightarrow> int \<Rightarrow> pmst \<Rightarrow> pmst \<Rightarrow> bool" where
  "gone r st s t \<longleftrightarrow>
     (if awaited (vw s) r
      then \<not> v_use (vw t r) \<and> told ((vw s r)\<lparr>v_stat := (word_of_int st, snd (v_stat (vw s r)))\<rparr>) (slot (v_par (vw s r)) t)
      else v_use (vw t r) \<and> v_zomb (vw t r) \<and> v_pid (vw t r) = v_pid (vw s r) \<and> v_par (vw t r) = v_par (vw s r) \<and>
        v_stat (vw t r) = (word_of_int st, snd (v_stat (vw s r))))"

definition orphaned :: "nat \<Rightarrow> pmst \<Rightarrow> pmst \<Rightarrow> nat \<Rightarrow> bool" where
  "orphaned r s t q \<longleftrightarrow>
     (if v_use (vw s q) \<and> v_par (vw s q) = r
      then v_par (vw t q) = INIT_PROC_NR \<and> live (vw t q) = live (vw s q) \<and> (v_use (vw t q) \<or> v_zomb (vw s q) \<and> v_wait (vw s INIT_PROC_NR))
      else near (vw s q) (vw t q))"

lemma exited_gone:
  assumes x: "exited r st s t" and r: "r < PM_NR_PROCS" "v_par (vw s r) \<noteq> r"
  shows "gone r st s t" "q < PM_NR_PROCS \<Longrightarrow> q \<noteq> r \<Longrightarrow> orphaned r s t q"
proof -
  define v where "v = with_status r st (vw s)"
  have vr: "v r = (vw s r)\<lparr>v_stat := (word_of_int st, snd (v_stat (vw s r)))\<rparr>" "\<And>q. q \<noteq> r \<Longrightarrow> v q = vw s q" by (simp_all add: v_def with_status_def)
  have aw: "awaited v r = awaited (vw s) r" using r(2) by (simp add: awaited_def vr rightv_def)
  obtain b where b: "leaves r v b" "vw t = adopt_all r all_slots b" and td: "awaited v r \<Longrightarrow> told (v r) (slot (v_par (vw s r)) t)"
    using x r(2) by (auto simp: exited_def Let_def v_def [symmetric] vr(1))
  have n: "near (vw s q) (b q)" if "q \<noteq> r" for q
    using b(1) near_reap [OF that, of v] bury_sel(1) [OF that, of v] vr(2) [OF that] unfolding leaves_def by metis
  have w: "v_wait (b q) \<Longrightarrow> v_wait (vw s q)" for q
    using n [of q] b(1) by (cases "q = r") (auto simp: near_def leaves_def reap_sel bury_sel split: if_splits)
  have br: "if awaited v r then \<not> v_use (b r) else near (bury v r r) (b r)" using b(1) by (auto simp: leaves_def reap_sel)
  note a = adopt_all_slot [OF all_slots_set(2), of _ b r, folded b(2)]
  have nr: "near (b r) (vw t r)"
    using a [of r] r br near_sel(7) [of "bury v r r" "b r"] by (auto simp: bury_sel vr split: if_splits)
  show "gone r st s t"
  proof (cases "awaited v r")
    case True
    then show ?thesis using td aw br near_sel(1) [OF nr] by (simp add: gone_def vr)
  next
    case False
    then have m: "near (bury v r r) (vw t r)" using br near_trans [OF _ nr] by simp
    moreover have "v_stat (bury v r r) = (word_of_int st, snd (v_stat (vw s r)))" by (simp add: bury_def vr)
    ultimately have "v_stat (vw t r) = (word_of_int st, snd (v_stat (vw s r)))" by (auto simp: near_def bury_sel)
    then show ?thesis using False aw near_sel [OF m] by (simp add: gone_def bury_sel vr)
  qed
  show "orphaned r s t q" if q: "q < PM_NR_PROCS" "q \<noteq> r"
    using a [of q] q(1) near_sel [OF n [OF q(2)]] near_trans [OF n [OF q(2)]] w [of INIT_PROC_NR] by (auto simp: orphaned_def split: if_splits)
qed

lemma exit_gone_ok:
  assumes "pm_ok F s" and "env_ok e" and "r \<in> lives (vw s)" and "r \<notin> roots" and "\<not> session_leader r s"
  shows "runs (pm_exit e r st s)
    (\<lambda>_ t. gone r st s t \<and> (\<forall>q < PM_NR_PROCS. q \<noteq> r \<longrightarrow> orphaned r s t q) \<and> lives (vw t) = lives (vw s) - {r} \<and> pm_ok (F \<union> clicks_freed r s) t) doomed"
proof -
  have r: "r < PM_NR_PROCS" "r \<in> users (vw s)" using assms(3) by (simp_all add: lives_def users_def live_def)
  have "v_par (vw s r) \<noteq> r" using assms(1,4) r(2) by (auto simp: pm_ok_def pm_inv_def tab_ok_def parents_ok_def)
  then show ?thesis unfolding exit_plain [OF assms(5)]
    using r(1) by (intro runs_mono [OF exit_body_ok [OF assms(1-3)]]) (auto dest: exited_gone)
qed

text \<open>C30: Exit. When an ordinary process that does not lead the caller's session exits, it is told to its parent with its identifier and
  its status, and its slot is released, if the parent is waiting for it; otherwise it stays as a zombie with its identifier, its parent and its status.
  Its children get \<open>INIT\<close> as their parent, and one of them disappears only if it was a zombie and \<open>INIT\<close> was waiting; every other process
  keeps its slot. Exactly its core image, and its text unless another process shares it, become free memory, and the invariant
  holds again. The only panics are those of a system without \<open>INIT\<close>, reincarnation server or process manager, or with a full hole table.\<close>

theorem pm_exit_correct:
  assumes "pm_ok F s" and "env_ok e" and "r \<in> lives (vw s)" and "r \<notin> roots" and "\<not> session_leader r s"
  shows "runs (pm_exit e r st s)
    (\<lambda>_ t. gone r st s t \<and> (\<forall>q < PM_NR_PROCS. q \<noteq> r \<longrightarrow> orphaned r s t q) \<and> lives (vw t) = lives (vw s) - {r} \<and> pm_ok (F \<union> clicks_freed r s) t) doomed"
  using exit_gone_ok [OF assms] .

theorem pm_exit_correct_witness:
  "\<exists>h. runs (pm_exit env0 8 3 (pm0 1 8 1 mess0 h)) (\<lambda>_ t. gone 8 3 (pm0 1 8 1 mess0 h) t \<and> lives (vw t) = {0, 2, 7} \<and>
     pm_ok (free0 \<union> clicks_freed 8 (pm0 1 8 1 mess0 h)) t) doomed"
proof -
  obtain h where h: "mem_rep h free0 0" using holes0_rep by blast
  let ?s = "pm0 1 8 1 mess0 h"
  have ok: "pm_ok free0 ?s" using pm0_ok [of 1 h 8] h by simp
  have c: "8 \<in> lives (vw ?s)" "lives (vw ?s) - {8} = {0, 2, 7}" using pm0_sets(2) [of 1] by auto
  have r: "8 \<notin> roots" "\<not> session_leader 8 ?s"
    by (simp_all add: roots_def PM_PROC_NR_def RS_PROC_NR_def INIT_PROC_NR_def session_leader_def slot_pm0 proc0_def)
  show ?thesis using pm_exit_correct [OF ok env0_ok c(1) r, of 3] c(2) by (intro exI [of _ h]) (auto elim!: runs_mono)
qed

text \<open>C39: Without \<open>INIT\<close> the system cannot last: once \<open>INIT\<close> is dead, the exit of any process that \<open>INIT\<close> is the parent of ends in the panic of
  the process manager, because the signal to the dead parent is taken for a programming error.\<close>

theorem pm_init_death_fatal:
  assumes "pm_ok F s" and "env_ok e" and "r \<in> lives (vw s)" and "v_par (vw s r) = INIT_PROC_NR" and "\<not> live (vw s INIT_PROC_NR)"
  shows "\<exists>t. pm_exit e r st s = Stop Halted t"
proof -
  have r: "r \<noteq> INIT_PROC_NR" "\<not> v_wait (vw s INIT_PROC_NR)"
    using assms(1,3,5) by (auto simp: lives_def pm_ok_def pm_inv_def tab_ok_def waits_ok_def)
  have z: "\<exists>t. zombify (sig_proc_with e ex) r w = Stop Halted t" if w: "vw w = with_status r st (vw s)" "length (mproc_tab w) = PM_NR_PROCS" for w ex
  proof -
    have v: "vw w INIT_PROC_NR = vw s INIT_PROC_NR" "v_par (vw w r) = INIT_PROC_NR" using w(1) r(1) assms(4) by (simp_all add: with_status_def)
    have p: "mp_parent (slot r w) = INIT_PROC_NR" "\<not> has (slot INIT_PROC_NR w) WAITING" "\<not> running (slot INIT_PROC_NR w)"
      using v(2) r(2) assms(5) arg_cong [OF v(1), of v_wait] arg_cong [OF v(1), of live] by (simp_all add: vw_def running_view)
    have "r < PM_NR_PROCS" using assms(3) by (simp add: lives_def)
    then show ?thesis using p w(2) r(1) by (simp add: zombify_def Let_def sig_proc_with_def slot_set_slot)
  qed
  have "runs (exit_body e (sig_proc_with e ex) r st s) (\<lambda>_ _. False) (\<lambda>b _. b = Halted)" for ex
    unfolding exit_body_split
  proof (rule runs_bnd [OF runs_mono [OF exit_front_ok [OF assms(1-3)]]])
    fix u :: pmst assume u: "pm_inv (F \<union> clicks_freed r s) {} (lives (vw s) - {r}) u \<and> vw u = vw s \<and> cur u = cur s \<and> who u = who s"
    let ?w = "set_slot r (\<lambda>p. p\<lparr>mp_exitstatus := word_of_int st\<rparr>) u"
    have w: "vw ?w = with_status r st (vw s)" "length (mproc_tab ?w) = PM_NR_PROCS" using set_status_ok [of _ _ u s r st] u assms(3) pm_inv_len by auto
    show "runs (bnd (zombify (sig_proc_with e ex) r ?w) (\<lambda>_. disinherit r all_slots)) (\<lambda>_ _. False) (\<lambda>b _. b = Halted)"
      using z [OF w, of ex] by auto
  qed (simp_all add: doomed_def)
  from this [of "pm_exit_n PM_NR_PROCS e"] show ?thesis
    by (cases "exit_body e (sig_proc_with e (pm_exit_n PM_NR_PROCS e)) r st s") (auto simp: pm_exit_def Let_def)
qed

theorem pm_init_death_fatal_witness:
  "\<exists>h t. pm_exit env0 8 0 (pm0 5 8 1 mess0 h) = Stop Halted t"
proof -
  obtain h where h: "mem_rep h free0 0" using holes0_rep by blast
  let ?s = "pm0 5 8 1 mess0 h"
  have "pm_ok free0 ?s" using pm0_ok [of 5 h 8] h by simp
  moreover have "8 \<in> lives (vw ?s)" using pm0_sets(2) [of 5] by simp
  moreover have "v_par (vw ?s 8) = INIT_PROC_NR" "\<not> live (vw ?s INIT_PROC_NR)"
    by (simp_all add: INIT_PROC_NR_def vw_pm0 view0_def view_proc0 live_def)
  ultimately show ?thesis using pm_init_death_fatal [OF _ env0_ok, of free0 ?s 8 0] by blast
qed

section \<open>Wait\<close>

text \<open>C31: Wait. The call reports the first child, in the order of the slots, that it waits for and that has something to report: a
  zombie's identifier and status go into the caller's reply and its slot is released, a stopped child is reported once. When no such child has
  anything to report, the caller gets \<open>ECHILD\<close> if it has none, 0 if it does not want to wait, and waits otherwise. The
  invariant holds again, in particular no process waits while a child it waits for is a zombie.\<close>

theorem pm_wait_correct:
  assumes "pm_ok F s" and "cur s \<in> lives (vw s)" and "who s = cur s"
  shows "case find (\<lambda>r. acceptable (wait_pidarg s) s r \<and> reports s r) all_slots of
      Some r \<Rightarrow> if has (slot r s) ZOMBIE
        then \<exists>t. do_waitpid s = Ret SUSPEND t \<and> vw t = reap (vw s) r \<and> told (vw s r) (slot (cur s) t) \<and> pm_ok F t
        else do_waitpid s = Ret (mp_pid (slot r s)) (tell_stopped r s) \<and> pm_ok F (tell_stopped r s)
    | None \<Rightarrow>
        if \<forall>r < PM_NR_PROCS. \<not> acceptable (wait_pidarg s) s r then do_waitpid s = Ret ECHILD s
        else if wait_options s AND WNOHANG \<noteq> 0 then do_waitpid s = Ret 0 s
        else do_waitpid s = Ret SUSPEND (now_waiting (wait_pidarg s) s) \<and> pm_ok F (now_waiting (wait_pidarg s) s)"
proof -
  have "r \<noteq> cur s" if "has (slot r s) ZOMBIE" for r using that assms(2) by (auto simp: lives_def live_def vw_def)
  then show ?thesis using do_waitpid_ok [OF assms] by (auto split: option.splits if_splits)
qed

lemma pm0_quiet:
  "i = 1 \<or> i = 3 \<Longrightarrow> find (\<lambda>r. acceptable w (pm0 i 7 n m h) r \<and> reports (pm0 i 7 n m h) r) all_slots = None"
  unfolding find_none by (auto simp: reports_def slot_pm0 PM_NR_PROCS_def acceptable_def has_bits proc0_def servant_def in_use_def)

theorem pm_wait_correct_witness:
  "\<exists>h. do_waitpid (pm0 1 7 7 mess0 h) = Ret SUSPEND (now_waiting (- 1) (pm0 1 7 7 mess0 h)) \<and> pm_ok free0 (now_waiting (- 1) (pm0 1 7 7 mess0 h))"
proof -
  obtain h where h: "mem_rep h free0 0" using holes0_rep by blast
  let ?s = "pm0 1 7 7 mess0 h"
  have ok: "pm_ok free0 ?s" using pm0_ok [of 1 h 7] h by simp
  have c: "cur ?s \<in> lives (vw ?s)" "who ?s = cur ?s" using pm0_sets(2) [of 1] by simp_all
  have w: "wait_pidarg ?s = - 1" "wait_options ?s = 0" by (simp_all add: wait_pidarg_def wait_options_def WAIT_def)
  have "acceptable (- 1) ?s 8" "8 < PM_NR_PROCS"
    by (simp_all add: acceptable_def slot_pm0 PM_NR_PROCS_def in_use_def has_bits proc0_def wait_accepts_def)
  then show ?thesis using pm_wait_correct [OF ok c] w pm0_quiet [of 1 "- 1" 7 mess0 h] by (auto split: if_splits)
qed

section \<open>Exit and wait together\<close>

text \<open>The two bytes of the status word.\<close>

lemma status_bytes:
  fixes x y :: "8 word"
  defines "w \<equiv> word_of_int (push_bit 8 (sint x) OR uint y) :: 32 word"
  shows "drop_bit 8 w AND 0xFF = ucast x" "w AND 0xFF = ucast y"
proof -
  have m: "0xFF = (mask 8 :: 32 word)" by (simp add: mask_eq_exp_minus_1)
  show "drop_bit 8 w AND 0xFF = ucast x" unfolding m
  proof (rule bit_word_eqI)
    fix n assume "n < LENGTH(32)"
    show "bit (drop_bit 8 w AND mask 8) n = bit (ucast x :: 32 word) n"
      by (auto simp: w_def bit_and_iff bit_mask_iff bit_drop_bit_eq bit_or_iff bit_push_bit_iff bit_sint_iff bit_uint_iff bit_ucast_iff bit_word_of_int_iff dest: bit_imp_le_length)
  qed
  show "w AND 0xFF = ucast y" unfolding m
  proof (rule bit_word_eqI)
    fix n assume "n < LENGTH(32)"
    show "bit (w AND mask 8) n = bit (ucast y :: 32 word) n"
      by (auto simp: w_def bit_and_iff bit_mask_iff bit_or_iff bit_push_bit_iff bit_uint_iff bit_ucast_iff bit_word_of_int_iff dest: bit_imp_le_length)
  qed
qed

lemma told_status:
  assumes "told v p" "v_stat v = (word_of_int st, g)"
  shows "uint (drop_bit 8 (m_w0 (mp_reply p)) AND 0xFF) = st mod 256" "uint (m_w0 (mp_reply p) AND 0xFF) = uint g"
proof -
  have w: "m_w0 (mp_reply p) = word_of_int (push_bit 8 (sint (word_of_int st :: 8 word)) OR uint g)" using assms by (simp add: told_def)
  have "uint (ucast (word_of_int st :: 8 word) :: 32 word) = st mod 256" by (simp add: uint_up_ucast is_up uint_word_of_int)
  then show "uint (drop_bit 8 (m_w0 (mp_reply p)) AND 0xFF) = st mod 256" unfolding w status_bytes .
  have "uint (ucast g :: 32 word) = uint g" by (simp add: uint_up_ucast is_up)
  then show "uint (m_w0 (mp_reply p) AND 0xFF) = uint g" unfolding w status_bytes .
qed

lemma slot_get_work [simp]: "slot r (get_work p n m s) = slot r s" "vw (get_work p n m s) = vw s" "cur (get_work p n m s) = p" "who (get_work p n m s) = p"
  by (simp_all add: get_work_def slot_def vw_def fun_eq_iff)

lemma get_work_ok: "pm_ok F s \<Longrightarrow> p < PM_NR_PROCS \<Longrightarrow> pm_ok F (get_work p n m s)"
  using slot_get_work(2) [of p n m s] by (auto simp: pm_ok_def pm_inv_def get_work_def)

definition ask_pid :: "int \<Rightarrow> pmess \<Rightarrow> pmess" where
  "ask_pid pid m = m\<lparr>m_w0 := word_of_int pid\<rparr>"

lemma wait_collects:
  assumes ok: "pm_ok F s" and p: "p \<in> lives (vw s)" and r: "r < PM_NR_PROCS" "v_use (vw s r)" "v_zomb (vw s r)" "v_par (vw s r) = p"
    and pid: "0 < v_pid (vw s r)" "v_pid (vw s r) \<le> NR_PIDS"
  shows "\<exists>t. do_waitpid (get_work p 11 (ask_pid (v_pid (vw s r)) m) s) = Ret SUSPEND t \<and> vw t = reap (vw s) r \<and> told (vw s r) (slot p t) \<and> pm_ok F t"
proof -
  let ?w = "get_work p 11 (ask_pid (v_pid (vw s r)) m) s"
  have "sint (word_of_int (v_pid (vw s r)) :: 32 word) = v_pid (vw s r)" using pid unfolding sint_sbintrunc' by (intro signed_take_bit_int_eq_self) (simp_all add: NR_PIDS_def)
  then have a: "wait_pidarg ?w = v_pid (vw s r)" using pid(1) by (simp add: wait_pidarg_def get_work_def ask_pid_def m1_i1_def WAIT_def)
  have ra: "acceptable (v_pid (vw s r)) ?w r \<and> reports ?w r" using r pid(1) by (simp add: acceptable_def reports_def in_use_def wait_accepts_def vw_def)
  have "inj_on (\<lambda>r. v_pid (vw s r)) (users (vw s))" using ok by (simp add: pm_ok_def pm_inv_def tab_ok_def pids_ok_def)
  moreover have "r \<in> users (vw s)" using r by (simp add: users_def)
  ultimately have u: "q = r" if "q < PM_NR_PROCS" "acceptable (v_pid (vw s r)) ?w q" for q
    using that pid(1) by (auto simp: acceptable_def in_use_def wait_accepts_def inj_on_def users_def vw_def)
  have "find (\<lambda>q. acceptable (wait_pidarg ?w) ?w q \<and> reports ?w q) all_slots = Some r"
  proof (cases "find (\<lambda>q. acceptable (wait_pidarg ?w) ?w q \<and> reports ?w q) all_slots")
    case None
    then show ?thesis using ra r(1) a by (auto simp: find_none)
  next
    case (Some q)
    then show ?thesis using u find_some [OF Some] a by auto
  qed
  moreover have "p < PM_NR_PROCS" "p \<noteq> r" using p r(3) by (auto simp: lives_def live_def)
  ultimately show ?thesis using do_waitpid_ok [OF get_work_ok [OF ok], of p 11 "ask_pid (v_pid (vw s r)) m"] p r(3) by (auto simp: vw_def)
qed

text \<open>C32: The status of a process reaches its parent, whichever comes first, for a process that is not the process manager, the
  reincarnation server or \<open>INIT\<close>, is not the leader of the session of the caller (whose exit hangs up the others first) and has a live parent. When the
  parent is waiting for the child, its reply is ready once the child has exited; otherwise a \<open>waitpid\<close> for the child that is the very next call finds
  it. Either way the reply holds the identifier of the child, the second byte of the status word is the argument of \<open>exit\<close> modulo 256 and the low byte the
  signal status, and the slot of the child is free.\<close>

theorem pm_status_delivered:
  assumes "pm_ok F s" and "env_ok e" and "r \<in> lives (vw s)" and "r \<notin> roots" and "\<not> session_leader r s"
    and "v_par (vw s r) \<in> lives (vw s)" and "0 < v_pid (vw s r)" and "v_pid (vw s r) \<le> NR_PIDS"
  shows "runs (bnd (pm_exit e r st s) (\<lambda>_ t. if awaited (vw s) r then Ret SUSPEND t
        else do_waitpid (get_work (v_par (vw s r)) 11 (ask_pid (v_pid (vw s r)) m) t)))
    (\<lambda>_ t. let a = mp_reply (slot (v_par (vw s r)) t)
       in m_type a = v_pid (vw s r) \<and> uint (drop_bit 8 (m_w0 a) AND 0xFF) = st mod 256 \<and>
          uint (m_w0 a AND 0xFF) = uint (snd (v_stat (vw s r))) \<and> \<not> v_use (vw t r)) doomed"
proof (rule runs_bnd [OF exit_gone_ok [OF assms(1-5)]])
  have r: "r < PM_NR_PROCS" "v_par (vw s r) \<noteq> r" using assms(1,3,4)
    by (auto simp: lives_def live_def users_def pm_ok_def pm_inv_def tab_ok_def parents_ok_def)
  have p: "v_par (vw s r) \<noteq> r" "v_par (vw s r) < PM_NR_PROCS" using r assms(6) by (simp_all add: lives_def)
  fix t assume t: "gone r st s t \<and> (\<forall>q < PM_NR_PROCS. q \<noteq> r \<longrightarrow> orphaned r s t q) \<and> lives (vw t) = lives (vw s) - {r} \<and> pm_ok (F \<union> clicks_freed r s) t"
  let ?a = "\<lambda>t. mp_reply (slot (v_par (vw s r)) t)"
  have st: "uint (drop_bit 8 (m_w0 (?a u)) AND 0xFF) = st mod 256 \<and> uint (m_w0 (?a u) AND 0xFF) = uint (snd (v_stat (vw s r)))"
    if "told v (slot (v_par (vw s r)) u)" "v_stat v = (word_of_int st, snd (v_stat (vw s r)))" for u v
    using told_status [OF that] by simp
  show "runs (if awaited (vw s) r then Ret SUSPEND t else do_waitpid (get_work (v_par (vw s r)) 11 (ask_pid (v_pid (vw s r)) m) t))
      (\<lambda>_ t. let a = ?a t in m_type a = v_pid (vw s r) \<and> uint (drop_bit 8 (m_w0 a) AND 0xFF) = st mod 256 \<and>
          uint (m_w0 a AND 0xFF) = uint (snd (v_stat (vw s r))) \<and> \<not> v_use (vw t r)) doomed"
  proof (cases "awaited (vw s) r")
    case True
    then have g: "\<not> v_use (vw t r)" "told ((vw s r)\<lparr>v_stat := (word_of_int st, snd (v_stat (vw s r)))\<rparr>) (slot (v_par (vw s r)) t)"
      using t by (simp_all add: gone_def)
    show ?thesis using True g st [OF g(2)] by (simp add: Let_def) (simp add: told_def)
  next
    case False
    then have g: "v_use (vw t r)" "v_zomb (vw t r)" "v_pid (vw t r) = v_pid (vw s r)" "v_par (vw t r) = v_par (vw s r)"
      "v_stat (vw t r) = (word_of_int st, snd (v_stat (vw s r)))" using t by (simp_all add: gone_def)
    have l: "v_par (vw s r) \<in> lives (vw t)" using t assms(6) p by simp
    obtain u where u: "do_waitpid (get_work (v_par (vw s r)) 11 (ask_pid (v_pid (vw s r)) m) t) = Ret SUSPEND u" "vw u = reap (vw t) r"
        "told (vw t r) (slot (v_par (vw s r)) u)"
      using wait_collects [OF conjunct2 [OF conjunct2 [OF conjunct2 [OF t]]] l r(1) g(1,2,4), of m] g(3) assms(7,8) by auto
    then show ?thesis using False st [OF u(3) g(5)] g(3) by (simp add: Let_def reap_sel) (simp add: told_def)
  qed
qed

theorem pm_status_delivered_witness:
  "\<exists>h. \<not> awaited (vw (pm0 1 8 1 mess0 h)) 8 \<and>
     runs (bnd (pm_exit env0 8 259 (pm0 1 8 1 mess0 h)) (\<lambda>_ t. do_waitpid (get_work 7 11 (ask_pid 5 mess0) t)))
       (\<lambda>_ t. m_type (mp_reply (slot 7 t)) = 5 \<and> uint (drop_bit 8 (m_w0 (mp_reply (slot 7 t))) AND 0xFF) = 3) doomed"
proof -
  obtain h where h: "mem_rep h free0 0" using holes0_rep by blast
  let ?s = "pm0 1 8 1 mess0 h"
  have ok: "pm_ok free0 ?s" using pm0_ok [of 1 h 8] h by simp
  have v: "v_par (vw ?s 8) = 7" "v_pid (vw ?s 8) = 5" by (simp_all add: vw_pm0 view0_def view_proc0)
  have c: "8 \<in> lives (vw ?s)" "v_par (vw ?s 8) \<in> lives (vw ?s)" using pm0_sets(2) [of 1] v by auto
  have r: "8 \<notin> roots" "\<not> session_leader 8 ?s"
    by (simp_all add: roots_def PM_PROC_NR_def RS_PROC_NR_def INIT_PROC_NR_def session_leader_def slot_pm0 proc0_def)
  have w: "\<not> awaited (vw ?s) 8" unfolding awaited_def v by (simp add: vw_pm0 view0_def view_proc0)
  show ?thesis using pm_status_delivered [OF ok env0_ok c(1) r c(2), of 259 mess0] v w
    by (intro exI [of _ h] conjI) (auto simp: NR_PIDS_def Let_def elim!: runs_mono)
qed

text \<open>C38: A process without a group that calls \<open>waitpid(0)\<close> waits for less than it accepts. \<open>do_waitpid\<close> turns the argument into the negated group,
  which is 0 again, and accepts every child; \<open>pm_exit\<close> compares the same 0 with the identifier and the group of the child. So a child of
  another group that exits while its parent waits becomes a zombie, and the parent is not told.\<close>

theorem pm_waitpid_zero_misses:
  assumes "pm_ok F s" and "env_ok e" and "r \<in> lives (vw s)" and "r \<notin> roots" and "\<not> session_leader r s"
    and "mp_procgrp (slot p s) = 0" and "v_wait (vw s p)" and "v_wpid (vw s p) = - mp_procgrp (slot p s)" and "v_par (vw s r) = p"
    and "0 < v_pid (vw s r)" and "0 < v_grp (vw s r)"
  shows "acceptable (- mp_procgrp (slot p s)) (s\<lparr>who := p\<rparr>) r \<and>
    runs (pm_exit e r st s) (\<lambda>_ t. v_use (vw t r) \<and> v_zomb (vw t r) \<and> v_par (vw t r) = p) doomed"
proof
  show "acceptable (- mp_procgrp (slot p s)) (s\<lparr>who := p\<rparr>) r"
    using assms(3,6,9) by (simp add: acceptable_def lives_def live_def in_use_def wait_accepts_def vw_def) (simp add: slot_def)
  have "\<not> awaited (vw s) r" using assms by (simp add: awaited_def rightv_def)
  then show "runs (pm_exit e r st s) (\<lambda>_ t. v_use (vw t r) \<and> v_zomb (vw t r) \<and> v_par (vw t r) = p) doomed"
    using assms(9) by (intro runs_mono [OF exit_gone_ok [OF assms(1-5)]]) (auto simp: gone_def)
qed

theorem pm_waitpid_zero_misses_witness:
  "\<exists>h. runs (pm_exit env0 8 0 (pm0 3 8 1 mess0 h)) (\<lambda>_ t. v_zomb (vw t 8) \<and> v_par (vw t 8) = 7) doomed"
proof -
  obtain h where h: "mem_rep h free0 0" using holes0_rep by blast
  let ?s = "pm0 3 8 1 mess0 h"
  have ok: "pm_ok free0 ?s" using pm0_ok [of 3 h 8] h by simp
  have c: "8 \<in> lives (vw ?s)" using pm0_sets(2) [of 3] by auto
  have r: "8 \<notin> roots" "\<not> session_leader 8 ?s"
    by (simp_all add: roots_def PM_PROC_NR_def RS_PROC_NR_def INIT_PROC_NR_def session_leader_def slot_pm0 proc0_def)
  have v: "mp_procgrp (slot 7 ?s) = 0" "v_wait (vw ?s 7)" "v_wpid (vw ?s 7) = - mp_procgrp (slot 7 ?s)" "v_par (vw ?s 8) = 7" "0 < v_pid (vw ?s 8)" "0 < v_grp (vw ?s 8)"
    by (simp_all add: slot_pm0 proc0_def) (simp_all add: vw_pm0 view0_def view_proc0)
  show ?thesis using pm_waitpid_zero_misses [OF ok env0_ok c r v, of 0] by (intro exI [of _ h]) (auto elim!: runs_mono)
qed

section \<open>Runs\<close>

text \<open>C28: Every run of the process manager over calls of live processes in any order with any arguments, alarms and kernel signals keeps the
  invariant of the process table and keeps \<open>SIGKILL\<close> out of every set of blocked, ignored and caught signals of an ordinary process (the system
  processes ignore every signal from boot on); and in every state it reaches each call that is served returns with the invariant, or panics for one of the
  known reasons: it does not index the table out of range, does not loop and does not run out of the bound on nested exits. The calls are those of the list
  \<open>served\<close>. Four calls are left out: \<open>freemem\<close>, by which a process can give away memory it does not own; \<open>exec\<close>, which leaves the caller marked as waiting when
  it finds no memory (C34); \<open>reboot\<close>, which can read before its buffer; and \<open>svrctl\<close>, which relies on the form of the parameters of the boot monitor.\<close>

theorem pm_run_safe:
  assumes "(pm_step e)\<^sup>*\<^sup>* s t" and "env_ok e" and "good s" and "killable s"
  shows "good t \<and> killable t \<and> (\<forall>p n m. p \<in> lives (vw t) \<longrightarrow> n \<in> set served \<longrightarrow> runs (call_vec e n (get_work p n m t)) (\<lambda>_. good) doomed)"
  using pm_steps_killable [OF assms] call_safe [OF assms(2)] by blast

lemma pm0_killable: "killable (pm0 i c n m h)"
  by (auto simp: killable_def guarded_def has_priv pm0_def open_to_kill_def servant_def proc0_def SIGKILL_def NSIG_def)

theorem pm_run_safe_witness:
  "\<exists>h. good (snd (finish_call 9 (get_work 8 63 mess0 (pm0 1 7 2 mess0 h)))) \<and> killable (snd (finish_call 9 (get_work 8 63 mess0 (pm0 1 7 2 mess0 h))))"
proof -
  obtain h where h: "mem_rep h free0 0" using holes0_rep by blast
  let ?s = "pm0 1 7 2 mess0 h"
  have "8 \<in> lives (vw ?s)" using pm0_sets(2) [of 1] by simp
  moreover have "call_vec env0 63 (get_work 8 63 mess0 ?s) = Ret 9 (get_work 8 63 mess0 ?s)"
    using slot_pm0 [of 8 1 7 2 mess0 h] by (simp add: call_vec_def do_getset_def Let_def get_work_def slot_def)
  ultimately have "pm_step env0 ?s (snd (finish_call 9 (get_work 8 63 mess0 ?s)))"
    by (intro pm_step.call [of 8 ?s 63]) (simp_all add: served_def)
  then have "(pm_step env0)\<^sup>*\<^sup>* ?s (snd (finish_call 9 (get_work 8 63 mess0 ?s)))" by blast
  moreover have "good ?s" using pm0_ok [of 1 h 7] h by (auto simp: good_def)
  ultimately show ?thesis using pm_run_safe [OF _ env0_ok _ pm0_killable] by blast
qed

text \<open>C33: A process other than a system process that is sent \<open>SIGKILL\<close> by one that may do so dies: when the call returns it is not live, the result is 0, or the
  call does not return to a caller that killed itself; nobody comes to life, and the invariant holds.\<close>

theorem pm_sigkill_kills:
  assumes "pm_ok F s" and "env_ok e" and "killable s" and "r \<in> lives (vw s)" and "\<not> has (slot r s) PRIV_PROC"
    and "INIT_PID < mp_pid (slot r s)" and "sig_permits (slot (cur s) s) (slot r s)"
  shows "runs (check_sig e (mp_pid (slot r s)) (int SIGKILL) s)
    (\<lambda>v t. good t \<and> r \<notin> lives (vw t) \<and> lives (vw t) \<subseteq> lives (vw s) \<and> (v = 0 \<or> v = SUSPEND)) doomed"
  by (rule runs_mono [OF kill_ok [OF assms]]) (auto simp: fine_def good_def)

theorem pm_sigkill_kills_witness:
  "\<exists>h. runs (check_sig env0 5 (int SIGKILL) (pm0 1 7 37 mess0 h)) (\<lambda>v t. good t \<and> 8 \<notin> lives (vw t)) doomed"
proof -
  obtain h where h: "mem_rep h free0 0" using holes0_rep by blast
  let ?s = "pm0 1 7 37 mess0 h"
  have "pm_ok free0 ?s" using pm0_ok [of 1 h 7] h by simp
  moreover have "8 \<in> lives (vw ?s)" using pm0_sets(2) [of 1] by simp
  moreover have "mp_pid (slot 8 ?s) = 5" "sig_permits (slot (cur ?s) ?s) (slot 8 ?s)" "\<not> has (slot 8 ?s) PRIV_PROC"
    by (simp_all add: slot_pm0 proc0_def sig_permits_def has_priv)
  ultimately show ?thesis using pm_sigkill_kills [OF _ env0_ok pm0_killable, of free0 1 7 37 mess0 h 8]
    by (intro exI [of _ h]) (auto simp: INIT_PID_def elim!: runs_mono)
qed

section \<open>Alarms\<close>

lemma alarm_words:
  assumes "uint sec \<le> 71582788"
  shows "uint (PM_HZ * sec) = 60 * uint sec" "(PM_HZ * sec) div PM_HZ = sec"
proof -
  show u: "uint (PM_HZ * sec) = 60 * uint sec" using assms by (simp add: PM_HZ_def uint_mult_lem uint_word_arith_bintrs(3) take_bit_int_eq_self)
  have "uint ((PM_HZ * sec) div PM_HZ) = uint sec" unfolding uint_div_distrib u by (simp add: PM_HZ_def)
  then show "(PM_HZ * sec) div PM_HZ = sec" by (rule word_uint_eqI)
qed

text \<open>C40: The alarm clock. \<open>set_alarm\<close> converts seconds to ticks exactly up to 35791394 seconds and takes the largest number of ticks from
  71582789 on, as its guard means to; in between the product is not caught by the guard and is negative as a number of ticks.\<close>

theorem pm_alarm_overflow:
  "sint (alarm_ticks sec) =
     (if uint sec \<le> 35791394 then 60 * uint sec else if uint sec \<le> 71582788 then 60 * uint sec - 2 ^ 32 else 2 ^ 31 - 1)"
proof (cases "uint sec \<le> 71582788")
  case True
  have "sint (PM_HZ * sec) = (if uint sec \<le> 35791394 then 60 * uint sec else 60 * uint sec - 2 ^ 32)"
  proof (cases "uint sec \<le> 35791394")
    case False
    have "(60 * uint sec + 2147483648) mod 4294967296 = 60 * uint sec + 2147483648 - 4294967296"
      unfolding minus_mod_self2 [of "60 * uint sec + 2147483648" 4294967296, symmetric] using False True by (intro mod_pos_pos_trivial) simp_all
    then show ?thesis using alarm_words(1) [OF True] False by (simp add: sint_uint signed_take_bit_eq_take_bit_shift take_bit_eq_mod)
  qed (use alarm_words(1) [OF True] uint_lt2p [of sec] in \<open>simp add: sint_uint signed_take_bit_eq_take_bit_shift take_bit_eq_mod\<close>)
  then show ?thesis using True alarm_words(2) [OF True] by (simp add: alarm_ticks_def Let_def)
next
  case False
  have "uint ((PM_HZ * sec) div PM_HZ) \<le> 71582788" using uint_lt2p [of "PM_HZ * sec"] by (simp add: uint_div_distrib PM_HZ_def)
  then have "(PM_HZ * sec) div PM_HZ \<noteq> sec" using False by auto
  then show ?thesis using False by (simp add: alarm_ticks_def Let_def)
qed

end
