(* ===== verification/Pmargs.thy ===== *)
theory Pmargs
  imports Pmstack
begin

text \<open>
  What the code of \<open>Pmstack\<close> does to a well-formed image: its arguments and its environment, as lists of strings, before and after. The
  pointer area of an image is the encoding \<open>enc\<close> of a list of words.
\<close>

section \<open>Words in a buffer\<close>

definition enc :: "32 word list \<Rightarrow> bytes" where
  "enc ws = concat (map bytes4 ws)"

lemma enc_simps [simp]: "enc [] = []" "enc (w # ws) = bytes4 w @ enc ws" "enc (xs @ ys) = enc xs @ enc ys"
  by (simp_all add: enc_def)

lemma length_bytes4 [simp]: "length (bytes4 w) = 4"
  by (simp add: bytes4_def)

lemma length_enc [simp]: "length (enc ws) = 4 * length ws"
  by (induction ws) simp_all

lemma word4_bytes4 [simp]: "word4 (bytes4 w) = w"
proof (rule bit_word_eqI)
  fix n assume n: "n < LENGTH(32)"
  consider "n < 8" | "8 \<le> n" "n < 16" | "16 \<le> n" "n < 24" | "24 \<le> n" by linarith
  then show "bit (word4 (bytes4 w)) n = bit w n"
    using n by cases (simp_all add: bytes4_def bit_or_iff bit_push_bit_iff bit_ucast_iff bit_drop_bit_eq, auto)
qed

lemma ptr_at_enc: "i < length ws \<Longrightarrow> ptr_at (enc ws @ t) (4 * i) = Some (ws ! i)"
proof -
  assume i: "i < length ws"
  have "enc ws = enc (take i ws) @ bytes4 (ws ! i) @ enc (drop (Suc i) ws)"
    by (subst id_take_nth_drop [OF i]) simp
  then have "take 4 (drop (4 * i) (enc ws @ t)) = bytes4 (ws ! i)" using i by simp
  then show ?thesis using i by (simp add: ptr_at_def PTRSIZE_def)
qed

lemma set_ptr_enc: "i < length ws \<Longrightarrow> set_ptr (enc ws @ t) (4 * i) w = Some (enc (ws[i := w]) @ t)"
proof -
  assume i: "i < length ws"
  have e: "enc ws = enc (take i ws) @ bytes4 (ws ! i) @ enc (drop (Suc i) ws)"
    by (subst id_take_nth_drop [OF i]) simp
  have "enc (ws[i := w]) = enc (take i ws) @ bytes4 w @ enc (drop (Suc i) ws)"
    by (subst upd_conv_take_nth_drop [OF i]) simp
  then show ?thesis using i by (simp add: set_ptr_def blit_def nat_mult_distrib, simp add: e)
qed

section \<open>Relocation\<close>

lemma patch_nonzero:
  "\<forall>x \<in> set xs. x \<noteq> 0 \<Longrightarrow> flag < 2 \<Longrightarrow> 4 * (length pre + length xs) \<le> EXEC_MAX \<Longrightarrow>
   patch_from (4 * length pre) flag base (enc (pre @ xs @ ys) @ t) =
   patch_from (4 * (length pre + length xs)) flag base (enc (pre @ map (\<lambda>v. v + base) xs @ ys) @ t)"
proof (induction xs arbitrary: pre)
  case (Cons x xs)
  let ?n = "length pre"
  have g: "ptr_at (enc (pre @ (x # xs) @ ys) @ t) (4 * ?n) = Some x"
    using ptr_at_enc [of ?n "pre @ (x # xs) @ ys" t] by simp
  have s: "set_ptr (enc (pre @ (x # xs) @ ys) @ t) (4 * ?n) (x + base) = Some (enc ((pre @ [x + base]) @ xs @ ys) @ t)"
    using set_ptr_enc [of ?n "pre @ (x # xs) @ ys" t "x + base"] by simp
  have "patch_from (4 * ?n) flag base (enc (pre @ (x # xs) @ ys) @ t) = patch_from (4 * length (pre @ [x + base])) flag base (enc ((pre @ [x + base]) @ xs @ ys) @ t)"
    using Cons.prems by (subst patch_from.simps) (simp only: g s Option.bind_lunit, simp add: PTRSIZE_def algebra_simps)
  also have "\<dots> = patch_from (4 * (?n + length (x # xs))) flag base (enc (pre @ map (\<lambda>v. v + base) (x # xs) @ ys) @ t)"
    using Cons.prems by (subst Cons.IH) (simp_all add: algebra_simps)
  finally show ?case .
qed simp

lemma patch_zero:
  assumes "flag < 2" "4 * length pre < EXEC_MAX"
  shows "patch_from (4 * length pre) flag base (enc (pre @ 0 # ys) @ t) = patch_from (4 * (length pre + 1)) (flag + 1) base (enc (pre @ 0 # ys) @ t)"
proof -
  have g: "ptr_at (enc (pre @ 0 # ys) @ t) (4 * length pre) = Some 0" using ptr_at_enc [of "length pre" "pre @ 0 # ys" t] by simp
  show ?thesis using assms by (subst patch_from.simps) (simp only: g Option.bind_lunit, simp add: PTRSIZE_def algebra_simps)
qed

lemma patch_ptr_enc:
  assumes "\<forall>x \<in> set as. x \<noteq> 0" "\<forall>x \<in> set es. x \<noteq> 0" "4 * (length as + length es + 3) \<le> EXEC_MAX"
  shows "patch_ptr (enc (n # as @ 0 # es @ [0]) @ t) base = Some (enc (n # map (\<lambda>v. v + base) as @ 0 # map (\<lambda>v. v + base) es @ [0]) @ t)"
proof -
  let ?as = "map (\<lambda>v. v + base) as" and ?es = "map (\<lambda>v. v + base) es"
  have "patch_ptr (enc (n # as @ 0 # es @ [0]) @ t) base = patch_from (4 * (1 + length as)) 0 base (enc (n # ?as @ 0 # es @ [0]) @ t)"
    using patch_nonzero [of as 0 "[n]" base "0 # es @ [0]" t] assms by (simp add: patch_ptr_def PTRSIZE_def)
  also have "\<dots> = patch_from (4 * (2 + length as)) 1 base (enc (n # ?as @ 0 # es @ [0]) @ t)"
    using patch_zero [of 0 "n # ?as" base "es @ [0]" t] assms(3) by (simp add: algebra_simps)
  also have "\<dots> = patch_from (4 * (2 + length as + length es)) 1 base (enc (n # ?as @ 0 # ?es @ [0]) @ t)"
    using patch_nonzero [of es 1 "n # ?as @ [0]" base "[0]" t] assms by (simp add: algebra_simps)
  also have "\<dots> = patch_from (4 * (3 + length as + length es)) 2 base (enc (n # ?as @ 0 # ?es @ [0]) @ t)"
    using patch_zero [of 1 "n # ?as @ 0 # ?es" base "[]" t] assms(3) by (simp add: algebra_simps numeral_2_eq_2)
  also have "\<dots> = Some (enc (n # ?as @ 0 # ?es @ [0]) @ t)" by (subst patch_from.simps) simp
  finally show ?thesis .
qed

section \<open>Moving strings\<close>

lemma move_copy:
  assumes x: "0 \<in> set arg" and d: "int d + int (length (bstr arg)) + 1 = int a1 + off" and l: "a1 \<le> len" "len \<le> length b" "int len + off \<le> int (length b)"
  shows "(bmove b (int a1 + off) (int a1) (int len - int a1) \<bind> (\<lambda>s. bstrcpy s (int d) arg)) =
    Some (take d b @ bstr arg @ [0] @ take (len - a1) (drop a1 b) @ drop (nat (int len + off)) b)"
proof -
  let ?k = "d + length (bstr arg) + 1"
  have k: "int a1 + off = int ?k" using d by simp
  have n: "nat (int len + off) = ?k + (len - a1)" "?k + (len - a1) \<le> length b" using k l by simp_all
  have m: "bmove b (int a1 + off) (int a1) (int len - int a1) = Some (take ?k b @ take (len - a1) (drop a1 b) @ drop (?k + (len - a1)) b)"
    using l n(2) unfolding k bmove_def blit_def by (simp add: nat_diff_distrib min_absorb2 nat_add_distrib)
  show ?thesis using x n by (simp add: m bstrcpy_def blit_def nat_add_distrib min_absorb2)
qed

lemma skip_arg_ok:
  "a < len \<Longrightarrow> len \<le> length b \<Longrightarrow> 0 \<in> set (take (len - a) (drop a b)) \<Longrightarrow>
   skip_arg b (int len) (int a) off = Some (Some (int a + int (length (bstr (drop a b))) + 1, off - int (length (bstr (drop a b))) - 1))"
proof (induction "len - a" arbitrary: a off)
  case (Suc n)
  have d: "drop a b = b ! a # drop (Suc a) b" using Suc.prems by (simp add: Cons_nth_drop_Suc)
  have g: "byte_at b (int a) = Some (b ! a)" using Suc.prems by (simp add: byte_at_def)
  show ?case
  proof (cases "b ! a = 0")
    case True
    then show ?thesis using Suc.prems g d by (subst skip_arg.simps) (simp add: bstr_def)
  next
    case False
    have z: "0 \<in> set (take (len - Suc a) (drop (Suc a) b))"
      using Suc.prems False unfolding d by (simp add: Suc_diff_Suc [symmetric])
    then have "Suc a < len" by (cases "len - Suc a") auto
    then have "skip_arg b (int len) (int (Suc a)) (off - 1) =
        Some (Some (int (Suc a) + int (length (bstr (drop (Suc a) b))) + 1, off - 1 - int (length (bstr (drop (Suc a) b))) - 1))"
      using Suc z by (intro Suc.hyps(1)) simp_all
    then show ?thesis using Suc.prems g d False by (subst skip_arg.simps) (simp add: bstr_def algebra_simps)
  qed
qed simp

section \<open>Images\<close>

text \<open>
  An image of \<open>len\<close> bytes with the arguments at the offsets \<open>as\<close> and the environment at \<open>es\<close>: the pointer area is followed by the string of
  \<open>argv[0]\<close>, then by all others, and every string ends inside the image.
\<close>

definition str :: "bytes \<Rightarrow> nat \<Rightarrow> bytes" where
  "str b i = bstr (drop i b)"

definition ends :: "bytes \<Rightarrow> nat \<Rightarrow> nat \<Rightarrow> bool" where
  "ends b len i \<longleftrightarrow> i < len \<and> 0 \<in> set (take (len - i) (drop i b))"

definition table :: "nat list \<Rightarrow> nat list \<Rightarrow> 32 word list" where
  "table as es = word_of_nat (length as) # map word_of_nat as @ 0 # map word_of_nat es @ [0]"

definition arg_image :: "bytes \<Rightarrow> nat \<Rightarrow> nat list \<Rightarrow> nat list \<Rightarrow> bool" where
  "arg_image b len as es \<longleftrightarrow> length b = EXEC_MAX \<and> len \<le> EXEC_MAX \<and> as \<noteq> [] \<and> hd as = 4 * (length as + length es + 3) \<and>
     take (hd as) b = enc (table as es) \<and> (\<forall>i \<in> set as \<union> set es. ends b len i) \<and>
     (\<forall>i \<in> set (tl as) \<union> set es. hd as + length (str b (hd as)) < i)"

lemma bstr_shorter: "0 \<in> set x \<Longrightarrow> length (bstr x) < length x"
  unfolding bstr_def by (induction x) auto

lemma bstr_terminated: "0 \<in> set x \<Longrightarrow> bstr (x @ y) = bstr x"
  by (auto simp: bstr_def takeWhile_append1)

lemma bstr_append: "0 \<notin> set x \<Longrightarrow> bstr (x @ 0 # y) = x"
  unfolding bstr_def by (induction x) auto

lemma bstr_no_zero [simp]: "0 \<notin> set (bstr x)"
  by (auto simp: bstr_def dest: set_takeWhileD)

lemma str_take: "ends b len i \<Longrightarrow> str b i = bstr (take (len - i) (drop i b))"
  unfolding str_def ends_def by (metis append_take_drop_id bstr_terminated)

text \<open>A string that has been moved, in a buffer whose part behind \<open>p\<close> holds the bytes from \<open>a1\<close> on.\<close>

lemma moved_str:
  assumes "ends b len i" "a1 \<le> i" "len \<le> length b" "length p = k" "k + len = len' + a1"
  shows "str (p @ take (len - a1) (drop a1 b) @ r) (k + (i - a1)) = str b i" "ends (p @ take (len - a1) (drop a1 b) @ r) len' (k + (i - a1))"
proof -
  let ?m = "take (len - a1) (drop a1 b)"
  have m: "drop (i - a1) ?m = take (len - i) (drop i b)" using assms(2) by (simp add: drop_take)
  have i: "i < len" "0 \<in> set (take (len - i) (drop i b))" using assms(1) by (simp_all add: ends_def)
  have d: "drop (k + (i - a1)) (p @ ?m @ r) = take (len - i) (drop i b) @ r"
    using assms i(1) by (simp add: m [symmetric])
  show "str (p @ ?m @ r) (k + (i - a1)) = str b i" unfolding str_def [of "p @ ?m @ r"] d bstr_terminated [OF i(2)] str_take [OF assms(1)] ..
  have l: "length (take (len - i) (drop i b)) = len - i" using i(1) assms(3) by simp
  have "take (len' - (k + (i - a1))) (take (len - i) (drop i b) @ r) = take (len - i) (drop i b)"
  proof -
    have "len' - (k + (i - a1)) = len - i" using assms i(1) by linarith
    then show ?thesis using l by (metis append_eq_conv_conj)
  qed
  then show "ends (p @ ?m @ r) len' (k + (i - a1))" unfolding ends_def d using assms i by simp
qed

definition shifted :: "int \<Rightarrow> nat \<Rightarrow> nat" where
  "shifted off i = nat (int i + off)"

text \<open>The image after a new \<open>argv[0]\<close> has been put in: \<open>x\<close> at \<open>d\<close>, and the strings at \<open>bs\<close> and \<open>es\<close> moved.\<close>

lemma image_new:
  fixes b bs es len a1 off x r
  defines "sh \<equiv> shifted off"
  defines "d \<equiv> 4 * (length bs + length es + 4)"
  defines "b' \<equiv> enc (table (d # map sh bs) (map sh es)) @ x @ [0] @ take (len - a1) (drop a1 b) @ r"
  assumes x: "0 \<notin> set x" "int d + int (length x) + 1 = int a1 + off" and l: "a1 \<le> len" "len \<le> length b" "length b' = EXEC_MAX" "int len + off \<le> int EXEC_MAX"
    and s: "\<forall>i \<in> set bs \<union> set es. a1 \<le> i \<and> ends b len i"
  shows "arg_image b' (sh len) (d # map sh bs) (map sh es) \<and> str b' d = x \<and> (\<forall>i \<in> set bs \<union> set es. str b' (sh i) = str b i)"
proof -
  let ?p = "enc (table (d # map sh bs) (map sh es)) @ x @ [0]"
  have p: "length (enc (table (d # map sh bs) (map sh es))) = d" "length ?p = d + length x + 1" by (simp_all add: table_def d_def)
  have b: "b' = ?p @ take (len - a1) (drop a1 b) @ r" by (simp add: b'_def)
  have k: "d + length x + 1 + len = sh len + a1" using x(2) l(1) unfolding sh_def shifted_def by linarith
  have i: "sh i = d + length x + 1 + (i - a1)" if "a1 \<le> i" for i using that x(2) by (simp add: sh_def shifted_def)
  have m: "str b' (sh i) = str b i" "ends b' (sh len) (sh i)" "d + length x < sh i" if "i \<in> set bs \<union> set es" for i
  proof -
    have a: "a1 \<le> i" "ends b len i" using s that by blast+
    show "str b' (sh i) = str b i" "ends b' (sh len) (sh i)" using moved_str [OF a(2,1) l(2) p(2) k, of r] unfolding b i [OF a(1)] by auto
    show "d + length x < sh i" using i [OF a(1)] by simp
  qed
  have n: "sh len - (d + length x) = Suc (len - a1)" using k l(1) by linarith
  have "drop d b' = x @ 0 # take (len - a1) (drop a1 b) @ r" unfolding b'_def using p(1) by simp
  then have xs: "str b' d = x" "ends b' (sh len) d"
    using x(1) k l(1) by (auto simp: str_def bstr_append ends_def n)
  have "take d b' = enc (table (d # map sh bs) (map sh es))" unfolding b'_def using p(1) by simp
  moreover have "d = 4 * (length (d # map sh bs) + length (map sh es) + 3)" by (simp add: d_def)
  moreover have "sh len \<le> EXEC_MAX" using l(4) by (simp add: sh_def shifted_def)
  ultimately show ?thesis using m xs l(3) by (auto simp: arg_image_def)
qed

section \<open>Inserting an argument\<close>

text \<open>The pointers of the new image: relocated, then \<open>argv[0]\<close> set.\<close>

lemma relocate:
  assumes o: "\<forall>i \<in> set bs \<union> set es. 0 < i \<and> i < 2 ^ 31 \<and> 0 \<le> int i + off" and n: "4 * (length bs + length es + 4) \<le> EXEC_MAX" and z: "z \<noteq> 0"
  shows "(patch_ptr (enc (word_of_nat (Suc (length bs)) # z # map word_of_nat bs @ 0 # map word_of_nat es @ [0]) @ t) (word_of_int off) \<bind>
      (\<lambda>s. set_ptr s PTRSIZE (word_of_int (int d)))) = Some (enc (table (d # map (shifted off) bs) (map (shifted off) es)) @ t)"
proof -
  let ?n = "word_of_nat (Suc (length bs)) :: 32 word"
  have nz: "word_of_nat i \<noteq> (0 :: 32 word)" if "0 < i" "i < 2 ^ 31" for i :: nat
    using that by (simp add: word_of_nat_eq_0_iff nat_dvd_not_less)
  have sh: "word_of_nat i + word_of_int off = (word_of_nat (shifted off i) :: 32 word)" if "0 \<le> int i + off" for i
    using that by (simp add: shifted_def word_of_int_nat [symmetric] of_nat_nat)
  have m: "map (\<lambda>v. v + word_of_int off) (map word_of_nat xs) = (map word_of_nat (map (shifted off) xs) :: 32 word list)"
    if "\<forall>i \<in> set xs. 0 \<le> int i + off" for xs :: "nat list" using that sh by simp
  have p: "patch_ptr (enc (?n # (z # map word_of_nat bs) @ 0 # map word_of_nat es @ [0]) @ t) (word_of_int off) =
      Some (enc (?n # map (\<lambda>v. v + word_of_int off) (z # map word_of_nat bs) @ 0 # map (\<lambda>v. v + word_of_int off) (map word_of_nat es) @ [0]) @ t)"
    by (rule patch_ptr_enc) (use nz o n z in \<open>auto simp: EXEC_MAX_def\<close>)
  have "\<forall>i \<in> set bs. 0 \<le> int i + off" "\<forall>i \<in> set es. 0 \<le> int i + off" using o by simp_all
  note p' = p [unfolded list.map(2) [of _ z] append_Cons this [THEN m]]
  have "set_ptr (enc (?n # w # ws) @ t) (4 * 1) (word_of_int (int d)) = Some (enc (?n # word_of_int (int d) # ws) @ t)" for w ws
    using set_ptr_enc [of 1 "?n # w # ws" t "word_of_int (int d)"] by simp
  then show ?thesis unfolding p' Option.bind_lunit by (simp add: PTRSIZE_def table_def del: enc_simps)
qed

lemma image_words:
  assumes "arg_image b len as es"
  shows "sint (word_of_nat len :: 32 word) = int len" "ptr_at b PTRSIZE = Some (word_of_nat (hd as))" "sint (word_of_nat (hd as) :: 32 word) = int (hd as)"
    "\<not> word_of_nat (hd as) < (word_of_nat (4 * PTRSIZE) :: 32 word)" "hd as < len" "b = enc (table as es) @ drop (hd as) b"
    "\<forall>i \<in> set as \<union> set es. 0 < i \<and> i < 2 ^ 31 \<and> hd as \<le> i"
proof -
  have im: "as \<noteq> []" "hd as = 4 * (length as + length es + 3)" "len \<le> 16384" "\<forall>i \<in> set as \<union> set es. ends b len i"
    "\<forall>i \<in> set (tl as) \<union> set es. hd as + length (str b (hd as)) < i" "take (hd as) b = enc (table as es)"
    using assms unfolding arg_image_def EXEC_MAX_def by blast+
  show a: "hd as < len" using im(1,4) by (auto simp: ends_def)
  have s: "sint (word_of_nat n :: 32 word) = int n" if "n \<le> 16384" for n using that by (simp add: sint_uint unsigned_of_nat signed_take_bit_int_eq_self take_bit_nat_eq_self)
  show "sint (word_of_nat len :: 32 word) = int len" "sint (word_of_nat (hd as) :: 32 word) = int (hd as)" using s im(3) a by simp_all
  show b: "b = enc (table as es) @ drop (hd as) b" using append_take_drop_id [of "hd as" b] im(6) by simp
  have "ptr_at b (4 * 1) = Some (table as es ! 1)" by (subst b, rule ptr_at_enc) (simp add: table_def)
  then show "ptr_at b PTRSIZE = Some (word_of_nat (hd as))" using im(1) by (cases as) (simp_all add: table_def PTRSIZE_def)
  show "\<not> word_of_nat (hd as) < (word_of_nat (4 * PTRSIZE) :: 32 word)"
  proof -
    have "\<not> word_of_nat n < (word_of_nat (4 * PTRSIZE) :: 32 word)" if "16 \<le> n" "n \<le> 16384" for n
      using that by (simp add: word_less_nat_alt unsigned_of_nat take_bit_nat_eq_self PTRSIZE_def)
    moreover have "16 \<le> hd as" using im(1,2) by (cases as) simp_all
    ultimately show ?thesis using im(3) a by simp
  qed
  show "\<forall>i \<in> set as \<union> set es. 0 < i \<and> i < 2 ^ 31 \<and> hd as \<le> i"
  proof
    fix i assume i: "i \<in> set as \<union> set es"
    then have "i = hd as \<or> hd as + length (str b (hd as)) < i" using im(1,5) by (cases as) auto
    moreover have "i < len" using i im(4) by (simp add: ends_def)
    ultimately show "0 < i \<and> i < 2 ^ 31 \<and> hd as \<le> i" using im(2,3) by auto
  qed
qed

lemma fits_word: "n \<le> EXEC_MAX \<Longrightarrow> \<not> (word_of_nat EXEC_MAX :: 32 word) < word_of_nat n"
  by (simp add: word_less_nat_alt unsigned_of_nat take_bit_nat_eq_self EXEC_MAX_def)

lemma put_arg_front:
  assumes e: "length b = EXEC_MAX" "take a b = enc (n # w # ws)" "a = 4 * (length ws + 2)" "a + 4 \<le> EXEC_MAX"
  shows "(bmove (take (a + 4) b @ r) 8 4 (int a - 4) \<bind> (\<lambda>s. ptr_at s 0 \<bind> (\<lambda>v. set_ptr s 0 (v + 1)))) = Some (enc ((n + 1) # w # w # ws) @ r)"
proof -
  let ?j = "take 4 (drop a b)"
  have j: "take (a + 4) b @ r = enc (n # w # ws) @ ?j @ r" "length ?j = 4" using e(1,4) unfolding e(2) [symmetric] by (simp_all add: take_add)
  have "bmove (enc (n # w # ws) @ ?j @ r) 8 4 (int a - 4) = Some (take 8 (enc (n # w # ws)) @ drop 4 (enc (n # w # ws)) @ r)"
    using e(3) j(2) by (simp add: bmove_def blit_def nat_diff_distrib nat_mult_distrib)
  then have "bmove (take (a + 4) b @ r) 8 4 (int a - 4) = Some (enc (n # w # w # ws) @ r)" unfolding j(1) by simp
  moreover have "ptr_at (enc (n # w # w # ws) @ r) 0 = Some n" using ptr_at_enc [of 0 "n # w # w # ws" r] by simp
  moreover have "set_ptr (enc (n # w # w # ws) @ r) 0 v = Some (enc (v # w # w # ws) @ r)" for v using set_ptr_enc [of 0 "n # w # w # ws" r] by simp
  ultimately show ?thesis by (simp only: Option.bind_lunit)
qed

lemma insert_front_ok:
  assumes im: "arg_image b len as es" and x: "0 \<in> set arg" and fit: "len + length (bstr arg) + 5 \<le> EXEC_MAX"
  defines "off \<equiv> int (length (bstr arg)) + 5"
  shows "\<exists>b'. insert_arg b (word_of_nat len) arg False = Some (True, b', word_of_nat (len + length (bstr arg) + 5)) \<and>
    arg_image b' (len + length (bstr arg) + 5) ((hd as + 4) # map (shifted off) as) (map (shifted off) es) \<and>
    str b' (hd as + 4) = bstr arg \<and> (\<forall>i \<in> set as \<union> set es. str b' (shifted off i) = str b i)"
proof -
  note w = image_words [OF im]
  let ?A = "hd as" and ?L = "length (bstr arg)" and ?n = "len + length (bstr arg) + 5"
  let ?R = "bstr arg @ [0] @ take (len - ?A) (drop ?A b) @ drop ?n b"
  let ?b = "enc (table ((?A + 4) # map (shifted off) as) (map (shifted off) es)) @ ?R"
  have im': "length b = EXEC_MAX" "as \<noteq> []" "?A = 4 * (length as + length es + 3)" "\<forall>i \<in> set as \<union> set es. ends b len i" "len \<le> EXEC_MAX"
      "take ?A b = enc (table as es)" using im unfolding arg_image_def by blast+
  have n: "int len + off = int ?n" "shifted off len = ?n" by (simp_all add: off_def shifted_def)
  have mc: "(bmove b (int ?A + off) (int ?A) (int len - int ?A) \<bind> (\<lambda>s. bstrcpy s (int ?A + 4) arg)) = Some (take (?A + 4) b @ ?R)"
    using move_copy [OF x, of "?A + 4" ?A off len b] fit im'(1,5) w(5) unfolding n nat_int by (simp add: off_def add.assoc)
  have t: "table as es = word_of_nat (length as) # word_of_nat ?A # tl (map word_of_nat as) @ 0 # map word_of_nat es @ [0]"
    using im'(2) by (cases as) (simp_all add: table_def)
  have fr: "(bmove (take (?A + 4) b @ ?R) 8 4 (int ?A - 4) \<bind> (\<lambda>s. ptr_at s 0 \<bind> (\<lambda>v. set_ptr s 0 (v + 1)))) =
      Some (enc ((word_of_nat (length as) + 1) # word_of_nat ?A # word_of_nat ?A # tl (map word_of_nat as) @ 0 # map word_of_nat es @ [0]) @ ?R)"
  proof (rule put_arg_front [OF im'(1)])
    show "take ?A b = enc (word_of_nat (length as) # word_of_nat ?A # tl (map word_of_nat as) @ 0 # map word_of_nat es @ [0])" using im'(6) unfolding t .
    show "?A = 4 * (length (tl (map word_of_nat as) @ 0 # map word_of_nat es @ [0]) + 2)" using im'(2,3) by (cases as) simp_all
    show "?A + 4 \<le> EXEC_MAX" using fit w(5) by simp
  qed
  have eq: "(word_of_nat (length as) + 1) # word_of_nat ?A # word_of_nat ?A # tl (map word_of_nat as) @ 0 # map word_of_nat es @ [0] =
      (word_of_nat (Suc (length as)) # word_of_nat ?A # map word_of_nat as @ 0 # map word_of_nat es @ [0] :: 32 word list)"
    using im'(2) by (cases as) simp_all
  have a: "4 * (length as + length es + 4) \<le> EXEC_MAX" "0 < ?A" using im'(3) fit w(5) by simp_all
  then have nz: "word_of_nat ?A \<noteq> (0 :: 32 word)" using w(3) by (metis sint_0 of_nat_eq_0_iff less_irrefl)
  have rl: "(patch_ptr (enc (word_of_nat (Suc (length as)) # word_of_nat ?A # map word_of_nat as @ 0 # map word_of_nat es @ [0]) @ ?R) (word_of_int off)
      \<bind> (\<lambda>s. set_ptr s PTRSIZE (word_of_int (int (?A + 4))))) = Some ?b"
    by (rule relocate [OF _ a(1) nz]) (use w(7) in \<open>simp add: off_def\<close>)
  have sz: "word_of_nat len + word_of_int off = (word_of_nat ?n :: 32 word)" by (simp add: off_def)
  have le: "\<not> (word_of_nat ?n :: 32 word) > word_of_nat EXEC_MAX" using fits_word [OF fit] .
  have "put_arg b (word_of_nat len) arg False (int ?A + 4) (int ?A) off = Some (True, ?b, word_of_nat ?n)"
  proof -
    obtain s1 s2 v s3 where "bmove b (int ?A + off) (int ?A) (int len - int ?A) = Some s1" "bstrcpy s1 (int ?A + 4) arg = Some (take (?A + 4) b @ ?R)"
      "bmove (take (?A + 4) b @ ?R) 8 4 (int ?A - 4) = Some s2" "ptr_at s2 0 = Some v"
      "set_ptr s2 0 (v + 1) = Some (enc (word_of_nat (Suc (length as)) # word_of_nat ?A # map word_of_nat as @ 0 # map word_of_nat es @ [0]) @ ?R)"
      "patch_ptr (enc (word_of_nat (Suc (length as)) # word_of_nat ?A # map word_of_nat as @ 0 # map word_of_nat es @ [0]) @ ?R) (word_of_int off) = Some s3"
      "set_ptr s3 PTRSIZE (word_of_int (int (?A + 4))) = Some ?b"
      using mc fr [unfolded eq] rl unfolding Option.bind_eq_Some_conv by blast
    then show ?thesis unfolding put_arg_def Let_def w(1) sz using le by (simp add: PTRSIZE_def del: enc_simps)
  qed
  then have "insert_arg b (word_of_nat len) arg False = Some (True, ?b, word_of_nat ?n)"
    using x w(1-5) by (simp add: insert_arg_def bstrlen_def Let_def off_def PTRSIZE_def add.assoc)
  moreover have "arg_image ?b ?n ((?A + 4) # map (shifted off) as) (map (shifted off) es) \<and> str ?b (?A + 4) = bstr arg \<and> (\<forall>i \<in> set as \<union> set es. str ?b (shifted off i) = str b i)"
  proof -
    have d: "4 * (length as + length es + 4) = ?A + 4" using im'(3) by simp
    have "length ?b = EXEC_MAX" using im'(1,5) fit w(5) d by (simp add: table_def del: enc_simps)
    then show ?thesis using image_new [of "bstr arg" as es ?A off len b "drop ?n b"] im'(1,4) w(5,7) fit
      unfolding d n by (simp add: off_def)
  qed
  ultimately show ?thesis by blast
qed

lemma insert_replace:
  assumes im: "arg_image b len as es" and x: "0 \<in> set arg"
  defines "off \<equiv> int (length (bstr arg)) - int (length (str b (hd as)))"
  assumes fit: "int len + off \<le> int EXEC_MAX"
  shows "\<exists>b'. insert_arg b (word_of_nat len) arg True = Some (True, b', word_of_nat (shifted off len)) \<and>
    arg_image b' (shifted off len) (hd as # map (shifted off) (tl as)) (map (shifted off) es) \<and>
    str b' (hd as) = bstr arg \<and> (\<forall>i \<in> set (tl as) \<union> set es. str b' (shifted off i) = str b i)"
proof -
  note w = image_words [OF im]
  let ?A = "hd as" and ?a = "hd as + length (str b (hd as)) + 1" and ?n = "shifted off len"
  let ?R = "bstr arg @ [0] @ take (len - ?a) (drop ?a b) @ drop ?n b"
  let ?b = "enc (table (?A # map (shifted off) (tl as)) (map (shifted off) es)) @ ?R"
  have im': "length b = EXEC_MAX" "as \<noteq> []" "?A = 4 * (length as + length es + 3)" "\<forall>i \<in> set as \<union> set es. ends b len i" "len \<le> EXEC_MAX"
      "take ?A b = enc (table as es)" "\<forall>i \<in> set (tl as) \<union> set es. ?A + length (str b ?A) < i" using im unfolding arg_image_def by blast+
  have e: "ends b len ?A" using im'(2,4) by simp
  have al: "?a \<le> len"
  proof -
    have "length (str b ?A) < length (take (len - ?A) (drop ?A b))"
      using e bstr_shorter unfolding str_take [OF e] ends_def by blast
    then show ?thesis using w(5) by auto
  qed
  have n: "int ?n = int len + off" "int ?A + int (length (bstr arg)) + 1 = int ?a + off" using al by (simp_all add: shifted_def off_def)
  have sk: "skip_arg b (int len) (int ?A) (int (length (bstr arg)) + 1) = Some (Some (int ?a, off))"
    using skip_arg_ok [of ?A len b] e im'(1,5) by (simp add: ends_def str_def off_def)
  have mc: "(bmove b (int ?a + off) (int ?a) (int len - int ?a) \<bind> (\<lambda>s. bstrcpy s (int ?A) arg)) = Some (take ?A b @ ?R)"
    using move_copy [OF x n(2) al] fit im'(1,5) unfolding shifted_def by simp
  have t: "enc (table as es) = enc (word_of_nat (Suc (length (tl as))) # word_of_nat ?A # map word_of_nat (tl as) @ 0 # map word_of_nat es @ [0])"
    using im'(2) by (cases as) (simp_all add: table_def)
  have a: "4 * (length (tl as) + length es + 4) = ?A" "?A \<le> EXEC_MAX" using im'(2,3,5) w(5) by (cases as; simp)+
  then have nz: "word_of_nat ?A \<noteq> (0 :: 32 word)" using w(3) by (metis sint_0 of_nat_eq_0_iff mult_eq_0_iff add_eq_0_iff_both_eq_0 zero_neq_numeral)
  have s: "0 < i \<and> i < 2 ^ 31 \<and> 0 \<le> int i + off \<and> ?a \<le> i \<and> ends b len i" if "i \<in> set (tl as) \<union> set es" for i
  proof -
    have "i \<in> set as \<union> set es" "?A + length (str b ?A) < i" using that im'(2,7) by (auto intro: list.set_sel(2))
    then show ?thesis using w(7) im'(4) by (auto simp: off_def)
  qed
  have rl: "(patch_ptr (take ?A b @ ?R) (word_of_int off) \<bind> (\<lambda>s. set_ptr s PTRSIZE (word_of_int (int ?A)))) = Some ?b"
    unfolding im'(6) t by (rule relocate [OF _ _ nz]) (use s a in auto)
  have sz: "word_of_nat len + word_of_int off = (word_of_nat ?n :: 32 word)" using n(1) by (metis of_int_add of_int_of_nat_eq)
  have le: "\<not> (word_of_nat ?n :: 32 word) > word_of_nat EXEC_MAX" using fits_word n(1) fit by simp
  have "put_arg b (word_of_nat len) arg True (int ?A) (int ?a) off = Some (True, ?b, word_of_nat ?n)"
  proof -
    obtain s1 s2 where "bmove b (int ?a + off) (int ?a) (int len - int ?a) = Some s1" "bstrcpy s1 (int ?A) arg = Some (take ?A b @ ?R)"
      "patch_ptr (take ?A b @ ?R) (word_of_int off) = Some s2" "set_ptr s2 PTRSIZE (word_of_int (int ?A)) = Some ?b"
      using mc rl unfolding Option.bind_eq_Some_conv by blast
    then show ?thesis unfolding put_arg_def Let_def w(1) sz using le by (simp del: enc_simps)
  qed
  then have "insert_arg b (word_of_nat len) arg True = Some (True, ?b, word_of_nat ?n)"
    using x w(1-5) sk by (simp add: insert_arg_def bstrlen_def Let_def)
  moreover have "length ?b = EXEC_MAX" using im'(1,5) al a n fit by (simp add: table_def del: enc_simps)
  then have "arg_image ?b ?n (?A # map (shifted off) (tl as)) (map (shifted off) es) \<and> str ?b ?A = bstr arg \<and> (\<forall>i \<in> set (tl as) \<union> set es. str ?b (shifted off i) = str b i)"
    using image_new [of "bstr arg" "tl as" es ?a off len b "drop ?n b"] im'(1,5) al n(2) fit s
    unfolding a(1) by simp
  ultimately show ?thesis by blast
qed

end
