(* ===== verification/Pmscript.thy ===== *)
theory Pmscript
  imports Pmargs
begin

text \<open>
  Scripts: what \<open>patch_stack\<close> makes of the arguments of a program whose file starts with \<open>#!\<close>, and which images make the code leave its buffer.
\<close>

section \<open>Arguments as strings\<close>

definition holds :: "bytes \<Rightarrow> nat \<Rightarrow> bytes list \<Rightarrow> bytes list \<Rightarrow> bool" where
  "holds b len args envs \<longleftrightarrow> (\<exists>as es. arg_image b len as es \<and> args = map (str b) as \<and> envs = map (str b) es)"

lemma holds_insert:
  assumes "holds b len args envs" "0 \<in> set arg" "len + length (bstr arg) + 5 \<le> EXEC_MAX"
  shows "\<exists>b'. insert_arg b (word_of_nat len) arg False = Some (True, b', word_of_nat (len + length (bstr arg) + 5)) \<and>
    holds b' (len + length (bstr arg) + 5) (bstr arg # args) envs"
proof -
  obtain as es where h: "arg_image b len as es" "args = map (str b) as" "envs = map (str b) es" using assms(1) by (auto simp: holds_def)
  then show ?thesis using insert_front_ok [OF h(1) assms(2,3)] unfolding holds_def by fastforce
qed

lemma holds_replace:
  assumes "holds b len args envs" "0 \<in> set arg" "len + length (bstr arg) \<le> EXEC_MAX + length (hd args)"
  shows "\<exists>b'. insert_arg b (word_of_nat len) arg True = Some (True, b', word_of_nat (len + length (bstr arg) - length (hd args))) \<and>
    holds b' (len + length (bstr arg) - length (hd args)) (bstr arg # tl args) envs"
proof -
  obtain as es where h: "arg_image b len as es" "args = map (str b) as" "envs = map (str b) es" using assms(1) by (auto simp: holds_def)
  have as: "as \<noteq> []" using h(1) by (simp add: arg_image_def)
  let ?off = "int (length (bstr arg)) - int (length (str b (hd as)))"
  have hd: "hd args = str b (hd as)" "tl args = map (str b) (tl as)" using h(2) as by (simp_all add: hd_map map_tl)
  have n: "shifted ?off len = len + length (bstr arg) - length (hd args)" using hd(1) by (simp add: shifted_def)
  have f: "int len + ?off \<le> int EXEC_MAX" using assms(3) hd(1) by simp
  show ?thesis using insert_replace [OF h(1) assms(2) f] h(3) hd(2) unfolding n holds_def by fastforce
qed

section \<open>Words of a line\<close>

function line_words :: "bytes \<Rightarrow> bytes list" where
  "line_words cs =
     (let xs = dropWhile blank_char cs
      in if xs = [] then [] else takeWhile (\<lambda>c. \<not> blank_char c) xs # line_words (dropWhile (\<lambda>c. \<not> blank_char c) xs))"
  by auto
termination
proof (relation "measure length", goal_cases)
  case (2 cs x)
  have "x \<noteq> []" "\<not> blank_char (hd x)" using 2 hd_dropWhile [of blank_char cs] by simp_all
  then have "length (dropWhile (\<lambda>c. \<not> blank_char c) x) < length x" by (cases x) (simp_all add: less_Suc_eq_le length_dropWhile_le)
  then show ?case using 2(1) length_dropWhile_le [of blank_char cs] by simp
qed simp

declare line_words.simps [simp del]

lemma line_words_blank: "\<forall>c \<in> set cs. blank_char c \<Longrightarrow> line_words cs = []"
  by (subst line_words.simps) (simp add: Let_def)

lemma line_words_snoc:
  assumes w: "w \<noteq> []" "\<forall>c \<in> set w. \<not> blank_char c" and t: "\<forall>c \<in> set t. blank_char c"
  shows "xs = [] \<or> blank_char (last xs) \<Longrightarrow> line_words (xs @ w @ t) = line_words xs @ [w]"
proof (induction xs rule: line_words.induct)
  case (1 xs)
  let ?ys = "dropWhile blank_char xs"
  have wt: "dropWhile blank_char (w @ t) = w @ t" "takeWhile (\<lambda>c. \<not> blank_char c) (w @ t) = w" "dropWhile (\<lambda>c. \<not> blank_char c) (w @ t) = t"
    using w t by (cases w; cases t; auto simp: takeWhile_append dropWhile_append)+
  show ?case
  proof (cases "?ys = []")
    case True
    then have "\<forall>c \<in> set xs. blank_char c" by (simp add: dropWhile_eq_Nil_conv)
    then show ?thesis using True wt w(1) line_words_blank [OF t] line_words_blank [of xs]
      by (subst line_words.simps) (simp add: dropWhile_append1 Let_def dropWhile_append)
  next
    case False
    let ?zs = "dropWhile (\<lambda>c. \<not> blank_char c) ?ys"
    have xs: "xs \<noteq> []" "blank_char (last xs)" using False 1(2) by auto
    have "last ?ys = last xs" using False by (metis last_appendR takeWhile_dropWhile_id)
    then have bl: "\<exists>c \<in> set ?ys. blank_char c" using False xs(2) by (metis last_in_set)
    then have zs: "?zs \<noteq> []" "blank_char (last ?zs)" using False xs(2) \<open>last ?ys = last xs\<close>
      by (auto simp: dropWhile_eq_Nil_conv) (metis last_appendR takeWhile_dropWhile_id dropWhile_eq_Nil_conv)
    have d: "dropWhile blank_char (xs @ w @ t) = ?ys @ w @ t" using False by (auto simp: dropWhile_append dropWhile_eq_Nil_conv)
    have e: "takeWhile (\<lambda>c. \<not> blank_char c) (?ys @ w @ t) = takeWhile (\<lambda>c. \<not> blank_char c) ?ys" "dropWhile (\<lambda>c. \<not> blank_char c) (?ys @ w @ t) = ?zs @ w @ t"
      using bl by (auto simp: takeWhile_append dropWhile_append)
    have "line_words (?zs @ w @ t) = line_words ?zs @ [w]" using 1(1) False zs by simp
    then show ?thesis using False d e by (subst (1 2) line_words.simps) (simp add: Let_def)
  qed
qed

section \<open>The loop over the line\<close>

lemma back_blanks_cases:
  "(back_blanks script sp = 0 \<and> ((\<forall>j < sp. blank_char (script ! j)) \<or> (0 < sp \<and> \<not> blank_char (script ! 0) \<and> (\<forall>j < sp. 0 < j \<longrightarrow> blank_char (script ! j))))) \<or>
   (0 < back_blanks script sp \<and> back_blanks script sp < sp \<and> \<not> blank_char (script ! back_blanks script sp) \<and> (\<forall>j < sp. back_blanks script sp < j \<longrightarrow> blank_char (script ! j)))"
proof (induction sp)
  case (Suc sp)
  then show ?case by (cases "sp = 0") (auto simp: less_Suc_eq)
qed simp

lemma back_word_cases:
  "(\<forall>j < sp. back_word script sp \<le> j \<longrightarrow> \<not> blank_char (script ! j)) \<and> (back_word script sp = 0 \<or> blank_char (script ! (back_word script sp - 1)))"
  by (induction sp) (auto simp: less_Suc_eq)

text \<open>A word of one character at the very beginning, which the loop takes for the end.\<close>

definition lone :: "bytes \<Rightarrow> bool" where
  "lone cs \<longleftrightarrow> cs \<noteq> [] \<and> \<not> blank_char (cs ! 0) \<and> (length cs = 1 \<or> blank_char (cs ! 1))"

definition words_room :: "bytes list \<Rightarrow> nat" where
  "words_room ws = sum_list (map (\<lambda>w. length w + 5) ws)"

lemma words_room_simps [simp]: "words_room [] = 0" "words_room (ws @ [w]) = words_room ws + (length w + 5)"
  by (simp_all add: words_room_def)

text \<open>One word: where it is, and what the line is before it.\<close>

lemma last_word:
  assumes sp: "sp < length script" and z: "0 \<notin> set (take sp script)" and s: "s = back_blanks script sp" "s \<noteq> 0" "\<not> lone (take sp script)"
  defines "i \<equiv> back_word (script[s + 1 := 0]) s" and "script' \<equiv> script[s + 1 := 0]"
  defines "w \<equiv> take (s + 1 - i) (drop i script)"
  shows "s + 1 < length script" "i \<le> s" "take i script' = take i script" "bstr (drop i script') = w" "0 \<in> set (drop i script')" "0 \<notin> set (take i script')" "\<not> lone (take i script')"
    "line_words (take sp script) = line_words (take i script') @ [w]"
proof -
  have b: "s < sp" "\<not> blank_char (script ! s)" "\<And>j. j < sp \<Longrightarrow> s < j \<Longrightarrow> blank_char (script ! j)" using back_blanks_cases [of script sp] s by auto
  show l: "s + 1 < length script" using b(1) sp by simp
  show i: "i \<le> s" unfolding i_def by (rule back_le)
  have n: "script' ! j = script ! j" if "j \<le> s" for j using that by (simp add: script'_def)
  have v: "\<not> blank_char (script ! j)" if "i \<le> j" "j \<le> s" for j
  proof (cases "j = s")
    case False
    then have "j < s" using that(2) by simp
    then show ?thesis using that(1) back_word_cases [of s script'] n [of j] unfolding i_def script'_def [symmetric] by auto
  qed (use b(2) in simp)
  have p: "i = 0 \<or> blank_char (script ! (i - 1))" using back_word_cases [of s script'] n [of "i - 1"] i unfolding i_def script'_def [symmetric] by auto
  show t: "take i script' = take i script" using i by (simp add: script'_def)
  have d: "take sp script = take i script @ w @ drop (s + 1) (take sp script)"
  proof -
    have "take (s + 1) script = take i script @ w" using i take_add [of i "s + 1 - i" script] by (simp add: w_def)
    moreover have "take (s + 1) (take sp script) = take (s + 1) script" using b(1) by (simp add: min_def)
    ultimately show ?thesis using append_take_drop_id [of "s + 1" "take sp script"] by simp
  qed
  show "0 \<notin> set (take i script')" unfolding t using z d by (metis UnCI set_append)
  have z': "0 \<notin> set w" using z d by (metis UnCI set_append)
  have "drop (s + 1) script' = 0 # drop (s + 2) script" using l unfolding script'_def by (simp add: Cons_nth_drop_Suc [symmetric])
  moreover have "take (s + 1 - i) (drop i script') = w" using i unfolding w_def script'_def by (simp add: drop_update_swap)
  ultimately have "drop i script' = w @ 0 # drop (s + 2) script"
    using i append_take_drop_id [of "s + 1 - i" "drop i script'"] by simp
  then show "bstr (drop i script') = w" "0 \<in> set (drop i script')" using z' by (simp_all add: bstr_append)
  show "\<not> lone (take i script')" unfolding t 
  proof
    assume a: "lone (take i script)"
    then have "i \<noteq> 1" "i \<noteq> 0" using p l i by (auto simp: lone_def)
    then show False using a s(3) b(1) i l sp by (auto simp: lone_def)
  qed
  have w: "w \<noteq> []" "\<forall>c \<in> set w. \<not> blank_char c" using i l v by (auto simp: w_def in_set_conv_nth)
  have bl: "\<forall>c \<in> set (drop (s + 1) (take sp script)). blank_char c" using b(3) sp by (auto simp: set_conv_nth)
  have "take i script = [] \<or> blank_char (last (take i script))" 
  proof (cases "i = 0")
    case False
    then have "take i script \<noteq> []" using l by auto
    then show ?thesis using False p i l by (simp add: last_conv_nth min_def)
  qed simp
  from line_words_snoc [OF w bl this] show "line_words (take sp script) = line_words (take i script') @ [w]" unfolding t using d by simp
qed

lemma patch_words_ok:
  "holds b len args envs \<Longrightarrow> sp < length script \<Longrightarrow> 0 \<notin> set (take sp script) \<Longrightarrow> \<not> lone (take sp script) \<Longrightarrow>
   len + words_room (line_words (take sp script)) \<le> EXEC_MAX \<Longrightarrow>
   \<exists>ip script' b'. patch_words sp interp script b (word_of_nat len) = Some (ip, script', b', round_ptr (word_of_nat (len + words_room (line_words (take sp script))))) \<and>
     holds b' (len + words_room (line_words (take sp script))) (line_words (take sp script) @ args) envs \<and>
     (if line_words (take sp script) = [] then ip = interp \<and> script' = script else \<exists>i. ip = Some i \<and> bstr (drop i script') = hd (line_words (take sp script)))"
proof (induction sp arbitrary: interp script b len args rule: less_induct)
  case (less sp)
  let ?s = "back_blanks script sp"
  show ?case
  proof (cases "?s = 0")
    case True
    then have "\<forall>j < sp. blank_char (script ! j)" using back_blanks_cases [of script sp] less.prems(2,4) by (auto simp: lone_def)
    then have "\<forall>c \<in> set (take sp script). blank_char c" by (auto simp: set_conv_nth)
    then have "line_words (take sp script) = []" by (rule line_words_blank)
    then show ?thesis using less.prems(1) True by (subst patch_words.simps) (simp add: Let_def)
  next
    case False
    note w = last_word [OF less.prems(2,3) refl False less.prems(4)]
    let ?script = "script[?s + 1 := 0]"
    let ?i = "back_word ?script ?s"
    let ?w = "take (?s + 1 - ?i) (drop ?i script)"
    let ?n = "len + length ?w + 5"
    have r: "words_room (line_words (take sp script)) = words_room (line_words (take ?i ?script)) + (length ?w + 5)" unfolding w(8) by simp
    obtain b1 where b1: "insert_arg b (word_of_nat len) (drop ?i ?script) False = Some (True, b1, word_of_nat ?n)" "holds b1 ?n (?w # args) envs"
      using holds_insert [OF less.prems(1) w(5)] less.prems(5) unfolding r w(4) by auto
    have lt: "?i < sp" using w(2) back_le(3) [of sp script] False by (cases sp) auto
    have l: "?i < length ?script" using lt less.prems(2) by simp
    have f: "?n + words_room (line_words (take ?i ?script)) \<le> EXEC_MAX" using less.prems(5) unfolding r by simp
    have e: "patch_words sp interp script b (word_of_nat len) = patch_words ?i (Some ?i) ?script b1 (word_of_nat ?n)"
      using False w(1) b1(1) by (subst patch_words.simps) (simp add: Let_def)
    have n: "?n + words_room (line_words (take ?i ?script)) = len + words_room (line_words (take sp script))" unfolding r by simp
    obtain ip script' b' where p: "patch_words ?i (Some ?i) ?script b1 (word_of_nat ?n) = Some (ip, script', b', round_ptr (word_of_nat (len + words_room (line_words (take sp script)))))"
        "holds b' (len + words_room (line_words (take sp script))) (line_words (take ?i ?script) @ ?w # args) envs"
        "if line_words (take ?i ?script) = [] then ip = Some ?i \<and> script' = ?script else \<exists>i. ip = Some i \<and> bstr (drop i script') = hd (line_words (take ?i ?script))"
      using less.IH [OF lt b1(2) l w(6,7) f, of "Some ?i"] unfolding n by blast
    have "\<exists>i. ip = Some i \<and> bstr (drop i script') = hd (line_words (take sp script))"
      using p(3) w(4) unfolding w(8) by (auto split: if_splits)
    then show ?thesis using p(1,2) unfolding e w(8) by auto
  qed
qed

lemma bfind_ok: "10 \<notin> set ln \<Longrightarrow> bfind 10 (ln @ 10 # rest) = Some (length ln)"
  by (induction ln) auto

lemma patch_stack_ok:
  assumes h: "holds b len args envs" and s: "0 \<in> set script" "length ln + length rest < length script"
    and ln: "10 \<notin> set ln" "0 \<notin> set ln" "\<not> lone ln"
  defines "ws \<equiv> line_words ln"
  defines "n \<equiv> len + length (bstr script) - length (hd args) + words_room ws"
  assumes fit: "len + length (bstr script) + words_room ws \<le> EXEC_MAX + length (hd args)"
  shows "\<exists>ip script' b'. patch_stack (Some (ln @ 10 # rest)) b (word_of_nat len) script = Some (ip, script', b', round_ptr (word_of_nat n)) \<and>
    holds b' n (ws @ bstr script # tl args) envs \<and> (if ws = [] then ip = None else \<exists>i. ip = Some i \<and> bstr (drop i script') = hd ws)"
proof -
  let ?m = "len + length (bstr script) - length (hd args)"
  obtain b1 where b1: "insert_arg b (word_of_nat len) script True = Some (True, b1, word_of_nat ?m)" "holds b1 ?m (bstr script # tl args) envs"
    using holds_replace [OF h s(1)] fit by auto
  let ?script = "(ln @ 10 # rest) @ drop (length ln + length rest + 1) script"
  have sc: "blit script 0 (ln @ 10 # rest) = Some ?script" using s(2) by (simp add: blit_def)
  have t: "take (length ln) ?script = ln" "length ln < length ?script" by simp_all
  have le: "length (hd args) \<le> len"
  proof -
    obtain as es where im: "arg_image b len as es" "args = map (str b) as" using h by (auto simp: holds_def)
    then have "as \<noteq> []" by (simp add: arg_image_def)
    moreover have "\<forall>i \<in> set as \<union> set es. ends b len i" using im(1) unfolding arg_image_def by blast
    ultimately have e: "ends b len (hd as)" "hd args = str b (hd as)" using im(2) by (simp_all add: hd_map)
    then have "length (bstr (take (len - hd as) (drop (hd as) b))) < length (take (len - hd as) (drop (hd as) b))" using bstr_shorter unfolding ends_def by blast
    then show ?thesis unfolding e(2) str_take [OF e(1)] by auto
  qed
  have "?m + words_room (line_words (take (length ln) ?script)) \<le> EXEC_MAX" using fit le unfolding t(1) ws_def by linarith
  note pw = patch_words_ok [OF b1(2) t(2) _ _ this, of None, unfolded t(1), folded ws_def, folded n_def, OF ln(2,3)]
  have "patch_stack (Some (ln @ 10 # rest)) b (word_of_nat len) script = patch_words (length ln) None ?script b1 (word_of_nat ?m)"
    unfolding patch_stack_def by (simp add: b1(1) sc bfind_ok [OF ln(1)])
  then show ?thesis using pw by (cases "ws = []") (simp_all only: if_True if_False simp_thms, blast+)
qed

section \<open>Any image\<close>

lemma patch_from_total: "length b = EXEC_MAX \<Longrightarrow> 4 dvd ap \<Longrightarrow> \<exists>b'. patch_from ap flag base b = Some b' \<and> length b' = EXEC_MAX"
proof (induction ap flag base b rule: patch_from.induct)
  case (1 ap flag base b)
  show ?case
  proof (cases "flag < 2 \<and> ap < EXEC_MAX")
    case True
    then have k: "ap + 4 \<le> length b" using 1(3,4) by (auto simp: EXEC_MAX_def dvd_def)
    then obtain v where v: "ptr_at b ap = Some v" by (simp add: ptr_at_def PTRSIZE_def)
    have "\<exists>b'. set_ptr b ap (v + base) = Some b' \<and> length b' = EXEC_MAX" using k 1(3) by (simp add: set_ptr_def blit_def)
    then obtain b1 where b1: "set_ptr b ap (v + base) = Some b1" "length b1 = EXEC_MAX" by blast
    show ?thesis using True v b1 1(1) [OF True v] 1(2) [OF True v] 1(3,4) by (subst patch_from.simps) (simp add: PTRSIZE_def)
  qed (use 1(3) in \<open>subst patch_from.simps; auto\<close>)
qed

lemma skip_arg_total:
  assumes "0 \<le> a1" "a1 \<le> old" "old \<le> int (length b)"
  shows "\<exists>r. skip_arg b old a1 off = Some r \<and> (\<forall>a off'. r = Some (a, off') \<longrightarrow> a1 < a \<and> a \<le> old \<and> a + off' = a1 + off)"
  using assms
proof (induction b old a1 off rule: skip_arg.induct)
  case (1 b old a1 off)
  show ?case
  proof (cases "a1 = old")
    case False
    then have "byte_at b a1 = Some (b ! nat a1)" using 1 by (simp add: byte_at_def)
    then show ?thesis using False 1 by (subst skip_arg.simps) (force simp: skip_arg.simps [of b old a1 off])
  qed (subst skip_arg.simps, simp)
qed

lemma unat_fits: "n < 2 ^ 32 \<Longrightarrow> unat (word_of_nat n :: 32 word) = n"
  by (simp add: unsigned_of_nat take_bit_nat_eq_self)

lemma bmove_total: "length c = EXEC_MAX \<Longrightarrow> d \<le> EXEC_MAX \<Longrightarrow> 8 \<le> d \<Longrightarrow> \<exists>s. bmove c 8 4 (int d - 8) = Some s \<and> length s = EXEC_MAX"
proof -
  assume c: "length c = EXEC_MAX" "d \<le> EXEC_MAX" "8 \<le> d"
  have "nat (int d - 8) = d - 8" by simp
  then show ?thesis using c by (simp add: bmove_def blit_def)
qed

lemma put_arg_total:
  assumes b: "length b = EXEC_MAX" and x: "0 \<in> set arg" "length arg \<le> EXEC_MAX" and n: "len \<le> EXEC_MAX" "a1 \<le> len" "rep \<or> 8 \<le> d"
    and d: "int d + int (length (bstr arg)) + 1 = int a1 + off" "off \<le> int EXEC_MAX + 5"
  shows "\<exists>ok b' m. put_arg b (word_of_nat len) arg rep (int d) (int a1) off = Some (ok, b', m) \<and> length b' = EXEC_MAX \<and> (ok \<longrightarrow> unat m \<le> EXEC_MAX)"
proof -
  let ?m = "word_of_nat len + word_of_int off :: 32 word"
  have l: "0 \<le> int len + off" using n(2) d(1) by linarith
  have m: "?m = word_of_nat (nat (int len + off))" using l by (simp add: word_of_int_nat [symmetric])
  have u: "unat ?m = nat (int len + off)" unfolding m by (rule unat_fits) (use n(1) d(2) in \<open>simp add: EXEC_MAX_def\<close>)
  have s: "sint (word_of_nat len :: 32 word) = int len" using n(1) by (simp add: sint_uint unsigned_of_nat signed_take_bit_int_eq_self take_bit_nat_eq_self EXEC_MAX_def)
  show ?thesis
  proof (cases "?m > word_of_nat EXEC_MAX")
    case False
    then have f: "int len + off \<le> int EXEC_MAX" using u by (simp add: word_less_nat_alt unsigned_of_nat take_bit_nat_eq_self EXEC_MAX_def)
    let ?c = "take d b @ bstr arg @ [0] @ take (len - a1) (drop a1 b) @ drop (nat (int len + off)) b"
    obtain s1 c where s1: "bmove b (int a1 + off) (int a1) (int len - int a1) = Some s1" "bstrcpy s1 (int d) arg = Some c" "c = ?c"
      using move_copy [OF x(1) d(1) n(2), of b] n(1) b f unfolding Option.bind_eq_Some_conv by auto
    have dl: "d + length (bstr arg) + 1 + (len - a1) = nat (int len + off)" "d \<le> EXEC_MAX" using d(1) n(2) l f by linarith+
    have c: "length c = EXEC_MAX" using b dl n f unfolding s1(3) by simp
    have k: "\<exists>c'. set_ptr c i w = Some c' \<and> length c' = EXEC_MAX" if "length c = EXEC_MAX" "i + 4 \<le> EXEC_MAX" for c i w
      using that by (simp add: set_ptr_def blit_def)
    obtain s2 where s2: "(if rep then Some c else bmove c (2 * int PTRSIZE) (int PTRSIZE) (int d - 2 * int PTRSIZE) \<bind> (\<lambda>s. ptr_at s 0 \<bind> (\<lambda>v. set_ptr s 0 (v + 1)))) = Some s2"
        "length s2 = EXEC_MAX"
    proof (cases rep)
      case False
      then obtain s where s: "bmove c (2 * int PTRSIZE) (int PTRSIZE) (int d - 2 * int PTRSIZE) = Some s" "length s = EXEC_MAX"
        using bmove_total [OF c dl(2)] n(3) by (auto simp: PTRSIZE_def)
      then obtain v where v: "ptr_at s 0 = Some v" by (simp add: ptr_at_def PTRSIZE_def EXEC_MAX_def)
      obtain s2 where "set_ptr s 0 (v + 1) = Some s2" "length s2 = EXEC_MAX" using k [OF s(2), of 0 "v + 1"] by (auto simp: EXEC_MAX_def)
      then show ?thesis using False s(1) v that by simp
    qed (use c that in simp)
    obtain s3 where s3: "patch_ptr s2 (word_of_int off) = Some s3" "length s3 = EXEC_MAX"
      using patch_from_total [OF s2(2), of PTRSIZE 0 "word_of_int off"] by (auto simp: patch_ptr_def PTRSIZE_def)
    obtain s4 where s4: "set_ptr s3 PTRSIZE (word_of_int (int d)) = Some s4" "length s4 = EXEC_MAX" using k [OF s3(2), of PTRSIZE] by (auto simp: EXEC_MAX_def PTRSIZE_def)
    have "put_arg b (word_of_nat len) arg rep (int d) (int a1) off = Some (True, s4, ?m)"
      unfolding put_arg_def Let_def s if_not_P [OF False] s1(1,2) Option.bind_lunit s2(1) s3(1) s4(1) ..
    moreover have "unat ?m \<le> EXEC_MAX" using u f by simp
    ultimately show ?thesis using s4(2) by blast
  qed (use b s in \<open>auto simp: put_arg_def Let_def\<close>)
qed

lemma insert_arg_total:
  assumes b: "length b = EXEC_MAX" and x: "0 \<in> set arg" "length arg \<le> EXEC_MAX" and n: "len \<le> EXEC_MAX" and w: "ptr_at b PTRSIZE = Some w" "0 \<le> sint w"
  shows "\<exists>ok b' m. insert_arg b (word_of_nat len) arg rep = Some (ok, b', m) \<and> length b' = EXEC_MAX \<and> (ok \<longrightarrow> unat m \<le> EXEC_MAX)"
proof (cases "w < word_of_nat (4 * PTRSIZE) \<or> sint w \<ge> sint (word_of_nat len :: 32 word)")
  case True
  then show ?thesis using b w(1) x(1) by (auto simp: insert_arg_def bstrlen_def Let_def)
next
  case False
  let ?L = "int (length (bstr arg))"
  have s: "sint (word_of_nat len :: 32 word) = int len" using n by (simp add: sint_uint unsigned_of_nat signed_take_bit_int_eq_self take_bit_nat_eq_self EXEC_MAX_def)
  have l: "?L < int EXEC_MAX" using bstr_shorter [OF x(1)] x(2) by simp
  define a where "a = nat (sint w)"
  have a: "sint w = int a" "a < len" using w(2) False s by (simp_all add: a_def nat_less_iff)
  show ?thesis
  proof (cases rep)
    case True
    obtain r where r: "skip_arg b (int len) (int a) (?L + 1) = Some r" "\<forall>a1 off. r = Some (a1, off) \<longrightarrow> int a < a1 \<and> a1 \<le> int len \<and> a1 + off = int a + (?L + 1)"
      using skip_arg_total [of "int a" "int len" b "?L + 1"] a(2) n b by auto
    show ?thesis
    proof (cases r)
      case None
      then show ?thesis using True False s a(1) w(1) x(1) r(1) b by (auto simp: insert_arg_def bstrlen_def Let_def)
    next
      case (Some p)
      obtain z off where z: "p = (z, off)" by fastforce
      then have "int a < z" "z \<le> int len" "z + off = int a + (?L + 1)" using r(2) Some by auto
      moreover from this have o: "off \<le> int EXEC_MAX + 5" using l by linarith
      ultimately have p: "p = (int (nat z), off)" "nat z \<le> len" "int a + ?L + 1 = int (nat z) + off" "a < nat z" using z by auto
      have "\<exists>ok b' m. put_arg b (word_of_nat len) arg True (int a) (int (nat z)) off = Some (ok, b', m) \<and> length b' = EXEC_MAX \<and> (ok \<longrightarrow> unat m \<le> EXEC_MAX)"
        by (rule put_arg_total [OF b x n p(2) _ p(3)]) (use o in simp_all)
      then show ?thesis using True False s a(1) w(1) x(1) r(1) Some p(1) by (simp add: insert_arg_def bstrlen_def Let_def)
    qed
  next
    case F: False
    have "\<exists>ok b' m. put_arg b (word_of_nat len) arg False (int (a + 4)) (int a) (?L + 1 + 4) = Some (ok, b', m) \<and> length b' = EXEC_MAX \<and> (ok \<longrightarrow> unat m \<le> EXEC_MAX)"
    proof (rule put_arg_total [OF b x n])
      have "16 \<le> unat w" using False by (simp add: word_less_nat_alt PTRSIZE_def)
      moreover have "unat w = a"
      proof -
        have "w = word_of_int (sint w)" by simp
        then have "w = word_of_nat a" unfolding a(1) by simp
        then show ?thesis using unat_fits [of a] a(2) n by (simp add: EXEC_MAX_def)
      qed
      ultimately show "False \<or> 8 \<le> a + 4" by simp
    qed (use a(2) l in simp_all)
    then show ?thesis using F False s a(1) w(1) x(1) by (simp add: insert_arg_def bstrlen_def Let_def PTRSIZE_def)
  qed
qed

section \<open>Properties\<close>

text \<open>C36: Scripts. For a well-formed image of the argument stack and a first line without a lone character at its beginning, \<open>patch_stack\<close> makes the
  arguments of the program the words of the line, followed by the name of the script, followed by the old arguments without the first one; the environment
  stays as it is, every string is intact, the buffers are not left, and the result is the first word, the interpreter. The new image has to fit
  the buffer: without room for the words and the name \<open>patch_stack\<close> returns NULL.\<close>

theorem pm_script_args:
  assumes "holds b len args envs" and "0 \<in> set script" and "length ln + length rest < length script"
    and "10 \<notin> set ln" and "0 \<notin> set ln" and "\<not> lone ln"
    and "len + length (bstr script) + words_room (line_words ln) \<le> EXEC_MAX + length (hd args)"
  shows "\<exists>ip script' b'.
    patch_stack (Some (ln @ 10 # rest)) b (word_of_nat len) script =
      Some (ip, script', b', round_ptr (word_of_nat (len + length (bstr script) - length (hd args) + words_room (line_words ln)))) \<and>
    holds b' (len + length (bstr script) - length (hd args) + words_room (line_words ln)) (line_words ln @ bstr script # tl args) envs \<and>
    (if line_words ln = [] then ip = None else \<exists>i. ip = Some i \<and> bstr (drop i script') = hd (line_words ln))"
  using patch_stack_ok [OF assms] .

definition stack0 :: bytes where
  "stack0 = enc (table [16] []) @ 97 # 0 # replicate 16366 0"

lemma holds0: "holds stack0 18 [[97]] []"
proof -
  have "length (enc (table [16] [])) = 16" by (simp add: table_def)
  then have d: "drop 16 stack0 = 97 # 0 # replicate 16366 0" "take 16 stack0 = enc (table [16] [])" "length stack0 = 16384" by (simp_all add: stack0_def)
  then have "arg_image stack0 18 [16] []" by (simp add: arg_image_def EXEC_MAX_def ends_def)
  moreover have "str stack0 16 = [97]" by (simp add: str_def d bstr_def)
  ultimately show ?thesis by (auto simp: holds_def)
qed

theorem pm_script_args_witness:
  "\<exists>i script' b' n. patch_stack (Some ([115, 104, 32, 45, 120] @ 10 # [])) stack0 (word_of_nat 18) (120 # replicate 254 0) = Some (Some i, script', b', n) \<and>
     holds b' 32 [[115, 104], [45, 120], [120]] [] \<and> bstr (drop i script') = [115, 104]"
proof -
  have w: "line_words [115, 104, 32, 45, 120] = [[115, 104], [45, 120]]" by code_simp
  have s: "bstr (120 # replicate 254 0) = [120]" by (simp add: bstr_def)
  show ?thesis using pm_script_args [OF holds0, of "120 # replicate 254 0" "[115, 104, 32, 45, 120]" "[]"]
    by (auto simp: w s words_room_def EXEC_MAX_def lone_def blank_char_def)
qed

text \<open>C37: The image may hold anything, as the comment of \<open>insert_arg\<close> says. Replacing \<open>argv[0]\<close> stays inside the buffer for every image, except when the pointer in the place
  of \<open>argv[0]\<close> is negative as an \<open>int\<close>: then, and only then, the code reads outside, because the lower bound is checked with an unsigned comparison and the upper one with a signed one.\<close>

theorem pm_stack_fault_iff:
  assumes "length b = EXEC_MAX" and "0 \<in> set arg" and "length arg \<le> EXEC_MAX" and "len \<le> EXEC_MAX" and "ptr_at b PTRSIZE = Some w"
  shows "insert_arg b (word_of_nat len) arg True = None \<longleftrightarrow> sint w < 0"
proof
  show "insert_arg b (word_of_nat len) arg True = None \<Longrightarrow> sint w < 0" using insert_arg_total [OF assms, of True] by fastforce
  assume w: "sint w < 0"
  have s: "sint (word_of_nat len :: 32 word) = int len"
    using assms(4) by (simp add: sint_uint unsigned_of_nat signed_take_bit_int_eq_self take_bit_nat_eq_self EXEC_MAX_def)
  have "\<not> w < word_of_nat (4 * PTRSIZE)"
  proof
    assume "w < word_of_nat (4 * PTRSIZE)"
    then have "uint w < 16" by (simp add: word_less_def PTRSIZE_def)
    moreover have "- 2147483648 \<le> uint w" using uint_ge_0 [of w] by linarith
    ultimately have "sint w = uint w" by (simp add: sint_uint signed_take_bit_int_eq_self)
    then show False using w by simp
  qed
  moreover have "skip_arg b (int len) (sint w) (int (length (bstr arg)) + 1) = None" using w by (subst skip_arg.simps) (simp add: byte_at_def)
  ultimately show "insert_arg b (word_of_nat len) arg True = None" using assms(2,5) w s by (simp add: insert_arg_def bstrlen_def Let_def)
qed

theorem pm_stack_fault_iff_witness: "insert_arg (replicate EXEC_MAX 0xFF) (word_of_nat 100) [120, 0] True = None"
proof -
  have "ptr_at (replicate EXEC_MAX 0xFF) PTRSIZE = Some (- 1)"
  proof -
    have "replicate 4 0xFF = [0xFF, 0xFF, 0xFF, 0xFF :: 8 word]" by (simp add: numeral_eq_Suc)
    moreover have "word4 [0xFF, 0xFF, 0xFF, 0xFF] = - 1" by code_simp
    ultimately show ?thesis by (simp add: ptr_at_def EXEC_MAX_def PTRSIZE_def)
  qed
  then show ?thesis using pm_stack_fault_iff [of "replicate EXEC_MAX 0xFF" "[120, 0]" 100 "- 1"] by (simp add: EXEC_MAX_def)
qed

end
