(* ===== verification/Pmload.thy ===== *)
theory Pmload
  imports Pmprops Pmscript
begin

text \<open>
  Correctness of \<open>exec\<close>: what each part does to the views of the slots and to the memory, and the whole call once the file
  has been found.
\<close>

section \<open>Parts\<close>

text \<open>A state with the views \<open>v\<close> and otherwise, as far as the invariant is concerned, that of \<open>s\<close>.\<close>

definition becomes :: "pmst \<Rightarrow> (nat \<Rightarrow> pview) \<Rightarrow> pmst \<Rightarrow> bool" where
  "becomes s v t \<longleftrightarrow> same_rest s t \<and> vw t = v"

lemma becomes_trans: "becomes s v t \<Longrightarrow> becomes t w u \<Longrightarrow> becomes s w u"
  by (auto simp: becomes_def intro: same_rest_trans)

lemma becomes_same: "becomes s v t \<Longrightarrow> same t u \<Longrightarrow> becomes s v u"
  by (auto simp: becomes_def same_def intro: same_rest_trans)

lemma becomes_slot: "becomes s v t \<Longrightarrow> r < length (mproc_tab s) \<Longrightarrow> becomes s (v(r := view (f (slot r t)))) (set_slot r f t)"
  by (auto simp: becomes_def vw_set_slot same_rest_def)

text \<open>A state that only differs in the slot \<open>r\<close>.\<close>

definition only_at :: "nat \<Rightarrow> pmst \<Rightarrow> pmst \<Rightarrow> bool" where
  "only_at r s t \<longleftrightarrow> same_rest s t \<and> (\<forall>q. q \<noteq> r \<longrightarrow> vw t q = vw s q)"

lemma only_same: "same s t \<Longrightarrow> only_at r s t"
  by (simp add: only_at_def same_def)

lemma only_trans: "only_at r s t \<Longrightarrow> only_at r t u \<Longrightarrow> only_at r s u"
  by (auto simp: only_at_def intro: same_rest_trans)

lemma only_slot: "only_at r s (set_slot r f s)"
  by (cases "r < length (mproc_tab s)") (simp_all add: only_at_def vw_set_slot set_slot_outside)

lemma only_steps:
  "only_at r s t \<Longrightarrow> only_at r s (set_slot r f t)" "only_at r s t \<Longrightarrow> only_at r s (tell_fs e a b i j t)" "only_at r s t \<Longrightarrow> only_at r s (snd (ask e c t))"
  "only_at r s t \<Longrightarrow> only_at r s (t\<lparr>kcalls := k\<rparr>)"
  using only_trans [OF _ only_slot] only_trans [OF _ only_same [OF tell_fs_same(1)]] only_trans [OF _ only_same [OF same_kcalls]]
  by (simp_all add: ask_def)

lemma only_becomes: "only_at r s t \<Longrightarrow> becomes s ((vw s)(r := view (slot r t))) t"
  by (auto simp: only_at_def becomes_def vw_def)

lemma rw_seg_log: "\<exists>k. rw_seg e rw fd ub n s = s\<lparr>kcalls := k\<rparr>"
proof (induction e rw fd ub n s rule: rw_seg.induct)
  case (1 e rw fd ub n s)
  let ?m = "min CHUNK_MAX n"
  let ?t = "s\<lparr>kcalls := RwSeg rw fd ub ?m # kcalls s\<rparr>"
  show ?case
  proof (cases "n = 0 \<or> a_res (e (RwSeg rw fd ub ?m # kcalls s)) \<noteq> uint ?m")
    case True
    then have "rw_seg e rw fd ub n s = s \<or> rw_seg e rw fd ub n s = ?t" by (subst (1 2) rw_seg.simps) (auto simp: ask_def Let_def)
    then show ?thesis by (auto intro: exI [of _ "kcalls s"])
  next
    case False
    then have "rw_seg e rw fd ub n s = rw_seg e rw fd (ub + ?m) (n - ?m) ?t" by (subst rw_seg.simps) (simp add: ask_def Let_def)
    moreover have "\<exists>k. rw_seg e rw fd (ub + ?m) (n - ?m) ?t = ?t\<lparr>kcalls := k\<rparr>"
      using 1 [of ?m "(e (RwSeg rw fd ub ?m # kcalls s), ?t)" "e (RwSeg rw fd ub ?m # kcalls s)" ?t] False by (simp add: ask_def)
    ultimately show ?thesis by simp
  qed
qed

text \<open>What the kernel and the file server do for \<open>exec\<close>: clearing the new memory, copying the stack and \<open>fstat\<close> do not fail.\<close>

definition exec_env :: "env \<Rightarrow> bool" where
  "exec_env e \<longleftrightarrow> (\<forall>b n l. a_res (e (SysMemset b n # l)) = 0) \<and> (\<forall>r a x l. a_res (e (CopyOut r a x # l)) = 0) \<and>
     (\<forall>fd l. 0 \<le> a_res (e (Fstat fd # l)))"

definition with_file :: "fstat \<Rightarrow> pmproc \<Rightarrow> pmproc" where
  "with_file st p = p\<lparr>mp_ino := st_ino st, mp_dev := st_dev st, mp_ctime := st_ctime st\<rparr>"

lemma view_with_file: "view (with_file st p) = (view p)\<lparr>v_file := (st_ino st, st_dev st, st_ctime st)\<rparr>"
  by (simp add: view_def has_def with_file_def)

lemma load_image_ok:
  assumes "exec_env e" "length (mbuf s) = EXEC_MAX" "cur s < length (mproc_tab s)"
  shows "\<exists>t. load_image e sh im s = Ret () t \<and>
    becomes s ((vw s)(cur s := (vw s (cur s))\<lparr>v_file := (st_ino (im_file im), st_dev (im_file im), st_ctime (im_file im))\<rparr>)) t \<and>
    slot (cur s) t = with_file (im_file im) (slot (cur s) s) \<and> name_buf t = name_buf s"
proof -
  define s1 where "s1 = set_slot (cur s) (with_file (im_file im)) s"
  define vsp where "vsp = stack_top (im_stk im) (slot (cur s) s1)"
  have m: "mbuf s1 = mbuf s" "name_buf s1 = name_buf s" by (simp_all add: s1_def set_slot_def)
  obtain b where b: "patch_ptr (mbuf s1) vsp = Some b"
    using patch_from_total [of "mbuf s" PTRSIZE 0 vsp] assms(2) m by (auto simp: patch_ptr_def PTRSIZE_def)
  define s2 where "s2 = snd (ask e (CopyOut (who s1) vsp (take (unat (im_stk im)) b)) (s1\<lparr>mbuf := b\<rparr>))"
  define s3 where "s3 = (case sh of Some _ \<Rightarrow> snd (ask e (Lseek (im_fd im) (h_text (im_hdr im)) 1) s2)
    | None \<Rightarrow> rw_seg e False (seg_fd (who s2) 0 (im_fd im)) (push_bit PM_CLICK_SHIFT (mem_vir (mp_seg_T (slot (who s2) s2)))) (h_text (im_hdr im)) s2)"
  define t where "t = snd (ask e (CloseFile (im_fd im))
    (rw_seg e False (seg_fd (who s3) 1 (im_fd im)) (push_bit PM_CLICK_SHIFT (mem_vir (mp_seg_D (slot (who s3) s3)))) (h_data (im_hdr im)) s3))"
  have "load_image e sh im s = Ret () t"
  proof -
    have "a_res (fst (ask e (CopyOut (who s1) vsp (take (unat (im_stk im)) b)) (s1\<lparr>mbuf := b\<rparr>))) = 0" using assms(1) by (simp add: ask_def exec_env_def)
    then show ?thesis using b by (simp add: load_image_def Let_def with_file_def [symmetric] s1_def [symmetric] vsp_def [symmetric] split_beta
        s2_def [symmetric] s3_def [symmetric] t_def [symmetric])
  qed
  moreover obtain k k' where "s3 = s2\<lparr>kcalls := k\<rparr>" "t = s3\<lparr>kcalls := k'\<rparr>"
  proof -
    obtain k where "s3 = s2\<lparr>kcalls := k\<rparr>"
      using rw_seg_log [of e False "seg_fd (who s2) 0 (im_fd im)" "push_bit PM_CLICK_SHIFT (mem_vir (mp_seg_T (slot (who s2) s2)))" "h_text (im_hdr im)" s2]
      by (cases sh) (auto simp: s3_def ask_def)
    moreover obtain k' where "t = s3\<lparr>kcalls := k'\<rparr>"
      using rw_seg_log [of e False "seg_fd (who s3) 1 (im_fd im)" "push_bit PM_CLICK_SHIFT (mem_vir (mp_seg_D (slot (who s3) s3)))" "h_data (im_hdr im)" s3]
      by (auto simp: t_def ask_def)
    ultimately show thesis using that by blast
  qed
  then have t: "t = s1\<lparr>mbuf := b, kcalls := k'\<rparr>" by (simp add: s2_def ask_def)
  have "becomes s ((vw s)(cur s := view (with_file (im_file im) (slot (cur s) s)))) s1"
    unfolding s1_def using assms(3) by (intro becomes_slot) (simp_all add: becomes_def)
  then have "becomes s ((vw s)(cur s := view (with_file (im_file im) (slot (cur s) s)))) t" unfolding t by (rule becomes_same) (simp add: same_def same_rest_def)
  moreover have "slot (cur s) t = with_file (im_file im) (slot (cur s) s)" using assms(3) by (simp add: t s1_def slot_set_slot)
  moreover have "name_buf t = name_buf s" using m by (simp add: t)
  ultimately show ?thesis unfolding view_with_file vw_def [symmetric] by blast
qed

text \<open>The slot of a process that starts a new program.\<close>

definition with_ids :: "fstat \<Rightarrow> pmproc \<Rightarrow> pmproc" where
  "with_ids st p = (if has p TRACED then p
     else p\<lparr>mp_effuid := (if st_mode st AND I_SET_UID_BIT \<noteq> 0 then st_uid st else mp_effuid p),
            mp_effgid := (if st_mode st AND I_SET_GID_BIT \<noteq> 0 then ucast (st_gid st) else mp_effgid p)\<rparr>)"

definition started :: "exec_img \<Rightarrow> 32 word \<Rightarrow> bytes \<Rightarrow> pmproc \<Rightarrow> pmproc" where
  "started im vsp nm p = (let q = fold reset_sig signals ((with_ids (im_first im) p)\<lparr>mp_procargs := vsp\<rparr>)
     in ((if h_sep (im_hdr im) then raise_flag SEPARATE else id) (drop_flag SEPARATE q))\<lparr>mp_name := short_name nm (mp_name p)\<rparr>)"

lemma set_ids_ok:
  assumes "cur s < length (mproc_tab s)"
  shows "same s (set_ids e st s)" "slot (cur s) (set_ids e st s) = with_ids st (slot (cur s) s)" "name_buf (set_ids e st s) = name_buf s"
proof -
  show "same s (set_ids e st s)" by (auto simp: set_ids_def Let_def view_calls intro!: same_steps)
  show "slot (cur s) (set_ids e st s) = with_ids st (slot (cur s) s)"
    using assms by (auto simp: set_ids_def with_ids_def Let_def slot_set_slot tell_fs_def ask_def)
  show "name_buf (set_ids e st s) = name_buf s" by (auto simp: set_ids_def Let_def set_slot_def tell_fs_def ask_def)
qed

lemma reset_sig_rest:
  "mp_flags (reset_sig n p) = mp_flags p" "mp_name (reset_sig n p) = mp_name p" "mp_pid (reset_sig n p) = mp_pid p"
  "view (reset_sig n p) = view p" "mp_effuid (reset_sig n p) = mp_effuid p" "mp_effgid (reset_sig n p) = mp_effgid p" "mp_ignore (reset_sig n p) = mp_ignore p"
  "mp_sigmask (reset_sig n p) = mp_sigmask p" "mp_procargs (reset_sig n p) = mp_procargs p"
  by (simp_all add: reset_sig_def view_calls)

lemma reset_all_rest:
  "mp_flags (fold reset_sig ns p) = mp_flags p" "mp_name (fold reset_sig ns p) = mp_name p" "mp_pid (fold reset_sig ns p) = mp_pid p"
  "view (fold reset_sig ns p) = view p" "mp_effuid (fold reset_sig ns p) = mp_effuid p" "mp_effgid (fold reset_sig ns p) = mp_effgid p"
  "mp_ignore (fold reset_sig ns p) = mp_ignore p" "mp_sigmask (fold reset_sig ns p) = mp_sigmask p" "mp_procargs (fold reset_sig ns p) = mp_procargs p"
  by (induction ns arbitrary: p) (simp_all add: reset_sig_rest)

lemma reset_all_catch: "n \<in> set ns \<Longrightarrow> \<not> bit (mp_catch (fold reset_sig ns p)) n" "\<not> bit (mp_catch p) n \<Longrightarrow> \<not> bit (mp_catch (fold reset_sig ns p)) n"
proof -
  have "\<not> bit (mp_catch (reset_sig n p)) n" "\<not> bit (mp_catch p) m \<Longrightarrow> \<not> bit (mp_catch (reset_sig n p)) m" for n m p
    by (simp_all add: reset_sig_def sigismember_def)
  then have k: "\<not> bit (mp_catch p) n \<Longrightarrow> \<not> bit (mp_catch (fold reset_sig ns p)) n" "\<not> bit (mp_catch (reset_sig n p)) n" for n p ns
    by (induction ns arbitrary: p) auto
  show "\<not> bit (mp_catch p) n \<Longrightarrow> \<not> bit (mp_catch (fold reset_sig ns p)) n" by (rule k)
  show "n \<in> set ns \<Longrightarrow> \<not> bit (mp_catch (fold reset_sig ns p)) n" using k by (induction ns arbitrary: p) auto
qed

lemma view_started: "view (started im vsp nm p) = (view p)\<lparr>v_sep := h_sep (im_hdr im)\<rparr>"
proof -
  have "view (with_ids st q) = view q" for st q by (simp add: with_ids_def view_calls)
  moreover have "view (q\<lparr>mp_name := n\<rparr>) = view q" "view (q\<lparr>mp_procargs := a\<rparr>) = view q" for q n a by (simp_all add: view_def has_def)
  moreover have "view (drop_flag SEPARATE q) = (view q)\<lparr>v_sep := False\<rparr>" "view (raise_flag SEPARATE q) = (view q)\<lparr>v_sep := True\<rparr>" for q
    by (simp_all add: view_def flag_simps)
  ultimately show ?thesis by (simp add: started_def Let_def reset_all_rest)
qed

lemma start_image_ok:
  assumes "cur s < length (mproc_tab s)" "cur s + 1 < PM_NR_PROCS"
    and nm: "nm = base_name (bstr (drop (im_name im) (name_buf s)))" and vsp: "vsp = stack_top (im_stk im) (slot (cur s) s)"
  shows "\<exists>t. start_image e im s = bnd (if has (slot (cur s) t) TRACED then check_sig e (mp_pid (slot (cur s) t)) (int SIGTRAP) t else Ret 0 t) (\<lambda>_ s. Ret SUSPEND s) \<and>
    becomes s ((vw s)(cur s := (vw s (cur s))\<lparr>v_sep := h_sep (im_hdr im)\<rparr>)) t \<and> slot (cur s) t = started im vsp nm (slot (cur s) s)"
proof -
  define g where "g = (if h_sep (im_hdr im) then raise_flag SEPARATE else id)"
  define s1 where "s1 = set_ids e (im_first im) s"
  define s2 where "s2 = set_slot (cur s) (\<lambda>p. fold reset_sig signals (p\<lparr>mp_procargs := vsp\<rparr>)) s1"
  define s3 where "s3 = set_slot (cur s) (\<lambda>p. g (drop_flag SEPARATE p)) s2"
  define s4 where "s4 = set_slot (cur s) (\<lambda>p. p\<lparr>mp_name := short_name nm (mp_name p)\<rparr>) (tell_fs e FS_EXEC (int (who s3)) 0 0 s3)"
  define s5 where "s5 = set_slot (cur s + 1) (\<lambda>p. p\<lparr>mp_seg_T := (mp_seg_T p)\<lparr>mem_vir := mem_vir (mp_seg_T p) AND NOT 0xFF\<rparr>\<rparr>) s4"
  define t where "t = snd (ask e (SysExec (who s5) vsp nm (h_pc (im_hdr im))) s5)"
  note i = set_ids_ok [OF assms(1), of e "im_first im", folded s1_def]
  have l: "length (mproc_tab s1) = length (mproc_tab s)" using i(1) by (simp add: same_def same_rest_def)
  have nb: "name_buf (tell_fs e FS_EXEC (int (who s3)) 0 0 s3) = name_buf s" by (simp add: tell_fs_def ask_def s3_def s2_def set_slot_def i(3))
  have "start_image e im s = bnd (if has (slot (cur s) t) TRACED then check_sig e (mp_pid (slot (cur s) t)) (int SIGTRAP) t else Ret 0 t) (\<lambda>_ s. Ret SUSPEND s)"
    unfolding start_image_def Let_def split_beta vsp [symmetric] g_def [symmetric] s1_def [symmetric] s2_def [symmetric] s3_def [symmetric] nb nm [symmetric]
      s4_def [symmetric] end_name_def if_P [OF assms(2)] s5_def [symmetric] bnd.simps t_def [symmetric] by (rule refl)
  moreover have sl: "slot (cur s) t = started im vsp nm (slot (cur s) s)"
    using assms(1) l i(2) by (simp add: t_def ask_def s5_def s4_def s3_def s2_def slot_set_slot tell_fs_def started_def Let_def g_def reset_all_rest with_ids_def
        raise_flag_def drop_flag_def set_slot_def slot_def)
  moreover have "becomes s ((vw s)(cur s := (vw s (cur s))\<lparr>v_sep := h_sep (im_hdr im)\<rparr>)) t"
  proof -
    have "only_at (cur s) s s1" using i(1) by (rule only_same)
    then have "only_at (cur s) s s4" unfolding s4_def s3_def s2_def by (intro only_steps)
    moreover have "same s4 s5" unfolding s5_def by (rule same_set_slot) (simp add: view_def has_def)
    ultimately have "only_at (cur s) s t" unfolding t_def by (intro only_steps) (blast intro: only_trans only_same)
    from only_becomes [OF this] show ?thesis by (simp add: sl view_started) (simp add: vw_def)
  qed
  ultimately show ?thesis by blast
qed

section \<open>Memory of the new image\<close>

definition need :: "nat option \<Rightarrow> header \<Rightarrow> 32 word" where
  "need sh h = text_clicks sh h + clicks_of (h_tot h)"

lemma clicks_small: "unat (clicks_of n) < 2 ^ 22"
proof -
  have "unat (clicks_of n) = unat (n + 1024 - 1) div 2 ^ 10" by (simp only: clicks_of_def PM_CLICK_SHIFT_def unat_drop_bit_eq) (simp only: drop_bit_eq_div)
  moreover have "unat (n + 1024 - 1) < 2 ^ 22 * 2 ^ 10" using unsigned_less [of "n + 1024 - 1"] by simp
  ultimately show ?thesis using less_mult_imp_div_less by metis
qed

lemma unat_need: "unat (need sh h) = unat (text_clicks sh h) + unat (clicks_of (h_tot h))"
proof -
  have "unat (text_clicks sh h) < 2 ^ 22" "unat (clicks_of (h_tot h)) < 2 ^ 22" using clicks_small by (simp_all add: text_clicks_def)
  then show ?thesis unfolding need_def by (intro unat_add_lem [THEN iffD1]) simp
qed

lemma layout_less: "mem_layout F v A \<Longrightarrow> G \<subseteq> F \<Longrightarrow> mem_layout G v A"
  unfolding mem_layout_def placed_def by blast

text \<open>The view of a process after \<open>exec\<close>.\<close>

definition new_view :: "(nat \<Rightarrow> pview) \<Rightarrow> nat option \<Rightarrow> header \<Rightarrow> 32 word \<Rightarrow> pview \<Rightarrow> pview" where
  "new_view v sh h b a = a\<lparr>v_wait := False, v_text := (case sh of Some q \<Rightarrow> v_text (v q) | None \<Rightarrow> (b, text_clicks sh h)),
     v_core := (b + text_clicks sh h, clicks_of (h_tot h))\<rparr>"

lemma exec_layout:
  assumes l: "mem_layout F v A" "mem_layout G v (A - {r})" and r: "r \<in> A" and G: "G \<inter> block b (need sh h) = {}"
    and b: "block b (need sh h) \<subseteq> F" "unat b + unat (need sh h) < 2 ^ 32" and tot: "clicks_of (h_tot h) \<noteq> 0"
    and sh: "\<And>q. sh = Some q \<Longrightarrow> q \<in> A \<and> q \<noteq> r \<and> v_sep (v q) \<and> v_file (v q) = f \<and> sep" and sep: "\<not> sep \<Longrightarrow> text_clicks sh h = 0"
  shows "mem_layout G (v(r := (new_view v sh h b a)\<lparr>v_file := f, v_sep := sep\<rparr>)) A"
proof -
  let ?w = "(new_view v sh h b a)\<lparr>v_file := f, v_sep := sep\<rparr>" and ?B = "block b (need sh h)" and ?t = "text_clicks sh h"
  have ub: "unat (b + ?t) = unat b + unat ?t" using b(2) unfolding unat_need by (intro unat_add_lem [THEN iffD1]) simp
  have B: "?B = block b ?t \<union> core_of ?w" "block b ?t \<inter> core_of ?w = {}"
    by (auto simp: core_of_def new_view_def block_def ub unat_need)
  have t: "text_of ?w = (case sh of Some q \<Rightarrow> text_of (v q) | None \<Rightarrow> block b ?t)" by (simp add: text_of_def new_view_def split: option.split)
  have z: "0 \<notin> F" and pl: "\<And>q. q \<in> A \<Longrightarrow> placed F (v q)" using l(1) by (auto simp: mem_layout_def)
  have o: "core_of (v q) \<inter> ?B = {}" "text_of (v q) \<inter> ?B = {}" if "q \<in> A" for q using pl [OF that] b(1) by (auto simp: placed_def)
  have g: "placed G (v q)" if "q \<in> A" "q \<noteq> r" for q using l(2) that by (auto simp: mem_layout_def)
  have tx: "0 \<notin> text_of ?w" "text_of ?w \<inter> G = {}" "unat (fst (v_text ?w)) + unat (snd (v_text ?w)) < 2 ^ 32" "core_of ?w \<inter> text_of ?w = {}"
  proof -
    have "0 \<notin> text_of ?w \<and> text_of ?w \<inter> G = {} \<and> unat (fst (v_text ?w)) + unat (snd (v_text ?w)) < 2 ^ 32 \<and> core_of ?w \<inter> text_of ?w = {}"
    proof (cases sh)
      case None
      then show ?thesis using B G z b t unat_need [of sh h] by (auto simp: new_view_def)
    next
      case (Some q)
      then show ?thesis using g [of q] sh [OF Some] o(2) [of q] B(1) t by (auto simp: placed_def new_view_def)
    qed
    then show "0 \<notin> text_of ?w" "text_of ?w \<inter> G = {}" "unat (fst (v_text ?w)) + unat (snd (v_text ?w)) < 2 ^ 32" "core_of ?w \<inter> text_of ?w = {}" by simp_all
  qed
  have "unat (fst (v_core ?w)) + unat (snd (v_core ?w)) < 2 ^ 32" using b(2) by (simp add: new_view_def ub unat_need)
  moreover have "\<not> sep \<longrightarrow> snd (v_text ?w) = 0" using sep sh by (cases sh) (auto simp: new_view_def)
  ultimately have p: "placed G ?w" using tx B(1) G z b(1) tot unfolding placed_def by (auto simp: new_view_def)
  have tq: "text_of (v q) \<inter> text_of ?w = {} \<or> shares (v q) ?w" "core_of (v q) \<inter> text_of ?w = {}" if q: "q \<in> A" "q \<noteq> r" for q
  proof -
    have "(text_of (v q) \<inter> text_of ?w = {} \<or> shares (v q) ?w) \<and> core_of (v q) \<inter> text_of ?w = {}"
    proof (cases sh)
      case None
      then show ?thesis using o [OF q(1)] B(1) t by auto
    next
      case (Some p)
      have "core_of (v q) \<inter> text_of (v p) = {}" "q \<noteq> p \<Longrightarrow> text_of (v q) \<inter> text_of (v p) = {} \<or> shares (v q) (v p)"
        using l(1) q sh [OF Some] by (auto simp: mem_layout_def apart_def)
      then show ?thesis using sh [OF Some] t Some by (cases "q = p") (auto simp: shares_def)
    qed
    then show "text_of (v q) \<inter> text_of ?w = {} \<or> shares (v q) ?w" "core_of (v q) \<inter> text_of ?w = {}" by simp_all
  qed
  have co: "core_of ?w \<inter> text_of (v q) = {}" "core_of (v q) \<inter> core_of ?w = {}" if "q \<in> A" for q using o [OF that] B(1) by blast+
  have "mem_layout G (v(r := ?w)) (insert r (A - {r}))"
    by (rule layout_insert [OF l(2)]) (use p tx(4) tq co in \<open>simp_all add: apart_def\<close>)
  then show ?thesis using r by (simp add: insert_absorb)
qed

text \<open>The table is unaffected by what \<open>exec\<close> changes in a live process.\<close>

lemma tab_ok_exec:
  assumes "tab_ok {} v n" "r \<in> lives v"
    and "v_use w" "\<not> v_zomb w" "\<not> v_wait w" "v_stop w = v_stop (v r)" "v_pid w = v_pid (v r)" "v_grp w = v_grp (v r)" "v_par w = v_par (v r)" "v_wpid w = v_wpid (v r)"
  shows "tab_ok {} (v(r := w)) n" "lives (v(r := w)) = lives v"
proof -
  have r: "live (v r)" "r < PM_NR_PROCS" "v_use (v r)" using assms(2) by (simp_all add: lives_def live_def)
  have sel: "v_use ((v(r := w)) q) = v_use (v q)" "v_zomb ((v(r := w)) q) = v_zomb (v q)" "live ((v(r := w)) q) = live (v q)" "v_pid ((v(r := w)) q) = v_pid (v q)"
    "v_grp ((v(r := w)) q) = v_grp (v q)" "v_par ((v(r := w)) q) = v_par (v q)" "v_wpid ((v(r := w)) q) = v_wpid (v q)" "v_stop ((v(r := w)) q) = v_stop (v q)"
    "v_wait ((v(r := w)) q) \<Longrightarrow> v_wait (v q)" for q using assms(3-10) r by (auto simp: live_def split: if_splits)
  have u: "users (v(r := w)) = users v" unfolding users_def sel ..
  show "lives (v(r := w)) = lives v" unfolding lives_def sel ..
  have "waits_ok (v(r := w))" using assms(1) sel(9) unfolding tab_ok_def waits_ok_def rightv_def u sel by blast
  then show "tab_ok {} (v(r := w)) n" using assms(1) unfolding tab_ok_def parents_ok_def pids_ok_def u sel by blast
qed

section \<open>New memory\<close>

lemma view_waiting: "view (raise_flag WAITING p) = (view p)\<lparr>v_wait := True\<rparr>"
  by (rule view_neutral)

lemma waiting_view:
  assumes "r < length (mproc_tab s)"
  shows "vw (set_slot r (raise_flag WAITING) s) = (vw s)(r := (vw s r)\<lparr>v_wait := True\<rparr>)"
  using assms by (simp add: vw_set_slot view_waiting vw_def)

lemma freed_waiting:
  "clicks_freed r (t\<lparr>pm_holes := h\<rparr>) = clicks_freed r t"
  "r < length (mproc_tab s) \<Longrightarrow> clicks_freed r (set_slot r (raise_flag WAITING) s) = clicks_freed r s"
proof -
  show "clicks_freed r (t\<lparr>pm_holes := h\<rparr>) = clicks_freed r t" by (rule freed_vw) simp
  assume r: "r < length (mproc_tab s)"
  then have "text_shared r (set_slot r (raise_flag WAITING) s) = text_shared r s" by (auto simp: text_shared_def waiting_view)
  then show "clicks_freed r (set_slot r (raise_flag WAITING) s) = clicks_freed r s" using r by (simp add: clicks_freed_def waiting_view text_of_def core_of_def)
qed

lemma swapin_bit: "bit SWAPIN i \<longleftrightarrow> i = 11"
proof -
  have w: "SWAPIN = 2 ^ 11" by (simp add: SWAPIN_def)
  show ?thesis unfolding w bit_exp_iff by auto
qed

lemma view_new_map:
  assumes "\<And>q. sh = Some q \<Longrightarrow> v_text (v q) = v_text (vw s q)"
  shows "view (drop_flag (WAITING OR ONSWAP OR SWAPIN) (new_map sh h stk b s p)) = new_view v sh h b (view p)"
proof -
  have "view (drop_flag (WAITING OR ONSWAP OR SWAPIN) p) = (view p)\<lparr>v_wait := False\<rparr>" for p
    by (simp add: view_def flag_simps swapin_bit)
  moreover have "view (new_map sh h stk b s p) = (new_view v sh h b (view p))\<lparr>v_wait := has p WAITING\<rparr>"
    using assms by (cases sh) (auto simp: new_map_def Let_def new_view_def view_def has_def gap_clicks_def vw_def)
  ultimately show ?thesis by (simp add: new_view_def)
qed

lemma new_mem_refused:
  assumes "pm_ok F s" "need sh h \<noteq> 0" "sint (gap_clicks h stk) < 0 \<or> (\<forall>b. \<not> block b (need sh h) \<subseteq> F)"
  shows "new_mem e sh h stk s = Ret ENOMEM (set_slot (cur s) (raise_flag WAITING) s)"
proof -
  have "alloc_mem (need sh h) (pm_holes s) = Ret NO_MEM (pm_holes s)" if "\<forall>b. \<not> block b (need sh h) \<subseteq> F"
    using alloc_mem_full [of "pm_holes s" F 0 "need sh h"] that assms(1,2) by (simp add: pm_ok_def pm_inv_def)
  then show ?thesis using assms(3) by (auto simp: new_mem_def Let_def need_def [symmetric] on_holes_def)
qed

text \<open>What \<open>new_mem\<close> leaves alone in the slot.\<close>

definition keeps_rest :: "pmproc \<Rightarrow> pmproc \<Rightarrow> bool" where
  "keeps_rest p q \<longleftrightarrow> mp_ignore q = mp_ignore p \<and> mp_sigmask q = mp_sigmask p \<and> mp_effuid q = mp_effuid p \<and> mp_effgid q = mp_effgid p \<and> has q TRACED = has p TRACED"

definition in_memory :: "nat set \<Rightarrow> pmst \<Rightarrow> nat option \<Rightarrow> header \<Rightarrow> 32 word \<Rightarrow> 32 word \<Rightarrow> pmst \<Rightarrow> bool" where
  "in_memory F s sh h stk b t \<longleftrightarrow> (let G = (F - block b (need sh h)) \<union> clicks_freed (cur s) s
     in (\<exists>hs. mem_rep hs G 0 \<and> mem_layout G (vw s) (lives (vw s) - {cur s}) \<and>
          becomes (s\<lparr>pm_holes := hs\<rparr>) ((vw s)(cur s := new_view (vw s) sh h b (vw s (cur s)))) t) \<and>
        mem_vir (mp_seg_S (slot (cur s) t)) + mem_len (mp_seg_S (slot (cur s) t)) = clicks_of (h_tot h) \<and> keeps_rest (slot (cur s) s) (slot (cur s) t) \<and>
        mbuf t = mbuf s \<and> name_buf t = name_buf s)"

text \<open>The part of \<open>new_mem\<close> behind the point of no return.\<close>

definition place_image :: "env \<Rightarrow> nat \<Rightarrow> nat option \<Rightarrow> header \<Rightarrow> 32 word \<Rightarrow> 32 word \<Rightarrow> int act" where
  "place_image e r sh h stk b u = (let u = set_slot r (new_map sh h stk b u) u;
      (_, u) = ask e (SysNewmap (who u) (mp_seg_T (slot r u)) (mp_seg_D (slot r u)) (mp_seg_S (slot r u))) u;
      u = set_slot r (drop_flag (WAITING OR ONSWAP OR SWAPIN)) u; (a, u) = ask e (SysMemset (zero_base sh h b) (zero_bytes h stk)) u
    in if a_res a \<noteq> 0 then Stop Halted u else Ret 0 u)"

lemma place_image_ok:
  assumes e: "exec_env e" and rl: "cur s < length (mproc_tab s)" and sh: "sh \<noteq> Some (cur s)"
  shows "\<exists>t. place_image e (cur s) sh h stk b ((set_slot (cur s) (raise_flag WAITING) s)\<lparr>pm_holes := h2\<rparr>) = Ret 0 t \<and>
    becomes (s\<lparr>pm_holes := h2\<rparr>) ((vw s)(cur s := new_view (vw s) sh h b (vw s (cur s)))) t \<and>
    mem_vir (mp_seg_S (slot (cur s) t)) + mem_len (mp_seg_S (slot (cur s) t)) = clicks_of (h_tot h) \<and> keeps_rest (slot (cur s) s) (slot (cur s) t) \<and>
    mbuf t = mbuf s \<and> name_buf t = name_buf s"
proof -
  let ?r = "cur s" and ?s = "set_slot (cur s) (raise_flag WAITING) s"
  have v: "vw ?s = (vw s)(?r := (vw s ?r)\<lparr>v_wait := True\<rparr>)" using waiting_view [OF rl] .
  define u where "u = ?s\<lparr>pm_holes := h2\<rparr>"
  define x1 where "x1 = set_slot ?r (new_map sh h stk b u) u"
  define x2 where "x2 = snd (ask e (SysNewmap (who x1) (mp_seg_T (slot ?r x1)) (mp_seg_D (slot ?r x1)) (mp_seg_S (slot ?r x1))) x1)"
  define x3 where "x3 = set_slot ?r (drop_flag (WAITING OR ONSWAP OR SWAPIN)) x2"
  define t where "t = snd (ask e (SysMemset (zero_base sh h b) (zero_bytes h stk)) x3)"
  have "a_res (fst (ask e (SysMemset (zero_base sh h b) (zero_bytes h stk)) x3)) = 0" using e by (simp add: ask_def exec_env_def)
  then have "place_image e ?r sh h stk b u = Ret 0 t" by (simp add: place_image_def Let_def split_beta x1_def [symmetric] x2_def [symmetric] x3_def [symmetric] t_def [symmetric])
  moreover have "only_at ?r (s\<lparr>pm_holes := h2\<rparr>) u" by (auto simp: only_at_def u_def v same_rest_def)
  then have "only_at ?r (s\<lparr>pm_holes := h2\<rparr>) t" unfolding t_def x3_def x2_def x1_def by (intro only_steps)
  then have "becomes (s\<lparr>pm_holes := h2\<rparr>) ((vw s)(?r := view (slot ?r t))) t" using only_becomes by fastforce
  moreover have st: "slot ?r t = drop_flag (WAITING OR ONSWAP OR SWAPIN) (new_map sh h stk b u (raise_flag WAITING (slot ?r s)))"
    using rl by (simp add: t_def x3_def x2_def x1_def u_def ask_def slot_set_slot)
  moreover have "view (slot ?r t) = new_view (vw s) sh h b (vw s ?r)"
  proof -
    have "v_text (vw s q) = v_text (vw u q)" if "sh = Some q" for q using that by (auto simp: u_def v)
    then show ?thesis unfolding st by (subst view_new_map [of sh "vw s"]) (auto simp: new_view_def view_waiting vw_def)
  qed
  moreover have "mem_vir (mp_seg_S (slot ?r t)) + mem_len (mp_seg_S (slot ?r t)) = clicks_of (h_tot h)"
    unfolding st by (simp add: drop_flag_def new_map_def Let_def gap_clicks_def)
  moreover have "keeps_rest (slot ?r s) (slot ?r t)"
    unfolding st by (simp add: keeps_rest_def new_map_def Let_def flag_simps swapin_bit)
  moreover have "mbuf t = mbuf s" "name_buf t = name_buf s" by (simp_all add: t_def x3_def x2_def x1_def u_def ask_def set_slot_def)
  ultimately show ?thesis by (auto simp: u_def)
qed

lemma new_mem_ok:
  assumes ok: "pm_ok F s" and e: "exec_env e" and r: "cur s \<in> lives (vw s)" and n: "need sh h \<noteq> 0" and gap: "0 \<le> sint (gap_clicks h stk)"
    and fits: "block b0 (need sh h) \<subseteq> F" and sh: "sh \<noteq> Some (cur s)"
  shows "\<exists>b. block b (need sh h) \<subseteq> F \<and> unat b + unat (need sh h) < 2 ^ 32 \<and> runs (new_mem e sh h stk s) (\<lambda>v t. v = 0 \<and> in_memory F s sh h stk b t) doomed"
proof -
  let ?r = "cur s" and ?s = "set_slot (cur s) (raise_flag WAITING) s"
  have inv: "mem_rep (pm_holes s) F 0" "mem_layout F (vw s) (lives (vw s))" "length (mproc_tab s) = PM_NR_PROCS" "0 \<notin> F"
    using ok by (auto simp: pm_ok_def pm_inv_def mem_layout_def)
  have rl: "?r < length (mproc_tab s)" using r inv(3) by (simp add: lives_def)
  obtain b hs where b: "alloc_mem (need sh h) (pm_holes s) = Ret b hs" "block b (need sh h) \<subseteq> F" "unat b + unat (need sh h) < 2 ^ 32"
      "mem_rep hs (F - block b (need sh h)) 0" using alloc_mem_fits [OF inv(1) fits n] by blast
  have "b \<noteq> NO_MEM"
  proof
    assume "b = NO_MEM"
    moreover have "0 < unat (need sh h)" using n by (simp add: unat_gt_0)
    ultimately show False using b(2) inv(4) by (auto simp: NO_MEM_def block_def)
  qed
  define F' where "F' = F - block b (need sh h)"
  have eq: "new_mem e sh h stk s = bnd (release_memory ?r (?s\<lparr>pm_holes := hs\<rparr>)) (\<lambda>_ u. place_image e ?r sh h stk b u)"
    using b(1) \<open>b \<noteq> NO_MEM\<close> gap by (simp add: new_mem_def Let_def [of "cur s"] Let_def [of "set_slot _ _ s"] need_def [symmetric] on_holes_def place_image_def)
  have v: "vw ?s = (vw s)(?r := (vw s ?r)\<lparr>v_wait := True\<rparr>)" using waiting_view [OF rl] .
  have lay: "mem_layout F' (vw (?s\<lparr>pm_holes := hs\<rparr>)) (lives (vw s))"
    unfolding F'_def by (rule layout_like [OF layout_less [OF inv(2)]]) (auto simp: v like_def)
  have lv: "lives (vw s) \<subseteq> lives (vw (?s\<lparr>pm_holes := hs\<rparr>))" by (auto simp: v lives_def live_def)
  have rel: "runs (release_memory ?r (?s\<lparr>pm_holes := hs\<rparr>)) (\<lambda>_ t. \<exists>h. t = ?s\<lparr>pm_holes := h\<rparr> \<and> mem_rep h (F' \<union> clicks_freed ?r s) 0 \<and>
      mem_layout (F' \<union> clicks_freed ?r s) (vw s) (lives (vw s) - {?r})) doomed"
  proof -
    have mr: "mem_rep (pm_holes (?s\<lparr>pm_holes := hs\<rparr>)) F' 0" using b(4) by (simp add: F'_def)
    have fr: "clicks_freed ?r (?s\<lparr>pm_holes := hs\<rparr>) = clicks_freed ?r s" unfolding freed_waiting(1) freed_waiting(2) [OF rl] ..
    have bk: "mem_layout G (vw s) A" if "mem_layout G (vw (?s\<lparr>pm_holes := hs\<rparr>)) A" for G A
      by (rule layout_like [OF that]) (auto simp: v like_def)
    show ?thesis by (rule runs_mono [OF release_memory_layout [OF lay mr r lv]]) (use bk in \<open>auto simp: fr\<close>)
  qed
  show ?thesis
  proof (intro exI [of _ b] conjI b(2,3))
    show "runs (new_mem e sh h stk s) (\<lambda>v t. v = 0 \<and> in_memory F s sh h stk b t) doomed"
      unfolding eq
    proof (rule runs_bnd [OF rel])
      fix u assume "\<exists>h. u = ?s\<lparr>pm_holes := h\<rparr> \<and> mem_rep h (F' \<union> clicks_freed ?r s) 0 \<and> mem_layout (F' \<union> clicks_freed ?r s) (vw s) (lives (vw s) - {?r})"
      then obtain h2 where h2: "u = ?s\<lparr>pm_holes := h2\<rparr>" "mem_rep h2 (F' \<union> clicks_freed ?r s) 0" "mem_layout (F' \<union> clicks_freed ?r s) (vw s) (lives (vw s) - {?r})" by blast
      then show "runs (place_image e ?r sh h stk b u) (\<lambda>v t. v = 0 \<and> in_memory F s sh h stk b t) doomed" using place_image_ok [OF e rl sh, of h stk b h2] by (auto simp: in_memory_def Let_def F'_def)
    qed
  qed
qed

section \<open>The whole image\<close>

definition sharer :: "pmst \<Rightarrow> exec_img \<Rightarrow> nat option" where
  "sharer s im = find_share (cur s) (st_ino (im_file im)) (st_dev (im_file im)) (st_ctime (im_file im)) s"

text \<open>A process that runs the same file is live, and the file has separate instruction and data space.\<close>

definition shareable :: "pmst \<Rightarrow> exec_img \<Rightarrow> bool" where
  "shareable s im \<longleftrightarrow> (\<forall>q. sharer s im = Some q \<longrightarrow> q \<in> lives (vw s) \<and> h_sep (im_hdr im))"

definition exec_view :: "pmst \<Rightarrow> exec_img \<Rightarrow> 32 word \<Rightarrow> pview" where
  "exec_view s im b = (new_view (vw s) (sharer s im) (im_hdr im) b (vw s (cur s)))
     \<lparr>v_file := (st_ino (im_file im), st_dev (im_file im), st_ctime (im_file im)), v_sep := h_sep (im_hdr im)\<rparr>"

definition exec_free :: "nat set \<Rightarrow> pmst \<Rightarrow> exec_img \<Rightarrow> 32 word \<Rightarrow> nat set" where
  "exec_free F s im b = (F - block b (need (sharer s im) (im_hdr im))) \<union> clicks_freed (cur s) s"

lemma exec_inv:
  assumes ok: "pm_ok F s" and r: "cur s \<in> lives (vw s)" and im: "shareable s im" "clicks_of (h_tot (im_hdr im)) \<noteq> 0" "\<not> h_sep (im_hdr im) \<Longrightarrow> h_text (im_hdr im) = 0"
    and b: "block b (need (sharer s im) (im_hdr im)) \<subseteq> F" "unat b + unat (need (sharer s im) (im_hdr im)) < 2 ^ 32"
    and hs: "mem_rep hs (exec_free F s im b) 0" "mem_layout (exec_free F s im b) (vw s) (lives (vw s) - {cur s})"
    and t: "becomes (s\<lparr>pm_holes := hs\<rparr>) ((vw s)(cur s := exec_view s im b)) t"
  shows "pm_ok (exec_free F s im b) t"
proof -
  let ?sh = "sharer s im" and ?h = "im_hdr im" and ?r = "cur s"
  have inv: "mem_layout F (vw s) (lives (vw s))" "tab_ok {} (vw s) (procs_in_use s)" "length (mproc_tab s) = PM_NR_PROCS" using ok by (auto simp: pm_ok_def pm_inv_def)
  have live: "live (vw s ?r)" using r by (simp add: lives_def)
  have G: "exec_free F s im b \<inter> block b (need ?sh ?h) = {}"
  proof -
    have "placed F (vw s ?r)" using inv(1) r by (simp add: mem_layout_def)
    then have "clicks_freed ?r s \<inter> F = {}" by (auto simp: placed_def clicks_freed_def)
    then show ?thesis using b(1) by (auto simp: exec_free_def)
  qed
  have sh: "q \<in> lives (vw s) \<and> q \<noteq> ?r \<and> v_sep (vw s q) \<and> v_file (vw s q) = (st_ino (im_file im), st_dev (im_file im), st_ctime (im_file im)) \<and> h_sep ?h" if "?sh = Some q" for q
    using im(1) that first_slot_Some [OF that [unfolded sharer_def find_share_def]] by (auto simp: shareable_def vw_def)
  have sep: "\<not> h_sep ?h \<Longrightarrow> text_clicks ?sh ?h = 0" using im(3) by (auto simp: text_clicks_def clicks_of_def PM_CLICK_SHIFT_def)
  have lay: "mem_layout (exec_free F s im b) ((vw s)(?r := exec_view s im b)) (lives (vw s))"
    unfolding exec_view_def using exec_layout [OF inv(1) hs(2) r G b im(2) sh sep] by simp
  have tab: "tab_ok {} ((vw s)(?r := exec_view s im b)) (procs_in_use s)" "lives ((vw s)(?r := exec_view s im b)) = lives (vw s)"
    by (rule tab_ok_exec [OF inv(2) r]; use live in \<open>simp add: exec_view_def new_view_def live_def\<close>)+
  show ?thesis using t ok hs(1) lay tab inv(3) by (auto simp: pm_ok_def pm_inv_def becomes_def same_rest_def)
qed

definition executed :: "nat set \<Rightarrow> pmst \<Rightarrow> exec_img \<Rightarrow> 32 word \<Rightarrow> pmst \<Rightarrow> bool" where
  "executed F s im b t \<longleftrightarrow> pm_ok (exec_free F s im b) t \<and> vw t = (vw s)(cur s := exec_view s im b) \<and>
     (let p = slot (cur s) s; q = slot (cur s) t; st = im_first im
      in (\<forall>n \<in> set signals. \<not> bit (mp_catch q) n) \<and> mp_ignore q = mp_ignore p \<and> mp_sigmask q = mp_sigmask p \<and>
         mp_effuid q = (if st_mode st AND I_SET_UID_BIT \<noteq> 0 then st_uid st else mp_effuid p) \<and>
         mp_effgid q = (if st_mode st AND I_SET_GID_BIT \<noteq> 0 then ucast (st_gid st) else mp_effgid p) \<and>
         mp_procargs q = push_bit PM_CLICK_SHIFT (clicks_of (h_tot (im_hdr im))) - im_stk im)"

lemma exec_slots:
  assumes "keeps_rest p q" "\<not> has p TRACED"
    and "mem_vir (mp_seg_S q) + mem_len (mp_seg_S q) = c"
    and z_def: "z = started im (stack_top (im_stk im) (with_file st q)) nm (with_file st q)"
  shows "\<forall>n \<in> set signals. \<not> bit (mp_catch z) n" "mp_ignore z = mp_ignore p" "mp_sigmask z = mp_sigmask p"
    "mp_effuid z = (if st_mode (im_first im) AND I_SET_UID_BIT \<noteq> 0 then st_uid (im_first im) else mp_effuid p)"
    "mp_effgid z = (if st_mode (im_first im) AND I_SET_GID_BIT \<noteq> 0 then ucast (st_gid (im_first im)) else mp_effgid p)"
    "mp_procargs z = push_bit PM_CLICK_SHIFT c - im_stk im" "\<not> has z TRACED"
proof -
  have w: "mp_ignore (with_file st q) = mp_ignore q" "mp_sigmask (with_file st q) = mp_sigmask q" "has (with_file st q) TRACED = has q TRACED"
    "mp_effuid (with_file st q) = mp_effuid q" "mp_effgid (with_file st q) = mp_effgid q" by (simp_all add: with_file_def has_def)
  have g: "mp_catch (g (drop_flag SEPARATE a)) = mp_catch a" "mp_ignore (g (drop_flag SEPARATE a)) = mp_ignore a" "mp_sigmask (g (drop_flag SEPARATE a)) = mp_sigmask a"
    "mp_effuid (g (drop_flag SEPARATE a)) = mp_effuid a" "mp_effgid (g (drop_flag SEPARATE a)) = mp_effgid a" "mp_procargs (g (drop_flag SEPARATE a)) = mp_procargs a"
    "has (g (drop_flag SEPARATE a)) TRACED = has a TRACED"
    if "g = (if h_sep (im_hdr im) then raise_flag SEPARATE else id)" for g a unfolding that by (simp_all add: flag_simps)
  note g = g [OF refl]
  have n: "\<not> has q TRACED" "mp_ignore q = mp_ignore p" "mp_sigmask q = mp_sigmask p" "mp_effuid q = mp_effuid p" "mp_effgid q = mp_effgid p"
    using assms(1,2) by (simp_all add: keeps_rest_def)
  have v: "stack_top (im_stk im) (with_file st q) = push_bit PM_CLICK_SHIFT c - im_stk im"
    using assms(3) by (simp add: stack_top_def with_file_def push_bit_add [symmetric])
  show "\<forall>n \<in> set signals. \<not> bit (mp_catch z) n" by (simp add: z_def started_def Let_def g reset_all_catch(1))
  show "mp_ignore z = mp_ignore p" "mp_sigmask z = mp_sigmask p"
    "mp_effuid z = (if st_mode (im_first im) AND I_SET_UID_BIT \<noteq> 0 then st_uid (im_first im) else mp_effuid p)"
    "mp_effgid z = (if st_mode (im_first im) AND I_SET_GID_BIT \<noteq> 0 then ucast (st_gid (im_first im)) else mp_effgid p)"
    "mp_procargs z = push_bit PM_CLICK_SHIFT c - im_stk im"
    by (simp_all add: z_def started_def Let_def g reset_all_rest with_ids_def w n v)
  have f: "has (a\<lparr>mp_name := x\<rparr>) TRACED = has a TRACED" "has (a\<lparr>mp_procargs := y\<rparr>) TRACED = has a TRACED" "has (with_ids m a) TRACED = has a TRACED" "has (fold reset_sig ns a) TRACED = has a TRACED"
    for a x y m ns by (simp_all add: has_def with_ids_def reset_all_rest)
  show "\<not> has z TRACED" by (simp add: z_def started_def Let_def f g w n)
qed

lemma exec_image_refused:
  assumes "pm_ok F s" "need (sharer s im) (im_hdr im) \<noteq> 0"
    and "sint (gap_clicks (im_hdr im) (im_stk im)) < 0 \<or> (\<forall>b. \<not> block b (need (sharer s im) (im_hdr im)) \<subseteq> F)"
  shows "exec_image e im s = Ret ENOMEM (snd (ask e (CloseFile (im_fd im)) (set_slot (cur s) (raise_flag WAITING) s)))"
  using new_mem_refused [OF assms] by (simp add: exec_image_def Let_def sharer_def ENOMEM_def)

lemma image_runs:
  assumes ok: "pm_ok F s" and e: "env_ok e" "exec_env e" and r: "cur s \<in> lives (vw s)" "cur s + 1 < PM_NR_PROCS" and m: "length (mbuf s) = EXEC_MAX"
    and im: "shareable s im" "clicks_of (h_tot (im_hdr im)) \<noteq> 0" "\<not> h_sep (im_hdr im) \<Longrightarrow> h_text (im_hdr im) = 0"
    and b: "block b (need (sharer s im) (im_hdr im)) \<subseteq> F" "unat b + unat (need (sharer s im) (im_hdr im)) < 2 ^ 32"
    and u: "in_memory F s (sharer s im) (im_hdr im) (im_stk im) b u"
  shows "runs (bnd (load_image e (sharer s im) im u) (\<lambda>_. start_image e im))
    (\<lambda>v t. v = SUSPEND \<and> good t \<and> (\<not> has (slot (cur s) s) TRACED \<longrightarrow> executed F s im b t)) doomed"
proof -
  let ?sh = "sharer s im" and ?h = "im_hdr im" and ?r = "cur s" and ?stk = "im_stk im"
  have len: "length (mproc_tab s) = PM_NR_PROCS" using ok by (simp add: pm_ok_def pm_inv_def)
  obtain hs where hs: "mem_rep hs (exec_free F s im b) 0" "mem_layout (exec_free F s im b) (vw s) (lives (vw s) - {?r})"
      "becomes (s\<lparr>pm_holes := hs\<rparr>) ((vw s)(?r := new_view (vw s) ?sh ?h b (vw s ?r))) u"
    and seg: "mem_vir (mp_seg_S (slot ?r u)) + mem_len (mp_seg_S (slot ?r u)) = clicks_of (h_tot ?h)" "keeps_rest (slot ?r s) (slot ?r u)" "mbuf u = mbuf s"
    using u by (auto simp: in_memory_def Let_def exec_free_def)
  have cu: "cur u = ?r" "length (mproc_tab u) = PM_NR_PROCS" using hs(3) len by (simp_all add: becomes_def same_rest_def)
  obtain x where x: "load_image e ?sh im u = Ret () x" "becomes u ((vw u)(?r := (vw u ?r)\<lparr>v_file := (st_ino (im_file im), st_dev (im_file im), st_ctime (im_file im))\<rparr>)) x"
      "slot ?r x = with_file (im_file im) (slot ?r u)"
    using load_image_ok [OF e(2), of u ?sh im] m seg(3) cu r(2) by auto
  have cx: "cur x = ?r" "length (mproc_tab x) = PM_NR_PROCS" using x(2) cu by (simp_all add: becomes_def same_rest_def)
  obtain t where t: "start_image e im x = bnd (if has (slot ?r t) TRACED then check_sig e (mp_pid (slot ?r t)) (int SIGTRAP) t else Ret 0 t) (\<lambda>_ s. Ret SUSPEND s)"
      "becomes x ((vw x)(?r := (vw x ?r)\<lparr>v_sep := h_sep ?h\<rparr>)) t"
      "slot ?r t = started im (stack_top ?stk (slot ?r x)) (base_name (bstr (drop (im_name im) (name_buf x)))) (slot ?r x)"
  proof -
    have p: "cur x < length (mproc_tab x)" "cur x + 1 < PM_NR_PROCS" using cx r(2) by simp_all
    show thesis using start_image_ok [OF p refl refl, where e = e and im = im] that unfolding cx(1) by blast
  qed
  have "(vw x)(?r := (vw x ?r)\<lparr>v_sep := h_sep ?h\<rparr>) = (vw s)(?r := exec_view s im b)"
    using x(2) hs(3) by (simp add: becomes_def exec_view_def)
  then have bt: "becomes (s\<lparr>pm_holes := hs\<rparr>) ((vw s)(?r := exec_view s im b)) t"
    using becomes_trans [OF becomes_trans [OF hs(3) x(2)] t(2)] by simp
  have pm: "pm_ok (exec_free F s im b) t" by (rule exec_inv [OF ok r(1) im b(1,2) hs(1,2) bt])
  have ex: "\<not> has (slot ?r t) TRACED \<and> executed F s im b t" if tr: "\<not> has (slot ?r s) TRACED"
    using exec_slots [OF seg(2) tr seg(1) t(3) [unfolded x(3)]] pm bt by (simp add: executed_def Let_def becomes_def)
  have g: "good t" using pm by (auto simp: good_def)
  have "runs (start_image e im x) (\<lambda>v t. v = SUSPEND \<and> good t \<and> (\<not> has (slot ?r s) TRACED \<longrightarrow> executed F s im b t)) doomed"
  proof (cases "has (slot ?r s) TRACED")
    case True
    then show ?thesis unfolding t(1) using check_sig_good [OF e(1) g] g by (auto simp: runs_bnd_iff elim!: runs_mono)
  next
    case False
    then show ?thesis unfolding t(1) using ex g by simp
  qed
  then show ?thesis by (simp add: x(1))
qed

lemma exec_image_ok:
  assumes ok: "pm_ok F s" and e: "env_ok e" "exec_env e" and r: "cur s \<in> lives (vw s)" "cur s + 1 < PM_NR_PROCS" and m: "length (mbuf s) = EXEC_MAX"
    and im: "shareable s im" "clicks_of (h_tot (im_hdr im)) \<noteq> 0" "\<not> h_sep (im_hdr im) \<Longrightarrow> h_text (im_hdr im) = 0"
    and fits: "0 \<le> sint (gap_clicks (im_hdr im) (im_stk im))" "block b0 (need (sharer s im) (im_hdr im)) \<subseteq> F"
  shows "\<exists>b. block b (need (sharer s im) (im_hdr im)) \<subseteq> F \<and>
    runs (exec_image e im s) (\<lambda>v t. v = SUSPEND \<and> good t \<and> (\<not> has (slot (cur s) s) TRACED \<longrightarrow> executed F s im b t)) doomed"
proof -
  let ?sh = "sharer s im" and ?h = "im_hdr im" and ?r = "cur s" and ?stk = "im_stk im"
  have len: "length (mproc_tab s) = PM_NR_PROCS" using ok by (simp add: pm_ok_def pm_inv_def)
  have n: "need ?sh ?h \<noteq> 0" using im(2) unat_need [of ?sh ?h] by (metis add_eq_0_iff_both_eq_0 unat_eq_zero unsigned_0)
  have sh: "?sh \<noteq> Some ?r" using first_slot_Some by (fastforce simp: sharer_def find_share_def)
  obtain b where b: "block b (need ?sh ?h) \<subseteq> F" "unat b + unat (need ?sh ?h) < 2 ^ 32" "runs (new_mem e ?sh ?h ?stk s) (\<lambda>v t. v = 0 \<and> in_memory F s ?sh ?h ?stk b t) doomed"
    using new_mem_ok [OF ok e(2) r(1) n fits sh] by blast
  have "runs (exec_image e im s) (\<lambda>v t. v = SUSPEND \<and> good t \<and> (\<not> has (slot ?r s) TRACED \<longrightarrow> executed F s im b t)) doomed"
    unfolding exec_image_def Let_def sharer_def [symmetric] by (rule runs_bnd [OF b(3)]) (use image_runs [OF ok e r m im b(1,2)] in auto)
  then show ?thesis using b(1) by blast
qed

end
