(* ===== verification/Pmexecprops.thy ===== *)
theory Pmexecprops
  imports Pmload
begin

text \<open>
  What \<open>exec\<close> prepares before it replaces an image, the properties of the whole call, and a small executable to try them on.
\<close>

section \<open>Preparation\<close>

text \<open>The buffers keep their length, whatever the image holds.\<close>

lemma blit_length: "blit b d x = Some c \<Longrightarrow> length c = length b"
  by (auto simp: blit_def split: if_splits)

lemma move_length: "bmove b d i n = Some c \<Longrightarrow> length c = length b" "bstrcpy b d x = Some c \<Longrightarrow> length c = length b" "set_ptr b j w = Some c \<Longrightarrow> length c = length b"
  by (auto simp: bmove_def bstrcpy_def set_ptr_def blit_length split: if_splits)

lemma patch_from_length: "patch_from ap flag base b = Some c \<Longrightarrow> length c = length b"
proof (induction "EXEC_MAX - ap" arbitrary: ap flag b rule: less_induct)
  case less
  have l: "EXEC_MAX - (ap + PTRSIZE) < EXEC_MAX - ap" if "ap < EXEC_MAX" using that by (simp add: PTRSIZE_def)
  show ?case using less.prems
    by (subst (asm) patch_from.simps) (auto simp: Option.bind_eq_Some_conv move_length dest: less.hyps [OF l] split: if_splits)
qed

lemma put_arg_length: "put_arg b n x rep a0 a1 o' = Some (ok, c, m) \<Longrightarrow> length c = length b"
  by (auto simp: put_arg_def Let_def patch_ptr_def Option.bind_eq_Some_conv split: if_splits dest!: move_length patch_from_length)

lemma insert_arg_length: "insert_arg b n x rep = Some (ok, c, m) \<Longrightarrow> length c = length b"
  by (auto simp: insert_arg_def Let_def Option.bind_eq_Some_conv put_arg_length split: if_splits option.splits)

lemma patch_words_length: "patch_words sp i script b n = Some (i', script', c, m) \<Longrightarrow> length c = length b"
proof (induction sp arbitrary: i script b n rule: less_induct)
  case (less sp)
  have l: "back_word x (back_blanks script sp) < sp" if "0 < back_blanks script sp" for x
    using that back_le(1) [of x "back_blanks script sp"] back_le(2) [of script sp] back_le(3) [of sp script] by (cases sp) auto
  show ?case using less.prems
    by (subst (asm) patch_words.simps) (auto simp: Let_def insert_arg_length dest: less.IH [OF l] split: if_splits option.splits)
qed

lemma patch_stack_length: "patch_stack line b n script = Some (i, script', c, m) \<Longrightarrow> length c = length b"
  by (auto simp: patch_stack_def Option.bind_eq_Some_conv insert_arg_length dest!: patch_words_length split: if_splits option.splits)

text \<open>A state that differs in the log and the buffers only.\<close>

definition scratch :: "pmst \<Rightarrow> pmst \<Rightarrow> bool" where
  "scratch s t \<longleftrightarrow> t\<lparr>kcalls := kcalls s, mbuf := mbuf s, name_buf := name_buf s\<rparr> = s \<and> length (mbuf t) = length (mbuf s)"

lemma scratch_refl [simp]: "scratch s s"
  by (simp add: scratch_def)

lemma scratch_steps:
  "scratch s t \<Longrightarrow> scratch s (t\<lparr>kcalls := k\<rparr>)" "scratch s t \<Longrightarrow> scratch s (snd (ask e c t))" "scratch s t \<Longrightarrow> scratch s (tell_fs e a b i j t)"
  "scratch s t \<Longrightarrow> scratch s (t\<lparr>name_buf := n\<rparr>)" "scratch s t \<Longrightarrow> length m = length (mbuf t) \<Longrightarrow> scratch s (t\<lparr>mbuf := m\<rparr>)"
  by (cases s; cases t; auto simp: scratch_def ask_def tell_fs_def)+

definition header_ok :: "header \<Rightarrow> bool" where
  "header_ok h \<longleftrightarrow> clicks_of (h_tot h) \<noteq> 0 \<and> (\<not> h_sep h \<longrightarrow> h_text h = 0)"

lemma allowed_scratch:
  assumes "exec_env e" "scratch s t"
  shows "runs (allowed e name t) (\<lambda>_. scratch s) (\<lambda>b _. b = Fault)"
proof -
  have "\<not> a_res (e (Fstat fd # l)) < 0" for fd l using assms(1) by (simp add: exec_env_def not_less)
  then show ?thesis using assms(2) by (auto simp: allowed_def Let_def ask_def intro!: scratch_steps)
qed

lemma read_header_scratch:
  assumes "scratch s t"
  shows "runs (read_header e fd sc t) (\<lambda>(m, h) u. scratch s u \<and> (0 \<le> m \<longrightarrow> header_ok h)) (\<lambda>b _. b = Fault)"
proof -
  have "header_ok (header_of b)" if "0 \<le> check_sizes (header_of b) sc" for b
    using that by (auto simp: header_ok_def check_sizes_def Let_def header_of_def ENOEXEC_def split: if_splits)
  then show ?thesis using assms
    by (auto simp: read_header_def Let_def ask_def ENOEXEC_def ESCRIPT_def intro!: scratch_steps(1))
qed

lemma exec_try_scratch:
  assumes "exec_env e" "scratch s t"
  shows "runs (exec_try e off stk t) (\<lambda>r u. scratch s u \<and> (\<forall>fd st m h. r = Inr (fd, st, m, h) \<longrightarrow> 0 \<le> m \<longrightarrow> header_ok h)) (\<lambda>b _. b = Fault)"
proof -
  have "scratch s (tell_fs e FS_CHDIR (int (who t)) 0 0 t)" using assms(2) by (rule scratch_steps)
  note a = allowed_scratch [OF assms(1) this]
  show ?thesis unfolding exec_try_def Let_def
    by (auto simp: runs_bnd_iff split_beta intro!: runs_mono [OF a] runs_mono [OF read_header_scratch])
qed

text \<open>What preparation leaves: the table as it was, and a header that has been checked.\<close>

definition prepared :: "pmst \<Rightarrow> int + exec_img \<Rightarrow> pmst \<Rightarrow> bool" where
  "prepared s r u \<longleftrightarrow> scratch s u \<and> (\<forall>im. r = Inr im \<longrightarrow> header_ok (im_hdr im))"

lemma no_exec_prepared: "scratch s t \<Longrightarrow> runs (no_exec e fd stk t) (prepared s) B"
  by (simp add: no_exec_def prepared_def scratch_steps)

lemma read_line_scratch:
  assumes "scratch s t"
  shows "scratch s (snd (read_line e fd stk t))" "mbuf (snd (read_line e fd stk t)) = mbuf t"
  using assms by (auto simp: read_line_def ask_def Let_def intro!: scratch_steps(1) split: option.split bool.split)

lemma exec_script_prepared:
  assumes "exec_env e" "scratch s t"
  shows "runs (exec_script e fd st stk t) (prepared s) (\<lambda>b _. b = Fault)"
proof -
  obtain line u where l: "read_line e fd stk t = (line, u)" by fastforce
  have u: "scratch s u" using read_line_scratch(1) [OF assms(2), of e fd stk] l by simp
  show ?thesis
  proof (cases "patch_stack line (mbuf u) stk (name_buf u)")
    case (Some z)
    obtain i script b n where z: "z = (i, script, b, n)" by (cases z)
    let ?v = "u\<lparr>mbuf := b, name_buf := script\<rparr>"
    have v: "scratch s ?v" using u patch_stack_length [OF Some [unfolded z]] by (intro scratch_steps)
    note t = exec_try_scratch [OF assms(1) scratch_steps(2) [OF v]]
    show ?thesis
    proof (cases i)
      case None
      then show ?thesis using l Some z no_exec_prepared [OF v] by (simp add: exec_script_def)
    next
      case (Some off)
      have "runs (exec_script e fd st stk t) (prepared s) (\<lambda>b _. b = Fault) \<longleftrightarrow>
          runs (bnd (exec_try e off n (snd (ask e (CloseFile fd) ?v))) (\<lambda>r s. case r of Inl err \<Rightarrow> Ret (Inl err) s
            | Inr (fd, st1, m, h) \<Rightarrow> if m < 0 then no_exec e fd n s
                else Ret (Inr \<lparr>im_fd = fd, im_hdr = h, im_file = st1, im_first = st, im_name = off, im_stk = n\<rparr>) s)) (prepared s) (\<lambda>b _. b = Fault)"
        using l Some z \<open>patch_stack line (mbuf u) stk (name_buf u) = Some z\<close> by (simp add: exec_script_def)
      also have "\<dots>" unfolding runs_bnd_iff
        by (rule runs_mono [OF t]) (auto simp: no_exec_prepared prepared_def [of s "Inl _"] prepared_def [of s "Inr _"] split: sum.split)
      finally show ?thesis .
    qed
  qed (use l in \<open>simp add: exec_script_def\<close>)
qed

lemma exec_prepare_ok:
  assumes "exec_env e" "length (mbuf s) = EXEC_MAX"
  shows "runs (exec_prepare e s) (prepared s) (\<lambda>b _. b = Fault)"
proof -
  have f: "runs (exec_find e stk t) (prepared s) (\<lambda>b _. b = Fault)" if "scratch s t" for stk t
    unfolding exec_find_def runs_bnd_iff
    by (rule runs_mono [OF exec_try_scratch [OF assms(1) that]])
      (auto simp: exec_script_prepared [OF assms(1)] no_exec_prepared prepared_def [of s "Inl _"] prepared_def [of s "Inr _"] split: sum.split)
  have u: "unat stk \<le> EXEC_MAX" if "stk \<le> word_of_nat EXEC_MAX" for stk :: "32 word" using that by (simp add: word_le_nat_alt EXEC_MAX_def)
  have c: "length (copy_in (unat stk) x (mbuf s)) = length (mbuf s)" if "\<not> word_of_nat EXEC_MAX < stk" for stk :: "32 word" and x
    using u [of stk] that assms(2) by (simp add: copy_in_def not_less min_def)
  show ?thesis unfolding exec_prepare_def Let_def
    by (auto simp: ask_def prepared_def [of s "Inl _"] c intro!: f scratch_steps)
qed

lemma prepared_same:
  assumes "prepared s r u"
  shows "mproc_tab u = mproc_tab s" "cur u = cur s" "pm_holes u = pm_holes s" "length (mbuf u) = length (mbuf s)" "same s u" "vw u = vw s" "slot q u = slot q s"
proof -
  have e: "u\<lparr>kcalls := kcalls s, mbuf := mbuf s, name_buf := name_buf s\<rparr> = s" "length (mbuf u) = length (mbuf s)" using assms by (simp_all add: prepared_def scratch_def)
  show t: "mproc_tab u = mproc_tab s" "cur u = cur s" "pm_holes u = pm_holes s" "length (mbuf u) = length (mbuf s)"
    using e by (cases s; cases u; simp)+
  show v: "vw u = vw s" "slot q u = slot q s" by (simp_all add: vw_def slot_def t fun_eq_iff)
  show "same s u" unfolding same_def using v(1) e(1) by (cases s; cases u) (simp add: same_rest_def)
qed

section \<open>Properties\<close>

text \<open>Whether there is room for the image: the stack and the data fit into the size the header names, and free memory of that size exists.\<close>

definition has_room :: "nat set \<Rightarrow> pmst \<Rightarrow> exec_img \<Rightarrow> bool" where
  "has_room F s im \<longleftrightarrow> 0 \<le> sint (gap_clicks (im_hdr im) (im_stk im)) \<and> (\<exists>b. block b (need (sharer s im) (im_hdr im)) \<subseteq> F)"

lemma prepared_exec:
  assumes "prepared s r u"
  shows "sharer u im = sharer s im" "executed F u im b t = executed F s im b t" "has_room F u im = has_room F s im" "shareable u im = shareable s im"
proof -
  note p = prepared_same [OF assms]
  have f: "first_slot t rs u = first_slot t rs s" for t rs by (induction rs) (simp_all add: p(7))
  show sh: "sharer u im = sharer s im" by (simp add: sharer_def find_share_def f p(2))
  then show "has_room F u im = has_room F s im" "shareable u im = shareable s im" by (simp_all add: has_room_def shareable_def p(6))
  have "exec_free F u im b = exec_free F s im b" using freed_vw [OF p(6), of "cur s"] by (simp add: exec_free_def sh p(2))
  then show "executed F u im b t = executed F s im b t" by (simp add: executed_def sh exec_view_def p(2,6,7))
qed

lemma do_exec_ok:
  assumes ok: "pm_ok F s" and e: "env_ok e" "exec_env e" and r: "cur s \<in> lives (vw s)" "cur s + 1 < PM_NR_PROCS" and m: "length (mbuf s) = EXEC_MAX"
    and im: "exec_prepare e s = Ret (Inr im) u" "shareable s im"
  shows "if has_room F s im
    then \<exists>b. block b (need (sharer s im) (im_hdr im)) \<subseteq> F \<and>
      runs (do_exec e s) (\<lambda>v t. v = SUSPEND \<and> good t \<and> (\<not> has (slot (cur s) s) TRACED \<longrightarrow> executed F s im b t)) doomed
    else \<exists>t. do_exec e s = Ret ENOMEM t \<and> vw t = (vw s)(cur s := (vw s (cur s))\<lparr>v_wait := True\<rparr>)"
proof -
  have pr: "prepared s (Inr im) u" using exec_prepare_ok [OF e(2) m] im(1) by simp
  note p = prepared_same [OF pr] prepared_exec [OF pr]
  have h: "clicks_of (h_tot (im_hdr im)) \<noteq> 0" "\<not> h_sep (im_hdr im) \<Longrightarrow> h_text (im_hdr im) = 0" using pr by (auto simp: prepared_def header_ok_def)
  have ok': "pm_ok F u" using pm_ok_calm [OF same_calm [OF p(5)] ok] .
  have d: "do_exec e s = exec_image e im u" using im(1) by (simp add: do_exec_def)
  show ?thesis
  proof (cases "has_room F s im")
    case True
    then obtain b0 where b0: "0 \<le> sint (gap_clicks (im_hdr im) (im_stk im))" "block b0 (need (sharer u im) (im_hdr im)) \<subseteq> F" by (auto simp: has_room_def p)
    have "cur u \<in> lives (vw u)" "cur u + 1 < PM_NR_PROCS" "length (mbuf u) = EXEC_MAX" "shareable u im" using r m im(2) by (simp_all add: p)
    from exec_image_ok [OF ok' e this h b0] show ?thesis using True by (simp add: d p)
  next
    case False
    have "need (sharer u im) (im_hdr im) \<noteq> 0" using h(1) unat_need [of "sharer u im" "im_hdr im"] by (metis add_eq_0_iff_both_eq_0 unat_eq_zero unsigned_0)
    moreover have "sint (gap_clicks (im_hdr im) (im_stk im)) < 0 \<or> (\<forall>b. \<not> block b (need (sharer u im) (im_hdr im)) \<subseteq> F)" using False by (auto simp: has_room_def p)
    ultimately have "exec_image e im u = Ret ENOMEM (snd (ask e (CloseFile (im_fd im)) (set_slot (cur u) (raise_flag WAITING) u)))" by (rule exec_image_refused [OF ok'])
    moreover have "cur u < length (mproc_tab u)" using ok' r(2) by (simp add: pm_ok_def pm_inv_def)
    ultimately show ?thesis using False waiting_view [of "cur u" u] by (simp add: d p ask_def)
  qed
qed

section \<open>Cleared memory\<close>

text \<open>The bytes that \<open>new_mem\<close> clears, and those of the core image (data, gap and stack).\<close>

definition cleared :: "nat option \<Rightarrow> header \<Rightarrow> 32 word \<Rightarrow> 32 word \<Rightarrow> nat set" where
  "cleared sh h stk b = {unat (zero_base sh h b)..<unat (zero_base sh h b) + unat (zero_bytes h stk)}"

definition core_bytes :: "nat option \<Rightarrow> header \<Rightarrow> 32 word \<Rightarrow> nat set" where
  "core_bytes sh h b = {1024 * unat (b + text_clicks sh h)..<1024 * (unat (b + text_clicks sh h) + unat (clicks_of (h_tot h)))}"

lemma unat_push: "unat w < 2 ^ 22 \<Longrightarrow> unat (push_bit PM_CLICK_SHIFT w :: 32 word) = 1024 * unat w"
  by (simp add: PM_CLICK_SHIFT_def push_bit_eq_mult unat_mult_lem [THEN iffD1] mult.commute)

lemma cleared_iff:
  assumes "unat (b + text_clicks sh h) + unat (clicks_of (h_tot h)) < 2 ^ 22"
  shows "cleared sh h stk b \<subseteq> core_bytes sh h b \<longleftrightarrow> unat (h_data h) div 1024 \<le> unat (clicks_of (h_tot h))"
proof -
  define B where "B = b + text_clicks sh h"
  define T where "T = clicks_of (h_tot h)"
  define d where "d = drop_bit PM_CLICK_SHIFT (h_data h)"
  have ud: "unat d = unat (h_data h) div 1024" unfolding d_def PM_CLICK_SHIFT_def unat_drop_bit_eq by (simp add: drop_bit_eq_div)
  have "unat (h_data h) < 2 ^ 22 * 1024" using unsigned_less [of "h_data h"] by simp
  then have "unat d < 2 ^ 22" unfolding ud using less_mult_imp_div_less by blast
  moreover have "unat B + unat T < 2 ^ 22" using assms by (simp add: B_def T_def)
  ultimately have pb: "unat (push_bit PM_CLICK_SHIFT B :: 32 word) = 1024 * unat B" "unat (push_bit PM_CLICK_SHIFT d :: 32 word) = 1024 * unat d"
      "unat (push_bit PM_CLICK_SHIFT T :: 32 word) = 1024 * unat T" and lt: "unat d < 2 ^ 22" "1024 * unat B + 1024 * unat T < 2 ^ 32" by (simp_all add: unat_push)
  have zb: "zero_base sh h b = push_bit PM_CLICK_SHIFT B + push_bit PM_CLICK_SHIFT d" by (simp add: zero_base_def B_def d_def)
  have zn: "zero_bytes h stk = push_bit PM_CLICK_SHIFT T - push_bit PM_CLICK_SHIFT d" by (simp add: zero_bytes_def T_def d_def gap_clicks_def)
  have core: "core_bytes sh h b = {1024 * unat B..<1024 * (unat B + unat T)}" by (simp add: core_bytes_def B_def T_def)
  show ?thesis
  proof (cases "unat d \<le> unat T")
    case True
    then have n: "unat (zero_bytes h stk) = 1024 * unat T - 1024 * unat d" unfolding zn using pb by (subst unat_sub) (simp_all add: word_le_nat_alt)
    have "unat (zero_base sh h b) = 1024 * unat B + 1024 * unat d" unfolding zb using pb lt True by (subst unat_add_lem [THEN iffD1]) simp_all
    then show ?thesis using True n by (auto simp: cleared_def core ud [symmetric] T_def [symmetric])
  next
    case False
    then have "push_bit PM_CLICK_SHIFT T < (push_bit PM_CLICK_SHIFT d :: 32 word)" using pb by (simp add: word_less_nat_alt)
    then have "unat (zero_bytes h stk) = 2 ^ 32 + 1024 * unat T - 1024 * unat d" using False by (simp add: zn unat_sub_if' word_le_nat_alt pb)
    then have "1024 * unat T < unat (zero_bytes h stk)" using lt(1) by simp
    then have "card (core_bytes sh h b) < card (cleared sh h stk b)" by (simp add: cleared_def core)
    then have "\<not> cleared sh h stk b \<subseteq> core_bytes sh h b" using card_mono [of "core_bytes sh h b" "cleared sh h stk b"] by (auto simp: core)
    then show ?thesis using False by (simp add: ud [symmetric] T_def [symmetric])
  qed
qed

text \<open>C35: Which memory \<open>new_mem\<close> clears. It lies in the core image of the new program if and only if the initialized data that the header names are no larger than
  the whole image. \<open>read_header\<close> does not make sure of that: it compares the sum of data and bss, which may wrap around, so that a file can make the
  process manager clear memory of other processes.\<close>

theorem pm_exec_clears_own_memory:
  assumes "unat (b + text_clicks sh h) + unat (clicks_of (h_tot h)) < 2 ^ 22"
  shows "cleared sh h stk b \<subseteq> core_bytes sh h b \<longleftrightarrow> unat (h_data h) div 1024 \<le> unat (clicks_of (h_tot h))"
  using cleared_iff [OF assms] .

definition wrapping :: header where
  "wrapping = \<lparr>h_sep = True, h_text = 1024, h_data = 0xFFFFF000, h_bss = 0x2000, h_tot = 0x10000, h_syms = 0, h_pc = 0\<rparr>"

theorem pm_exec_clears_own_memory_witness:
  "check_sizes wrapping 1 = 0 \<and> \<not> cleared None wrapping 1024 100 \<subseteq> core_bytes None wrapping 100"
proof -
  have "clicks_of 0x10000 = 64" "clicks_of 1024 = 1" "clicks_of 4294971392 = 4" by (simp_all add: clicks_of_def PM_CLICK_SHIFT_def)
  then show ?thesis using pm_exec_clears_own_memory [of 100 None wrapping 1024]
    by (simp add: wrapping_def text_clicks_def check_sizes_def Let_def)
qed

section \<open>A program\<close>

text \<open>A file system with one file: an executable without separate instruction and data space, with one click of data and eight clicks in all.\<close>

definition program :: bytes where
  "program = [0x01, 0x03, 0x10, 0x10, 0x20, 0, 0, 0] @ bytes4 0 @ bytes4 0x400 @ bytes4 0 @ bytes4 0 @ bytes4 0x2000 @ bytes4 0"

definition env1 :: env where
  "env1 l = \<lparr>a_res = (case l of OpenFile _ # _ \<Rightarrow> 3 | ReadFile _ _ # _ \<Rightarrow> 32 | _ \<Rightarrow> 0), a_1 = 0, a_2 = 0, a_3 = 0,
     a_data = (case l of ReadFile _ _ # _ \<Rightarrow> program | CopyIn _ _ _ # _ \<Rightarrow> [97, 0] | _ \<Rightarrow> []),
     a_stat = \<lparr>st_dev = 1, st_ino = 7, st_mode = 0x81ED, st_uid = 0, st_gid = 0, st_ctime = 0\<rparr>\<rparr>"

definition exec_mess :: pmess where
  "exec_mess = mess0\<lparr>m_w0 := 2\<rparr>"

lemma env1_ok: "env_ok env1" "exec_env env1"
  by (simp_all add: env_ok_def exec_env_def env1_def)

lemma program_header: "take A_MINHDR program = program" "\<not> bad_header program" "hdr_byte program 0 = 1"
  "header_of program = \<lparr>h_sep = False, h_text = 0, h_data = 0x400, h_bss = 0, h_tot = 0x2000, h_syms = 0, h_pc = 0\<rparr>" "hdr_byte program 4 = 0x20"
  by (simp_all add: program_def bytes4_def A_MINHDR_def bad_header_def hdr_byte_def header_of_def hdr_long_def A_I80386_def A_NSYM_def A_EXEC_def A_SEP_def Let_def)

definition img1 :: exec_img where
  "img1 = \<lparr>im_fd = 3, im_hdr = header_of program, im_file = a_stat (env1 []), im_first = a_stat (env1 []), im_name = 0, im_stk = 0\<rparr>"

lemma program_sizes: "check_sizes (header_of program) 0 = 0" "clicks_of 0 = 0" "clicks_of 0x2000 = 8" "clicks_of 0x400 = 1"
proof -
  show c: "clicks_of 0 = 0" "clicks_of 0x2000 = 8" "clicks_of 0x400 = 1" by (simp_all add: clicks_of_def PM_CLICK_SHIFT_def)
  show "check_sizes (header_of program) 0 = 0" by (simp add: program_header check_sizes_def Let_def c word_le_nat_alt)
qed

lemma read_program: "\<exists>t. read_header env1 fd 0 s = Ret (0, header_of program) t"
proof -
  have a: "a_res (env1 (ReadFile fd n # l)) = 32" "a_data (env1 (ReadFile fd n # l)) = program" for l n by (simp_all add: env1_def)
  have t: "take 32 program = program" using program_header(1) by (simp add: A_MINHDR_def)
  show ?thesis using program_sizes(1) by (simp add: read_header_def ask_def Let_def a A_MINHDR_def ENOEXEC_def t program_header(2,3,5))
qed

lemma allowed_program: "\<exists>t. allowed env1 n s = Ret (3, a_stat (env1 [])) t \<and> name_buf t = name_buf s"
proof -
  have a: "a_res (env1 (Access n # l)) = 0" "a_res (env1 (OpenFile n # l)) = 3" "a_res (env1 (Fstat fd # l)) = 0" "a_stat (env1 l) = a_stat (env1 [])"
    "st_mode (a_stat (env1 [])) AND I_TYPE = I_REGULAR" for l fd by (simp_all add: env1_def I_TYPE_def I_REGULAR_def)
  show ?thesis by (simp add: allowed_def ask_def Let_def a(1-3,5) a(4) [of "_ # _"] tell_fs_def)
qed

lemma prepare_program:
  assumes "length (name_buf s) = PATH_MAX" "m_in s = exec_mess"
  shows "\<exists>u. exec_prepare env1 s = Ret (Inr img1) u"
proof -
  have a: "a_res (env1 (CopyIn r w n # l)) = 0" "a_data (env1 (CopyIn r w n # l)) = [97, 0]" for r w n l by (simp_all add: env1_def)
  have f: "\<exists>u. exec_find env1 0 t = Ret (Inr img1) u" if "0 \<in> set (name_buf t)" for t
  proof -
    define v where "v = tell_fs env1 FS_CHDIR (int (who t)) 0 0 t"
    obtain u where u: "allowed env1 (bstr (name_buf v)) v = Ret (3, a_stat (env1 [])) u" using allowed_program by blast
    obtain w where w: "read_header env1 3 0 u = Ret (0, header_of program) w" using read_program by blast
    have "name_buf v = name_buf t" by (simp add: v_def tell_fs_def ask_def)
    then have "exec_try env1 0 0 t = Ret (Inr (3, a_stat (env1 []), 0, header_of program)) w"
      using that u w by (simp add: exec_try_def v_def [symmetric] program_sizes(2))
    then show ?thesis by (simp add: exec_find_def ESCRIPT_def img1_def)
  qed
  show ?thesis using f assms(2) by (simp add: exec_prepare_def Let_def ask_def a exec_mess_def mess0_def m1_i1_def PATH_MAX_def EXEC_MAX_def copy_in_def)
qed

text \<open>C34: Exec, for a live caller that is not in the last slot of the process table (there the terminator of its name is written behind
  the table), when the requests of \<open>exec\<close> to the kernel and the file server do not fail (\<open>env_ok\<close>, \<open>exec_env\<close>), and when a process that runs the same
  file, if there is one, is alive and the file has separate instruction and data space (\<open>shareable\<close>). Once the file has been found executable and its
  header has been checked, either there is no room: the call fails with \<open>ENOMEM\<close>, and the only change to the table is that the caller is marked as waiting,
  although it is not; or the caller gets the memory it needs from what was free and does not reply. For a caller that is not traced, its old core image, and its
  text unless another process shares it, then become free, the text of a process that runs the same file is shared, and the process keeps its identity; the
  signals that were caught have their default again, those ignored or blocked stay so, a set-uid or set-gid file changes the effective ids, and the
  stack starts below the end of the image. For a traced caller, which is trapped at the end, only the invariant is stated. The only panics are those of a
  system without one of its roots, or with a full hole table.\<close>

theorem pm_exec_correct:
  assumes "pm_ok F s" and "env_ok e" and "exec_env e" and "cur s \<in> lives (vw s)" and "cur s + 1 < PM_NR_PROCS" and "length (mbuf s) = EXEC_MAX"
    and "exec_prepare e s = Ret (Inr im) u" and "shareable s im"
  shows "if has_room F s im
    then \<exists>b. block b (need (sharer s im) (im_hdr im)) \<subseteq> F \<and>
      runs (do_exec e s) (\<lambda>v t. v = SUSPEND \<and> good t \<and> (\<not> has (slot (cur s) s) TRACED \<longrightarrow> executed F s im b t)) doomed
    else \<exists>t. do_exec e s = Ret ENOMEM t \<and> vw t = (vw s)(cur s := (vw s (cur s))\<lparr>v_wait := True\<rparr>)"
  using do_exec_ok [OF assms] .

theorem pm_exec_correct_witness:
  "\<exists>h b. block b 8 \<subseteq> free0 \<and> runs (do_exec env1 (pm0 1 8 59 exec_mess h)) (\<lambda>v t. v = SUSPEND \<and> executed free0 (pm0 1 8 59 exec_mess h) img1 b t) doomed"
proof -
  obtain h where h: "mem_rep h free0 0" using holes0_rep by blast
  let ?s = "pm0 1 8 59 exec_mess h"
  have ok: "pm_ok free0 ?s" using pm0_ok [of 1 h 8] h by simp
  have c: "cur ?s \<in> lives (vw ?s)" "cur ?s + 1 < PM_NR_PROCS" using pm0_sets(2) [of 1] by (simp_all add: PM_NR_PROCS_def)
  have b: "length (mbuf ?s) = EXEC_MAX" "length (name_buf ?s) = PATH_MAX" by (simp_all add: pm0_def EXEC_MAX_def PATH_MAX_def)
  obtain u where u: "exec_prepare env1 ?s = Ret (Inr img1) u" using prepare_program [OF b(2)] by auto
  have n: "sharer ?s img1 = None"
    unfolding sharer_def find_share_def first_slot_None by (auto simp: slot_pm0 PM_NR_PROCS_def has_bits proc0_def servant_def)
  have hd: "im_hdr img1 = \<lparr>h_sep = False, h_text = 0, h_data = 0x400, h_bss = 0, h_tot = 0x2000, h_syms = 0, h_pc = 0\<rparr>" "im_stk img1 = 0"
    by (simp_all add: img1_def program_header)
  have nd: "need None (im_hdr img1) = 8" by (simp add: need_def text_clicks_def hd program_sizes)
  have "block 100 8 \<subseteq> free0" by (auto simp: block_def)
  then have rm: "has_room free0 ?s img1" unfolding has_room_def n nd by (auto simp: gap_clicks_def hd program_sizes)
  have sh: "shareable ?s img1" using n by (simp add: shareable_def)
  have tr: "\<not> has (slot 8 ?s) TRACED" by (simp add: slot_pm0 has_bits proc0_def)
  obtain b where "block b 8 \<subseteq> free0" "runs (do_exec env1 ?s) (\<lambda>v t. v = SUSPEND \<and> good t \<and> executed free0 ?s img1 b t) doomed"
    using pm_exec_correct [OF ok env1_ok c b(1) u sh] rm n nd tr by auto
  then show ?thesis by (intro exI [of _ h] exI [of _ b]) (auto elim!: runs_mono)
qed

end
