(* ===== verification/Spec2Isabelle.thy ===== *)
theory Spec2Isabelle
  imports Bootprops Hostsafe Mprops Pmexecprops
begin

text \<open>
  \<^bold>\<open>DugOS.\<close> A 32-bit teaching kernel (\<open>src/src\<close>), the hosted prototype of its shell (\<open>src/dug_os.c\<close>), and
  the core of the MINIX 3 sources that the repository carries as its reference (\<open>src/reference/minix\<close>).

  \<^bold>\<open>The program.\<close> \<open>kmain\<close> initialises the VGA text screen, the GDT, the IDT, the two 8259A interrupt
  controllers, the keyboard driver, a FAT file system in memory and a table of directory paths, enables
  interrupts and enters the shell. The keyboard handler runs on IRQ 1 and fills a ring buffer; the
  shell reads lines through \<open>kbd_getchar\<close>, splits them into words and calls \<open>fs.c\<close> and \<open>dir.c\<close>, which print
  through \<open>vga.c\<close> and read further lines themselves. \<open>dug_os.c\<close> is the same shell as a program on top of
  the C library.

  \<^bold>\<open>Conventions\<close> (theory \<open>Prelude\<close>). A \<open>char\<close> array is a list of bytes, a pointer the rest of its object; an
  access outside is the outcome \<open>Fault\<close>, never a default value. Code that can fault, wait or power off
  returns an \<open>outcome\<close>. Fixed-width integers are words; \<open>int\<close> counters that stay small are \<open>nat\<close> or \<open>int\<close>. Global
  variables are fields of records that each function takes and returns. Loops over
  tables and strings end by a measure, and the loops that wait for keys or read lines end by
  the list of key events (or the text) still to come, which is finite and arbitrary. When it is used
  up the outcome is \<open>Blocked\<close>, the CPU sleeping in \<open>hlt\<close>. One function has fuel, \<open>pm_exit_n\<close>: the exit of a session leader
  signals its group, whose members may exit in turn. Every exit takes away a live process, so \<open>PM_NR_PROCS + 1\<close> levels are enough, and
  \<open>pm_run_safe\<close> shows that the outcome is never \<open>Blocked\<close>. Uninitialised automatic buffers hold the arbitrary bytes \<open>junk\<close>.

  \<^bold>\<open>Theories and sources.\<close>
  \<^item> \<open>Kstring\<close> (\<open>string.c\<close>, \<open>string.h\<close>): the byte loops and their closed forms.
  \<^item> \<open>Vga\<close> (\<open>vga.c\<close>): cursor, scrolling, numbers; the locale \<open>char_sink\<close> lifts what one \<open>vga_putchar\<close> keeps to every
    sequence of output calls. The screen is never written outside its 2000 cells.
  \<^item> \<open>Pic\<close> (\<open>pic.c\<close>, \<open>port.h\<close>): port writes as a log, the 8259A as an automaton over that log, reads as a device parameter.
  \<^item> \<open>Gdt\<close>, \<open>Idt\<close>, \<open>Isr\<close> (\<open>gdt.c\<close>, \<open>idt.c\<close>, \<open>isr.c\<close>, \<open>isr.h\<close>, the stubs of \<open>isr_stubs.s\<close>): the packed tables as the CPU
    reads them back, the frame the stubs build against \<open>struct regs\<close>, the exception report.
  \<^item> \<open>Keyboard\<close> (\<open>keyboard.c\<close>): scan code translation, the ring buffer as an instance of the locale \<open>bounded_queue\<close>, and the
    interleaving of handler and reader as a step relation in which no character is lost.
  \<^item> \<open>Machine\<close>: the kernel state, \<open>irq_dispatch\<close>, \<open>kbd_getchar\<close> and \<open>readline\<close> (the copies in \<open>fs.c\<close>, \<open>dir.c\<close> and \<open>shell.c\<close>).
  \<^item> \<open>Fat\<close>, \<open>Disk\<close>, \<open>Fsops\<close>, \<open>Fsteps\<close>, \<open>Fsinput\<close>, \<open>Fsprops\<close>, \<open>Fsmore\<close> (\<open>fs.c\<close>, \<open>fs.h\<close>): chains in the FAT, the
    invariant \<open>fs_wf\<close> (chains of distinct blocks, disjoint between files, of the right length), the abstraction
    \<open>fs_abs\<close> to a map from name and directory to content, and one refinement theorem per operation, error paths included.
  \<^item> \<open>Dirtab\<close>, \<open>Dirops\<close>, \<open>Dirprops\<close> (\<open>dir.c\<close>, \<open>dir.h\<close>): path construction, the table, and \<open>mkdir\<close>, \<open>cd\<close>, \<open>rmdir\<close>, \<open>ls\<close>.
  \<^item> \<open>Frame\<close>: what every operation leaves alone, by the rules of the locale \<open>framing\<close>.
  \<^item> \<open>Shell\<close>, \<open>Parse\<close>, \<open>Shellprops\<close>, \<open>Shellrun\<close> (\<open>shell.c\<close>): the parser against a specification of words, the dispatcher, which
    keeps the invariant \<open>os_ok\<close> of the whole system, and the endless loop.
  \<^item> \<open>Boot\<close>, \<open>Bootprops\<close> (\<open>main.c\<close>): the boot sequence establishes \<open>os_ok\<close> from the zeroed memory the loader leaves, and
    \<open>kmain\<close> never returns.
  \<^item> \<open>Hosted\<close>, \<open>Hostcmd\<close>, \<open>Hostshell\<close>, \<open>Hostprops\<close>, \<open>Hostsafe\<close> (\<open>src/dug_os.c\<close>): the prototype over a record of operating
    system services; its tables, \<open>fwrite\<close> and \<open>copy\<close>, and the safety and termination of \<open>main\<close>.
  \<^item> \<open>Mlist\<close>, \<open>Msched\<close>, \<open>Mready\<close> (\<open>reference/minix/kernel/proc.c\<close>): linked lists inside a table; \<open>sched\<close>, \<open>pick_proc\<close>,
    \<open>enqueue\<close> and \<open>dequeue\<close>; the ready queues as lists of processes, each process in the queue of its priority, and
    the process chosen to run is the first of the first queue that has one.
  \<^item> \<open>Mipc\<close>, \<open>Mmess\<close>, \<open>Mipcinv\<close>, \<open>Mipcprops\<close>, \<open>Mipcops\<close>, \<open>Msyscall\<close>, \<open>Mstate\<close>, \<open>Mprops\<close> (\<open>proc.c\<close>, \<open>cp_mess\<close>, \<open>restart\<close>): message
    passing. The invariant \<open>minix_ok\<close> says that caller queues hold exactly the blocked senders, that nobody waits in a
    circle and that ready means no flag set; every operation returns and keeps it, and so does every run of
    system calls and interrupts (\<open>mstep\<close>). The locale \<open>ready_set\<close> is the scheduler as its clients see it.
  \<^item> \<open>Mholes\<close>, \<open>Mholeprops\<close>, \<open>Mmemory\<close> (\<open>reference/minix/servers/pm/alloc.c\<close>): the hole table refines a list of intervals and that
    list the set of free clicks; the locale \<open>memory\<close> is the contract of the allocator.
  \<^item> \<open>Pmtab\<close>, \<open>Pmsig\<close>, \<open>Pmcalls\<close>, \<open>Pmmisc\<close>, \<open>Pmexec\<close> (\<open>reference/minix/servers/pm\<close>: \<open>forkexit.c\<close>, \<open>signal.c\<close>, \<open>trace.c\<close>, \<open>break.c\<close>, \<open>getset.c\<close>, \<open>misc.c\<close>,
    \<open>time.c\<close>, \<open>exec.c\<close> and parts of \<open>main.c\<close>, \<open>utility.c\<close>, \<open>timers.c\<close>): the process table, termination and signals, and the calls, on top of the allocator.
    What the process manager asks of the kernel and the file server is a log, their answers are a parameter.
  \<^item> \<open>Pmstack\<close>, \<open>Pmargs\<close>, \<open>Pmscript\<close> (\<open>patch_ptr\<close>, \<open>insert_arg\<close>, \<open>patch_stack\<close> of \<open>exec.c\<close>): the argument stack that \<open>exec\<close> rewrites for a script, as a buffer
    of bytes. A well-formed image (\<open>holds\<close>) stays one, with the words of the \<open>#!\<close> line in front of the arguments; an arbitrary one can make the code
    leave the buffer in exactly one way.
  \<^item> \<open>Pmview\<close>, \<open>Pminv\<close>, \<open>Pmexit\<close>, \<open>Pmfork\<close>, \<open>Pmrun\<close>, \<open>Pmkill\<close>, \<open>Pmprops\<close>: the invariant \<open>pm_ok\<close> (parents are live or \<open>INIT\<close>, identifiers are unique, nobody
    waits for a child that is already dead, core images are disjoint from each other and from the free memory), what fork, exit and wait do, every call and
    every run (\<open>pm_step\<close>) keeps it, and an ordinary process can neither block nor catch \<open>SIGKILL\<close>.
  \<^item> \<open>Pmload\<close>, \<open>Pmexecprops\<close>: \<open>exec\<close> exchanges the core image for one in free memory, shares the text of a process that runs the same file and keeps the invariant; when
    it finds no memory it leaves the caller marked as waiting. The memory it clears is its own exactly when the sizes in the header do not wrap around.

  \<^bold>\<open>Parameters.\<close> The answers of the I/O ports, the addresses the linker gives to tables and stubs, the key events, and,
  for the prototype, the operating system. Where a theorem needs more of them it says so in a hypothesis
  (\<open>pic_device\<close>: a mask register reads back what was written; \<open>file_laws\<close>, \<open>apart\<close>: what the C library says of files; \<open>env_ok\<close>, \<open>exec_env\<close>: the requests on whose
  failure the process manager panics do not fail; \<open>shareable\<close>: processes with the same file id, and the file itself, agree on separate instruction and data space).

  \<^bold>\<open>Limits of the theorems.\<close> File names must fit their field with the NUL (\<open>fits_name\<close>, \<open>path_fits\<close>): the code copies longer ones
  without a terminator. A chain that starts at block 0 is never released by \<open>free_chain\<close>, so the
  theorems on deletion and overwriting say which blocks are lost. The liveness theorems on typing exclude a key that
  arrives between a test of the wait loop and its \<open>hlt\<close> (\<open>arrives\<close>): the model has that point, and \<open>late_key_not_read\<close> shows that the
  reader then sleeps on; the safety theorems allow interrupts at every point of the loop. In the prototype files have a finite content (\<open>os_content\<close>), so
  devices and pipes are not covered. In the MINIX kernel a process must not send to
  itself, to ANY or to a slot that was never used and has no privilege structure (\<open>good_dst\<close>): \<open>self_send_hangs\<close>, \<open>send_any_faults\<close> and
  \<open>send_unused_faults\<close> show what the code does then; the runs of \<open>mstep\<close> leave out only the first of these. The process manager is shown to panic only when
  \<open>INIT\<close>, the reincarnation server or itself is dead or the hole table is full (\<open>doomed\<close>). Four calls are left out of its runs:
  \<open>freemem\<close>, which releases memory its caller need not own, \<open>exec\<close>, which leaves its caller marked as waiting when it finds no memory, \<open>reboot\<close>, which can read
  before its buffer, and \<open>svrctl\<close>, which relies on the form of the boot parameters. \<open>exec\<close> has its own theorem, for all slots but the last, where the code writes behind the table.

  \<^bold>\<open>Not modelled.\<close> \<open>boot.s\<close> and the linker script (assembly and memory layout); the iret path of the interrupt stubs; the timing of
  \<open>io_wait\<close> and of \<open>SLEEP_MS\<close>; of the process manager its boot (\<open>pm_init\<close> and what only it calls); the rest of the MINIX tree under \<open>reference\<close>, which is kept for study and not built: its drivers are port I/O, and its servers
  work through messages to each other.
\<close>

end
